(* ===== verification/Prelude.thy ===== *)
theory Prelude
  imports Complex_Main "HOL-Library.Word" "HOL-Library.Signed_Division"
begin

text \<open>
  Shared vocabulary of the development: the C integer types the pool uses, the outcome of a
  fallible C function (a value, a negative return code with its message, or undefined
  behaviour), checked 64-bit signed arithmetic, and the generic facts on lists and words that
  the component theories rewrite with.
\<close>

unbundle bit_operations_syntax

section \<open>Types\<close>

type_synonym byte = "8 word"
type_synonym u32 = "32 word"
type_synonym u64 = "64 word"

text \<open>
  \<open>Ok x\<close> is a return of 0 with its out-parameters, \<open>Err m\<close> a negative return with the
  format string of the message written to \<open>errbuf\<close> (empty when the code writes none), and \<open>UB\<close> an execution the C standard leaves undefined: a
  signed overflow, an out-of-range conversion from \<open>double\<close>, an out-of-bounds access.
  Allocation failure is not modelled: \<open>malloc\<close>, \<open>calloc\<close> and \<open>realloc\<close> succeed.
\<close>

datatype 'a res = Ok 'a | Err string | UB

fun bindR :: "'a res \<Rightarrow> ('a \<Rightarrow> 'b res) \<Rightarrow> 'b res" where
  "bindR (Ok x) f = f x"
| "bindR (Err m) f = Err m"
| "bindR UB f = UB"

fun is_Ok :: "'a res \<Rightarrow> bool" where
  "is_Ok (Ok x) = True"
| "is_Ok (Err m) = False"
| "is_Ok UB = False"

definition guardR :: "bool \<Rightarrow> string \<Rightarrow> 'a res \<Rightarrow> 'a res" where
  "guardR bad m k = (if bad then Err m else k)"

named_theorems resE
named_theorems bytes_simp

lemma bindR_Ok_iff: "bindR r f = Ok y \<longleftrightarrow> (\<exists>x. r = Ok x \<and> f x = Ok y)"
  by (cases r) auto

lemma bindR_UB_iff: "bindR r f = UB \<longleftrightarrow> r = UB \<or> (\<exists>x. r = Ok x \<and> f x = UB)"
  by (cases r) auto

lemma bindR_OkE [resE]:
  assumes "bindR r f = Ok y"
  obtains x where "r = Ok x" and "f x = Ok y"
  using assms by (auto simp: bindR_Ok_iff)

lemma guardR_Ok_iff [simp]: "guardR bad m k = Ok y \<longleftrightarrow> \<not> bad \<and> k = Ok y"
  by (auto simp: guardR_def)

lemma guardR_UB_iff [simp]: "guardR bad m k = UB \<longleftrightarrow> \<not> bad \<and> k = UB"
  by (auto simp: guardR_def)

lemma guardR_False [simp]: "guardR False m k = k"
  by (simp add: guardR_def)

lemma guardR_True [simp]: "guardR True m k = Err m"
  by (simp add: guardR_def)

lemma is_Ok_iff: "is_Ok r \<longleftrightarrow> (\<exists>x. r = Ok x)"
  by (cases r) auto

section \<open>Signed 64-bit arithmetic\<close>

definition i64_ok :: "int \<Rightarrow> bool" where
  "i64_ok x \<longleftrightarrow> - (2 ^ 63) \<le> x \<and> x < 2 ^ 63"

text \<open>A signed 64-bit result: its value when it is representable, undefined behaviour when not.\<close>

definition chk64 :: "int \<Rightarrow> int res" where
  "chk64 x = (if i64_ok x then Ok x else UB)"

lemma chk64_Ok_iff [simp]: "chk64 x = Ok y \<longleftrightarrow> i64_ok x \<and> y = x"
  by (auto simp: chk64_def)

lemma chk64_not_Err [simp]: "chk64 x \<noteq> Err m"
  by (simp add: chk64_def)

lemma chk64_OkI [simp]: "i64_ok x \<Longrightarrow> chk64 x = Ok x"
  by (simp add: chk64_def)

lemma chk64_UB_iff [simp]: "chk64 x = UB \<longleftrightarrow> \<not> i64_ok x"
  by (simp add: chk64_def)

lemma i64_okI: "- (2 ^ 63) \<le> x \<Longrightarrow> x < 2 ^ 63 \<Longrightarrow> i64_ok x"
  by (simp add: i64_ok_def)

lemma sdiv_nonneg: "0 \<le> (a::int) \<Longrightarrow> 0 < b \<Longrightarrow> a sdiv b = a div b"
  by (simp add: signed_divide_int_def sgn_if)

section \<open>Byte strings\<close>

text \<open>The low \<open>n\<close> bytes of a word, least significant first: the shift-and-cast idiom.\<close>

fun le_bytes :: "nat \<Rightarrow> 'a::len word \<Rightarrow> byte list" where
  "le_bytes 0 w = []"
| "le_bytes (Suc n) w = ucast w # le_bytes n (drop_bit 8 w)"

text \<open>The value of a byte string, least significant byte first and most significant first.\<close>

fun le_val :: "byte list \<Rightarrow> nat" where
  "le_val [] = 0"
| "le_val (b # bs) = unat b + 256 * le_val bs"

definition be_val :: "byte list \<Rightarrow> nat" where
  "be_val bs = le_val (rev bs)"

lemma length_le_bytes [simp, bytes_simp]: "length (le_bytes n w) = n"
  by (induction n arbitrary: w) auto

lemma unat_byte_lt [simp]: "unat (b::byte) < 256"
  using unsigned_less [of b] by simp

lemma unat_ucast_byte: "unat (ucast (w::'a::len word) :: byte) = unat w mod 256"
  by (simp add: unsigned_ucast_eq take_bit_eq_mod)

lemma unat_drop_bit: "unat (drop_bit n (w::'a::len word)) = unat w div 2 ^ n"
  by (metis drop_bit_eq_div unat_drop_bit_eq)

lemma le_val_le_bytes: "le_val (le_bytes n w) = unat (w::'a::len word) mod 256 ^ n"
proof (induction n arbitrary: w)
  case 0
  then show ?case by simp
next
  case (Suc n)
  have "unat w mod 256 ^ Suc n = unat w mod 256 + 256 * (unat w div 256 mod 256 ^ n)"
    by (simp add: mod_mult2_eq)
  then show ?case
    by (simp add: Suc unat_ucast_byte unat_drop_bit)
qed

lemma le_val_bound: "le_val bs < 256 ^ length bs"
proof (induction bs)
  case Nil
  then show ?case by simp
next
  case (Cons b bs)
  have "unat b + 256 * le_val bs < 256 + 256 * le_val bs" by simp
  also have "\<dots> = 256 * Suc (le_val bs)" by simp
  also have "\<dots> \<le> 256 * 256 ^ length bs" using Cons.IH by (intro mult_le_mono2) simp
  finally show ?case by simp
qed

lemma le_val_append: "le_val (as @ bs) = le_val as + 256 ^ length as * le_val bs"
  by (induction as) (auto simp: algebra_simps)

lemma be_val_Cons: "be_val (b # bs) = unat b * 256 ^ length bs + be_val bs"
  by (simp add: be_val_def le_val_append)

lemma be_val_Nil [simp]: "be_val [] = 0"
  by (simp add: be_val_def)

lemma be_val_bound: "be_val bs < 256 ^ length bs"
  using le_val_bound [of "rev bs"] by (simp add: be_val_def)

text \<open>Reading \<open>n\<close> bytes at an offset, as \<open>memcpy\<close> from a buffer does: outside it is undefined.\<close>

definition read_bytes :: "byte list \<Rightarrow> nat \<Rightarrow> nat \<Rightarrow> byte list res" where
  "read_bytes buf off n = (if off + n \<le> length buf then Ok (take n (drop off buf)) else UB)"

lemma read_bytes_Ok_iff:
  "read_bytes buf off n = Ok xs \<longleftrightarrow> off + n \<le> length buf \<and> xs = take n (drop off buf)"
  by (auto simp: read_bytes_def)

lemma length_read_bytes: "read_bytes buf off n = Ok xs \<Longrightarrow> length xs = n"
  by (auto simp: read_bytes_Ok_iff)

section \<open>C strings\<close>

text \<open>
  A C string is a \<open>string\<close> without its terminator; a pointer that may be \<open>NULL\<close> is an option.
  \<open>c_nonempty\<close> is the idiom \<open>p && p[0]\<close>.
\<close>

fun c_nonempty :: "string option \<Rightarrow> bool" where
  "c_nonempty None = False"
| "c_nonempty (Some s) = (s \<noteq> [])"

definition char_byte :: "char \<Rightarrow> byte" where
  "char_byte c = word_of_nat (of_char c)"

definition str_bytes :: "string \<Rightarrow> byte list" where
  "str_bytes s = map char_byte s"

lemma length_str_bytes [simp, bytes_simp]: "length (str_bytes s) = length s"
  by (simp add: str_bytes_def)

text \<open>\<open>snprintf(dst, cap, "%s", s)\<close> into a buffer of \<open>cap\<close> bytes.\<close>

definition c_copy :: "nat \<Rightarrow> string \<Rightarrow> string" where
  "c_copy cap s = take (cap - 1) s"

fun has_prefix :: "string \<Rightarrow> string \<Rightarrow> bool" where
  "has_prefix [] s = True"
| "has_prefix (p # ps) [] = False"
| "has_prefix (p # ps) (c # cs) = (p = c \<and> has_prefix ps cs)"

lemma has_prefix_iff: "has_prefix p s \<longleftrightarrow> take (length p) s = p"
  by (induction p s rule: has_prefix.induct) auto

section \<open>Sums\<close>

lemma sum_list_nonneg_int: "(\<And>x. x \<in> set xs \<Longrightarrow> 0 \<le> x) \<Longrightarrow> 0 \<le> sum_list (xs :: int list)"
  by (induction xs) auto

lemma member_le_sum_list_int:
  "x \<in> set xs \<Longrightarrow> (\<And>y. y \<in> set xs \<Longrightarrow> 0 \<le> y) \<Longrightarrow> (x :: int) \<le> sum_list xs"
proof (induction xs)
  case (Cons a xs)
  then show ?case
    using sum_list_nonneg_int [of xs] by (cases "x = a") (auto intro: add_increasing)
qed simp

lemma list_all2_mono_set:
  "list_all2 P xs ys \<Longrightarrow> (\<And>x y. x \<in> set xs \<Longrightarrow> P x y \<Longrightarrow> Q x y) \<Longrightarrow> list_all2 Q xs ys"
  by (auto simp: list_all2_conv_all_nth)

lemma sum_list_update_int:
  "i < length xs \<Longrightarrow> sum_list (xs[i := v]) = sum_list xs - xs ! i + (v :: int)"
proof (induction xs arbitrary: i)
  case Nil
  then show ?case by simp
next
  case (Cons x xs)
  then show ?case by (cases i) auto
qed

end
