(* ===== verification/Bytes.thy ===== *)
theory Bytes
  imports Prelude
begin

text \<open>
  The byte-level layer of \<^verbatim>\<open>src/coinbase.c\<close> and \<^verbatim>\<open>src/stratum.c\<close>: the growing buffer
  \<open>bbuf_t\<close>, little-endian and varint writers, their readers, the BIP34 height push and the
  hex codecs. The lemmas give the exact bytes each writer appends, that the readers invert
  the writers, and that decoding inverts encoding.
\<close>

section \<open>The growing buffer\<close>

record bbuf =
  bb_data :: "byte list"
  bb_cap :: nat

definition bbuf_init :: bbuf where
  "bbuf_init = \<lparr>bb_data = [], bb_cap = 0\<rparr>"

text \<open>The doubling loop of \<open>bbuf_reserve\<close>; the code starts it at a positive capacity.\<close>

function bbuf_grow :: "nat \<Rightarrow> nat \<Rightarrow> nat" where
  "bbuf_grow nc need = (if 0 < nc \<and> nc < need then bbuf_grow (nc * 2) need else nc)"
  by pat_completeness auto
termination
  by (relation "measure (\<lambda>(nc, need). need - nc)") auto

declare bbuf_grow.simps [simp del]

definition bbuf_reserve :: "bbuf \<Rightarrow> nat \<Rightarrow> bbuf" where
  "bbuf_reserve b need =
     (if bb_cap b \<ge> need then b
      else b\<lparr>bb_cap := bbuf_grow (if bb_cap b \<noteq> 0 then bb_cap b else 64) need\<rparr>)"

definition bbuf_push :: "bbuf \<Rightarrow> byte list \<Rightarrow> bbuf" where
  "bbuf_push b src =
     (let b' = bbuf_reserve b (length (bb_data b) + length src)
      in b'\<lparr>bb_data := bb_data b' @ src\<rparr>)"

definition bbuf_push_u8 :: "bbuf \<Rightarrow> byte \<Rightarrow> bbuf" where
  "bbuf_push_u8 b v = bbuf_push b [v]"

definition bbuf_push_u32_le :: "bbuf \<Rightarrow> u32 \<Rightarrow> bbuf" where
  "bbuf_push_u32_le b v =
     bbuf_push b [ucast v, ucast (drop_bit 8 v), ucast (drop_bit 16 v), ucast (drop_bit 24 v)]"

definition bbuf_push_u64_le :: "bbuf \<Rightarrow> u64 \<Rightarrow> bbuf" where
  "bbuf_push_u64_le b v = bbuf_push b (map (\<lambda>i. ucast (drop_bit (8 * i) v)) [0..<8])"

definition bbuf_push_varint :: "bbuf \<Rightarrow> u64 \<Rightarrow> bbuf" where
  "bbuf_push_varint b n =
     (if n < 0xfd then bbuf_push_u8 b (ucast n)
      else if n \<le> 0xffff then
        bbuf_push (bbuf_push_u8 b 0xfd) [ucast n, ucast (drop_bit 8 n)]
      else if n \<le> 0xffffffff then
        bbuf_push_u32_le (bbuf_push_u8 b 0xfe) (ucast n)
      else bbuf_push_u64_le (bbuf_push_u8 b 0xff) n)"

definition bbuf_ok :: "bbuf \<Rightarrow> bool" where
  "bbuf_ok b \<longleftrightarrow> length (bb_data b) \<le> bb_cap b"

text \<open>The bytes a varint occupies, as a function of its value.\<close>

definition varint_bytes :: "u64 \<Rightarrow> byte list" where
  "varint_bytes n = bb_data (bbuf_push_varint bbuf_init n)"

section \<open>Reading\<close>

text \<open>\<open>v |= (uint64_t)buf[off + i] << (8 * i)\<close> over the bytes from the lowest.\<close>

fun le_word :: "byte list \<Rightarrow> 'a::len word" where
  "le_word [] = 0"
| "le_word (b # bs) = ucast b OR push_bit 8 (le_word bs)"

text \<open>
  A reader returns the value and the advanced offset, or \<open>None\<close> where the code returns -1.
  Offsets never exceed the buffer's length, which is far below \<open>2^64\<close>, so the additions
  of the small constants here do not wrap.
\<close>

definition rd_u32 :: "byte list \<Rightarrow> nat \<Rightarrow> (u32 \<times> nat) option" where
  "rd_u32 buf off =
     (if off + 4 > length buf then None
      else Some (le_word (take 4 (drop off buf)), off + 4))"

definition rd_u64 :: "byte list \<Rightarrow> nat \<Rightarrow> (u64 \<times> nat) option" where
  "rd_u64 buf off =
     (if off + 8 > length buf then None
      else Some (le_word (take 8 (drop off buf)), off + 8))"

definition rd_varint :: "byte list \<Rightarrow> nat \<Rightarrow> (u64 \<times> nat) option" where
  "rd_varint buf off =
     (if off \<ge> length buf then None
      else let b = buf ! off in
        if b < 0xfd then Some (ucast b, off + 1)
        else let n = (if b = 0xfd then 2 else if b = 0xfe then 4 else 8) in
          if off + 1 + n > length buf then None
          else Some (le_word (take n (drop (off + 1) buf)), off + 1 + n))"

section \<open>The BIP34 height push\<close>

text \<open>\<open>while (v > 0) { bytes[n++] = v & 0xff; v >>= 8; }\<close>\<close>

function height_bytes :: "u32 \<Rightarrow> byte list" where
  "height_bytes v = (if v = 0 then [] else ucast v # height_bytes (drop_bit 8 v))"
  by pat_completeness auto
termination
proof (relation "measure (\<lambda>v :: u32. unat v)")
  show "(drop_bit 8 v, v) \<in> measure unat" if "v \<noteq> 0" for v :: u32
  proof -
    have "0 < unat v" using that by (simp add: unat_gt_0)
    then show ?thesis by (simp add: unat_drop_bit)
  qed
qed simp

declare height_bytes.simps [simp del]

definition bip34_height_push :: "u32 \<Rightarrow> byte list" where
  "bip34_height_push height =
     (if height = 0 then [0x00]
      else if height \<le> 16 then [ucast (0x50 + height)]
      else let bytes = height_bytes height;
               bytes' = (if last bytes AND 0x80 \<noteq> 0 then bytes @ [0x00] else bytes)
           in word_of_nat (length bytes') # bytes')"

text \<open>What the node reads back: the operand of a script push of a non-negative number.\<close>

definition script_num :: "byte list \<Rightarrow> nat" where
  "script_num s =
     (case s of [] \<Rightarrow> 0
      | op # rest \<Rightarrow> if op = 0x00 then 0
                     else if 0x51 \<le> op \<and> op \<le> 0x60 then unat op - 0x50
                     else le_val rest)"

section \<open>Hex\<close>

definition hex_nibble :: "char \<Rightarrow> nat option" where
  "hex_nibble c =
     (let n = of_char c :: nat in
      if 48 \<le> n \<and> n \<le> 57 then Some (n - 48)
      else if 97 \<le> n \<and> n \<le> 102 then Some (10 + (n - 97))
      else if 65 \<le> n \<and> n \<le> 70 then Some (10 + (n - 65))
      else None)"

fun hex_pairs :: "string \<Rightarrow> byte list option" where
  "hex_pairs [] = Some []"
| "hex_pairs [c] = None"
| "hex_pairs (h # l # rest) =
     (case (hex_nibble h, hex_nibble l) of
        (Some hi, Some lo) \<Rightarrow>
          (case hex_pairs rest of
             Some bs \<Rightarrow> Some ((push_bit 4 (word_of_nat hi) OR word_of_nat lo) # bs)
           | None \<Rightarrow> None)
      | _ \<Rightarrow> None)"

definition hex_decode :: "string \<Rightarrow> nat \<Rightarrow> byte list option" where
  "hex_decode hex cap =
     (if length hex mod 2 \<noteq> 0 then None
      else if length hex div 2 > cap then None
      else hex_pairs hex)"

text \<open>\<open>hex_to_bytes\<close> and \<open>hex_to_bytes_display\<close>: exactly \<open>outlen\<close> bytes.\<close>

definition hex_to_bytes :: "string option \<Rightarrow> nat \<Rightarrow> byte list option" where
  "hex_to_bytes hex outlen =
     (case hex of None \<Rightarrow> None
      | Some h \<Rightarrow> if length h \<noteq> outlen * 2 then None else hex_pairs h)"

definition hex_to_bytes_alloc :: "string option \<Rightarrow> byte list option" where
  "hex_to_bytes_alloc hex =
     (case hex of None \<Rightarrow> None
      | Some h \<Rightarrow> if length h mod 2 \<noteq> 0 then None else hex_pairs h)"

definition hex_digit :: "nat \<Rightarrow> char" where
  "hex_digit n = ''0123456789abcdef'' ! n"

definition bytes_to_hex :: "byte list \<Rightarrow> string" where
  "bytes_to_hex bs =
     concat (map (\<lambda>b. [hex_digit (unat (drop_bit 4 b AND 0xf)), hex_digit (unat (b AND 0xf))]) bs)"

definition parse_u32_hex :: "string option \<Rightarrow> u32 option" where
  "parse_u32_hex hex =
     (case hex_to_bytes hex 4 of
        None \<Rightarrow> None
      | Some b \<Rightarrow> Some (push_bit 24 (ucast (b ! 0)) OR push_bit 16 (ucast (b ! 1)) OR
                       push_bit 8 (ucast (b ! 2)) OR ucast (b ! 3)))"

section \<open>What the writers append\<close>

lemma bbuf_grow_ge: "0 < nc \<Longrightarrow> need \<le> bbuf_grow nc need"
proof (induction nc need rule: bbuf_grow.induct)
  case (1 nc need)
  then show ?case by (simp add: bbuf_grow.simps [of nc need])
qed

lemma bb_data_reserve [simp]: "bb_data (bbuf_reserve b need) = bb_data b"
  by (simp add: bbuf_reserve_def)

lemma bb_cap_reserve: "need \<le> bb_cap (bbuf_reserve b need)"
  by (simp add: bbuf_reserve_def bbuf_grow_ge)

lemma bb_data_push [simp]: "bb_data (bbuf_push b src) = bb_data b @ src"
  by (simp add: bbuf_push_def Let_def)

lemma bbuf_ok_init [simp]: "bbuf_ok bbuf_init"
  by (simp add: bbuf_ok_def bbuf_init_def)

lemma bb_data_init [simp]: "bb_data bbuf_init = []"
  by (simp add: bbuf_init_def)

lemma bbuf_ok_push [simp]: "bbuf_ok (bbuf_push b src)"
  using bb_cap_reserve [of "length (bb_data b) + length src" b]
  by (simp add: bbuf_ok_def bbuf_push_def Let_def)

lemma le_bytes_4: "le_bytes 4 (v::u32) =
    [ucast v, ucast (drop_bit 8 v), ucast (drop_bit 16 v), ucast (drop_bit 24 v)]"
  by (simp add: numeral_eq_Suc)

lemma le_bytes_map: "le_bytes n (v::'a::len word) = map (\<lambda>i. ucast (drop_bit (8 * i) v)) [0..<n]"
proof (induction n arbitrary: v)
  case 0
  then show ?case by simp
next
  case (Suc n)
  have "map (\<lambda>i. ucast (drop_bit (8 * i) v)) [0..<Suc n] =
      (ucast v :: byte) # map (\<lambda>i. ucast (drop_bit (8 * i) (drop_bit 8 v))) [0..<n]"
    by (subst upt_conv_Cons) (auto simp: map_Suc_upt [symmetric] add.commute simp del: upt_Suc)
  with Suc.IH [of "drop_bit 8 v"] show ?case by (simp only: le_bytes.simps)
qed

lemma bb_data_push_u8 [simp]: "bb_data (bbuf_push_u8 b v) = bb_data b @ [v]"
  by (simp add: bbuf_push_u8_def)

lemma bb_data_push_u32 [simp]: "bb_data (bbuf_push_u32_le b v) = bb_data b @ le_bytes 4 v"
  by (simp add: bbuf_push_u32_le_def le_bytes_4)

lemma bb_data_push_u64 [simp]: "bb_data (bbuf_push_u64_le b v) = bb_data b @ le_bytes 8 v"
  by (simp add: bbuf_push_u64_le_def le_bytes_map del: upt_Suc)

lemma bb_data_push_varint [simp]:
  "bb_data (bbuf_push_varint b n) = bb_data b @ varint_bytes n"
  by (simp add: varint_bytes_def bbuf_push_varint_def)

section \<open>Readers invert writers\<close>

lemma ucast_or_push_bit:
  "8 < LENGTH('a) \<Longrightarrow>
   (ucast (b::byte) OR push_bit 8 w :: 'a::len word) = ucast b + push_bit 8 w"
  by (rule disjunctive_add [symmetric])
    (auto simp: bit_simps dest: bit_imp_le_length)

lemma le_word_eq: "8 < LENGTH('a) \<Longrightarrow> (le_word bs :: 'a::len word) = word_of_nat (le_val bs)"
proof (induction bs)
  case Nil
  then show ?case by simp
next
  case (Cons b bs)
  then have "(le_word (b # bs) :: 'a word) = ucast b + push_bit 8 (word_of_nat (le_val bs))"
    by (simp only: le_word.simps ucast_or_push_bit)
  then show ?case by (simp add: push_bit_eq_mult)
qed

lemma unat_le_word:
  "8 < LENGTH('a) \<Longrightarrow> 8 * length bs \<le> LENGTH('a) \<Longrightarrow> unat (le_word bs :: 'a::len word) = le_val bs"
proof -
  assume w: "8 < LENGTH('a)" and len: "8 * length bs \<le> LENGTH('a)"
  have "(256::nat) ^ length bs = 2 ^ (8 * length bs)"
    by (simp add: power_mult)
  also have "\<dots> \<le> 2 ^ LENGTH('a)" using len by (simp add: power_increasing)
  finally have "le_val bs < 2 ^ LENGTH('a)" using le_val_bound [of bs] by linarith
  with w show ?thesis by (simp add: le_word_eq unsigned_of_nat take_bit_nat_eq_self)
qed

lemma le_word_le_bytes:
  "8 < LENGTH('a) \<Longrightarrow> 8 * n = LENGTH('a) \<Longrightarrow> le_word (le_bytes n w) = (w :: 'a::len word)"
proof -
  assume w: "8 < LENGTH('a)" and n: "8 * n = LENGTH('a)"
  have "(256::nat) ^ n = 2 ^ LENGTH('a)" by (simp add: power_mult flip: n)
  then have "le_val (le_bytes n w) = unat w"
    by (simp add: le_val_le_bytes)
  with w show ?thesis by (simp add: le_word_eq)
qed

lemma rd_u32_le_bytes:
  "rd_u32 (pre @ le_bytes 4 v @ post) (length pre) = Some (v, length pre + 4)"
  by (simp add: rd_u32_def le_word_le_bytes)

lemma rd_u64_le_bytes:
  "rd_u64 (pre @ le_bytes 8 v @ post) (length pre) = Some (v, length pre + 8)"
  by (simp add: rd_u64_def le_word_le_bytes)

lemma varint_bytes_cases:
  "varint_bytes n =
     (if n < 0xfd then [ucast n]
      else if n \<le> 0xffff then 0xfd # le_bytes 2 n
      else if n \<le> 0xffffffff then 0xfe # le_bytes 4 (ucast n :: u32)
      else 0xff # le_bytes 8 n)"
  by (simp add: varint_bytes_def bbuf_push_varint_def numeral_2_eq_2)

lemma length_varint_bytes:
  "length (varint_bytes n) =
     (if n < 0xfd then 1 else if n \<le> 0xffff then 3 else if n \<le> 0xffffffff then 5 else 9)"
  by (simp add: varint_bytes_cases)

lemma le_bytes_2_u64: "n \<le> 0xffff \<Longrightarrow> le_word (le_bytes 2 n) = (n :: u64)"
proof -
  assume "n \<le> 0xffff"
  then have "unat n \<le> unat (0xffff :: u64)" by (simp add: word_le_nat_alt)
  then have "unat n mod 256 ^ 2 = unat n" by simp
  then have "le_val (le_bytes 2 n) = unat n" by (simp only: le_val_le_bytes)
  then show ?thesis by (simp add: le_word_eq)
qed

lemma le_bytes_4_u64: "n \<le> 0xffffffff \<Longrightarrow> le_word (le_bytes 4 (ucast n :: u32)) = (n :: u64)"
proof -
  assume "n \<le> 0xffffffff"
  then have "unat n \<le> unat (0xffffffff :: u64)" by (simp add: word_le_nat_alt)
  then have *: "unat n < 2 ^ 32" by simp
  have "unat (ucast n :: u32) = unat n mod 2 ^ 32"
    by (simp add: unsigned_ucast_eq take_bit_eq_mod)
  with * have "le_val (le_bytes 4 (ucast n :: u32)) = unat n" by (simp add: le_val_le_bytes)
  then show ?thesis by (simp add: le_word_eq)
qed

theorem rd_varint_push_varint:
  "rd_varint (pre @ varint_bytes n @ post) (length pre) =
     Some (n, length pre + length (varint_bytes n))"
proof -
  have small: "unat (ucast n :: byte) = unat n" if "n < 0xfd"
  proof -
    from that have "unat n < unat (0xfd :: u64)" by (simp add: word_less_nat_alt)
    then show ?thesis by (simp add: unat_ucast_byte)
  qed
  have "(ucast n :: byte) < 0xfd" if "n < 0xfd"
  proof -
    from that have "unat n < unat (0xfd :: u64)" by (simp add: word_less_nat_alt)
    with small [OF that] show ?thesis by (simp add: word_less_nat_alt)
  qed
  moreover have "ucast (ucast n :: byte) = n" if "n < 0xfd"
  proof -
    have "(word_of_nat (unat (ucast n :: byte)) :: u64) = word_of_nat (unat n)"
      by (simp only: small [OF that])
    then show ?thesis by simp
  qed
  ultimately show ?thesis
    by (simp add: rd_varint_def varint_bytes_cases nth_append Let_def
        le_bytes_2_u64 le_bytes_4_u64 le_word_le_bytes)
qed

lemma rd_varint_bound: "rd_varint buf off = Some (v, off') \<Longrightarrow> off < off' \<and> off' \<le> length buf"
  by (auto simp: rd_varint_def Let_def split: if_splits)

lemma rd_u32_bound: "rd_u32 buf off = Some (v, off') \<Longrightarrow> off' = off + 4 \<and> off' \<le> length buf"
  by (auto simp: rd_u32_def split: if_splits)

lemma rd_u64_bound: "rd_u64 buf off = Some (v, off') \<Longrightarrow> off' = off + 8 \<and> off' \<le> length buf"
  by (auto simp: rd_u64_def split: if_splits)

section \<open>The height push reads back as the height\<close>

lemma height_bytes_0 [simp]: "height_bytes 0 = []"
  by (simp add: height_bytes.simps [of 0])

lemma le_val_height_bytes: "le_val (height_bytes v) = unat v"
proof (induction v rule: height_bytes.induct)
  case (1 v)
  show ?case
  proof (cases "v = 0")
    case True
    then show ?thesis by (simp add: height_bytes.simps [of v])
  next
    case False
    with 1 show ?thesis
      by (simp add: height_bytes.simps [of v] unat_ucast_byte unat_drop_bit)
  qed
qed

lemma height_bytes_length: "length (height_bytes v) \<le> n \<longleftrightarrow> unat v < 256 ^ n"
proof (induction n arbitrary: v)
  case 0
  then show ?case by (simp add: height_bytes.simps [of v] unat_eq_0)
next
  case (Suc n)
  show ?case
  proof (cases "v = 0")
    case True
    then show ?thesis by (simp add: height_bytes.simps [of v])
  next
    case False
    have "unat v div 256 < 256 ^ n \<longleftrightarrow> unat v < 256 ^ Suc n"
      by (simp add: div_less_iff_less_mult mult.commute)
    with False Suc [of "drop_bit 8 v"] show ?thesis
      by (simp add: height_bytes.simps [of v] unat_drop_bit)
  qed
qed

lemma height_bytes_length_le: "length (height_bytes v) \<le> 4"
  using unsigned_less [of v] by (simp add: height_bytes_length)

lemma height_bytes_nonempty: "v \<noteq> 0 \<Longrightarrow> height_bytes v \<noteq> []"
  by (simp add: height_bytes.simps [of v])

lemma bip34_large_cases:
  assumes "16 < height"
  obtains bytes' where "bip34_height_push height = word_of_nat (length bytes') # bytes'"
    and "le_val bytes' = unat height" and "0 < length bytes'" and "length bytes' \<le> 5"
    and "\<not> bit (last bytes') 7"
proof -
  let ?b = "height_bytes height"
  let ?b' = "if last ?b AND 0x80 \<noteq> 0 then ?b @ [0x00] else ?b"
  have nz: "height \<noteq> 0" using assms by auto
  have "\<not> height \<le> 16" using assms by simp
  then have "bip34_height_push height = word_of_nat (length ?b') # ?b'"
    using nz by (simp add: bip34_height_push_def Let_def)
  moreover have "le_val ?b' = unat height"
    by (simp add: le_val_append le_val_height_bytes)
  moreover have "0 < length ?b'" using height_bytes_nonempty [OF nz] by simp
  moreover have "length ?b' \<le> 5" using height_bytes_length_le [of height] by simp
  moreover have "\<not> bit (last ?b') 7"
  proof (cases "last ?b AND 0x80 = 0")
    case True
    have "bit (last ?b) 7 \<longleftrightarrow> bit (last ?b AND 0x80) 7"
      by (simp add: bit_simps)
    with True show ?thesis by simp
  qed simp
  ultimately show ?thesis by (rule that)
qed

theorem bip34_height_push_ok:
  "script_num (bip34_height_push height) = unat height \<and>
   1 \<le> length (bip34_height_push height) \<and> length (bip34_height_push height) \<le> 6 \<and>
   (16 < height \<longrightarrow> unat (hd (bip34_height_push height)) = length (bip34_height_push height) - 1 \<and>
      \<not> bit (last (bip34_height_push height)) 7)"
proof (cases "16 < height")
  case True
  then obtain bs where bs: "bip34_height_push height = word_of_nat (length bs) # bs"
    and v: "le_val bs = unat height" and l: "0 < length bs" "length bs \<le> 5"
    and s: "\<not> bit (last bs) 7"
    by (rule bip34_large_cases)
  have u: "unat (word_of_nat (length bs) :: byte) = length bs"
    using l by (simp add: unsigned_of_nat take_bit_nat_eq_self)
  then have "\<not> 0x51 \<le> (word_of_nat (length bs) :: byte)" "(word_of_nat (length bs) :: byte) \<noteq> 0"
    using l by (auto simp: word_le_nat_alt)
  with bs v l s u show ?thesis by (auto simp: script_num_def)
next
  case False
  then have le: "height \<le> 16" by simp
  then have n: "unat height \<le> 16" by (simp add: word_le_nat_alt)
  have "unat (0x50 + height) = 0x50 + unat height"
    using n by (simp add: unat_word_ariths)
  then have "unat (ucast (0x50 + height) :: byte) = 0x50 + unat height"
    using n by (simp add: unat_ucast_byte)
  moreover have "height \<noteq> 0 \<Longrightarrow> 0 < unat height" by (simp add: unat_gt_0)
  ultimately show ?thesis using False le n
    by (auto simp: bip34_height_push_def script_num_def word_le_nat_alt word_unat_eq_iff)
qed

section \<open>Hex round trips\<close>

lemma hex_nibble_digit: "n < 16 \<Longrightarrow> hex_nibble (hex_digit n) = Some n"
proof -
  assume "n < 16"
  then have "n \<in> set [0..<16]" by simp
  moreover have "\<forall>n \<in> set [0..<16]. hex_nibble (hex_digit n) = Some n" by code_simp
  ultimately show ?thesis by blast
qed

lemma nibble_lt: "unat (b AND 0xf :: byte) < 16"
proof -
  have "b AND 0xf = take_bit 4 b"
    by (simp add: take_bit_eq_mask mask_eq_exp_minus_1)
  then show ?thesis using take_bit_nat_less_exp [of 4 "unat b"]
    by (simp add: unsigned_take_bit_eq)
qed

lemma nibbles_join: "push_bit 4 (drop_bit 4 b AND 0xf) OR (b AND 0xf) = (b :: byte)"
proof -
  have m: "(0xf :: byte) = mask 4" by (simp add: mask_eq_exp_minus_1)
  show ?thesis unfolding m
    by (rule bit_word_eqI) (auto simp: bit_simps)
qed

lemma hex_pairs_bytes_to_hex: "hex_pairs (bytes_to_hex bs) = Some bs"
proof (induction bs)
  case Nil
  then show ?case by (simp add: bytes_to_hex_def)
next
  case (Cons b bs)
  have "bytes_to_hex (b # bs) = hex_digit (unat (drop_bit 4 b AND 0xf)) #
      hex_digit (unat (b AND 0xf)) # bytes_to_hex bs"
    by (simp add: bytes_to_hex_def)
  with Cons nibbles_join [of b] show ?case
    by (simp add: hex_nibble_digit nibble_lt)
qed

lemma length_bytes_to_hex [simp]: "length (bytes_to_hex bs) = 2 * length bs"
  by (induction bs) (auto simp: bytes_to_hex_def)

theorem hex_roundtrip:
  "length bs \<le> cap \<Longrightarrow> hex_decode (bytes_to_hex bs) cap = Some bs"
  by (simp add: hex_decode_def hex_pairs_bytes_to_hex)

lemma hex_to_bytes_bytes_to_hex:
  "length bs = n \<Longrightarrow> hex_to_bytes (Some (bytes_to_hex bs)) n = Some bs"
  by (simp add: hex_to_bytes_def hex_pairs_bytes_to_hex)

lemma hex_pairs_length: "hex_pairs h = Some bs \<Longrightarrow> length h = 2 * length bs"
  by (induction h arbitrary: bs rule: hex_pairs.induct) (auto split: option.splits)

lemma hex_decode_length: "hex_decode h cap = Some bs \<Longrightarrow> length h = 2 * length bs \<and> length bs \<le> cap"
  by (auto simp: hex_decode_def dest: hex_pairs_length split: if_splits)

text \<open>\<open>parse_u32_hex\<close> reads the eight digits most significant first.\<close>

lemma parse_u32_hex_be:
  "parse_u32_hex (Some (bytes_to_hex (rev (le_bytes 4 v)))) = Some v"
proof -
  have "hex_to_bytes (Some (bytes_to_hex (rev (le_bytes 4 v)))) 4 = Some (rev (le_bytes 4 v))"
    by (rule hex_to_bytes_bytes_to_hex) simp
  moreover have "push_bit 24 (ucast (ucast (drop_bit 24 v) :: byte)) OR
      push_bit 16 (ucast (ucast (drop_bit 16 v) :: byte)) OR
      push_bit 8 (ucast (ucast (drop_bit 8 v) :: byte)) OR ucast (ucast v :: byte) = v" (is "?l = v")
  proof (rule bit_word_eqI)
    fix n assume "n < LENGTH(32)"
    then consider "n < 8" | "8 \<le> n \<and> n < 16" | "16 \<le> n \<and> n < 24" | "24 \<le> n \<and> n < 32"
      by fastforce
    then show "bit ?l n = bit v n"
      by cases (auto simp: bit_simps)
  qed
  ultimately show ?thesis
    by (simp add: parse_u32_hex_def le_bytes_4 nth_append)
qed

section \<open>Properties\<close>

text \<open>A varint pushed after any buffer content is read back by \<open>rd_varint\<close> at the offset it
  was written, with the value pushed, and the read ends exactly where the push ended.\<close>

theorem varint_roundtrip:
  "rd_varint (bb_data (bbuf_push_varint b n) @ post) (length (bb_data b)) =
     Some (n, length (bb_data (bbuf_push_varint b n)))"
  using rd_varint_push_varint [of "bb_data b" n post] by simp

text \<open>The BIP34 push decodes, as a script number, to the height it was given; it is between
  one and six bytes; above height 16 its first byte is the length of the rest and the last byte
  has its sign bit clear, so the height is never read as negative.\<close>

theorem bip34_height_roundtrip:
  "script_num (bip34_height_push height) = unat height \<and>
   length (bip34_height_push height) \<in> {1..6} \<and>
   (height > 16 \<longrightarrow> unat (hd (bip34_height_push height)) = length (bip34_height_push height) - 1 \<and>
      \<not> bit (last (bip34_height_push height)) 7)"
  using bip34_height_push_ok [of height] by simp

text \<open>The height of block 840000, pushed as \<open>03 40 d1 0c\<close>.\<close>

theorem bip34_height_roundtrip_witness:
  "(840000 :: u32) > 16 \<and> script_num (bip34_height_push 840000) = 840000 \<and>
   \<not> bit (last (bip34_height_push 840000)) 7"
  using bip34_height_roundtrip [of 840000] by simp

text \<open>Hex printing followed by hex parsing is the identity, for the fixed-length and for the
  allocating parser, and a parse into a buffer of \<open>cap\<close> bytes succeeds exactly when it fits.\<close>

theorem hex_print_parse:
  "hex_to_bytes (Some (bytes_to_hex bs)) (length bs) = Some bs \<and>
   hex_to_bytes_alloc (Some (bytes_to_hex bs)) = Some bs \<and>
   hex_decode (bytes_to_hex bs) cap = (if length bs \<le> cap then Some bs else None)"
  by (simp add: hex_to_bytes_bytes_to_hex hex_to_bytes_alloc_def hex_decode_def
      hex_pairs_bytes_to_hex)

end
