(* ===== verification/Sha256.thy ===== *)
theory Sha256
  imports Bytes
begin

text \<open>
  \<^verbatim>\<open>src/sha256.c\<close>: the streaming SHA-256 context, its block transform, update and
  finalisation, over 32-bit words that wrap. The theorem of this theory is that the
  streaming implementation computes the padded, block-wise definition of the standard for
  every message.
\<close>

section \<open>The block transform\<close>

definition ROTR :: "u32 \<Rightarrow> nat \<Rightarrow> u32" where
  "ROTR a b = drop_bit b a OR push_bit (32 - b) a"

definition CH :: "u32 \<Rightarrow> u32 \<Rightarrow> u32 \<Rightarrow> u32" where
  "CH x y z = (x AND y) XOR (NOT x AND z)"

definition MAJ :: "u32 \<Rightarrow> u32 \<Rightarrow> u32 \<Rightarrow> u32" where
  "MAJ x y z = (x AND y) XOR (x AND z) XOR (y AND z)"

definition EP0 :: "u32 \<Rightarrow> u32" where
  "EP0 x = ROTR x 2 XOR ROTR x 13 XOR ROTR x 22"

definition EP1 :: "u32 \<Rightarrow> u32" where
  "EP1 x = ROTR x 6 XOR ROTR x 11 XOR ROTR x 25"

definition SIG0 :: "u32 \<Rightarrow> u32" where
  "SIG0 x = ROTR x 7 XOR ROTR x 18 XOR drop_bit 3 x"

definition SIG1 :: "u32 \<Rightarrow> u32" where
  "SIG1 x = ROTR x 17 XOR ROTR x 19 XOR drop_bit 10 x"

text \<open>The table \<open>K[64]\<close>, its entries in decimal.\<close>

definition sha_K :: "u32 list" where
  "sha_K = [
    1116352408, 1899447441, 3049323471, 3921009573, 961987163, 1508970993, 2453635748, 2870763221,
    3624381080, 310598401, 607225278, 1426881987, 1925078388, 2162078206, 2614888103, 3248222580,
    3835390401, 4022224774, 264347078, 604807628, 770255983, 1249150122, 1555081692, 1996064986,
    2554220882, 2821834349, 2952996808, 3210313671, 3336571891, 3584528711, 113926993, 338241895,
    666307205, 773529912, 1294757372, 1396182291, 1695183700, 1986661051, 2177026350, 2456956037,
    2730485921, 2820302411, 3259730800, 3345764771, 3516065817, 3600352804, 4094571909, 275423344,
    430227734, 506948616, 659060556, 883997877, 958139571, 1322822218, 1537002063, 1747873779,
    1955562222, 2024104815, 2227730452, 2361852424, 2428436474, 2756734187, 3204031479, 3329325298]"

record sha256_ctx =
  sha_state :: "u32 list"
  sha_bitlen :: u64
  sha_datalen :: nat
  sha_data :: "byte list"

text \<open>The first sixteen schedule words: four bytes each, most significant first.\<close>

fun be_words :: "byte list \<Rightarrow> u32 list" where
  "be_words (a # b # c # d # rest) =
     (push_bit 24 (ucast a) OR push_bit 16 (ucast b) OR push_bit 8 (ucast c) OR ucast d) # be_words rest"
| "be_words _ = []"

text \<open>
  The schedule is kept most recent word first, so \<open>m[i - 2]\<close> is \<open>ms ! 1\<close>; the loop runs
  for \<open>i = 16 ... 63\<close>.
\<close>

fun sha_extend :: "nat \<Rightarrow> u32 list \<Rightarrow> u32 list" where
  "sha_extend 0 ms = ms"
| "sha_extend (Suc n) ms =
     sha_extend n ((SIG1 (ms ! 1) + ms ! 6 + SIG0 (ms ! 14) + ms ! 15) # ms)"

definition sha_schedule :: "byte list \<Rightarrow> u32 list" where
  "sha_schedule data = rev (sha_extend 48 (rev (be_words data)))"

fun sha_round :: "u32 \<times> u32 \<Rightarrow> u32 list \<Rightarrow> u32 list" where
  "sha_round (k, m) [a, b, c, d, e, f, g, h] =
     (let t1 = h + EP1 e + CH e f g + k + m;
          t2 = EP0 a + MAJ a b c
      in [t1 + t2, a, b, c, d + t1, e, f, g])"
| "sha_round _ xs = xs"

definition sha_compress :: "u32 list \<Rightarrow> byte list \<Rightarrow> u32 list" where
  "sha_compress st data =
     map2 (+) st (fold sha_round (zip sha_K (sha_schedule data)) st)"

definition sha256_transform :: "sha256_ctx \<Rightarrow> byte list \<Rightarrow> sha256_ctx" where
  "sha256_transform ctx data = ctx\<lparr>sha_state := sha_compress (sha_state ctx) data\<rparr>"

section \<open>Init, update, final\<close>

definition sha256_init :: sha256_ctx where
  "sha256_init = \<lparr>
     sha_state = [0x6a09e667, 0xbb67ae85, 0x3c6ef372, 0xa54ff53a,
                  0x510e527f, 0x9b05688c, 0x1f83d9ab, 0x5be0cd19],
     sha_bitlen = 0, sha_datalen = 0, sha_data = replicate 64 0\<rparr>"

definition sha_update_byte :: "byte \<Rightarrow> sha256_ctx \<Rightarrow> sha256_ctx" where
  "sha_update_byte b ctx =
     (let ctx1 = ctx\<lparr>sha_data := (sha_data ctx)[sha_datalen ctx := b],
                     sha_datalen := sha_datalen ctx + 1\<rparr>
      in if sha_datalen ctx1 = 64
         then (let ctx2 = sha256_transform ctx1 (sha_data ctx1)
               in ctx2\<lparr>sha_bitlen := sha_bitlen ctx2 + 512, sha_datalen := 0\<rparr>)
         else ctx1)"

definition sha256_update :: "sha256_ctx \<Rightarrow> byte list \<Rightarrow> sha256_ctx" where
  "sha256_update ctx data = fold sha_update_byte data ctx"

text \<open>\<open>while (i < n) data[i++] = 0x00\<close>\<close>

function zero_from :: "nat \<Rightarrow> nat \<Rightarrow> byte list \<Rightarrow> byte list" where
  "zero_from i n data = (if i < n then zero_from (i + 1) n (data[i := 0]) else data)"
  by pat_completeness auto
termination
  by (relation "measure (\<lambda>(i, n, data). n - i)") auto

declare zero_from.simps [simp del]

definition be_word_bytes :: "u32 \<Rightarrow> byte list" where
  "be_word_bytes w = [ucast (drop_bit 24 w), ucast (drop_bit 16 w), ucast (drop_bit 8 w), ucast w]"

definition put_bitlen :: "u64 \<Rightarrow> byte list \<Rightarrow> byte list" where
  "put_bitlen n data =
     data[63 := ucast n, 62 := ucast (drop_bit 8 n), 61 := ucast (drop_bit 16 n),
          60 := ucast (drop_bit 24 n), 59 := ucast (drop_bit 32 n), 58 := ucast (drop_bit 40 n),
          57 := ucast (drop_bit 48 n), 56 := ucast (drop_bit 56 n)]"

definition sha256_final :: "sha256_ctx \<Rightarrow> byte list" where
  "sha256_final ctx =
     (let i = sha_datalen ctx;
          ctx1 = (if i < 56
                  then ctx\<lparr>sha_data := zero_from (i + 1) 56 ((sha_data ctx)[i := 0x80])\<rparr>
                  else (let c = ctx\<lparr>sha_data := zero_from (i + 1) 64 ((sha_data ctx)[i := 0x80])\<rparr>;
                            c' = sha256_transform c (sha_data c)
                        in c'\<lparr>sha_data := zero_from 0 56 (sha_data c')\<rparr>));
          ctx2 = ctx1\<lparr>sha_bitlen := sha_bitlen ctx1 + word_of_nat (sha_datalen ctx1) * 8\<rparr>;
          ctx3 = ctx2\<lparr>sha_data := put_bitlen (sha_bitlen ctx2) (sha_data ctx2)\<rparr>;
          ctx4 = sha256_transform ctx3 (sha_data ctx3)
      in concat (map be_word_bytes (sha_state ctx4)))"

definition sha256 :: "byte list \<Rightarrow> byte list" where
  "sha256 data = sha256_final (sha256_update sha256_init data)"

text \<open>\<open>dsha256\<close> of \<^verbatim>\<open>src/share.c\<close>.\<close>

definition dsha256 :: "byte list \<Rightarrow> byte list" where
  "dsha256 data = sha256 (sha256 data)"

section \<open>The standard's definition\<close>

text \<open>
  FIPS 180-4: append the bit 1, the least number of zero bits that leaves room for the
  length, and the 64-bit length in bits; then compress block after block.
\<close>

definition sha_pad :: "byte list \<Rightarrow> byte list" where
  "sha_pad msg = [0x80] @ replicate ((119 - length msg mod 64) mod 64) 0 @
     rev (le_bytes 8 (word_of_nat (8 * length msg) :: u64))"

function sha_absorb :: "u32 list \<Rightarrow> byte list \<Rightarrow> u32 list" where
  "sha_absorb st bs =
     (if length bs < 64 then st else sha_absorb (sha_compress st (take 64 bs)) (drop 64 bs))"
  by pat_completeness auto
termination
  by (relation "measure (\<lambda>(st, bs). length bs)") auto

declare sha_absorb.simps [simp del]

definition sha256_spec :: "byte list \<Rightarrow> byte list" where
  "sha256_spec msg =
     concat (map be_word_bytes (sha_absorb (sha_state sha256_init) (msg @ sha_pad msg)))"

section \<open>Streaming computes it\<close>

lemma sha_absorb_short: "length bs < 64 \<Longrightarrow> sha_absorb st bs = st"
  by (simp add: sha_absorb.simps [of st bs])

lemma sha_absorb_block:
  "length b = 64 \<Longrightarrow> sha_absorb st (b @ bs) = sha_absorb (sha_compress st b) bs"
  by (simp add: sha_absorb.simps [of st "b @ bs"])

lemma sha_absorb_append:
  "sha_absorb st (xs @ ys) =
     sha_absorb (sha_absorb st xs) (drop (64 * (length xs div 64)) xs @ ys)"
proof (induction st xs rule: sha_absorb.induct)
  case (1 st xs)
  show ?case
  proof (cases "length xs < 64")
    case True
    then show ?thesis by (simp add: sha_absorb_short)
  next
    case False
    let ?b = "take 64 xs" and ?r = "drop 64 xs"
    have len: "length xs div 64 = Suc (length ?r div 64)"
      using False by (simp add: le_div_geq)
    have split: "xs = ?b @ ?r" and lb: "length ?b = 64" using False by auto
    have "sha_absorb st (xs @ ys) = sha_absorb (sha_compress st ?b) (?r @ ys)"
      using sha_absorb_block [OF lb, of st "?r @ ys"] by (simp add: append_assoc [symmetric])
    also have "\<dots> = sha_absorb (sha_absorb (sha_compress st ?b) ?r)
        (drop (64 * (length ?r div 64)) ?r @ ys)"
      using False 1 by blast
    also have "sha_absorb (sha_compress st ?b) ?r = sha_absorb st xs"
      using False by (simp add: sha_absorb.simps [of st xs])
    also have "drop (64 * (length ?r div 64)) ?r = drop (64 * (length xs div 64)) xs"
      using len by (simp add: add.commute)
    finally show ?thesis .
  qed
qed

definition sha_rest :: "byte list \<Rightarrow> byte list" where
  "sha_rest msg = drop (64 * (length msg div 64)) msg"

definition sha_inv :: "byte list \<Rightarrow> sha256_ctx \<Rightarrow> bool" where
  "sha_inv msg ctx \<longleftrightarrow>
     length (sha_data ctx) = 64 \<and> sha_datalen ctx = length msg mod 64 \<and>
     take (length msg mod 64) (sha_data ctx) = sha_rest msg \<and>
     sha_state ctx = sha_absorb (sha_state sha256_init) msg \<and>
     sha_bitlen ctx = word_of_nat (512 * (length msg div 64))"

lemma length_sha_rest [simp]: "length (sha_rest msg) = length msg mod 64"
  by (simp add: sha_rest_def minus_mult_div_eq_mod)

lemma sha_rest_snoc:
  "sha_rest (msg @ [b]) = (if Suc (length msg mod 64) = 64 then [] else sha_rest msg @ [b])"
proof (cases "Suc (length msg mod 64) = 64")
  case True
  then have "Suc (length msg) mod 64 = 0" by (simp add: mod_Suc)
  then have "length (sha_rest (msg @ [b])) = 0" by simp
  then have "sha_rest (msg @ [b]) = []" by (simp only: length_0_conv)
  with True show ?thesis by simp
next
  case False
  then have "Suc (length msg) div 64 = length msg div 64" by (simp add: div_Suc mod_Suc)
  with False show ?thesis by (simp add: sha_rest_def)
qed

lemma sha_inv_init: "sha_inv [] sha256_init"
  by (simp add: sha_inv_def sha256_init_def sha_rest_def sha_absorb_short)

lemma sha_inv_step:
  assumes inv: "sha_inv msg ctx"
  shows "sha_inv (msg @ [b]) (sha_update_byte b ctx)"
proof -
  let ?r = "length msg mod 64"
  have d: "length (sha_data ctx) = 64" and dl: "sha_datalen ctx = ?r"
    and tk: "take ?r (sha_data ctx) = sha_rest msg"
    and st: "sha_state ctx = sha_absorb (sha_state sha256_init) msg"
    and bl: "sha_bitlen ctx = word_of_nat (512 * (length msg div 64))"
    using inv by (auto simp: sha_inv_def)
  have lt: "?r < 64" by simp
  have data: "take (Suc ?r) ((sha_data ctx)[?r := b]) = sha_rest msg @ [b]"
    using d tk lt by (simp add: take_Suc_conv_app_nth)
  have absorb: "sha_absorb (sha_state sha256_init) (msg @ [b]) =
      sha_absorb (sha_state ctx) (sha_rest msg @ [b])"
    using sha_absorb_append [of "sha_state sha256_init" msg "[b]"]
    by (simp only: st sha_rest_def)
  show ?thesis
  proof (cases "Suc ?r = 64")
    case True
    then have full: "(sha_data ctx)[?r := b] = sha_rest msg @ [b]"
      using data d by simp
    have one: "sha_absorb (sha_state ctx) (sha_rest msg @ [b]) =
        sha_compress (sha_state ctx) (sha_rest msg @ [b])"
      using True sha_absorb_block [of "sha_rest msg @ [b]" "sha_state ctx" "[]"]
      by (simp add: sha_absorb_short)
    have q: "Suc (length msg) mod 64 = 0" "Suc (length msg) div 64 = Suc (length msg div 64)"
      using True by (auto simp: mod_Suc div_Suc)
    have "sha_rest (msg @ [b]) = []" using True by (simp add: sha_rest_snoc)
    with True show ?thesis using d dl bl full one absorb q
      by (simp add: sha_inv_def sha_update_byte_def Let_def sha256_transform_def)
  next
    case False
    then have q: "Suc (length msg) mod 64 = Suc ?r" "Suc (length msg) div 64 = length msg div 64"
      by (auto simp: mod_Suc div_Suc)
    have "Suc ?r < 64" using False lt by linarith
    then have "sha_absorb (sha_state ctx) (sha_rest msg @ [b]) = sha_state ctx"
      by (intro sha_absorb_short) simp
    with False show ?thesis using d dl bl data absorb q
      by (simp add: sha_inv_def sha_update_byte_def Let_def sha_rest_snoc)
  qed
qed

lemma sha_inv_update: "sha_inv pre ctx \<Longrightarrow> sha_inv (pre @ msg) (sha256_update ctx msg)"
proof (induction msg arbitrary: pre ctx)
  case Nil
  then show ?case by (simp add: sha256_update_def)
next
  case (Cons b msg)
  then have "sha_inv ((pre @ [b]) @ msg) (sha256_update (sha_update_byte b ctx) msg)"
    by (blast intro: sha_inv_step)
  then show ?case by (simp add: sha256_update_def)
qed

lemma zero_from_eq:
  "i \<le> n \<Longrightarrow> n \<le> length data \<Longrightarrow>
   zero_from i n data = take i data @ replicate (n - i) 0 @ drop n data"
proof (induction i n data rule: zero_from.induct)
  case (1 i n data)
  show ?case
  proof (cases "i < n")
    case True
    then have "zero_from i n data = take (Suc i) (data[i := 0]) @ replicate (n - Suc i) 0 @ drop n data"
      using 1 by (simp add: zero_from.simps [of i n data])
    also have "take (Suc i) (data[i := 0]) = take i data @ [0]"
      using True 1 by (simp add: take_Suc_conv_app_nth)
    finally have "zero_from i n data = take i data @ replicate (Suc (n - Suc i)) 0 @ drop n data"
      by simp
    moreover have "Suc (n - Suc i) = n - i" using True by simp
    ultimately show ?thesis by (simp only:)
  next
    case False
    with 1 have "i = n" by simp
    then show ?thesis by (simp add: zero_from.simps [of n n data])
  qed
qed

lemma length_8_conv: "length xs = 8 \<Longrightarrow> \<exists>a b c d e f g h. xs = [a, b, c, d, e, f, g, h]"
  by (simp add: numeral_eq_Suc length_Suc_conv) blast

lemma put_bitlen_eq: "length data = 64 \<Longrightarrow> put_bitlen n data = take 56 data @ rev (le_bytes 8 n)"
proof -
  assume len: "length data = 64"
  then have "length (drop 56 data) = 8" by simp
  then obtain a b c d e f g h where "drop 56 data = [a, b, c, d, e, f, g, h]"
    using length_8_conv by blast
  then have "data = take 56 data @ [a, b, c, d, e, f, g, h]"
    by (metis append_take_drop_id)
  moreover have "length (take 56 data) = 56" using len by simp
  ultimately obtain pre where "data = pre @ [a, b, c, d, e, f, g, h]" "length pre = 56" by blast
  then show ?thesis
    by (simp add: put_bitlen_def list_update_append numeral_eq_Suc)
qed

lemma sha_absorb_padded:
  "sha_absorb H (msg @ P) = sha_absorb (sha_absorb H msg) (sha_rest msg @ P)"
  using sha_absorb_append [of H msg P] by (simp only: sha_rest_def)

lemma sha_bitlen_final:
  "512 * word_of_nat (n div 64) + word_of_nat (n mod 64) * 8 = (8 * word_of_nat n :: u64)"
proof -
  have "512 * (n div 64) + (n mod 64) * 8 = 8 * n"
    using div_mult_mod_eq [of n 64] by linarith
  then have "(word_of_nat (512 * (n div 64) + (n mod 64) * 8) :: u64) = word_of_nat (8 * n)" by (simp only:)
  then show ?thesis by simp
qed

lemma sha256_final_short:
  assumes inv: "sha_inv msg ctx" and r: "length msg mod 64 < 56"
  shows "sha256_final ctx = sha256_spec msg"
proof -
  let ?r = "length msg mod 64" and ?len = "word_of_nat (8 * length msg) :: u64"
  let ?B = "sha_rest msg @ [0x80] @ replicate (55 - ?r) 0 @ rev (le_bytes 8 ?len)"
  have d: "length (sha_data ctx) = 64" and dl: "sha_datalen ctx = ?r"
    and tk: "take ?r (sha_data ctx) = sha_rest msg"
    and st: "sha_state ctx = sha_absorb (sha_state sha256_init) msg"
    and bl: "sha_bitlen ctx = word_of_nat (512 * (length msg div 64))"
    using inv by (auto simp: sha_inv_def)
  have h: "take (Suc ?r) ((sha_data ctx)[?r := 0x80]) = sha_rest msg @ [0x80]"
    using d tk by (simp add: take_Suc_conv_app_nth)
  have z: "zero_from (Suc ?r) 56 ((sha_data ctx)[?r := 0x80]) =
      (sha_rest msg @ [0x80]) @ replicate (55 - ?r) 0 @ drop 56 ((sha_data ctx)[?r := 0x80])"
    using r d h by (subst zero_from_eq) auto
  have blk: "put_bitlen ?len (zero_from (Suc ?r) 56 ((sha_data ctx)[?r := 0x80])) = ?B"
  proof -
    have "56 - ?r = Suc (55 - ?r)" using r by simp
    then show ?thesis unfolding z using r d by (subst put_bitlen_eq) auto
  qed
  have "(119 - ?r) mod 64 = 55 - ?r"
  proof -
    have "119 - ?r = (55 - ?r) + 64" using r by simp
    then show ?thesis using r by (simp only: mod_add_self2) simp
  qed
  then have pad: "sha_rest msg @ sha_pad msg = ?B" by (simp add: sha_pad_def)
  have "sha_absorb (sha_state sha256_init) (msg @ sha_pad msg) = sha_compress (sha_state ctx) ?B"
    using r sha_absorb_block [of ?B "sha_state ctx" "[]"]
    by (simp add: sha_absorb_padded [of _ msg "sha_pad msg"] pad st sha_absorb_short)
  with r blk show ?thesis
    by (simp add: sha256_final_def sha256_spec_def Let_def dl bl sha256_transform_def sha_bitlen_final)
qed

lemma sha256_final_long:
  assumes inv: "sha_inv msg ctx" and r: "56 \<le> length msg mod 64"
  shows "sha256_final ctx = sha256_spec msg"
proof -
  let ?r = "length msg mod 64" and ?len = "word_of_nat (8 * length msg) :: u64"
  let ?B1 = "sha_rest msg @ [0x80] @ replicate (63 - ?r) 0"
  let ?B2 = "replicate 56 0 @ rev (le_bytes 8 ?len)"
  have d: "length (sha_data ctx) = 64" and dl: "sha_datalen ctx = ?r"
    and tk: "take ?r (sha_data ctx) = sha_rest msg"
    and st: "sha_state ctx = sha_absorb (sha_state sha256_init) msg"
    and bl: "sha_bitlen ctx = word_of_nat (512 * (length msg div 64))"
    using inv by (auto simp: sha_inv_def)
  have lt: "?r < 64" by simp
  have h: "take (Suc ?r) ((sha_data ctx)[?r := 0x80]) = sha_rest msg @ [0x80]"
    using d tk by (simp add: take_Suc_conv_app_nth)
  have b1: "zero_from (Suc ?r) 64 ((sha_data ctx)[?r := 0x80]) = ?B1"
    using r d h by (subst zero_from_eq) (auto simp: Suc_le_eq)
  have l1: "length ?B1 = 64" using lt by simp
  have b2: "put_bitlen ?len (zero_from 0 56 ?B1) = ?B2"
    using l1 by (simp add: zero_from_eq put_bitlen_eq)
  have "(119 - ?r) mod 64 = (63 - ?r) + 56"
    using r lt by (subst mod_less) auto
  then have "replicate ((119 - ?r) mod 64) 0 = replicate (63 - ?r) (0 :: byte) @ replicate 56 0"
    by (simp only: replicate_add)
  then have pad: "sha_rest msg @ sha_pad msg = ?B1 @ ?B2"
    by (simp add: sha_pad_def)
  have l2: "length ?B2 = 64" by simp
  have "sha_absorb (sha_state sha256_init) (msg @ sha_pad msg) =
      sha_absorb (sha_state ctx) (?B1 @ ?B2)"
    by (simp only: sha_absorb_padded [of _ msg "sha_pad msg"] pad st)
  also have "\<dots> = sha_absorb (sha_compress (sha_state ctx) ?B1) ?B2"
    by (rule sha_absorb_block [OF l1])
  also have "\<dots> = sha_compress (sha_compress (sha_state ctx) ?B1) ?B2"
    using sha_absorb_block [OF l2, of _ "[]"] by (simp add: sha_absorb_short)
  finally have "sha_absorb (sha_state sha256_init) (msg @ sha_pad msg) =
      sha_compress (sha_compress (sha_state ctx) ?B1) ?B2" .
  with r b1 b2 show ?thesis
    by (simp add: sha256_final_def sha256_spec_def Let_def dl bl sha256_transform_def sha_bitlen_final)
qed

lemma sha256_streams_spec: "sha256 msg = sha256_spec msg"
proof -
  have inv: "sha_inv msg (sha256_update sha256_init msg)"
    using sha_inv_update [OF sha_inv_init, of msg] by simp
  show ?thesis
  proof (cases "length msg mod 64 < 56")
    case True
    with inv show ?thesis by (simp only: sha256_def sha256_final_short)
  next
    case False
    with inv show ?thesis by (simp only: sha256_def sha256_final_long not_less)
  qed
qed

end
