(* ===== verification/Doubles.thy ===== *)
theory Doubles
  imports Prelude "HOL-Library.Log_Nat"
begin

text \<open>
  The C type \<open>double\<close>: IEEE 754 binary64 with round-to-nearest-even, executable over
  rationals. A finite value is the rational it denotes, so \<open>+0\<close> and \<open>-0\<close> are one value; no
  expression of the pool divides by a zero that could be negative or inspects a sign bit.
  The lemmas bound the rounding error and give its monotonicity; the last section bounds
  the truncated proportional share \<open>(int64_t)((double)payable * (d / total))\<close>, the
  expression the split, the coinbase redistribution and the distributor have in common.
\<close>

section \<open>Values and rounding\<close>

datatype double = Fin rat | PInf | NInf | NaN

text \<open>The exponent of a positive rational: \<open>2 powi e \<le> q < 2 powi (e + 1)\<close>.\<close>

definition rat_exp :: "rat \<Rightarrow> int" where
  "rat_exp q = (let (n, d) = quotient_of q; e = bitlen n - bitlen d
                in if 2 powi e \<le> q then e else e - 1)"

definition rne :: "rat \<Rightarrow> int" where
  "rne q = (let f = \<lfloor>q\<rfloor>; r = q - of_int f
            in if r < 1/2 then f else if r > 1/2 then f + 1 else if even f then f else f + 1)"

text \<open>The spacing of the binary64 grid at a positive rational, subnormals included.\<close>

definition d_ulp :: "rat \<Rightarrow> rat" where
  "d_ulp q = 2 powi (max (rat_exp q) (-1022) - 52)"

definition d_mag :: "rat \<Rightarrow> rat" where
  "d_mag q = of_int (rne (q / d_ulp q)) * d_ulp q"

definition d_round :: "rat \<Rightarrow> double" where
  "d_round q =
     (if q = 0 then Fin 0
      else let m = d_mag \<bar>q\<bar>
           in if m \<ge> 2 ^ 1024 then (if q < 0 then NInf else PInf)
              else Fin (if q < 0 then - m else m))"

section \<open>Operations\<close>

definition d_of_int :: "int \<Rightarrow> double" where
  "d_of_int n = d_round (of_int n)"

fun d_add :: "double \<Rightarrow> double \<Rightarrow> double" where
  "d_add (Fin a) (Fin b) = d_round (a + b)"
| "d_add NaN y = NaN"
| "d_add x NaN = NaN"
| "d_add PInf NInf = NaN"
| "d_add NInf PInf = NaN"
| "d_add PInf y = PInf"
| "d_add x PInf = PInf"
| "d_add NInf y = NInf"
| "d_add x NInf = NInf"

fun d_neg :: "double \<Rightarrow> double" where
  "d_neg (Fin a) = Fin (- a)"
| "d_neg PInf = NInf"
| "d_neg NInf = PInf"
| "d_neg NaN = NaN"

definition d_sub :: "double \<Rightarrow> double \<Rightarrow> double" where
  "d_sub x y = d_add x (d_neg y)"

definition d_signed_inf :: "rat \<Rightarrow> double" where
  "d_signed_inf s = (if s > 0 then PInf else if s < 0 then NInf else NaN)"

fun d_sign :: "double \<Rightarrow> rat" where
  "d_sign (Fin a) = sgn a"
| "d_sign PInf = 1"
| "d_sign NInf = -1"
| "d_sign NaN = 0"

fun d_mul :: "double \<Rightarrow> double \<Rightarrow> double" where
  "d_mul (Fin a) (Fin b) = d_round (a * b)"
| "d_mul x y = d_signed_inf (d_sign x * d_sign y)"

fun d_div :: "double \<Rightarrow> double \<Rightarrow> double" where
  "d_div (Fin a) (Fin b) = (if b = 0 then d_signed_inf a else d_round (a / b))"
| "d_div NaN y = NaN"
| "d_div (Fin a) NaN = NaN"
| "d_div (Fin a) y = Fin 0"
| "d_div x (Fin b) = d_signed_inf (d_sign x * (if b = 0 then 1 else sgn b))"
| "d_div x y = NaN"

fun d_lt :: "double \<Rightarrow> double \<Rightarrow> bool" where
  "d_lt (Fin a) (Fin b) = (a < b)"
| "d_lt NaN y = False"
| "d_lt x NaN = False"
| "d_lt PInf y = False"
| "d_lt x PInf = True"
| "d_lt x NInf = False"
| "d_lt NInf y = True"

fun d_le :: "double \<Rightarrow> double \<Rightarrow> bool" where
  "d_le (Fin a) (Fin b) = (a \<le> b)"
| "d_le NaN y = False"
| "d_le x NaN = False"
| "d_le x PInf = True"
| "d_le PInf y = False"
| "d_le NInf y = True"
| "d_le x NInf = False"

definition d_gt :: "double \<Rightarrow> double \<Rightarrow> bool" where
  "d_gt x y = d_lt y x"

definition d_ge :: "double \<Rightarrow> double \<Rightarrow> bool" where
  "d_ge x y = d_le y x"

definition d_eq :: "double \<Rightarrow> double \<Rightarrow> bool" where
  "d_eq x y = (d_le x y \<and> d_le y x)"

fun d_isfinite :: "double \<Rightarrow> bool" where
  "d_isfinite (Fin a) = True"
| "d_isfinite _ = False"

definition rat_trunc :: "rat \<Rightarrow> int" where
  "rat_trunc q = (if 0 \<le> q then \<lfloor>q\<rfloor> else \<lceil>q\<rceil>)"

text \<open>\<open>(int64_t)d\<close>: undefined when the truncated value does not fit.\<close>

fun d_to_i64 :: "double \<Rightarrow> int res" where
  "d_to_i64 (Fin a) = chk64 (rat_trunc a)"
| "d_to_i64 _ = UB"

text \<open>\<open>(int64_t)((double)payable * (d / total))\<close>\<close>

definition prop_share :: "int \<Rightarrow> double \<Rightarrow> double \<Rightarrow> int res" where
  "prop_share payable d tot = d_to_i64 (d_mul (d_of_int payable) (d_div d tot))"

section \<open>Rounding error\<close>

lemma bitlen_pos: "0 < n \<Longrightarrow> 0 < bitlen n"
proof (rule ccontr)
  assume n: "0 < n" and "\<not> 0 < bitlen n"
  then have "n < 2 ^ 0" using bitlen_bounds [OF n] by simp
  with n show False by simp
qed

lemma powi_of_int: "0 \<le> k \<Longrightarrow> (2::rat) powi k = of_int (2 ^ nat k)"
  by (simp add: power_int_def)

lemma rat_exp_bounds:
  assumes q: "0 < q"
  shows "2 powi rat_exp q \<le> q" and "q < 2 powi (rat_exp q + 1)"
proof -
  obtain n d where nd: "quotient_of q = (n, d)" by (cases "quotient_of q")
  have d0: "0 < d" and qe: "q = of_int n / of_int d"
    using nd quotient_of_denom_pos quotient_of_div by blast+
  have n0: "0 < n" using q d0 unfolding qe by (simp add: zero_less_divide_iff)
  have bn: "2 ^ nat (bitlen n - 1) \<le> n" "n < 2 ^ nat (bitlen n)"
    and bd: "2 ^ nat (bitlen d - 1) \<le> d" "d < 2 ^ nat (bitlen d)"
    using bitlen_bounds [OF n0] bitlen_bounds [OF d0] by auto
  have pos: "0 < bitlen n" "0 < bitlen d"
    using bitlen_pos [OF n0] bitlen_pos [OF d0] .
  let ?e = "bitlen n - bitlen d"
  have n_lo: "(2::rat) powi (bitlen n - 1) \<le> of_int n" and n_hi: "of_int n < (2::rat) powi bitlen n"
    and d_lo: "(2::rat) powi (bitlen d - 1) \<le> of_int d" and d_hi: "of_int d < (2::rat) powi bitlen d"
    using bn bd pos
    by (simp_all only: powi_of_int of_int_le_iff of_int_less_iff zle_diff1_eq less_imp_le)
  have dp: "(0::rat) < of_int d" using d0 by simp
  have "q < 2 powi bitlen n / 2 powi (bitlen d - 1)"
    unfolding qe using n_hi d_lo n0 by (intro frac_less) auto
  then have hi: "q < 2 powi (?e + 1)"
    by (simp add: power_int_diff power_int_add field_simps)
  have "2 powi (bitlen n - 1) / 2 powi bitlen d < q"
    unfolding qe using n_lo d_hi dp by (intro frac_less2) auto
  then have lo: "2 powi (?e - 1) < q"
    by (simp add: power_int_diff power_int_add field_simps)
  show "2 powi rat_exp q \<le> q" "q < 2 powi (rat_exp q + 1)"
    using hi lo by (auto simp: rat_exp_def nd Let_def not_le)
qed

lemma rne_error: "\<bar>of_int (rne q) - q\<bar> \<le> 1/2"
  using floor_correct [of q] by (auto simp: rne_def Let_def)

lemma rne_of_int [simp]: "rne (of_int n) = n"
  by (simp add: rne_def)

lemma rne_mono: "p \<le> q \<Longrightarrow> rne p \<le> rne q"
proof (rule ccontr)
  assume pq: "p \<le> q" and "\<not> rne p \<le> rne q"
  then have "rne q + 1 \<le> rne p" by simp
  then have "(of_int (rne q) :: rat) + 1 \<le> of_int (rne p)"
    by (metis of_int_1 of_int_add of_int_le_iff)
  with rne_error [of p] rne_error [of q] pq have "p = q" by linarith
  with \<open>\<not> rne p \<le> rne q\<close> show False by simp
qed

lemma d_ulp_pos [simp]: "0 < d_ulp q"
  by (simp add: d_ulp_def)

lemma d_ulp_nonneg [simp]: "0 \<le> d_ulp q"
  by (simp add: d_ulp_def)

text \<open>Half the spacing of the subnormal grid: the absolute part of the rounding error.\<close>

definition d_tiny :: rat where
  "d_tiny = 1 / 2 ^ 1075"

lemma d_tiny_pos: "0 < d_tiny"
  by (simp only: d_tiny_def) simp

lemma d_tiny_small: "2 ^ 100 * d_tiny \<le> 1"
proof -
  have "(2::rat) ^ 1075 = 2 ^ 100 * 2 ^ 975" by (simp flip: power_add)
  then have "2 ^ 100 * d_tiny = 1 / 2 ^ 975" by (simp only: d_tiny_def) simp
  also have "\<dots> \<le> 1" by (simp only: divide_le_eq_1) simp
  finally show ?thesis .
qed

lemma two_powi_sub: "(2::rat) powi (-1074) = 2 * d_tiny"
proof -
  have "(2::rat) ^ 1075 = 2 * 2 ^ 1074" by simp
  then show ?thesis
    using power_int_minus [of "2::rat" 1074]
    by (simp only: power_int_numeral inverse_eq_divide d_tiny_def)
qed

lemma d_ulp_le: "0 < q \<Longrightarrow> d_ulp q \<le> q / 2 ^ 52 + 2 * d_tiny"
proof (cases "rat_exp q \<ge> -1022")
  case True
  assume "0 < q"
  have "d_ulp q = 2 powi rat_exp q / 2 ^ 52"
    using True by (simp add: d_ulp_def power_int_diff max_def)
  also have "\<dots> \<le> q / 2 ^ 52"
    using rat_exp_bounds(1) [OF \<open>0 < q\<close>] by (simp add: divide_right_mono)
  also have "\<dots> \<le> q / 2 ^ 52 + 2 * d_tiny" using d_tiny_pos by simp
  finally show ?thesis .
next
  case False
  assume "0 < q"
  have "d_ulp q = 2 powi (-1074)"
    using False by (simp add: d_ulp_def max_def)
  also have "\<dots> = 2 * d_tiny" by (rule two_powi_sub)
  also have "\<dots> \<le> q / 2 ^ 52 + 2 * d_tiny" using \<open>0 < q\<close> by simp
  finally show ?thesis .
qed

lemma d_mag_error: "0 < q \<Longrightarrow> \<bar>d_mag q - q\<bar> \<le> q / 2 ^ 53 + d_tiny"
proof -
  assume q: "0 < q"
  have "d_mag q - q = (of_int (rne (q / d_ulp q)) - q / d_ulp q) * d_ulp q"
    by (simp add: d_mag_def left_diff_distrib less_imp_neq [THEN not_sym])
  then have "\<bar>d_mag q - q\<bar> = \<bar>of_int (rne (q / d_ulp q)) - q / d_ulp q\<bar> * d_ulp q"
    by (simp add: abs_mult less_imp_le)
  also have "\<dots> \<le> 1/2 * d_ulp q"
    by (intro mult_right_mono rne_error) (simp add: less_imp_le)
  also have "\<dots> \<le> 1/2 * (q / 2 ^ 52 + 2 * d_tiny)"
    using d_ulp_le [OF q] by (intro mult_left_mono) auto
  also have "\<dots> = q / 2 ^ 53 + d_tiny" by (simp add: field_simps)
  finally show ?thesis .
qed

lemma d_mag_nonneg: "0 < q \<Longrightarrow> 0 \<le> d_mag q"
proof -
  assume "0 < q"
  then have "rne 0 \<le> rne (q / d_ulp q)" by (intro rne_mono) (simp add: less_imp_le)
  then show ?thesis
    using rne_of_int [of 0] by (simp add: d_mag_def less_imp_le)
qed

lemma d_round_nonneg:
  assumes "0 \<le> q" and "q \<le> 2 ^ 1000"
  obtains r where "d_round q = Fin r" and "0 \<le> r" and "\<bar>r - q\<bar> \<le> q / 2 ^ 53 + d_tiny"
proof (cases "q = 0")
  case True
  then show ?thesis using that [of 0] d_tiny_pos by (simp add: d_round_def)
next
  case False
  with assms have q: "0 < q" by simp
  have "d_mag q \<le> q + (q / 2 ^ 53 + d_tiny)" using d_mag_error [OF q] by linarith
  also have "\<dots> \<le> q + (q + 1)"
    using q d_tiny_small d_tiny_pos by (intro add_left_mono add_mono) simp_all
  also have "\<dots> < 4 * 2 ^ 1000"
    using assms(2) one_less_power [of "2::rat" 1000] by linarith
  also have "\<dots> \<le> 2 ^ 1024" by simp
  finally have "\<not> d_mag q \<ge> 2 ^ 1024" by (simp only: not_le)
  then have "d_round q = Fin (d_mag q)"
    using q unfolding d_round_def Let_def by (simp only: abs_of_pos if_False) simp
  then show ?thesis using that d_mag_nonneg [OF q] d_mag_error [OF q] by blast
qed

text \<open>A rational with a denominator \<open>2^k\<close> and a numerator below \<open>2^53\<close> is a double.\<close>

lemma d_round_dyadic:
  assumes m: "0 \<le> m" "m < 2 ^ 53" and k: "k \<le> 1000"
  shows "d_round (of_int m / 2 ^ k) = Fin (of_int m / 2 ^ k)"
proof (cases "m = 0")
  case True
  then show ?thesis by (simp add: d_round_def)
next
  case False
  define q where "q = (of_int m / 2 ^ k :: rat)"
  have pk: "(2::rat) powi (- int k) = 1 / 2 ^ k" by (simp add: power_int_minus divide_inverse)
  have q: "0 < q" using m False by (simp add: q_def)
  have ql: "2 powi (- int k) \<le> q" using m False by (simp add: q_def pk divide_right_mono)
  have qh: "q < 2 powi (53 - int k)"
    using m by (simp add: q_def power_int_diff divide_strict_right_mono)
  have e0: "- int k \<le> rat_exp q"
  proof (rule ccontr)
    assume "\<not> - int k \<le> rat_exp q"
    then have "(2::rat) powi (rat_exp q + 1) \<le> 2 powi (- int k)" by (intro power_int_increasing) auto
    then show False using rat_exp_bounds(2) [OF q] ql by simp
  qed
  have e1: "rat_exp q \<le> 52 - int k"
  proof (rule ccontr)
    assume "\<not> rat_exp q \<le> 52 - int k"
    then have "(2::rat) powi (53 - int k) \<le> 2 powi (rat_exp q)" by (intro power_int_increasing) auto
    then show False using rat_exp_bounds(1) [OF q] qh by simp
  qed
  have ulp: "d_ulp q = 2 powi (rat_exp q - 52)" using e0 k by (simp add: d_ulp_def max_def)
  have "q / d_ulp q = of_int m * 2 powi (52 - int k - rat_exp q)"
    unfolding ulp by (simp add: q_def power_int_diff power_int_add field_simps)
  also have "\<dots> = of_int (m * 2 ^ nat (52 - int k - rat_exp q))"
    using e1 by (simp add: powi_of_int)
  finally have "d_mag q = q / d_ulp q * d_ulp q" unfolding d_mag_def by (simp only: rne_of_int)
  then have dm: "d_mag q = q" using d_ulp_pos [of q] by (simp add: less_imp_neq [THEN not_sym])
  have "q \<le> of_int m" using m by (simp add: q_def divide_le_eq mult_le_cancel_left1)
  also have "\<dots> < 2 ^ 53" using m by simp
  also have "\<dots> \<le> 2 ^ 1024" by (rule power_increasing) simp_all
  finally have "\<not> d_mag q \<ge> 2 ^ 1024" by (simp only: dm not_le)
  then show ?thesis
    unfolding q_def [symmetric] d_round_def Let_def
    using q by (simp only: abs_of_pos if_False dm) simp
qed

lemma d_of_int_exact: "0 \<le> n \<Longrightarrow> n < 2 ^ 53 \<Longrightarrow> d_of_int n = Fin (of_int n)"
  using d_round_dyadic [of n 0] by (simp add: d_of_int_def)

section \<open>Rounding is monotone\<close>

lemma d_mag_upper: "0 < q \<Longrightarrow> d_mag q \<le> 2 powi (max (rat_exp q) (-1022) + 1)"
proof -
  assume q: "0 < q"
  let ?E = "max (rat_exp q) (-1022)"
  have u: "d_ulp q = 2 powi (?E - 52)" by (simp add: d_ulp_def)
  have "q < 2 powi (rat_exp q + 1)" by (rule rat_exp_bounds(2) [OF q])
  also have "\<dots> \<le> 2 powi (?E + 1)" by (rule power_int_increasing) simp_all
  finally have "q / d_ulp q \<le> 2 powi (?E + 1) / 2 powi (?E - 52)" by (simp add: u divide_right_mono)
  also have "\<dots> = 2 powi 53" by (simp flip: power_int_diff)
  finally have "q / d_ulp q \<le> of_int (2 ^ 53)" by simp
  then have "rne (q / d_ulp q) \<le> 2 ^ 53" using rne_mono [of "q / d_ulp q" "of_int (2 ^ 53)"] by (simp only: rne_of_int)
  then have "(of_int (rne (q / d_ulp q)) :: rat) \<le> of_int (2 ^ 53)" by (simp only: of_int_le_iff)
  then have "d_mag q \<le> of_int (2 ^ 53) * d_ulp q"
    unfolding d_mag_def using d_ulp_pos [of q] by (intro mult_right_mono) simp_all
  also have "\<dots> = 2 powi (?E + 1)" unfolding u by (simp add: power_int_diff power_int_add)
  finally show ?thesis .
qed

lemma d_mag_lower: "0 < q \<Longrightarrow> -1022 \<le> rat_exp q \<Longrightarrow> 2 powi rat_exp q \<le> d_mag q"
proof -
  assume q: "0 < q" and e: "-1022 \<le> rat_exp q"
  have u: "d_ulp q = 2 powi (rat_exp q - 52)" using e by (simp add: d_ulp_def max_def)
  have "of_int (2 ^ 52) = 2 powi rat_exp q / d_ulp q" unfolding u by (simp add: power_int_diff)
  also have "\<dots> \<le> q / d_ulp q"
    using rat_exp_bounds(1) [OF q] d_ulp_pos [of q] by (intro divide_right_mono) simp_all
  finally have "2 ^ 52 \<le> rne (q / d_ulp q)" using rne_mono [of "of_int (2 ^ 52)" "q / d_ulp q"] by (simp only: rne_of_int)
  then have "(of_int (2 ^ 52) :: rat) \<le> of_int (rne (q / d_ulp q))" by (simp only: of_int_le_iff)
  then have "of_int (2 ^ 52) * d_ulp q \<le> d_mag q"
    unfolding d_mag_def using d_ulp_pos [of q] by (intro mult_right_mono) simp_all
  moreover have "of_int (2 ^ 52) * d_ulp q = 2 powi rat_exp q" unfolding u by (simp add: power_int_diff)
  ultimately show ?thesis by simp
qed

lemma rat_exp_mono: "0 < p \<Longrightarrow> p \<le> q \<Longrightarrow> rat_exp p \<le> rat_exp q"
proof (rule ccontr)
  assume p: "0 < p" and pq: "p \<le> q" and "\<not> rat_exp p \<le> rat_exp q"
  then have "(2::rat) powi (rat_exp q + 1) \<le> 2 powi rat_exp p" by (intro power_int_increasing) simp_all
  also have "\<dots> \<le> p" by (rule rat_exp_bounds(1) [OF p])
  finally have "2 powi (rat_exp q + 1) \<le> q" using pq by simp
  moreover have "q < 2 powi (rat_exp q + 1)" by (rule rat_exp_bounds(2)) (use p pq in simp)
  ultimately show False by simp
qed

lemma d_mag_mono: "0 < p \<Longrightarrow> p \<le> q \<Longrightarrow> d_mag p \<le> d_mag q"
proof -
  assume p: "0 < p" and pq: "p \<le> q"
  have q: "0 < q" using p pq by simp
  let ?E = "\<lambda>x. max (rat_exp x) (-1022)"
  show ?thesis
  proof (cases "?E p = ?E q")
    case True
    then have u: "d_ulp p = d_ulp q" by (simp add: d_ulp_def)
    have "p / d_ulp q \<le> q / d_ulp q" using pq d_ulp_pos [of q] by (intro divide_right_mono) simp_all
    then have "rne (p / d_ulp q) \<le> rne (q / d_ulp q)" by (rule rne_mono)
    then show ?thesis unfolding d_mag_def u using d_ulp_pos [of q] by (intro mult_right_mono) simp_all
  next
    case False
    then have lt: "?E p + 1 \<le> rat_exp q" "-1022 \<le> rat_exp q" using rat_exp_mono [OF p pq] by auto
    have "d_mag p \<le> 2 powi (?E p + 1)" by (rule d_mag_upper [OF p])
    also have "\<dots> \<le> 2 powi rat_exp q" using lt(1) by (rule power_int_increasing) simp
    also have "\<dots> \<le> d_mag q" by (rule d_mag_lower [OF q lt(2)])
    finally show ?thesis .
  qed
qed

lemma d_round_pos: "0 < q \<Longrightarrow> d_round q = (if d_mag q \<ge> 2 ^ 1024 then PInf else Fin (d_mag q))"
  unfolding d_round_def Let_def by (simp only: abs_of_pos less_imp_neq [THEN not_sym] not_less_iff_gr_or_eq if_False) simp

lemma d_round_mono:
  assumes "0 \<le> p" and "p \<le> q"
  shows "d_le (d_round p) (d_round q)"
proof (cases "p = 0")
  case True
  have "d_le (Fin 0) (d_round q)"
  proof (cases "q = 0")
    case True
    then show ?thesis by (simp add: d_round_def)
  next
    case False
    then have "0 < q" using assms by simp
    then show ?thesis using d_mag_nonneg [of q] by (simp only: d_round_pos split: if_splits) simp
  qed
  then show ?thesis using True by (simp add: d_round_def)
next
  case False
  then have p: "0 < p" and q: "0 < q" using assms by simp_all
  then show ?thesis
    using d_mag_mono [OF p assms(2)] by (simp only: d_round_pos split: if_splits) (auto simp: not_le)
qed

section \<open>The proportional share\<close>

lemma rat_trunc_nonneg: "0 \<le> c \<Longrightarrow> 0 \<le> rat_trunc c \<and> of_int (rat_trunc c) \<le> c"
  by (simp add: rat_trunc_def)

lemma prop_share_real:
  assumes P: "0 \<le> P" "P \<le> 2 ^ 42" and d: "0 \<le> d" "d \<le> 2 * T" and T: "0 < T"
  obtains c where "prop_share P (Fin d) (Fin T) = Ok \<lfloor>c\<rfloor>" and "0 \<le> c"
    and "c \<le> of_int P * (d / T) * (1 + 3 / 2 ^ 53) + 2 ^ 50 * d_tiny"
    and "of_int P * (d / T) * (1 - 2 / 2 ^ 53) - 2 ^ 50 * d_tiny \<le> c"
proof -
  let ?P = "of_int P :: rat" and ?x = "d / T" and ?t = d_tiny
  have Pb: "0 \<le> ?P" "?P \<le> 2 ^ 42" using P by (simp_all add: of_int_le_iff [of P "2 ^ 42", simplified])
  have Pd: "d_of_int P = Fin ?P" using P by (intro d_of_int_exact) simp_all
  have x: "0 \<le> ?x" "?x \<le> 2" using d T by (simp_all add: divide_le_eq)
  have big: "(2::rat) ^ 60 \<le> 2 ^ 1000" by (rule power_increasing) simp_all
  have "?x \<le> 2 ^ 1000" using x(2) big by simp
  then obtain s where s: "d_round ?x = Fin s" "0 \<le> s" "\<bar>s - ?x\<bar> \<le> ?x / 2 ^ 53 + ?t"
    using d_round_nonneg x(1) by blast
  have t: "0 < ?t" "?t \<le> 1" using d_tiny_pos d_tiny_small by simp_all
  have s4: "s \<le> 4" using s(3) x t by (simp add: abs_le_iff)
  have Ps: "0 \<le> ?P * s" "?P * s \<le> 2 ^ 44"
    using mult_mono [OF Pb(2) s4] Pb s(2) by simp_all
  then have "?P * s \<le> 2 ^ 1000" using big by simp
  then obtain c where c: "d_round (?P * s) = Fin c" "0 \<le> c" "\<bar>c - ?P * s\<bar> \<le> ?P * s / 2 ^ 53 + ?t"
    using d_round_nonneg Ps(1) by blast
  have "c \<le> ?P * s * (1 + 1 / 2 ^ 53) + ?t" using c(3) by (simp add: abs_le_iff algebra_simps)
  also have "?P * s \<le> ?P * (?x * (1 + 1 / 2 ^ 53) + ?t)"
    using s(3) Pb by (intro mult_left_mono) (simp_all add: abs_le_iff algebra_simps)
  finally have "c \<le> ?P * (?x * (1 + 1 / 2 ^ 53) + ?t) * (1 + 1 / 2 ^ 53) + ?t"
    by (simp add: mult_right_mono)
  also have "\<dots> = ?P * ?x * ((1 + 1 / 2 ^ 53) * (1 + 1 / 2 ^ 53)) + (?P * (1 + 1 / 2 ^ 53) + 1) * ?t"
    by (simp add: algebra_simps)
  also have "\<dots> \<le> ?P * ?x * (1 + 3 / 2 ^ 53) + 2 ^ 50 * ?t"
    using Pb(2) t by (intro add_mono mult_left_mono mult_right_mono mult_nonneg_nonneg Pb(1) x(1)) simp_all
  finally have hi: "c \<le> ?P * ?x * (1 + 3 / 2 ^ 53) + 2 ^ 50 * ?t" .
  have "?P * ?x * (1 - 2 / 2 ^ 53) - 2 ^ 50 * ?t \<le>
      ?P * ?x * ((1 - 1 / 2 ^ 53) * (1 - 1 / 2 ^ 53)) - (?P * (1 - 1 / 2 ^ 53) + 1) * ?t"
    using Pb(2) t by (intro diff_mono mult_left_mono mult_right_mono mult_nonneg_nonneg Pb(1) x(1)) simp_all
  also have "\<dots> = ?P * (?x * (1 - 1 / 2 ^ 53) - ?t) * (1 - 1 / 2 ^ 53) - ?t"
    by (simp add: algebra_simps)
  also have "?P * (?x * (1 - 1 / 2 ^ 53) - ?t) \<le> ?P * s"
    using s(3) Pb by (intro mult_left_mono) (simp_all add: abs_le_iff algebra_simps)
  also have "?P * s * (1 - 1 / 2 ^ 53) - ?t \<le> c" using c(3) by (simp add: abs_le_iff algebra_simps)
  finally have lo: "?P * ?x * (1 - 2 / 2 ^ 53) - 2 ^ 50 * ?t \<le> c"
    by (simp add: mult_right_mono)
  have "c < 2 ^ 63"
    using c(3) Ps t by (simp add: abs_le_iff)
  then have "\<lfloor>c\<rfloor> < 2 ^ 63" by (simp add: floor_less_iff)
  then have "i64_ok \<lfloor>c\<rfloor>" using c(2) by (simp add: i64_ok_def)
  then have "prop_share P (Fin d) (Fin T) = Ok \<lfloor>c\<rfloor>"
    using T s(1) c(1,2) by (simp add: prop_share_def Pd rat_trunc_def)
  with that c(2) hi lo show ?thesis by blast
qed

lemma prop_share_bound:
  assumes P: "0 \<le> P" "P \<le> 2 ^ 42" and d: "0 \<le> d" "d \<le> 2 * T" and T: "0 < T"
  obtains k where "prop_share P (Fin d) (Fin T) = Ok k" and "0 \<le> k"
    and "of_int k \<le> of_int P * (d / T) * (1 + 3 / 2 ^ 53) + 2 ^ 50 * d_tiny"
proof -
  obtain c where c: "prop_share P (Fin d) (Fin T) = Ok \<lfloor>c\<rfloor>" "0 \<le> c"
    "c \<le> of_int P * (d / T) * (1 + 3 / 2 ^ 53) + 2 ^ 50 * d_tiny"
    using prop_share_real [OF assms] by metis
  then show ?thesis using that [of "\<lfloor>c\<rfloor>"] of_int_floor_le [of c] by simp
qed

text \<open>
  Scaling up never shrinks: a share \<open>s\<close> of \<open>T\<close>, scaled to a larger amount \<open>P\<close>, truncates to at
  least \<open>s\<close>. The exact product exceeds \<open>s\<close> by a factor of at least \<open>1 + 2^-42\<close>, the rounding
  errors lose less than \<open>2^-52\<close>.
\<close>

lemma prop_share_scale_up:
  assumes P: "T < P" "P \<le> 2 ^ 42" and s: "0 \<le> s" "s \<le> T" and T: "0 < T"
  obtains k where "prop_share P (d_of_int s) (d_of_int T) = Ok k" and "s \<le> k"
proof -
  let ?P = "of_int P :: rat" and ?s = "of_int s :: rat" and ?T = "of_int T :: rat"
  have ex: "d_of_int s = Fin ?s" "d_of_int T = Fin ?T"
    using assms by (intro d_of_int_exact; simp)+
  have T0: "0 < ?T" "?T \<le> 2 ^ 42" using T P by (simp_all add: of_int_le_iff [of T "2 ^ 42", simplified])
  have "s \<le> 2 * T" using s T by simp
  then have sT: "?s \<le> 2 * ?T" by (metis of_int_le_iff of_int_mult of_int_numeral)
  obtain c where c: "prop_share P (Fin ?s) (Fin ?T) = Ok \<lfloor>c\<rfloor>" "0 \<le> c"
    "?P * (?s / ?T) * (1 - 2 / 2 ^ 53) - 2 ^ 50 * d_tiny \<le> c"
    using prop_share_real [of P ?s ?T, OF _ P(2) _ sT T0(1)] P T s by (metis less_imp_le less_trans of_int_0_le_iff)
  have "s \<le> \<lfloor>c\<rfloor>"
  proof (cases "s = 0")
    case True
    then show ?thesis using c(2) by simp
  next
    case False
    then have s1: "1 \<le> ?s" using s by simp
    have PT: "?T + 1 \<le> ?P" using P by (metis of_int_1 of_int_add of_int_le_iff zless_imp_add1_zle)
    have "?s * (1 + 1 / 2 ^ 42) \<le> ?s * (1 + 1 / ?T)"
      using s1 T0 by (intro mult_left_mono add_left_mono divide_left_mono) simp_all
    also have "\<dots> = (?T + 1) * (?s / ?T)" using T0 by (simp add: field_simps)
    also have "\<dots> \<le> ?P * (?s / ?T)" using PT s1 T0 by (intro mult_right_mono) simp_all
    finally have g: "?s * (1 + 1 / 2 ^ 42) * (1 - 2 / 2 ^ 53) \<le> ?P * (?s / ?T) * (1 - 2 / 2 ^ 53)"
      by (intro mult_right_mono) simp_all
    have "?s + ?s / 2 ^ 43 \<le> ?s * (1 + 1 / 2 ^ 42) * (1 - 2 / 2 ^ 53)"
      using s1 by (simp add: algebra_simps)
    moreover have "2 ^ 50 * d_tiny \<le> 1 / 2 ^ 43" using d_tiny_small by simp
    moreover have "1 / 2 ^ 43 \<le> ?s / 2 ^ 43" using s1 by (intro divide_right_mono) simp_all
    ultimately have "?s \<le> c" using g c(3) by linarith
    then show ?thesis by (simp add: le_floor_iff)
  qed
  then show ?thesis using that c(1) ex by simp
qed

lemma member_le_sum_rat: "d \<in> set ds \<Longrightarrow> (\<And>d. d \<in> set ds \<Longrightarrow> 0 \<le> d) \<Longrightarrow> (d::rat) \<le> sum_list ds"
proof (induction ds)
  case (Cons a ds)
  then show ?case using sum_list_nonneg [of ds] by (cases "d = a") (auto intro: add_increasing)
qed simp

lemma prop_shares_bound:
  assumes P: "0 \<le> P" "P \<le> 2 ^ 42" and T: "0 < T"
    and ds: "\<And>d. d \<in> set ds \<Longrightarrow> 0 \<le> d \<and> d \<le> 2 * T"
  shows "\<exists>ks. map (\<lambda>d. prop_share P (Fin d) (Fin T)) ds = map Ok ks \<and> (\<forall>k \<in> set ks. 0 \<le> k) \<and>
    of_int (sum_list ks) \<le>
      of_int P * (sum_list ds / T) * (1 + 3 / 2 ^ 53) + of_nat (length ds) * (2 ^ 50 * d_tiny)"
  using ds
proof (induction ds)
  case Nil
  then show ?case by simp
next
  case (Cons d ds)
  obtain ks where ks: "map (\<lambda>d. prop_share P (Fin d) (Fin T)) ds = map Ok ks" "\<forall>k \<in> set ks. 0 \<le> k"
    "of_int (sum_list ks) \<le>
      of_int P * (sum_list ds / T) * (1 + 3 / 2 ^ 53) + of_nat (length ds) * (2 ^ 50 * d_tiny)"
    using Cons by auto
  obtain k where k: "prop_share P (Fin d) (Fin T) = Ok k" "0 \<le> k"
    "of_int k \<le> of_int P * (d / T) * (1 + 3 / 2 ^ 53) + 2 ^ 50 * d_tiny"
    using prop_share_bound [OF P _ _ T, of d] Cons.prems by auto
  have "of_int (k + sum_list ks) \<le>
      of_int P * ((d + sum_list ds) / T) * (1 + 3 / 2 ^ 53) + of_nat (Suc (length ds)) * (2 ^ 50 * d_tiny)"
    using ks(3) k(3) by (simp add: add_divide_distrib algebra_simps)
  then show ?case
    using ks(1,2) k(1,2) by (intro exI [of _ "k # ks"]) simp
qed

text \<open>
  Truncated proportional shares never sum to more than the amount divided, when the weights sum
  to at most the divisor up to a relative error of \<open>2^-44\<close>: the error of summing a few thousand
  doubles. The amount is bounded by \<open>2^42\<close> satoshis, about 43980 BTC, nine hundred times the
  largest block subsidy there has been.
\<close>

lemma sum_prop_shares_le:
  assumes P: "0 \<le> P" "P \<le> 2 ^ 42" and T: "0 < T"
    and ds: "\<And>d. d \<in> set ds \<Longrightarrow> 0 \<le> d" and sum: "sum_list ds \<le> T * (1 + 1 / 2 ^ 44)"
    and len: "length ds \<le> 2 ^ 20"
  obtains ks where "map (\<lambda>d. prop_share P (Fin d) (Fin T)) ds = map Ok ks"
    and "\<And>k. k \<in> set ks \<Longrightarrow> 0 \<le> k" and "sum_list ks \<le> P"
proof -
  let ?P = "of_int P :: rat"
  have Pb: "0 \<le> ?P" "?P \<le> 2 ^ 42" using P by (simp_all add: of_int_le_iff [of P "2 ^ 42", simplified])
  have "0 \<le> d \<and> d \<le> 2 * T" if "d \<in> set ds" for d
  proof -
    have "d \<le> sum_list ds" using that ds by (rule member_le_sum_rat)
    also have "\<dots> \<le> T * (1 + 1 / 2 ^ 44)" by (rule sum)
    also have "\<dots> \<le> T * 2" using T by (intro mult_left_mono) simp_all
    finally show ?thesis using ds [OF that] by simp
  qed
  then obtain ks where ks: "map (\<lambda>d. prop_share P (Fin d) (Fin T)) ds = map Ok ks" "\<forall>k \<in> set ks. 0 \<le> k"
    "of_int (sum_list ks) \<le>
      ?P * (sum_list ds / T) * (1 + 3 / 2 ^ 53) + of_nat (length ds) * (2 ^ 50 * d_tiny)"
    using prop_shares_bound [OF P T, of ds] by blast
  have x: "sum_list ds / T \<le> 1 + 1 / 2 ^ 44" using sum T by (simp add: divide_le_eq mult.commute)
  have "of_nat (length ds) \<le> (2::rat) ^ 20" using len by (metis of_nat_le_iff of_nat_numeral of_nat_power)
  then have tiny: "of_nat (length ds) * (2 ^ 50 * d_tiny) \<le> 2 ^ 20 * (2 ^ 50 * d_tiny)"
    using d_tiny_pos by (intro mult_right_mono) simp_all
  have "of_int (sum_list ks) \<le> ?P * (1 + 1 / 2 ^ 44) * (1 + 3 / 2 ^ 53) + 2 ^ 20 * (2 ^ 50 * d_tiny)"
  proof (rule order_trans [OF ks(3)], rule add_mono [OF _ tiny])
    show "?P * (sum_list ds / T) * (1 + 3 / 2 ^ 53) \<le> ?P * (1 + 1 / 2 ^ 44) * (1 + 3 / 2 ^ 53)"
      using x Pb(1) by (intro mult_right_mono mult_left_mono) simp_all
  qed
  also have "\<dots> < ?P + 1" using Pb d_tiny_small by (simp add: algebra_simps)
  finally have "sum_list ks < P + 1" by (metis of_int_1 of_int_add of_int_less_iff)
  then show ?thesis using that [OF ks(1)] ks(2) by simp
qed

section \<open>Signs\<close>

fun d_nonneg :: "double \<Rightarrow> bool" where
  "d_nonneg (Fin a) = (0 \<le> a)"
| "d_nonneg NInf = False"
| "d_nonneg _ = True"

lemma d_nonneg_round: "0 \<le> q \<Longrightarrow> d_nonneg (d_round q)"
  using d_mag_nonneg [of q] by (auto simp: d_round_def Let_def)

lemma d_nonneg_of_int: "0 \<le> n \<Longrightarrow> d_nonneg (d_of_int n)"
  by (simp add: d_of_int_def d_nonneg_round)

lemma d_nonneg_mul: "d_nonneg x \<Longrightarrow> d_nonneg y \<Longrightarrow> d_nonneg (d_mul x y)"
  by (cases x; cases y) (auto simp: d_nonneg_round d_signed_inf_def sgn_if)

lemma d_nonneg_div: "d_nonneg x \<Longrightarrow> d_nonneg y \<Longrightarrow> d_nonneg (d_div x y)"
  by (cases x; cases y) (auto simp: d_nonneg_round d_signed_inf_def sgn_if)

lemma d_nonneg_add: "d_nonneg x \<Longrightarrow> d_nonneg y \<Longrightarrow> d_nonneg (d_add x y)"
  by (cases x; cases y) (auto simp: d_nonneg_round)

lemmas d_nonneg_ops = d_nonneg_round d_nonneg_of_int d_nonneg_mul d_nonneg_div d_nonneg_add

lemma d_to_i64_nonneg: "d_nonneg x \<Longrightarrow> d_to_i64 x = Ok k \<Longrightarrow> 0 \<le> k"
  using rat_trunc_nonneg by (cases x) auto

lemma prop_share_nonneg:
  "0 \<le> p \<Longrightarrow> d_nonneg d \<Longrightarrow> d_nonneg tot \<Longrightarrow> prop_share p d tot = Ok k \<Longrightarrow> 0 \<le> k"
  unfolding prop_share_def by (rule d_to_i64_nonneg [OF _]) (auto intro!: d_nonneg_ops)

end
