(* ===== verification/Address.thy ===== *)
theory Address
  imports Bytes Sha256
begin

text \<open>
  Addresses: base58 and base58check, bech32 and bech32m, the 5-to-8 bit regrouping, and
  \<open>coinbase_address_to_script\<close>, which turns a miner's payout address into the script the
  coinbase pays (\<^verbatim>\<open>src/coinbase.c\<close>), with the network an address proves, and the Thunder
  sidechain address decoder (\<^verbatim>\<open>src/thunder.c\<close>). The lemmas show that both decoders compute the
  positional value of their input, and which scripts a payout can be.
\<close>

section \<open>Base58\<close>

text \<open>\<open>strchr(alphabet, c) - alphabet\<close>\<close>

fun char_index :: "char \<Rightarrow> string \<Rightarrow> nat option" where
  "char_index c [] = None"
| "char_index c (a # as) = (if a = c then Some 0 else map_option Suc (char_index c as))"

definition b58_alpha :: string where
  "b58_alpha = ''123456789ABCDEFGHJKLMNPQRSTUVWXYZabcdefghijkmnopqrstuvwxyz''"

text \<open>
  The inner loop: \<open>carry += 58u * b[j]; b[j] = carry & 0xff; carry >>= 8\<close> from the last
  byte to the first. The buffer is kept in the order the loop visits it, least significant
  byte first.
\<close>

fun b58_mul :: "u32 \<Rightarrow> byte list \<Rightarrow> byte list \<times> u32" where
  "b58_mul carry [] = ([], carry)"
| "b58_mul carry (x # xs) =
     (let c = carry + 58 * ucast x; (ys, c') = b58_mul (drop_bit 8 c) xs
      in (ucast c # ys, c'))"

fun b58_loop :: "string \<Rightarrow> byte list \<Rightarrow> byte list option" where
  "b58_loop [] b = Some b"
| "b58_loop (c # cs) b =
     (case char_index c b58_alpha of
        None \<Rightarrow> None
      | Some p \<Rightarrow> (let (b', carry) = b58_mul (word_of_nat p) b
                   in if carry \<noteq> 0 then None else b58_loop cs b'))"

definition b58_zeros :: "string \<Rightarrow> nat" where
  "b58_zeros s = length (takeWhile (\<lambda>c. c = CHR ''1'') s)"

definition b58_decode :: "string \<Rightarrow> nat \<Rightarrow> byte list option" where
  "b58_decode s cap =
     (let zeros = b58_zeros s;
          bsize = length s * 733 div 1000 + 1
      in case b58_loop s (replicate bsize 0) of
           None \<Rightarrow> None
         | Some b \<Rightarrow>
             (let digits = dropWhile (\<lambda>x. x = 0) (rev b)
              in if zeros + length digits > cap then None
                 else Some (replicate zeros 0 @ digits)))"

section \<open>Bech32\<close>

definition bech32_alpha :: string where
  "bech32_alpha = ''qpzry9x8gf2tvdw0s3jn54khce6mua7l''"

definition bech32_charpos :: "char \<Rightarrow> nat option" where
  "bech32_charpos c = char_index c bech32_alpha"

definition bech32_G :: "u32 list" where
  "bech32_G = [0x3b6a57b2, 0x26508e6d, 0x1ea119fa, 0x3d4233dd, 0x2a1462b3]"

definition bech32_polymod_step :: "byte \<Rightarrow> u32 \<Rightarrow> u32" where
  "bech32_polymod_step v chk =
     (let b = ucast (drop_bit 25 chk) :: byte;
          chk1 = push_bit 5 (chk AND 0x1ffffff) XOR ucast v
      in fold (\<lambda>j c. if bit b j then c XOR bech32_G ! j else c) [0..<5] chk1)"

definition bech32_polymod :: "byte list \<Rightarrow> u32" where
  "bech32_polymod values = fold bech32_polymod_step values 1"

definition bech32_hrp_expand :: "string \<Rightarrow> byte list" where
  "bech32_hrp_expand hrp =
     map (\<lambda>c. drop_bit 5 (char_byte c)) hrp @ [0] @ map (\<lambda>c. char_byte c AND 31) hrp"

definition is_lower :: "char \<Rightarrow> bool" where
  "is_lower c \<longleftrightarrow> 97 \<le> (of_char c :: nat) \<and> (of_char c :: nat) \<le> 122"

definition is_upper :: "char \<Rightarrow> bool" where
  "is_upper c \<longleftrightarrow> 65 \<le> (of_char c :: nat) \<and> (of_char c :: nat) \<le> 90"

definition to_lower :: "char \<Rightarrow> char" where
  "to_lower c = (if is_upper c then char_of (of_char c + 32 :: nat) else c)"

text \<open>The index of the last \<open>'1'\<close>.\<close>

definition last_sep :: "string \<Rightarrow> nat option" where
  "last_sep s =
     (let t = length (takeWhile (\<lambda>c. c \<noteq> CHR ''1'') (rev s))
      in if t = length s then None else Some (length s - 1 - t))"

fun bech32_values :: "string \<Rightarrow> byte list option" where
  "bech32_values [] = Some []"
| "bech32_values (c # cs) =
     (case bech32_charpos (to_lower c) of
        None \<Rightarrow> None
      | Some v \<Rightarrow> map_option (\<lambda>vs. word_of_nat v # vs) (bech32_values cs))"

text \<open>
  \<open>bech32_decode\<close>: the human-readable part, the 5-bit groups without the checksum and the
  encoding, 1 for bech32 and 2 for bech32m. The caller's data buffer holds \<open>data_cap\<close> groups.
\<close>

definition bech32_decode :: "string \<Rightarrow> nat \<Rightarrow> nat \<Rightarrow> (string \<times> byte list \<times> nat) option" where
  "bech32_decode addr hrp_cap data_cap =
     (let alen = length addr in
      if alen < 8 \<or> alen > 90 then None
      else case last_sep addr of
        None \<Rightarrow> None
      | Some sep \<Rightarrow>
          if sep < 1 \<or> sep + 7 > alen then None
          else if sep + 1 > hrp_cap then None
          else let hrp_raw = take sep addr; data_raw = drop (sep + 1) addr in
            if list_ex (\<lambda>c. (of_char c :: nat) < 33 \<or> (of_char c :: nat) > 126) hrp_raw then None
            else case bech32_values data_raw of
              None \<Rightarrow> None
            | Some values \<Rightarrow>
                if list_ex is_lower (hrp_raw @ data_raw) \<and> list_ex is_upper (hrp_raw @ data_raw)
                then None
                else let hrp = map to_lower hrp_raw;
                         buf = bech32_hrp_expand hrp in
                  if length buf + length values > 200 then None
                  else let chk = bech32_polymod (buf @ values);
                           data_n = length values;
                           res = (\<lambda>enc. if data_cap < data_n - 6 then None
                                        else Some (hrp, take (data_n - 6) values, enc))
                    in if chk = 1 then res 1 else if chk = 0x2bc830a3 then res 2 else None)"

text \<open>
  \<open>convertbits\<close>. The inner \<open>while (bits >= to)\<close> loop is \<open>cb_emit\<close>; both callers pass a
  positive \<open>to\<close>, without which it would not end.
\<close>

function cb_emit :: "u32 \<Rightarrow> nat \<Rightarrow> nat \<Rightarrow> nat \<Rightarrow> byte list \<Rightarrow> (nat \<times> byte list) option" where
  "cb_emit acc to cap bits out =
     (if 0 < to \<and> to \<le> bits then
        if length out \<ge> cap then None
        else cb_emit acc to cap (bits - to)
               (out @ [ucast (drop_bit (bits - to) acc AND (push_bit to 1 - 1))])
      else Some (bits, out))"
  by pat_completeness auto
termination
  by (relation "measure (\<lambda>(acc, to, cap, bits, out). bits)") auto

declare cb_emit.simps [simp del]

fun cb_loop :: "byte list \<Rightarrow> nat \<Rightarrow> nat \<Rightarrow> nat \<Rightarrow> u32 \<Rightarrow> nat \<Rightarrow> byte list \<Rightarrow> (u32 \<times> nat \<times> byte list) option" where
  "cb_loop [] from to cap acc bits out = Some (acc, bits, out)"
| "cb_loop (v # vs) from to cap acc bits out =
     (if drop_bit from v \<noteq> 0 then None
      else let acc' = push_bit from acc OR ucast v in
        case cb_emit acc' to cap (bits + from) out of
          None \<Rightarrow> None
        | Some (bits', out') \<Rightarrow> cb_loop vs from to cap acc' bits' out')"

definition convertbits :: "byte list \<Rightarrow> nat \<Rightarrow> nat \<Rightarrow> bool \<Rightarrow> nat \<Rightarrow> byte list option" where
  "convertbits inp from to pad cap =
     (case cb_loop inp from to cap 0 0 [] of
        None \<Rightarrow> None
      | Some (acc, bits, out) \<Rightarrow>
          let tail = push_bit (to - bits) acc AND (push_bit to 1 - 1) in
          if pad then
            if bits > 0 then
              if length out \<ge> cap then None else Some (out @ [ucast tail])
            else Some out
          else if bits \<ge> from \<or> tail \<noteq> 0 then None
          else Some out)"

section \<open>Address to script\<close>

definition checksum_ok :: "byte list \<Rightarrow> bool" where
  "checksum_ok dec \<longleftrightarrow>
     take 4 (sha256 (sha256 (take (length dec - 4) dec))) = drop (length dec - 4) dec"

definition is_bech32_addr :: "string \<Rightarrow> bool" where
  "is_bech32_addr addr \<longleftrightarrow>
     has_prefix ''bc1'' addr \<or> has_prefix ''tb1'' addr \<or> has_prefix ''bcrt1'' addr \<or>
     has_prefix ''BC1'' addr \<or> has_prefix ''TB1'' addr \<or> has_prefix ''BCRT1'' addr"

definition bech32_to_script :: "string \<Rightarrow> nat \<Rightarrow> byte list res" where
  "bech32_to_script addr cap =
     (case bech32_decode addr 16 90 of
        None \<Rightarrow> Err ''bech32 decode failed for %s''
      | Some (hrp, data, enc) \<Rightarrow>
        (case data of
           [] \<Rightarrow> Err ''bech32 data too short''
         | witver # prog5 \<Rightarrow>
           guardR (witver > 16) ''bad witness version %u''
          (guardR ((witver = 0 \<and> enc \<noteq> 1) \<or> (witver \<noteq> 0 \<and> enc \<noteq> 2))
             ''bech32 encoding/version mismatch''
           (case convertbits prog5 5 8 False 64 of
              None \<Rightarrow> Err ''bech32 5->8 convert failed''
            | Some prog \<Rightarrow>
                if witver = 0 then
                  guardR (length prog \<noteq> 20 \<and> length prog \<noteq> 32)
                    ''v0 program must be 20 or 32 bytes, got %zu''
                 (guardR (cap < length prog + 2) []
                   (Ok ([0x00, word_of_nat (length prog)] @ prog)))
                else
                  guardR (witver \<noteq> 1)
                    ''witness v%u is not spendable-only-by-its-owner under current consensus; a coinbase must not pay it''
                 (guardR (length prog \<noteq> 32)
                    ''v1 (taproot) program must be 32 bytes, got %zu''
                 (guardR (cap < 34) []
                   (Ok ([0x51, 0x20] @ take 32 prog))))))))"

definition base58_to_script :: "string \<Rightarrow> nat \<Rightarrow> byte list res" where
  "base58_to_script addr cap =
     (case b58_decode addr 64 of
        None \<Rightarrow> Err ''base58 decode failed for %s''
      | Some dec \<Rightarrow>
        guardR (length dec < 5) ''base58 decode failed for %s''
       (guardR (\<not> checksum_ok dec) ''base58 checksum mismatch for %s''
       (guardR (length dec \<noteq> 25) ''unexpected base58 length %zu''
       (let ver = dec ! 0 in
        if ver = 0x00 \<or> ver = 0x6f then
          guardR (cap < 25) [] (Ok ([0x76, 0xa9, 0x14] @ take 20 (drop 1 dec) @ [0x88, 0xac]))
        else if ver = 0x05 \<or> ver = 0xc4 then
          guardR (cap < 23) [] (Ok ([0xa9, 0x14] @ take 20 (drop 1 dec) @ [0x87]))
        else Err ''unsupported base58 version byte 0x%02x''))))"

definition coinbase_address_to_script :: "string \<Rightarrow> nat \<Rightarrow> byte list res" where
  "coinbase_address_to_script addr cap =
     (if is_bech32_addr addr then bech32_to_script addr cap else base58_to_script addr cap)"

section \<open>Address to network\<close>

definition coinbase_address_network :: "string option \<Rightarrow> string option" where
  "coinbase_address_network addr =
     (case addr of
        None \<Rightarrow> None
      | Some a \<Rightarrow>
        if a = [] then None
        else if has_prefix ''bcrt1'' a \<or> has_prefix ''BCRT1'' a then Some ''regtest''
        else if has_prefix ''bc1'' a \<or> has_prefix ''BC1'' a then Some ''main''
        else if has_prefix ''tb1'' a \<or> has_prefix ''TB1'' a then Some ''test/signet''
        else case b58_decode a 64 of
          None \<Rightarrow> None
        | Some dec \<Rightarrow>
            if length dec \<noteq> 25 then None
            else if \<not> checksum_ok dec then None
            else if dec ! 0 = 0x00 \<or> dec ! 0 = 0x05 then Some ''main''
            else if dec ! 0 = 0x6f \<or> dec ! 0 = 0xc4 then Some ''test/signet/regtest''
            else None)"

definition coinbase_network_is_mainnet :: "string option \<Rightarrow> bool" where
  "coinbase_network_is_mainnet network \<longleftrightarrow> network = Some ''main''"

section \<open>Thunder addresses\<close>

text \<open>The file's own copy of the base58 decoder takes the length of the string beside it.\<close>

definition thunder_b58_decode :: "string \<Rightarrow> nat \<Rightarrow> nat \<Rightarrow> byte list option" where
  "thunder_b58_decode s slen cap = b58_decode (take slen s) cap"

definition thunder_address_decode :: "string option \<Rightarrow> byte list res" where
  "thunder_address_decode addr =
     (case addr of
        None \<Rightarrow> Err ''empty thunder address''
      | Some a \<Rightarrow>
        guardR (a = []) ''empty thunder address''
       (guardR (char_index (CHR ''_'') a \<noteq> None) ''thunder address contains _''
       (guardR (length a < 20 \<or> length a > 40)
          ''thunder address base58 length %zu out of range''
        (case thunder_b58_decode a (length a) 64 of
           None \<Rightarrow> Err ''thunder address base58 decode failed''
         | Some dec \<Rightarrow>
             guardR (length dec \<noteq> 20) ''thunder address decoded length %zu (expected 20)''
               (Ok dec)))))"

section \<open>Base58 computes the positional value\<close>

definition b58_digit :: "char \<Rightarrow> nat" where
  "b58_digit c = the (char_index c b58_alpha)"

definition b58_val :: "string \<Rightarrow> nat" where
  "b58_val s = foldl (\<lambda>v c. 58 * v + b58_digit c) 0 s"

definition b58_ok :: "string \<Rightarrow> bool" where
  "b58_ok s \<longleftrightarrow> list_all (\<lambda>c. char_index c b58_alpha \<noteq> None) s"

lemma char_index_less: "char_index c as = Some p \<Longrightarrow> p < length as"
  by (induction as arbitrary: p) (auto split: if_splits)

lemma b58_digit_less: "char_index c b58_alpha = Some p \<Longrightarrow> p < 58"
  using char_index_less [of c b58_alpha p] by (simp add: b58_alpha_def)

lemma unat_carry_step:
  assumes "unat c \<le> 57"
  shows "unat (c + 58 * ucast (x::byte) :: u32) = unat c + 58 * unat x"
proof -
  have x: "unat (ucast x :: u32) = unat x" by (simp add: unsigned_ucast_eq take_bit_nat_eq_self less_trans [OF unat_byte_lt])
  have b: "unat x \<le> 255" using unat_byte_lt [of x] by linarith
  have m: "unat (58 * ucast x :: u32) = 58 * unat x"
    using b by (simp add: unat_word_ariths x)
  show ?thesis using assms b by (simp add: unat_word_ariths(1) m)
qed

lemma b58_mul_value:
  assumes "unat c \<le> 57"
  shows "case b58_mul c xs of (ys, c') \<Rightarrow> length ys = length xs \<and> unat c' \<le> 57 \<and>
    le_val ys + 256 ^ length xs * unat c' = unat c + 58 * le_val xs"
  using assms
proof (induction xs arbitrary: c)
  case Nil
  then show ?case by simp
next
  case (Cons x xs)
  let ?c = "c + 58 * ucast x :: u32"
  obtain ys c' where r: "b58_mul (drop_bit 8 ?c) xs = (ys, c')" by (cases "b58_mul (drop_bit 8 ?c) xs")
  have uc: "unat ?c = unat c + 58 * unat x" by (rule unat_carry_step [OF Cons.prems])
  have d: "unat (drop_bit 8 ?c) = unat ?c div 256" by (simp add: unat_drop_bit)
  have "unat ?c div 256 \<le> 57"
    using Cons.prems unat_byte_lt [of x] unfolding uc by linarith
  then have ih: "length ys = length xs \<and> unat c' \<le> 57 \<and>
    le_val ys + 256 ^ length xs * unat c' = unat ?c div 256 + 58 * le_val xs"
    using Cons.IH [of "drop_bit 8 ?c"] r d by simp
  have "unat (ucast ?c :: byte) + 256 * (unat ?c div 256) = unat ?c"
    by (simp add: unat_ucast_byte)
  then show ?case
    using ih r uc by (simp add: Let_def algebra_simps)
qed

text \<open>
  The buffer of \<open>733/1000\<close> bytes per digit holds every base58 value: \<open>58^71 < 256^52\<close> and
  \<open>52/71 < 733/1000\<close>.
\<close>

lemma b58_size: "(58::nat) ^ n \<le> 256 ^ (n * 733 div 1000 + 1)"
proof -
  have "(58::nat) ^ 71 \<le> 256 ^ 52" by simp
  then have "((58::nat) ^ 71) ^ n \<le> (256 ^ 52) ^ n" by (rule power_mono) simp
  also have "(256 ^ 52) ^ n = (256::nat) ^ (52 * n)" by (rule power_mult [symmetric])
  also have "\<dots> \<le> 256 ^ ((n * 733 div 1000 + 1) * 71)" by (rule power_increasing) auto
  also have "\<dots> = (256 ^ (n * 733 div 1000 + 1)) ^ 71" by (rule power_mult)
  also have "((58::nat) ^ 71) ^ n = (58 ^ n) ^ 71" by (simp only: power_mult [symmetric] mult.commute)
  finally have "((58::nat) ^ n) ^ Suc 70 \<le> (256 ^ (n * 733 div 1000 + 1)) ^ Suc 70" by simp
  then show ?thesis by (rule power_le_imp_le_base) simp
qed

lemma b58_loop_value:
  assumes "le_val b < 58 ^ k" and "(58::nat) ^ (k + length s) \<le> 256 ^ length b"
  shows "(\<not> b58_ok s \<longrightarrow> b58_loop s b = None) \<and>
    (b58_ok s \<longrightarrow> (\<exists>b'. b58_loop s b = Some b' \<and> length b' = length b \<and>
       le_val b' = foldl (\<lambda>v c. 58 * v + b58_digit c) (le_val b) s))"
  using assms
proof (induction s arbitrary: b k)
  case Nil
  then show ?case by (simp add: b58_ok_def)
next
  case (Cons c cs)
  show ?case
  proof (cases "char_index c b58_alpha")
    case None
    then show ?thesis by (simp add: b58_ok_def)
  next
    case (Some p)
    have p: "p < 58" by (rule b58_digit_less [OF Some])
    then have up: "unat (word_of_nat p :: u32) = p" by (simp add: unsigned_of_nat take_bit_nat_eq_self)
    obtain b' carry where r: "b58_mul (word_of_nat p) b = (b', carry)" by (cases "b58_mul (word_of_nat p) b")
    have v: "length b' = length b" "le_val b' + 256 ^ length b * unat carry = p + 58 * le_val b"
      using b58_mul_value [of "word_of_nat p" b] p up r by auto
    have lt: "p + 58 * le_val b < 58 ^ Suc k"
    proof -
      have "p + 58 * le_val b < 58 + 58 * le_val b" using p by simp
      also have "\<dots> = 58 * Suc (le_val b)" by simp
      also have "\<dots> \<le> 58 * 58 ^ k" using Cons.prems(1) by (intro mult_le_mono2) simp
      finally show ?thesis by simp
    qed
    also have "\<dots> \<le> 58 ^ (k + length (c # cs))" by (rule power_increasing) simp_all
    also have "\<dots> \<le> 256 ^ length b" by (rule Cons.prems(2))
    finally have "256 ^ length b * unat carry < 256 ^ length b * 1" using v(2) by linarith
    then have carry: "carry = 0" by (simp only: mult_less_cancel1) (simp add: unat_eq_0)
    then have vb: "le_val b' = 58 * le_val b + p" using v(2) by simp
    have "b58_loop (c # cs) b = b58_loop cs b'" using Some r carry by simp
    moreover have "b58_ok (c # cs) = b58_ok cs" using Some by (simp add: b58_ok_def)
    moreover have "b58_digit c = p" using Some by (simp add: b58_digit_def)
    moreover note Cons.IH [of b' "Suc k"]
    ultimately show ?thesis using v(1) vb lt Cons.prems(2) by simp
  qed
qed

lemma le_val_replicate_0 [simp]: "le_val (replicate n 0) = 0"
  by (induction n) auto

lemma be_val_replicate_0 [simp]: "be_val (replicate n 0 @ bs) = be_val bs"
  by (induction n) (auto simp: be_val_Cons)

lemma be_val_dropWhile_0 [simp]: "be_val (dropWhile (\<lambda>x. x = 0) bs) = be_val bs"
  by (induction bs) (auto simp: be_val_Cons)

lemma be_val_rev: "be_val (rev b) = le_val b"
  by (simp add: be_val_def)

text \<open>
  \<open>b58_decode\<close> succeeds exactly on strings of alphabet characters that fit, and returns one zero
  byte per leading \<open>'1'\<close> followed by the minimal big-endian bytes of the value: the carry check
  of the code never fires.
\<close>

definition b58_spec :: "string \<Rightarrow> byte list \<Rightarrow> bool" where
  "b58_spec s out \<longleftrightarrow>
     take (b58_zeros s) out = replicate (b58_zeros s) 0 \<and>
     (drop (b58_zeros s) out = [] \<or> hd (drop (b58_zeros s) out) \<noteq> 0) \<and>
     be_val out = b58_val s"

lemma b58_decode_correct:
  "(\<not> b58_ok s \<longrightarrow> b58_decode s cap = None) \<and>
   (b58_ok s \<longrightarrow> (\<exists>out. b58_spec s out \<and> b58_decode s cap = (if length out \<le> cap then Some out else None)))"
proof -
  let ?n = "length s * 733 div 1000 + 1"
  have L: "(\<not> b58_ok s \<longrightarrow> b58_loop s (replicate ?n 0) = None) \<and>
    (b58_ok s \<longrightarrow> (\<exists>b. b58_loop s (replicate ?n 0) = Some b \<and> le_val b = b58_val s))"
    using b58_loop_value [of "replicate ?n 0" 0 s] b58_size [of "length s"] by (auto simp: b58_val_def)
  show ?thesis
  proof (cases "b58_ok s")
    case False
    then show ?thesis using L by (simp add: b58_decode_def)
  next
    case True
    then obtain b where b: "b58_loop s (replicate ?n 0) = Some b" "le_val b = b58_val s" using L by blast
    let ?d = "dropWhile (\<lambda>x. x = 0) (rev b)"
    let ?out = "replicate (b58_zeros s) 0 @ ?d"
    have "b58_spec s ?out"
      using b(2) hd_dropWhile [of "\<lambda>x. x = 0" "rev b"] by (auto simp: b58_spec_def be_val_rev)
    moreover have "b58_decode s cap = (if length ?out \<le> cap then Some ?out else None)"
      using b(1) by (simp add: b58_decode_def Let_def)
    ultimately show ?thesis using True by blast
  qed
qed

section \<open>Regrouping five bits into eight\<close>

definition val32 :: "byte list \<Rightarrow> nat" where
  "val32 vs = foldl (\<lambda>a v. 32 * a + unat v) 0 vs"

lemma cb_emit_8: "n < 16 \<Longrightarrow> cb_emit acc 8 cap n out =
    (if n < 8 then Some (n, out)
     else if length out \<ge> cap then None
     else Some (n - 8, out @ [ucast (drop_bit (n - 8) acc AND (push_bit 8 1 - 1))]))"
  by (auto simp: cb_emit.simps)

lemma be_val_snoc: "be_val (bs @ [b]) = 256 * be_val bs + unat b"
  by (simp add: be_val_def)

text \<open>The regrouping state: \<open>V\<close> is the value read so far, split at \<open>bits\<close> pending low bits.\<close>

definition cb_inv :: "nat \<Rightarrow> u32 \<Rightarrow> nat \<Rightarrow> byte list \<Rightarrow> bool" where
  "cb_inv V acc bits out \<longleftrightarrow>
     bits < 8 \<and> unat acc mod 2 ^ bits = V mod 2 ^ bits \<and> be_val out = V div 2 ^ bits"

lemma unat_shift_in:
  assumes "drop_bit 5 (v::byte) = 0"
  shows "unat (push_bit 5 acc OR ucast v :: u32) = (32 * unat acc + unat v) mod 2 ^ 32"
proof -
  have nb: "\<not> bit v n" if "5 \<le> n" for n
    using arg_cong [OF assms, of "\<lambda>w. bit w (n - 5)"] that by (simp add: bit_simps)
  have "push_bit 5 acc OR ucast v = push_bit 5 acc + (ucast v :: u32)"
    by (rule disjunctive_add [symmetric]) (auto simp: bit_simps nb)
  also have "push_bit 5 acc + (ucast v :: u32) = word_of_nat (32 * unat acc + unat v)"
    by (simp add: push_bit_eq_mult)
  finally show ?thesis by (simp only: unsigned_of_nat take_bit_eq_mod) simp
qed

lemma mask8: "(push_bit 8 1 - 1 :: u32) = mask 8"
  by (simp add: mask_eq_exp_minus_1)

lemma unat_emit: "unat (ucast (drop_bit n acc AND (push_bit 8 1 - 1)) :: byte) = unat (acc::u32) div 2 ^ n mod 256"
  unfolding mask8 take_bit_eq_mask [symmetric]
  by (simp only: unat_ucast_byte unsigned_take_bit_eq unat_drop_bit) (simp add: take_bit_eq_mod)

lemma mod_mod_pow2: "b \<le> n \<Longrightarrow> (x mod 2 ^ n) mod 2 ^ b = (x::nat) mod 2 ^ b"
  by (simp add: mod_mod_cancel le_imp_power_dvd)

lemma shift_mod_cong:
  assumes "(a::nat) mod 2 ^ b = V mod 2 ^ b"
  shows "(32 * a + v) mod 2 ^ (b + 5) = (32 * V + v) mod 2 ^ (b + 5)"
proof -
  have "32 * a mod 2 ^ (b + 5) = 32 * (a mod 2 ^ b)" "32 * V mod 2 ^ (b + 5) = 32 * (V mod 2 ^ b)"
    by (simp_all add: power_add mult.commute [of _ 32] flip: mult_mod_right)
  then show ?thesis using assms by (metis mod_add_left_eq)
qed

lemma cb_inv_step:
  assumes inv: "cb_inv V acc bits out" and v: "drop_bit 5 (v::byte) = 0"
    and e: "cb_emit (push_bit 5 acc OR ucast v) 8 cap (bits + 5) out = Some (bits', out')"
  shows "cb_inv (32 * V + unat v) (push_bit 5 acc OR ucast v) bits' out' \<and>
    8 * length out' + bits' = 8 * length out + bits + 5"
proof -
  let ?acc = "push_bit 5 acc OR ucast v :: u32" and ?V = "32 * V + unat v"
  have b8: "bits < 8" and am: "unat acc mod 2 ^ bits = V mod 2 ^ bits" and ov: "be_val out = V div 2 ^ bits"
    using inv by (auto simp: cb_inv_def)
  have "unat ?acc mod 2 ^ (bits + 5) = (32 * unat acc + unat v) mod 2 ^ (bits + 5)"
    unfolding unat_shift_in [OF v] using b8 by (intro mod_mod_pow2) simp
  also have "\<dots> = ?V mod 2 ^ (bits + 5)" by (rule shift_mod_cong [OF am])
  finally have A: "unat ?acc mod 2 ^ (bits + 5) = ?V mod 2 ^ (bits + 5)" .
  have v32: "unat v < 32"
    using unat_drop_bit [of 5 v] by (simp add: v)
  have D: "?V div 2 ^ (bits + 5) = V div 2 ^ bits"
    using v32 by (simp add: power_add div_mult2_eq mult.commute [of _ 32])
  have sub: "unat ?acc mod 2 ^ b = ?V mod 2 ^ b" if "b \<le> bits + 5" for b
    using arg_cong [OF A, of "\<lambda>x. x mod 2 ^ b"] that by (simp add: mod_mod_pow2)
  show ?thesis
  proof (cases "bits + 5 < 8")
    case True
    then have "bits' = bits + 5" "out' = out" using e by (simp_all add: cb_emit_8)
    then show ?thesis using True A D ov by (simp add: cb_inv_def)
  next
    case False
    let ?b = "bits + 5 - 8"
    have b': "bits' = ?b" and o': "out' = out @ [ucast (drop_bit ?b ?acc AND (push_bit 8 1 - 1))]"
      using e False b8 by (auto simp: cb_emit_8 split: if_splits)
    have be: "?b + 8 = bits + 5" using False by simp
    have "unat ?acc div 2 ^ ?b mod 256 = (unat ?acc mod 2 ^ (?b + 8)) div 2 ^ ?b"
      using take_bit_drop_bit [of 8 ?b "unat ?acc"] by (simp add: take_bit_eq_mod drop_bit_eq_div add.commute)
    also have "\<dots> = (?V mod 2 ^ (?b + 8)) div 2 ^ ?b" using A by (simp only: be)
    also have "\<dots> = ?V div 2 ^ ?b mod 256"
      using take_bit_drop_bit [of 8 ?b ?V] by (simp add: take_bit_eq_mod drop_bit_eq_div add.commute)
    finally have byte: "unat ?acc div 2 ^ ?b mod 256 = ?V div 2 ^ ?b mod 256" .
    have "V div 2 ^ bits = ?V div 2 ^ (?b + 8)" using D by (simp only: be)
    also have "\<dots> = ?V div 2 ^ ?b div 2 ^ 8" by (simp only: power_add div_mult2_eq)
    finally have "be_val out' = ?V div 2 ^ ?b"
      by (simp only: o' be_val_snoc unat_emit byte ov) simp
    then show ?thesis
      using b' o' b8 False sub [of ?b] by (simp add: cb_inv_def)
  qed
qed

lemma cb_loop_value:
  assumes "cb_loop vs 5 8 cap acc bits out = Some (acc', bits', out')" and "cb_inv V acc bits out"
  shows "cb_inv (foldl (\<lambda>a v. 32 * a + unat v) V vs) acc' bits' out' \<and>
    8 * length out' + bits' = 8 * length out + bits + 5 * length vs"
  using assms
proof (induction vs arbitrary: acc bits out V)
  case Nil
  then show ?case by simp
next
  case (Cons v vs)
  let ?acc = "push_bit 5 acc OR ucast v :: u32"
  obtain b o' where v: "drop_bit 5 v = 0" and e: "cb_emit ?acc 8 cap (bits + 5) out = Some (b, o')"
    and l: "cb_loop vs 5 8 cap ?acc b o' = Some (acc', bits', out')"
    using Cons.prems(1) by (auto simp: Let_def split: if_splits option.splits)
  from cb_inv_step [OF Cons.prems(2) v e] Cons.IH [OF l, of "32 * V + unat v"] show ?case by simp
qed

text \<open>
  What \<open>convertbits\<close> returns for an address is exactly the number its 5-bit groups spell, with
  fewer than five padding bits, all zero.
\<close>

lemma convertbits_value:
  assumes "convertbits vs 5 8 False cap = Some out"
  shows "\<exists>bits < 5. 5 * length vs = 8 * length out + bits \<and> val32 vs = be_val out * 2 ^ bits"
proof -
  obtain acc bits where l: "cb_loop vs 5 8 cap 0 0 [] = Some (acc, bits, out)" and b: "bits < 5"
    and z: "push_bit (8 - bits) acc AND (push_bit 8 1 - 1) = 0"
    using assms by (auto simp: convertbits_def Let_def split: if_splits option.splits)
  have inv: "cb_inv (val32 vs) acc bits out" and len: "8 * length out + bits = 5 * length vs"
    using cb_loop_value [OF l, of 0] by (simp_all add: cb_inv_def val32_def)
  have "take_bit 8 (push_bit (8 - bits) acc) = 0" using z by (simp only: mask8 take_bit_eq_mask)
  then have "push_bit (8 - bits) (take_bit bits acc) = 0" using b by (simp add: take_bit_push_bit)
  then have "take_bit bits acc = 0"
  proof -
    have "\<not> bit (take_bit bits acc) n" for n
      using arg_cong [OF \<open>push_bit (8 - bits) (take_bit bits acc) = 0\<close>, of "\<lambda>w. bit w (n + (8 - bits))"] b
      by (auto simp: bit_simps)
    then show ?thesis by (simp add: bit_eq_iff)
  qed
  then have "unat acc mod 2 ^ bits = 0" by (metis take_bit_eq_mod unsigned_0 unsigned_take_bit_eq)
  then have "val32 vs mod 2 ^ bits = 0" "be_val out = val32 vs div 2 ^ bits" using inv by (simp_all add: cb_inv_def)
  then have "val32 vs = be_val out * 2 ^ bits" by auto
  then show ?thesis using b len by (intro exI [of _ bits]) simp
qed

section \<open>The scripts a payout can be\<close>

text \<open>P2WPKH, P2WSH, P2TR, P2PKH and P2SH, in this order.\<close>

definition payout_script :: "byte list \<Rightarrow> bool" where
  "payout_script s \<longleftrightarrow>
     (take 2 s = [0x00, 0x14] \<and> length s = 22) \<or>
     (take 2 s = [0x00, 0x20] \<and> length s = 34) \<or>
     (take 2 s = [0x51, 0x20] \<and> length s = 34) \<or>
     (take 3 s = [0x76, 0xa9, 0x14] \<and> drop 23 s = [0x88, 0xac] \<and> length s = 25) \<or>
     (take 2 s = [0xa9, 0x14] \<and> drop 22 s = [0x87] \<and> length s = 23)"

lemma payout_script_length: "payout_script s \<Longrightarrow> 22 \<le> length s \<and> length s \<le> 34"
  by (auto simp: payout_script_def)

lemma bech32_to_script_OkE:
  assumes "bech32_to_script addr cap = Ok s"
  obtains hrp data enc prog where "bech32_decode addr 16 90 = Some (hrp, data, enc)" and "data \<noteq> []"
    and "convertbits (tl data) 5 8 False 64 = Some prog"
    and "hd data = 0 \<and> enc = 1 \<and> (length prog = 20 \<or> length prog = 32) \<and> length prog + 2 \<le> cap \<and>
           s = [0x00, word_of_nat (length prog)] @ prog \<or>
         hd data = 1 \<and> enc = 2 \<and> length prog = 32 \<and> 34 \<le> cap \<and> s = [0x51, 0x20] @ prog"
  using assms unfolding bech32_to_script_def
  by (auto split: option.splits list.splits prod.splits if_splits simp: not_less not_le)

lemma base58_to_script_OkE:
  assumes "base58_to_script addr cap = Ok s"
  obtains dec where "b58_decode addr 64 = Some dec" and "length dec = 25" and "checksum_ok dec"
    and "dec ! 0 \<in> {0x00, 0x6f} \<and> 25 \<le> cap \<and> s = [0x76, 0xa9, 0x14] @ take 20 (drop 1 dec) @ [0x88, 0xac] \<or>
         dec ! 0 \<in> {0x05, 0xc4} \<and> 23 \<le> cap \<and> s = [0xa9, 0x14] @ take 20 (drop 1 dec) @ [0x87]"
  using assms unfolding base58_to_script_def
  by (auto split: option.splits if_splits simp: not_less Let_def)

lemma address_to_script_payout:
  assumes "coinbase_address_to_script addr cap = Ok s"
  shows "payout_script s" and "length s \<le> cap"
proof -
  have "payout_script s \<and> length s \<le> cap"
  proof (cases "is_bech32_addr addr")
    case True
    then have "bech32_to_script addr cap = Ok s" using assms by (simp add: coinbase_address_to_script_def)
    then show ?thesis
      by (rule bech32_to_script_OkE) (auto simp: payout_script_def)
  next
    case False
    then have "base58_to_script addr cap = Ok s" using assms by (simp add: coinbase_address_to_script_def)
    then show ?thesis
      by (rule base58_to_script_OkE) (auto simp: payout_script_def)
  qed
  then show "payout_script s" and "length s \<le> cap" by simp_all
qed

lemma address_to_script_no_UB: "coinbase_address_to_script addr cap \<noteq> UB"
  unfolding coinbase_address_to_script_def bech32_to_script_def base58_to_script_def
  by (auto split: option.splits list.splits prod.splits simp: Let_def guardR_def)

text \<open>A buffer of 64 bytes never makes the difference: the capacity checks cannot fire.\<close>

lemma address_to_script_cap:
  "34 \<le> cap \<Longrightarrow> coinbase_address_to_script addr cap = coinbase_address_to_script addr 64"
  unfolding coinbase_address_to_script_def bech32_to_script_def base58_to_script_def
  by (auto split: option.splits list.splits prod.splits simp: Let_def guardR_def)

text \<open>The example address of BIP173.\<close>

lemma segwit_example:
  "coinbase_address_to_script ''bc1qw508d6qejxtdg4y5r3zarvary0c5xw7kv8f3t4'' 64 =
    Ok [0, 20, 117, 30, 118, 232, 25, 145, 150, 212, 84, 148, 28, 69, 209, 179, 163, 35, 241, 67, 59, 214]"
  by code_simp

section \<open>Properties\<close>

text \<open>Base58 decoding accepts exactly the strings of alphabet characters whose bytes fit the
  buffer, and returns a zero byte per leading \<open>'1'\<close> followed by the minimal big-endian bytes of
  the base-58 value: the work buffer is always large enough, its carry check never fires.\<close>

theorem b58_decode_spec:
  "(\<not> b58_ok s \<longrightarrow> b58_decode s cap = None) \<and>
   (b58_ok s \<longrightarrow> (\<exists>out. b58_spec s out \<and> b58_decode s cap = (if length out \<le> cap then Some out else None)))"
  by (rule b58_decode_correct)

theorem b58_decode_spec_witness:
  "b58_ok ''1BitcoinEater'' \<and> (\<exists>out. b58_spec ''1BitcoinEater'' out \<and>
     b58_decode ''1BitcoinEater'' 64 = (if length out \<le> 64 then Some out else None)) \<and>
   \<not> b58_ok ''0OIl'' \<and> b58_decode ''0OIl'' 64 = None"
proof -
  have ok: "b58_ok ''1BitcoinEater''" "\<not> b58_ok ''0OIl''"
    by (simp_all add: b58_ok_def b58_alpha_def)
  then show ?thesis
    using b58_decode_spec [of "''1BitcoinEater''" 64] b58_decode_spec [of "''0OIl''" 64] by simp
qed

text \<open>C30. An accepted payout address gives one of the five standard scripts, never a witness program
  of version 2 to 16, within the buffer given; and the script carries the address: a bech32
  address has version 0 with the bech32 checksum or version 1 with bech32m and its program is
  the number its groups spell with fewer than five zero padding bits; a base58 address decodes
  to 25 bytes with a valid checksum whose middle 20 bytes are the script's hash.\<close>

theorem address_script_sound:
  assumes "coinbase_address_to_script addr cap = Ok s"
  shows "payout_script s \<and> length s \<le> cap \<and>
    (if is_bech32_addr addr
     then \<exists>hrp data bits. bech32_decode addr 16 90 = Some (hrp, data, if hd data = 0 then 1 else 2) \<and>
            unat (hd data) \<le> 1 \<and> s ! 0 = (if hd data = 0 then 0x00 else 0x51) \<and>
            bits < 5 \<and> val32 (tl data) = be_val (drop 2 s) * 2 ^ bits
     else \<exists>dec. b58_decode addr 64 = Some dec \<and> length dec = 25 \<and> checksum_ok dec \<and>
            take 20 (drop (if dec ! 0 \<in> {0x00, 0x6f} then 3 else 2) s) = take 20 (drop 1 dec))"
proof (cases "is_bech32_addr addr")
  case True
  then have "bech32_to_script addr cap = Ok s" using assms by (simp add: coinbase_address_to_script_def)
  then obtain hrp data enc prog where *: "bech32_decode addr 16 90 = Some (hrp, data, enc)" "data \<noteq> []"
    "convertbits (tl data) 5 8 False 64 = Some prog"
    "hd data = 0 \<and> enc = 1 \<and> (length prog = 20 \<or> length prog = 32) \<and> length prog + 2 \<le> cap \<and>
           s = [0x00, word_of_nat (length prog)] @ prog \<or>
         hd data = 1 \<and> enc = 2 \<and> length prog = 32 \<and> 34 \<le> cap \<and> s = [0x51, 0x20] @ prog"
    by (rule bech32_to_script_OkE)
  obtain bits where b: "bits < 5" "val32 (tl data) = be_val prog * 2 ^ bits"
    using convertbits_value [OF *(3)] by blast
  have "bech32_decode addr 16 90 = Some (hrp, data, if hd data = 0 then 1 else 2) \<and>
      unat (hd data) \<le> 1 \<and> s ! 0 = (if hd data = 0 then 0x00 else 0x51) \<and>
      bits < 5 \<and> val32 (tl data) = be_val (drop 2 s) * 2 ^ bits"
    using *(1,4) b by auto
  then show ?thesis
    using True address_to_script_payout [OF assms] by auto
next
  case False
  then have "base58_to_script addr cap = Ok s" using assms by (simp add: coinbase_address_to_script_def)
  then show ?thesis
    using False address_to_script_payout [OF assms]
    by (elim base58_to_script_OkE) auto
qed

theorem address_script_sound_witness:
  "\<exists>s. coinbase_address_to_script ''bc1qw508d6qejxtdg4y5r3zarvary0c5xw7kv8f3t4'' 64 = Ok s \<and>
     payout_script s \<and> length s \<le> 64"
proof -
  have "coinbase_address_to_script ''bc1qw508d6qejxtdg4y5r3zarvary0c5xw7kv8f3t4'' 64 =
    Ok [0, 20, 117, 30, 118, 232, 25, 145, 150, 212, 84, 148, 28, 69, 209, 179, 163, 35, 241, 67, 59, 214]"
    by (rule segwit_example)
  then show ?thesis using address_script_sound by blast
qed

text \<open>Every address a coinbase can pay proves a network: \<open>coinbase_address_network\<close> is not
  \<open>NULL\<close> for an address \<open>coinbase_address_to_script\<close> accepts.\<close>

lemma payable_address_has_network:
  assumes "coinbase_address_to_script addr cap = Ok s" and "addr \<noteq> []"
  shows "coinbase_address_network (Some addr) \<noteq> None"
proof (cases "is_bech32_addr addr")
  case True
  then show ?thesis using assms(2) by (auto simp: coinbase_address_network_def is_bech32_addr_def)
next
  case False
  then have "base58_to_script addr cap = Ok s" using assms by (simp add: coinbase_address_to_script_def)
  then show ?thesis
    by (rule base58_to_script_OkE) (use assms(2) in \<open>auto simp: coinbase_address_network_def\<close>)
qed

text \<open>A Thunder address decodes exactly to the 20 bytes its base58 digits spell.\<close>

theorem thunder_address_sound:
  assumes "thunder_address_decode (Some a) = Ok h"
  shows "length h = 20 \<and> b58_spec a h \<and> CHR ''_'' \<notin> set a"
proof -
  have ni: "char_index c s = None \<longleftrightarrow> c \<notin> set s" for c s
    by (induction s) auto
  have d: "b58_decode a 64 = Some h" "length h = 20" "CHR ''_'' \<notin> set a"
    using assms by (auto simp: thunder_address_decode_def thunder_b58_decode_def ni split: option.splits)
  then show ?thesis using b58_decode_correct [of a 64] by (auto split: if_splits)
qed

theorem thunder_address_sound_witness:
  "thunder_address_decode (Some ''11111111111111111111'') = Ok (replicate 20 0) \<and>
   length (replicate 20 (0 :: byte)) = 20 \<and> b58_spec ''11111111111111111111'' (replicate 20 0)"
proof -
  have "thunder_address_decode (Some ''11111111111111111111'') = Ok (replicate 20 0)" by code_simp
  with thunder_address_sound [OF this] show ?thesis by simp
qed

end
