(* ===== verification/Coinbase.thy ===== *)
theory Coinbase
  imports Address Doubles
begin

text \<open>
  The coinbase builders of \<^verbatim>\<open>src/coinbase.c\<close>: the tag and salt push, the single-payout and fee
  split builders, the window resolver (fee off the top, payout floor, byte budget,
  redistribution of what could not be paid) and the window builder. Sizes are natural numbers;
  satoshi amounts are signed 64-bit with overflow as undefined behaviour. The lemmas account
  for every satoshi and for the bytes.
\<close>

section \<open>Data\<close>

record coinbase_parts =
  cb1 :: "byte list"
  cb2 :: "byte list"

record coinbase_payee =
  pe_address :: "string option"
  pe_sats :: int

record cb_repl_out =
  ro_spk :: "byte list"
  ro_sats :: int

record coinbase_window_result =
  wr_paid_count :: nat
  wr_paid_sats :: int
  wr_dropped_below_floor :: nat
  wr_dropped_capped :: nat
  wr_redistributed_sats :: int
  wr_fee_sats :: int
  wr_paid_payee :: "bool list"

definition COINBASE_DUST_SATS :: int where
  "COINBASE_DUST_SATS = 546"

definition COINBASE_MAX_PAYOUT_OUTPUTS :: nat where
  "COINBASE_MAX_PAYOUT_OUTPUTS = 200"

definition CB_MAX_REPL_OUTS :: nat where
  "CB_MAX_REPL_OUTS = COINBASE_MAX_PAYOUT_OUTPUTS + 1"

definition COINBASE_DEFAULT_MAX_BYTES :: nat where
  "COINBASE_DEFAULT_MAX_BYTES = 1000"

definition COINBASE_JOB_SALT_PUSH_BYTES :: nat where
  "COINBASE_JOB_SALT_PUSH_BYTES = 5"

definition window_result_zero :: coinbase_window_result where
  "window_result_zero = \<lparr>wr_paid_count = 0, wr_paid_sats = 0, wr_dropped_below_floor = 0,
     wr_dropped_capped = 0, wr_redistributed_sats = 0, wr_fee_sats = 0,
     wr_paid_payee = replicate COINBASE_MAX_PAYOUT_OUTPUTS False\<rparr>"

section \<open>Tag and salt\<close>

definition cb_tag_push :: "string option \<Rightarrow> u32 \<Rightarrow> byte list" where
  "cb_tag_push coinbase_tag job_salt =
     (case coinbase_tag of
        None \<Rightarrow> []
      | Some t \<Rightarrow> if t = [] then []
                  else let tlen = (if length t > 75 then 75 else length t)
                       in word_of_nat tlen # take tlen (str_bytes t)) @
     (if job_salt \<noteq> 0
      then [4, ucast job_salt, ucast (drop_bit 8 job_salt), ucast (drop_bit 16 job_salt),
            ucast (drop_bit 24 job_salt)]
      else [])"

definition cb_tag_push_len :: "string option \<Rightarrow> u32 \<Rightarrow> nat" where
  "cb_tag_push_len coinbase_tag job_salt =
     (case coinbase_tag of
        None \<Rightarrow> 0
      | Some t \<Rightarrow> if t = [] then 0 else (if length t > 75 then 75 else length t) + 1) +
     (if job_salt \<noteq> 0 then COINBASE_JOB_SALT_PUSH_BYTES else 0)"

section \<open>Serialisation\<close>

text \<open>The three pushes every output is written with: value, script length, script.\<close>

definition push_output :: "bbuf \<Rightarrow> int \<Rightarrow> byte list \<Rightarrow> bbuf" where
  "push_output b sats spk =
     bbuf_push (bbuf_push_varint (bbuf_push_u64_le b (word_of_int sats)) (word_of_nat (length spk))) spk"

text \<open>
  The part before the extranonces (version, one input with the null outpoint, scriptSig length,
  height and tag) and the part after (sequence, outputs, locktime).
\<close>

definition build_cb1 :: "u32 \<Rightarrow> nat \<Rightarrow> byte list \<Rightarrow> byte list \<Rightarrow> bbuf" where
  "build_cb1 version script_sig_len height_push tag_push =
     (let c1 = bbuf_push_u32_le bbuf_init version;
          c1 = bbuf_push_varint c1 1;
          c1 = bbuf_push c1 (replicate 32 0);
          c1 = bbuf_push_u32_le c1 0xffffffff;
          c1 = bbuf_push_varint c1 (word_of_nat script_sig_len);
          c1 = bbuf_push c1 height_push
      in if tag_push \<noteq> [] then bbuf_push c1 tag_push else c1)"

definition build_cb2 :: "u64 \<Rightarrow> bbuf \<Rightarrow> bbuf" where
  "build_cb2 n_outputs outs =
     (let c2 = bbuf_push_u32_le bbuf_init 0xffffffff;
          c2 = bbuf_push_varint c2 n_outputs;
          c2 = bbuf_push c2 (bb_data outs)
      in bbuf_push_u32_le c2 0)"

section \<open>Fee split and the single-payout builders\<close>

text \<open>\<open>(value_sats * (int64_t)fee_bps) / 10000\<close>\<close>

definition fee_cut :: "int \<Rightarrow> int \<Rightarrow> int res" where
  "fee_cut value_sats fee_bps = bindR (chk64 (value_sats * fee_bps)) (\<lambda>p. Ok (p sdiv 10000))"

text \<open>The operator's script and fee: no fee below dust, without an operator or a rate.\<close>

definition split_fee :: "int \<Rightarrow> string option \<Rightarrow> int \<Rightarrow> (byte list option \<times> int) res" where
  "split_fee value_sats operator_address fee_bps =
     (if c_nonempty operator_address \<and> fee_bps > 0 \<and> value_sats > 0 then
        bindR (fee_cut value_sats fee_bps) (\<lambda>fee.
          if fee \<ge> COINBASE_DUST_SATS then
            bindR (coinbase_address_to_script (the operator_address) 64) (\<lambda>spk. Ok (Some spk, fee))
          else Ok (None, 0))
      else Ok (None, 0))"

definition decode_witness_commitment :: "string option \<Rightarrow> byte list option res" where
  "decode_witness_commitment wc =
     (if c_nonempty wc then
        case hex_decode (the wc) 256 of
          None \<Rightarrow> Err ''bad witness commitment hex''
        | Some b \<Rightarrow> Ok (Some b)
      else Ok None)"

definition coinbase_build_split ::
  "u32 \<Rightarrow> int \<Rightarrow> string option \<Rightarrow> string option \<Rightarrow> int \<Rightarrow> string option \<Rightarrow> string option \<Rightarrow> u32 \<Rightarrow>
   nat \<Rightarrow> nat \<Rightarrow> (coinbase_parts \<times> int \<times> int) res" where
  "coinbase_build_split height value_sats miner_address operator_address fee_bps wc tag job_salt en1 en2 =
     (case miner_address of
        None \<Rightarrow> Err ''null arg''
      | Some ma \<Rightarrow>
        bindR (coinbase_address_to_script ma 64) (\<lambda>miner_spk.
        bindR (split_fee value_sats operator_address fee_bps) (\<lambda>(op_spk, fee_sats).
        bindR (case op_spk of None \<Rightarrow> Ok value_sats | Some _ \<Rightarrow> chk64 (value_sats - fee_sats)) (\<lambda>miner_sats.
        bindR (decode_witness_commitment wc) (\<lambda>wc_buf.
          let height_push = bip34_height_push height;
              tag_push = cb_tag_push tag job_salt;
              script_sig_len = length height_push + length tag_push + (en1 + en2)
          in guardR (script_sig_len < 2 \<or> script_sig_len > 100)
               ''coinbase scriptSig length %zu out of range (height %zu + tag %zu + extranonce %zu)''
              (let outs = push_output bbuf_init miner_sats miner_spk;
                   outs = (case op_spk of None \<Rightarrow> outs | Some spk \<Rightarrow> push_output outs fee_sats spk);
                   outs = (case wc_buf of None \<Rightarrow> outs | Some b \<Rightarrow> push_output outs 0 b);
                   n_outputs = 1 + (if op_spk = None then 0 else 1) + (if wc_buf = None then 0 else 1)
               in Ok (\<lparr>cb1 = bb_data (build_cb1 1 script_sig_len height_push tag_push),
                       cb2 = bb_data (build_cb2 n_outputs outs)\<rparr>, miner_sats, fee_sats)))))))"

definition coinbase_build ::
  "u32 \<Rightarrow> int \<Rightarrow> string option \<Rightarrow> string option \<Rightarrow> string option \<Rightarrow> u32 \<Rightarrow> nat \<Rightarrow> nat \<Rightarrow>
   coinbase_parts res" where
  "coinbase_build height value_sats payout_address wc tag job_salt en1 en2 =
     bindR (coinbase_build_split height value_sats payout_address None 0 wc tag job_salt en1 en2)
       (\<lambda>(parts, _, _). Ok parts)"

section \<open>The window resolver\<close>

definition out_ser_size :: "nat \<Rightarrow> nat" where
  "out_ser_size spk_len =
     (let vi = (if spk_len < 253 then 1 else if spk_len \<le> 0xffff then 3 else 5)
      in 8 + vi + spk_len)"

definition payout_floor :: "int \<Rightarrow> int" where
  "payout_floor flr = (if flr < COINBASE_DUST_SATS then COINBASE_DUST_SATS else flr)"

text \<open>\<open>claimed += payees[i].sats\<close> with its two refusals.\<close>

fun sum_claims :: "coinbase_payee list \<Rightarrow> int \<Rightarrow> int res" where
  "sum_claims [] claimed = Ok claimed"
| "sum_claims (p # ps) claimed =
     guardR (\<not> c_nonempty (pe_address p)) ''payee %zu has no address''
    (guardR (pe_sats p < 0) ''payee %zu has a negative amount''
    (bindR (chk64 (claimed + pe_sats p)) (sum_claims ps)))"

record rw_state =
  rw_out :: "cb_repl_out list"
  rw_bytes :: nat
  rw_dropped :: int
  rw_res :: coinbase_window_result

definition rw_drop :: "rw_state \<Rightarrow> int \<Rightarrow> rw_state res" where
  "rw_drop st sats = bindR (chk64 (rw_dropped st + sats)) (\<lambda>d. Ok (st\<lparr>rw_dropped := d\<rparr>))"

definition count_below :: "rw_state \<Rightarrow> rw_state" where
  "count_below st = st\<lparr>rw_res := (rw_res st)\<lparr>wr_dropped_below_floor := wr_dropped_below_floor (rw_res st) + 1\<rparr>\<rparr>"

definition count_capped :: "rw_state \<Rightarrow> rw_state" where
  "count_capped st = st\<lparr>rw_res := (rw_res st)\<lparr>wr_dropped_capped := wr_dropped_capped (rw_res st) + 1\<rparr>\<rparr>"

text \<open>One payee of the payment loop: below the floor, out of storage, out of bytes, or paid.\<close>

definition rw_step :: "int \<Rightarrow> nat \<Rightarrow> nat \<Rightarrow> nat \<Rightarrow> coinbase_payee \<Rightarrow> rw_state \<Rightarrow> rw_state res" where
  "rw_step flr cap budget k pe st =
     (if pe_sats pe < flr then rw_drop (count_below st) (pe_sats pe)
      else if length (rw_out st) + 1 \<ge> cap then rw_drop (count_capped st) (pe_sats pe)
      else bindR (coinbase_address_to_script (the (pe_address pe)) 64) (\<lambda>spk.
        let cost = out_ser_size (length spk) in
        if rw_bytes st + cost > budget then rw_drop (count_capped st) (pe_sats pe)
        else bindR (chk64 (wr_paid_sats (rw_res st) + pe_sats pe)) (\<lambda>paid.
          let r = rw_res st in
          Ok (st\<lparr>rw_out := rw_out st @ [\<lparr>ro_spk = spk, ro_sats = pe_sats pe\<rparr>],
                 rw_bytes := rw_bytes st + cost,
                 rw_res := r\<lparr>wr_paid_sats := paid,
                             wr_paid_payee := (if k < COINBASE_MAX_PAYOUT_OUTPUTS
                                               then (wr_paid_payee r)[k := True]
                                               else wr_paid_payee r),
                             wr_paid_count := wr_paid_count r + 1\<rparr>\<rparr>))))"

fun rw_loop :: "int \<Rightarrow> nat \<Rightarrow> nat \<Rightarrow> nat \<Rightarrow> coinbase_payee list \<Rightarrow> rw_state \<Rightarrow> rw_state res" where
  "rw_loop flr cap budget k [] st = Ok st"
| "rw_loop flr cap budget k (p # ps) st =
     bindR (rw_step flr cap budget k p st) (rw_loop flr cap budget (k + 1) ps)"

text \<open>The redistribution: scale every survivor, then the truncation remainder to the largest.\<close>

fun scale_outs :: "int \<Rightarrow> int \<Rightarrow> cb_repl_out list \<Rightarrow> int \<Rightarrow> (cb_repl_out list \<times> int) res" where
  "scale_outs payable paid [] assigned = Ok ([], assigned)"
| "scale_outs payable paid (c # cs) assigned =
     bindR (prop_share payable (d_of_int (ro_sats c)) (d_of_int paid)) (\<lambda>s.
     bindR (chk64 (assigned + s)) (\<lambda>a.
     bindR (scale_outs payable paid cs a) (\<lambda>(cs', a').
       Ok (c\<lparr>ro_sats := s\<rparr> # cs', a'))))"

text \<open>\<open>for (i = 1..) if (out[i].sats > out[big].sats) big = i\<close>\<close>

fun find_big :: "cb_repl_out list \<Rightarrow> nat \<Rightarrow> nat \<Rightarrow> int \<Rightarrow> nat" where
  "find_big [] i big m = big"
| "find_big (c # cs) i big m =
     (if ro_sats c > m then find_big cs (i + 1) i (ro_sats c) else find_big cs (i + 1) big m)"

definition big_index :: "cb_repl_out list \<Rightarrow> nat" where
  "big_index outs = (case outs of [] \<Rightarrow> 0 | c # cs \<Rightarrow> find_big cs 1 0 (ro_sats c))"

definition add_sats_at :: "nat \<Rightarrow> int \<Rightarrow> cb_repl_out list \<Rightarrow> cb_repl_out list res" where
  "add_sats_at i v outs =
     bindR (chk64 (ro_sats (outs ! i) + v)) (\<lambda>s. Ok (outs[i := (outs ! i)\<lparr>ro_sats := s\<rparr>]))"

definition redistribute :: "int \<Rightarrow> int \<Rightarrow> cb_repl_out list \<Rightarrow> cb_repl_out list res" where
  "redistribute payable paid outs =
     bindR (scale_outs payable paid outs 0) (\<lambda>(outs', assigned).
       if assigned < payable then add_sats_at (big_index outs') (payable - assigned) outs'
       else guardR (assigned > payable) ''internal: redistribution overshot'' (Ok outs'))"

text \<open>The operator's script and fee as the resolver computes them.\<close>

definition window_fee :: "int \<Rightarrow> string option \<Rightarrow> int \<Rightarrow> (byte list option \<times> int) res" where
  "window_fee value_sats operator_address fee_bps =
     (if c_nonempty operator_address \<and> fee_bps > 0 then
        bindR (fee_cut value_sats fee_bps) (\<lambda>f.
          if f \<ge> COINBASE_DUST_SATS then
            bindR (coinbase_address_to_script (the operator_address) 64) (\<lambda>spk. Ok (Some spk, f))
          else Ok (None, 0))
      else Ok (None, 0))"

definition append_operator ::
  "string option \<Rightarrow> nat \<Rightarrow> byte list option \<Rightarrow> int \<Rightarrow> cb_repl_out list \<Rightarrow> cb_repl_out list res" where
  "append_operator operator_address cap op operator_out outs =
     bindR (if operator_out > 0 \<and> op = None then
              guardR (\<not> c_nonempty operator_address)
                ''a %lld-sat operator fee has no operator_address to receive it''
               (bindR (coinbase_address_to_script (the operator_address) 64) (\<lambda>spk. Ok (Some spk)))
            else Ok op) (\<lambda>op'.
       case op' of
         None \<Rightarrow> Ok outs
       | Some spk \<Rightarrow>
           if operator_out > 0 then
             guardR (length outs \<ge> cap) ''internal: repl cap''
               (Ok (outs @ [\<lparr>ro_spk = spk, ro_sats = operator_out\<rparr>]))
           else Ok outs)"

definition resolve_window_outputs ::
  "int \<Rightarrow> coinbase_payee list \<Rightarrow> string option \<Rightarrow> int \<Rightarrow> nat \<Rightarrow> nat \<Rightarrow> int \<Rightarrow> nat \<Rightarrow>
   (cb_repl_out list \<times> coinbase_window_result) res" where
  "resolve_window_outputs value_sats payees operator_address fee_bps max_bytes fixed_bytes flr0 cap =
     guardR (cap < 2 \<or> payees = []) ''window is empty: nobody to pay''
    (guardR (value_sats \<le> 0) ''value_sats must be positive''
    (let max_coinbase_bytes = (if max_bytes = 0 then COINBASE_DEFAULT_MAX_BYTES else max_bytes);
         flr = payout_floor flr0;
         budget = (if max_coinbase_bytes > fixed_bytes then max_coinbase_bytes - fixed_bytes else 0)
     in bindR (window_fee value_sats operator_address fee_bps) (\<lambda>(op, fee_sats).
        bindR (chk64 (value_sats - fee_sats)) (\<lambda>payable.
        bindR (sum_claims payees 0) (\<lambda>claimed.
        guardR (claimed \<noteq> payable)
          ''payees sum to %lld but the block pays %lld after a %lld fee''
       (bindR (rw_loop flr cap budget 0 payees
                 \<lparr>rw_out = [], rw_bytes = 0, rw_dropped = 0, rw_res = window_result_zero\<rparr>) (\<lambda>st.
        guardR (wr_paid_count (rw_res st) = 0) ''no payee fits''
       (bindR (if rw_dropped st > 0
               then bindR (redistribute payable (wr_paid_sats (rw_res st)) (rw_out st)) (\<lambda>outs.
                      Ok (outs, (rw_res st)\<lparr>wr_redistributed_sats := rw_dropped st,
                                            wr_paid_sats := payable\<rparr>))
               else Ok (rw_out st, rw_res st)) (\<lambda>(outs, r).
        bindR (append_operator operator_address cap op fee_sats outs) (\<lambda>outs'.
          Ok (outs', r\<lparr>wr_fee_sats := fee_sats\<rparr>)))))))))))"

section \<open>The window builder\<close>

text \<open>Everything the coinbase costs before a single miner is paid.\<close>

definition window_fixed_bytes ::
  "u32 \<Rightarrow> string option \<Rightarrow> string option \<Rightarrow> string option \<Rightarrow> u32 \<Rightarrow> nat \<Rightarrow> nat \<Rightarrow> nat" where
  "window_fixed_bytes height operator_address wc tag job_salt en1 en2 =
     (let wc_probe_len = (if c_nonempty wc then length (the wc) div 2 else 0);
          ss_probe = length (bip34_height_push height) + cb_tag_push_len tag job_salt + en1 + en2;
          fixed = 4 + 1 + 36 + (if ss_probe < 253 then 1 else 3) + ss_probe + 4 + 3 + 4
      in fixed + (if wc_probe_len \<noteq> 0 then out_ser_size wc_probe_len else 0) +
         (if c_nonempty operator_address then out_ser_size 34 else 0))"

fun push_repl :: "cb_repl_out list \<Rightarrow> bbuf \<Rightarrow> int \<Rightarrow> (bbuf \<times> int) res" where
  "push_repl [] outs emitted = Ok (outs, emitted)"
| "push_repl (c # cs) outs emitted =
     bindR (chk64 (emitted + ro_sats c)) (push_repl cs (push_output outs (ro_sats c) (ro_spk c)))"

definition coinbase_build_window ::
  "u32 \<Rightarrow> int \<Rightarrow> coinbase_payee list \<Rightarrow> string option \<Rightarrow> int \<Rightarrow> string option \<Rightarrow> string option \<Rightarrow>
   u32 \<Rightarrow> nat \<Rightarrow> nat \<Rightarrow> nat \<Rightarrow> int \<Rightarrow> (coinbase_parts \<times> coinbase_window_result) res" where
  "coinbase_build_window height value_sats payees operator_address fee_bps wc tag job_salt en1 en2
     max_coinbase_bytes flr =
     (let fixed = window_fixed_bytes height operator_address wc tag job_salt en1 en2 in
      bindR (resolve_window_outputs value_sats payees operator_address fee_bps max_coinbase_bytes
               fixed flr CB_MAX_REPL_OUTS) (\<lambda>(repl, r).
      bindR (push_repl repl bbuf_init 0) (\<lambda>(outs, emitted).
      bindR (decode_witness_commitment wc) (\<lambda>wc_buf.
        let outs = (case wc_buf of None \<Rightarrow> outs | Some b \<Rightarrow> push_output outs 0 b);
            n_outputs = word_of_nat (length repl) + (if wc_buf = None then 0 else 1);
            height_push = bip34_height_push height;
            tag_push = cb_tag_push tag job_salt;
            script_sig_len = length height_push + length tag_push + (en1 + en2)
        in guardR (emitted \<noteq> value_sats) ''internal: outputs sum to %lld, block pays %lld''
          (guardR (script_sig_len < 2 \<or> script_sig_len > 100)
             ''coinbase scriptSig length %zu out of range (height %zu + tag %zu + extranonce %zu)''
            (Ok (\<lparr>cb1 = bb_data (build_cb1 2 script_sig_len height_push tag_push),
                  cb2 = bb_data (build_cb2 n_outputs outs)\<rparr>, r)))))))"

section \<open>Serialised sizes\<close>

definition out_bytes :: "int \<Rightarrow> byte list \<Rightarrow> byte list" where
  "out_bytes sats spk = le_bytes 8 (word_of_int sats :: u64) @ varint_bytes (word_of_nat (length spk)) @ spk"

lemma bb_data_push_output [simp]: "bb_data (push_output b sats spk) = bb_data b @ out_bytes sats spk"
  by (simp add: push_output_def out_bytes_def)

lemma length_varint_nat:
  "n < 2 ^ 32 \<Longrightarrow> length (varint_bytes (word_of_nat n)) = (if n < 253 then 1 else if n \<le> 0xffff then 3 else 5)"
  by (simp add: length_varint_bytes word_less_nat_alt word_le_nat_alt unsigned_of_nat take_bit_nat_eq_self)

lemma length_out_bytes: "length spk < 2 ^ 32 \<Longrightarrow> length (out_bytes sats spk) = out_ser_size (length spk)"
  by (simp add: out_bytes_def out_ser_size_def length_varint_nat)

lemma out_ser_size_mono: "m \<le> n \<Longrightarrow> out_ser_size m \<le> out_ser_size n"
  by (simp add: out_ser_size_def)

lemma length_cb_tag_push: "length (cb_tag_push tag salt) = cb_tag_push_len tag salt"
  by (cases tag) (auto simp: cb_tag_push_def cb_tag_push_len_def COINBASE_JOB_SALT_PUSH_BYTES_def Let_def)

lemma bb_data_build_cb1:
  "bb_data (build_cb1 v n h t) =
     le_bytes 4 v @ varint_bytes 1 @ replicate 32 0 @ le_bytes 4 (0xffffffff::u32) @ varint_bytes (word_of_nat n) @ h @ t"
  by (simp add: build_cb1_def Let_def)

lemma bb_data_build_cb2:
  "bb_data (build_cb2 n outs) =
     le_bytes 4 (0xffffffff::u32) @ varint_bytes n @ bb_data outs @ le_bytes 4 (0::u32)"
  by (simp add: build_cb2_def Let_def)

section \<open>Fees and claims\<close>

lemma window_fee_Ok:
  assumes "window_fee v op bps = Ok (o', fee)" and "0 < v"
  shows "0 \<le> fee \<and> (fee = 0 \<longleftrightarrow> o' = None) \<and>
    (\<forall>spk. o' = Some spk \<longrightarrow> c_nonempty op \<and> coinbase_address_to_script (the op) 64 = Ok spk \<and>
       fee = v * bps div 10000 \<and> COINBASE_DUST_SATS \<le> fee)"
  using assms by (auto simp: window_fee_def fee_cut_def bindR_Ok_iff sdiv_nonneg COINBASE_DUST_SATS_def split: if_splits)

lemma sum_claims_Ok:
  "sum_claims ps c = Ok s \<Longrightarrow> s = c + sum_list (map pe_sats ps) \<and>
     (\<forall>p \<in> set ps. 0 \<le> pe_sats p \<and> c_nonempty (pe_address p))"
  by (induction ps arbitrary: c) (fastforce simp: bindR_Ok_iff not_less)+

section \<open>The payment loop\<close>

definition paid_of :: "bool list \<Rightarrow> 'a list \<Rightarrow> 'a list" where
  "paid_of fs ps = map fst (filter snd (zip ps fs))"

lemma paid_of_snoc:
  "length fs = length ps \<Longrightarrow> paid_of (fs @ [f]) (ps @ [p]) = paid_of fs ps @ (if f then [p] else [])"
  by (simp add: paid_of_def)

text \<open>The fixed-size flag array after the payees of \<open>fs\<close> have been decided.\<close>

definition paid_flags :: "bool list \<Rightarrow> bool list" where
  "paid_flags fs = map (\<lambda>k. k < length fs \<and> fs ! k) [0..<COINBASE_MAX_PAYOUT_OUTPUTS]"

lemma length_paid_flags [simp]: "length (paid_flags fs) = COINBASE_MAX_PAYOUT_OUTPUTS"
  by (simp add: paid_flags_def)

lemma paid_flags_Nil [simp]: "paid_flags [] = replicate COINBASE_MAX_PAYOUT_OUTPUTS False"
  by (simp add: paid_flags_def map_replicate_const)

lemma paid_flags_snoc: "paid_flags (fs @ [f]) = (if f then (paid_flags fs)[length fs := True] else paid_flags fs)"
  by (rule nth_equalityI) (auto simp: paid_flags_def nth_append nth_list_update less_Suc_eq)

definition pays :: "int \<Rightarrow> cb_repl_out \<Rightarrow> coinbase_payee \<Rightarrow> bool" where
  "pays flr c p \<longleftrightarrow> ro_sats c = pe_sats p \<and> flr \<le> pe_sats p \<and>
     coinbase_address_to_script (the (pe_address p)) 64 = Ok (ro_spk c)"

definition outs_bytes :: "cb_repl_out list \<Rightarrow> nat" where
  "outs_bytes cs = sum_list (map (\<lambda>spk. out_ser_size (length spk)) (map ro_spk cs))"

definition outs_sats :: "cb_repl_out list \<Rightarrow> int" where
  "outs_sats cs = sum_list (map ro_sats cs)"

definition rw_inv :: "int \<Rightarrow> nat \<Rightarrow> nat \<Rightarrow> coinbase_payee list \<Rightarrow> bool list \<Rightarrow> rw_state \<Rightarrow> bool" where
  "rw_inv flr cap budget dn fs st \<longleftrightarrow>
     length fs = length dn \<and>
     list_all2 (pays flr) (rw_out st) (paid_of fs dn) \<and>
     rw_bytes st = outs_bytes (rw_out st) \<and> rw_bytes st \<le> budget \<and>
     wr_paid_sats (rw_res st) = outs_sats (rw_out st) \<and>
     rw_dropped st + outs_sats (rw_out st) = sum_list (map pe_sats dn) \<and>
     wr_paid_count (rw_res st) = length (rw_out st) \<and> length (rw_out st) < cap \<and>
     wr_dropped_below_floor (rw_res st) + wr_dropped_capped (rw_res st) + length (rw_out st) = length dn \<and>
     wr_dropped_below_floor (rw_res st) = length (filter (\<lambda>p. pe_sats p < flr) dn) \<and>
     wr_redistributed_sats (rw_res st) = 0 \<and>
     wr_paid_payee (rw_res st) = paid_flags fs"

lemmas rw_defs = rw_step_def rw_drop_def count_below_def count_capped_def

lemma rw_inv_init: "0 < cap \<Longrightarrow>
    rw_inv flr cap budget [] [] \<lparr>rw_out = [], rw_bytes = 0, rw_dropped = 0, rw_res = window_result_zero\<rparr>"
  by (simp add: rw_inv_def window_result_zero_def paid_of_def outs_bytes_def outs_sats_def)

lemma rw_step_inv:
  assumes inv: "rw_inv flr cap budget dn fs st"
    and step: "rw_step flr cap budget (length dn) p st = Ok st'"
  shows "\<exists>f. rw_inv flr cap budget (dn @ [p]) (fs @ [f]) st'"
proof -
  have len: "length fs = length dn" using inv by (simp add: rw_inv_def)
  consider (drop) below where "st' = (if below then count_below st else count_capped st)\<lparr>rw_dropped := rw_dropped st + pe_sats p\<rparr>"
      "below = (pe_sats p < flr)"
    | (pay) spk where "coinbase_address_to_script (the (pe_address p)) 64 = Ok spk" "flr \<le> pe_sats p"
      "length (rw_out st) + 1 < cap" "rw_bytes st + out_ser_size (length spk) \<le> budget"
      "st' = st\<lparr>rw_out := rw_out st @ [\<lparr>ro_spk = spk, ro_sats = pe_sats p\<rparr>],
                 rw_bytes := rw_bytes st + out_ser_size (length spk),
                 rw_res := (rw_res st)\<lparr>wr_paid_sats := wr_paid_sats (rw_res st) + pe_sats p,
                             wr_paid_payee := (if length dn < COINBASE_MAX_PAYOUT_OUTPUTS
                                               then (wr_paid_payee (rw_res st))[length dn := True]
                                               else wr_paid_payee (rw_res st)),
                             wr_paid_count := wr_paid_count (rw_res st) + 1\<rparr>\<rparr>"
    using step by (auto simp: rw_defs bindR_Ok_iff Let_def not_less not_le split: if_splits)
  then show ?thesis
  proof cases
    case drop
    have "rw_inv flr cap budget (dn @ [p]) (fs @ [False]) st'"
      using inv drop len unfolding rw_inv_def
      by (auto simp: paid_of_snoc count_below_def count_capped_def paid_flags_snoc)
    then show ?thesis ..
  next
    case pay
    have "rw_inv flr cap budget (dn @ [p]) (fs @ [True]) st'"
      using inv pay len unfolding rw_inv_def
      by (auto simp: paid_of_snoc pays_def list_all2_appendI outs_bytes_def outs_sats_def paid_flags_snoc list_update_beyond)
    then show ?thesis ..
  qed
qed

lemma rw_loop_inv:
  assumes "rw_inv flr cap budget dn fs st" and "rw_loop flr cap budget (length dn) ps st = Ok st'"
  shows "\<exists>fs'. rw_inv flr cap budget (dn @ ps) fs' st'"
  using assms
proof (induction ps arbitrary: dn fs st)
  case Nil
  then show ?case by auto
next
  case (Cons p ps)
  then obtain st1 where s: "rw_step flr cap budget (length dn) p st = Ok st1"
    and l: "rw_loop flr cap budget (length dn + 1) ps st1 = Ok st'"
    by (auto simp: bindR_Ok_iff)
  obtain f where "rw_inv flr cap budget (dn @ [p]) (fs @ [f]) st1"
    using rw_step_inv [OF Cons.prems(1) s] by blast
  from Cons.IH [OF this] l show ?case by simp
qed

section \<open>Redistribution\<close>

lemma scale_outs_Ok:
  "scale_outs P T cs a = Ok (cs', a') \<Longrightarrow>
     map ro_spk cs' = map ro_spk cs \<and> a' = a + outs_sats cs' \<and>
     list_all2 (\<lambda>c c'. prop_share P (d_of_int (ro_sats c)) (d_of_int T) = Ok (ro_sats c')) cs cs'"
  by (induction cs arbitrary: a cs' a') (fastforce simp: bindR_Ok_iff outs_sats_def)+

lemma scale_outs_succeeds:
  assumes "map (\<lambda>c. prop_share P (d_of_int (ro_sats c)) (d_of_int T)) cs = map Ok ks"
    and "\<And>k. k \<in> set ks \<Longrightarrow> 0 \<le> k" and "0 \<le> a" and "a + sum_list ks < 2 ^ 63"
  shows "\<exists>cs'. scale_outs P T cs a = Ok (cs', a + sum_list ks)"
  using assms
proof (induction cs arbitrary: a ks)
  case Nil
  then show ?case by simp
next
  case (Cons c cs)
  then obtain k ks' where ks: "ks = k # ks'" "prop_share P (d_of_int (ro_sats c)) (d_of_int T) = Ok k"
    "map (\<lambda>c. prop_share P (d_of_int (ro_sats c)) (d_of_int T)) cs = map Ok ks'" by auto
  have nn: "0 \<le> k" "0 \<le> sum_list ks'" using Cons.prems(2) ks(1) by (auto intro: sum_list_nonneg_int)
  then have ok: "i64_ok (a + k)" using Cons.prems(3,4) ks(1) unfolding i64_ok_def by simp
  have "\<exists>cs'. scale_outs P T cs (a + k) = Ok (cs', a + k + sum_list ks')"
    by (rule Cons.IH [OF ks(3)]) (use Cons.prems nn ks(1) in auto)
  then show ?case using ks ok by auto
qed

lemma find_big_bound: "big < i \<Longrightarrow> find_big cs i big m < i + length cs"
  by (induction cs arbitrary: i big m) (auto simp: less_Suc_eq, (metis add_Suc_right add_Suc less_Suc_eq lessI trans_less_add1)+)

lemma big_index_bound: "cs \<noteq> [] \<Longrightarrow> big_index cs < length cs"
  using find_big_bound [of 0 1] by (cases cs) (auto simp: big_index_def)

lemma add_sats_at_Ok:
  assumes "add_sats_at i v cs = Ok cs'" and "i < length cs"
  shows "map ro_spk cs' = map ro_spk cs \<and> outs_sats cs' = outs_sats cs + v \<and>
    cs' = cs[i := (cs ! i)\<lparr>ro_sats := ro_sats (cs ! i) + v\<rparr>]"
proof -
  have c: "cs' = cs[i := (cs ! i)\<lparr>ro_sats := ro_sats (cs ! i) + v\<rparr>]"
    using assms by (auto simp: add_sats_at_def bindR_Ok_iff)
  have "map ro_spk cs' = map ro_spk cs"
    by (simp add: c map_update) (metis list_update_id map_update)
  moreover have "outs_sats cs' = outs_sats cs + v"
    using assms(2) by (simp add: c outs_sats_def map_update sum_list_update_int)
  ultimately show ?thesis using c by simp
qed

text \<open>The largest amount, the first one of several.\<close>

definition first_max :: "int list \<Rightarrow> nat \<Rightarrow> bool" where
  "first_max xs k \<longleftrightarrow> k < length xs \<and> (\<forall>j < length xs. xs ! j \<le> xs ! k) \<and> (\<forall>j < k. xs ! j < xs ! k)"

lemma first_max_snoc: "first_max xs k \<Longrightarrow> first_max (xs @ [x]) (if xs ! k < x then length xs else k)"
  by (auto simp: first_max_def nth_append less_Suc_eq)

lemma find_big_first: "first_max (map ro_sats pre) big \<Longrightarrow> m = ro_sats (pre ! big) \<Longrightarrow> first_max (map ro_sats (pre @ cs)) (find_big cs (length pre) big m)"
proof (induction cs arbitrary: pre big m)
  case (Cons c cs)
  have l: "big < length pre" using Cons.prems(1) by (simp add: first_max_def)
  note f = first_max_snoc [OF Cons.prems(1), of "ro_sats c"]
  show ?case
  proof (cases "m < ro_sats c")
    case True
    then have "first_max (map ro_sats (pre @ [c])) (length pre)" using f l Cons.prems(2) by simp
    from Cons.IH [OF this refl] show ?thesis using True by simp
  next
    case False
    then have "first_max (map ro_sats (pre @ [c])) big" using f l Cons.prems(2) by simp
    from Cons.IH [OF this refl] show ?thesis using False l Cons.prems(2) by (simp add: nth_append)
  qed
qed simp

lemma big_index_first: "cs \<noteq> [] \<Longrightarrow> first_max (map ro_sats cs) (big_index cs)"
proof (cases cs)
  case (Cons c cs')
  have "first_max (map ro_sats [c]) 0" by (simp add: first_max_def)
  from find_big_first [OF this refl, of cs'] show ?thesis by (simp add: big_index_def Cons)
qed simp

text \<open>
  The amounts of the paid payees: their claims when nothing was dropped; otherwise the truncated
  shares of the payable amount by claim, with the remainder on the largest.
\<close>

definition paid_amounts :: "int \<Rightarrow> int list \<Rightarrow> int \<Rightarrow> int list \<Rightarrow> bool" where
  "paid_amounts payable claims dropped amounts \<longleftrightarrow>
     (if dropped = 0 then amounts = claims
      else \<exists>ks k. map (\<lambda>c. prop_share payable (d_of_int c) (d_of_int (sum_list claims))) claims = map Ok ks \<and> first_max ks k \<and>
             amounts = ks[k := ks ! k + (payable - sum_list ks)])"

lemma redistribute_amounts:
  assumes "redistribute P (outs_sats cs) cs = Ok cs'" and "cs \<noteq> []" and "d \<noteq> 0"
  shows "paid_amounts P (map ro_sats cs) d (map ro_sats cs')"
proof -
  obtain outs a where s: "scale_outs P (outs_sats cs) cs 0 = Ok (outs, a)"
    and r: "if a < P then add_sats_at (big_index outs) (P - a) outs = Ok cs' else a = P \<and> outs = cs'"
    using assms(1) by (auto simp: redistribute_def bindR_Ok_iff not_less split: if_splits)
  note o = scale_outs_Ok [OF s]
  have "length outs = length cs" using o by (metis length_map)
  then have ne: "outs \<noteq> []" using assms(2) by auto
  let ?k = "big_index outs"
  have k: "first_max (map ro_sats outs) ?k" by (rule big_index_first [OF ne])
  have "list_all2 (\<lambda>c k. prop_share P (d_of_int c) (d_of_int (outs_sats cs)) = Ok k) (map ro_sats cs) (map ro_sats outs)"
    using o by (simp add: list_all2_map1 list_all2_map2)
  then have m: "map (\<lambda>c. prop_share P (d_of_int c) (d_of_int (outs_sats cs))) (map ro_sats cs) = map Ok (map ro_sats outs)"
    by (induction rule: list_all2_induct) simp_all
  have kl: "?k < length outs" using k by (simp add: first_max_def)
  have "map ro_sats cs' = (map ro_sats outs)[?k := map ro_sats outs ! ?k + (P - sum_list (map ro_sats outs))]"
  proof (cases "a < P")
    case True
    then have "cs' = outs[?k := (outs ! ?k)\<lparr>ro_sats := ro_sats (outs ! ?k) + (P - a)\<rparr>]" using r add_sats_at_Ok [of ?k "P - a" outs cs'] kl by simp
    then show ?thesis using o kl by (simp add: map_update outs_sats_def)
  next
    case False
    then have "cs' = outs" "P = sum_list (map ro_sats outs)" using r o by (auto simp: outs_sats_def)
    moreover have "(map ro_sats outs)[?k := map ro_sats outs ! ?k] = map ro_sats outs" by (rule list_update_id)
    ultimately show ?thesis by simp
  qed
  then show ?thesis using m k assms(3) unfolding paid_amounts_def outs_sats_def by (simp del: map_map) blast
qed

lemma redistribute_Ok:
  assumes "redistribute P T cs = Ok cs'" and "cs \<noteq> []"
  shows "map ro_spk cs' = map ro_spk cs \<and> outs_sats cs' = P"
proof -
  obtain outs a where s: "scale_outs P T cs 0 = Ok (outs, a)"
    and r: "if a < P then add_sats_at (big_index outs) (P - a) outs = Ok cs' else a = P \<and> outs = cs'"
    using assms(1) by (auto simp: redistribute_def bindR_Ok_iff not_less split: if_splits)
  have o: "map ro_spk outs = map ro_spk cs" "a = outs_sats outs" using scale_outs_Ok [OF s] by auto
  then have "outs \<noteq> []" using assms(2) by auto
  then show ?thesis
    using r o add_sats_at_Ok [of "big_index outs" "P - a" outs cs'] big_index_bound [of outs]
    by (auto split: if_splits)
qed

text \<open>
  When every survivor had a non-negative claim and the claims sum to \<open>T < P\<close>, the
  redistribution succeeds, and no survivor receives less than its claim.
\<close>

lemma redistribute_succeeds:
  assumes T: "0 < T" "T < P" and P: "P \<le> 2 ^ 42" and cs: "cs \<noteq> []" "length cs \<le> 2 ^ 20"
    and nn: "\<And>c. c \<in> set cs \<Longrightarrow> 0 \<le> ro_sats c" and sum: "outs_sats cs = T"
  shows "\<exists>cs'. redistribute P T cs = Ok cs' \<and> list_all2 (\<lambda>c c'. ro_sats c \<le> ro_sats c') cs cs'"
proof -
  define ds where "ds = map (\<lambda>c. of_int (ro_sats c) :: rat) cs"
  have mem: "ro_sats c \<le> T" if "c \<in> set cs" for c
    using that nn sum member_le_sum_list_int [of "ro_sats c" "map ro_sats cs"] by (auto simp: outs_sats_def)
  have ex: "d_of_int (ro_sats c) = Fin (of_int (ro_sats c))" if "c \<in> set cs" for c
    using mem [OF that] nn [OF that] T P by (intro d_of_int_exact) auto
  have exT: "d_of_int T = Fin (of_int T)" using T P by (intro d_of_int_exact) auto
  have sd: "sum_list ds = of_int T"
    unfolding ds_def sum [symmetric] outs_sats_def by (induction cs) auto
  have sm: "sum_list ds \<le> of_int T * (1 + 1 / 2 ^ 44)" using T by (simp add: sd)
  have dn: "\<And>d. d \<in> set ds \<Longrightarrow> 0 \<le> d" and ld: "length ds \<le> 2 ^ 20"
    and T': "0 \<le> P" "0 < (of_int T :: rat)"
    using nn cs T by (auto simp: ds_def)
  obtain ks where ks: "map (\<lambda>d. prop_share P (Fin d) (Fin (of_int T))) ds = map Ok ks"
    "\<And>k. k \<in> set ks \<Longrightarrow> 0 \<le> k" "sum_list ks \<le> P"
    using sum_prop_shares_le [OF T'(1) P T'(2) dn sm ld] by blast
  have ks': "map (\<lambda>c. prop_share P (d_of_int (ro_sats c)) (d_of_int T)) cs = map Ok ks"
    using ks(1) by (simp add: ds_def exT ex comp_def cong: map_cong)
  obtain outs where s: "scale_outs P T cs 0 = Ok (outs, sum_list ks)"
    using scale_outs_succeeds [OF ks' ks(2), of 0] ks(3) P by auto
  note so = scale_outs_Ok [OF s]
  have up: "list_all2 (\<lambda>c c'. ro_sats c \<le> ro_sats c') cs outs"
  proof (rule list_all2_mono_set)
    show "list_all2 (\<lambda>c c'. prop_share P (d_of_int (ro_sats c)) (d_of_int T) = Ok (ro_sats c')) cs outs"
      using so by simp
    fix c c' assume "c \<in> set cs" "prop_share P (d_of_int (ro_sats c)) (d_of_int T) = Ok (ro_sats c')"
    then show "ro_sats c \<le> ro_sats c'"
      using prop_share_scale_up [of T P "ro_sats c"] T P nn mem by (metis res.inject(1))
  qed
  have ne: "outs \<noteq> []" using so cs(1) by auto
  show ?thesis
  proof (cases "sum_list ks < P")
    case False
    then show ?thesis using s ks(3) up by (simp add: redistribute_def)
  next
    case True
    let ?i = "big_index outs" and ?v = "P - sum_list ks"
    have i: "?i < length outs" by (rule big_index_bound [OF ne])
    have "0 \<le> ro_sats (outs ! ?i) \<and> ro_sats (outs ! ?i) \<le> sum_list ks"
    proof -
      have nno: "0 \<le> x" if "x \<in> set (map ro_sats outs)" for x
        using that up nn by (fastforce simp: list_all2_conv_all_nth in_set_conv_nth)
      moreover have "ro_sats (outs ! ?i) \<in> set (map ro_sats outs)" using i by simp
      ultimately show ?thesis
        using member_le_sum_list_int [of "ro_sats (outs ! ?i)" "map ro_sats outs"] so by (auto simp: outs_sats_def)
    qed
    then have "i64_ok (ro_sats (outs ! ?i) + ?v)" using True P by (simp add: i64_ok_def)
    then have "redistribute P T cs = Ok (outs[?i := (outs ! ?i)\<lparr>ro_sats := ro_sats (outs ! ?i) + ?v\<rparr>])"
      using s True by (simp add: redistribute_def add_sats_at_def)
    moreover have "list_all2 (\<lambda>c c'. ro_sats c \<le> ro_sats c') cs
        (outs[?i := (outs ! ?i)\<lparr>ro_sats := ro_sats (outs ! ?i) + ?v\<rparr>])"
      using up True i by (auto simp: list_all2_conv_all_nth nth_list_update intro: order_trans)
    ultimately show ?thesis by blast
  qed
qed

section \<open>The resolver\<close>

definition window_budget :: "nat \<Rightarrow> nat \<Rightarrow> nat" where
  "window_budget max_bytes fixed = (if max_bytes = 0 then COINBASE_DEFAULT_MAX_BYTES else max_bytes) - fixed"

definition rw_start :: rw_state where
  "rw_start = \<lparr>rw_out = [], rw_bytes = 0, rw_dropped = 0, rw_res = window_result_zero\<rparr>"

lemma resolve_stages:
  assumes "resolve_window_outputs v payees op bps maxb fixed flr cap = Ok (outs, r)"
  obtains spk fee st miners r0 where
    "2 \<le> cap" "payees \<noteq> []" "0 < v" "window_fee v op bps = Ok (spk, fee)"
    "sum_claims payees 0 = Ok (v - fee)"
    "rw_loop (payout_floor flr) cap (window_budget maxb fixed) 0 payees rw_start = Ok st"
    "wr_paid_count (rw_res st) \<noteq> 0"
    "if rw_dropped st > 0
     then redistribute (v - fee) (wr_paid_sats (rw_res st)) (rw_out st) = Ok miners \<and>
       r0 = (rw_res st)\<lparr>wr_redistributed_sats := rw_dropped st, wr_paid_sats := v - fee\<rparr>
     else miners = rw_out st \<and> r0 = rw_res st"
    "append_operator op cap spk fee miners = Ok outs" "r = r0\<lparr>wr_fee_sats := fee\<rparr>"
proof -
  have b: "(if (if maxb = 0 then COINBASE_DEFAULT_MAX_BYTES else maxb) > fixed
       then (if maxb = 0 then COINBASE_DEFAULT_MAX_BYTES else maxb) - fixed else 0) = window_budget maxb fixed"
    by (simp add: window_budget_def)
  let ?red = "\<lambda>st fee. if rw_dropped st > 0
      then bindR (redistribute (v - fee) (wr_paid_sats (rw_res st)) (rw_out st)) (\<lambda>outs.
             Ok (outs, (rw_res st)\<lparr>wr_redistributed_sats := rw_dropped st, wr_paid_sats := v - fee\<rparr>))
      else Ok (rw_out st, rw_res st)"
  have "\<not> (cap < 2 \<or> payees = []) \<and> \<not> v \<le> 0 \<and> (\<exists>spk fee. window_fee v op bps = Ok (spk, fee) \<and>
      sum_claims payees 0 = Ok (v - fee) \<and>
      (\<exists>st. rw_loop (payout_floor flr) cap (window_budget maxb fixed) 0 payees rw_start = Ok st \<and>
        wr_paid_count (rw_res st) \<noteq> 0 \<and>
        (\<exists>miners r0. ?red st fee = Ok (miners, r0) \<and>
          append_operator op cap spk fee miners = Ok outs \<and> r = r0\<lparr>wr_fee_sats := fee\<rparr>)))"
    using assms unfolding resolve_window_outputs_def Let_def b rw_start_def [symmetric]
    by (simp only: guardR_Ok_iff bindR_Ok_iff split_paired_Ex case_prod_conv chk64_Ok_iff) blast
  then show ?thesis
    using that by (elim conjE exE) (simp add: bindR_Ok_iff not_less not_le split: if_splits; blast)
qed

lemma set_paid_of: "p \<in> set (paid_of fs ps) \<Longrightarrow> p \<in> set ps"
  by (auto simp: paid_of_def dest: set_zip_leftD)

lemma paid_of_sum_le:
  "\<forall>p \<in> set ps. 0 \<le> pe_sats p \<Longrightarrow> sum_list (map pe_sats (paid_of fs ps)) \<le> sum_list (map pe_sats ps)"
proof (induction ps arbitrary: fs)
  case Nil
  then show ?case by (simp add: paid_of_def)
next
  case (Cons p ps)
  have nn: "0 \<le> sum_list (map pe_sats ps)" using Cons.prems by (intro sum_list_nonneg_int) auto
  show ?case
  proof (cases fs)
    case Nil
    then show ?thesis using nn Cons.prems by (simp add: paid_of_def)
  next
    case (Cons f fs')
    then show ?thesis using Cons.IH [of fs'] Cons.prems by (auto simp: paid_of_def)
  qed
qed

lemma append_operator_Ok:
  assumes "append_operator op cap spk fee outs = Ok outs'" and "fee = 0 \<longleftrightarrow> spk = None" and "0 \<le> fee"
  shows "outs' = outs @ (case spk of None \<Rightarrow> [] | Some s \<Rightarrow> [\<lparr>ro_spk = s, ro_sats = fee\<rparr>])"
  using assms by (cases spk) (auto simp: append_operator_def)

text \<open>What a resolved window is: the payees of \<open>fs\<close>, in order, then the operator.\<close>

definition window_resolved ::
  "int \<Rightarrow> coinbase_payee list \<Rightarrow> string option \<Rightarrow> int \<Rightarrow> nat \<Rightarrow> nat \<Rightarrow> bool list \<Rightarrow>
   cb_repl_out list \<Rightarrow> cb_repl_out list \<Rightarrow> coinbase_window_result \<Rightarrow> bool" where
  "window_resolved v payees op bps budget cap fs miners ops r \<longleftrightarrow>
     length fs = length payees \<and>
     list_all2 (\<lambda>c p. coinbase_address_to_script (the (pe_address p)) 64 = Ok (ro_spk c))
       miners (paid_of fs payees) \<and>
     paid_amounts (v - wr_fee_sats r) (map pe_sats (paid_of fs payees)) (wr_redistributed_sats r) (map ro_sats miners) \<and>
     outs_sats miners = v - wr_fee_sats r \<and> outs_bytes miners \<le> budget \<and>
     miners \<noteq> [] \<and> length miners < cap \<and>
     wr_paid_count r = length miners \<and> wr_paid_sats r = v - wr_fee_sats r \<and>
     wr_paid_payee r = paid_flags fs \<and>
     wr_redistributed_sats r = sum_list (map pe_sats payees) - sum_list (map pe_sats (paid_of fs payees)) \<and>
     wr_dropped_below_floor r + wr_dropped_capped r + wr_paid_count r = length payees \<and>
     (if wr_fee_sats r = 0 then ops = []
      else \<exists>spk. ops = [\<lparr>ro_spk = spk, ro_sats = wr_fee_sats r\<rparr>] \<and> c_nonempty op \<and>
             coinbase_address_to_script (the op) 64 = Ok spk \<and>
             wr_fee_sats r = v * bps div 10000 \<and> COINBASE_DUST_SATS \<le> wr_fee_sats r)"

lemma pays_sats: "list_all2 (pays flr) cs ps \<Longrightarrow> map ro_sats cs = map pe_sats ps"
  by (induction rule: list_all2_induct) (auto simp: pays_def)

lemma resolve_window_cases:
  assumes "resolve_window_outputs v payees op bps maxb fixed flr cap = Ok (outs, r)"
  obtains fs miners ops st where "outs = miners @ ops"
    and "window_resolved v payees op bps (window_budget maxb fixed) cap fs miners ops r"
    and "rw_loop (payout_floor flr) cap (window_budget maxb fixed) 0 payees rw_start = Ok st"
    and "rw_inv (payout_floor flr) cap (window_budget maxb fixed) payees fs st"
  using assms
proof (rule resolve_stages)
  fix spk fee st miners r0
  assume cap: "2 \<le> cap" and v: "0 < v" and fee: "window_fee v op bps = Ok (spk, fee)"
    and claims: "sum_claims payees 0 = Ok (v - fee)"
    and loop: "rw_loop (payout_floor flr) cap (window_budget maxb fixed) 0 payees rw_start = Ok st"
    and cnt: "wr_paid_count (rw_res st) \<noteq> 0"
    and red: "if rw_dropped st > 0
     then redistribute (v - fee) (wr_paid_sats (rw_res st)) (rw_out st) = Ok miners \<and>
       r0 = (rw_res st)\<lparr>wr_redistributed_sats := rw_dropped st, wr_paid_sats := v - fee\<rparr>
     else miners = rw_out st \<and> r0 = rw_res st"
    and app: "append_operator op cap spk fee miners = Ok outs" and r: "r = r0\<lparr>wr_fee_sats := fee\<rparr>"
  have init: "rw_inv (payout_floor flr) cap (window_budget maxb fixed) [] [] rw_start"
    using cap unfolding rw_start_def by (intro rw_inv_init) simp
  from rw_loop_inv [OF init] loop obtain fs
    where inv: "rw_inv (payout_floor flr) cap (window_budget maxb fixed) payees fs st" by auto
  have cl: "sum_list (map pe_sats payees) = v - fee" "\<forall>p \<in> set payees. 0 \<le> pe_sats p"
    using sum_claims_Ok [OF claims] by auto
  have paid: "list_all2 (pays (payout_floor flr)) (rw_out st) (paid_of fs payees)"
    and ne: "rw_out st \<noteq> []" using inv cnt by (auto simp: rw_inv_def)
  have out_sum: "outs_sats (rw_out st) = sum_list (map pe_sats (paid_of fs payees))"
    using pays_sats [OF paid] by (simp add: outs_sats_def)
  have "0 \<le> sum_list (map pe_sats payees) - sum_list (map pe_sats (paid_of fs payees))"
    using paid_of_sum_le [OF cl(2), of fs] by simp
  moreover have dr: "rw_dropped st = sum_list (map pe_sats payees) - sum_list (map pe_sats (paid_of fs payees))"
    using inv out_sum by (simp add: rw_inv_def)
  moreover have ms: "map ro_spk miners = map ro_spk (rw_out st) \<and> outs_sats miners = v - fee"
  proof (cases "rw_dropped st > 0")
    case True
    then show ?thesis using red redistribute_Ok [OF _ ne] by simp blast
  next
    case False
    then show ?thesis using red dr out_sum cl(1) calculation(1) by simp
  qed
  moreover have "paid_amounts (v - fee) (map pe_sats (paid_of fs payees)) (rw_dropped st) (map ro_sats miners)"
  proof (cases "rw_dropped st > 0")
    case True
    then have "redistribute (v - fee) (outs_sats (rw_out st)) (rw_out st) = Ok miners" using red inv by (simp add: rw_inv_def)
    from redistribute_amounts [OF this ne] show ?thesis using True pays_sats [OF paid] by simp
  next
    case False
    then show ?thesis using red dr calculation(1) pays_sats [OF paid] by (simp add: paid_amounts_def)
  qed
  moreover have "list_all2 (\<lambda>c p. coinbase_address_to_script (the (pe_address p)) 64 = Ok (ro_spk c)) (rw_out st) (paid_of fs payees)"
    using paid by (rule list_all2_mono) (simp add: pays_def)
  then have "list_all2 (\<lambda>s p. coinbase_address_to_script (the (pe_address p)) 64 = Ok s) (map ro_spk miners) (paid_of fs payees)"
    using ms by (simp only: list_all2_map1)
  then have "list_all2 (\<lambda>c p. coinbase_address_to_script (the (pe_address p)) 64 = Ok (ro_spk c)) miners (paid_of fs payees)"
    by (simp only: list_all2_map1)
  moreover have "outs_bytes miners = outs_bytes (rw_out st)" "length miners = length (rw_out st)"
    using ms by (simp_all only: outs_bytes_def) (metis length_map)
  moreover from this(2) ne have "miners \<noteq> []" by auto
  moreover note window_fee_Ok [OF fee v]
  moreover have "outs = miners @ (case spk of None \<Rightarrow> [] | Some s \<Rightarrow> [\<lparr>ro_spk = s, ro_sats = fee\<rparr>])"
    using append_operator_Ok [OF app] window_fee_Ok [OF fee v] by blast
  ultimately show thesis
    using that [of miners "case spk of None \<Rightarrow> [] | Some s \<Rightarrow> [\<lparr>ro_spk = s, ro_sats = fee\<rparr>]" fs st, OF _ _ loop inv] inv red r ne cl(1) out_sum
    by (auto simp: window_resolved_def rw_inv_def split: option.splits if_splits)
qed

lemma resolve_window_Ok:
  assumes "resolve_window_outputs v payees op bps maxb fixed flr cap = Ok (outs, r)"
  obtains fs miners ops where "outs = miners @ ops"
    and "window_resolved v payees op bps (window_budget maxb fixed) cap fs miners ops r"
    and "\<forall>p \<in> set (paid_of fs payees). payout_floor flr \<le> pe_sats p" and "wr_dropped_below_floor r = length (filter (\<lambda>p. pe_sats p < payout_floor flr) payees)"
proof -
  obtain fs miners ops st where o: "outs = miners @ ops"
    and w: "window_resolved v payees op bps (window_budget maxb fixed) cap fs miners ops r"
    and st: "rw_loop (payout_floor flr) cap (window_budget maxb fixed) 0 payees rw_start = Ok st"
    and inv: "rw_inv (payout_floor flr) cap (window_budget maxb fixed) payees fs st"
    using resolve_window_cases [OF assms] by metis
  have "\<forall>p \<in> set (paid_of fs payees). payout_floor flr \<le> pe_sats p"
    using inv by (fastforce simp: rw_inv_def pays_def list_all2_conv_all_nth in_set_conv_nth)
  moreover have "wr_dropped_below_floor r = wr_dropped_below_floor (rw_res st)"
    using assms by (rule resolve_stages) (use st in \<open>auto split: if_splits\<close>)
  ultimately show ?thesis using that [OF o w] inv by (simp add: rw_inv_def)
qed

lemma resolve_window_inv:
  assumes "resolve_window_outputs v payees op bps maxb fixed flr cap = Ok (outs, r)"
    and "rw_loop (payout_floor flr) cap (window_budget maxb fixed) 0 payees rw_start = Ok st"
  shows "\<exists>fs miners ops. outs = miners @ ops \<and>
    window_resolved v payees op bps (window_budget maxb fixed) cap fs miners ops r \<and>
    rw_inv (payout_floor flr) cap (window_budget maxb fixed) payees fs st"
  using resolve_window_cases [OF assms(1)] assms(2) by (metis res.inject(1))

text \<open>
  Below \<open>2^42\<close> satoshis the redistribution cannot take from anyone: every miner receives at
  least its claim, hence at least the floor.
\<close>


section \<open>When the loop pays\<close>

lemma rw_drop_Ok_iff: "rw_drop st s = Ok st' \<longleftrightarrow> i64_ok (rw_dropped st + s) \<and> st' = st\<lparr>rw_dropped := rw_dropped st + s\<rparr>"
  by (auto simp: rw_drop_def bindR_Ok_iff)

lemma rw_step_succeeds:
  assumes inv: "rw_inv flr cap budget dn fs st" and nn: "\<forall>p \<in> set (dn @ [p]). 0 \<le> pe_sats p"
    and sum: "sum_list (map pe_sats (dn @ [p])) < 2 ^ 63"
    and addr: "flr \<le> pe_sats p \<Longrightarrow> \<exists>spk. coinbase_address_to_script (the (pe_address p)) 64 = Ok spk"
  shows "\<exists>st'. rw_step flr cap budget (length dn) p st = Ok st'"
proof -
  have o: "outs_sats (rw_out st) = sum_list (map pe_sats (paid_of fs dn))"
    using inv pays_sats by (simp add: rw_inv_def outs_sats_def) (metis pays_sats)
  have "0 \<le> outs_sats (rw_out st)" "outs_sats (rw_out st) \<le> sum_list (map pe_sats dn)"
    using paid_of_sum_le [of dn fs] nn set_paid_of [of _ fs dn] unfolding o
    by (fastforce intro!: sum_list_nonneg_int)+
  then have "i64_ok (rw_dropped st + pe_sats p)" "i64_ok (wr_paid_sats (rw_res st) + pe_sats p)"
    using inv nn sum by (auto simp: rw_inv_def i64_ok_def)
  then show ?thesis
    using addr by (cases "pe_sats p < flr") (auto simp: rw_defs Let_def not_less)
qed

lemma rw_loop_succeeds:
  assumes inv: "rw_inv flr cap budget dn fs st" and nn: "\<forall>p \<in> set (dn @ ps). 0 \<le> pe_sats p"
    and sum: "sum_list (map pe_sats (dn @ ps)) < 2 ^ 63"
    and addr: "\<And>p. p \<in> set ps \<Longrightarrow> flr \<le> pe_sats p \<Longrightarrow> \<exists>spk. coinbase_address_to_script (the (pe_address p)) 64 = Ok spk"
  shows "\<exists>st'. rw_loop flr cap budget (length dn) ps st = Ok st'"
  using assms
proof (induction ps arbitrary: dn fs st)
  case Nil
  then show ?case by simp
next
  case (Cons p ps)
  have "0 \<le> sum_list (map pe_sats ps)" using Cons.prems(2) by (intro sum_list_nonneg_int) auto
  then have sum1: "sum_list (map pe_sats (dn @ [p])) < 2 ^ 63" using Cons.prems(3) by simp
  obtain st1 where s: "rw_step flr cap budget (length dn) p st = Ok st1"
    using rw_step_succeeds [OF Cons.prems(1) _ sum1] Cons.prems(2,4) by auto
  obtain f where "rw_inv flr cap budget (dn @ [p]) (fs @ [f]) st1"
    using rw_step_inv [OF Cons.prems(1) s] by blast
  from Cons.IH [OF this] Cons.prems(2,3,4) s show ?case by simp
qed

lemma rw_loop_pays_mono: "rw_loop flr cap budget k ps st = Ok st' \<Longrightarrow> length (rw_out st) \<le> length (rw_out st')"
proof (induction ps arbitrary: k st)
  case Nil
  then show ?case by simp
next
  case (Cons p ps)
  then obtain st1 where s: "rw_step flr cap budget k p st = Ok st1" "rw_loop flr cap budget (k + 1) ps st1 = Ok st'"
    by (auto simp: bindR_Ok_iff)
  then have "length (rw_out st) \<le> length (rw_out st1)"
    by (auto simp: rw_defs bindR_Ok_iff Let_def split: if_splits)
  with Cons.IH [OF s(2)] show ?case by simp
qed

lemma rw_loop_pays_someone:
  assumes "rw_loop flr cap budget k ps st = Ok st'" and "rw_bytes st = 0 \<or> rw_out st \<noteq> []" and "2 \<le> cap"
    and p: "p \<in> set ps" "flr \<le> pe_sats p"
    and spk: "coinbase_address_to_script (the (pe_address p)) 64 = Ok spk" "out_ser_size (length spk) \<le> budget"
  shows "rw_out st' \<noteq> []"
  using assms(1,2) p(1)
proof (induction ps arbitrary: k st)
  case Nil
  then show ?case by simp
next
  case (Cons q ps)
  then obtain st1 where s: "rw_step flr cap budget k q st = Ok st1" "rw_loop flr cap budget (k + 1) ps st1 = Ok st'"
    by (auto simp: bindR_Ok_iff)
  show ?case
  proof (cases "rw_out st1 = []")
    case False
    then show ?thesis using rw_loop_pays_mono [OF s(2)] by auto
  next
    case True
    have e: "rw_out st = []" and b: "rw_bytes st1 = rw_bytes st"
      using s(1) True by (auto simp: rw_defs bindR_Ok_iff Let_def split: if_splits)
    then have z: "rw_bytes st = 0" using Cons.prems(2) by simp
    have "q \<noteq> p"
    proof
      assume "q = p"
      then show False using s(1) True e z assms(3) p(2) spk by (auto simp: rw_defs bindR_Ok_iff Let_def split: if_splits)
    qed
    then show ?thesis using Cons.IH [OF s(2)] z b Cons.prems(3) by simp
  qed
qed

section \<open>The resolver succeeds whenever somebody can be paid\<close>

lemma sum_claims_succeeds:
  assumes "0 \<le> c" and "c + sum_list (map pe_sats ps) < 2 ^ 63"
    and "\<forall>p \<in> set ps. 0 \<le> pe_sats p \<and> c_nonempty (pe_address p)"
  shows "sum_claims ps c = Ok (c + sum_list (map pe_sats ps))"
  using assms
proof (induction ps arbitrary: c)
  case Nil
  then show ?case by simp
next
  case (Cons p ps)
  have "0 \<le> sum_list (map pe_sats ps)" using Cons.prems by (intro sum_list_nonneg_int) auto
  then have "i64_ok (c + pe_sats p)" using Cons.prems unfolding i64_ok_def by simp
  then show ?case using Cons by simp
qed

text \<open>What a caller has to get right for the window to be payable.\<close>

definition window_payable ::
  "int \<Rightarrow> coinbase_payee list \<Rightarrow> byte list option \<Rightarrow> int \<Rightarrow> int \<Rightarrow> nat \<Rightarrow> bool" where
  "window_payable v payees spk fee flr budget \<longleftrightarrow>
     0 < v \<and> v \<le> 2 ^ 42 \<and> sum_list (map pe_sats payees) = v - fee \<and>
     (\<forall>p \<in> set payees. 0 \<le> pe_sats p \<and> c_nonempty (pe_address p) \<and>
        (payout_floor flr \<le> pe_sats p \<longrightarrow> is_Ok (coinbase_address_to_script (the (pe_address p)) 64))) \<and>
     (\<exists>p \<in> set payees. payout_floor flr \<le> pe_sats p \<and>
        (case coinbase_address_to_script (the (pe_address p)) 64 of
           Ok s \<Rightarrow> out_ser_size (length s) \<le> budget | _ \<Rightarrow> False))"

lemma payout_floor_pos: "COINBASE_DUST_SATS \<le> payout_floor flr" "0 < payout_floor flr"
  by (simp_all add: payout_floor_def COINBASE_DUST_SATS_def)

lemma resolve_window_total:
  assumes fee: "window_fee v op bps = Ok (spk, fee)"
    and w: "window_payable v payees spk fee flr (window_budget maxb fixed)"
    and cap: "2 \<le> cap" "cap \<le> 2 ^ 20"
  obtains outs r st where "resolve_window_outputs v payees op bps maxb fixed flr cap = Ok (outs, r)"
    and "rw_loop (payout_floor flr) cap (window_budget maxb fixed) 0 payees rw_start = Ok st"
    and "\<exists>ops. outs = take (length (rw_out st)) outs @ ops \<and>
      list_all2 (\<lambda>c c'. ro_sats c \<le> ro_sats c') (rw_out st) (take (length (rw_out st)) outs)"
proof -
  let ?flr = "payout_floor flr" and ?B = "window_budget maxb fixed"
  have v: "0 < v" "v \<le> 2 ^ 42" and sum: "sum_list (map pe_sats payees) = v - fee"
    and nn: "\<forall>p \<in> set payees. 0 \<le> pe_sats p \<and> c_nonempty (pe_address p)"
    using w by (auto simp: window_payable_def)
  note f = window_fee_Ok [OF fee v(1)]
  obtain p where p: "p \<in> set payees" "?flr \<le> pe_sats p"
    and "case coinbase_address_to_script (the (pe_address p)) 64 of Ok s \<Rightarrow> out_ser_size (length s) \<le> ?B | _ \<Rightarrow> False"
    using w unfolding window_payable_def by blast
  then obtain s where s: "coinbase_address_to_script (the (pe_address p)) 64 = Ok s" "out_ser_size (length s) \<le> ?B"
    by (cases "coinbase_address_to_script (the (pe_address p)) 64") simp_all
  have pv: "pe_sats p \<le> v - fee"
    using member_le_sum_list_int [of "pe_sats p" "map pe_sats payees"] p(1) nn sum by auto
  have claims: "sum_claims payees 0 = Ok (v - fee)"
    using sum_claims_succeeds [of 0 payees] sum v f nn by simp
  have init: "rw_inv ?flr cap ?B [] [] rw_start"
    using cap unfolding rw_start_def by (intro rw_inv_init) simp
  obtain st where st: "rw_loop ?flr cap ?B 0 payees rw_start = Ok st"
    using rw_loop_succeeds [OF init, of payees] nn sum v f w by (auto simp: window_payable_def is_Ok_iff)
  obtain fs where inv: "rw_inv ?flr cap ?B payees fs st" using rw_loop_inv [OF init, of payees st] st by auto
  have ne: "rw_out st \<noteq> []"
    using rw_loop_pays_someone [OF st _ cap(1) p s] by (simp add: rw_start_def)
  have paid: "list_all2 (pays ?flr) (rw_out st) (paid_of fs payees)" using inv by (simp add: rw_inv_def)
  have big: "?flr \<le> ro_sats c" if "c \<in> set (rw_out st)" for c
    using that paid by (auto simp: list_all2_conv_all_nth in_set_conv_nth pays_def)
  have o0: "0 < outs_sats (rw_out st)"
  proof -
    obtain c cs where cs: "rw_out st = c # cs" using ne by (cases "rw_out st") auto
    have "0 \<le> sum_list (map ro_sats cs)" using big payout_floor_pos(2) [of flr] cs by (intro sum_list_nonneg_int) fastforce
    then show ?thesis using big [of c] payout_floor_pos(2) [of flr] cs by (simp add: outs_sats_def)
  qed
  have dr: "rw_dropped st + outs_sats (rw_out st) = v - fee" and ps: "wr_paid_sats (rw_res st) = outs_sats (rw_out st)"
    and cnt: "wr_paid_count (rw_res st) \<noteq> 0" and len: "length (rw_out st) < cap"
    using inv sum ne by (auto simp: rw_inv_def)
  have "\<exists>miners r0. (if rw_dropped st > 0
               then bindR (redistribute (v - fee) (wr_paid_sats (rw_res st)) (rw_out st)) (\<lambda>outs.
                      Ok (outs, (rw_res st)\<lparr>wr_redistributed_sats := rw_dropped st, wr_paid_sats := v - fee\<rparr>))
               else Ok (rw_out st, rw_res st)) = Ok (miners, r0) \<and>
      list_all2 (\<lambda>c c'. ro_sats c \<le> ro_sats c') (rw_out st) miners"
  proof (cases "rw_dropped st > 0")
    case False
    then show ?thesis by (auto simp: list_all2_same)
  next
    case True
    have nnc: "0 \<le> ro_sats c" if "c \<in> set (rw_out st)" for c
      using big [OF that] payout_floor_pos(2) [of flr] by simp
    have "\<exists>cs'. redistribute (v - fee) (outs_sats (rw_out st)) (rw_out st) = Ok cs' \<and>
        list_all2 (\<lambda>c c'. ro_sats c \<le> ro_sats c') (rw_out st) cs'"
      using True dr v f o0 ne len cap nnc by (intro redistribute_succeeds) auto
    then show ?thesis using True ps by auto
  qed
  then obtain miners r0 where m: "(if rw_dropped st > 0
               then bindR (redistribute (v - fee) (wr_paid_sats (rw_res st)) (rw_out st)) (\<lambda>outs.
                      Ok (outs, (rw_res st)\<lparr>wr_redistributed_sats := rw_dropped st, wr_paid_sats := v - fee\<rparr>))
               else Ok (rw_out st, rw_res st)) = Ok (miners, r0)"
      "list_all2 (\<lambda>c c'. ro_sats c \<le> ro_sats c') (rw_out st) miners" by blast
  have lm: "length miners = length (rw_out st)" using m(2) by (simp add: list_all2_lengthD)
  have app: "append_operator op cap spk fee miners =
      Ok (miners @ (case spk of None \<Rightarrow> [] | Some s \<Rightarrow> [\<lparr>ro_spk = s, ro_sats = fee\<rparr>]))"
    using f len lm by (cases spk) (auto simp: append_operator_def)
  have b: "(if (if maxb = 0 then COINBASE_DEFAULT_MAX_BYTES else maxb) > fixed
       then (if maxb = 0 then COINBASE_DEFAULT_MAX_BYTES else maxb) - fixed else 0) = ?B"
    by (simp add: window_budget_def)
  have ok: "i64_ok (v - fee)" using pv p(2) payout_floor_pos(2) [of flr] v f by (simp add: i64_ok_def)
  have "resolve_window_outputs v payees op bps maxb fixed flr cap =
      Ok (miners @ (case spk of None \<Rightarrow> [] | Some s \<Rightarrow> [\<lparr>ro_spk = s, ro_sats = fee\<rparr>]), r0\<lparr>wr_fee_sats := fee\<rparr>)"
    unfolding resolve_window_outputs_def Let_def b rw_start_def [symmetric]
    using cap p(1) v ok by (auto simp: fee claims st cnt m(1) app)
  then show ?thesis by (rule that [OF _ st]) (use lm m(2) in auto)
qed

section \<open>The built transactions\<close>

definition outs_ser :: "cb_repl_out list \<Rightarrow> byte list" where
  "outs_ser cs = concat (map (\<lambda>c. out_bytes (ro_sats c) (ro_spk c)) cs)"

definition wc_ser :: "byte list option \<Rightarrow> byte list" where
  "wc_ser wc = (case wc of None \<Rightarrow> [] | Some b \<Rightarrow> out_bytes 0 b)"

lemma push_repl_Ok:
  "push_repl cs b e = Ok (b', e') \<Longrightarrow> bb_data b' = bb_data b @ outs_ser cs \<and> e' = e + outs_sats cs"
  by (induction cs arbitrary: b e) (fastforce simp: bindR_Ok_iff outs_ser_def outs_sats_def)+

lemma push_repl_succeeds:
  assumes "\<forall>c \<in> set cs. 0 \<le> ro_sats c" and "0 \<le> e" and "e + outs_sats cs < 2 ^ 63"
  shows "\<exists>b' e'. push_repl cs b e = Ok (b', e')"
  using assms
proof (induction cs arbitrary: b e)
  case Nil
  then show ?case by simp
next
  case (Cons c cs)
  have "0 \<le> outs_sats cs" unfolding outs_sats_def using Cons.prems by (intro sum_list_nonneg_int) auto
  then have "i64_ok (e + ro_sats c)" using Cons.prems unfolding i64_ok_def outs_sats_def by simp
  then show ?case using Cons by (simp add: outs_sats_def)
qed

lemma length_outs_ser:
  "(\<And>c. c \<in> set cs \<Longrightarrow> length (ro_spk c) \<le> 34) \<Longrightarrow> length (outs_ser cs) = outs_bytes cs"
proof (induction cs)
  case Nil
  then show ?case by (simp add: outs_ser_def outs_bytes_def)
next
  case (Cons c cs)
  have "length (ro_spk c) < 2 ^ 32" using Cons.prems [of c] by simp
  then show ?case using Cons by (simp add: outs_ser_def outs_bytes_def length_out_bytes)
qed

lemma decode_witness_commitment_Ok:
  assumes "decode_witness_commitment wc = Ok b"
  shows "(b = None \<longleftrightarrow> \<not> c_nonempty wc) \<and>
    (\<forall>x. b = Some x \<longrightarrow> hex_decode (the wc) 256 = Some x \<and> length (the wc) = 2 * length x \<and> length x \<le> 256 \<and> x \<noteq> [])"
proof (cases "c_nonempty wc")
  case False
  then show ?thesis using assms by (auto simp: decode_witness_commitment_def)
next
  case True
  then obtain x where x: "hex_decode (the wc) 256 = Some x" "b = Some x"
    using assms by (auto simp: decode_witness_commitment_def split: option.splits)
  have "the wc \<noteq> []" using True by (cases wc) auto
  then show ?thesis using x True hex_decode_length [OF x(1)] by auto
qed

text \<open>The scriptSig length a builder accepts, and the bytes before and after the extranonces.\<close>

definition script_sig_len :: "u32 \<Rightarrow> string option \<Rightarrow> u32 \<Rightarrow> nat \<Rightarrow> nat \<Rightarrow> nat" where
  "script_sig_len height tag salt en1 en2 =
     length (bip34_height_push height) + length (cb_tag_push tag salt) + (en1 + en2)"

definition cb1_bytes :: "u32 \<Rightarrow> u32 \<Rightarrow> string option \<Rightarrow> u32 \<Rightarrow> nat \<Rightarrow> nat \<Rightarrow> byte list" where
  "cb1_bytes version height tag salt en1 en2 =
     le_bytes 4 version @ [1] @ replicate 32 0 @ [0xff, 0xff, 0xff, 0xff] @
     [word_of_nat (script_sig_len height tag salt en1 en2)] @ bip34_height_push height @ cb_tag_push tag salt"

definition cb2_bytes :: "nat \<Rightarrow> byte list \<Rightarrow> byte list" where
  "cb2_bytes n outs = [0xff, 0xff, 0xff, 0xff] @ varint_bytes (word_of_nat n) @ outs @ [0, 0, 0, 0]"

lemma varint_small: "n < 253 \<Longrightarrow> varint_bytes (word_of_nat n) = [word_of_nat n]"
  by (simp add: varint_bytes_cases word_less_nat_alt unsigned_of_nat take_bit_nat_eq_self)

lemma le_bytes_all_ones: "le_bytes 4 (0xffffffff :: u32) = [0xff, 0xff, 0xff, 0xff]"
  by code_simp

lemma le_bytes_zero4: "le_bytes 4 (0 :: u32) = [0, 0, 0, 0]"
  by code_simp

lemma build_cb1_bytes:
  "script_sig_len height tag salt en1 en2 \<le> 100 \<Longrightarrow>
   bb_data (build_cb1 version (script_sig_len height tag salt en1 en2) (bip34_height_push height) (cb_tag_push tag salt)) =
     cb1_bytes version height tag salt en1 en2"
  using varint_small [of 1] by (simp add: bb_data_build_cb1 cb1_bytes_def varint_small le_bytes_all_ones)

lemma build_cb2_bytes: "bb_data (build_cb2 (word_of_nat n) outs) = cb2_bytes n (bb_data outs)"
  by (simp add: bb_data_build_cb2 cb2_bytes_def le_bytes_all_ones le_bytes_zero4)

lemma coinbase_build_window_Ok:
  assumes "coinbase_build_window height v payees op bps wc tag salt en1 en2 maxb flr = Ok (parts, r)"
  obtains fs miners ops wcb where
    "window_resolved v payees op bps (window_budget maxb (window_fixed_bytes height op wc tag salt en1 en2))
       CB_MAX_REPL_OUTS fs miners ops r"
    and "outs_sats (miners @ ops) = v"
    and "decode_witness_commitment wc = Ok wcb"
    and "script_sig_len height tag salt en1 en2 \<in> {2..100}"
    and "cb1 parts = cb1_bytes 2 height tag salt en1 en2"
    and "cb2 parts = cb2_bytes (length (miners @ ops) + (if wcb = None then 0 else 1))
           (outs_ser (miners @ ops) @ wc_ser wcb)"
    and "\<forall>p \<in> set (paid_of fs payees). payout_floor flr \<le> pe_sats p"
    and "wr_dropped_below_floor r = length (filter (\<lambda>p. pe_sats p < payout_floor flr) payees)"
proof -
  let ?fixed = "window_fixed_bytes height op wc tag salt en1 en2"
  obtain repl outs em wcb where R: "resolve_window_outputs v payees op bps maxb ?fixed flr CB_MAX_REPL_OUTS = Ok (repl, r)"
    and p: "push_repl repl bbuf_init 0 = Ok (outs, em)" and w: "decode_witness_commitment wc = Ok wcb"
    and em: "em = v" and ss: "2 \<le> script_sig_len height tag salt en1 en2" "script_sig_len height tag salt en1 en2 \<le> 100"
    and parts: "parts = \<lparr>cb1 = bb_data (build_cb1 2 (script_sig_len height tag salt en1 en2) (bip34_height_push height) (cb_tag_push tag salt)),
       cb2 = bb_data (build_cb2 (word_of_nat (length repl) + (if wcb = None then 0 else 1))
         (case wcb of None \<Rightarrow> outs | Some b \<Rightarrow> push_output outs 0 b))\<rparr>"
    using assms unfolding coinbase_build_window_def Let_def script_sig_len_def [symmetric]
    by (auto simp: bindR_Ok_iff not_less)
  obtain fs miners ops where mo: "repl = miners @ ops"
    and res: "window_resolved v payees op bps (window_budget maxb ?fixed) CB_MAX_REPL_OUTS fs miners ops r"
    and fl: "\<forall>p \<in> set (paid_of fs payees). payout_floor flr \<le> pe_sats p" "wr_dropped_below_floor r = length (filter (\<lambda>p. pe_sats p < payout_floor flr) payees)"
    by (rule resolve_window_Ok [OF R])
  note pr = push_repl_Ok [OF p]
  have n: "word_of_nat (length repl) + (if wcb = None then 0 else 1) = (word_of_nat (length repl + (if wcb = None then 0 else 1)) :: u64)"
    by simp
  have o: "bb_data (case wcb of None \<Rightarrow> outs | Some b \<Rightarrow> push_output outs 0 b) = outs_ser repl @ wc_ser wcb"
    using pr by (simp add: wc_ser_def split: option.splits)
  show ?thesis
  proof (rule that [OF res _ w _ _ _ fl])
    show "outs_sats (miners @ ops) = v" using pr em mo by simp
    show "script_sig_len height tag salt en1 en2 \<in> {2..100}" using ss by simp
    show "cb1 parts = cb1_bytes 2 height tag salt en1 en2" by (simp add: parts build_cb1_bytes ss)
    show "cb2 parts = cb2_bytes (length (miners @ ops) + (if wcb = None then 0 else 1)) (outs_ser (miners @ ops) @ wc_ser wcb)"
      unfolding parts n by (simp only: coinbase_parts.simps build_cb2_bytes o mo)
  qed
qed

lemma window_resolved_spk_length:
  assumes "window_resolved v payees op bps budget cap fs miners ops r" and "c \<in> set (miners @ ops)"
  shows "length (ro_spk c) \<le> 34"
proof -
  have "\<exists>a. coinbase_address_to_script a 64 = Ok (ro_spk c)"
    using assms by (auto simp: window_resolved_def list_all2_conv_all_nth in_set_conv_nth split: if_splits)
  then show ?thesis using address_to_script_payout(1) payout_script_length by blast
qed

lemma coinbase_build_window_size:
  assumes "coinbase_build_window height v payees op bps wc tag salt en1 en2 maxb flr = Ok (parts, r)"
  shows "length (cb1 parts) + en1 + en2 + length (cb2 parts) \<le> (if maxb = 0 then COINBASE_DEFAULT_MAX_BYTES else maxb)"
  using assms
proof (rule coinbase_build_window_Ok)
  let ?fixed = "window_fixed_bytes height op wc tag salt en1 en2" and ?ss = "script_sig_len height tag salt en1 en2"
  fix fs miners ops wcb
  assume res: "window_resolved v payees op bps (window_budget maxb ?fixed) CB_MAX_REPL_OUTS fs miners ops r"
    and w: "decode_witness_commitment wc = Ok wcb" and ss: "?ss \<in> {2..100}"
    and c1: "cb1 parts = cb1_bytes 2 height tag salt en1 en2"
    and c2: "cb2 parts = cb2_bytes (length (miners @ ops) + (if wcb = None then 0 else 1)) (outs_ser (miners @ ops) @ wc_ser wcb)"
  have ob: "outs_bytes miners \<le> window_budget maxb ?fixed" and ne: "miners \<noteq> []" and lm: "length miners < CB_MAX_REPL_OUTS"
    and lo: "length ops \<le> 1" and opn: "ops \<noteq> [] \<Longrightarrow> c_nonempty op"
    using res by (auto simp: window_resolved_def split: if_splits)
  have spk: "length (ro_spk c) \<le> 34" if "c \<in> set miners \<union> set ops" for c
    using window_resolved_spk_length [OF res] that by simp
  have "length (outs_ser (miners @ ops)) = outs_bytes (miners @ ops)"
    using spk by (intro length_outs_ser) auto
  moreover have "outs_bytes (miners @ ops) = outs_bytes miners + outs_bytes ops" by (simp add: outs_bytes_def)
  moreover have "outs_bytes ops \<le> (if c_nonempty op then out_ser_size 34 else 0)"
    using lo opn spk by (cases ops) (auto simp: outs_bytes_def intro: out_ser_size_mono)
  moreover have "length (wc_ser wcb) = (if c_nonempty wc \<and> length (the wc) div 2 \<noteq> 0 then out_ser_size (length (the wc) div 2) else 0)"
    using decode_witness_commitment_Ok [OF w] by (cases wcb) (auto simp: wc_ser_def length_out_bytes)
  ultimately have outs: "length (outs_ser (miners @ ops) @ wc_ser wcb) \<le> outs_bytes miners +
      (if c_nonempty op then out_ser_size 34 else 0) +
      (if c_nonempty wc \<and> length (the wc) div 2 \<noteq> 0 then out_ser_size (length (the wc) div 2) else 0)" by simp
  have ssp: "length (bip34_height_push height) + cb_tag_push_len tag salt + en1 + en2 = ?ss"
    by (simp add: script_sig_len_def length_cb_tag_push)
  have fx: "?fixed = 53 + ?ss + (if c_nonempty wc \<and> length (the wc) div 2 \<noteq> 0 then out_ser_size (length (the wc) div 2) else 0)
      + (if c_nonempty op then out_ser_size 34 else 0)"
    using ss unfolding window_fixed_bytes_def Let_def ssp by simp
  have "0 < outs_bytes miners" using ne by (cases miners) (auto simp: outs_bytes_def out_ser_size_def)
  then have bud: "?fixed + outs_bytes miners \<le> (if maxb = 0 then COINBASE_DEFAULT_MAX_BYTES else maxb)"
    using ob by (auto simp: window_budget_def split: if_splits)
  have n: "length (miners @ ops) + (if wcb = None then 0 else 1) < 253"
    using lm lo by (simp add: CB_MAX_REPL_OUTS_def COINBASE_MAX_PAYOUT_OUTPUTS_def)
  have l1: "length (cb1 parts) + en1 + en2 = 42 + ?ss"
    unfolding c1 by (simp add: cb1_bytes_def script_sig_len_def)
  have l2: "length (cb2 parts) = 9 + length (outs_ser (miners @ ops) @ wc_ser wcb)"
    unfolding c2 cb2_bytes_def varint_small [OF n] by simp
  show ?thesis using l1 l2 outs fx bud by linarith
qed

lemma split_fee_Ok:
  assumes "split_fee v op bps = Ok (spk, fee)"
  shows "0 \<le> fee \<and> (fee = 0 \<longleftrightarrow> spk = None) \<and>
    (\<forall>s. spk = Some s \<longrightarrow> 0 < v \<and> 0 < bps \<and> c_nonempty op \<and> coinbase_address_to_script (the op) 64 = Ok s \<and>
       fee = v * bps div 10000 \<and> COINBASE_DUST_SATS \<le> fee)"
  using assms by (auto simp: split_fee_def fee_cut_def bindR_Ok_iff sdiv_nonneg COINBASE_DUST_SATS_def split: if_splits)

text \<open>The same fee, whichever builder computes it.\<close>

lemma split_fee_window_fee: "0 < v \<Longrightarrow> split_fee v op bps = window_fee v op bps"
  by (simp add: split_fee_def window_fee_def)

lemma resolve_window_pays_claims:
  assumes fee: "window_fee v op bps = Ok (spk, fee)"
    and w: "window_payable v payees spk fee flr (window_budget maxb fixed)"
  shows "\<exists>fs miners ops r.
    resolve_window_outputs v payees op bps maxb fixed flr CB_MAX_REPL_OUTS = Ok (miners @ ops, r) \<and>
    window_resolved v payees op bps (window_budget maxb fixed) CB_MAX_REPL_OUTS fs miners ops r \<and>
    list_all2 (\<lambda>c p. pe_sats p \<le> ro_sats c \<and> payout_floor flr \<le> ro_sats c) miners (paid_of fs payees)"
proof -
  let ?B = "window_budget maxb fixed"
  have cap: "2 \<le> CB_MAX_REPL_OUTS" "CB_MAX_REPL_OUTS \<le> 2 ^ 20"
    by (simp_all add: CB_MAX_REPL_OUTS_def COINBASE_MAX_PAYOUT_OUTPUTS_def)
  obtain outs r st where R: "resolve_window_outputs v payees op bps maxb fixed flr CB_MAX_REPL_OUTS = Ok (outs, r)"
    and st: "rw_loop (payout_floor flr) CB_MAX_REPL_OUTS ?B 0 payees rw_start = Ok st"
    and up: "list_all2 (\<lambda>c c'. ro_sats c \<le> ro_sats c') (rw_out st) (take (length (rw_out st)) outs)"
    using resolve_window_total [OF fee w cap] by metis
  obtain fs miners ops where mo: "outs = miners @ ops"
    and res: "window_resolved v payees op bps ?B CB_MAX_REPL_OUTS fs miners ops r"
    and inv: "rw_inv (payout_floor flr) CB_MAX_REPL_OUTS ?B payees fs st"
    using resolve_window_inv [OF R st] by blast
  have len: "length (rw_out st) = length miners"
    using inv res by (auto simp: rw_inv_def window_resolved_def dest!: list_all2_lengthD)
  have "list_all2 (\<lambda>c p. pe_sats p \<le> ro_sats c \<and> payout_floor flr \<le> ro_sats c) miners (paid_of fs payees)"
    using up inv len unfolding mo rw_inv_def
    by (auto simp: list_all2_conv_all_nth pays_def) (meson order_trans)
  then show ?thesis using R res mo by blast
qed

lemma resolve_window_fee:
  assumes "resolve_window_outputs v payees op bps maxb fixed flr cap = Ok (outs, r)"
    and "window_fee v op bps = Ok (spk, fee)"
  shows "wr_fee_sats r = fee"
  using assms(1) by (rule resolve_stages) (use assms(2) in auto)

lemma redistribute_nonneg:
  assumes "redistribute P T cs = Ok cs'" and "0 \<le> P" and "0 \<le> T" and "\<forall>c \<in> set cs. 0 \<le> ro_sats c"
  shows "\<forall>c \<in> set cs'. 0 \<le> ro_sats c"
proof -
  obtain outs a where s: "scale_outs P T cs 0 = Ok (outs, a)"
    and r: "if a < P then add_sats_at (big_index outs) (P - a) outs = Ok cs' else outs = cs'"
    using assms(1) by (auto simp: redistribute_def bindR_Ok_iff split: if_splits)
  have "list_all2 (\<lambda>c c'. prop_share P (d_of_int (ro_sats c)) (d_of_int T) = Ok (ro_sats c')) cs outs"
    using scale_outs_Ok [OF s] by simp
  then have nn: "\<forall>c \<in> set outs. 0 \<le> ro_sats c" using assms(4)
  proof (induction rule: list_all2_induct)
    case (Cons c cs c' cs')
    have "0 \<le> ro_sats c'"
      by (rule prop_share_nonneg [OF assms(2) d_nonneg_of_int d_nonneg_of_int Cons.hyps(1)]) (use Cons.prems assms(3) in auto)
    then show ?case using Cons by simp
  qed simp
  have "0 \<le> ro_sats (outs ! i)" if "i < length outs" for i using nn that by simp
  then show ?thesis
  proof (cases "a < P")
    case True
    then have eq: "cs' = outs[big_index outs := (outs ! big_index outs)\<lparr>ro_sats := ro_sats (outs ! big_index outs) + (P - a)\<rparr>]"
      using r by (auto simp: add_sats_at_def bindR_Ok_iff)
    show ?thesis
    proof (cases "outs = []")
      case False
      then have "0 \<le> ro_sats (outs ! big_index outs)" using nn big_index_bound [of outs] by simp
      then show ?thesis using eq nn True set_update_subset_insert [of outs "big_index outs"] by fastforce
    qed (simp add: eq)
  qed (use nn r in simp)
qed

lemma resolve_window_nonneg:
  assumes "resolve_window_outputs v payees op bps maxb fixed flr cap = Ok (outs, r)"
  shows "outs \<noteq> [] \<and> outs_sats outs = v \<and> (\<forall>c \<in> set outs. 0 \<le> ro_sats c)"
proof -
  obtain fs miners ops st where o: "outs = miners @ ops"
    and w: "window_resolved v payees op bps (window_budget maxb fixed) cap fs miners ops r"
    and st: "rw_loop (payout_floor flr) cap (window_budget maxb fixed) 0 payees rw_start = Ok st"
    and inv: "rw_inv (payout_floor flr) cap (window_budget maxb fixed) payees fs st"
    using resolve_window_cases [OF assms] by metis
  have sum: "outs \<noteq> [] \<and> outs_sats outs = v" using w o by (auto simp: window_resolved_def outs_sats_def split: if_splits)
  have pos: "\<forall>c \<in> set (rw_out st). 0 \<le> ro_sats c"
    using inv payout_floor_pos [of flr]
    by (fastforce simp: rw_inv_def pays_def list_all2_conv_all_nth in_set_conv_nth)
  then have tot: "0 \<le> outs_sats (rw_out st)" unfolding outs_sats_def by (intro sum_list_nonneg_int) auto
  from assms have "\<forall>c \<in> set outs. 0 \<le> ro_sats c"
  proof (rule resolve_stages)
    fix spk fee st' miners' r0
    assume v: "0 < v" and fee: "window_fee v op bps = Ok (spk, fee)" and claims: "sum_claims payees 0 = Ok (v - fee)"
      and loop: "rw_loop (payout_floor flr) cap (window_budget maxb fixed) 0 payees rw_start = Ok st'"
      and red: "if rw_dropped st' > 0
       then redistribute (v - fee) (wr_paid_sats (rw_res st')) (rw_out st') = Ok miners' \<and>
         r0 = (rw_res st')\<lparr>wr_redistributed_sats := rw_dropped st', wr_paid_sats := v - fee\<rparr>
       else miners' = rw_out st' \<and> r0 = rw_res st'"
      and app: "append_operator op cap spk fee miners' = Ok outs"
    have [simp]: "st' = st" using loop st by simp
    have fp: "0 \<le> v - fee" using sum_claims_Ok [OF claims] by (auto intro!: sum_list_nonneg_int)
    have "wr_paid_sats (rw_res st) = outs_sats (rw_out st)" using inv by (simp add: rw_inv_def)
    then have "\<forall>c \<in> set miners'. 0 \<le> ro_sats c"
      using red redistribute_nonneg [OF _ fp _ pos] pos tot by (auto split: if_splits)
    then show ?thesis using app window_fee_Ok [OF fee v] by (auto simp: append_operator_def bindR_Ok_iff split: option.splits if_splits)
  qed
  with sum show ?thesis by simp
qed

section \<open>Properties\<close>

text \<open>Two example coinbases: a fee split and a window of two claims, paid to one address.\<close>

definition example_addr :: string where
  "example_addr = ''bc1qw508d6qejxtdg4y5r3zarvary0c5xw7kv8f3t4''"

definition example_payees :: "coinbase_payee list" where
  "example_payees = [\<lparr>pe_address = Some example_addr, pe_sats = 200000000\<rparr>,
     \<lparr>pe_address = Some example_addr, pe_sats = 112500000\<rparr>]"

lemma example_addr_script: "\<exists>s. coinbase_address_to_script example_addr 64 = Ok s \<and> length s = 22"
  using segwit_example by (simp add: example_addr_def)

lemma example_height: "length (bip34_height_push 840000) = 4"
  by code_simp

lemma example_split:
  "\<exists>parts. coinbase_build_split 840000 312500000 (Some example_addr) (Some example_addr) 100 None
     (Some ''/simplepool/'') 7 4 8 = Ok (parts, 309375000, 3125000)"
proof -
  obtain s where "coinbase_address_to_script example_addr 64 = Ok s" using example_addr_script by blast
  then show ?thesis
    by (simp add: coinbase_build_split_def split_fee_def fee_cut_def decode_witness_commitment_def
        example_addr_def [symmetric] example_height cb_tag_push_def Let_def COINBASE_DUST_SATS_def
        i64_ok_def sdiv_nonneg) (simp add: example_addr_def)
qed

lemma example_window:
  "\<exists>parts r. coinbase_build_window 840000 312500000 example_payees None 0 None (Some ''/simplepool/'') 7 4 8 1000 1000 =
     Ok (parts, r) \<and> wr_redistributed_sats r = 0 \<and> wr_paid_count r = 2"
proof -
  obtain s where s: "coinbase_address_to_script example_addr 64 = Ok s" "length s = 22"
    using example_addr_script by blast
  have "c_nonempty (Some example_addr)" by (simp add: example_addr_def)
  with s show ?thesis
    by (simp add: coinbase_build_window_def resolve_window_outputs_def window_fee_def payout_floor_def
        example_payees_def rw_step_def window_result_zero_def out_ser_size_def window_fixed_bytes_def
        append_operator_def decode_witness_commitment_def example_height cb_tag_push_def cb_tag_push_len_def
        COINBASE_DUST_SATS_def CB_MAX_REPL_OUTS_def COINBASE_MAX_PAYOUT_OUTPUTS_def
        COINBASE_JOB_SALT_PUSH_BYTES_def i64_ok_def Let_def)
qed

text \<open>The fee-split builder: the miner's and the operator's amounts sum to the block value; the
  fee is either absent or at least dust and exactly \<open>value * fee_bps / 10000\<close>; the transaction
  serialises the miner's output, the operator's when there is a fee and the witness commitment
  last, in this order, behind a scriptSig of 2 to 100 bytes that starts with the height.\<close>

theorem coinbase_split_correct:
  assumes "coinbase_build_split height v (Some miner) op bps wc tag salt en1 en2 = Ok (parts, m, fee)"
  shows "m + fee = v \<and> 0 \<le> fee \<and>
    (fee \<noteq> 0 \<longrightarrow> c_nonempty op \<and> fee = v * bps div 10000 \<and> COINBASE_DUST_SATS \<le> fee) \<and>
    script_sig_len height tag salt en1 en2 \<in> {2..100} \<and>
    cb1 parts = cb1_bytes 1 height tag salt en1 en2 \<and>
    (\<exists>mspk outs wcb. coinbase_address_to_script miner 64 = Ok mspk \<and>
       decode_witness_commitment wc = Ok wcb \<and>
       outs = \<lparr>ro_spk = mspk, ro_sats = m\<rparr> #
         (if fee = 0 then [] else [\<lparr>ro_spk = (case coinbase_address_to_script (the op) 64 of Ok s \<Rightarrow> s | _ \<Rightarrow> []), ro_sats = fee\<rparr>]) \<and>
       cb2 parts = cb2_bytes (length outs + (if wcb = None then 0 else 1)) (outs_ser outs @ wc_ser wcb))"
proof -
  obtain mspk spk wcb where ms: "coinbase_address_to_script miner 64 = Ok mspk"
    and f: "split_fee v op bps = Ok (spk, fee)" and w: "decode_witness_commitment wc = Ok wcb"
    and m: "(case spk of None \<Rightarrow> Ok v | Some _ \<Rightarrow> chk64 (v - fee)) = Ok m"
    and ss: "2 \<le> script_sig_len height tag salt en1 en2" "script_sig_len height tag salt en1 en2 \<le> 100"
    and parts: "parts = \<lparr>cb1 = bb_data (build_cb1 1 (script_sig_len height tag salt en1 en2) (bip34_height_push height) (cb_tag_push tag salt)),
       cb2 = bb_data (build_cb2 (1 + (if spk = None then 0 else 1) + (if wcb = None then 0 else 1))
        (case wcb of None \<Rightarrow> (case spk of None \<Rightarrow> push_output bbuf_init m mspk | Some s \<Rightarrow> push_output (push_output bbuf_init m mspk) fee s)
         | Some b \<Rightarrow> push_output (case spk of None \<Rightarrow> push_output bbuf_init m mspk | Some s \<Rightarrow> push_output (push_output bbuf_init m mspk) fee s) 0 b))\<rparr>"
    using assms unfolding coinbase_build_split_def Let_def script_sig_len_def [symmetric]
    by (auto simp: bindR_Ok_iff not_less)
  note fo = split_fee_Ok [OF f]
  define outs where "outs = \<lparr>ro_spk = mspk, ro_sats = m\<rparr> # (case spk of None \<Rightarrow> [] | Some s \<Rightarrow> [\<lparr>ro_spk = s, ro_sats = fee\<rparr>])"
  have n: "(1 + (if spk = None then 0 else 1) + (if wcb = None then 0 else 1) :: u64) =
      word_of_nat (length outs + (if wcb = None then 0 else 1))"
    by (cases spk) (auto simp: outs_def)
  have "m + fee = v" using m fo by (cases spk) auto
  moreover have "cb1 parts = cb1_bytes 1 height tag salt en1 en2" by (simp add: parts build_cb1_bytes ss)
  moreover have "cb2 parts = cb2_bytes (length outs + (if wcb = None then 0 else 1)) (outs_ser outs @ wc_ser wcb)"
    unfolding parts n coinbase_parts.simps build_cb2_bytes
    by (cases spk; cases wcb) (simp_all add: outs_def outs_ser_def wc_ser_def)
  moreover have "outs = \<lparr>ro_spk = mspk, ro_sats = m\<rparr> #
         (if fee = 0 then [] else [\<lparr>ro_spk = (case coinbase_address_to_script (the op) 64 of Ok s \<Rightarrow> s | _ \<Rightarrow> []), ro_sats = fee\<rparr>])"
    using fo by (cases spk) (auto simp: outs_def)
  ultimately show ?thesis using fo ss ms w by (cases spk) auto
qed

theorem coinbase_split_correct_witness:
  "\<exists>parts. coinbase_build_split 840000 312500000 (Some example_addr) (Some example_addr) 100 None
     (Some ''/simplepool/'') 7 4 8 = Ok (parts, 309375000, 3125000) \<and>
     309375000 + 3125000 = (312500000 :: int) \<and> cb1 parts = cb1_bytes 1 840000 (Some ''/simplepool/'') 7 4 8"
  using example_split coinbase_split_correct by metis

text \<open>C6. A window coinbase accounts for every satoshi. The outputs written are the paid payees, in
  the caller's order and each to the script of its own address, followed by the operator when
  there is a fee, and by the given witness commitment when there is one. Each paid payee clears the
  floor; it gets exactly its claim when nobody with a claim was dropped, and otherwise its truncated
  share of the payable amount by claim, with the remainder on the largest; the operator receives
  exactly the fee; together they sum to the block value. The paid flags and the counters describe
  exactly this selection.\<close>

theorem window_coinbase_conserves:
  assumes "coinbase_build_window height v payees op bps wc tag salt en1 en2 maxb flr = Ok (parts, r)"
  shows "\<exists>fs miners ops wcb.
    window_resolved v payees op bps (window_budget maxb (window_fixed_bytes height op wc tag salt en1 en2))
      CB_MAX_REPL_OUTS fs miners ops r \<and>
    paid_amounts (v - wr_fee_sats r) (map pe_sats (paid_of fs payees)) (wr_redistributed_sats r) (map ro_sats miners) \<and>
    (\<forall>p \<in> set (paid_of fs payees). payout_floor flr \<le> pe_sats p) \<and>
    wr_dropped_below_floor r = length (filter (\<lambda>p. pe_sats p < payout_floor flr) payees) \<and>
    outs_sats (miners @ ops) = v \<and> script_sig_len height tag salt en1 en2 \<in> {2..100} \<and>
    decode_witness_commitment wc = Ok wcb \<and>
    cb1 parts = cb1_bytes 2 height tag salt en1 en2 \<and>
    cb2 parts = cb2_bytes (length (miners @ ops) + (if wcb = None then 0 else 1))
      (outs_ser (miners @ ops) @ wc_ser wcb)"
  using assms
proof (rule coinbase_build_window_Ok)
  fix fs miners ops wcb
  assume w: "window_resolved v payees op bps (window_budget maxb (window_fixed_bytes height op wc tag salt en1 en2)) CB_MAX_REPL_OUTS fs miners ops r"
    and o: "outs_sats (miners @ ops) = v" "decode_witness_commitment wc = Ok wcb" "script_sig_len height tag salt en1 en2 \<in> {2..100}" "cb1 parts = cb1_bytes 2 height tag salt en1 en2"
      "cb2 parts = cb2_bytes (length (miners @ ops) + (if wcb = None then 0 else 1)) (outs_ser (miners @ ops) @ wc_ser wcb)"
      "\<forall>p \<in> set (paid_of fs payees). payout_floor flr \<le> pe_sats p" "wr_dropped_below_floor r = length (filter (\<lambda>p. pe_sats p < payout_floor flr) payees)"
  moreover have "paid_amounts (v - wr_fee_sats r) (map pe_sats (paid_of fs payees)) (wr_redistributed_sats r) (map ro_sats miners)"
    using w unfolding window_resolved_def by blast
  ultimately show ?thesis by blast
qed

theorem window_coinbase_conserves_witness:
  "\<exists>parts r fs miners ops. coinbase_build_window 840000 312500000 example_payees None 0 None (Some ''/simplepool/'') 7 4 8 1000 1000 =
     Ok (parts, r) \<and> cb2 parts = cb2_bytes (length (miners @ ops)) (outs_ser (miners @ ops) @ wc_ser None) \<and>
     window_resolved 312500000 example_payees None 0
       (window_budget 1000 (window_fixed_bytes 840000 None None (Some ''/simplepool/'') 7 4 8))
       CB_MAX_REPL_OUTS fs miners ops r \<and> map ro_sats miners = [200000000, 112500000]"
proof -
  obtain parts r where w: "coinbase_build_window 840000 312500000 example_payees None 0 None (Some ''/simplepool/'') 7 4 8 1000 1000 =
     Ok (parts, r)" "wr_redistributed_sats r = 0" "wr_paid_count r = 2" using example_window by blast
  from window_coinbase_conserves [OF w(1)] obtain fs miners ops wcb where c:
    "window_resolved 312500000 example_payees None 0 (window_budget 1000 (window_fixed_bytes 840000 None None (Some ''/simplepool/'') 7 4 8)) CB_MAX_REPL_OUTS fs miners ops r"
    "paid_amounts (312500000 - wr_fee_sats r) (map pe_sats (paid_of fs example_payees)) (wr_redistributed_sats r) (map ro_sats miners)"
    "decode_witness_commitment None = Ok wcb" "cb2 parts = cb2_bytes (length (miners @ ops) + (if wcb = None then 0 else 1)) (outs_ser (miners @ ops) @ wc_ser wcb)"
    by blast
  have "length (paid_of fs example_payees) = 2" using c(1) w(3) by (auto simp: window_resolved_def dest: list_all2_lengthD)
  moreover have "length fs = 2" using c(1) by (simp add: window_resolved_def example_payees_def)
  ultimately have "map pe_sats (paid_of fs example_payees) = [200000000, 112500000]"
    by (cases fs; cases "tl fs") (auto simp: paid_of_def example_payees_def split: if_splits)
  then have "map ro_sats miners = [200000000, 112500000]" using c(2) w(2) by (simp add: paid_amounts_def)
  moreover have "wcb = None" using c(3) by (simp add: decode_witness_commitment_def)
  ultimately show ?thesis using w(1) c(1,4) by (intro exI [of _ parts] exI [of _ r] exI [of _ fs] exI [of _ miners] exI [of _ ops] conjI) simp_all
qed

text \<open>The whole serialised window coinbase, extranonces included, never exceeds the byte
  ceiling it was given.\<close>

theorem window_coinbase_size:
  assumes "coinbase_build_window height v payees op bps wc tag salt en1 en2 maxb flr = Ok (parts, r)"
  shows "length (cb1 parts) + en1 + en2 + length (cb2 parts) \<le>
    (if maxb = 0 then COINBASE_DEFAULT_MAX_BYTES else maxb)"
  by (rule coinbase_build_window_size [OF assms])

theorem window_coinbase_size_witness:
  "\<exists>parts r. coinbase_build_window 840000 312500000 example_payees None 0 None (Some ''/simplepool/'') 7 4 8 1000 1000 =
     Ok (parts, r) \<and> length (cb1 parts) + 4 + 8 + length (cb2 parts) \<le> 1000"
proof -
  obtain parts r where "coinbase_build_window 840000 312500000 example_payees None 0 None (Some ''/simplepool/'') 7 4 8 1000 1000 =
     Ok (parts, r)" using example_window by blast
  with window_coinbase_size [OF this] show ?thesis by auto
qed

text \<open>C15. For a block value up to \<open>2^42\<close> satoshis, a window whose claims sum to the value minus the
  fee and in which one payee clears the floor and fits the byte budget is always resolved: the
  redistribution neither overflows nor overshoots, and no miner that is paid receives less
  than its claim, whatever was dropped around it.\<close>

theorem resolve_window_pays:
  assumes fee: "window_fee v op bps = Ok (spk, fee)"
    and w: "window_payable v payees spk fee flr (window_budget maxb fixed)"
  shows "\<exists>fs miners ops r.
    resolve_window_outputs v payees op bps maxb fixed flr CB_MAX_REPL_OUTS = Ok (miners @ ops, r) \<and>
    window_resolved v payees op bps (window_budget maxb fixed) CB_MAX_REPL_OUTS fs miners ops r \<and>
    list_all2 (\<lambda>c p. pe_sats p \<le> ro_sats c \<and> payout_floor flr \<le> ro_sats c) miners (paid_of fs payees)"
  by (rule resolve_window_pays_claims [OF assms])

text \<open>A window in which the floor drops the smaller claim.\<close>

theorem resolve_window_pays_witness:
  "\<exists>fs miners ops r.
    resolve_window_outputs 312500000 example_payees None 0 1000 100 200000000 CB_MAX_REPL_OUTS = Ok (miners @ ops, r) \<and>
    list_all2 (\<lambda>c p. pe_sats p \<le> ro_sats c \<and> payout_floor 200000000 \<le> ro_sats c) miners (paid_of fs example_payees)"
proof -
  obtain s where s: "coinbase_address_to_script example_addr 64 = Ok s" "length s = 22"
    using example_addr_script by blast
  have ne: "c_nonempty (Some example_addr)" by (simp add: example_addr_def)
  have "window_payable 312500000 example_payees None 0 200000000 (window_budget 1000 100)"
    using s ne by (simp add: window_payable_def example_payees_def payout_floor_def COINBASE_DUST_SATS_def
        window_budget_def out_ser_size_def)
  moreover have "window_fee 312500000 None 0 = Ok (None, 0)" by (simp add: window_fee_def)
  ultimately show ?thesis using resolve_window_pays by blast
qed

end
