(* ===== verification/Pplns.thy ===== *)
theory Pplns
  imports Coinbase "HOL-Library.Multiset"
begin

text \<open>
  The PPLNS split and the payment order (\<^verbatim>\<open>src/pplns.c\<close>): dividing a block reward over the
  claims of a window in proportion to difficulty, and choosing the order in which the coinbase
  pays them. The lemmas show that the split is exact, that it agrees with the fee rule of the
  builders, that it does not refuse a sound window, and that the order is a permutation whose
  reserved prefix holds only payable, owed claims.
\<close>

section \<open>Splitting\<close>

record pplns_claim =
  cl_address :: "string option"
  cl_difficulty :: double
  cl_worker_id :: int
  cl_owed :: double

record pplns_split =
  sp_fee :: int
  sp_payable :: int
  sp_below_floor :: nat

text \<open>The loop over the claims: one truncated share each, and their sum.\<close>

fun split_loop :: "int \<Rightarrow> double \<Rightarrow> pplns_claim list \<Rightarrow> int \<Rightarrow> (coinbase_payee list \<times> int) res" where
  "split_loop payable tot [] assigned = Ok ([], assigned)"
| "split_loop payable tot (c # cs) assigned =
     guardR (\<not> d_ge (cl_difficulty c) (Fin 0)) ''a claim has no difficulty''
    (bindR (prop_share payable (cl_difficulty c) tot) (\<lambda>sats.
     guardR (sats < 0) ''a claim divided to a negative amount''
    (bindR (chk64 (assigned + sats)) (\<lambda>a.
     bindR (split_loop payable tot cs a) (\<lambda>(ps, a').
       Ok (\<lparr>pe_address = cl_address c, pe_sats = sats\<rparr> # ps, a'))))))"

definition split_fee_rule :: "int \<Rightarrow> int \<Rightarrow> bool \<Rightarrow> int res" where
  "split_fee_rule reward fee_bps have_operator =
     (if have_operator \<and> fee_bps > 0 then
        bindR (fee_cut reward fee_bps) (\<lambda>f. Ok (if f \<ge> COINBASE_DUST_SATS then f else 0))
      else Ok 0)"

definition add_first :: "int \<Rightarrow> coinbase_payee list \<Rightarrow> coinbase_payee list res" where
  "add_first v ps =
     (case ps of [] \<Rightarrow> UB
      | p # rest \<Rightarrow> bindR (chk64 (pe_sats p + v)) (\<lambda>s. Ok (p\<lparr>pe_sats := s\<rparr> # rest)))"

definition pplns_split_window ::
  "int \<Rightarrow> int \<Rightarrow> bool \<Rightarrow> pplns_claim list \<Rightarrow> double \<Rightarrow> int \<Rightarrow> nat \<Rightarrow>
   (coinbase_payee list \<times> pplns_split) res" where
  "pplns_split_window reward fee_bps have_operator claims total_diff flr cap =
     guardR (claims = [] \<or> length claims > cap) ''no claims to split, or more than will fit''
    (guardR (\<not> d_gt total_diff (Fin 0)) ''window has no difficulty to divide by''
    (guardR (reward \<le> 0) ''the block pays nothing to divide''
    (bindR (split_fee_rule reward fee_bps have_operator) (\<lambda>fee.
     bindR (chk64 (reward - fee)) (\<lambda>payable.
     guardR (payable \<le> 0) ''nothing left after the operator fee''
    (bindR (split_loop payable total_diff claims 0) (\<lambda>(out, assigned).
     guardR (assigned > payable) ''claims exceed the window total they were divided by''
    (bindR (if assigned < payable then add_first (payable - assigned) out else Ok out) (\<lambda>out'.
       Ok (out', \<lparr>sp_fee = fee, sp_payable = payable,
         sp_below_floor = length (filter (\<lambda>p. pe_sats p < payout_floor flr) out')\<rparr>))))))))))"

section \<open>Payment order\<close>

type_synonym rank = "nat \<times> double"

text \<open>The \<open>qsort\<close> comparator: descending key, ties by original position.\<close>

fun rank_desc :: "rank \<Rightarrow> rank \<Rightarrow> int" where
  "rank_desc (i, k) (j, l) =
     (if d_lt k l then 1 else if d_gt k l then -1
      else if i < j then -1 else if i > j then 1 else 0)"

text \<open>
  \<open>qsort\<close> under this comparator. The comparator is a strict total order on ranks with distinct
  positions and no NaN key, so there the sorted array is unique and any sorting routine returns
  it; insertion sort is the one evaluated here.
\<close>

fun rank_insort :: "rank \<Rightarrow> rank list \<Rightarrow> rank list" where
  "rank_insort x [] = [x]"
| "rank_insort x (y # ys) = (if rank_desc x y \<le> 0 then x # y # ys else y # rank_insort x ys)"

definition rank_sort :: "rank list \<Rightarrow> rank list" where
  "rank_sort xs = foldr rank_insort xs []"

definition reserved_slots :: "nat \<Rightarrow> nat \<Rightarrow> nat" where
  "reserved_slots expected_slots n_claims =
     (let slots = (if expected_slots > n_claims then n_claims else expected_slots);
          reserved = slots * 1 div 4
      in if reserved \<ge> slots \<and> slots > 0 then slots - 1 else reserved)"

text \<open>The reserved prefix. \<open>placed\<close> is the code's flag array.\<close>

fun place_reserved ::
  "rank list \<Rightarrow> nat \<Rightarrow> coinbase_payee list option \<Rightarrow> int \<Rightarrow> nat list \<Rightarrow> bool list \<Rightarrow> nat list \<times> bool list" where
  "place_reserved [] reserved amounts flr order placed = (order, placed)"
| "place_reserved ((i, key) # rs) reserved amounts flr order placed =
     (if \<not> length order < reserved then (order, placed)
      else if d_le key (Fin 0) then (order, placed)
      else if (case amounts of None \<Rightarrow> False | Some a \<Rightarrow> pe_sats (a ! i) < flr)
      then place_reserved rs reserved amounts flr order placed
      else place_reserved rs reserved amounts flr (order @ [i]) (placed[i := True]))"

fun place_rest :: "rank list \<Rightarrow> nat list \<Rightarrow> bool list \<Rightarrow> nat list \<times> bool list" where
  "place_rest [] order placed = (order, placed)"
| "place_rest ((i, key) # rs) order placed =
     (if placed ! i then place_rest rs order placed
      else place_rest rs (order @ [i]) (placed[i := True]))"

definition pplns_order_claims ::
  "pplns_claim list \<Rightarrow> nat \<Rightarrow> coinbase_payee list option \<Rightarrow> int \<Rightarrow> nat list option" where
  "pplns_order_claims claims expected_slots amounts flr0 =
     (if claims = [] then None
      else let n = length claims;
               flr = payout_floor flr0;
               by_size = rank_sort (map (\<lambda>i. (i, cl_difficulty (claims ! i))) [0..<n]);
               by_owed = rank_sort (map (\<lambda>i. (i, cl_owed (claims ! i))) [0..<n]);
               reserved = reserved_slots expected_slots n;
               (order, placed) = place_reserved by_owed reserved amounts flr [] (replicate n False);
               (order', placed') = place_rest by_size order placed
           in if length order' = n then Some order' else None)"

section \<open>The split is exact\<close>

lemma split_loop_Ok:
  assumes "split_loop P tot cs a = Ok (ps, a')"
  shows "a' = a + sum_list (map pe_sats ps) \<and> map pe_address ps = map cl_address cs \<and>
    (\<forall>p \<in> set ps. 0 \<le> pe_sats p) \<and>
    map (\<lambda>c. prop_share P (cl_difficulty c) tot) cs = map (\<lambda>p. Ok (pe_sats p)) ps"
  using assms by (induction cs arbitrary: a ps a') (fastforce simp: bindR_Ok_iff not_less)+

lemma split_fee_rule_Ok:
  "split_fee_rule reward bps have_op = Ok fee \<Longrightarrow> 0 < reward \<Longrightarrow>
   0 \<le> fee \<and> (fee \<noteq> 0 \<longrightarrow> have_op \<and> fee = reward * bps div 10000 \<and> COINBASE_DUST_SATS \<le> fee)"
  by (auto simp: split_fee_rule_def fee_cut_def bindR_Ok_iff sdiv_nonneg COINBASE_DUST_SATS_def split: if_splits)

text \<open>The split charges the fee the builders charge.\<close>

lemma split_fee_rule_window_fee:
  "window_fee reward op bps = Ok (spk, fee) \<Longrightarrow> split_fee_rule reward bps (c_nonempty op) = Ok fee"
  by (auto simp: window_fee_def split_fee_rule_def bindR_Ok_iff split: if_splits)

lemma pplns_split_Ok:
  assumes "pplns_split_window reward bps have_op claims tot flr cap = Ok (ps, r)"
  obtains out where "split_fee_rule reward bps have_op = Ok (sp_fee r)" and "0 < reward" and "claims \<noteq> []"
    and "sp_payable r = reward - sp_fee r" and "0 < sp_payable r"
    and "length out = length claims"
    and "map pe_address out = map cl_address claims" and "\<forall>p \<in> set out. 0 \<le> pe_sats p"
    and "map (\<lambda>c. prop_share (sp_payable r) (cl_difficulty c) tot) claims = map (\<lambda>p. Ok (pe_sats p)) out"
    and "sum_list (map pe_sats out) \<le> sp_payable r"
    and "ps = (hd out)\<lparr>pe_sats := pe_sats (hd out) + (sp_payable r - sum_list (map pe_sats out))\<rparr> # tl out"
    and "sp_below_floor r = length (filter (\<lambda>p. pe_sats p < payout_floor flr) ps)"
proof -
  obtain fee out a where f: "split_fee_rule reward bps have_op = Ok fee" and rw: "0 < reward" and ne: "claims \<noteq> []"
    and pay: "0 < reward - fee" and l: "split_loop (reward - fee) tot claims 0 = Ok (out, a)" and le: "a \<le> reward - fee"
    and fin: "(if a < reward - fee then add_first (reward - fee - a) out else Ok out) = Ok ps"
    and r: "r = \<lparr>sp_fee = fee, sp_payable = reward - fee,
         sp_below_floor = length (filter (\<lambda>p. pe_sats p < payout_floor flr) ps)\<rparr>"
    using assms unfolding pplns_split_window_def by (auto simp: bindR_Ok_iff not_less not_le)
  note sl = split_loop_Ok [OF l]
  have len: "length out = length claims" using sl by (metis length_map)
  then obtain p rest where out: "out = p # rest" using ne by (cases out) auto
  have "ps = (hd out)\<lparr>pe_sats := pe_sats (hd out) + (reward - fee - a)\<rparr> # tl out"
    using fin le out by (auto simp: add_first_def bindR_Ok_iff split: if_splits)
  then show ?thesis using that [of out] sl f rw ne pay le r len by simp
qed

lemma pplns_split_sum:
  assumes "pplns_split_window reward bps have_op claims tot flr cap = Ok (ps, r)"
  shows "sum_list (map pe_sats ps) = sp_payable r \<and> sp_fee r + sp_payable r = reward \<and>
    map pe_address ps = map cl_address claims \<and> (\<forall>p \<in> set ps. 0 \<le> pe_sats p)"
  using assms
proof (rule pplns_split_Ok)
  fix out
  assume *: "sp_payable r = reward - sp_fee r" "length out = length claims" "claims \<noteq> []"
    "map pe_address out = map cl_address claims" "\<forall>p \<in> set out. 0 \<le> pe_sats p"
    "sum_list (map pe_sats out) \<le> sp_payable r"
    "ps = (hd out)\<lparr>pe_sats := pe_sats (hd out) + (sp_payable r - sum_list (map pe_sats out))\<rparr> # tl out"
  then show ?thesis by (cases out) auto
qed

section \<open>The split never refuses a sound window\<close>

lemma split_loop_succeeds:
  assumes "map (\<lambda>c. prop_share P (cl_difficulty c) tot) cs = map Ok ks"
    and "\<And>c. c \<in> set cs \<Longrightarrow> d_ge (cl_difficulty c) (Fin 0)"
    and "\<And>k. k \<in> set ks \<Longrightarrow> 0 \<le> k" and "0 \<le> a" and "a + sum_list ks < 2 ^ 63"
  shows "\<exists>ps. split_loop P tot cs a = Ok (ps, a + sum_list ks)"
  using assms
proof (induction cs arbitrary: a ks)
  case Nil
  then show ?case by simp
next
  case (Cons c cs)
  then obtain k ks' where ks: "ks = k # ks'" "prop_share P (cl_difficulty c) tot = Ok k"
    "map (\<lambda>c. prop_share P (cl_difficulty c) tot) cs = map Ok ks'" by auto
  have nn: "0 \<le> k" "0 \<le> sum_list ks'" using Cons.prems(3) ks(1) by (auto intro: sum_list_nonneg_int)
  then have ok: "i64_ok (a + k)" using Cons.prems(4,5) ks(1) unfolding i64_ok_def by simp
  have "\<exists>ps. split_loop P tot cs (a + k) = Ok (ps, a + k + sum_list ks')"
    by (rule Cons.IH [OF ks(3)]) (use Cons.prems nn ks(1) in auto)
  then show ?case using ks nn(1) ok Cons.prems(2) by auto
qed

text \<open>
  A sound window: finite non-negative difficulties whose sum is at most the divisor, up to the
  relative error \<open>2^-44\<close> of having summed them in floating point.
\<close>

definition sound_window :: "rat list \<Rightarrow> rat \<Rightarrow> bool" where
  "sound_window ds T \<longleftrightarrow> ds \<noteq> [] \<and> length ds \<le> 2 ^ 20 \<and> 0 < T \<and> (\<forall>d \<in> set ds. 0 \<le> d) \<and>
     sum_list ds \<le> T * (1 + 1 / 2 ^ 44)"

lemma pplns_split_succeeds:
  assumes w: "sound_window ds T" and d: "map cl_difficulty claims = map Fin ds"
    and cap: "length claims \<le> cap" and reward: "0 < reward" "reward \<le> 2 ^ 42"
    and fee: "split_fee_rule reward bps have_op = Ok fee" "fee < reward"
  shows "\<exists>ps r. pplns_split_window reward bps have_op claims (Fin T) flr cap = Ok (ps, r)"
proof -
  let ?P = "reward - fee"
  have fee0: "0 \<le> fee" using split_fee_rule_Ok [OF fee(1) reward(1)] by simp
  have P: "0 \<le> ?P" "?P \<le> 2 ^ 42" using fee fee0 reward by simp_all
  have w': "0 < T" "\<And>d. d \<in> set ds \<Longrightarrow> 0 \<le> d" "sum_list ds \<le> T * (1 + 1 / 2 ^ 44)" "length ds \<le> 2 ^ 20" "ds \<noteq> []"
    using w by (auto simp: sound_window_def)
  obtain ks where ks: "map (\<lambda>d. prop_share ?P (Fin d) (Fin T)) ds = map Ok ks"
    "\<And>k. k \<in> set ks \<Longrightarrow> 0 \<le> k" "sum_list ks \<le> ?P"
    using sum_prop_shares_le [OF P w'(1,2,3,4)] by blast
  have "map (\<lambda>c. prop_share ?P (cl_difficulty c) (Fin T)) claims =
      map (\<lambda>x. prop_share ?P x (Fin T)) (map cl_difficulty claims)" by simp
  then have ks': "map (\<lambda>c. prop_share ?P (cl_difficulty c) (Fin T)) claims = map Ok ks"
    using ks(1) by (simp add: d comp_def)
  have ge: "d_ge (cl_difficulty c) (Fin 0)" if "c \<in> set claims" for c
  proof -
    have "cl_difficulty c \<in> set (map Fin ds)" using that d [symmetric] by simp
    then show ?thesis using w'(2) by (auto simp: d_ge_def)
  qed
  obtain out where l: "split_loop ?P (Fin T) claims 0 = Ok (out, sum_list ks)"
    using split_loop_succeeds [OF ks' ge ks(2), of 0] ks(3) P by auto
  note sl = split_loop_Ok [OF l]
  have ne: "claims \<noteq> []" using d w'(5) by auto
  then obtain p rest where out: "out = p # rest" using sl by (cases out) auto
  have "0 \<le> pe_sats p" "pe_sats p \<le> sum_list ks"
    using sl out member_le_sum_list_int [of "pe_sats p" "map pe_sats out"] by auto
  then have "i64_ok (pe_sats p + (?P - sum_list ks))" using P ks(3) by (simp add: i64_ok_def)
  then have af: "add_first (?P - sum_list ks) out = Ok (p\<lparr>pe_sats := pe_sats p + (?P - sum_list ks)\<rparr> # rest)"
    by (simp add: out add_first_def)
  have "i64_ok ?P" using P by (simp add: i64_ok_def)
  moreover have "d_gt (Fin T) (Fin 0)" using w'(1) by (simp add: d_gt_def)
  ultimately show ?thesis
    using ne cap reward fee l ks(3) af unfolding pplns_split_window_def by auto
qed

section \<open>The order is a permutation\<close>

lemma mset_rank_insort [simp]: "mset (rank_insort x ys) = add_mset x (mset ys)"
  by (induction ys) auto

lemma mset_rank_sort [simp]: "mset (rank_sort xs) = mset xs"
  by (induction xs) (auto simp: rank_sort_def)

lemma set_rank_sort [simp]: "set (rank_sort xs) = set xs"
  by (metis mset_rank_sort set_mset_mset)

lemma distinct_map_rank_sort: "distinct (map fst (rank_sort xs)) = distinct (map fst xs)"
  by (metis distinct_count_atmost_1 mset_map mset_rank_sort set_mset_mset)

text \<open>The flag array describes exactly the positions already placed.\<close>

definition placed_ok :: "nat \<Rightarrow> nat list \<Rightarrow> bool list \<Rightarrow> bool" where
  "placed_ok n order placed \<longleftrightarrow>
     length placed = n \<and> distinct order \<and> set order \<subseteq> {..<n} \<and> (\<forall>i < n. placed ! i \<longleftrightarrow> i \<in> set order)"

lemma placed_ok_snoc:
  "placed_ok n order placed \<Longrightarrow> i < n \<Longrightarrow> i \<notin> set order \<Longrightarrow> placed_ok n (order @ [i]) (placed[i := True])"
  by (auto simp: placed_ok_def nth_list_update)

definition reservable :: "coinbase_payee list option \<Rightarrow> int \<Rightarrow> nat \<Rightarrow> double \<Rightarrow> bool" where
  "reservable amounts flr i key \<longleftrightarrow> \<not> d_le key (Fin 0) \<and>
     (case amounts of None \<Rightarrow> True | Some a \<Rightarrow> flr \<le> pe_sats (a ! i))"

lemma place_reserved_Cons:
  "place_reserved ((i, key) # rs) reserved amounts flr order placed =
     (if \<not> length order < reserved \<or> d_le key (Fin 0) then (order, placed)
      else if reservable amounts flr i key
      then place_reserved rs reserved amounts flr (order @ [i]) (placed[i := True])
      else place_reserved rs reserved amounts flr order placed)"
  by (cases amounts) (simp_all add: reservable_def)

lemma place_reserved_ok:
  assumes "placed_ok n order placed" and "distinct (map fst rs)" and "fst ` set rs \<subseteq> {..<n}"
    and "fst ` set rs \<inter> set order = {}" and "length order \<le> reserved"
    and "place_reserved rs reserved amounts flr order placed = (order', placed')"
  shows "placed_ok n order' placed' \<and> length order' \<le> reserved \<and>
    (\<exists>new. order' = order @ new \<and> (\<forall>i \<in> set new. \<exists>key. (i, key) \<in> set rs \<and> reservable amounts flr i key))"
  using assms
proof (induction rs arbitrary: order placed)
  case Nil
  then show ?case by simp
next
  case (Cons r rs)
  obtain i key where r: "r = (i, key)" by (cases r)
  have i: "i < n" "i \<notin> set order" using Cons.prems(3,4) r by auto
  consider (stop) "order' = order" "placed' = placed"
    | (skip) "place_reserved rs reserved amounts flr order placed = (order', placed')"
    | (put) "place_reserved rs reserved amounts flr (order @ [i]) (placed[i := True]) = (order', placed')"
      "length order < reserved" "reservable amounts flr i key"
    using Cons.prems(6) unfolding r place_reserved_Cons by (metis (no_types) prod.inject)
  then show ?case
  proof cases
    case stop
    then show ?thesis using Cons.prems by auto
  next
    case skip
    from Cons.IH [OF Cons.prems(1) _ _ _ Cons.prems(5) skip] Cons.prems(2,3,4) r show ?thesis by fastforce
  next
    case put
    have "placed_ok n (order @ [i]) (placed[i := True])" by (rule placed_ok_snoc [OF Cons.prems(1) i])
    from Cons.IH [OF this _ _ _ _ put(1)] Cons.prems(2,3,4) r put(2,3)
    have "placed_ok n order' placed' \<and> length order' \<le> reserved \<and>
      (\<exists>new. order' = (order @ [i]) @ new \<and> (\<forall>i \<in> set new. \<exists>key. (i, key) \<in> set rs \<and> reservable amounts flr i key))"
      by auto
    then obtain new where "placed_ok n order' placed'" "length order' \<le> reserved" "order' = order @ i # new"
      "\<forall>i \<in> set new. \<exists>key. (i, key) \<in> set rs \<and> reservable amounts flr i key" by auto
    then show ?thesis using put(3) r by (intro conjI exI [of _ "i # new"]) auto
  qed
qed

lemma place_rest_ok:
  assumes "placed_ok n order placed" and "fst ` set rs \<subseteq> {..<n}" and "distinct (map fst rs)"
    and "place_rest rs order placed = (order', placed')"
  shows "placed_ok n order' placed' \<and>
    order' = order @ filter (\<lambda>i. i \<notin> set order) (map fst rs)"
  using assms
proof (induction rs arbitrary: order placed)
  case Nil
  then show ?case by simp
next
  case (Cons r rs)
  obtain i key where r: "r = (i, key)" by (cases r)
  have i: "i < n" using Cons.prems(2) r by auto
  have pi: "placed ! i \<longleftrightarrow> i \<in> set order" using Cons.prems(1) i by (simp add: placed_ok_def)
  show ?case
  proof (cases "placed ! i")
    case True
    then have "place_rest rs order placed = (order', placed')" using Cons.prems(4) r by simp
    from Cons.IH [OF Cons.prems(1) _ _ this] Cons.prems(2,3) r True pi show ?thesis by auto
  next
    case False
    then have l: "place_rest rs (order @ [i]) (placed[i := True]) = (order', placed')" using Cons.prems(4) r by simp
    have "placed_ok n (order @ [i]) (placed[i := True])"
      using placed_ok_snoc [OF Cons.prems(1) i] False pi by simp
    from Cons.IH [OF this _ _ l] Cons.prems(2,3) r
    have "placed_ok n order' placed'" and o: "order' = (order @ [i]) @ filter (\<lambda>j. j \<notin> set (order @ [i])) (map fst rs)"
      by auto
    moreover have "filter (\<lambda>j. j \<notin> set (order @ [i])) (map fst rs) = filter (\<lambda>j. j \<notin> set order) (map fst rs)"
      using Cons.prems(3) r by (intro filter_cong) auto
    ultimately show ?thesis using r False pi by simp
  qed
qed

lemma reserved_slots_less: "reserved_slots e n < e \<or> reserved_slots e n = 0"
  by (auto simp: reserved_slots_def Let_def)

lemma pplns_order_claims_cases:
  assumes "claims \<noteq> []"
  obtains reserved rest where
    "pplns_order_claims claims e amounts flr = Some (reserved @ rest)"
    and "distinct (reserved @ rest)" and "set (reserved @ rest) = {..<length claims}"
    and "length reserved \<le> reserved_slots e (length claims)"
    and "\<forall>i \<in> set reserved. reservable amounts (payout_floor flr) i (cl_owed (claims ! i))"
    and "rest = filter (\<lambda>i. i \<notin> set reserved)
      (map fst (rank_sort (map (\<lambda>i. (i, cl_difficulty (claims ! i))) [0..<length claims])))"
proof -
  let ?n = "length claims" and ?flr = "payout_floor flr" and ?r = "reserved_slots e (length claims)"
  let ?size = "rank_sort (map (\<lambda>i. (i, cl_difficulty (claims ! i))) [0..<?n])"
  let ?owed = "rank_sort (map (\<lambda>i. (i, cl_owed (claims ! i))) [0..<?n])"
  obtain o1 p1 where r1: "place_reserved ?owed ?r amounts ?flr [] (replicate ?n False) = (o1, p1)"
    by (cases "place_reserved ?owed ?r amounts ?flr [] (replicate ?n False)")
  obtain o2 p2 where r2: "place_rest ?size o1 p1 = (o2, p2)" by (cases "place_rest ?size o1 p1")
  have d: "distinct (map fst ?owed)" "distinct (map fst ?size)"
    by (simp_all add: distinct_map_rank_sort comp_def)
  have s: "fst ` set ?owed = {..<?n}" "fst ` set ?size = {..<?n}" by (force simp: image_image)+
  have p0: "placed_ok ?n [] (replicate ?n False)" by (simp add: placed_ok_def)
  from place_reserved_ok [OF p0 d(1) _ _ _ r1] s
  have p1: "placed_ok ?n o1 p1" "length o1 \<le> ?r"
    and res: "\<forall>i \<in> set o1. \<exists>key. (i, key) \<in> set ?owed \<and> reservable amounts ?flr i key" by auto
  from place_rest_ok [OF p1(1) _ d(2) r2] s
  have p2: "placed_ok ?n o2 p2" and o2: "o2 = o1 @ filter (\<lambda>i. i \<notin> set o1) (map fst ?size)" by auto
  have "set o2 = {..<?n}" using p1(1) s(2) by (auto simp: o2 placed_ok_def)
  moreover have "distinct o2" using p2 by (simp add: placed_ok_def)
  moreover from calculation have "length o2 = ?n" by (metis card_lessThan distinct_card)
  ultimately show ?thesis
    using that [of o1 "filter (\<lambda>i. i \<notin> set o1) (map fst ?size)"] assms r1 r2 p1(2) res o2
    by (auto simp: pplns_order_claims_def Let_def)
qed

section \<open>The order is by size behind the reserved prefix\<close>

lemma d_lt_asym: "d_lt a b \<Longrightarrow> \<not> d_lt b a"
  by (cases a; cases b) auto

lemma d_lt_trans: "d_lt a b \<Longrightarrow> d_lt b c \<Longrightarrow> d_lt a c"
  by (cases a; cases b; cases c) auto

lemma d_lt_negtrans: "d_lt a c \<Longrightarrow> b \<noteq> NaN \<Longrightarrow> d_lt a b \<or> d_lt b c"
  by (cases a; cases b; cases c) auto

lemma rank_desc_le_iff:
  "rank_desc x y \<le> 0 \<longleftrightarrow> d_lt (snd y) (snd x) \<or> \<not> d_lt (snd x) (snd y) \<and> fst x \<le> fst y"
  using d_lt_asym [of "snd x" "snd y"] by (cases x; cases y) (auto simp: d_gt_def)

lemma rank_desc_flip: "rank_desc x y > 0 \<Longrightarrow> rank_desc y x \<le> 0"
  using rank_desc_le_iff [of x y] rank_desc_le_iff [of y x] by linarith

lemma rank_desc_trans:
  assumes "rank_desc x y \<le> 0" "rank_desc y z \<le> 0" and nn: "snd x \<noteq> NaN" "snd y \<noteq> NaN" "snd z \<noteq> NaN"
  shows "rank_desc x z \<le> 0"
proof -
  have xy: "d_lt (snd y) (snd x) \<or> \<not> d_lt (snd x) (snd y) \<and> fst x \<le> fst y"
    and yz: "d_lt (snd z) (snd y) \<or> \<not> d_lt (snd y) (snd z) \<and> fst y \<le> fst z"
    using assms(1,2) by (simp_all only: rank_desc_le_iff)
  show ?thesis unfolding rank_desc_le_iff
    using xy yz d_lt_trans d_lt_negtrans [OF _ nn(1)] d_lt_negtrans [OF _ nn(2)] d_lt_negtrans [OF _ nn(3)]
    by (meson order_trans)
qed

lemma set_rank_insort [simp]: "set (rank_insort x ys) = insert x (set ys)"
  by (induction ys) auto

lemma sorted_rank_insort:
  assumes "sorted_wrt (\<lambda>a b. rank_desc a b \<le> 0) ys" and "\<forall>y \<in> insert x (set ys). snd y \<noteq> NaN"
  shows "sorted_wrt (\<lambda>a b. rank_desc a b \<le> 0) (rank_insort x ys)"
  using assms
proof (induction ys)
  case Nil
  then show ?case by simp
next
  case (Cons y ys)
  then show ?case
    using rank_desc_flip [of x y] rank_desc_trans [of x y] by (fastforce simp: not_le simp del: rank_desc.simps)
qed

lemma sorted_rank_sort:
  assumes "\<forall>x \<in> set xs. snd x \<noteq> NaN"
  shows "sorted_wrt (\<lambda>a b. rank_desc a b \<le> 0) (rank_sort xs)"
  using assms
proof (induction xs)
  case Nil
  then show ?case by (simp add: rank_sort_def)
next
  case (Cons x xs)
  have "set (rank_sort xs) = set xs" by simp
  then show ?case
    using sorted_rank_insort [of "rank_sort xs" x] Cons by (simp add: rank_sort_def)
qed

lemma order_rest_sorted:
  assumes "\<forall>c \<in> set claims. cl_difficulty c \<noteq> NaN"
  shows "sorted_wrt (\<lambda>i j. \<not> d_lt (cl_difficulty (claims ! i)) (cl_difficulty (claims ! j)))
    (filter P (map fst (rank_sort (map (\<lambda>i. (i, cl_difficulty (claims ! i))) [0..<length claims]))))"
proof (rule sorted_wrt_filter)
  let ?xs = "map (\<lambda>i. (i, cl_difficulty (claims ! i))) [0..<length claims]"
  have key: "snd x = cl_difficulty (claims ! fst x)" if "x \<in> set (rank_sort ?xs)" for x
    using that by auto
  have "sorted_wrt (\<lambda>a b. rank_desc a b \<le> 0) (rank_sort ?xs)"
    by (rule sorted_rank_sort) (use assms in auto)
  then have "sorted_wrt (\<lambda>a b. \<not> d_lt (cl_difficulty (claims ! fst a)) (cl_difficulty (claims ! fst b))) (rank_sort ?xs)"
  proof (rule sorted_wrt_mono_rel [rotated])
    fix a b assume "a \<in> set (rank_sort ?xs)" "b \<in> set (rank_sort ?xs)" "rank_desc a b \<le> 0"
    then show "\<not> d_lt (cl_difficulty (claims ! fst a)) (cl_difficulty (claims ! fst b))"
      using key [of a] key [of b] d_lt_asym by (metis rank_desc_le_iff)
  qed
  then show "sorted_wrt (\<lambda>i j. \<not> d_lt (cl_difficulty (claims ! i)) (cl_difficulty (claims ! j))) (map fst (rank_sort ?xs))"
    by (simp add: sorted_wrt_map)
qed

section \<open>Reordered payees\<close>

definition reorder :: "nat list \<Rightarrow> 'a list \<Rightarrow> 'a list" where
  "reorder order xs = map (\<lambda>i. xs ! i) order"

lemma mset_reorder:
  assumes "distinct order" and "set order = {..<length xs}"
  shows "mset (reorder order xs) = mset xs"
proof -
  have "mset order = mset [0..<length xs]"
    using assms by (metis atLeast_upt distinct_upt lessThan_atLeast0 set_eq_iff_mset_eq_distinct set_upt)
  then show ?thesis unfolding reorder_def by (metis map_nth mset_map)
qed

lemma window_payable_mset:
  assumes "mset ps = mset qs"
  shows "window_payable v ps spk fee flr b = window_payable v qs spk fee flr b"
proof -
  have "set ps = set qs" using assms by (metis set_mset_mset)
  moreover have "sum_list (map pe_sats ps) = sum_list (map pe_sats qs)"
    using assms by (metis mset_map sum_mset_sum_list)
  ultimately show ?thesis by (simp add: window_payable_def)
qed

section \<open>Properties\<close>

text \<open>A window of two claims, one of them owed from before.\<close>

definition example_claims :: "pplns_claim list" where
  "example_claims =
     [\<lparr>cl_address = Some example_addr, cl_difficulty = Fin 3, cl_worker_id = 1, cl_owed = Fin 0\<rparr>,
      \<lparr>cl_address = Some example_addr, cl_difficulty = Fin 1, cl_worker_id = 2, cl_owed = Fin (1/8)\<rparr>]"

lemma example_sound: "sound_window [3, 1] 4" "map cl_difficulty example_claims = map Fin [3, 1]"
  by (simp_all add: sound_window_def example_claims_def)

lemma example_split_ok:
  "\<exists>ps r. pplns_split_window 312500000 0 False example_claims (Fin 4) 1000 200 = Ok (ps, r)"
  by (rule pplns_split_succeeds [OF example_sound, where fee = 0])
    (simp_all add: example_claims_def split_fee_rule_def)

text \<open>C28. The PPLNS split is exact: fee and payees account for the whole reward, payee by payee in the
  order of the claims and to their addresses; every payee but the first receives the truncated
  proportional share and the first also the truncation remainder; the below-floor count is the
  number of payees the builder's floor will drop.\<close>

theorem pplns_split_exact:
  assumes "pplns_split_window reward bps have_op claims tot flr cap = Ok (ps, r)"
  shows "sp_fee r + sum_list (map pe_sats ps) = reward \<and> sp_payable r = sum_list (map pe_sats ps) \<and>
    map pe_address ps = map cl_address claims \<and> (\<forall>p \<in> set ps. 0 \<le> pe_sats p) \<and>
    (\<exists>share. map (\<lambda>c. prop_share (sp_payable r) (cl_difficulty c) tot) claims = map Ok share \<and>
       map pe_sats ps = (hd share + (sp_payable r - sum_list share)) # tl share) \<and>
    sp_below_floor r = length (filter (\<lambda>p. pe_sats p < payout_floor flr) ps)"
  using assms
proof (rule pplns_split_Ok)
  fix out
  assume o: "length out = length claims" "claims \<noteq> []"
    "map (\<lambda>c. prop_share (sp_payable r) (cl_difficulty c) tot) claims = map (\<lambda>p. Ok (pe_sats p)) out"
    "ps = (hd out)\<lparr>pe_sats := pe_sats (hd out) + (sp_payable r - sum_list (map pe_sats out))\<rparr> # tl out"
    "sp_below_floor r = length (filter (\<lambda>p. pe_sats p < payout_floor flr) ps)"
  have "map (\<lambda>c. prop_share (sp_payable r) (cl_difficulty c) tot) claims = map Ok (map pe_sats out) \<and>
      map pe_sats ps = (hd (map pe_sats out) + (sp_payable r - sum_list (map pe_sats out))) # tl (map pe_sats out)"
    using o by (cases out) auto
  then show ?thesis using pplns_split_sum [OF assms] o(5) by (intro conjI exI [of _ "map pe_sats out"]) simp_all
qed

theorem pplns_split_exact_witness:
  "\<exists>ps r. pplns_split_window 312500000 0 False example_claims (Fin 4) 1000 200 = Ok (ps, r) \<and>
     sp_fee r + sum_list (map pe_sats ps) = 312500000 \<and> map pe_address ps = map cl_address example_claims"
proof -
  obtain ps r where s: "pplns_split_window 312500000 0 False example_claims (Fin 4) 1000 200 = Ok (ps, r)"
    using example_split_ok by blast
  show ?thesis using s pplns_split_exact [OF s] by blast
qed

text \<open>The split refuses no sound window: finite non-negative difficulties that sum to the divisor,
  up to floating-point summation error, a reward of at most \<open>2^42\<close> satoshis and a fee below it
  always give a split. In particular the truncated shares never exceed the payable amount.\<close>

theorem pplns_split_total:
  assumes "sound_window ds T" and "map cl_difficulty claims = map Fin ds" and "length claims \<le> cap"
    and "0 < reward" and "reward \<le> 2 ^ 42"
    and "split_fee_rule reward bps have_op = Ok fee" and "fee < reward"
  shows "\<exists>ps r. pplns_split_window reward bps have_op claims (Fin T) flr cap = Ok (ps, r)"
  by (rule pplns_split_succeeds [OF assms])

theorem pplns_split_total_witness:
  "\<exists>ps r. pplns_split_window 312500000 0 False example_claims (Fin 4) 1000 200 = Ok (ps, r)"
  by (rule pplns_split_total [OF example_sound, where fee = 0])
    (simp_all add: example_claims_def split_fee_rule_def)

text \<open>C29. The payment order is a permutation of the claims. Its reserved prefix is shorter than the
  expected number of slots and holds only claims that are owed something and, when amounts are
  given, clear the payout floor; every other claim follows, largest difficulty first.\<close>

theorem pplns_order_permutation:
  assumes "claims \<noteq> []" and "\<forall>c \<in> set claims. cl_difficulty c \<noteq> NaN"
  shows "\<exists>reserved rest. pplns_order_claims claims e amounts flr = Some (reserved @ rest) \<and>
    distinct (reserved @ rest) \<and> set (reserved @ rest) = {..<length claims} \<and>
    (length reserved < e \<or> reserved = []) \<and>
    (\<forall>i \<in> set reserved. \<not> d_le (cl_owed (claims ! i)) (Fin 0) \<and>
       (\<forall>a. amounts = Some a \<longrightarrow> payout_floor flr \<le> pe_sats (a ! i))) \<and>
    sorted_wrt (\<lambda>i j. \<not> d_lt (cl_difficulty (claims ! i)) (cl_difficulty (claims ! j))) rest"
  using assms(1)
proof (rule pplns_order_claims_cases [of claims e amounts flr])
  fix reserved rest
  assume *: "pplns_order_claims claims e amounts flr = Some (reserved @ rest)"
    "distinct (reserved @ rest)" "set (reserved @ rest) = {..<length claims}"
    "length reserved \<le> reserved_slots e (length claims)"
    "\<forall>i \<in> set reserved. reservable amounts (payout_floor flr) i (cl_owed (claims ! i))"
    "rest = filter (\<lambda>i. i \<notin> set reserved)
      (map fst (rank_sort (map (\<lambda>i. (i, cl_difficulty (claims ! i))) [0..<length claims])))"
  have "length reserved < e \<or> reserved = []"
    using *(4) reserved_slots_less [of e "length claims"] by auto
  moreover have "sorted_wrt (\<lambda>i j. \<not> d_lt (cl_difficulty (claims ! i)) (cl_difficulty (claims ! j))) rest"
    unfolding *(6) by (rule order_rest_sorted [OF assms(2)])
  ultimately show ?thesis
    using *(1,2,3,5) by (intro exI [of _ reserved] exI [of _ rest] conjI) (auto simp: reservable_def)
qed


theorem pplns_order_permutation_witness:
  "\<exists>reserved rest. pplns_order_claims example_claims 8 None 1000 = Some (reserved @ rest) \<and>
     distinct (reserved @ rest) \<and> set (reserved @ rest) = {..<2}"
proof -
  have "example_claims \<noteq> []" "\<forall>c \<in> set example_claims. cl_difficulty c \<noteq> NaN" "length example_claims = 2"
    by (simp_all add: example_claims_def)
  then show ?thesis using pplns_order_permutation [of example_claims 8 None 1000] by auto
qed

text \<open>Splitting, ordering and building fit together: the split of a window, put into its payment
  order, is always accepted by the coinbase resolver charging the same operator, provided the
  addresses decode and one claim clears the floor with room for one output in the budget. The
  resolver charges the fee the split predicted, pays out exactly the value, and gives every
  miner it pays at least what the split assigned.\<close>

theorem pplns_split_order_resolve:
  assumes split: "pplns_split_window v bps (c_nonempty op) claims tot flr cap = Ok (ps, r)"
    and order: "pplns_order_claims claims e (Some ps) flr = Some order"
    and fee: "window_fee v op bps = Ok (spk, fee)" and v: "v \<le> 2 ^ 42"
    and addr: "\<forall>p \<in> set ps. c_nonempty (pe_address p) \<and> is_Ok (coinbase_address_to_script (the (pe_address p)) 64)"
    and pay: "\<exists>p \<in> set ps. payout_floor flr \<le> pe_sats p" "43 \<le> window_budget maxb fixed"
  shows "\<exists>fs miners ops wr.
    resolve_window_outputs v (reorder order ps) op bps maxb fixed flr CB_MAX_REPL_OUTS = Ok (miners @ ops, wr) \<and>
    outs_sats miners + wr_fee_sats wr = v \<and> wr_fee_sats wr = sp_fee r \<and>
    list_all2 (\<lambda>c p. pe_sats p \<le> ro_sats c) miners (paid_of fs (reorder order ps))"
  using split
proof (rule pplns_split_Ok)
  fix out
  assume f: "split_fee_rule v bps (c_nonempty op) = Ok (sp_fee r)" and v0: "0 < v" and ne: "claims \<noteq> []"
  have fr: "sp_fee r = fee" using f split_fee_rule_window_fee [OF fee] by simp
  note sm = pplns_split_sum [OF split]
  have len: "length ps = length claims" using sm by (metis length_map)
  obtain reserved rest where "pplns_order_claims claims e (Some ps) flr = Some (reserved @ rest)"
    "distinct (reserved @ rest)" "set (reserved @ rest) = {..<length claims}"
    using pplns_order_claims_cases [OF ne, of e "Some ps" flr] by metis
  then have "distinct order" "set order = {..<length ps}" using order len by auto
  then have perm: "mset (reorder order ps) = mset ps" by (rule mset_reorder)
  have cost: "out_ser_size (length s) \<le> window_budget maxb fixed" if "coinbase_address_to_script a 64 = Ok s" for a s
  proof -
    have "length s \<le> 34" using address_to_script_payout(1) [OF that] payout_script_length by blast
    then show ?thesis using out_ser_size_mono [of "length s" 34] pay(2) by (simp add: out_ser_size_def)
  qed
  have "window_payable v ps spk fee flr (window_budget maxb fixed)"
    using v v0 sm fr addr pay(1) cost by (fastforce simp: window_payable_def is_Ok_iff)
  then have "window_payable v (reorder order ps) spk fee flr (window_budget maxb fixed)"
    using window_payable_mset [OF perm] by simp
  from resolve_window_pays_claims [OF fee this]
  obtain fs miners ops wr where R: "resolve_window_outputs v (reorder order ps) op bps maxb fixed flr CB_MAX_REPL_OUTS = Ok (miners @ ops, wr)"
    and W: "window_resolved v (reorder order ps) op bps (window_budget maxb fixed) CB_MAX_REPL_OUTS fs miners ops wr"
    and L: "list_all2 (\<lambda>c p. pe_sats p \<le> ro_sats c \<and> payout_floor flr \<le> ro_sats c) miners (paid_of fs (reorder order ps))"
    by blast
  have "wr_fee_sats wr = fee" by (rule resolve_window_fee [OF R fee])
  moreover have "outs_sats miners = v - wr_fee_sats wr" using W by (simp add: window_resolved_def)
  moreover have "list_all2 (\<lambda>c p. pe_sats p \<le> ro_sats c) miners (paid_of fs (reorder order ps))"
    using L by (rule list_all2_mono) simp
  ultimately show ?thesis
    using R fr by (intro exI [of _ fs] exI [of _ miners] exI [of _ ops] exI [of _ wr]) simp
qed

theorem pplns_split_order_resolve_witness:
  "\<exists>order ps r fs miners ops wr.
    pplns_split_window 312500000 0 False example_claims (Fin 4) 1000 200 = Ok (ps, r) \<and>
    resolve_window_outputs 312500000 (reorder order ps) None 0 1000 100 1000 CB_MAX_REPL_OUTS = Ok (miners @ ops, wr) \<and>
    outs_sats miners + wr_fee_sats wr = 312500000 \<and> wr_fee_sats wr = sp_fee r \<and>
    list_all2 (\<lambda>c p. pe_sats p \<le> ro_sats c) miners (paid_of fs (reorder order ps))"
proof -
  obtain ps r where s: "pplns_split_window 312500000 0 (c_nonempty None) example_claims (Fin 4) 1000 200 = Ok (ps, r)"
    using example_split_ok by auto
  have sm: "sum_list (map pe_sats ps) = sp_payable r" "sp_fee r + sp_payable r = 312500000"
    "map pe_address ps = [Some example_addr, Some example_addr]"
    using pplns_split_sum [OF s] by (simp_all add: example_claims_def)
  have f: "window_fee 312500000 None 0 = Ok (None, 0)" by (simp add: window_fee_def)
  have "sp_fee r = 0" using s f by (auto elim!: pplns_split_Ok simp: split_fee_rule_def)
  then obtain a b where ps: "ps = [a, b]" "pe_sats a + pe_sats b = 312500000"
    "pe_address a = Some example_addr" "pe_address b = Some example_addr"
    using sm by (cases ps; cases "tl ps") auto
  have ex: "\<exists>p \<in> set ps. payout_floor 1000 \<le> pe_sats p"
    using ps(1,2) by (simp add: payout_floor_def COINBASE_DUST_SATS_def) linarith
  have ad: "\<forall>p \<in> set ps. c_nonempty (pe_address p) \<and> is_Ok (coinbase_address_to_script (the (pe_address p)) 64)"
    using ps example_addr_script by (auto simp: is_Ok_iff) (simp_all add: example_addr_def)
  have ne: "example_claims \<noteq> []" by (simp add: example_claims_def)
  obtain order where o: "pplns_order_claims example_claims 8 (Some ps) 1000 = Some order"
    using pplns_order_claims_cases [OF ne, of 8 "Some ps" 1000] by metis
  have b: "43 \<le> window_budget 1000 100" by (simp add: window_budget_def)
  have v: "(312500000 :: int) \<le> 2 ^ 42" by simp
  have s': "pplns_split_window 312500000 0 False example_claims (Fin 4) 1000 200 = Ok (ps, r)" using s by simp
  show ?thesis
    using s' pplns_split_order_resolve [OF s o f v ad ex b] by blast
qed

end
