(* ===== verification/Share.thy ===== *)
theory Share
  imports Bytes Sha256 Doubles
begin

text \<open>
  Share validation arithmetic (\<^verbatim>\<open>src/share.c\<close>) and the Merkle branch computation of
  \<^verbatim>\<open>src/main.c\<close>: compact targets, target and difficulty, the PPS rate, Merkle roots, block
  headers and the comparison of a hash with a target. Byte strings of 32 bytes are lists;
  \<open>unsigned __int128\<close> is a 128-bit word.
\<close>

section \<open>Targets\<close>

text \<open>
  \<open>size_t off = 32u - (size_t)exp\<close> and \<open>off + 3u\<close> are unsigned 64-bit and wrap; a write outside
  the 32 bytes is undefined behaviour.
\<close>

definition write3 :: "u64 \<Rightarrow> u32 \<Rightarrow> byte list \<Rightarrow> byte list res" where
  "write3 off mant target =
     (let i = unat off in
      if i + 2 < length target
      then Ok (target[i := ucast (drop_bit 16 mant AND 0xff),
                      i + 1 := ucast (drop_bit 8 mant AND 0xff),
                      i + 2 := ucast (mant AND 0xff)])
      else UB)"

definition nbits_to_target :: "u32 \<Rightarrow> byte list res" where
  "nbits_to_target nbits =
     (let target = replicate 32 0;
          exp = ucast (drop_bit 24 nbits) :: byte;
          mant = nbits AND 0x007fffff;
          negative = (nbits AND 0x00800000 \<noteq> 0)
      in if mant = 0 \<or> negative then Ok target
         else if exp \<le> 3 then
           (let shift = 8 * (3 - unat exp); v = drop_bit shift mant
            in Ok (target[29 := ucast (drop_bit 16 v AND 0xff), 30 := ucast (drop_bit 8 v AND 0xff),
                          31 := ucast (v AND 0xff)]))
         else
           (let off = 32 - (ucast exp :: u64)
            in if off + 3 \<le> 32 then write3 off mant target else Ok target))"

type_synonym u128 = "128 word"

definition DIFF1_TARGET :: "byte list" where
  "DIFF1_TARGET = replicate 4 0 @ [0xff, 0xff] @ replicate 26 0"

definition be16_to_u128 :: "byte list \<Rightarrow> u128" where
  "be16_to_u128 b = fold (\<lambda>x v. push_bit 8 v OR ucast x) (take 16 b) 0"

text \<open>The loop writes from byte 15 down to byte 0.\<close>

fun u128_bytes_le :: "nat \<Rightarrow> u128 \<Rightarrow> byte list" where
  "u128_bytes_le 0 v = []"
| "u128_bytes_le (Suc n) v = ucast (v AND 0xff) # u128_bytes_le n (drop_bit 8 v)"

definition u128_to_be16 :: "u128 \<Rightarrow> byte list" where
  "u128_to_be16 v = rev (u128_bytes_le 16 v)"

definition d_of_u128 :: "u128 \<Rightarrow> double" where
  "d_of_u128 v = d_of_int (uint v)"

text \<open>\<open>(u128)d\<close>: undefined when the truncated value does not fit.\<close>

fun d_to_u128 :: "double \<Rightarrow> u128 res" where
  "d_to_u128 (Fin a) = (if 0 \<le> rat_trunc a \<and> rat_trunc a < 2 ^ 128 then Ok (word_of_int (rat_trunc a)) else UB)"
| "d_to_u128 _ = UB"

definition target_to_diff :: "byte list \<Rightarrow> double" where
  "target_to_diff target_be =
     (let hi = be16_to_u128 target_be
      in if hi = 0 then PInf else d_div (d_of_u128 (be16_to_u128 DIFF1_TARGET)) (d_of_u128 hi))"

definition worker_diff_to_target :: "double \<Rightarrow> byte list res" where
  "worker_diff_to_target diff =
     (if \<not> d_isfinite diff \<or> d_le diff (Fin 0) then Ok (replicate 32 0xff)
      else let scaled0 = d_div (d_of_u128 (be16_to_u128 DIFF1_TARGET)) diff;
               scaled = (if d_lt scaled0 (Fin 0) then Fin 0 else scaled0)
           in if \<not> d_lt scaled (Fin (2 ^ 128)) then Ok (replicate 32 0xff)
              else bindR (d_to_u128 scaled) (\<lambda>hi. Ok (u128_to_be16 hi @ replicate 16 0)))"

section \<open>The PPS rate\<close>

definition pps_rate_from_template :: "int \<Rightarrow> double \<Rightarrow> int \<Rightarrow> double" where
  "pps_rate_from_template value_sats net_diff fee_bps =
     (if value_sats \<le> 0 then Fin 0
      else if \<not> d_isfinite net_diff \<or> d_le net_diff (Fin 0) then Fin 0
      else if fee_bps < 0 \<or> fee_bps \<ge> 10000 then Fin 0
      else let gross = d_div (d_of_int value_sats) net_diff in
        if \<not> d_isfinite gross then Fin 0
        else let net = d_mul gross (d_sub (Fin 1) (d_div (d_of_int fee_bps) (Fin 10000)))
             in if d_gt net (Fin 0) then net else Fin 0)"

definition pps_min_safe_difficulty :: "double \<Rightarrow> int \<Rightarrow> double" where
  "pps_min_safe_difficulty diff_per_sec block_interval_sec =
     (if \<not> d_isfinite diff_per_sec \<or> d_le diff_per_sec (Fin 0) then Fin 0
      else if block_interval_sec \<le> 0 then Fin 0
      else let d = d_mul diff_per_sec (d_of_int block_interval_sec)
           in if d_isfinite d then d else Fin 0)"

definition pps_rate_apply_issuance_ceiling :: "double \<Rightarrow> int \<Rightarrow> double \<Rightarrow> int \<Rightarrow> double" where
  "pps_rate_apply_issuance_ceiling rate value_sats diff_per_sec block_interval_sec =
     (if \<not> d_isfinite rate \<or> d_le rate (Fin 0) then rate
      else if value_sats \<le> 0 then rate
      else if \<not> d_isfinite diff_per_sec \<or> d_le diff_per_sec (Fin 0) then rate
      else if block_interval_sec \<le> 0 then rate
      else let issuance_per_sec = d_div (d_of_int value_sats) (d_of_int block_interval_sec);
               ceil = d_div issuance_per_sec diff_per_sec
           in if \<not> d_isfinite ceil \<or> d_lt ceil (Fin 0) then rate
              else if d_lt rate ceil then rate else ceil)"

section \<open>Merkle trees and headers\<close>

fun merkle_root_from_branches :: "byte list \<Rightarrow> byte list list \<Rightarrow> byte list" where
  "merkle_root_from_branches cur [] = cur"
| "merkle_root_from_branches cur (b # bs) = merkle_root_from_branches (dsha256 (cur @ b)) bs"

text \<open>One level of \<open>compute_merkle_branches_for_idx0\<close>: pair up, the last one with itself.\<close>

fun merkle_next :: "byte list list \<Rightarrow> byte list list" where
  "merkle_next (a # b # rest) = dsha256 (a @ b) # merkle_next rest"
| "merkle_next [a] = [dsha256 (a @ a)]"
| "merkle_next [] = []"

lemma length_merkle_next: "length (merkle_next xs) = (length xs + 1) div 2"
  by (induction xs rule: merkle_next.induct) auto

function merkle_branches_loop :: "byte list list \<Rightarrow> byte list list" where
  "merkle_branches_loop lvl =
     (if length lvl > 1 then lvl ! 1 # merkle_branches_loop (merkle_next lvl) else [])"
  by pat_completeness auto
termination
  by (relation "measure length") (auto simp: length_merkle_next)

declare merkle_branches_loop.simps [simp del]

definition compute_merkle_branches_for_idx0 :: "byte list list \<Rightarrow> byte list list" where
  "compute_merkle_branches_for_idx0 txids_le = merkle_branches_loop (replicate 32 0 # txids_le)"

definition put_u32_le :: "u32 \<Rightarrow> byte list" where
  "put_u32_le v = [ucast (v AND 0xff), ucast (drop_bit 8 v AND 0xff),
     ucast (drop_bit 16 v AND 0xff), ucast (drop_bit 24 v AND 0xff)]"

definition build_header :: "u32 \<Rightarrow> byte list \<Rightarrow> byte list \<Rightarrow> u32 \<Rightarrow> u32 \<Rightarrow> u32 \<Rightarrow> byte list" where
  "build_header version prev_hash_le merkle_root_le ntime nbits nonce =
     put_u32_le version @ prev_hash_le @ merkle_root_le @ put_u32_le ntime @ put_u32_le nbits @ put_u32_le nonce"

fun be32_cmp :: "byte list \<Rightarrow> byte list \<Rightarrow> int" where
  "be32_cmp (a # as) (b # bs) = (if a < b then -1 else if a > b then 1 else be32_cmp as bs)"
| "be32_cmp _ _ = 0"

definition hash_header :: "byte list \<Rightarrow> byte list" where
  "hash_header header = rev (dsha256 header)"

definition rev32 :: "byte list \<Rightarrow> byte list" where
  "rev32 b = rev b"

definition hex_to_bytes_display :: "string \<Rightarrow> nat \<Rightarrow> byte list option" where
  "hex_to_bytes_display hex expected = (if length hex \<noteq> expected * 2 then None else hex_pairs hex)"

section \<open>Compact targets\<close>

lemma mant_bound: "unat (nbits AND 0x007fffff :: u32) < 2 ^ 23"
proof -
  have m: "nbits AND 0x007fffff = take_bit 23 nbits" by (simp add: take_bit_eq_mask mask_eq_exp_minus_1)
  show ?thesis unfolding m unsigned_take_bit_eq by (rule take_bit_nat_less_exp)
qed

lemma unat_and_ff: "unat (ucast (w AND 0xff) :: byte) = unat (w :: 'a::len word) mod 256"
proof -
  have "(ucast (w AND 0xff) :: byte) = ucast w"
    by (rule bit_word_eqI) (auto simp: bit_simps bit_numeral_word_iff less_Suc_eq numeral_eq_Suc dest: bit_imp_le_length)
  then show ?thesis by (simp add: unat_ucast_byte)
qed

lemma be_val_replicate_tail: "be_val (bs @ replicate n 0) = be_val bs * 256 ^ n"
proof -
  have z: "le_val (replicate n 0) = 0" by (induction n) auto
  show ?thesis by (simp add: be_val_def le_val_append z)
qed

lemma be_val_lead_zeros: "be_val (replicate n 0 @ bs) = be_val bs"
  by (induction n) (auto simp: be_val_Cons)

lemma be_val_mant:
  assumes "unat (m::u32) < 2 ^ 24"
  shows "be_val [ucast (drop_bit 16 m AND 0xff), ucast (drop_bit 8 m AND 0xff), ucast (m AND 0xff)] = unat m"
proof -
  let ?n = "unat m"
  have c: "?n div 256 div 256 < 256" using assms by simp
  have "?n = ?n div 256 * 256 + ?n mod 256" by simp
  moreover have "?n div 256 = ?n div 256 div 256 * 256 + ?n div 256 mod 256" by simp
  ultimately have "?n div 256 div 256 * 65536 + (?n div 256 mod 256 * 256 + ?n mod 256) = ?n" by linarith
  then show ?thesis
    using c by (simp add: be_val_Cons unat_and_ff unat_drop_bit div_mult2_eq [of ?n 256 256, simplified])
qed

lemma update3:
  assumes "i + 3 \<le> n"
  shows "(replicate n 0)[i := a, i + 1 := b, i + 2 := c] = replicate i 0 @ [a, b, c] @ replicate (n - i - 3) (0::byte)"
  using assms by (intro nth_equalityI) (auto simp: nth_append nth_list_update nth_Cons split: nat.splits)

lemma unat_off: "unat (e::byte) \<le> 32 \<Longrightarrow> unat (32 - (ucast e :: u64)) = 32 - unat e"
proof -
  assume e: "unat e \<le> 32"
  have u: "unat (ucast e :: u64) = unat e" by (simp add: unsigned_ucast_eq take_bit_nat_eq_self less_trans [OF unat_byte_lt])
  have "(ucast e :: u64) \<le> 32" using e by (simp add: word_le_nat_alt u)
  then show ?thesis by (simp add: unat_sub u)
qed

lemma unat_eq_of_nat_byte: "unat (e::byte) = n \<Longrightarrow> e = word_of_nat n"
  by auto

lemma nbits_exp_cases:
  fixes e :: byte
  shows "(32 - (ucast e :: u64)) + 3 \<le> 32 \<longleftrightarrow> 3 \<le> unat e \<and> unat e \<le> 35"
proof -
  have "e \<in> set (map word_of_nat [0..<256])"
  proof -
    have "e = word_of_nat (unat e)" by simp
    then show ?thesis by (metis (no_types) atLeastLessThan_iff image_eqI list.set_map set_upt unat_byte_lt zero_le)
  qed
  moreover have "list_all (\<lambda>e :: byte. ((32 - (ucast e :: u64)) + 3 \<le> 32) = (3 \<le> unat e \<and> unat e \<le> 35)) (map word_of_nat [0..<256])"
    by code_simp
  ultimately show ?thesis by (simp only: list_all_iff)
qed

text \<open>
  What a compact target denotes. For exponents 33, 34 and 35 the wrapped offset passes the range
  check and the write lands before the buffer.
\<close>

definition nbits_mant :: "u32 \<Rightarrow> nat" where
  "nbits_mant nbits = (if nbits AND 0x00800000 \<noteq> 0 then 0 else unat (nbits AND 0x007fffff))"

definition nbits_exp :: "u32 \<Rightarrow> nat" where
  "nbits_exp nbits = unat (ucast (drop_bit 24 nbits) :: byte)"

lemma nbits_trivial: "nbits_mant nbits = 0 \<Longrightarrow> nbits_to_target nbits = Ok (replicate 32 0)"
  by (auto simp: nbits_to_target_def nbits_mant_def unat_eq_0 Let_def split: if_splits)

lemma nbits_mantE:
  assumes "nbits_mant nbits \<noteq> 0"
  obtains "nbits AND 0x00800000 = 0" and "nbits_mant nbits = unat (nbits AND 0x007fffff)" and "nbits AND 0x007fffff \<noteq> 0"
  using assms by (metis nbits_mant_def unsigned_0)

lemma nbits_small:
  assumes M: "nbits_mant nbits \<noteq> 0" and e: "nbits_exp nbits \<le> 3"
  shows "\<exists>t. nbits_to_target nbits = Ok t \<and> length t = 32 \<and>
    be_val t = nbits_mant nbits * 256 ^ nbits_exp nbits div 256 ^ 3"
proof -
  let ?m = "nbits AND 0x007fffff" and ?e = "nbits_exp nbits" and ?M = "nbits_mant nbits"
  let ?v = "drop_bit (8 * (3 - ?e)) ?m"
  have uv: "unat ?v = unat ?m div 256 ^ (3 - ?e)" by (simp only: unat_drop_bit power_mult) simp
  have v24: "unat ?v < 2 ^ 24"
    using mant_bound [of nbits] le_less_trans [OF div_le_dividend, of "unat ?m" "2 ^ 24"] unfolding uv by simp
  have r: "nbits_to_target nbits =
      Ok (replicate 29 0 @ [ucast (drop_bit 16 ?v AND 0xff), ucast (drop_bit 8 ?v AND 0xff), ucast (?v AND 0xff)])"
    using e M update3 [of 29 32]
    by (elim nbits_mantE) (simp add: nbits_to_target_def Let_def nbits_exp_def word_le_nat_alt)
  have p: "(256::nat) ^ 3 = 256 ^ ?e * 256 ^ (3 - ?e)" using e by (simp flip: power_add)
  have Mm: "?M = unat ?m" using M by (rule nbits_mantE)
  have "?M * 256 ^ ?e div 256 ^ 3 = (256 ^ ?e * unat ?m) div (256 ^ ?e * 256 ^ (3 - ?e))"
    by (simp only: Mm p mult.commute)
  also have "\<dots> = unat ?m div 256 ^ (3 - ?e)" by (rule div_mult_mult1) simp
  finally have "?M * 256 ^ ?e div 256 ^ 3 = unat ?v" by (simp only: uv)
  then show ?thesis using r be_val_mant [OF v24] by (simp add: be_val_lead_zeros del: replicate.simps)
qed

lemma nbits_large:
  assumes M: "nbits_mant nbits \<noteq> 0" and e: "3 < nbits_exp nbits"
  shows "nbits_to_target nbits =
    (if nbits_exp nbits \<le> 35
     then write3 (32 - ucast (ucast (drop_bit 24 nbits) :: byte)) (nbits AND 0x007fffff) (replicate 32 0)
     else Ok (replicate 32 0))"
proof -
  let ?exp = "ucast (drop_bit 24 nbits) :: byte"
  have "\<not> ?exp \<le> 3" using e by (simp add: nbits_exp_def word_le_nat_alt)
  moreover have "(32 - (ucast ?exp :: u64)) + 3 \<le> 32 \<longleftrightarrow> nbits_exp nbits \<le> 35"
    using nbits_exp_cases [of ?exp] e by (simp add: nbits_exp_def)
  ultimately show ?thesis using M by (elim nbits_mantE) (simp add: nbits_to_target_def Let_def)
qed

lemma nbits_regular:
  assumes M: "nbits_mant nbits \<noteq> 0" and e: "3 < nbits_exp nbits" "nbits_exp nbits \<le> 32"
  shows "\<exists>t. nbits_to_target nbits = Ok t \<and> length t = 32 \<and>
    be_val t = nbits_mant nbits * 256 ^ nbits_exp nbits div 256 ^ 3"
proof -
  let ?m = "nbits AND 0x007fffff" and ?e = "nbits_exp nbits" and ?exp = "ucast (drop_bit 24 nbits) :: byte"
  let ?b = "[ucast (drop_bit 16 ?m AND 0xff), ucast (drop_bit 8 ?m AND 0xff), ucast (?m AND 0xff)] :: byte list"
  have m24: "unat ?m < 2 ^ 24" using mant_bound [of nbits] by simp
  have off: "unat (32 - (ucast ?exp :: u64)) = 32 - ?e" using unat_off [of ?exp] e by (simp add: nbits_exp_def)
  have w: "nbits_to_target nbits = Ok (replicate (32 - ?e) 0 @ ?b @ replicate (?e - 3) 0)"
    using nbits_large [OF M e(1)] e update3 [of "32 - ?e" 32] unfolding write3_def Let_def off by simp
  have "(256::nat) ^ ?e = 256 ^ (3 + (?e - 3))" using e by simp
  then have p: "(256::nat) ^ ?e = 256 ^ 3 * 256 ^ (?e - 3)" by (simp only: power_add)
  have "nbits_mant nbits = unat ?m" using M by (rule nbits_mantE)
  then have "nbits_mant nbits * 256 ^ ?e div 256 ^ 3 = unat ?m * 256 ^ (?e - 3)" by (simp add: p)
  moreover have "be_val (replicate (32 - ?e) 0 @ ?b @ replicate (?e - 3) 0) = unat ?m * 256 ^ (?e - 3)"
    using be_val_replicate_tail [of ?b "?e - 3"] be_val_mant [OF m24] be_val_lead_zeros by metis
  ultimately show ?thesis using w e by simp
qed

lemma nbits_overflow:
  assumes M: "nbits_mant nbits \<noteq> 0" and e: "33 \<le> nbits_exp nbits" "nbits_exp nbits \<le> 35"
  shows "nbits_to_target nbits = UB"
proof -
  let ?exp = "ucast (drop_bit 24 nbits) :: byte"
  have "nbits_exp nbits = 33 \<or> nbits_exp nbits = 34 \<or> nbits_exp nbits = 35" using e by auto
  then have "?exp = word_of_nat 33 \<or> ?exp = word_of_nat 34 \<or> ?exp = word_of_nat 35"
    unfolding nbits_exp_def by (metis unat_eq_of_nat_byte)
  moreover have "\<not> 32 - (ucast (word_of_nat 33 :: byte) :: u64) < 30"
    "\<not> 32 - (ucast (word_of_nat 34 :: byte) :: u64) < 30"
    "\<not> 32 - (ucast (word_of_nat 35 :: byte) :: u64) < 30"
    by code_simp+
  ultimately have "\<not> 32 - (ucast ?exp :: u64) < 30" by metis
  then have "\<not> unat (32 - (ucast ?exp :: u64)) + 2 < 32" by (simp add: word_less_nat_alt)
  then show ?thesis using nbits_large [OF M] e by (simp add: write3_def)
qed

section \<open>Comparison of big-endian numbers\<close>

lemma be_val_less_Cons:
  assumes "length as = length bs" and "unat a < unat b"
  shows "be_val (a # as) < be_val (b # bs)"
proof -
  have "be_val (a # as) < unat a * 256 ^ length as + 256 ^ length as"
    using be_val_bound [of as] by (simp add: be_val_Cons)
  also have "\<dots> = (unat a + 1) * 256 ^ length bs" by (simp add: assms(1))
  also have "\<dots> \<le> unat b * 256 ^ length bs" using assms(2) by (intro mult_right_mono) simp_all
  also have "\<dots> \<le> be_val (b # bs)" by (simp add: be_val_Cons)
  finally show ?thesis .
qed

lemma be32_cmp_val:
  "length a = length b \<Longrightarrow>
   be32_cmp a b = (if be_val a < be_val b then -1 else if be_val a > be_val b then 1 else 0)"
proof (induction a b rule: be32_cmp.induct)
  case (1 a as b bs)
  then have len: "length as = length bs" by simp
  consider "unat a < unat b" | "unat b < unat a" | "a = b" by (metis linorder_less_linear word_unat_eq_iff)
  then show ?case
  proof cases
    case 1
    then show ?thesis using be_val_less_Cons [OF len, of a b] by (simp add: word_less_nat_alt)
  next
    case 2
    then show ?thesis using be_val_less_Cons [OF len [symmetric], of b a] by (simp add: word_less_nat_alt)
  next
    case 3
    then show ?thesis using "1.IH" len by (simp add: be_val_Cons)
  qed
qed auto

section \<open>128-bit big-endian integers\<close>

lemma u128_bytes_le_eq: "u128_bytes_le n v = le_bytes n v"
proof (induction n arbitrary: v)
  case (Suc n)
  have "(ucast (v AND 0xff) :: byte) = ucast v"
    by (rule bit_word_eqI) (auto simp: bit_simps bit_numeral_word_iff less_Suc_eq numeral_eq_Suc)
  then show ?case using Suc by simp
qed simp

lemma u128_to_be16_val: "be_val (u128_to_be16 v) = unat v \<and> length (u128_to_be16 v) = 16"
proof -
  have "unat v < 256 ^ 16" using unsigned_less [of v] by simp
  then show ?thesis by (simp add: u128_to_be16_def be_val_def u128_bytes_le_eq le_val_le_bytes)
qed

lemma be16_fold:
  assumes "unat v < 256 ^ n" and "n + length b \<le> 16"
  shows "unat (fold (\<lambda>x v. push_bit 8 v OR ucast x) b (v :: u128)) = unat v * 256 ^ length b + be_val b"
  using assms
proof (induction b arbitrary: v n)
  case Nil
  then show ?case by simp
next
  case (Cons x xs)
  have "push_bit 8 v OR ucast x = ucast x OR push_bit 8 v" by (rule or.commute)
  also have "\<dots> = ucast x + push_bit 8 v" by (rule ucast_or_push_bit) simp
  also have "\<dots> = word_of_nat (unat x + 256 * unat v)" by (simp add: push_bit_eq_mult)
  finally have w: "push_bit 8 v OR ucast x = word_of_nat (unat x + 256 * unat v)" .
  have lt: "unat x + 256 * unat v < 256 ^ Suc n"
  proof -
    have "unat x + 256 * unat v < 256 + 256 * unat v" by simp
    also have "\<dots> = 256 * Suc (unat v)" by simp
    also have "\<dots> \<le> 256 * 256 ^ n" using Cons.prems(1) by (intro mult_le_mono2) simp
    finally show ?thesis by simp
  qed
  also have "(256::nat) ^ Suc n \<le> 256 ^ 16" using Cons.prems(2) by (intro power_increasing) simp_all
  finally have u: "unat (word_of_nat (unat x + 256 * unat v) :: u128) = unat x + 256 * unat v"
    by (simp only: unsigned_of_nat) (simp add: take_bit_nat_eq_self)
  have "unat (fold (\<lambda>x v. push_bit 8 v OR ucast x) xs (word_of_nat (unat x + 256 * unat v) :: u128)) =
      (unat x + 256 * unat v) * 256 ^ length xs + be_val xs"
    using Cons.IH [of "word_of_nat (unat x + 256 * unat v)" "Suc n"] lt Cons.prems(2) unfolding u by simp
  then show ?case by (simp only: fold_simps w be_val_Cons) (simp add: algebra_simps)
qed

lemma be16_to_u128_val: "unat (be16_to_u128 b) = be_val (take 16 b)"
  using be16_fold [of 0 0 "take 16 b"] by (simp add: be16_to_u128_def)

section \<open>Share targets\<close>

definition diff1 :: rat where
  "diff1 = 65535 * 2 ^ 80"

lemma diff1_double: obtains h where "d_of_u128 (be16_to_u128 DIFF1_TARGET) = Fin h" and "0 < h" and "h \<le> 2 ^ 100"
proof -
  have t: "take 16 DIFF1_TARGET = (replicate 4 0 @ [0xff, 0xff]) @ replicate 10 0"
    by (simp add: DIFF1_TARGET_def)
  have b: "be_val (replicate 4 0 @ [0xff, 0xff]) = 65535" by (simp only: be_val_lead_zeros) (simp add: be_val_Cons)
  have "unat (be16_to_u128 DIFF1_TARGET) = 65535 * 256 ^ 10"
    unfolding be16_to_u128_val t be_val_replicate_tail b ..
  then have u: "uint (be16_to_u128 DIFF1_TARGET) = 65535 * 256 ^ 10"
    by (simp add: uint_nat)
  have q: "(of_int (65535 * 256 ^ 10) :: rat) = 65535 * 2 ^ 80" by simp
  have big: "(65535 * 2 ^ 80 :: rat) \<le> 2 ^ 96" by simp
  have "(2::rat) ^ 96 \<le> 2 ^ 1000" by (rule power_increasing) simp_all
  then obtain r where r: "d_round (65535 * 2 ^ 80) = Fin r" "\<bar>r - 65535 * 2 ^ 80\<bar> \<le> 65535 * 2 ^ 80 / 2 ^ 53 + d_tiny"
    using d_round_nonneg [of "65535 * 2 ^ 80"] big order_trans [OF big] by (metis zero_le_mult_iff zero_le_numeral zero_le_power)
  have "d_tiny \<le> 1" using d_tiny_small d_tiny_pos by simp
  then have "0 < r" "r \<le> 2 ^ 100" using r(2) by (simp_all add: abs_le_iff)
  then show ?thesis using that [of r] r(1) u q by (simp add: d_of_u128_def d_of_int_def)
qed

text \<open>The upper half of the target of difficulty \<open>d\<close>: the truncated scaled value, or saturation.\<close>

definition share_scaled :: "double \<Rightarrow> double" where
  "share_scaled diff = d_div (d_of_u128 (be16_to_u128 DIFF1_TARGET)) diff"

lemma d_round_nonneg_le: "0 \<le> q \<Longrightarrow> d_le (Fin 0) (d_round q)"
  using d_round_mono [of 0 q] by (simp add: d_round_def)

lemma worker_target_pos:
  assumes "0 < d"
  shows "worker_diff_to_target (Fin d) =
    (if d_lt (share_scaled (Fin d)) (Fin (2 ^ 128))
     then Ok (u128_to_be16 (word_of_int \<lfloor>case share_scaled (Fin d) of Fin s \<Rightarrow> s\<rfloor>) @ replicate 16 0)
     else Ok (replicate 32 0xff))"
    and "d_le (Fin 0) (share_scaled (Fin d))"
proof -
  obtain h where h: "d_of_u128 (be16_to_u128 DIFF1_TARGET) = Fin h" "0 < h" by (rule diff1_double)
  have s: "share_scaled (Fin d) = d_round (h / d)" using assms by (simp add: share_scaled_def h(1))
  have "0 \<le> h / d" using h(2) assms by simp
  then show nn: "d_le (Fin 0) (share_scaled (Fin d))" unfolding s by (rule d_round_nonneg_le)
  then have nl: "\<not> d_lt (share_scaled (Fin d)) (Fin 0)" by (cases "share_scaled (Fin d)") auto
  show "worker_diff_to_target (Fin d) =
    (if d_lt (share_scaled (Fin d)) (Fin (2 ^ 128))
     then Ok (u128_to_be16 (word_of_int \<lfloor>case share_scaled (Fin d) of Fin s \<Rightarrow> s\<rfloor>) @ replicate 16 0)
     else Ok (replicate 32 0xff))"
    using assms nn nl unfolding worker_diff_to_target_def share_scaled_def [symmetric] Let_def
    by (cases "share_scaled (Fin d)") (auto simp: rat_trunc_def floor_less_iff)
qed

lemma worker_target_total: "\<exists>t. worker_diff_to_target diff = Ok t \<and> length t = 32"
proof (cases "\<exists>d. diff = Fin d \<and> 0 < d")
  case True
  then show ?thesis using worker_target_pos(1) u128_to_be16_val by fastforce
next
  case False
  then show ?thesis by (cases diff) (auto simp: worker_diff_to_target_def)
qed

lemma share_scaled_antitone: "0 < a \<Longrightarrow> a \<le> b \<Longrightarrow> d_le (share_scaled (Fin b)) (share_scaled (Fin a))"
proof -
  assume a: "0 < a" and ab: "a \<le> b"
  obtain h where h: "d_of_u128 (be16_to_u128 DIFF1_TARGET) = Fin h" "0 < h" by (rule diff1_double)
  have "h / b \<le> h / a" using h(2) a ab by (intro divide_left_mono) simp_all
  moreover have "0 \<le> h / b" using h(2) a ab by simp
  ultimately show ?thesis using a ab d_round_mono by (simp add: share_scaled_def h(1))
qed

definition target_of :: "double \<Rightarrow> nat" where
  "target_of diff = be_val (case worker_diff_to_target diff of Ok t \<Rightarrow> t | _ \<Rightarrow> [])"

lemma be_val_ones: "be_val (replicate n 0xff) = 256 ^ n - 1"
proof (induction n)
  case (Suc n)
  have u: "unat (0xff :: byte) = 255" by simp
  have "be_val (replicate (Suc n) 0xff) = 255 * 256 ^ n + (256 ^ n - 1)"
    by (simp only: replicate_Suc be_val_Cons u length_replicate Suc)
  moreover have "(1::nat) \<le> 256 ^ n" by simp
  ultimately show ?case by simp
qed simp

lemma target_of_pos:
  assumes "0 < d"
  shows "target_of (Fin d) = (case share_scaled (Fin d) of
    Fin s \<Rightarrow> if s < 2 ^ 128 then nat \<lfloor>s\<rfloor> * 256 ^ 16 else 256 ^ 32 - 1 | _ \<Rightarrow> 256 ^ 32 - 1)"
proof (cases "share_scaled (Fin d)")
  case (Fin s)
  have s0: "0 \<le> s" using worker_target_pos(2) [OF assms] Fin by simp
  show ?thesis
  proof (cases "s < 2 ^ 128")
    case True
    have fl: "0 \<le> \<lfloor>s\<rfloor>" "\<lfloor>s\<rfloor> < 2 ^ 128" using s0 True by (simp_all add: floor_less_iff)
    then have "unat (word_of_int \<lfloor>s\<rfloor> :: u128) = nat \<lfloor>s\<rfloor>"
      by (simp add: unsigned_of_int take_bit_int_eq_self)
    then have "be_val (u128_to_be16 (word_of_int \<lfloor>s\<rfloor>) @ replicate 16 0) = nat \<lfloor>s\<rfloor> * 256 ^ 16"
      unfolding be_val_replicate_tail using u128_to_be16_val by simp
    then show ?thesis using True Fin by (simp only: target_of_def worker_target_pos(1) [OF assms] Fin d_lt.simps double.case res.case if_True)
  next
    case False
    then show ?thesis using be_val_ones [of 32] by (simp only: target_of_def worker_target_pos(1) [OF assms] Fin d_lt.simps double.case res.case if_False)
  qed
next
  case NInf
  then show ?thesis using worker_target_pos(2) [OF assms] by simp
next
  case PInf
  then show ?thesis using be_val_ones [of 32] by (simp only: target_of_def worker_target_pos(1) [OF assms] PInf d_lt.simps double.case res.case if_False)
next
  case NaN
  then show ?thesis using worker_target_pos(2) [OF assms] by simp
qed

lemma target_of_antitone:
  assumes "0 < a" and "a \<le> b"
  shows "target_of (Fin b) \<le> target_of (Fin a)"
proof -
  have le: "d_le (share_scaled (Fin b)) (share_scaled (Fin a))" by (rule share_scaled_antitone [OF assms])
  have b: "0 < b" using assms by simp
  have top: "target_of (Fin b) \<le> 256 ^ 32 - 1"
  proof -
    obtain t where t: "worker_diff_to_target (Fin b) = Ok t" "length t = 32" using worker_target_total by blast
    then show ?thesis using be_val_bound [of t] by (simp add: target_of_def)
  qed
  show ?thesis
  proof (cases "\<exists>s. share_scaled (Fin a) = Fin s \<and> s < 2 ^ 128")
    case False
    then have "target_of (Fin a) = 256 ^ 32 - 1"
      unfolding target_of_pos [OF assms(1)] by (cases "share_scaled (Fin a)") simp_all
    then show ?thesis using top by (simp only:)
  next
    case True
    then obtain s where s: "share_scaled (Fin a) = Fin s" "s < 2 ^ 128" by blast
    obtain r where r: "share_scaled (Fin b) = Fin r" "r \<le> s"
      using le s(1) worker_target_pos(2) [OF b] by (cases "share_scaled (Fin b)") auto
    have "r < 2 ^ 128" using r(2) s(2) by simp
    moreover have "nat \<lfloor>r\<rfloor> \<le> nat \<lfloor>s\<rfloor>" using r(2) by (intro nat_mono floor_mono)
    ultimately show ?thesis
      unfolding target_of_pos [OF assms(1)] target_of_pos [OF b] s(1) r(1)
      using s(2) by (simp only: double.case if_True mult_le_mono1)
  qed
qed

section \<open>Merkle roots\<close>

function merkle_root :: "byte list list \<Rightarrow> byte list" where
  "merkle_root lvl = (if length lvl > 1 then merkle_root (merkle_next lvl) else hd lvl)"
  by pat_completeness auto
termination
  by (relation "measure length") (auto simp: length_merkle_next)

declare merkle_root.simps [simp del]

lemma branches_fold:
  "merkle_root_from_branches y (merkle_branches_loop (x # rest)) = merkle_root (y # rest)"
proof (induction "length rest" arbitrary: x y rest rule: less_induct)
  case less
  show ?case
  proof (cases rest)
    case Nil
    then show ?thesis by (simp add: merkle_branches_loop.simps merkle_root.simps)
  next
    case (Cons b r)
    have "length (merkle_next r) < length rest" by (simp add: Cons length_merkle_next)
    then have "merkle_root_from_branches (dsha256 (y @ b)) (merkle_branches_loop (dsha256 (x @ b) # merkle_next r)) =
        merkle_root (dsha256 (y @ b) # merkle_next r)" by (rule less)
    then show ?thesis
      by (simp add: Cons merkle_branches_loop.simps [of "x # b # r"] merkle_root.simps [of "y # b # r"])
  qed
qed

lemma put_u32_le_bytes: "put_u32_le v = le_bytes 4 v"
proof -
  have "(ucast (w AND 0xff) :: byte) = ucast w" for w :: u32
    by (rule bit_word_eqI) (auto simp: bit_simps bit_numeral_word_iff less_Suc_eq numeral_eq_Suc)
  then show ?thesis by (simp only: put_u32_le_def le_bytes_4)
qed

section \<open>Properties\<close>

text \<open>C18. The coinbase branches a job carries are the right ones: folding them over any coinbase hash
  gives the root of the full Merkle tree of that coinbase followed by the template's
  transactions, whatever their number, although they are computed once, with a placeholder.\<close>

theorem merkle_branches_correct:
  "merkle_root_from_branches leaf (compute_merkle_branches_for_idx0 txids) = merkle_root (leaf # txids)"
  by (simp only: compute_merkle_branches_for_idx0_def branches_fold)

text \<open>The share target is defined for every difficulty, 32 bytes long, and antitone: a hash that
  meets the target of a higher difficulty meets that of every lower one, under the comparison
  the server uses.\<close>

theorem share_target_antitone:
  assumes "0 < a" and "a \<le> b"
  shows "\<exists>ta tb. worker_diff_to_target (Fin a) = Ok ta \<and> worker_diff_to_target (Fin b) = Ok tb \<and>
    length ta = 32 \<and> length tb = 32 \<and>
    (\<forall>hash. length hash = 32 \<longrightarrow> be32_cmp hash tb \<le> 0 \<longrightarrow> be32_cmp hash ta \<le> 0)"
proof -
  obtain ta tb where t: "worker_diff_to_target (Fin a) = Ok ta" "length ta = 32"
    "worker_diff_to_target (Fin b) = Ok tb" "length tb = 32" using worker_target_total by metis
  have "be_val tb \<le> be_val ta" using target_of_antitone [OF assms] t by (simp add: target_of_def)
  then show ?thesis using t by (auto simp: be32_cmp_val split: if_splits)
qed

theorem share_target_antitone_witness:
  "\<exists>ta tb. worker_diff_to_target (Fin 1) = Ok ta \<and> worker_diff_to_target (Fin 1024) = Ok tb \<and>
    (\<forall>hash. length hash = 32 \<longrightarrow> be32_cmp hash tb \<le> 0 \<longrightarrow> be32_cmp hash ta \<le> 0)"
  using share_target_antitone [of 1 1024] by auto

text \<open>The byte-wise comparison of hashes and targets is the comparison of the 256-bit numbers.\<close>

lemma be32_cmp_numeric:
  assumes "length a = 32" and "length b = 32"
  shows "be32_cmp a b = (if be_val a < be_val b then -1 else if be_val a > be_val b then 1 else 0)"
  using assms by (simp add: be32_cmp_val)

text \<open>C33. A compact target denotes mantissa times a power of 256, except that for a nonzero mantissa
  and an exponent of 33, 34 or 35 the wrapped offset passes the range check and the three bytes
  are written outside the buffer: those are exactly the inputs with undefined behaviour.\<close>

theorem nbits_to_target_spec:
  "(nbits_to_target nbits = UB \<longleftrightarrow> nbits_mant nbits \<noteq> 0 \<and> nbits_exp nbits \<in> {33, 34, 35}) \<and>
   (nbits_mant nbits = 0 \<or> nbits_exp nbits \<notin> {33, 34, 35} \<longrightarrow>
     (\<exists>t. nbits_to_target nbits = Ok t \<and> length t = 32 \<and>
       be_val t = (if nbits_exp nbits > 35 then 0 else nbits_mant nbits * 256 ^ nbits_exp nbits div 256 ^ 3)))"
proof -
  have z: "be_val (replicate 32 (0::byte)) = 0" using be_val_lead_zeros [of 32 "[]"] by simp
  consider (triv) "nbits_mant nbits = 0" | (small) "nbits_mant nbits \<noteq> 0" "nbits_exp nbits \<le> 3"
    | (reg) "nbits_mant nbits \<noteq> 0" "3 < nbits_exp nbits" "nbits_exp nbits \<le> 32"
    | (ub) "nbits_mant nbits \<noteq> 0" "33 \<le> nbits_exp nbits" "nbits_exp nbits \<le> 35"
    | (big) "nbits_mant nbits \<noteq> 0" "35 < nbits_exp nbits" by linarith
  then show ?thesis
  proof cases
    case triv
    then show ?thesis using nbits_trivial [OF triv] z by simp
  next
    case small
    then show ?thesis using nbits_small [OF small] by auto
  next
    case reg
    then show ?thesis using nbits_regular [OF reg] by auto
  next
    case ub
    then have "nbits_exp nbits \<in> {33, 34, 35}" by auto
    then show ?thesis using nbits_overflow [OF ub] ub(1) by simp
  next
    case big
    then show ?thesis using nbits_large [OF big(1)] z by simp
  qed
qed

theorem nbits_to_target_spec_witness:
  "nbits_exp 0x1d00ffff = 29 \<and>
   (\<exists>t. nbits_to_target 0x1d00ffff = Ok t \<and> length t = 32 \<and> be_val t = 0xffff * 256 ^ 26)"
proof -
  have e: "nbits_exp 0x1d00ffff = 29" "nbits_mant 0x1d00ffff = 0xffff"
    by (simp_all add: nbits_exp_def nbits_mant_def)
  have "(0xffff * 256 ^ 29 :: nat) div 256 ^ 3 = 0xffff * 256 ^ 26" by simp
  moreover have "\<exists>t. nbits_to_target 0x1d00ffff = Ok t \<and> length t = 32 \<and>
      be_val t = 0xffff * 256 ^ 29 div 256 ^ 3"
    using nbits_to_target_spec [of "0x1d00ffff"] unfolding e by auto
  ultimately show ?thesis using e(1) by simp
qed

text \<open>The 80-byte header carries its fields: version, time, bits and nonce read back little-endian
  at their offsets, and the two hashes stand between them.\<close>

theorem header_fields:
  assumes "length prev = 32" and "length mroot = 32"
  shows "let h = build_header version prev mroot ntime nbits nonce in
    length h = 80 \<and> rd_u32 h 0 = Some (version, 4) \<and> take 32 (drop 4 h) = prev \<and> take 32 (drop 36 h) = mroot \<and>
    rd_u32 h 68 = Some (ntime, 72) \<and> rd_u32 h 72 = Some (nbits, 76) \<and> rd_u32 h 76 = Some (nonce, 80)"
proof -
  have "rd_u32 (build_header version prev mroot ntime nbits nonce) 0 = Some (version, 4)"
    using rd_u32_le_bytes [of "[]" version] by (simp add: build_header_def put_u32_le_bytes)
  moreover have "rd_u32 (build_header version prev mroot ntime nbits nonce) 68 = Some (ntime, 72)"
    using rd_u32_le_bytes [of "le_bytes 4 version @ prev @ mroot" ntime] assms by (simp add: build_header_def put_u32_le_bytes)
  moreover have "rd_u32 (build_header version prev mroot ntime nbits nonce) 72 = Some (nbits, 76)"
    using rd_u32_le_bytes [of "le_bytes 4 version @ prev @ mroot @ le_bytes 4 ntime" nbits] assms by (simp add: build_header_def put_u32_le_bytes)
  moreover have "rd_u32 (build_header version prev mroot ntime nbits nonce) 76 = Some (nonce, 80)"
    using rd_u32_le_bytes [of "le_bytes 4 version @ prev @ mroot @ le_bytes 4 ntime @ le_bytes 4 nbits" nonce "[]"] assms by (simp add: build_header_def put_u32_le_bytes)
  ultimately show ?thesis using assms by (simp add: build_header_def put_u32_le_bytes)
qed

theorem header_fields_witness:
  "length (replicate 32 (7::byte)) = 32 \<and>
   rd_u32 (build_header 0x20000000 (replicate 32 7) (replicate 32 7) 1 0x1d00ffff 42) 76 = Some (42, 80)"
  using header_fields [of "replicate 32 7" "replicate 32 7" "0x20000000" 1 "0x1d00ffff" 42] by (simp add: Let_def)

text \<open>The issuance ceiling only ever lowers a rate: the result is the rate or, when the rate is
  not below the ceiling, the ceiling.\<close>

lemma issuance_ceiling_lowers:
  assumes "rate \<noteq> NaN"
  shows "d_le (pps_rate_apply_issuance_ceiling rate v dps bis) rate"
proof -
  have refl: "d_le rate rate" using assms by (cases rate) auto
  have "d_le c rate" if "\<not> d_lt rate c" "d_isfinite c" for c
    using that assms by (cases rate; cases c) auto
  then show ?thesis using refl by (simp add: pps_rate_apply_issuance_ceiling_def Let_def)
qed

end
