(* ===== verification/Template.thy ===== *)
theory Template
  imports Coinbase
begin

text \<open>
  Coinbases built from a node's \<open>coinbasetxn\<close> (\<^verbatim>\<open>src/coinbase.c\<close>): the transaction parser, the
  replacement of its one spendable output, the resolvers for a single miner and for a window,
  the payout slot estimate, and the reward and output-count probes. Offsets are natural
  numbers below \<open>2^64\<close>; the additions of a length read from the transaction wrap as \<open>size_t\<close>
  does, and reading outside the transaction is undefined behaviour.
\<close>

section \<open>The parsed transaction\<close>

record cb_out =
  co_value :: u64
  co_spk_off :: nat
  co_spk_len :: u64
  co_op_return :: bool

text \<open>\<open>off + len\<close> and \<open>off += len\<close> for a \<open>uint64_t\<close> length.\<close>

definition add64 :: "nat \<Rightarrow> u64 \<Rightarrow> nat" where
  "add64 off n = (off + unat n) mod 2 ^ 64"

fun opt_res :: "string \<Rightarrow> 'a option \<Rightarrow> 'a res" where
  "opt_res m None = Err m"
| "opt_res m (Some x) = Ok x"

text \<open>\<open>spk_len >= 1 && tx[off] == 0x6a\<close>\<close>

definition is_op_return :: "byte list \<Rightarrow> nat \<Rightarrow> u64 \<Rightarrow> bool res" where
  "is_op_return tx off spk_len =
     (if spk_len \<ge> 1 then if off < length tx then Ok (tx ! off = 0x6a) else UB else Ok False)"

fun parse_outs :: "byte list \<Rightarrow> nat \<Rightarrow> nat \<Rightarrow> (cb_out list \<times> nat) res" where
  "parse_outs tx 0 off = Ok ([], off)"
| "parse_outs tx (Suc n) off =
     bindR (opt_res ''truncated output value'' (rd_u64 tx off)) (\<lambda>(val, off).
     bindR (opt_res ''truncated scriptPubKey'' (rd_varint tx off)) (\<lambda>(spk_len, off).
     guardR (add64 off spk_len > length tx) ''truncated scriptPubKey''
    (bindR (is_op_return tx off spk_len) (\<lambda>opr.
     bindR (parse_outs tx n (add64 off spk_len)) (\<lambda>(outs, off').
       Ok (\<lparr>co_value = val, co_spk_off = off, co_spk_len = spk_len, co_op_return = opr\<rparr> # outs, off'))))))"

fun skip_witness :: "byte list \<Rightarrow> nat \<Rightarrow> nat \<Rightarrow> nat res" where
  "skip_witness tx 0 off = Ok off"
| "skip_witness tx (Suc n) off =
     bindR (opt_res ''truncated witness item'' (rd_varint tx off)) (\<lambda>(il, off).
     guardR (add64 off il > length tx) ''truncated witness item''
       (skip_witness tx n (add64 off il)))"

definition has_marker :: "byte list \<Rightarrow> nat \<Rightarrow> bool" where
  "has_marker tx off \<longleftrightarrow> off + 2 \<le> length tx \<and> tx ! off = 0x00 \<and> tx ! (off + 1) \<noteq> 0x00"

record parsed_tx =
  pt_version :: u32
  pt_has_witness :: bool
  pt_prevout_off :: nat
  pt_ss_off :: nat
  pt_ss_len :: u64
  pt_sequence :: u32
  pt_outs :: "cb_out list"
  pt_locktime :: u32

definition parse_template :: "byte list \<Rightarrow> parsed_tx res" where
  "parse_template tx =
     bindR (opt_res ''truncated coinbasetxn'' (rd_u32 tx 0)) (\<lambda>(version, off).
     let has_witness = has_marker tx off;
         off = (if has_witness then off + 2 else off) in
     bindR (opt_res ''truncated coinbasetxn'' (rd_varint tx off)) (\<lambda>(vin, off).
     guardR (vin \<noteq> 1) ''coinbasetxn input count %llu != 1''
    (let prevout_off = off in
     guardR (off + 36 > length tx) ''truncated coinbasetxn input''
    (bindR (opt_res ''truncated scriptSig'' (rd_varint tx (off + 36))) (\<lambda>(ss_len, ss_off).
     guardR (add64 ss_off ss_len > length tx) ''truncated scriptSig''
    (bindR (opt_res ''truncated sequence'' (rd_u32 tx (add64 ss_off ss_len))) (\<lambda>(sequence, off).
     bindR (opt_res ''truncated output count'' (rd_varint tx off)) (\<lambda>(vout, off).
     guardR (vout = 0) ''coinbasetxn has no outputs''
    (bindR (parse_outs tx (unat vout) off) (\<lambda>(outs, off).
     bindR (if has_witness
            then bindR (opt_res ''truncated witness'' (rd_varint tx off)) (\<lambda>(stack, off).
                   skip_witness tx (unat stack) off)
            else Ok off) (\<lambda>off.
     bindR (opt_res ''truncated locktime'' (rd_u32 tx off)) (\<lambda>(locktime, off).
     guardR (off \<noteq> length tx) ''coinbasetxn trailing bytes''
       (Ok \<lparr>pt_version = version, pt_has_witness = has_witness, pt_prevout_off = prevout_off,
            pt_ss_off = ss_off, pt_ss_len = ss_len, pt_sequence = sequence, pt_outs = outs,
            pt_locktime = locktime\<rparr>)))))))))))))"

section \<open>Replacing the reward\<close>

text \<open>The last output that is not an \<open>OP_RETURN\<close>, and how many there are.\<close>

definition reward_count :: "cb_out list \<Rightarrow> nat" where
  "reward_count outs = length (filter (\<lambda>c. \<not> co_op_return c) outs)"

fun reward_idx :: "cb_out list \<Rightarrow> nat \<Rightarrow> nat option \<Rightarrow> nat option" where
  "reward_idx [] i acc = acc"
| "reward_idx (c # cs) i acc = reward_idx cs (i + 1) (if co_op_return c then acc else Some i)"

definition template_fixed_bytes :: "parsed_tx \<Rightarrow> nat \<Rightarrow> string option \<Rightarrow> u32 \<Rightarrow> nat \<Rightarrow> nat \<Rightarrow> nat" where
  "template_fixed_bytes p ri tag salt en1 en2 =
     (let ss_probe = (unat (pt_ss_len p) + cb_tag_push_len tag salt + en1 + en2) mod 2 ^ 64;
          others = map snd (filter (\<lambda>(i, c). i \<noteq> ri) (enumerate 0 (pt_outs p)))
      in (4 + 1 + 36 + (if ss_probe < 253 then 1 else 3) + ss_probe + 4 + 3 + 4 +
          sum_list (map (\<lambda>c. out_ser_size (unat (co_spk_len c))) others)) mod 2 ^ 64)"

fun sum_repl :: "cb_repl_out list \<Rightarrow> int \<Rightarrow> int res" where
  "sum_repl [] acc = Ok acc"
| "sum_repl (c # cs) acc = bindR (chk64 (acc + ro_sats c)) (sum_repl cs)"

fun push_repls :: "cb_repl_out list \<Rightarrow> bbuf \<Rightarrow> bbuf" where
  "push_repls [] b = b"
| "push_repls (c # cs) b = push_repls cs (push_output b (ro_sats c) (ro_spk c))"

text \<open>The output loop: the reward output becomes the replacements, the others are copied.\<close>

fun push_outs :: "byte list \<Rightarrow> nat \<Rightarrow> cb_repl_out list \<Rightarrow> nat \<Rightarrow> cb_out list \<Rightarrow> bbuf \<Rightarrow> bbuf res" where
  "push_outs tx ri repl i [] b = Ok b"
| "push_outs tx ri repl i (c # cs) b =
     (if i = ri then push_outs tx ri repl (i + 1) cs (push_repls repl b)
      else bindR (read_bytes tx (co_spk_off c) (unat (co_spk_len c))) (\<lambda>spk.
        push_outs tx ri repl (i + 1) cs
          (bbuf_push (bbuf_push_varint (bbuf_push_u64_le b (co_value c)) (co_spk_len c)) spk)))"

definition build_from_template_impl ::
  "string \<Rightarrow> (int \<Rightarrow> nat \<Rightarrow> nat \<Rightarrow> (cb_repl_out list \<times> 'r) res) \<Rightarrow> string option \<Rightarrow> u32 \<Rightarrow> nat \<Rightarrow> nat \<Rightarrow>
   (coinbase_parts \<times> bool \<times> 'r) res" where
  "build_from_template_impl hex repl_fn tag salt en1 en2 =
     guardR (length hex mod 2 \<noteq> 0) ''odd coinbasetxn hex''
    (bindR (opt_res ''bad coinbasetxn hex'' (hex_decode hex (length hex div 2))) (\<lambda>tx.
     bindR (parse_template tx) (\<lambda>p.
     guardR (reward_count (pt_outs p) \<noteq> 1) ''coinbasetxn has %d spendable outputs (expected 1)''
    (let ri = the (reward_idx (pt_outs p) 0 None);
         reward = sint (co_value (pt_outs p ! ri));
         fixed_bytes = template_fixed_bytes p ri tag salt en1 en2 in
     bindR (repl_fn reward fixed_bytes CB_MAX_REPL_OUTS) (\<lambda>(repl, r).
     guardR (repl = []) ''resolver produced no outputs''
    (bindR (sum_repl repl 0) (\<lambda>repl_total.
     guardR (repl_total \<noteq> reward) ''replacement outputs sum to %lld, template reward is %lld''
    (let tag_push = cb_tag_push tag salt;
         new_ss_len = pt_ss_len p + word_of_nat (length tag_push) + word_of_nat (en1 + en2) in
     guardR (new_ss_len < 2 \<or> new_ss_len > 100) ''coinbase scriptSig length %llu out of range''
    (bindR (read_bytes tx (pt_prevout_off p) 36) (\<lambda>prevout.
     bindR (if pt_ss_len p \<noteq> 0 then read_bytes tx (pt_ss_off p) (unat (pt_ss_len p)) else Ok []) (\<lambda>ss.
     let c1 = bbuf_push_u32_le bbuf_init (pt_version p);
         c1 = bbuf_push_varint c1 1;
         c1 = bbuf_push c1 prevout;
         c1 = bbuf_push_varint c1 new_ss_len;
         c1 = (if pt_ss_len p \<noteq> 0 then bbuf_push c1 ss else c1);
         c1 = (if tag_push \<noteq> [] then bbuf_push c1 tag_push else c1);
         new_vout = word_of_nat (length (pt_outs p)) - 1 + word_of_nat (length repl)
     in bindR (push_outs tx ri repl 0 (pt_outs p) bbuf_init) (\<lambda>ob.
        let c2 = bbuf_push_u32_le bbuf_init (pt_sequence p);
            c2 = bbuf_push_varint c2 new_vout;
            c2 = bbuf_push c2 (bb_data ob);
            c2 = bbuf_push_u32_le c2 (pt_locktime p)
        in Ok (\<lparr>cb1 = bb_data c1, cb2 = bb_data c2\<rparr>, pt_has_witness p, r)))))))))))))"

section \<open>The resolvers and the public builders\<close>

definition repl_single ::
  "string \<Rightarrow> string option \<Rightarrow> int \<Rightarrow> int \<Rightarrow> nat \<Rightarrow> nat \<Rightarrow> (cb_repl_out list \<times> int \<times> int) res" where
  "repl_single miner_address operator_address fee_bps reward fixed_bytes cap =
     guardR (cap < 2) ''internal: repl cap''
    (bindR (split_fee reward operator_address fee_bps) (\<lambda>(op, fee_sats).
     bindR (case op of None \<Rightarrow> Ok reward | Some _ \<Rightarrow> chk64 (reward - fee_sats)) (\<lambda>miner_sats.
     bindR (coinbase_address_to_script miner_address 64) (\<lambda>spk.
       Ok (\<lparr>ro_spk = spk, ro_sats = miner_sats\<rparr> #
             (case op of None \<Rightarrow> [] | Some ospk \<Rightarrow> if fee_sats > 0 then [\<lparr>ro_spk = ospk, ro_sats = fee_sats\<rparr>] else []),
           miner_sats, fee_sats)))))"

definition repl_window ::
  "coinbase_payee list \<Rightarrow> string option \<Rightarrow> int \<Rightarrow> nat \<Rightarrow> int \<Rightarrow> int \<Rightarrow> nat \<Rightarrow> nat \<Rightarrow>
   (cb_repl_out list \<times> coinbase_window_result) res" where
  "repl_window payees operator_address fee_bps max_coinbase_bytes flr reward fixed_bytes cap =
     resolve_window_outputs reward payees operator_address fee_bps max_coinbase_bytes fixed_bytes flr cap"

definition coinbase_build_from_template ::
  "string option \<Rightarrow> string option \<Rightarrow> string option \<Rightarrow> int \<Rightarrow> string option \<Rightarrow> u32 \<Rightarrow> nat \<Rightarrow> nat \<Rightarrow>
   (coinbase_parts \<times> bool \<times> int \<times> int) res" where
  "coinbase_build_from_template hex miner_address operator_address fee_bps tag salt en1 en2 =
     (case (miner_address, hex) of
        (Some ma, Some h) \<Rightarrow>
          build_from_template_impl h (repl_single ma operator_address fee_bps) tag salt en1 en2
      | _ \<Rightarrow> Err ''null arg'')"

definition coinbase_build_window_from_template ::
  "string option \<Rightarrow> coinbase_payee list \<Rightarrow> string option \<Rightarrow> int \<Rightarrow> string option \<Rightarrow> u32 \<Rightarrow> nat \<Rightarrow> nat \<Rightarrow>
   nat \<Rightarrow> int \<Rightarrow> (coinbase_parts \<times> bool \<times> coinbase_window_result) res" where
  "coinbase_build_window_from_template hex payees operator_address fee_bps tag salt en1 en2 maxb flr =
     guardR (payees = []) ''window is empty: nobody to pay''
    (case hex of
       None \<Rightarrow> Err ''null arg''
     | Some h \<Rightarrow> build_from_template_impl h (repl_window payees operator_address fee_bps maxb flr) tag salt en1 en2)"

section \<open>Probes\<close>

fun slots_loop :: "nat \<Rightarrow> string option list \<Rightarrow> nat \<Rightarrow> nat \<Rightarrow> nat" where
  "slots_loop room [] used slots = slots"
| "slots_loop room (a # as) used slots =
     (let cost = (case a of
                    None \<Rightarrow> out_ser_size 22
                  | Some s \<Rightarrow> (case coinbase_address_to_script s 64 of
                                Ok spk \<Rightarrow> out_ser_size (length spk) | _ \<Rightarrow> out_ser_size 22))
      in if used + cost > room then slots else slots_loop room as (used + cost) (slots + 1))"

definition clamp_slots :: "nat \<Rightarrow> nat" where
  "clamp_slots slots =
     (let slots = (if slots < 1 then 1 else slots)
      in if slots > COINBASE_MAX_PAYOUT_OUTPUTS then COINBASE_MAX_PAYOUT_OUTPUTS else slots)"

definition coinbase_expected_payout_slots :: "nat \<Rightarrow> string option \<Rightarrow> string option list \<Rightarrow> nat" where
  "coinbase_expected_payout_slots max_coinbase_bytes hex addresses =
     (let budget = (if max_coinbase_bytes \<noteq> 0 then max_coinbase_bytes else COINBASE_DEFAULT_MAX_BYTES);
          fixed = (case hex of None \<Rightarrow> 160
                   | Some h \<Rightarrow> let f = 160 + length h div 2 in if f > 31 then f - 31 else f)
      in if budget \<le> fixed then 1
         else let room = budget - fixed in
           if addresses \<noteq> [] then clamp_slots (slots_loop room addresses 0 0)
           else clamp_slots (room div 31))"

fun count_inputs :: "byte list \<Rightarrow> nat \<Rightarrow> nat \<Rightarrow> nat option" where
  "count_inputs tx 0 off = Some off"
| "count_inputs tx (Suc n) off =
     (if off + 36 > length tx then None
      else case rd_varint tx (off + 36) of
        None \<Rightarrow> None
      | Some (ss, off) \<Rightarrow>
          let off' = (off + unat ss + 4) mod 2 ^ 64
          in if off' > length tx then None else count_inputs tx n off')"

fun count_outs :: "byte list \<Rightarrow> nat \<Rightarrow> nat \<Rightarrow> nat \<times> nat \<Rightarrow> (nat \<times> nat) option res" where
  "count_outs tx 0 off (sp, opr) = Ok (Some (sp, opr))"
| "count_outs tx (Suc n) off (sp, opr) =
     (case rd_u64 tx off of
        None \<Rightarrow> Ok None
      | Some (val, off) \<Rightarrow>
        (case rd_varint tx off of
           None \<Rightarrow> Ok None
         | Some (spk_len, off) \<Rightarrow>
             if add64 off spk_len > length tx then Ok None
             else bindR (is_op_return tx off spk_len) (\<lambda>b.
               count_outs tx n (add64 off spk_len) (if b then (sp, opr + 1) else (sp + 1, opr)))))"

text \<open>\<open>Ok None\<close> is the return of \<open>-1\<close>; no message is written.\<close>

definition coinbase_count_outputs :: "string option \<Rightarrow> (nat \<times> nat) option res" where
  "coinbase_count_outputs tx_hex =
     (case tx_hex of
        None \<Rightarrow> Ok None
      | Some h \<Rightarrow>
        if length h mod 2 \<noteq> 0 then Ok None
        else case hex_decode h (length h div 2) of
          None \<Rightarrow> Ok None
        | Some tx \<Rightarrow>
          (case rd_u32 tx 0 of
             None \<Rightarrow> Ok None
           | Some (version, off) \<Rightarrow>
             let off = (if has_marker tx off then off + 2 else off) in
             (case rd_varint tx off of
                None \<Rightarrow> Ok None
              | Some (vin, off) \<Rightarrow>
                (case count_inputs tx (unat vin) off of
                   None \<Rightarrow> Ok None
                 | Some off \<Rightarrow>
                   (case rd_varint tx off of
                      None \<Rightarrow> Ok None
                    | Some (vout, off) \<Rightarrow> count_outs tx (unat vout) off (0, 0))))))"

definition cb_reward_probe :: "int \<Rightarrow> nat \<Rightarrow> nat \<Rightarrow> (cb_repl_out list \<times> int) res" where
  "cb_reward_probe reward fixed_bytes cap =
     guardR (cap < 1) ''reward probe: bad arg'' (Ok ([\<lparr>ro_spk = [0x51], ro_sats = reward\<rparr>], reward))"

definition coinbase_template_reward :: "string option \<Rightarrow> int option res" where
  "coinbase_template_reward hex =
     (case hex of
        None \<Rightarrow> Ok None
      | Some h \<Rightarrow>
        bindR (coinbase_count_outputs (Some h)) (\<lambda>c.
          case c of
            None \<Rightarrow> Ok None
          | Some (spendable, op_returns) \<Rightarrow>
            if spendable \<noteq> 1 then Ok None
            else case build_from_template_impl h cb_reward_probe None 0 4 4 of
              UB \<Rightarrow> UB
            | Err m \<Rightarrow> Ok None
            | Ok (_, _, reward) \<Rightarrow> if reward < 0 then Ok None else Ok (Some reward)))"

section \<open>Serialised transactions\<close>

definition ser_out :: "u64 \<times> byte list \<Rightarrow> byte list" where
  "ser_out o' = le_bytes 8 (fst o') @ varint_bytes (word_of_nat (length (snd o'))) @ snd o'"

definition ser_item :: "byte list \<Rightarrow> byte list" where
  "ser_item it = varint_bytes (word_of_nat (length it)) @ it"

definition op_ret :: "byte list \<Rightarrow> bool" where
  "op_ret spk \<longleftrightarrow> spk \<noteq> [] \<and> hd spk = 0x6a"

record tmpl =
  tm_version :: u32
  tm_prevout :: "byte list"
  tm_ss :: "byte list"
  tm_sequence :: u32
  tm_outs :: "(u64 \<times> byte list) list"
  tm_witness :: "byte list list option"
  tm_locktime :: u32

definition ser_head :: "tmpl \<Rightarrow> byte list" where
  "ser_head t = le_bytes 4 (tm_version t) @ (if tm_witness t = None then [] else [0x00, 0x01]) @ varint_bytes 1"

definition ser_tail :: "tmpl \<Rightarrow> byte list" where
  "ser_tail t = (case tm_witness t of None \<Rightarrow> []
       | Some ws \<Rightarrow> varint_bytes (word_of_nat (length ws)) @ concat (map ser_item ws)) @ le_bytes 4 (tm_locktime t)"

definition ser_tx :: "tmpl \<Rightarrow> byte list" where
  "ser_tx t = ser_head t @ tm_prevout t @ varint_bytes (word_of_nat (length (tm_ss t))) @ tm_ss t @
     le_bytes 4 (tm_sequence t) @ varint_bytes (word_of_nat (length (tm_outs t))) @
     concat (map ser_out (tm_outs t)) @ ser_tail t"

definition tmpl_ok :: "tmpl \<Rightarrow> bool" where
  "tmpl_ok t \<longleftrightarrow> length (tm_prevout t) = 36 \<and> tm_outs t \<noteq> [] \<and> length (ser_tx t) < 2 ^ 64"

text \<open>The parsed outputs of a serialised list, from an offset on.\<close>

fun cb_outs :: "nat \<Rightarrow> (u64 \<times> byte list) list \<Rightarrow> cb_out list" where
  "cb_outs off [] = []"
| "cb_outs off ((v, spk) # os) =
     \<lparr>co_value = v, co_spk_off = off + 8 + length (varint_bytes (word_of_nat (length spk))),
      co_spk_len = word_of_nat (length spk), co_op_return = op_ret spk\<rparr> #
     cb_outs (off + length (ser_out (v, spk))) os"

lemma unat_len64: "n < 2 ^ 64 \<Longrightarrow> unat (word_of_nat n :: u64) = n"
  by (simp add: unsigned_of_nat take_bit_nat_eq_self)

lemma add64_len: "off + n < 2 ^ 64 \<Longrightarrow> add64 off (word_of_nat n) = off + n"
  by (simp add: add64_def unat_len64)

lemma varint_bytes_pos: "0 < length (varint_bytes n)"
  by (simp add: length_varint_bytes)

lemma is_op_return_at:
  assumes "tx = pre @ spk @ post" and "off = length pre" and "length spk < 2 ^ 64"
  shows "is_op_return tx off (word_of_nat (length spk)) = Ok (op_ret spk)"
proof -
  have "(word_of_nat (length spk) :: u64) \<ge> 1 \<longleftrightarrow> spk \<noteq> []"
    using assms(3) by (simp add: word_le_nat_alt unat_len64 Suc_le_eq)
  then show ?thesis using assms by (cases spk) (auto simp: is_op_return_def op_ret_def nth_append)
qed

lemma parse_outs_ser:
  assumes "tx = pre @ concat (map ser_out os) @ post" and "length tx < 2 ^ 64"
  shows "parse_outs tx (length os) (length pre) =
    Ok (cb_outs (length pre) os, length pre + length (concat (map ser_out os)))"
  using assms(1)
proof (induction os arbitrary: pre)
  case Nil
  then show ?case by simp
next
  case (Cons a os)
  obtain v spk where o: "a = (v, spk)" by (cases a)
  let ?vb = "varint_bytes (word_of_nat (length spk))" and ?rest = "concat (map ser_out os) @ post"
  have tx: "tx = pre @ le_bytes 8 v @ ?vb @ spk @ ?rest" using Cons.prems by (simp add: o ser_out_def [of "(v, spk)"])
  have l64: "length spk < 2 ^ 64" using assms(2) tx by simp
  have r1: "rd_u64 tx (length pre) = Some (v, length pre + 8)"
    unfolding tx by (rule rd_u64_le_bytes)
  have r2: "rd_varint tx (length pre + 8) = Some (word_of_nat (length spk), length pre + 8 + length ?vb)"
    using rd_varint_push_varint [of "pre @ le_bytes 8 v" "word_of_nat (length spk)" "spk @ ?rest"] by (simp add: tx)
  have a: "add64 (length pre + 8 + length ?vb) (word_of_nat (length spk)) = length pre + 8 + length ?vb + length spk"
    using assms(2) by (intro add64_len) (simp add: tx)
  have op: "is_op_return tx (length pre + 8 + length ?vb) (word_of_nat (length spk)) = Ok (op_ret spk)"
    using l64 by (intro is_op_return_at [of _ "pre @ le_bytes 8 v @ ?vb" _ ?rest]) (simp_all add: tx)
  have "tx = (pre @ ser_out a) @ concat (map ser_out os) @ post" using Cons.prems by simp
  from Cons.IH [OF this]
  have ih: "parse_outs tx (length os) (length pre + 8 + length ?vb + length spk) =
      Ok (cb_outs (length pre + 8 + length ?vb + length spk) os,
          length pre + 8 + length ?vb + length spk + length (concat (map ser_out os)))"
    by (simp add: o ser_out_def [of "(v, spk)"] add.assoc)
  show ?case using r1 r2 a op ih assms(2) by (simp add: o ser_out_def [of "(v, spk)"] tx add.assoc)
qed

lemma skip_witness_ser:
  assumes "tx = pre @ concat (map ser_item ws) @ post" and "length tx < 2 ^ 64"
  shows "skip_witness tx (length ws) (length pre) = Ok (length pre + length (concat (map ser_item ws)))"
  using assms(1)
proof (induction ws arbitrary: pre)
  case Nil
  then show ?case by simp
next
  case (Cons w ws)
  let ?vb = "varint_bytes (word_of_nat (length w))"
  have tx: "tx = pre @ ?vb @ w @ concat (map ser_item ws) @ post" using Cons.prems by (simp add: ser_item_def [of w])
  have r: "rd_varint tx (length pre) = Some (word_of_nat (length w), length pre + length ?vb)"
    unfolding tx by (rule rd_varint_push_varint)
  have a: "add64 (length pre + length ?vb) (word_of_nat (length w)) = length pre + length ?vb + length w"
    using assms(2) by (intro add64_len) (simp add: tx)
  have "tx = (pre @ ser_item w) @ concat (map ser_item ws) @ post" using Cons.prems by simp
  from Cons.IH [OF this]
  have "skip_witness tx (length ws) (length pre + length ?vb + length w) =
      Ok (length pre + length ?vb + length w + length (concat (map ser_item ws)))"
    by (simp add: ser_item_def [of w] add.assoc)
  then show ?case using r a by (simp add: ser_item_def [of w] tx add.assoc)
qed

lemma concat_ser_length: "length os \<le> length (concat (map ser_out os))"
proof (induction os)
  case (Cons a os)
  then show ?case by (simp add: ser_out_def [of a])
qed simp

lemma concat_item_length: "length ws \<le> length (concat (map ser_item ws))"
proof (induction ws)
  case (Cons w ws)
  have "length (concat (map ser_item (w # ws))) =
      length (varint_bytes (word_of_nat (length w))) + length w + length (concat (map ser_item ws))"
    by (simp add: ser_item_def [of w])
  then show ?case using varint_bytes_pos [of "word_of_nat (length w)"] Cons.IH by (simp only: list.size)
qed simp

definition ss_offset :: "tmpl \<Rightarrow> nat" where
  "ss_offset t = length (ser_head t) + 36 + length (varint_bytes (word_of_nat (length (tm_ss t))))"

definition outs_offset :: "tmpl \<Rightarrow> nat" where
  "outs_offset t = ss_offset t + length (tm_ss t) + 4 + length (varint_bytes (word_of_nat (length (tm_outs t))))"

definition parsed :: "tmpl \<Rightarrow> parsed_tx" where
  "parsed t = \<lparr>pt_version = tm_version t, pt_has_witness = (tm_witness t \<noteq> None),
     pt_prevout_off = length (ser_head t), pt_ss_off = ss_offset t,
     pt_ss_len = word_of_nat (length (tm_ss t)), pt_sequence = tm_sequence t,
     pt_outs = cb_outs (outs_offset t) (tm_outs t), pt_locktime = tm_locktime t\<rparr>"

lemma varint_one: "varint_bytes 1 = [1]"
  by (simp add: varint_bytes_cases)

lemma marker_ser: "has_marker (ser_tx t) 4 \<longleftrightarrow> tm_witness t \<noteq> None"
  by (auto simp: has_marker_def ser_tx_def ser_head_def varint_one nth_append)

lemma rd_at:
  assumes "tx = pre @ varint_bytes n @ post" and "off = length pre"
  shows "rd_varint tx off = Some (n, off + length (varint_bytes n))"
  unfolding assms by (rule rd_varint_push_varint)

lemma rd32_at:
  assumes "tx = pre @ le_bytes 4 v @ post" and "off = length pre"
  shows "rd_u32 tx off = Some (v, off + 4)"
  unfolding assms by (rule rd_u32_le_bytes)

lemma tail_parse:
  assumes "tx = pre @ ser_tail t" and "length tx < 2 ^ 64"
  shows "bindR (if tm_witness t \<noteq> None
            then bindR (opt_res ''truncated witness'' (rd_varint tx (length pre))) (\<lambda>(stack, off). skip_witness tx (unat stack) off)
            else Ok (length pre)) (\<lambda>off. opt_res m (rd_u32 tx off)) = Ok (tm_locktime t, length tx)"
proof (cases "tm_witness t")
  case None
  then have "tx = pre @ le_bytes 4 (tm_locktime t) @ []" using assms(1) by (simp add: ser_tail_def)
  then have "rd_u32 tx (length pre) = Some (tm_locktime t, length pre + 4)" by (rule rd32_at) simp
  moreover have "length tx = length pre + 4" using None assms(1) by (simp add: ser_tail_def)
  ultimately show ?thesis using None by simp
next
  case (Some ws)
  let ?vb = "varint_bytes (word_of_nat (length ws))" and ?items = "concat (map ser_item ws)"
  have tx: "tx = pre @ ?vb @ ?items @ le_bytes 4 (tm_locktime t)" using Some assms(1) by (simp add: ser_tail_def)
  have r: "rd_varint tx (length pre) = Some (word_of_nat (length ws), length pre + length ?vb)"
    by (rule rd_at [OF tx]) simp
  have l: "unat (word_of_nat (length ws) :: u64) = length ws"
    using assms(2) tx concat_item_length [of ws] by (intro unat_len64) simp
  have "tx = (pre @ ?vb) @ ?items @ le_bytes 4 (tm_locktime t)" by (simp add: tx)
  from skip_witness_ser [OF this assms(2)]
  have s: "skip_witness tx (length ws) (length pre + length ?vb) = Ok (length pre + length ?vb + length ?items)" by simp
  have "rd_u32 tx (length pre + length ?vb + length ?items) = Some (tm_locktime t, length pre + length ?vb + length ?items + 4)"
    by (rule rd32_at [of _ "pre @ ?vb @ ?items" _ "[]"]) (simp_all add: tx)
  moreover have "length tx = length pre + length ?vb + length ?items + 4" by (simp add: tx)
  ultimately show ?thesis using Some r s l by simp
qed

lemma bindR_assoc: "bindR (bindR m f) g = bindR m (\<lambda>x. bindR (f x) g)"
  by (cases m) auto

lemma parse_template_ser:
  assumes "tmpl_ok t"
  shows "parse_template (ser_tx t) = Ok (parsed t)"
proof -
  let ?tx = "ser_tx t" and ?h = "ser_head t" and ?ssb = "varint_bytes (word_of_nat (length (tm_ss t)))"
  let ?nb = "varint_bytes (word_of_nat (length (tm_outs t)))" and ?os = "concat (map ser_out (tm_outs t))"
  have ok: "length (tm_prevout t) = 36" "tm_outs t \<noteq> []" "length ?tx < 2 ^ 64" using assms by (simp_all add: tmpl_ok_def)
  have tx: "?tx = ?h @ tm_prevout t @ ?ssb @ tm_ss t @ le_bytes 4 (tm_sequence t) @ ?nb @ ?os @ ser_tail t"
    by (simp add: ser_tx_def)
  define o1 where "o1 = (if tm_witness t = None then 4 else 6 :: nat)"
  have hl: "length ?h = o1 + 1" by (simp add: ser_head_def varint_one o1_def)
  let ?after = "tm_prevout t @ ?ssb @ tm_ss t @ le_bytes 4 (tm_sequence t) @ ?nb @ ?os @ ser_tail t"
  let ?mk = "if tm_witness t = None then [] else [0x00, 0x01 :: byte]"
  have "rd_u32 ?tx 0 = Some (tm_version t, 0 + 4)"
    by (rule rd32_at [of _ "[]" _ "?mk @ varint_bytes 1 @ ?after"]) (simp_all add: tx ser_head_def)
  then have v: "rd_u32 ?tx 0 = Some (tm_version t, 4)" by simp
  have "rd_varint ?tx o1 = Some (1, o1 + length (varint_bytes 1))"
    by (rule rd_at [of _ "le_bytes 4 (tm_version t) @ ?mk" _ ?after]) (simp_all add: tx ser_head_def o1_def)
  then have vi: "rd_varint ?tx o1 = Some (1, length ?h)" by (simp add: hl varint_one)
  have ssv: "rd_varint ?tx (length ?h + 36) = Some (word_of_nat (length (tm_ss t)), ss_offset t)"
    unfolding ss_offset_def by (rule rd_at [of _ "?h @ tm_prevout t"]) (simp_all add: tx ok)
  have ssa: "add64 (ss_offset t) (word_of_nat (length (tm_ss t))) = ss_offset t + length (tm_ss t)"
    using ok by (intro add64_len) (simp add: ss_offset_def tx)
  have sq: "rd_u32 ?tx (ss_offset t + length (tm_ss t)) = Some (tm_sequence t, ss_offset t + length (tm_ss t) + 4)"
    by (rule rd32_at [of _ "?h @ tm_prevout t @ ?ssb @ tm_ss t"]) (simp_all add: tx ss_offset_def ok)
  have nv: "rd_varint ?tx (ss_offset t + length (tm_ss t) + 4) = Some (word_of_nat (length (tm_outs t)), outs_offset t)"
    unfolding outs_offset_def
    by (rule rd_at [of _ "?h @ tm_prevout t @ ?ssb @ tm_ss t @ le_bytes 4 (tm_sequence t)"]) (simp_all add: tx ss_offset_def ok)
  have lo: "length (tm_outs t) < 2 ^ 64" using ok concat_ser_length [of "tm_outs t"] by (simp add: tx)
  have n0: "(word_of_nat (length (tm_outs t)) :: u64) \<noteq> 0"
    using ok(2) unat_len64 [OF lo] by (metis length_greater_0_conv less_numeral_extra(3) unsigned_0)
  let ?pre = "?h @ tm_prevout t @ ?ssb @ tm_ss t @ le_bytes 4 (tm_sequence t) @ ?nb"
  have lp: "length ?pre = outs_offset t" by (simp add: outs_offset_def ss_offset_def ok)
  have t1: "?tx = ?pre @ ?os @ ser_tail t" and t2: "?tx = (?pre @ ?os) @ ser_tail t"
    by (simp_all only: tx append_assoc)
  have lp2: "length (?pre @ ?os) = outs_offset t + length ?os" by (simp only: length_append [of ?pre] lp)
  have po: "parse_outs ?tx (length (tm_outs t)) (outs_offset t) =
      Ok (cb_outs (outs_offset t) (tm_outs t), outs_offset t + length ?os)"
    using parse_outs_ser [OF t1 ok(3)] unfolding lp .
  have tl: "bindR (if tm_witness t \<noteq> None
            then bindR (opt_res ''truncated witness'' (rd_varint ?tx (outs_offset t + length ?os))) (\<lambda>(stack, off). skip_witness ?tx (unat stack) off)
            else Ok (outs_offset t + length ?os)) (\<lambda>off. opt_res ''truncated locktime'' (rd_u32 ?tx off)) = Ok (tm_locktime t, length ?tx)"
    using tail_parse [OF t2 ok(3)] unfolding lp2 .
  have room: "\<not> length ?h + 36 > length ?tx" "\<not> ss_offset t + length (tm_ss t) > length ?tx"
    by (simp_all add: tx ss_offset_def ok)
  have tail: "bindR (if tm_witness t \<noteq> None
            then bindR (opt_res ''truncated witness'' (rd_varint ?tx (outs_offset t + length ?os))) (\<lambda>(stack, off). skip_witness ?tx (unat stack) off)
            else Ok (outs_offset t + length ?os)) (\<lambda>off. bindR (opt_res ''truncated locktime'' (rd_u32 ?tx off)) k) = k (tm_locktime t, length ?tx)" for k :: "u32 \<times> nat \<Rightarrow> parsed_tx res"
    using arg_cong [OF tl, of "\<lambda>r. bindR r k"] by (simp only: bindR_assoc bindR.simps)
  have o1': "(if tm_witness t \<noteq> None then 4 + 2 else 4) = o1" by (simp add: o1_def)
  have g: "((word_of_nat (length (tm_outs t)) :: u64) = 0) = False" "(length ?tx < length ?h + 36) = False"
    "(length ?tx < ss_offset t + length (tm_ss t)) = False"
    using n0 room by simp_all
  show ?thesis
    unfolding parse_template_def v opt_res.simps bindR.simps case_prod_conv Let_def marker_ser o1' vi
    by (simp only: ssv ssa sq nv g po unat_len64 [OF lo] opt_res.simps bindR.simps case_prod_conv
        guardR_False simp_thms tail parsed_def)
qed

section \<open>The rewritten transaction\<close>

lemma length_cb_outs [simp]: "length (cb_outs off os) = length os"
  by (induction off os rule: cb_outs.induct) auto

lemma map_value_cb_outs: "map co_value (cb_outs off os) = map fst os"
  by (induction off os rule: cb_outs.induct) simp_all

lemma map_op_return_cb_outs: "map co_op_return (cb_outs off os) = map (\<lambda>o'. op_ret (snd o')) os"
  by (induction off os rule: cb_outs.induct) simp_all

lemma reward_count_map: "reward_count cs = length (filter Not (map co_op_return cs))"
  by (simp add: reward_count_def filter_map comp_def)

lemma reward_idx_none: "list_all co_op_return cs \<Longrightarrow> reward_idx cs i acc = acc"
  by (induction cs arbitrary: i acc) auto

lemma reward_idx_flags:
  "map co_op_return cs = fs @ False # gs \<Longrightarrow> list_all id fs \<Longrightarrow> list_all id gs \<Longrightarrow>
   reward_idx cs i acc = Some (i + length fs)"
proof (induction fs arbitrary: cs i acc)
  case Nil
  then obtain c cs' where c: "cs = c # cs'" "\<not> co_op_return c" "map co_op_return cs' = gs" by (cases cs) simp_all
  have "list_all id (map co_op_return cs')" using Nil.prems(3) unfolding c(3) .
  then have "list_all co_op_return cs'" by (simp add: list.pred_map comp_def)
  then show ?case using c(1,2) by (simp add: reward_idx_none)
next
  case (Cons f fs)
  then obtain c cs' where c: "cs = c # cs'" "co_op_return c" "map co_op_return cs' = fs @ False # gs" by (cases cs) simp_all
  show ?case using Cons.IH [OF c(3)] Cons.prems(2,3) c(1,2) by simp
qed

definition one_reward :: "(u64 \<times> byte list) list \<Rightarrow> u64 \<Rightarrow> byte list \<Rightarrow> (u64 \<times> byte list) list \<Rightarrow> bool" where
  "one_reward pre v spk post \<longleftrightarrow> \<not> op_ret spk \<and> list_all (\<lambda>o'. op_ret (snd o')) (pre @ post)"

lemma one_reward_found:
  assumes "one_reward pre v spk post"
  shows "reward_count (cb_outs off (pre @ (v, spk) # post)) = 1"
    and "reward_idx (cb_outs off (pre @ (v, spk) # post)) 0 None = Some (length pre)"
    and "co_value (cb_outs off (pre @ (v, spk) # post) ! length pre) = v"
proof -
  let ?os = "pre @ (v, spk) # post" and ?cs = "cb_outs off (pre @ (v, spk) # post)"
  have z: "filter Not (map (\<lambda>o'. op_ret (snd o')) xs) = []" if "list_all (\<lambda>o'. op_ret (snd o')) xs" for xs
    using that by (induction xs) auto
  show "reward_count ?cs = 1"
    using assms z [of pre] z [of post] unfolding reward_count_map map_op_return_cb_outs by (simp add: one_reward_def)
  have "co_value (?cs ! length pre) = map co_value ?cs ! length pre" by (simp only: nth_map length_cb_outs length_append list.size)
  then show "co_value (?cs ! length pre) = v" by (simp add: map_value_cb_outs nth_append)
  have "map co_op_return ?cs = map (\<lambda>o'. op_ret (snd o')) pre @ False # map (\<lambda>o'. op_ret (snd o')) post"
    using assms by (simp add: map_op_return_cb_outs one_reward_def)
  from reward_idx_flags [OF this, of 0 None] assms
  show "reward_idx ?cs 0 None = Some (length pre)" by (simp add: one_reward_def list_all_iff)
qed

lemma bb_data_push_repls [simp]: "bb_data (push_repls cs b) = bb_data b @ outs_ser cs"
  by (induction cs arbitrary: b) (simp_all add: outs_ser_def)

definition spliced :: "nat \<Rightarrow> cb_repl_out list \<Rightarrow> nat \<Rightarrow> (u64 \<times> byte list) list \<Rightarrow> byte list" where
  "spliced ri repl i os = concat (map (\<lambda>(k, o'). if k = ri then outs_ser repl else ser_out o') (enumerate i os))"

lemma push_outs_ser:
  assumes "tx = p @ concat (map ser_out os) @ q" and "length tx < 2 ^ 64"
  shows "\<exists>b'. push_outs tx ri repl i (cb_outs (length p) os) b = Ok b' \<and>
    bb_data b' = bb_data b @ spliced ri repl i os"
  using assms(1)
proof (induction os arbitrary: p i b)
  case Nil
  then show ?case by (simp add: spliced_def)
next
  case (Cons a os)
  obtain v spk where a: "a = (v, spk)" by (cases a)
  let ?vb = "varint_bytes (word_of_nat (length spk))"
  have "tx = (p @ ser_out a) @ concat (map ser_out os) @ q" using Cons.prems by simp
  note ih = Cons.IH [OF this]
  show ?case
  proof (cases "i = ri")
    case True
    obtain b' where "push_outs tx ri repl (i + 1) (cb_outs (length (p @ ser_out a)) os) (push_repls repl b) = Ok b'"
      "bb_data b' = bb_data (push_repls repl b) @ spliced ri repl (i + 1) os" using ih by blast
    then show ?thesis using True a by (simp add: spliced_def)
  next
    case False
    have tx: "tx = p @ le_bytes 8 v @ ?vb @ spk @ concat (map ser_out os) @ q"
      using Cons.prems by (simp add: a ser_out_def [of "(v, spk)"])
    have u: "unat (word_of_nat (length spk) :: u64) = length spk" using assms(2) by (intro unat_len64) (simp add: tx)
    have r: "read_bytes tx (length p + 8 + length ?vb) (length spk) = Ok spk" by (simp add: read_bytes_def tx)
    let ?b = "bbuf_push (bbuf_push_varint (bbuf_push_u64_le b v) (word_of_nat (length spk))) spk"
    obtain b' where "push_outs tx ri repl (i + 1) (cb_outs (length (p @ ser_out a)) os) ?b = Ok b'"
      "bb_data b' = bb_data ?b @ spliced ri repl (i + 1) os" using ih by blast
    then show ?thesis using False a r u by (simp add: spliced_def ser_out_def [of "(v, spk)"])
  qed
qed

lemma spliced_ge: "ri < i \<Longrightarrow> spliced ri repl i os = concat (map ser_out os)"
  by (induction os arbitrary: i) (simp_all add: spliced_def)

lemma spliced_split:
  "ri = i + length pre \<Longrightarrow>
   spliced ri repl i (pre @ x # post) = concat (map ser_out pre) @ outs_ser repl @ concat (map ser_out post)"
proof (induction pre arbitrary: i)
  case Nil
  then show ?case using spliced_ge [of ri "Suc i" repl post] by (simp add: spliced_def)
next
  case (Cons a pre)
  then show ?case using Cons.IH [of "Suc i"] by (simp add: spliced_def)
qed

lemma hex_decode_ser: "hex_decode (bytes_to_hex tx) (length (bytes_to_hex tx) div 2) = Some tx"
  by (simp add: hex_decode_def hex_pairs_bytes_to_hex)

lemma read_ss: "tmpl_ok t \<Longrightarrow> read_bytes (ser_tx t) (ss_offset t) (length (tm_ss t)) = Ok (tm_ss t)"
  by (simp add: read_bytes_def ser_tx_def ss_offset_def tmpl_ok_def)

lemma read_prevout: "tmpl_ok t \<Longrightarrow> read_bytes (ser_tx t) (length (ser_head t)) 36 = Ok (tm_prevout t)"
  by (simp add: read_bytes_def ser_tx_def tmpl_ok_def)

lemma ss_length_bound: "tmpl_ok t \<Longrightarrow> length (tm_ss t) < 2 ^ 64"
  by (simp add: ser_tx_def tmpl_ok_def)

definition new_ss_len :: "tmpl \<Rightarrow> string option \<Rightarrow> u32 \<Rightarrow> nat \<Rightarrow> nat \<Rightarrow> nat" where
  "new_ss_len t tag salt en1 en2 = length (tm_ss t) + length (cb_tag_push tag salt) + (en1 + en2)"

text \<open>The two halves of a coinbase built from a template.\<close>

definition template_cb1 :: "tmpl \<Rightarrow> string option \<Rightarrow> u32 \<Rightarrow> nat \<Rightarrow> nat \<Rightarrow> byte list" where
  "template_cb1 t tag salt en1 en2 = le_bytes 4 (tm_version t) @ [1] @ tm_prevout t @
     [word_of_nat (new_ss_len t tag salt en1 en2)] @ tm_ss t @ cb_tag_push tag salt"

definition template_cb2 :: "tmpl \<Rightarrow> (u64 \<times> byte list) list \<Rightarrow> cb_repl_out list \<Rightarrow> (u64 \<times> byte list) list \<Rightarrow> byte list" where
  "template_cb2 t pre repl post = le_bytes 4 (tm_sequence t) @
     varint_bytes (word_of_nat (length pre + length repl + length post)) @
     concat (map ser_out pre) @ outs_ser repl @ concat (map ser_out post) @ le_bytes 4 (tm_locktime t)"

text \<open>On a serialised template with one reward the builder is its resolver and four checks.\<close>

lemma build_from_template_ser:
  assumes t: "tmpl_ok t" and outs: "tm_outs t = pre @ (v, spk) # post" and rew: "one_reward pre v spk post"
    and small: "new_ss_len t tag salt en1 en2 < 2 ^ 64"
  shows "build_from_template_impl (bytes_to_hex (ser_tx t)) repl_fn tag salt en1 en2 =
    bindR (repl_fn (sint v) (template_fixed_bytes (parsed t) (length pre) tag salt en1 en2) CB_MAX_REPL_OUTS) (\<lambda>(repl, r).
    guardR (repl = []) ''resolver produced no outputs''
   (bindR (sum_repl repl 0) (\<lambda>tot.
    guardR (tot \<noteq> sint v) ''replacement outputs sum to %lld, template reward is %lld''
   (guardR (new_ss_len t tag salt en1 en2 \<notin> {2..100}) ''coinbase scriptSig length %llu out of range''
      (Ok (\<lparr>cb1 = template_cb1 t tag salt en1 en2, cb2 = template_cb2 t pre repl post\<rparr>, tm_witness t \<noteq> None, r))))))"
proof -
  let ?tx = "ser_tx t" and ?p = "parsed t" and ?n = "new_ss_len t tag salt en1 en2"
  have po: "pt_outs ?p = cb_outs (outs_offset t) (pre @ (v, spk) # post)" by (simp add: parsed_def outs)
  note f = one_reward_found [OF rew, of "outs_offset t"]
  have nss: "pt_ss_len ?p + word_of_nat (length (cb_tag_push tag salt)) + word_of_nat (en1 + en2) = word_of_nat ?n"
    by (simp add: parsed_def new_ss_len_def)
  have nb: "(word_of_nat ?n < (2 :: u64) \<or> word_of_nat ?n > (100 :: u64)) = (?n \<notin> {2..100})"
    using small by (auto simp: word_less_nat_alt unat_len64)
  have vs: "varint_bytes (word_of_nat ?n) = [word_of_nat ?n]" if "?n \<in> {2..100}" using that by (intro varint_small) simp
  have ssl: "unat (pt_ss_len ?p) = length (tm_ss t)"
    using ss_length_bound [OF t] by (simp add: parsed_def unat_len64)
  have ss0: "pt_ss_len ?p = 0 \<longleftrightarrow> tm_ss t = []" using ssl by (metis length_0_conv unat_eq_0)
  have rs: "(if pt_ss_len ?p \<noteq> 0 then read_bytes ?tx (pt_ss_off ?p) (unat (pt_ss_len ?p)) else Ok []) = Ok (tm_ss t)"
    using read_ss [OF t] ssl ss0 by (simp add: parsed_def)
  let ?pre = "ser_head t @ tm_prevout t @ varint_bytes (word_of_nat (length (tm_ss t))) @ tm_ss t @
     le_bytes 4 (tm_sequence t) @ varint_bytes (word_of_nat (length (tm_outs t)))"
  have tx: "?tx = ?pre @ concat (map ser_out (tm_outs t)) @ ser_tail t" by (simp add: ser_tx_def)
  have lp: "length ?pre = outs_offset t" using t by (simp add: outs_offset_def ss_offset_def tmpl_ok_def)
  have ob: "\<exists>ob. push_outs ?tx (length pre) repl 0 (pt_outs ?p) bbuf_init = Ok ob \<and>
    bb_data ob = concat (map ser_out pre) @ outs_ser repl @ concat (map ser_out post)" for repl
    using push_outs_ser [OF tx, of "length pre" repl 0 bbuf_init] t spliced_split [of "length pre" 0 pre repl "(v, spk)" post]
    unfolding lp by (auto simp: parsed_def outs tmpl_ok_def)
  have nv: "word_of_nat (length (pt_outs ?p)) - 1 + word_of_nat (length repl) =
      (word_of_nat (length pre + length repl + length post) :: u64)" for repl :: "cb_repl_out list" by (simp add: po)
  have even: "(length (bytes_to_hex ?tx) mod 2 \<noteq> 0) = False" by simp
  have d1: "(1 :: nat) \<noteq> 1 \<longleftrightarrow> False" by simp
  show ?thesis
  proof (cases "repl_fn (sint v) (template_fixed_bytes (parsed t) (length pre) tag salt en1 en2) CB_MAX_REPL_OUTS")
    case (Ok x)
    obtain repl r where x: "x = (repl, r)" by (cases x)
    obtain ob' where ob': "push_outs ?tx (length pre) repl 0 (pt_outs ?p) bbuf_init = Ok ob'"
      "bb_data ob' = concat (map ser_out pre) @ outs_ser repl @ concat (map ser_out post)" using ob by blast
    show ?thesis
      unfolding build_from_template_impl_def even guardR_False hex_decode_ser opt_res.simps bindR.simps
        parse_template_ser [OF t] Let_def po f option.sel d1 nss nb Ok x case_prod_conv
      unfolding po [symmetric] rs nv ob'(1) bindR.simps
      using read_prevout [OF t] ob'(2) vs ss0
      by (cases "sum_repl repl 0"; cases "?n \<in> {2..100}")
        (simp_all add: guardR_def parsed_def template_cb1_def template_cb2_def varint_one)
  qed (simp_all only: build_from_template_impl_def even guardR_False hex_decode_ser opt_res.simps bindR.simps
      parse_template_ser [OF t] Let_def po f option.sel d1 nss nb)
qed

section \<open>The contract of a resolver\<close>

text \<open>The rewritten transaction: the outputs around the reward kept, the scriptSig extended by the tag
  and the extranonces, the witness stripped.\<close>

definition rewritten ::
  "tmpl \<Rightarrow> string option \<Rightarrow> u32 \<Rightarrow> byte list \<Rightarrow> (u64 \<times> byte list) list \<Rightarrow> cb_repl_out list \<Rightarrow> (u64 \<times> byte list) list \<Rightarrow> tmpl" where
  "rewritten t tag salt en pre repl post =
     t\<lparr>tm_ss := tm_ss t @ cb_tag_push tag salt @ en,
       tm_outs := pre @ map (\<lambda>c. (word_of_int (ro_sats c), ro_spk c)) repl @ post, tm_witness := None\<rparr>"

lemma outs_ser_ser_out: "outs_ser repl = concat (map ser_out (map (\<lambda>c. (word_of_int (ro_sats c), ro_spk c)) repl))"
  by (simp add: outs_ser_def ser_out_def out_bytes_def comp_def)

lemma rewritten_ser:
  assumes "length en = en1 + en2" and "new_ss_len t tag salt en1 en2 \<in> {2..100}"
  shows "template_cb1 t tag salt en1 en2 @ en @ template_cb2 t pre repl post =
    ser_tx (rewritten t tag salt en pre repl post)"
proof -
  have "varint_bytes (word_of_nat (new_ss_len t tag salt en1 en2)) = [word_of_nat (new_ss_len t tag salt en1 en2)]"
    using assms(2) by (intro varint_small) simp
  then show ?thesis
    using assms(1)
    by (simp add: template_cb1_def template_cb2_def rewritten_def ser_tx_def ser_head_def ser_tail_def varint_one
        outs_ser_ser_out new_ss_len_def add.assoc)
qed

lemma sum_repl_succeeds:
  assumes "\<forall>c \<in> set cs. 0 \<le> ro_sats c" and "0 \<le> e" and "e + outs_sats cs < 2 ^ 63"
  shows "sum_repl cs e = Ok (e + outs_sats cs)"
  using assms
proof (induction cs arbitrary: e)
  case (Cons c cs)
  have "0 \<le> outs_sats cs" unfolding outs_sats_def using Cons.prems by (intro sum_list_nonneg_int) auto
  then have "i64_ok (e + ro_sats c)" using Cons.prems unfolding i64_ok_def outs_sats_def by simp
  then show ?case using Cons by (simp add: outs_sats_def)
qed (simp add: outs_sats_def)

lemma sint_lt_i64: "sint (v :: u64) < 2 ^ 63"
  using sint_less [of v] by simp

text \<open>
  What the builder relies on in its callback: an answer has outputs, none of them negative, that
  sum to the reward it was asked to place.
\<close>

locale cb_resolver =
  fixes repl_fn :: "int \<Rightarrow> nat \<Rightarrow> nat \<Rightarrow> (cb_repl_out list \<times> 'r) res"
    and terms_ok :: bool
  assumes places: "terms_ok \<Longrightarrow> 0 \<le> reward \<Longrightarrow> repl_fn reward fixed cap = Ok (repl, r) \<Longrightarrow>
    repl \<noteq> [] \<and> outs_sats repl = reward \<and> (\<forall>c \<in> set repl. 0 \<le> ro_sats c)"
begin

text \<open>Then the builder adds no refusal of its own beyond the scriptSig range.\<close>

lemma build_is_resolver:
  assumes ok: "terms_ok" and t: "tmpl_ok t" and outs: "tm_outs t = pre @ (v, spk) # post" and rew: "one_reward pre v spk post"
    and v: "0 \<le> sint v" and ss: "new_ss_len t tag salt en1 en2 \<in> {2..100}"
  shows "build_from_template_impl (bytes_to_hex (ser_tx t)) repl_fn tag salt en1 en2 =
    bindR (repl_fn (sint v) (template_fixed_bytes (parsed t) (length pre) tag salt en1 en2) CB_MAX_REPL_OUTS) (\<lambda>(repl, r).
      Ok (\<lparr>cb1 = template_cb1 t tag salt en1 en2, cb2 = template_cb2 t pre repl post\<rparr>, tm_witness t \<noteq> None, r))"
proof -
  have small: "new_ss_len t tag salt en1 en2 < 2 ^ 64" using ss by simp
  show ?thesis
  proof (cases "repl_fn (sint v) (template_fixed_bytes (parsed t) (length pre) tag salt en1 en2) CB_MAX_REPL_OUTS")
    case (Ok x)
    obtain repl r where x: "x = (repl, r)" by (cases x)
    have p: "repl \<noteq> []" "outs_sats repl = sint v" "\<forall>c \<in> set repl. 0 \<le> ro_sats c"
      using places [OF ok v Ok [unfolded x]] by simp_all
    have "sum_repl repl 0 = Ok (sint v)" using sum_repl_succeeds [OF p(3), of 0] p(2) sint_lt_i64 [of v] by simp
    then show ?thesis unfolding build_from_template_ser [OF t outs rew small] Ok x using p(1) ss by simp
  qed (simp_all only: build_from_template_ser [OF t outs rew small] bindR.simps)
qed

lemma build_Ok:
  assumes "terms_ok" and "tmpl_ok t" and "tm_outs t = pre @ (v, spk) # post" and "one_reward pre v spk post"
    and "0 \<le> sint v" and "new_ss_len t tag salt en1 en2 \<in> {2..100}"
    and b: "build_from_template_impl (bytes_to_hex (ser_tx t)) repl_fn tag salt en1 en2 = Ok (parts, w, r)"
  obtains repl where "repl_fn (sint v) (template_fixed_bytes (parsed t) (length pre) tag salt en1 en2) CB_MAX_REPL_OUTS = Ok (repl, r)"
    and "outs_sats repl = sint v" and "cb1 parts = template_cb1 t tag salt en1 en2" and "cb2 parts = template_cb2 t pre repl post"
    and "w \<longleftrightarrow> tm_witness t \<noteq> None"
proof -
  obtain repl where r: "repl_fn (sint v) (template_fixed_bytes (parsed t) (length pre) tag salt en1 en2) CB_MAX_REPL_OUTS = Ok (repl, r)"
    and p: "parts = \<lparr>cb1 = template_cb1 t tag salt en1 en2, cb2 = template_cb2 t pre repl post\<rparr>" and w: "w = (tm_witness t \<noteq> None)"
    using b unfolding build_is_resolver [OF assms(1-6)] by (auto simp: bindR_Ok_iff)
  from places [OF assms(1,5) r] have "outs_sats repl = sint v" by simp
  with r p w that show thesis by simp
qed

end

interpretation window_resolver: cb_resolver "repl_window payees op bps maxb flr" True
  by unfold_locales (auto simp: repl_window_def dest: resolve_window_nonneg)

interpretation reward_probe: cb_resolver cb_reward_probe True
  by unfold_locales (auto simp: cb_reward_probe_def outs_sats_def)

text \<open>A fee of at most the whole reward is what the configuration grants the operator.\<close>

lemma repl_single_places:
  assumes "bps \<le> 10000" and "0 \<le> reward" and "repl_single ma op bps reward fixed cap = Ok (repl, m, fee)"
  shows "repl \<noteq> [] \<and> outs_sats repl = reward \<and> (\<forall>c \<in> set repl. 0 \<le> ro_sats c) \<and>
    m + fee = reward \<and> (\<exists>mspk. coinbase_address_to_script ma 64 = Ok mspk \<and> ro_spk (hd repl) = mspk \<and> ro_sats (hd repl) = m)"
proof -
  obtain spk mspk where f: "split_fee reward op bps = Ok (spk, fee)" and ms: "coinbase_address_to_script ma 64 = Ok mspk"
    and m: "(case spk of None \<Rightarrow> Ok reward | Some _ \<Rightarrow> chk64 (reward - fee)) = Ok m"
    and r: "repl = \<lparr>ro_spk = mspk, ro_sats = m\<rparr> #
             (case spk of None \<Rightarrow> [] | Some ospk \<Rightarrow> if fee > 0 then [\<lparr>ro_spk = ospk, ro_sats = fee\<rparr>] else [])"
    using assms(3) by (auto simp: repl_single_def bindR_Ok_iff)
  note fo = split_fee_Ok [OF f]
  have "fee \<le> reward" if "spk = Some s" for s
  proof -
    have "reward * bps div 10000 \<le> reward * 10000 div 10000"
      using assms(1,2) by (intro zdiv_mono1 mult_left_mono) auto
    then show ?thesis using fo that by auto
  qed
  then show ?thesis using m r fo ms assms(2) by (cases spk) (auto simp: outs_sats_def COINBASE_DUST_SATS_def)
qed

interpretation single_resolver: cb_resolver "repl_single ma op bps" "bps \<le> 10000"
  by unfold_locales (auto dest: repl_single_places)

section \<open>Sizes\<close>

lemma length_ser_out: "length (snd o') < 2 ^ 32 \<Longrightarrow> length (ser_out o') = out_ser_size (length (snd o'))"
  by (simp add: ser_out_def out_ser_size_def length_varint_nat)

definition outs_size :: "(u64 \<times> byte list) list \<Rightarrow> nat" where
  "outs_size os = sum_list (map (\<lambda>o'. out_ser_size (length (snd o'))) os)"

lemma outs_size_append [simp]: "outs_size (xs @ ys) = outs_size xs + outs_size ys"
  by (simp add: outs_size_def)

lemma length_concat_ser_out:
  "\<forall>o' \<in> set os. length (snd o') < 2 ^ 32 \<Longrightarrow> length (concat (map ser_out os)) = outs_size os"
  by (induction os) (simp_all add: outs_size_def length_ser_out)

lemma map_len_cb_outs:
  "\<forall>o' \<in> set os. length (snd o') < 2 ^ 64 \<Longrightarrow>
   map (\<lambda>c. unat (co_spk_len c)) (cb_outs off os) = map (\<lambda>o'. length (snd o')) os"
  by (induction off os rule: cb_outs.induct) (simp_all add: unat_len64)

text \<open>The sum over all outputs but one.\<close>

lemma sum_others:
  "sum_list (map f (map snd (filter (\<lambda>(i, c). i \<noteq> k + length xs) (enumerate k (xs @ y # ys))))) =
   sum_list (map f xs) + (sum_list (map f ys) :: nat)"
proof -
  have n: "filter (\<lambda>(i, c). i \<noteq> j) (enumerate m zs) = enumerate m zs" if "j < m \<or> m + length zs \<le> j" for j m zs
    using that by (intro filter_True) (auto simp: in_set_enumerate_eq)
  show ?thesis by (simp add: enumerate_append_eq n)
qed

lemma template_fixed_bytes_eq:
  assumes ok: "tmpl_ok t" and outs: "tm_outs t = pre @ (v, spk) # post" and small: "length (ser_tx t) < 2 ^ 32"
    and ss: "new_ss_len t tag salt en1 en2 \<in> {2..100}"
  shows "template_fixed_bytes (parsed t) (length pre) tag salt en1 en2 =
    53 + new_ss_len t tag salt en1 en2 + outs_size (pre @ post)"
proof -
  have "length (concat (map ser_out (tm_outs t))) \<le> length (ser_tx t)" by (simp add: ser_tx_def)
  moreover have "length (snd o') \<le> length (concat (map ser_out (tm_outs t)))" if "o' \<in> set (tm_outs t)" for o'
    using split_list [OF that] by (auto simp: ser_out_def)
  ultimately have l: "\<forall>o' \<in> set (tm_outs t). length (snd o') < 2 ^ 32" using small by fastforce
  then have l64: "\<forall>o' \<in> set (tm_outs t). length (snd o') < 2 ^ 64" by auto
  define cs where "cs = cb_outs (outs_offset t) (tm_outs t)"
  let ?f = "\<lambda>c. out_ser_size (unat (co_spk_len c))"
  have cl: "length cs = length pre + Suc (length post)" by (simp add: cs_def outs)
  then have csplit: "cs = take (length pre) cs @ cs ! length pre # drop (Suc (length pre)) cs"
    by (simp add: id_take_nth_drop)
  have m: "map (\<lambda>c. unat (co_spk_len c)) cs = map (\<lambda>o'. length (snd o')) (tm_outs t)"
    unfolding cs_def by (rule map_len_cb_outs [OF l64])
  have "map (\<lambda>c. unat (co_spk_len c)) (take (length pre) cs) = map (\<lambda>o'. length (snd o')) pre"
    and "map (\<lambda>c. unat (co_spk_len c)) (drop (Suc (length pre)) cs) = map (\<lambda>o'. length (snd o')) post"
    using m by (simp_all add: take_map [symmetric] drop_map [symmetric] outs)
  then have "map ?f (take (length pre) cs) = map (\<lambda>o'. out_ser_size (length (snd o'))) pre"
    "map ?f (drop (Suc (length pre)) cs) = map (\<lambda>o'. out_ser_size (length (snd o'))) post"
    by (metis (mono_tags, lifting) map_map comp_def map_eq_conv)+
  then have others: "sum_list (map ?f (map snd (filter (\<lambda>(i, c). i \<noteq> length pre) (enumerate 0 cs)))) = outs_size (pre @ post)"
    using sum_others [of ?f 0 "take (length pre) cs" "cs ! length pre" "drop (Suc (length pre)) cs"] csplit cl
    by (simp add: outs_size_def min_def)
  have "outs_size (tm_outs t) \<le> length (ser_tx t)" using length_concat_ser_out [OF l] by (simp add: ser_tx_def)
  then have os: "outs_size (pre @ post) < 2 ^ 32" using small by (simp add: outs outs_size_def)
  have ssl: "unat (pt_ss_len (parsed t)) = length (tm_ss t)" using ss_length_bound [OF ok] by (simp add: parsed_def unat_len64)
  have probe: "unat (pt_ss_len (parsed t)) + cb_tag_push_len tag salt + en1 + en2 = new_ss_len t tag salt en1 en2"
    by (simp add: ssl new_ss_len_def length_cb_tag_push)
  have po: "pt_outs (parsed t) = cs" by (simp add: parsed_def cs_def)
  show ?thesis unfolding template_fixed_bytes_def probe po Let_def others using ss os by (simp add: mod_less)
qed

text \<open>A rewritten coinbase fits the ceiling up to the operator's output, which the budget leaves out.\<close>

lemma rewritten_size:
  assumes ok: "tmpl_ok t" and outs: "tm_outs t = pre @ (v, spk) # post" and small: "length (ser_tx t) < 2 ^ 32"
    and ss: "new_ss_len t tag salt en1 en2 \<in> {2..100}" and cnt: "length (tm_outs t) \<le> 60000"
    and res: "window_resolved reward payees op bps
      (window_budget maxb (template_fixed_bytes (parsed t) (length pre) tag salt en1 en2)) CB_MAX_REPL_OUTS fs miners ops r"
    and en: "length en = en1 + en2"
  shows "length (ser_tx (rewritten t tag salt en pre (miners @ ops) post)) \<le>
    (if maxb = 0 then COINBASE_DEFAULT_MAX_BYTES else maxb) + outs_bytes ops"
proof -
  let ?F = "template_fixed_bytes (parsed t) (length pre) tag salt en1 en2"
  let ?cap = "if maxb = 0 then COINBASE_DEFAULT_MAX_BYTES else maxb"
  have r: "outs_bytes miners \<le> window_budget maxb ?F" "miners \<noteq> []" "length miners < CB_MAX_REPL_OUTS" "length ops \<le> 1"
    using res by (auto simp: window_resolved_def split: if_splits)
  have "0 < outs_bytes miners" using r(2) by (cases miners) (auto simp: outs_bytes_def out_ser_size_def)
  then have F: "?F + outs_bytes miners \<le> ?cap" using r(1) by (simp add: window_budget_def)
  have l: "length (snd o') < 2 ^ 32" if "o' \<in> set (pre @ post)" for o'
  proof -
    have "o' \<in> set (tm_outs t)" using that outs by auto
    then obtain xs ys where "tm_outs t = xs @ o' # ys" by (meson split_list)
    then have "length (snd o') \<le> length (ser_tx t)" by (simp add: ser_tx_def ser_out_def [of o'])
    then show ?thesis using small by simp
  qed
  have os: "length (concat (map ser_out pre)) + length (concat (map ser_out post)) = outs_size (pre @ post)"
    using length_concat_ser_out [of "pre @ post"] l by simp
  have "length (outs_ser (miners @ ops)) = outs_bytes (miners @ ops)"
    using window_resolved_spk_length [OF res] by (intro length_outs_ser) auto
  then have ob: "length (outs_ser (miners @ ops)) = outs_bytes miners + outs_bytes ops" by (simp add: outs_bytes_def)
  let ?n = "length pre + length (miners @ ops) + length post"
  have "?n \<le> 0xffff" using cnt r(3,4) outs by (simp add: CB_MAX_REPL_OUTS_def COINBASE_MAX_PAYOUT_OUTPUTS_def)
  then have vi: "length (varint_bytes (word_of_nat ?n)) \<le> 3" using length_varint_nat [of ?n] by simp
  have p: "length (tm_prevout t) = 36" using ok by (simp add: tmpl_ok_def)
  have "length (template_cb1 t tag salt en1 en2 @ en @ template_cb2 t pre (miners @ ops) post) =
    50 + new_ss_len t tag salt en1 en2 + length (varint_bytes (word_of_nat ?n)) + outs_size (pre @ post) + outs_bytes miners + outs_bytes ops"
    using os ob p en by (simp add: template_cb1_def template_cb2_def new_ss_len_def)
  then show ?thesis
    using vi F template_fixed_bytes_eq [OF ok outs small ss] unfolding rewritten_ser [OF en ss] by simp
qed

section \<open>Properties\<close>

definition example_tmpl :: tmpl where
  "example_tmpl = \<lparr>tm_version = 1, tm_prevout = replicate 32 0 @ replicate 4 0xff, tm_ss = [0x51],
     tm_sequence = 0xffffffff, tm_outs = [(5000000000, [0x51])], tm_witness = None, tm_locktime = 0\<rparr>"

lemma example_tmpl_ok:
  "tmpl_ok example_tmpl" "tm_outs example_tmpl = [] @ (5000000000, [0x51]) # []"
  "one_reward [] 5000000000 [0x51] []" "0 \<le> sint (5000000000 :: u64)"
  "new_ss_len example_tmpl None 0 4 4 = 9" "length (ser_tx example_tmpl) < 2 ^ 32"
  by (simp_all add: tmpl_ok_def example_tmpl_def ser_tx_def ser_head_def ser_tail_def ser_out_def varint_bytes_cases
      one_reward_def op_ret_def new_ss_len_def cb_tag_push_def)

definition example_claims :: "coinbase_payee list" where
  "example_claims = [\<lparr>pe_address = Some example_addr, pe_sats = 4950000000\<rparr>]"

lemma example_tmpl_fixed: "template_fixed_bytes (parsed example_tmpl) 0 None 0 4 4 = 62"
  using template_fixed_bytes_eq [OF example_tmpl_ok(1,2,6), of None 0 4 4] example_tmpl_ok(5) by (simp add: outs_size_def)

text \<open>The example window resolves on the template's reward: one miner and the operator.\<close>

lemma example_resolved:
  "\<exists>miners ops r. resolve_window_outputs 5000000000 example_claims (Some example_addr) 100 93 62 0 CB_MAX_REPL_OUTS =
     Ok (miners @ ops, r) \<and> outs_bytes miners = 31 \<and> outs_bytes ops = 31 \<and> length miners = 1 \<and> length ops = 1 \<and>
     (\<forall>c \<in> set (miners @ ops). length (ro_spk c) \<le> 34)"
proof -
  obtain s where s: "coinbase_address_to_script example_addr 64 = Ok s" "length s = 22"
    using example_addr_script by blast
  have ne: "c_nonempty (Some example_addr)" by (simp add: example_addr_def)
  have fee: "window_fee 5000000000 (Some example_addr) 100 = Ok (Some s, 50000000)"
    using s ne by (simp add: window_fee_def fee_cut_def i64_ok_def sdiv_nonneg COINBASE_DUST_SATS_def)
  have "window_payable 5000000000 example_claims (Some s) 50000000 0 (window_budget 93 62)"
    using s ne by (simp add: window_payable_def example_claims_def payout_floor_def COINBASE_DUST_SATS_def
        window_budget_def out_ser_size_def)
  from resolve_window_pays_claims [OF fee this] obtain fs miners ops r where
    R: "resolve_window_outputs 5000000000 example_claims (Some example_addr) 100 93 62 0 CB_MAX_REPL_OUTS = Ok (miners @ ops, r)"
    and w: "window_resolved 5000000000 example_claims (Some example_addr) 100 (window_budget 93 62) CB_MAX_REPL_OUTS fs miners ops r"
    by blast
  have f: "wr_fee_sats r = 50000000" by (rule resolve_window_fee [OF R fee])
  then have ops: "ops = [\<lparr>ro_spk = s, ro_sats = 50000000\<rparr>]" using w s by (auto simp: window_resolved_def)
  have mne: "miners \<noteq> []" and mp: "list_all2 (\<lambda>c p. coinbase_address_to_script (the (pe_address p)) 64 = Ok (ro_spk c)) miners (paid_of fs example_claims)"
    using w by (auto simp: window_resolved_def)
  have "length miners \<le> 1" using list_all2_lengthD [OF mp] by (cases fs) (auto simp: paid_of_def example_claims_def)
  then obtain c where c: "miners = [c]" using mne by (cases miners) auto
  then have "ro_spk c = s" using mp s set_paid_of [of _ fs example_claims]
    by (auto simp: list_all2_Cons1 example_claims_def)
  then show ?thesis using R ops c s by (intro exI [of _ miners] exI [of _ ops] exI [of _ r]) (simp add: outs_bytes_def out_ser_size_def)
qed

lemma example_tmpl_built:
  "\<exists>parts r. coinbase_build_window_from_template (Some (bytes_to_hex (ser_tx example_tmpl))) example_claims
     (Some example_addr) 100 None 0 4 4 93 0 = Ok (parts, False, r) \<and>
     length (cb1 parts) + 4 + 4 + length (cb2 parts) = 122"
proof -
  have ss: "new_ss_len example_tmpl None 0 4 4 \<in> {2..100}" by (simp add: example_tmpl_ok)
  obtain miners ops r where R: "resolve_window_outputs 5000000000 example_claims (Some example_addr) 100 93 62 0 CB_MAX_REPL_OUTS =
     Ok (miners @ ops, r)" "outs_bytes miners = 31" "outs_bytes ops = 31" "length miners = 1" "length ops = 1"
     "\<forall>c \<in> set (miners @ ops). length (ro_spk c) \<le> 34"
    using example_resolved by blast
  let ?parts = "\<lparr>cb1 = template_cb1 example_tmpl None 0 4 4, cb2 = template_cb2 example_tmpl [] (miners @ ops) []\<rparr>"
  have s: "sint (5000000000 :: u64) = 5000000000" by simp
  have c: "(example_claims = []) = False" and w: "(tm_witness example_tmpl \<noteq> None) = False"
    by (simp_all add: example_claims_def example_tmpl_def)
  have "coinbase_build_window_from_template (Some (bytes_to_hex (ser_tx example_tmpl))) example_claims
     (Some example_addr) 100 None 0 4 4 93 0 = Ok (?parts, False, r)"
    unfolding coinbase_build_window_from_template_def c guardR_False option.case
      window_resolver.build_is_resolver [OF TrueI example_tmpl_ok(1-4) ss] repl_window_def s list.size example_tmpl_fixed R(1)
      bindR.simps case_prod_conv w ..
  moreover have "length (outs_ser (miners @ ops)) = 62"
    using length_outs_ser [of "miners @ ops"] R(2,3,6) by (simp add: outs_bytes_def)
  then have "length (cb1 ?parts) + 4 + 4 + length (cb2 ?parts) = 122"
    using R(4,5) by (simp add: template_cb1_def template_cb2_def example_tmpl_def cb_tag_push_def varint_bytes_cases)
  ultimately show ?thesis by blast
qed

text \<open>C16. Rewriting a node's coinbase template for a window: on every well-formed serialised template
  with one spendable output, the builder refuses exactly when the window resolver does and with
  its message, and otherwise the transaction it emits around the extranonces is the template with
  its spendable output replaced, in place, by the miners and the operator; every other output,
  the version, prevout, sequence and locktime are kept and no satoshi is lost.\<close>

theorem template_window_rewrite:
  assumes "tmpl_ok t" and "tm_outs t = pre @ (v, spk) # post" and "one_reward pre v spk post"
    and "0 \<le> sint v" and "new_ss_len t tag salt en1 en2 \<in> {2..100}"
    and "res = resolve_window_outputs (sint v) payees op bps maxb
      (template_fixed_bytes (parsed t) (length pre) tag salt en1 en2) flr CB_MAX_REPL_OUTS"
    and "built = coinbase_build_window_from_template (Some (bytes_to_hex (ser_tx t))) payees op bps tag salt en1 en2 maxb flr"
  shows "(\<forall>m. built = Err m \<longleftrightarrow> res = Err m) \<and> (built = UB \<longleftrightarrow> res = UB) \<and>
    (\<forall>parts w r. built = Ok (parts, w, r) \<longrightarrow>
      (\<exists>fs miners ops. res = Ok (miners @ ops, r) \<and> outs_sats (miners @ ops) = sint v \<and>
        window_resolved (sint v) payees op bps
          (window_budget maxb (template_fixed_bytes (parsed t) (length pre) tag salt en1 en2)) CB_MAX_REPL_OUTS fs miners ops r \<and>
        (w \<longleftrightarrow> tm_witness t \<noteq> None) \<and>
        (\<forall>en. length en = en1 + en2 \<longrightarrow>
          cb1 parts @ en @ cb2 parts = ser_tx (rewritten t tag salt en pre (miners @ ops) post))))"
proof -
  note b = window_resolver.build_is_resolver [OF TrueI assms(1-5), of payees op bps maxb flr]
  have eq: "built = bindR res (\<lambda>(repl, r).
      Ok (\<lparr>cb1 = template_cb1 t tag salt en1 en2, cb2 = template_cb2 t pre repl post\<rparr>, tm_witness t \<noteq> None, r))"
  proof (cases "payees = []")
    case True
    then show ?thesis by (simp add: assms(6,7) coinbase_build_window_from_template_def resolve_window_outputs_def)
  next
    case False
    then show ?thesis using b by (simp add: assms(6,7) coinbase_build_window_from_template_def repl_window_def)
  qed
  show ?thesis
  proof (cases res)
    case (Ok x)
    obtain repl r where x: "x = (repl, r)" by (cases x)
    obtain fs miners ops where mo: "repl = miners @ ops"
      and w: "window_resolved (sint v) payees op bps
          (window_budget maxb (template_fixed_bytes (parsed t) (length pre) tag salt en1 en2)) CB_MAX_REPL_OUTS fs miners ops r"
      using Ok x resolve_window_Ok unfolding assms(6) by metis
    have "outs_sats (miners @ ops) = sint v" using resolve_window_nonneg Ok x mo unfolding assms(6) by blast
    then show ?thesis using eq Ok x mo w rewritten_ser [OF _ assms(5)] by auto
  qed (simp_all add: eq)
qed

theorem template_window_rewrite_witness:
  "\<exists>parts r. coinbase_build_window_from_template (Some (bytes_to_hex (ser_tx example_tmpl))) example_claims
     (Some example_addr) 100 None 0 4 4 93 0 = Ok (parts, False, r) \<and>
     (\<exists>miners ops. outs_sats (miners @ ops) = 5000000000 \<and>
        cb1 parts @ replicate 8 0 @ cb2 parts = ser_tx (rewritten example_tmpl None 0 (replicate 8 0) [] (miners @ ops) []))"
proof -
  obtain parts r where b: "coinbase_build_window_from_template (Some (bytes_to_hex (ser_tx example_tmpl))) example_claims
     (Some example_addr) 100 None 0 4 4 93 0 = Ok (parts, False, r)" using example_tmpl_built by blast
  have ss: "new_ss_len example_tmpl None 0 4 4 \<in> {2..100}" by (simp add: example_tmpl_ok)
  have s: "sint (5000000000 :: u64) = 5000000000" by simp
  from template_window_rewrite [OF example_tmpl_ok(1-4) ss refl refl, of example_claims "Some example_addr" 100 93 0] b
  have "\<exists>miners ops. outs_sats (miners @ ops) = sint (5000000000 :: u64) \<and>
        (\<forall>en. length en = 4 + 4 \<longrightarrow> cb1 parts @ en @ cb2 parts = ser_tx (rewritten example_tmpl None 0 en [] (miners @ ops) []))"
    by blast
  then show ?thesis using b s by (metis (no_types, lifting) length_replicate numeral_Bit0)
qed

text \<open>The size of a rewritten coinbase: at most the configured ceiling plus one output, the
  operator's, which the budget of the template path does not reserve.\<close>

theorem template_window_size:
  assumes "tmpl_ok t" and "tm_outs t = pre @ (v, spk) # post" and "one_reward pre v spk post"
    and "0 \<le> sint v" and "new_ss_len t tag salt en1 en2 \<in> {2..100}"
    and "length (ser_tx t) < 2 ^ 32" and "length (tm_outs t) \<le> 60000"
    and "coinbase_build_window_from_template (Some (bytes_to_hex (ser_tx t))) payees op bps tag salt en1 en2 maxb flr = Ok (parts, w, r)"
  shows "length (cb1 parts) + en1 + en2 + length (cb2 parts) \<le>
    (if maxb = 0 then COINBASE_DEFAULT_MAX_BYTES else maxb) + (if wr_fee_sats r = 0 then 0 else 43)"
proof -
  have b: "build_from_template_impl (bytes_to_hex (ser_tx t)) (repl_window payees op bps maxb flr) tag salt en1 en2 = Ok (parts, w, r)"
    using assms(8) by (simp add: coinbase_build_window_from_template_def)
  obtain repl where repl: "repl_window payees op bps maxb flr (sint v) (template_fixed_bytes (parsed t) (length pre) tag salt en1 en2) CB_MAX_REPL_OUTS = Ok (repl, r)"
    and c: "cb1 parts = template_cb1 t tag salt en1 en2" "cb2 parts = template_cb2 t pre repl post"
    using window_resolver.build_Ok [OF TrueI assms(1-5) b] by metis
  obtain fs miners ops where mo: "repl = miners @ ops"
    and w: "window_resolved (sint v) payees op bps
          (window_budget maxb (template_fixed_bytes (parsed t) (length pre) tag salt en1 en2)) CB_MAX_REPL_OUTS fs miners ops r"
    using repl resolve_window_Ok unfolding repl_window_def by metis
  let ?en = "replicate (en1 + en2) (0 :: byte)"
  have "length (cb1 parts @ ?en @ cb2 parts) \<le> (if maxb = 0 then COINBASE_DEFAULT_MAX_BYTES else maxb) + outs_bytes ops"
    using rewritten_size [OF assms(1,2,6,5,7) w, of ?en] rewritten_ser [of ?en, OF _ assms(5)] by (simp only: c mo length_replicate)
  moreover have "outs_bytes ops \<le> (if wr_fee_sats r = 0 then 0 else 43)"
  proof (cases "wr_fee_sats r = 0")
    case True
    then show ?thesis using w by (simp add: window_resolved_def outs_bytes_def)
  next
    case False
    then obtain s where s: "ops = [\<lparr>ro_spk = s, ro_sats = wr_fee_sats r\<rparr>]" using w by (auto simp: window_resolved_def)
    then have "length s \<le> 34" using window_resolved_spk_length [OF w, of "\<lparr>ro_spk = s, ro_sats = wr_fee_sats r\<rparr>"] by simp
    then show ?thesis using False s by (simp add: outs_bytes_def out_ser_size_def)
  qed
  ultimately show ?thesis by (simp split: if_splits)
qed

theorem template_window_size_witness:
  "\<exists>parts r. coinbase_build_window_from_template (Some (bytes_to_hex (ser_tx example_tmpl))) example_claims
     (Some example_addr) 100 None 0 4 4 93 0 = Ok (parts, False, r) \<and>
     length (cb1 parts) + 4 + 4 + length (cb2 parts) \<le> 93 + (if wr_fee_sats r = 0 then 0 else 43)"
proof -
  obtain parts r where b: "coinbase_build_window_from_template (Some (bytes_to_hex (ser_tx example_tmpl))) example_claims
     (Some example_addr) 100 None 0 4 4 93 0 = Ok (parts, False, r)" using example_tmpl_built by blast
  have ss: "new_ss_len example_tmpl None 0 4 4 \<in> {2..100}" by (simp add: example_tmpl_ok)
  have "length (tm_outs example_tmpl) \<le> 60000" by (simp add: example_tmpl_def)
  from template_window_size [OF example_tmpl_ok(1-4) ss example_tmpl_ok(6) this b] b show ?thesis by auto
qed

text \<open>The ceiling itself can be exceeded: with an operator fee, a window coinbase built from a
  template under a limit of 93 bytes has 122.\<close>

theorem template_window_over_ceiling:
  "\<exists>parts r. coinbase_build_window_from_template (Some (bytes_to_hex (ser_tx example_tmpl))) example_claims
     (Some example_addr) 100 None 0 4 4 93 0 = Ok (parts, False, r) \<and>
     93 < length (cb1 parts) + 4 + 4 + length (cb2 parts)"
  using example_tmpl_built by fastforce

text \<open>Rewriting a template for a single miner: with a fee of at most the whole reward the miner's
  and the operator's amounts sum to the reward, the miner is paid first and at its own script, and
  the emitted transaction is the template with its spendable output replaced.\<close>

theorem template_single_rewrite:
  assumes "tmpl_ok t" and "tm_outs t = pre @ (v, spk) # post" and "one_reward pre v spk post"
    and "0 \<le> sint v" and "new_ss_len t tag salt en1 en2 \<in> {2..100}" and "bps \<le> 10000"
    and "coinbase_build_from_template (Some (bytes_to_hex (ser_tx t))) (Some miner) op bps tag salt en1 en2 = Ok (parts, w, m, fee)"
  shows "m + fee = sint v \<and> 0 \<le> m \<and> (w \<longleftrightarrow> tm_witness t \<noteq> None) \<and>
    (\<exists>mspk ops. coinbase_address_to_script miner 64 = Ok mspk \<and> outs_sats ops = fee \<and>
      (\<forall>en. length en = en1 + en2 \<longrightarrow>
        cb1 parts @ en @ cb2 parts =
          ser_tx (rewritten t tag salt en pre (\<lparr>ro_spk = mspk, ro_sats = m\<rparr> # ops) post)))"
proof -
  have b: "build_from_template_impl (bytes_to_hex (ser_tx t)) (repl_single miner op bps) tag salt en1 en2 = Ok (parts, w, m, fee)"
    using assms(7) by (simp add: coinbase_build_from_template_def)
  obtain repl where r: "repl_single miner op bps (sint v) (template_fixed_bytes (parsed t) (length pre) tag salt en1 en2) CB_MAX_REPL_OUTS = Ok (repl, m, fee)"
    and c: "cb1 parts = template_cb1 t tag salt en1 en2" "cb2 parts = template_cb2 t pre repl post" "w \<longleftrightarrow> tm_witness t \<noteq> None"
    using single_resolver.build_Ok [OF assms(6,1-5) b] by metis
  note p = repl_single_places [OF assms(6,4) r]
  then obtain mspk where ms: "coinbase_address_to_script miner 64 = Ok mspk" "ro_spk (hd repl) = mspk" "ro_sats (hd repl) = m"
    by blast
  then have hd: "hd repl = \<lparr>ro_spk = mspk, ro_sats = m\<rparr>" by (cases "hd repl") simp
  then have rp: "repl = \<lparr>ro_spk = mspk, ro_sats = m\<rparr> # tl repl" using p by (metis list.collapse)
  have "outs_sats repl = m + outs_sats (tl repl)" by (subst rp) (simp add: outs_sats_def)
  then have o: "outs_sats (tl repl) = fee" using p by simp
  have "0 \<le> ro_sats (hd repl)" using p by (metis list.set_sel(1))
  then have "0 \<le> m" using ms(3) by simp
  moreover have "\<forall>en. length en = en1 + en2 \<longrightarrow>
        cb1 parts @ en @ cb2 parts =
          ser_tx (rewritten t tag salt en pre (\<lparr>ro_spk = mspk, ro_sats = m\<rparr> # tl repl) post)"
    using rewritten_ser [OF _ assms(5)] rp c(1,2) by metis
  ultimately show ?thesis using p c(3) ms(1) o by metis
qed

theorem template_single_rewrite_witness:
  "\<exists>parts m fee. coinbase_build_from_template (Some (bytes_to_hex (ser_tx example_tmpl))) (Some example_addr)
     (Some example_addr) 100 None 0 4 4 = Ok (parts, False, m, fee) \<and> m + fee = 5000000000 \<and> 0 \<le> m"
proof -
  obtain s where s: "coinbase_address_to_script example_addr 64 = Ok s" using example_addr_script by blast
  have ne: "c_nonempty (Some example_addr)" by (simp add: example_addr_def)
  have ss: "new_ss_len example_tmpl None 0 4 4 \<in> {2..100}" by (simp add: example_tmpl_ok)
  have bps: "(100 :: int) \<le> 10000" by simp
  have v: "sint (5000000000 :: u64) = 5000000000" by simp
  have fee: "split_fee 5000000000 (Some example_addr) 100 = Ok (Some s, 50000000)"
    using s ne by (simp add: split_fee_def fee_cut_def i64_ok_def sdiv_nonneg COINBASE_DUST_SATS_def)
  have r: "\<exists>repl. repl_single example_addr (Some example_addr) 100 5000000000 f CB_MAX_REPL_OUTS = Ok (repl, 4950000000, 50000000)" for f
    using s fee by (simp add: repl_single_def i64_ok_def CB_MAX_REPL_OUTS_def COINBASE_MAX_PAYOUT_OUTPUTS_def)
  obtain repl where r1: "repl_single example_addr (Some example_addr) 100 5000000000
      (template_fixed_bytes (parsed example_tmpl) (length ([] :: (u64 \<times> byte list) list)) None 0 4 4) CB_MAX_REPL_OUTS = Ok (repl, 4950000000, 50000000)"
    using r by blast
  have w: "(tm_witness example_tmpl \<noteq> None) = False" by (simp add: example_tmpl_def)
  have b: "coinbase_build_from_template (Some (bytes_to_hex (ser_tx example_tmpl))) (Some example_addr)
     (Some example_addr) 100 None 0 4 4 =
     Ok (\<lparr>cb1 = template_cb1 example_tmpl None 0 4 4, cb2 = template_cb2 example_tmpl [] repl []\<rparr>, False, 4950000000, 50000000)"
    unfolding coinbase_build_from_template_def case_prod_conv option.case
      single_resolver.build_is_resolver [OF bps example_tmpl_ok(1-4) ss] v r1 bindR.simps case_prod_conv w ..
  from template_single_rewrite [OF example_tmpl_ok(1-4) ss bps b] b show ?thesis by (simp only: v) blast
qed

text \<open>A transaction whose scriptSig length is \<open>2^64 - 4\<close>, behind the length prefix \<open>ff\<close>.\<close>

definition wrapping_tx :: "byte list" where
  "wrapping_tx = [1, 0, 0, 0, 1] @ replicate 32 0 @ [0xff, 0xff, 0xff, 0xff] @
     [0xff, 0xfc, 0xff, 0xff, 0xff, 0xff, 0xff, 0xff, 0xff] @
     [1, 0x00, 0xf2, 0x05, 0x2a, 1, 0, 0, 0, 1, 0x51, 0, 0, 0, 0]"

lemma wrapping_tx_reads:
  "rd_u32 wrapping_tx 0 = Some (1, 4)" "has_marker wrapping_tx 4 = False" "rd_varint wrapping_tx 4 = Some (1, 5)"
  "rd_varint wrapping_tx 41 = Some (0xfffffffffffffffc, 50)" "rd_u32 wrapping_tx 46 = Some (0xffffffff, 50)"
  "rd_varint wrapping_tx 50 = Some (1, 51)" "rd_u64 wrapping_tx 51 = Some (5000000000, 59)"
  "rd_varint wrapping_tx 59 = Some (1, 60)" "is_op_return wrapping_tx 60 1 = Ok False"
  "rd_u32 wrapping_tx 61 = Some (0, 65)" "length wrapping_tx = 65"
  by code_simp+

lemma wrapping_tx_parse:
  "parse_template wrapping_tx = Ok \<lparr>pt_version = 1, pt_has_witness = False, pt_prevout_off = 5, pt_ss_off = 50,
     pt_ss_len = 0xfffffffffffffffc, pt_sequence = 0xffffffff,
     pt_outs = [\<lparr>co_value = 5000000000, co_spk_off = 60, co_spk_len = 1, co_op_return = False\<rparr>], pt_locktime = 0\<rparr>"
proof -
  have a: "add64 50 0xfffffffffffffffc = 46" "add64 60 1 = 61" by (simp_all add: add64_def)
  show ?thesis
    unfolding parse_template_def Let_def wrapping_tx_reads opt_res.simps bindR.simps case_prod_conv if_False
    by (simp add: wrapping_tx_reads a)
qed


end
