(* ===== verification/Wire.thy ===== *)
theory Wire
  imports Bytes Doubles
begin

text \<open>
  The vocabulary of the stratum wire: JSON values as the handlers see them after parsing (the parser
  and the printer are the vendored cJSON, so an output line is the value that is printed), the
  accessors of cJSON the handlers use, response and notification objects, number formatting, and
  the \<open>strtod\<close> of the C library that reads a difficulty out of a password.
\<close>

section \<open>JSON values\<close>

datatype json =
    JNull
  | JBool bool
  | JNum double
  | JStr string
  | JArr "json list"
  | JObj "(string \<times> json) list"

fun is_arr :: "json option \<Rightarrow> bool" where
  "is_arr (Some (JArr xs)) = True"
| "is_arr _ = False"

fun is_str :: "json option \<Rightarrow> bool" where
  "is_str (Some (JStr s)) = True"
| "is_str _ = False"

text \<open>\<open>cJSON_GetArraySize\<close>, \<open>cJSON_GetArrayItem\<close> on a checked array, \<open>->valuestring\<close> (\<open>NULL\<close> unless a string).\<close>

fun arr_items :: "json option \<Rightarrow> json list" where
  "arr_items (Some (JArr xs)) = xs"
| "arr_items _ = []"

definition arr_item :: "json option \<Rightarrow> nat \<Rightarrow> json option" where
  "arr_item j i = (if i < length (arr_items j) then Some (arr_items j ! i) else None)"

fun valuestring :: "json option \<Rightarrow> string option" where
  "valuestring (Some (JStr s)) = Some s"
| "valuestring _ = None"

fun obj_get :: "json option \<Rightarrow> string \<Rightarrow> json option" where
  "obj_get (Some (JObj kvs)) k = map_of kvs k"
| "obj_get _ k = None"

section \<open>Messages\<close>

definition make_error :: "int \<Rightarrow> string \<Rightarrow> json" where
  "make_error code msg = JArr [JNum (d_of_int code), JStr msg, JNull]"

definition response :: "json option \<Rightarrow> json option \<Rightarrow> json option \<Rightarrow> json" where
  "response rid result err =
     JObj [(''id'', case rid of None \<Rightarrow> JNull | Some i \<Rightarrow> i),
           (''result'', case result of None \<Rightarrow> JNull | Some r \<Rightarrow> r),
           (''error'', case err of None \<Rightarrow> JNull | Some e \<Rightarrow> e)]"

definition notification :: "string \<Rightarrow> json \<Rightarrow> json" where
  "notification meth params = JObj [(''id'', JNull), (''method'', JStr meth), (''params'', params)]"

section \<open>Number formatting\<close>

definition dec_digit :: "nat \<Rightarrow> char" where
  "dec_digit n = ''0123456789'' ! n"

fun dec :: "nat \<Rightarrow> string" where
  "dec n = (if n < 10 then [dec_digit n] else dec (n div 10) @ [dec_digit (n mod 10)])"

declare dec.simps [simp del]

definition dec_int :: "int \<Rightarrow> string" where
  "dec_int n = (if n < 0 then CHR ''-'' # dec (nat (- n)) else dec (nat n))"

text \<open>\<open>%08x\<close>\<close>

definition hex8 :: "u32 \<Rightarrow> string" where
  "hex8 v = map (\<lambda>i. hex_digit (unat ((drop_bit (4 * i) v) AND 0xf))) [7, 6, 5, 4, 3, 2, 1, 0]"

section \<open>strtod\<close>

definition is_space :: "char \<Rightarrow> bool" where
  "is_space c \<longleftrightarrow> c \<in> {CHR '' '', CHR 0x09, CHR 0x0A, CHR 0x0B, CHR 0x0C, CHR 0x0D}"

definition is_dec :: "char \<Rightarrow> bool" where
  "is_dec c \<longleftrightarrow> c \<in> set ''0123456789''"

definition is_hex :: "char \<Rightarrow> bool" where
  "is_hex c \<longleftrightarrow> hex_nibble c \<noteq> None"

definition digits_val :: "int \<Rightarrow> string \<Rightarrow> int" where
  "digits_val base ds = foldl (\<lambda>v c. v * base + int (the (hex_nibble c))) 0 ds"

definition scan_exp :: "char list \<Rightarrow> string \<Rightarrow> int \<times> nat" where
  "scan_exp markers r =
     (case r of
        [] \<Rightarrow> (0, 0)
      | m # r1 \<Rightarrow>
          if m \<notin> set markers then (0, 0)
          else let k = (if r1 \<noteq> [] \<and> hd r1 \<in> {CHR ''+'', CHR ''-''} then 1 else 0);
                   ds = takeWhile is_dec (drop k r1);
                   v = digits_val 10 ds
               in if ds = [] then (0, 0)
                  else (if k = 1 \<and> hd r1 = CHR ''-'' then - v else v, 1 + k + length ds))"

text \<open>A magnitude in base 10 or 16 and the number of characters it takes.\<close>

definition scan_mag :: "int \<Rightarrow> rat \<Rightarrow> (char \<Rightarrow> bool) \<Rightarrow> char list \<Rightarrow> string \<Rightarrow> (rat \<times> nat) option" where
  "scan_mag base ebase isd markers s =
     (let ip = takeWhile isd s;
          r = drop (length ip) s;
          fp = (if r \<noteq> [] \<and> hd r = CHR ''.'' then takeWhile isd (tl r) else []);
          n = length ip + (if r \<noteq> [] \<and> hd r = CHR ''.'' then 1 + length fp else 0)
      in if ip = [] \<and> fp = [] then None
         else let (e, k) = scan_exp markers (drop n s)
              in Some (of_int (digits_val base (ip @ fp)) * ebase powi e / of_int base ^ length fp, n + k))"

definition lower :: "char \<Rightarrow> char" where
  "lower c = (let n = of_char c :: nat in if 65 \<le> n \<and> n \<le> 90 then char_of (n + 32) else c)"

definition is_alpha :: "char \<Rightarrow> bool" where
  "is_alpha c = (let n = of_char (lower c) :: nat in 97 \<le> n \<and> n \<le> 122)"

definition has_word :: "string \<Rightarrow> string \<Rightarrow> bool" where
  "has_word w s \<longleftrightarrow> take (length w) (map lower s) = w"

text \<open>The \<open>(n-char-sequence)\<close> after \<open>nan\<close>.\<close>

definition nan_tail :: "string \<Rightarrow> nat" where
  "nan_tail s =
     (if s \<noteq> [] \<and> hd s = CHR ''('' then
        let w = takeWhile (\<lambda>c. is_dec c \<or> is_alpha c \<or> c = CHR ''_'') (tl s)
        in if drop (1 + length w) s \<noteq> [] \<and> s ! (1 + length w) = CHR '')'' then 2 + length w else 0
      else 0)"

definition strtod_abs :: "string \<Rightarrow> double \<times> nat" where
  "strtod_abs s =
     (if has_word ''infinity'' s then (PInf, 8)
      else if has_word ''inf'' s then (PInf, 3)
      else if has_word ''nan'' s then (NaN, 3 + nan_tail (drop 3 s))
      else case (if has_word ''0x'' s then scan_mag 16 2 is_hex [CHR ''p'', CHR ''P''] (drop 2 s) else None) of
        Some (q, n) \<Rightarrow> (d_round q, 2 + n)
      | None \<Rightarrow>
          (case scan_mag 10 10 is_dec [CHR ''e'', CHR ''E''] s of
             Some (q, n) \<Rightarrow> (d_round q, n)
           | None \<Rightarrow> (Fin 0, 0)))"

text \<open>The value and the number of characters read; 0 when there is no conversion.\<close>

definition strtod :: "string \<Rightarrow> double \<times> nat" where
  "strtod s =
     (let w = length (takeWhile is_space s);
          r = drop w s;
          g = (if r \<noteq> [] \<and> hd r \<in> {CHR ''+'', CHR ''-''} then 1 else 0);
          (v, n) = strtod_abs (drop g r)
      in if n = 0 then (Fin 0, 0)
         else (if g = 1 \<and> hd r = CHR ''-'' then d_neg v else v, w + g + n))"

end
