(* ===== verification/Dedupe.thy ===== *)
theory Dedupe
  imports Wire
begin

text \<open>
  The server-wide duplicate-share set of \<^verbatim>\<open>src/stratum.c\<close>: a ring of the last
  \<open>SHARE_DEDUPE_RING\<close> keys and over it an open-addressing index with linear probing and
  backward-shift deletion. The probing loops have no bound of their own, so they are partial
  functions: \<open>None\<close> is a loop that never ends. The theory shows that the index is a set, that every
  loop ends, and that ring and index together are a first-in-first-out set of bounded size.
\<close>

section \<open>Constants and hashing\<close>

definition SHARE_DEDUPE_RING :: nat where
  "SHARE_DEDUPE_RING = 16384"

definition SHARE_DEDUPE_SLOT_BITS :: nat where
  "SHARE_DEDUPE_SLOT_BITS = 16"

definition SHARE_DEDUPE_SLOTS :: nat where
  "SHARE_DEDUPE_SLOTS = push_bit SHARE_DEDUPE_SLOT_BITS 1"

definition fnv1a_step :: "u64 \<Rightarrow> byte \<Rightarrow> u64" where
  "fnv1a_step h b = (h XOR ucast b) * 1099511628211"

definition fnv1a_bytes :: "byte list \<Rightarrow> u64" where
  "fnv1a_bytes p = foldl fnv1a_step 1469598103934665603 p"

definition fnv1a :: "string \<Rightarrow> u64" where
  "fnv1a s = foldl fnv1a_step 1469598103934665603 (str_bytes s)"

section \<open>The index\<close>

definition dd_home :: "u64 \<Rightarrow> nat" where
  "dd_home h = unat (drop_bit (64 - SHARE_DEDUPE_SLOT_BITS) (h * 0x9E3779B97F4A7C15))"

definition dd_next :: "nat \<Rightarrow> nat" where
  "dd_next i = (i + 1) AND (SHARE_DEDUPE_SLOTS - 1)"

partial_function (option) dd_find_from :: "u64 list \<Rightarrow> u64 \<Rightarrow> nat \<Rightarrow> bool option" where
  "dd_find_from t h i =
     (let k = t ! i in
      if k = 0 then Some False
      else if k = h then Some True
      else dd_find_from t h (dd_next i))"

definition dd_index_find :: "u64 list \<Rightarrow> u64 \<Rightarrow> bool option" where
  "dd_index_find t h = dd_find_from t h (dd_home h)"

text \<open>\<open>while (index[i] != 0) i = (i + 1) & mask; index[i] = h;\<close>\<close>

partial_function (option) dd_insert_from :: "u64 list \<Rightarrow> u64 \<Rightarrow> nat \<Rightarrow> u64 list option" where
  "dd_insert_from t h i =
     (if t ! i \<noteq> 0 then dd_insert_from t h (dd_next i) else Some (t[i := h]))"

definition dd_index_insert :: "u64 list \<Rightarrow> u64 \<Rightarrow> u64 list option" where
  "dd_index_insert t h = dd_insert_from t h (dd_home h)"

definition dd_home_between :: "nat \<Rightarrow> nat \<Rightarrow> nat \<Rightarrow> bool" where
  "dd_home_between hole home j =
     (if hole \<le> j then hole < home \<and> home \<le> j else hole < home \<or> home \<le> j)"

text \<open>The shift loop: \<open>i\<close> is the hole, \<open>j\<close> the last slot looked at.\<close>

partial_function (option) dd_shift :: "u64 list \<Rightarrow> nat \<Rightarrow> nat \<Rightarrow> u64 list option" where
  "dd_shift t i j =
     (let j = dd_next j; k = t ! j in
      if k = 0 then Some (t[i := 0])
      else if dd_home_between i (dd_home k) j then dd_shift t i j
      else dd_shift (t[i := k]) j j)"

partial_function (option) dd_remove_from :: "u64 list \<Rightarrow> u64 \<Rightarrow> nat \<Rightarrow> u64 list option" where
  "dd_remove_from t h i =
     (if t ! i \<noteq> h then
        if t ! i = 0 then Some t else dd_remove_from t h (dd_next i)
      else dd_shift t i i)"

definition dd_index_remove :: "u64 list \<Rightarrow> u64 \<Rightarrow> u64 list option" where
  "dd_index_remove t h = dd_remove_from t h (dd_home h)"

section \<open>Ring and index\<close>

record share_dedupe =
  share_dedupe_ring :: "u64 list"
  share_dedupe_head :: nat
  share_dedupe_count :: nat
  share_dedupe_index :: "u64 list"

definition share_dedupe_init :: share_dedupe where
  "share_dedupe_init = \<lparr>share_dedupe_ring = replicate SHARE_DEDUPE_RING 0, share_dedupe_head = 0,
     share_dedupe_count = 0, share_dedupe_index = replicate SHARE_DEDUPE_SLOTS 0\<rparr>"

definition share_dedupe_key_check_and_add :: "share_dedupe \<Rightarrow> u64 \<Rightarrow> (bool \<times> share_dedupe) option" where
  "share_dedupe_key_check_and_add s h0 =
     (let h = (if h0 = 0 then 1 else h0) in
      case dd_index_find (share_dedupe_index s) h of
        None \<Rightarrow> None
      | Some True \<Rightarrow> Some (True, s)
      | Some False \<Rightarrow>
          (case (if share_dedupe_count s = SHARE_DEDUPE_RING
                 then (case dd_index_remove (share_dedupe_index s) (share_dedupe_ring s ! share_dedupe_head s) of
                         None \<Rightarrow> None | Some t \<Rightarrow> Some (s\<lparr>share_dedupe_index := t\<rparr>))
                 else Some (s\<lparr>share_dedupe_count := share_dedupe_count s + 1\<rparr>)) of
             None \<Rightarrow> None
           | Some s1 \<Rightarrow>
               let s2 = s1\<lparr>share_dedupe_ring := (share_dedupe_ring s1)[share_dedupe_head s1 := h],
                           share_dedupe_head := (share_dedupe_head s1 + 1) mod SHARE_DEDUPE_RING\<rparr>
               in (case dd_index_insert (share_dedupe_index s2) h of
                     None \<Rightarrow> None
                   | Some t \<Rightarrow> Some (False, s2\<lparr>share_dedupe_index := t\<rparr>))))"

definition share_dedupe_check_and_add :: "share_dedupe \<Rightarrow> byte list \<Rightarrow> (bool \<times> share_dedupe) option" where
  "share_dedupe_check_and_add s hash_be = share_dedupe_key_check_and_add s (fnv1a_bytes hash_be)"

text \<open>The count kept by the ring and the number of occupied index slots.\<close>

definition share_dedupe_live :: "share_dedupe \<Rightarrow> nat \<times> nat" where
  "share_dedupe_live s =
     (share_dedupe_count s, length (filter (\<lambda>k. k \<noteq> 0) (take SHARE_DEDUPE_SLOTS (share_dedupe_index s))))"

section \<open>The ring of one connection\<close>

definition DEDUPE_RING :: nat where
  "DEDUPE_RING = 1024"

record conn_dedupe =
  dedupe :: "u64 list"
  dedupe_head :: nat

text \<open>\<open>snprintf(key, 256, "%s|%s|%s|%s|%08x", ..)\<close>: at most 255 characters are kept.\<close>

definition dedupe_key :: "string option \<Rightarrow> string option \<Rightarrow> string option \<Rightarrow> string option \<Rightarrow> u32 \<Rightarrow> string" where
  "dedupe_key jid en2 ntime nonce version =
     (let s = (\<lambda>x. case x of None \<Rightarrow> [] | Some v \<Rightarrow> v)
      in take 255 (s jid @ ''|'' @ s en2 @ ''|'' @ s ntime @ ''|'' @ s nonce @ ''|'' @ hex8 version))"

definition dedupe_check_and_add ::
  "conn_dedupe \<Rightarrow> string option \<Rightarrow> string option \<Rightarrow> string option \<Rightarrow> string option \<Rightarrow> u32 \<Rightarrow> bool \<times> conn_dedupe" where
  "dedupe_check_and_add c jid en2 ntime nonce version =
     (let h = fnv1a (dedupe_key jid en2 ntime nonce version) in
      if h \<in> set (take DEDUPE_RING (dedupe c)) then (True, c)
      else (False, c\<lparr>dedupe := (dedupe c)[dedupe_head c := h],
                     dedupe_head := (dedupe_head c + 1) mod DEDUPE_RING\<rparr>))"

section \<open>Cyclic distance\<close>

lemma slots_pos: "0 < SHARE_DEDUPE_SLOTS" and ring_slots: "4 * SHARE_DEDUPE_RING = SHARE_DEDUPE_SLOTS"
  by (simp_all add: SHARE_DEDUPE_SLOTS_def SHARE_DEDUPE_SLOT_BITS_def SHARE_DEDUPE_RING_def)

lemma dd_next_eq: "dd_next i = (i + 1) mod SHARE_DEDUPE_SLOTS"
proof -
  have "SHARE_DEDUPE_SLOTS - 1 = mask 16" "SHARE_DEDUPE_SLOTS = 2 ^ 16"
    by (simp_all add: SHARE_DEDUPE_SLOTS_def SHARE_DEDUPE_SLOT_BITS_def mask_eq_exp_minus_1)
  then show ?thesis by (simp add: dd_next_def take_bit_eq_mask [symmetric] take_bit_eq_mod)
qed

lemma dd_next_cases: "i < SHARE_DEDUPE_SLOTS \<Longrightarrow> dd_next i = (if i + 1 = SHARE_DEDUPE_SLOTS then 0 else i + 1)"
  by (simp add: dd_next_eq)

lemma dd_next_less: "dd_next i < SHARE_DEDUPE_SLOTS"
  by (simp add: dd_next_eq slots_pos)

lemma dd_home_less: "dd_home h < SHARE_DEDUPE_SLOTS"
proof -
  have "unat (drop_bit 48 (w :: u64)) < 2 ^ 16" for w
    using unsigned_less [of w, where 'a = nat] by (simp add: unat_drop_bit less_mult_imp_div_less)
  then show ?thesis by (simp add: dd_home_def SHARE_DEDUPE_SLOTS_def SHARE_DEDUPE_SLOT_BITS_def)
qed

text \<open>How many steps of probing lead from \<open>a\<close> to \<open>b\<close>.\<close>

definition pdist :: "nat \<Rightarrow> nat \<Rightarrow> nat" where
  "pdist a b = (if a \<le> b then b - a else b + SHARE_DEDUPE_SLOTS - a)"

lemma pdist_self [simp]: "pdist a a = 0"
  by (simp add: pdist_def)

lemma pdist_less: "a < SHARE_DEDUPE_SLOTS \<Longrightarrow> b < SHARE_DEDUPE_SLOTS \<Longrightarrow> pdist a b < SHARE_DEDUPE_SLOTS"
  by (simp add: pdist_def) arith

lemma pdist_next: "a < SHARE_DEDUPE_SLOTS \<Longrightarrow> b < SHARE_DEDUPE_SLOTS \<Longrightarrow> a \<noteq> b \<Longrightarrow> pdist a b = Suc (pdist (dd_next a) b)"
  by (simp add: dd_next_cases pdist_def) arith

lemma pdist_to_next: "a < SHARE_DEDUPE_SLOTS \<Longrightarrow> b < SHARE_DEDUPE_SLOTS \<Longrightarrow> dd_next b \<noteq> a \<Longrightarrow> pdist a (dd_next b) = Suc (pdist a b)"
  by (simp add: dd_next_cases pdist_def split: if_splits) arith

lemma pdist_inj: "a < SHARE_DEDUPE_SLOTS \<Longrightarrow> b < SHARE_DEDUPE_SLOTS \<Longrightarrow> c < SHARE_DEDUPE_SLOTS \<Longrightarrow> pdist a b = pdist a c \<longleftrightarrow> b = c"
  by (simp add: pdist_def) arith

lemma dd_home_between_pdist:
  "a < SHARE_DEDUPE_SLOTS \<Longrightarrow> b < SHARE_DEDUPE_SLOTS \<Longrightarrow> h < SHARE_DEDUPE_SLOTS \<Longrightarrow> a \<noteq> b \<Longrightarrow>
   dd_home_between a h b \<longleftrightarrow> \<not> pdist h a < pdist h b"
  by (simp add: dd_home_between_def pdist_def) arith

section \<open>The probing invariant\<close>

text \<open>
  Every key but the one in the slot \<open>x\<close> (no slot when \<open>x\<close> is not a slot) is reached by probing from
  its home without meeting an empty slot.
\<close>

definition reached :: "u64 list \<Rightarrow> nat \<Rightarrow> bool" where
  "reached t p \<longleftrightarrow> (\<forall>q < SHARE_DEDUPE_SLOTS. pdist (dd_home (t ! p)) q < pdist (dd_home (t ! p)) p \<longrightarrow> t ! q \<noteq> 0)"

definition probes_except :: "u64 list \<Rightarrow> nat \<Rightarrow> bool" where
  "probes_except t x \<longleftrightarrow> (\<forall>p < SHARE_DEDUPE_SLOTS. p \<noteq> x \<longrightarrow> t ! p \<noteq> 0 \<longrightarrow> reached t p)"

definition keys_except :: "u64 list \<Rightarrow> nat \<Rightarrow> u64 set" where
  "keys_except t x = {t ! p | p. p < SHARE_DEDUPE_SLOTS \<and> p \<noteq> x \<and> t ! p \<noteq> 0}"

definition inj_except :: "u64 list \<Rightarrow> nat \<Rightarrow> bool" where
  "inj_except t x \<longleftrightarrow> (\<forall>p q. p < SHARE_DEDUPE_SLOTS \<longrightarrow> q < SHARE_DEDUPE_SLOTS \<longrightarrow> p \<noteq> x \<longrightarrow> q \<noteq> x \<longrightarrow>
     t ! p \<noteq> 0 \<longrightarrow> t ! p = t ! q \<longrightarrow> p = q)"

definition dd_inv :: "u64 list \<Rightarrow> bool" where
  "dd_inv t \<longleftrightarrow> length t = SHARE_DEDUPE_SLOTS \<and> probes_except t SHARE_DEDUPE_SLOTS \<and> inj_except t SHARE_DEDUPE_SLOTS"

definition dd_keys :: "u64 list \<Rightarrow> u64 set" where
  "dd_keys t = set t - {0}"

lemma dd_keys_except: "length t = SHARE_DEDUPE_SLOTS \<Longrightarrow> dd_keys t = keys_except t SHARE_DEDUPE_SLOTS"
  by (auto simp: dd_keys_def keys_except_def in_set_conv_nth)

definition has_gap :: "u64 list \<Rightarrow> bool" where
  "has_gap t \<longleftrightarrow> (\<exists>z < SHARE_DEDUPE_SLOTS. t ! z = 0)"

lemma gap_if_few:
  assumes "length t = SHARE_DEDUPE_SLOTS" and "inj_except t SHARE_DEDUPE_SLOTS" and "finite K" "dd_keys t \<subseteq> K" "card K < SHARE_DEDUPE_SLOTS"
  shows "has_gap t"
proof (rule ccontr)
  assume "\<not> has_gap t"
  then have nz: "\<forall>p < SHARE_DEDUPE_SLOTS. t ! p \<noteq> 0" by (auto simp: has_gap_def)
  then have "distinct t" unfolding distinct_conv_nth using assms(1,2) unfolding inj_except_def by (metis less_irrefl)
  then have "card (set t) = SHARE_DEDUPE_SLOTS" using assms(1) distinct_card by metis
  moreover have "set t = dd_keys t" using nz assms(1) by (metis dd_keys_def Diff_empty Diff_insert0 in_set_conv_nth)
  ultimately show False using card_mono [OF assms(3,4)] assms(5) by simp
qed

text \<open>Probing for a key from a slot on its path ends at the key or at an empty slot, and nowhere else.\<close>

lemma probe_path:
  assumes "a < SHARE_DEDUPE_SLOTS" "b < SHARE_DEDUPE_SLOTS" "c < SHARE_DEDUPE_SLOTS"
    and "pdist a c < pdist a b"
  shows "pdist c b < pdist a b \<or> c = a" and "pdist a b = pdist a c + pdist c b"
  using assms by (auto simp: pdist_def split: if_splits)

lemma dd_find_from_ends:
  assumes z: "z < SHARE_DEDUPE_SLOTS" "t ! z = 0" and i: "i < SHARE_DEDUPE_SLOTS"
  shows "\<exists>e < SHARE_DEDUPE_SLOTS. (t ! e = 0 \<or> t ! e = h) \<and> (\<forall>q < SHARE_DEDUPE_SLOTS. pdist i q < pdist i e \<longrightarrow> t ! q \<noteq> 0 \<and> t ! q \<noteq> h) \<and>
    dd_find_from t h i = Some (t ! e = h \<and> h \<noteq> 0) \<and>
    (h \<noteq> 0 \<longrightarrow> dd_remove_from t h i = (if t ! e = h then dd_shift t e e else Some t))"
  using i
proof (induction "pdist i z" arbitrary: i)
  case 0
  then have "i = z" using z by (auto simp: pdist_def split: if_splits)
  then show ?case using z by (intro exI [of _ z]) (auto simp: dd_find_from.simps [of t h z] dd_remove_from.simps [of t h z])
next
  case (Suc d)
  show ?case
  proof (cases "t ! i = 0 \<or> t ! i = h")
    case True
    then show ?thesis using Suc.prems
      by (intro exI [of _ i]) (auto simp: dd_find_from.simps [of t h i] dd_remove_from.simps [of t h i])
  next
    case False
    have "i \<noteq> z" using Suc.hyps(2) by auto
    then have "d = pdist (dd_next i) z" using Suc.hyps(2) Suc.prems z(1) pdist_next by simp
    from Suc.hyps(1) [OF this dd_next_less] obtain e where e: "e < SHARE_DEDUPE_SLOTS" "t ! e = 0 \<or> t ! e = h"
      "\<forall>q < SHARE_DEDUPE_SLOTS. pdist (dd_next i) q < pdist (dd_next i) e \<longrightarrow> t ! q \<noteq> 0 \<and> t ! q \<noteq> h"
      "dd_find_from t h (dd_next i) = Some (t ! e = h \<and> h \<noteq> 0)"
      "h \<noteq> 0 \<longrightarrow> dd_remove_from t h (dd_next i) = (if t ! e = h then dd_shift t e e else Some t)" by blast
    have ie: "i \<noteq> e" using False e(2) by auto
    have "t ! q \<noteq> 0 \<and> t ! q \<noteq> h" if q: "q < SHARE_DEDUPE_SLOTS" "pdist i q < pdist i e" for q
    proof (cases "q = i")
      case False
      then show ?thesis using e(3) q pdist_next [OF Suc.prems q(1)] pdist_next [OF Suc.prems e(1)] ie by auto
    qed (use \<open>\<not> (t ! i = 0 \<or> t ! i = h)\<close> in simp)
    then show ?thesis using e False
      by (intro exI [of _ e]) (auto simp: dd_find_from.simps [of t h i] dd_remove_from.simps [of t h i])
  qed
qed

lemma key_unique_on_path:
  assumes inv: "dd_inv t" and p: "p < SHARE_DEDUPE_SLOTS" "t ! p = h" "h \<noteq> 0"
    and e: "e < SHARE_DEDUPE_SLOTS" "t ! e = 0 \<or> t ! e = h"
    "\<forall>q < SHARE_DEDUPE_SLOTS. pdist (dd_home h) q < pdist (dd_home h) e \<longrightarrow> t ! q \<noteq> 0 \<and> t ! q \<noteq> h"
  shows "e = p"
proof -
  have r: "reached t p" using inv p by (auto simp: dd_inv_def probes_except_def)
  have "\<not> pdist (dd_home h) p < pdist (dd_home h) e" using e(3) p by auto
  moreover have "t ! e \<noteq> 0" if "pdist (dd_home h) e < pdist (dd_home h) p" using r that e(1) p(2) by (auto simp: reached_def)
  moreover have "t ! e = h \<Longrightarrow> e = p" using inv e(1) p by (auto simp: dd_inv_def inj_except_def)
  ultimately show ?thesis using e(1,2) p(1) pdist_inj [OF dd_home_less e(1) p(1), of h] by (metis linorder_neqE_nat)
qed

lemma dd_index_find_correct:
  assumes inv: "dd_inv t" and gap: "has_gap t" and h: "h \<noteq> 0"
  shows "dd_index_find t h = Some (h \<in> dd_keys t)"
proof -
  obtain z where z: "z < SHARE_DEDUPE_SLOTS" "t ! z = 0" using gap by (auto simp: has_gap_def)
  obtain e where e: "e < SHARE_DEDUPE_SLOTS" "t ! e = 0 \<or> t ! e = h"
    "\<forall>q < SHARE_DEDUPE_SLOTS. pdist (dd_home h) q < pdist (dd_home h) e \<longrightarrow> t ! q \<noteq> 0 \<and> t ! q \<noteq> h"
    "dd_find_from t h (dd_home h) = Some (t ! e = h \<and> h \<noteq> 0)"
    using dd_find_from_ends [OF z dd_home_less] by blast
  have len: "length t = SHARE_DEDUPE_SLOTS" using inv by (simp add: dd_inv_def)
  have "t ! e = h" if k: "h \<in> dd_keys t"
  proof -
    obtain p where p: "p < SHARE_DEDUPE_SLOTS" "t ! p = h" using k len by (auto simp: dd_keys_def in_set_conv_nth)
    then show ?thesis using key_unique_on_path [OF inv p h e(1-3)] by simp
  qed
  moreover have "h \<in> dd_keys t" if "t ! e = h" using that e(1) len h by (auto simp: dd_keys_def)
  ultimately show ?thesis using e(4) h unfolding dd_index_find_def by auto
qed

section \<open>Insertion\<close>

lemma dd_insert_from_ends:
  assumes z: "z < SHARE_DEDUPE_SLOTS" "t ! z = 0" and i: "i < SHARE_DEDUPE_SLOTS"
  shows "\<exists>e < SHARE_DEDUPE_SLOTS. t ! e = 0 \<and> (\<forall>q < SHARE_DEDUPE_SLOTS. pdist i q < pdist i e \<longrightarrow> t ! q \<noteq> 0) \<and>
    dd_insert_from t h i = Some (t[e := h])"
  using i
proof (induction "pdist i z" arbitrary: i)
  case 0
  then have "i = z" using z by (auto simp: pdist_def split: if_splits)
  then show ?case using z by (intro exI [of _ z]) (simp add: dd_insert_from.simps [of t h z])
next
  case (Suc d)
  show ?case
  proof (cases "t ! i = 0")
    case True
    then show ?thesis using Suc.prems by (intro exI [of _ i]) (simp add: dd_insert_from.simps [of t h i])
  next
    case False
    have "i \<noteq> z" using Suc.hyps(2) by auto
    then have "d = pdist (dd_next i) z" using Suc.hyps(2) Suc.prems z(1) pdist_next by simp
    from Suc.hyps(1) [OF this dd_next_less] obtain e where e: "e < SHARE_DEDUPE_SLOTS" "t ! e = 0"
      "\<forall>q < SHARE_DEDUPE_SLOTS. pdist (dd_next i) q < pdist (dd_next i) e \<longrightarrow> t ! q \<noteq> 0"
      "dd_insert_from t h (dd_next i) = Some (t[e := h])" by blast
    have ie: "i \<noteq> e" using False e(2) by auto
    have "t ! q \<noteq> 0" if q: "q < SHARE_DEDUPE_SLOTS" "pdist i q < pdist i e" for q
      using e(3) q pdist_next [OF Suc.prems q(1)] pdist_next [OF Suc.prems e(1)] ie False by (cases "q = i") auto
    then show ?thesis using e False by (intro exI [of _ e]) (simp add: dd_insert_from.simps [of t h i])
  qed
qed

lemma dd_index_insert_correct:
  assumes inv: "dd_inv t" and gap: "has_gap t" and h: "h \<noteq> 0" "h \<notin> dd_keys t"
  shows "\<exists>t'. dd_index_insert t h = Some t' \<and> dd_inv t' \<and> dd_keys t' = insert h (dd_keys t)"
proof -
  obtain z where z: "z < SHARE_DEDUPE_SLOTS" "t ! z = 0" using gap by (auto simp: has_gap_def)
  obtain e where e: "e < SHARE_DEDUPE_SLOTS" "t ! e = 0"
    "\<forall>q < SHARE_DEDUPE_SLOTS. pdist (dd_home h) q < pdist (dd_home h) e \<longrightarrow> t ! q \<noteq> 0"
    "dd_insert_from t h (dd_home h) = Some (t[e := h])"
    using dd_insert_from_ends [OF z dd_home_less] by blast
  have len: "length t = SHARE_DEDUPE_SLOTS" and pr: "\<And>p. p < SHARE_DEDUPE_SLOTS \<Longrightarrow> t ! p \<noteq> 0 \<Longrightarrow> reached t p"
    and inj: "\<And>p q. p < SHARE_DEDUPE_SLOTS \<Longrightarrow> q < SHARE_DEDUPE_SLOTS \<Longrightarrow> t ! p \<noteq> 0 \<Longrightarrow> t ! p = t ! q \<Longrightarrow> p = q"
    using inv unfolding dd_inv_def probes_except_def inj_except_def by (blast dest: less_not_refl2)+
  have hn: "t ! p \<noteq> h" if "p < SHARE_DEDUPE_SLOTS" for p using that h len by (auto simp: dd_keys_def)
  have nz: "t[e := h] ! q \<noteq> 0" if "q < SHARE_DEDUPE_SLOTS" "t ! q \<noteq> 0" for q
    using that h(1) len e(1) by (simp add: nth_list_update)
  have "reached (t[e := h]) p" if p: "p < SHARE_DEDUPE_SLOTS" "t[e := h] ! p \<noteq> 0" for p
  proof (cases "p = e")
    case True
    then show ?thesis using e(1,3) len nz by (simp add: reached_def)
  next
    case False
    then have "reached t p" using pr p by simp
    then show ?thesis using False nz by (auto simp: reached_def)
  qed
  moreover have "inj_except (t[e := h]) SHARE_DEDUPE_SLOTS"
    unfolding inj_except_def
  proof (intro allI impI)
    fix p q assume pq: "p < SHARE_DEDUPE_SLOTS" "q < SHARE_DEDUPE_SLOTS" "t[e := h] ! p \<noteq> 0" "t[e := h] ! p = t[e := h] ! q"
    then show "p = q" using inj [OF pq(1,2)] hn [OF pq(1)] hn [OF pq(2)] e(1) len by (cases "p = e"; cases "q = e") simp_all
  qed
  moreover have "dd_keys (t[e := h]) = insert h (dd_keys t)"
  proof -
    have "t = take e t @ 0 # drop (Suc e) t" using e(1,2) len by (metis id_take_nth_drop)
    then have "set t = insert 0 (set (take e t) \<union> set (drop (Suc e) t))" by (metis set_append list.simps(15) Un_insert_right)
    moreover have "set (t[e := h]) = insert h (set (take e t) \<union> set (drop (Suc e) t))" using e(1) len by (simp add: upd_conv_take_nth_drop)
    ultimately show ?thesis using h(1) by (auto simp: dd_keys_def)
  qed
  ultimately show ?thesis using e(4) len unfolding dd_index_insert_def dd_inv_def probes_except_def by auto
qed

section \<open>Deletion\<close>

lemma path_through:
  assumes "a < SHARE_DEDUPE_SLOTS" "i < SHARE_DEDUPE_SLOTS" "p < SHARE_DEDUPE_SLOTS" "j < SHARE_DEDUPE_SLOTS"
    and "pdist a i < pdist a p" and "pdist i j < pdist i p"
  shows "pdist a j < pdist a p"
  using assms by (auto simp: pdist_def split: if_splits)

lemma pdist_from_zero: "a < SHARE_DEDUPE_SLOTS \<Longrightarrow> b < SHARE_DEDUPE_SLOTS \<Longrightarrow> pdist a b = 0 \<longleftrightarrow> a = b"
  by (simp add: pdist_def) arith

lemma pdist_next_self: "j < SHARE_DEDUPE_SLOTS \<Longrightarrow> pdist (dd_next j) j = SHARE_DEDUPE_SLOTS - 1"
  by (simp add: dd_next_cases pdist_def) arith

definition shift_ok :: "u64 list \<Rightarrow> nat \<Rightarrow> nat \<Rightarrow> bool" where
  "shift_ok t i j \<longleftrightarrow> length t = SHARE_DEDUPE_SLOTS \<and> i < SHARE_DEDUPE_SLOTS \<and> j < SHARE_DEDUPE_SLOTS \<and> t ! i \<noteq> 0 \<and> t ! j \<noteq> 0 \<and>
     probes_except t i \<and> inj_except t i \<and>
     (\<forall>p < SHARE_DEDUPE_SLOTS. p \<noteq> i \<longrightarrow> t ! p \<noteq> 0 \<longrightarrow> pdist i p \<le> pdist i j \<longrightarrow>
        \<not> pdist (dd_home (t ! p)) i < pdist (dd_home (t ! p)) p)"

lemma shift_done:
  assumes ok: "shift_ok t i j" and j': "t ! dd_next j = 0"
  shows "dd_inv (t[i := 0]) \<and> dd_keys (t[i := 0]) = keys_except t i"
proof -
  have len: "length t = SHARE_DEDUPE_SLOTS" and i: "i < SHARE_DEDUPE_SLOTS" and j: "j < SHARE_DEDUPE_SLOTS" "t ! i \<noteq> 0"
    and pr: "probes_except t i" and inj: "inj_except t i"
    and sc: "\<And>p. p < SHARE_DEDUPE_SLOTS \<Longrightarrow> p \<noteq> i \<Longrightarrow> t ! p \<noteq> 0 \<Longrightarrow> pdist i p \<le> pdist i j \<Longrightarrow>
        \<not> pdist (dd_home (t ! p)) i < pdist (dd_home (t ! p)) p"
    using ok by (auto simp: shift_ok_def)
  have ij: "dd_next j \<noteq> i" using j' j(2) by auto
  have "reached (t[i := 0]) p" if p: "p < SHARE_DEDUPE_SLOTS" "t[i := 0] ! p \<noteq> 0" for p
  proof -
    have pi: "p \<noteq> i" "t ! p \<noteq> 0" using p i len by (auto simp: nth_list_update split: if_splits)
    let ?a = "dd_home (t ! p)"
    have r: "reached t p" using pr p(1) pi by (simp add: probes_except_def)
    have "\<not> pdist ?a i < pdist ?a p"
    proof
      assume through: "pdist ?a i < pdist ?a p"
      then have "pdist i j < pdist i p" using sc p(1) pi by (meson not_le)
      moreover have "pdist i (dd_next j) = Suc (pdist i j)" using pdist_to_next [OF i j(1) ij] .
      moreover have "pdist i (dd_next j) \<noteq> pdist i p" using pdist_inj [OF i dd_next_less p(1)] j' pi(2) by metis
      ultimately have "pdist i (dd_next j) < pdist i p" by simp
      then have "pdist ?a (dd_next j) < pdist ?a p" by (rule path_through [OF dd_home_less i p(1) dd_next_less through])
      then show False using r j' dd_next_less by (auto simp: reached_def)
    qed
    moreover have "t[i := 0] ! p = t ! p" using pi(1) by simp
    ultimately show ?thesis using r unfolding reached_def by (metis nth_list_update_neq)
  qed
  moreover have "inj_except (t[i := 0]) SHARE_DEDUPE_SLOTS"
    unfolding inj_except_def
  proof (intro allI impI)
    fix p q assume pq: "p < SHARE_DEDUPE_SLOTS" "q < SHARE_DEDUPE_SLOTS" "t[i := 0] ! p \<noteq> 0" "t[i := 0] ! p = t[i := 0] ! q"
    then have "p \<noteq> i" "q \<noteq> i" using len i by auto
    then show "p = q" using inj pq unfolding inj_except_def by (metis nth_list_update_neq)
  qed
  moreover have "dd_keys (t[i := 0]) = keys_except t i"
    using len i by (auto simp: dd_keys_def keys_except_def in_set_conv_nth nth_list_update split: if_splits)
  ultimately show ?thesis using len by (auto simp: dd_inv_def probes_except_def)
qed

lemma shift_move:
  assumes ok: "shift_ok t i j" and k: "t ! dd_next j \<noteq> 0" and ij: "dd_next j \<noteq> i"
    and through: "pdist (dd_home (t ! dd_next j)) i < pdist (dd_home (t ! dd_next j)) (dd_next j)"
  shows "shift_ok (t[i := t ! dd_next j]) (dd_next j) (dd_next j) \<and>
    keys_except (t[i := t ! dd_next j]) (dd_next j) = keys_except t i"
proof -
  let ?j = "dd_next j" and ?k = "t ! dd_next j"
  let ?t = "t[i := ?k]"
  have len: "length t = SHARE_DEDUPE_SLOTS" and i: "i < SHARE_DEDUPE_SLOTS" "t ! i \<noteq> 0"
    and pr: "\<And>p. p < SHARE_DEDUPE_SLOTS \<Longrightarrow> p \<noteq> i \<Longrightarrow> t ! p \<noteq> 0 \<Longrightarrow> reached t p"
    and inj: "\<And>p q. p < SHARE_DEDUPE_SLOTS \<Longrightarrow> q < SHARE_DEDUPE_SLOTS \<Longrightarrow> p \<noteq> i \<Longrightarrow> q \<noteq> i \<Longrightarrow> t ! p \<noteq> 0 \<Longrightarrow> t ! p = t ! q \<Longrightarrow> p = q"
    using ok unfolding shift_ok_def probes_except_def inj_except_def by blast+
  have nz: "?t ! q \<noteq> 0" if "q < SHARE_DEDUPE_SLOTS" "t ! q \<noteq> 0" for q using that k len i by (simp add: nth_list_update)
  have "reached ?t p" if p: "p < SHARE_DEDUPE_SLOTS" "p \<noteq> ?j" "?t ! p \<noteq> 0" for p
  proof (cases "p = i")
    case True
    have "reached t ?j" using pr [OF dd_next_less ij k] .
    then have "?t ! q \<noteq> 0" if "q < SHARE_DEDUPE_SLOTS" "pdist (dd_home ?k) q < pdist (dd_home ?k) i" for q
      using that through nz by (auto simp: reached_def)
    then show ?thesis using True len i by (simp add: reached_def)
  next
    case False
    then have "reached t p" using pr p by simp
    then show ?thesis using False nz by (auto simp: reached_def)
  qed
  moreover have "inj_except ?t ?j"
    unfolding inj_except_def
  proof (intro allI impI)
    fix p q assume pq: "p < SHARE_DEDUPE_SLOTS" "q < SHARE_DEDUPE_SLOTS" "p \<noteq> ?j" "q \<noteq> ?j" "?t ! p \<noteq> 0" "?t ! p = ?t ! q"
    have "t ! x \<noteq> ?k" if "x < SHARE_DEDUPE_SLOTS" "x \<noteq> ?j" "x \<noteq> i" for x using inj [OF dd_next_less that(1) ij that(3) k] that(2) by auto
    moreover have "?t ! i = ?k" "\<And>x. x \<noteq> i \<Longrightarrow> ?t ! x = t ! x" using i len by simp_all
    ultimately show "p = q" using inj [OF pq(1,2)] pq by metis
  qed
  moreover have "keys_except ?t ?j = keys_except t i"
  proof
    show "keys_except ?t ?j \<subseteq> keys_except t i"
      using k ij len i dd_next_less [of j] by (auto simp: keys_except_def nth_list_update split: if_splits)
    show "keys_except t i \<subseteq> keys_except ?t ?j"
    proof
      fix x assume "x \<in> keys_except t i"
      then obtain p where p: "p < SHARE_DEDUPE_SLOTS" "p \<noteq> i" "t ! p \<noteq> 0" "x = t ! p" by (auto simp: keys_except_def)
      show "x \<in> keys_except ?t ?j"
      proof (cases "p = ?j")
        case True
        then have "x = ?t ! i" using p(4) i len by simp
        then show ?thesis using i ij nz by (auto simp: keys_except_def)
      next
        case False
        moreover have "x = ?t ! p" using p by simp
        ultimately show ?thesis using p(1) nz [OF p(1,3)] unfolding keys_except_def by blast
      qed
    qed
  qed
  ultimately show ?thesis
    using len i k ij dd_next_less [of j] pdist_from_zero [OF dd_next_less [of j]]
    by (auto simp: shift_ok_def probes_except_def nth_list_update)
qed

lemma dd_shift_correct:
  assumes z: "z < SHARE_DEDUPE_SLOTS" "t ! z = 0" and ok: "shift_ok t i j" and d: "pdist i j < pdist i z"
  shows "\<exists>t'. dd_shift t i j = Some t' \<and> dd_inv t' \<and> dd_keys t' = keys_except t i"
  using z(2) ok d
proof (induction "pdist j z" arbitrary: t i j)
  case 0
  then show ?case using z(1) pdist_from_zero [of j z] by (auto simp: shift_ok_def)
next
  case (Suc n)
  let ?j = "dd_next j" and ?k = "t ! dd_next j"
  have len: "length t = SHARE_DEDUPE_SLOTS" and i: "i < SHARE_DEDUPE_SLOTS" "t ! i \<noteq> 0" and j: "j < SHARE_DEDUPE_SLOTS" "t ! j \<noteq> 0"
    using Suc.prems(2) by (auto simp: shift_ok_def)
  have n: "n = pdist ?j z" using pdist_next [OF j(1) z(1)] Suc.hyps(2) Suc.prems(1) j(2) by (metis nat.inject)
  have ij: "?j \<noteq> i" using pdist_next_self [OF j(1)] pdist_less [OF i(1) z(1)] Suc.prems(3) by auto
  have dj: "pdist i ?j = Suc (pdist i j)" by (rule pdist_to_next [OF i(1) j(1) ij])
  show ?case
  proof (cases "?k = 0")
    case True
    then show ?thesis using shift_done [OF Suc.prems(2) True] by (simp add: dd_shift.simps [of t i j] Let_def)
  next
    case False
    then have jz: "?j \<noteq> z" using Suc.prems(1) by auto
    have bt: "dd_home_between i (dd_home ?k) ?j \<longleftrightarrow> \<not> pdist (dd_home ?k) i < pdist (dd_home ?k) ?j"
      by (rule dd_home_between_pdist [OF i(1) dd_next_less dd_home_less]) (use ij in simp)
    show ?thesis
    proof (cases "pdist (dd_home ?k) i < pdist (dd_home ?k) ?j")
      case True
      note m = shift_move [OF Suc.prems(2) False ij True]
      have "t[i := ?k] ! z = 0" using Suc.prems(1) i by (metis nth_list_update_neq)
      moreover have "pdist ?j ?j < pdist ?j z" using pdist_from_zero [OF dd_next_less [of j] z(1)] jz by simp
      ultimately obtain t' where "dd_shift (t[i := ?k]) ?j ?j = Some t'" "dd_inv t'" "dd_keys t' = keys_except (t[i := ?k]) ?j"
        using Suc.hyps(1) [OF n] m by blast
      then show ?thesis using m bt True False by (simp add: dd_shift.simps [of t i j] Let_def)
    next
      case nt: False
      have "shift_ok t i ?j" unfolding shift_ok_def
      proof (intro conjI allI impI)
        fix p assume p: "p < SHARE_DEDUPE_SLOTS" "p \<noteq> i" "t ! p \<noteq> 0" "pdist i p \<le> pdist i ?j"
        show "\<not> pdist (dd_home (t ! p)) i < pdist (dd_home (t ! p)) p"
        proof (cases "pdist i p = pdist i ?j")
          case True
          then have "p = ?j" using pdist_inj [OF i(1) p(1) dd_next_less] by simp
          then show ?thesis using nt by simp
        next
          case False
          then show ?thesis using p Suc.prems(2) dj by (simp add: shift_ok_def)
        qed
      qed (use Suc.prems(2) False dd_next_less in \<open>simp_all add: shift_ok_def\<close>)
      moreover have "pdist i ?j \<noteq> pdist i z" using pdist_inj [OF i(1) dd_next_less z(1)] jz by simp
      ultimately obtain t' where "dd_shift t i ?j = Some t'" "dd_inv t'" "dd_keys t' = keys_except t i"
        using Suc.hyps(1) [OF n Suc.prems(1)] dj Suc.prems(3) by (metis Suc_lessI)
      then show ?thesis using bt nt False by (simp add: dd_shift.simps [of t i j] Let_def)
    qed
  qed
qed

lemma dd_index_remove_correct:
  assumes inv: "dd_inv t" and gap: "has_gap t" and h: "h \<noteq> 0"
  shows "\<exists>t'. dd_index_remove t h = Some t' \<and> dd_inv t' \<and> dd_keys t' = dd_keys t - {h}"
proof -
  obtain z where z: "z < SHARE_DEDUPE_SLOTS" "t ! z = 0" using gap by (auto simp: has_gap_def)
  obtain e where e: "e < SHARE_DEDUPE_SLOTS" "t ! e = 0 \<or> t ! e = h"
    "\<forall>q < SHARE_DEDUPE_SLOTS. pdist (dd_home h) q < pdist (dd_home h) e \<longrightarrow> t ! q \<noteq> 0 \<and> t ! q \<noteq> h"
    "h \<noteq> 0 \<longrightarrow> dd_remove_from t h (dd_home h) = (if t ! e = h then dd_shift t e e else Some t)"
    using dd_find_from_ends [OF z dd_home_less] by blast
  have len: "length t = SHARE_DEDUPE_SLOTS" using inv by (simp add: dd_inv_def)
  show ?thesis
  proof (cases "t ! e = h")
    case True
    have "shift_ok t e e" unfolding shift_ok_def
      using inv e(1) True h pdist_from_zero [OF e(1)] by (auto simp: dd_inv_def probes_except_def inj_except_def)
    moreover have "pdist e e < pdist e z" using pdist_from_zero [OF e(1) z(1)] True h z(2) by auto
    ultimately obtain t' where t': "dd_shift t e e = Some t'" "dd_inv t'" "dd_keys t' = keys_except t e"
      using dd_shift_correct [OF z] by blast
    have "keys_except t e = dd_keys t - {h}"
    proof -
      have "t ! p \<noteq> h" if "p < SHARE_DEDUPE_SLOTS" "p \<noteq> e" for p
        using inv e(1) True h that unfolding dd_inv_def inj_except_def by (metis less_irrefl)
      then show ?thesis using True unfolding dd_keys_except [OF len] by (auto simp: keys_except_def)
    qed
    then show ?thesis using t' e(4) h True by (simp add: dd_index_remove_def)
  next
    case False
    have "h \<notin> dd_keys t"
    proof
      assume k: "h \<in> dd_keys t"
      then obtain p where p: "p < SHARE_DEDUPE_SLOTS" "t ! p = h" using len by (auto simp: dd_keys_def in_set_conv_nth)
      then show False using key_unique_on_path [OF inv p h e(1-3)] False by simp
    qed
    then show ?thesis using e(4) h False inv by (simp add: dd_index_remove_def)
  qed
qed

section \<open>The index as an interface\<close>

text \<open>
  What the ring relies on: while fewer than \<open>room\<close> keys are stored, looking a key up, adding an
  absent one and removing one all return, and behave as on the set of the stored keys.
\<close>

locale key_index =
  fixes find :: "'t \<Rightarrow> 'k \<Rightarrow> bool option"
    and ins :: "'t \<Rightarrow> 'k \<Rightarrow> 't option"
    and del :: "'t \<Rightarrow> 'k \<Rightarrow> 't option"
    and keys :: "'t \<Rightarrow> 'k set"
    and invar :: "'t \<Rightarrow> bool"
    and valid :: "'k \<Rightarrow> bool"
    and room :: nat
  assumes finite_keys: "invar t \<Longrightarrow> finite (keys t)"
    and find_keys: "invar t \<Longrightarrow> card (keys t) < room \<Longrightarrow> valid k \<Longrightarrow> find t k = Some (k \<in> keys t)"
    and ins_keys: "invar t \<Longrightarrow> card (keys t) < room \<Longrightarrow> valid k \<Longrightarrow> k \<notin> keys t \<Longrightarrow>
      \<exists>t'. ins t k = Some t' \<and> invar t' \<and> keys t' = insert k (keys t)"
    and del_keys: "invar t \<Longrightarrow> card (keys t) < room \<Longrightarrow> valid k \<Longrightarrow>
      \<exists>t'. del t k = Some t' \<and> invar t' \<and> keys t' = keys t - {k}"
begin

lemma replace:
  assumes "invar t" and "card (keys t) < room" and "valid old" and "valid k" and "k \<notin> keys t"
  shows "\<exists>t1 t2. del t old = Some t1 \<and> ins t1 k = Some t2 \<and> invar t2 \<and> keys t2 = insert k (keys t - {old})"
proof -
  obtain t1 where t1: "del t old = Some t1" "invar t1" "keys t1 = keys t - {old}"
    using del_keys [OF assms(1-3)] by blast
  have "card (keys t1) < room" using t1(3) assms(2) card_Diff1_le [of "keys t" old] by simp
  then obtain t2 where "ins t1 k = Some t2" "invar t2" "keys t2 = insert k (keys t1)"
    using ins_keys [OF t1(2) _ assms(4)] t1(3) assms(5) by auto
  then show ?thesis using t1 by blast
qed

end

lemma gap_if_room: "dd_inv t \<Longrightarrow> card (dd_keys t) < SHARE_DEDUPE_SLOTS \<Longrightarrow> has_gap t"
  by (rule gap_if_few [of t "dd_keys t"]) (auto simp: dd_inv_def dd_keys_def)

interpretation dd: key_index dd_index_find dd_index_insert dd_index_remove dd_keys dd_inv "\<lambda>k. k \<noteq> 0" SHARE_DEDUPE_SLOTS
proof unfold_locales
  show "finite (dd_keys t)" for t by (simp add: dd_keys_def)
qed (blast intro: gap_if_room dd_index_find_correct dd_index_insert_correct dd_index_remove_correct)+

section \<open>A bounded first-in-first-out set\<close>

definition fifo_add :: "u64 list \<Rightarrow> u64 \<Rightarrow> bool \<times> u64 list" where
  "fifo_add q h0 =
     (let h = (if h0 = 0 then 1 else h0) in
      if h \<in> set q then (True, q)
      else (False, (if length q = SHARE_DEDUPE_RING then tl q else q) @ [h]))"

definition ring_slot :: "share_dedupe \<Rightarrow> nat \<Rightarrow> nat" where
  "ring_slot s n = (share_dedupe_head s + SHARE_DEDUPE_RING - share_dedupe_count s + n) mod SHARE_DEDUPE_RING"

definition dedupe_fifo :: "share_dedupe \<Rightarrow> u64 list" where
  "dedupe_fifo s = map (\<lambda>n. share_dedupe_ring s ! ring_slot s n) [0..<share_dedupe_count s]"

definition dedupe_inv :: "share_dedupe \<Rightarrow> bool" where
  "dedupe_inv s \<longleftrightarrow> length (share_dedupe_ring s) = SHARE_DEDUPE_RING \<and> share_dedupe_head s < SHARE_DEDUPE_RING \<and>
     share_dedupe_count s \<le> SHARE_DEDUPE_RING \<and> dd_inv (share_dedupe_index s) \<and>
     dd_keys (share_dedupe_index s) = set (dedupe_fifo s) \<and> distinct (dedupe_fifo s)"

lemma ring_pos: "0 < SHARE_DEDUPE_RING"
  by (simp add: SHARE_DEDUPE_RING_def)

lemma length_dedupe_fifo [simp]: "length (dedupe_fifo s) = share_dedupe_count s"
  by (simp add: dedupe_fifo_def)

text \<open>The two ways the ring moves: it grows, or its oldest slot is overwritten.\<close>

lemma dedupe_fifo_grow:
  assumes "length (share_dedupe_ring s) = SHARE_DEDUPE_RING" and "share_dedupe_head s < SHARE_DEDUPE_RING"
    and "share_dedupe_count s < SHARE_DEDUPE_RING"
    and "share_dedupe_ring s' = (share_dedupe_ring s)[share_dedupe_head s := h]"
    and "share_dedupe_head s' = (share_dedupe_head s + 1) mod SHARE_DEDUPE_RING"
    and "share_dedupe_count s' = share_dedupe_count s + 1"
  shows "dedupe_fifo s' = dedupe_fifo s @ [h]"
proof (rule nth_equalityI)
  let ?R = SHARE_DEDUPE_RING and ?H = "share_dedupe_head s" and ?C = "share_dedupe_count s"
  have slot: "ring_slot s' n = ring_slot s n" for n
  proof (cases "?H + 1 = ?R")
    case True
    then have "?H + ?R - ?C + n = ?R + (?R - (?C + 1) + n)" using assms(3) by simp
    moreover have "0 + ?R - (?C + 1) + n = ?R - (?C + 1) + n" by simp
    ultimately show ?thesis using assms(5,6) True unfolding ring_slot_def by (metis mod_add_self1 mod_self)
  next
    case False
    then have "(?H + 1) mod ?R = ?H + 1" using assms(2) by simp
    then show ?thesis using assms(3,5,6) by (simp add: ring_slot_def)
  qed
  have rs: "ring_slot s n = (if ?H + n < ?C then ?H + ?R - ?C + n else ?H + n - ?C)" if "n \<le> ?C" for n
  proof (cases "?H + n < ?C")
    case False
    then have "?H + ?R - ?C + n = ?R + (?H + n - ?C)" using assms(3) by simp
    then have "ring_slot s n = (?H + n - ?C) mod ?R" unfolding ring_slot_def by (simp only: mod_add_self1)
    then show ?thesis using False that assms(2) by simp
  qed (use assms(2,3) in \<open>simp add: ring_slot_def\<close>)
  show "length (dedupe_fifo s') = length (dedupe_fifo s @ [h])" by (simp add: assms(6))
  fix n assume n: "n < length (dedupe_fifo s')"
  then have nc: "n < ?C + 1" by (simp add: assms(6))
  have v: "dedupe_fifo s' ! n = (share_dedupe_ring s)[?H := h] ! ring_slot s n"
    using nc assms(4,6) slot by (simp add: dedupe_fifo_def del: upt_Suc)
  show "dedupe_fifo s' ! n = (dedupe_fifo s @ [h]) ! n"
  proof (cases "n = ?C")
    case True
    then show ?thesis using v rs [of n] assms(1,2) by (simp add: nth_append)
  next
    case False
    then have "ring_slot s n \<noteq> ?H" using rs [of n] nc assms(3) by (simp split: if_splits)
    then show ?thesis using v False nc by (simp add: nth_append dedupe_fifo_def)
  qed
qed

lemma dedupe_fifo_full:
  assumes "length (share_dedupe_ring s) = SHARE_DEDUPE_RING" and "share_dedupe_head s < SHARE_DEDUPE_RING"
    and "share_dedupe_count s = SHARE_DEDUPE_RING"
    and "share_dedupe_ring s' = (share_dedupe_ring s)[share_dedupe_head s := h]"
    and "share_dedupe_head s' = (share_dedupe_head s + 1) mod SHARE_DEDUPE_RING"
    and "share_dedupe_count s' = SHARE_DEDUPE_RING"
  shows "dedupe_fifo s' = tl (dedupe_fifo s) @ [h]" and "hd (dedupe_fifo s) = share_dedupe_ring s ! share_dedupe_head s"
proof -
  let ?R = SHARE_DEDUPE_RING and ?H = "share_dedupe_head s"
  have f: "dedupe_fifo s = map (\<lambda>n. share_dedupe_ring s ! ((?H + n) mod ?R)) [0..<?R]"
    using assms(3) by (simp add: dedupe_fifo_def ring_slot_def)
  have f': "dedupe_fifo s' = map (\<lambda>n. share_dedupe_ring s' ! ((?H + Suc n) mod ?R)) [0..<?R]"
    using assms(5,6) by (simp add: dedupe_fifo_def ring_slot_def mod_simps)
  obtain r where r: "?R = Suc r" using ring_pos not0_implies_Suc by blast
  have t: "tl (dedupe_fifo s) = map (\<lambda>n. share_dedupe_ring s ! ((?H + Suc n) mod ?R)) [0..<r]"
    unfolding f r by (simp add: upt_conv_Cons map_Suc_upt [symmetric] comp_def del: upt_Suc)
  have "(?H + Suc n) mod ?R \<noteq> ?H" if "n < r" for n
    using that assms(2) r by (auto simp: mod_if split: if_splits)
  then have "map (\<lambda>n. share_dedupe_ring s' ! ((?H + Suc n) mod ?R)) [0..<r] = tl (dedupe_fifo s)"
    unfolding t assms(4) by (intro map_cong refl) (metis atLeastLessThan_iff nth_list_update_neq set_upt)
  moreover have "share_dedupe_ring s' ! ((?H + Suc r) mod ?R) = h" using assms(1,2,4) r by simp
  ultimately show "dedupe_fifo s' = tl (dedupe_fifo s) @ [h]" unfolding f' unfolding r by simp
  show "hd (dedupe_fifo s) = share_dedupe_ring s ! ?H" unfolding f r using assms(2) r by (simp add: upt_conv_Cons del: upt_Suc)
qed

lemma dedupe_inv_init: "dedupe_inv share_dedupe_init" and dedupe_fifo_init: "dedupe_fifo share_dedupe_init = []"
proof -
  have "replicate SHARE_DEDUPE_SLOTS (0 :: u64) ! p = 0" if "p < SHARE_DEDUPE_SLOTS" for p using that by simp
  then have "dd_inv (replicate SHARE_DEDUPE_SLOTS 0)" "dd_keys (replicate SHARE_DEDUPE_SLOTS 0) = {}"
    by (auto simp: dd_inv_def probes_except_def inj_except_def dd_keys_def)
  then show "dedupe_inv share_dedupe_init" "dedupe_fifo share_dedupe_init = []"
    by (simp_all add: dedupe_inv_def dedupe_fifo_def share_dedupe_init_def ring_pos)
qed

text \<open>One call refines one step of the bounded set, and returns.\<close>

lemma dedupe_step_refines:
  assumes inv: "dedupe_inv s"
  shows "\<exists>s'. share_dedupe_key_check_and_add s h0 = Some (fst (fifo_add (dedupe_fifo s) h0), s') \<and>
    dedupe_inv s' \<and> dedupe_fifo s' = snd (fifo_add (dedupe_fifo s) h0)"
proof -
  define h where "h = (if h0 = 0 then 1 else h0)"
  let ?t = "share_dedupe_index s"
  have h: "h \<noteq> 0" by (simp add: h_def)
  have i: "length (share_dedupe_ring s) = SHARE_DEDUPE_RING" "share_dedupe_head s < SHARE_DEDUPE_RING"
    "share_dedupe_count s \<le> SHARE_DEDUPE_RING" "dd_inv ?t" "dd_keys ?t = set (dedupe_fifo s)" "distinct (dedupe_fifo s)"
    using inv by (simp_all add: dedupe_inv_def)
  have "card (dd_keys ?t) \<le> SHARE_DEDUPE_RING" using i(3,5) card_length [of "dedupe_fifo s"] by simp
  then have room: "card (dd_keys ?t) < SHARE_DEDUPE_SLOTS" using ring_slots ring_pos by simp
  have f: "dd_index_find ?t h = Some (h \<in> set (dedupe_fifo s))" using dd.find_keys [OF i(4) room h] i(5) by simp
  show ?thesis
  proof (cases "h \<in> set (dedupe_fifo s)")
    case True
    then show ?thesis using f inv by (simp add: share_dedupe_key_check_and_add_def fifo_add_def Let_def h_def [symmetric])
  next
    case False
    let ?s' = "\<lambda>c t. s\<lparr>share_dedupe_count := c, share_dedupe_ring := (share_dedupe_ring s)[share_dedupe_head s := h],
        share_dedupe_head := (share_dedupe_head s + 1) mod SHARE_DEDUPE_RING, share_dedupe_index := t\<rparr>"
    have fresh: "h \<notin> dd_keys ?t" using False i(5) by simp
    show ?thesis
    proof (cases "share_dedupe_count s = SHARE_DEDUPE_RING")
      case full: True
      let ?old = "share_dedupe_ring s ! share_dedupe_head s"
      have q: "dedupe_fifo (?s' SHARE_DEDUPE_RING t) = tl (dedupe_fifo s) @ [h]" "hd (dedupe_fifo s) = ?old" for t
        using dedupe_fifo_full [OF i(1,2) full, of "?s' SHARE_DEDUPE_RING t" h] by simp_all
      have ne: "dedupe_fifo s = ?old # tl (dedupe_fifo s)" using full ring_pos q(2) by (metis length_dedupe_fifo length_0_conv less_irrefl list.collapse)
      then have tl: "set (tl (dedupe_fifo s)) = set (dedupe_fifo s) - {?old}" using i(6) by (metis Diff_insert_absorb distinct.simps(2) list.simps(15))
      have "?old \<in> dd_keys ?t" using i(5) ne by (metis list.set_intros(1))
      then have old: "?old \<noteq> 0" by (simp add: dd_keys_def)
      obtain t1 t2 where t: "dd_index_remove ?t ?old = Some t1" "dd_index_insert t1 h = Some t2" "dd_inv t2"
        "dd_keys t2 = insert h (dd_keys ?t - {?old})"
        using dd.replace [OF i(4) room old h fresh] by blast
      have "share_dedupe_key_check_and_add s h0 = Some (False, ?s' SHARE_DEDUPE_RING t2)"
        using f False full t by (simp add: share_dedupe_key_check_and_add_def h_def [symmetric] Let_def)
      moreover have "dedupe_inv (?s' SHARE_DEDUPE_RING t2)"
        unfolding dedupe_inv_def q(1) using i t tl False ring_pos by (simp add: distinct_tl)
      ultimately show ?thesis using False full q(1) by (simp add: fifo_add_def Let_def h_def [symmetric])
    next
      case room': False
      then have lt: "share_dedupe_count s < SHARE_DEDUPE_RING" using i(3) by simp
      let ?c = "share_dedupe_count s + 1"
      obtain t2 where t: "dd_index_insert ?t h = Some t2" "dd_inv t2" "dd_keys t2 = insert h (dd_keys ?t)"
        using dd.ins_keys [OF i(4) room h fresh] by blast
      have q: "dedupe_fifo (?s' ?c t) = dedupe_fifo s @ [h]" for t
        by (rule dedupe_fifo_grow [OF i(1,2) lt]) simp_all
      have "share_dedupe_key_check_and_add s h0 = Some (False, ?s' ?c t2)"
        using f False room' t by (simp add: share_dedupe_key_check_and_add_def h_def [symmetric] Let_def)
      moreover have "dedupe_inv (?s' ?c t2)" unfolding dedupe_inv_def q using i t False lt ring_pos by simp
      ultimately show ?thesis using False room' q by (simp add: fifo_add_def Let_def h_def [symmetric])
    qed
  qed
qed

section \<open>Sequences of calls\<close>

fun dedupe_run :: "share_dedupe \<Rightarrow> u64 list \<Rightarrow> (bool list \<times> share_dedupe) option" where
  "dedupe_run s [] = Some ([], s)"
| "dedupe_run s (h # hs) =
     (case share_dedupe_key_check_and_add s h of
        None \<Rightarrow> None
      | Some (dup, s') \<Rightarrow> (case dedupe_run s' hs of None \<Rightarrow> None | Some (ds, s'') \<Rightarrow> Some (dup # ds, s'')))"

fun fifo_run :: "u64 list \<Rightarrow> u64 list \<Rightarrow> bool list \<times> u64 list" where
  "fifo_run q [] = ([], q)"
| "fifo_run q (h # hs) =
     (let (dup, q') = fifo_add q h; (ds, q'') = fifo_run q' hs in (dup # ds, q''))"

lemma dedupe_run_refines:
  "dedupe_inv s \<Longrightarrow> \<exists>s'. dedupe_run s hs = Some (fst (fifo_run (dedupe_fifo s) hs), s') \<and>
     dedupe_inv s' \<and> dedupe_fifo s' = snd (fifo_run (dedupe_fifo s) hs)"
proof (induction hs arbitrary: s)
  case (Cons h hs)
  obtain s1 where s1: "share_dedupe_key_check_and_add s h = Some (fst (fifo_add (dedupe_fifo s) h), s1)" "dedupe_inv s1"
    "dedupe_fifo s1 = snd (fifo_add (dedupe_fifo s) h)" using dedupe_step_refines [OF Cons.prems] by blast
  then show ?case using Cons.IH [OF s1(2)] by (auto simp: case_prod_beta Let_def)
qed auto

lemma fifo_add_bounds: "length q \<le> SHARE_DEDUPE_RING \<Longrightarrow> length (snd (fifo_add q h)) \<le> SHARE_DEDUPE_RING"
  using ring_pos by (auto simp: fifo_add_def Let_def)

text \<open>How many further calls a stored key is sure to survive: the keys in front of it and the free slots.\<close>

abbreviation slack :: "u64 list \<Rightarrow> u64 list \<Rightarrow> nat" where
  "slack xs q \<equiv> length xs + (SHARE_DEDUPE_RING - length q)"

lemma fifo_add_keeps:
  assumes q: "q = xs @ k # ys" and pos: "0 < slack xs q" and len: "length q \<le> SHARE_DEDUPE_RING"
  shows "\<exists>xs' ys'. snd (fifo_add q h) = xs' @ k # ys' \<and> slack xs q \<le> Suc (slack xs' (snd (fifo_add q h)))"
proof (cases "(if h = 0 then 1 else h) \<in> set q")
  case True
  then have "fifo_add q h = (True, q)" by (simp add: fifo_add_def)
  then show ?thesis using q by (intro exI [of _ xs] exI [of _ ys]) simp
next
  case False
  let ?h = "if h = 0 then 1 else h"
  show ?thesis
  proof (cases "length q = SHARE_DEDUPE_RING")
    case full: True
    then obtain x zs where xs: "xs = x # zs" using pos by (cases xs) auto
    have "snd (fifo_add q h) = zs @ k # (ys @ [?h])" using False full q xs by (simp add: fifo_add_def Let_def)
    then show ?thesis using xs full q by (intro exI [of _ zs] exI [of _ "ys @ [?h]"]) simp
  next
    case room: False
    have "snd (fifo_add q h) = xs @ k # (ys @ [?h])" using False room q by (simp add: fifo_add_def Let_def)
    then show ?thesis using q by (intro exI [of _ xs] exI [of _ "ys @ [?h]"]) simp
  qed
qed

lemma fifo_run_keeps:
  assumes "q = xs @ k # ys" and "length hs \<le> slack xs q" and "length q \<le> SHARE_DEDUPE_RING"
  shows "k \<in> set (snd (fifo_run q hs))"
  using assms
proof (induction hs arbitrary: q xs ys)
  case (Cons h hs)
  have "0 < slack xs q" using Cons.prems(2) by (simp only: list.size)
  from fifo_add_keeps [OF Cons.prems(1) this Cons.prems(3), of h] obtain xs' ys'
    where k: "snd (fifo_add q h) = xs' @ k # ys'" "slack xs q \<le> Suc (slack xs' (snd (fifo_add q h)))" by blast
  have "length hs \<le> slack xs' (snd (fifo_add q h))" using k(2) Cons.prems(2) by simp
  from Cons.IH [OF k(1) this fifo_add_bounds [OF Cons.prems(3)]] show ?case by (simp add: case_prod_beta Let_def)
qed simp

lemma fifo_run_append:
  "fifo_run q (xs @ ys) = (fst (fifo_run q xs) @ fst (fifo_run (snd (fifo_run q xs)) ys), snd (fifo_run (snd (fifo_run q xs)) ys))"
  by (induction xs arbitrary: q) (simp_all add: case_prod_beta Let_def)

lemma length_fifo_run [simp]: "length (fst (fifo_run q hs)) = length hs"
  by (induction hs arbitrary: q) (simp_all add: case_prod_beta Let_def)

lemma fifo_run_bounds: "length q \<le> SHARE_DEDUPE_RING \<Longrightarrow> length (snd (fifo_run q hs)) \<le> SHARE_DEDUPE_RING"
  by (induction hs arbitrary: q) (simp_all add: case_prod_beta Let_def fifo_add_bounds)

lemma fifo_no_second_accept:
  assumes "\<not> fst (fifo_add q h)" and "length q \<le> SHARE_DEDUPE_RING" and "length hs < SHARE_DEDUPE_RING"
  shows "fst (fifo_add (snd (fifo_run (snd (fifo_add q h)) hs)) h)"
proof -
  let ?h = "if h = 0 then 1 else h" and ?q = "snd (fifo_add q h)"
  obtain xs where q: "?q = xs @ ?h # []" using assms(1) by (auto simp: fifo_add_def Let_def split: if_splits)
  have b: "length ?q \<le> SHARE_DEDUPE_RING" by (rule fifo_add_bounds [OF assms(2)])
  then have "slack xs ?q = SHARE_DEDUPE_RING - 1" using q by simp
  then have "?h \<in> set (snd (fifo_run ?q hs))" using assms(3) by (intro fifo_run_keeps [OF q _ b]) simp
  then show ?thesis by (simp add: fifo_add_def Let_def)
qed

section \<open>Properties\<close>

text \<open>C19. Ring and index together are exactly a first-in-first-out set of 16384 keys: from the initial
  state every sequence of calls returns (no probe or shift loop runs forever), answers as that set
  answers, and keeps the invariant that the index holds exactly the keys of the ring.\<close>

theorem dedupe_refines_fifo:
  "\<exists>s. dedupe_run share_dedupe_init hs = Some (fst (fifo_run [] hs), s) \<and>
     dedupe_inv s \<and> dedupe_fifo s = snd (fifo_run [] hs)"
  using dedupe_run_refines [OF dedupe_inv_init] by (simp add: dedupe_fifo_init)

text \<open>A share hash that was accepted is refused as a duplicate whenever it comes again within the
  next 16384 submissions, whatever they are.\<close>

lemma dedupe_no_double_credit:
  assumes "dedupe_run share_dedupe_init (before @ h # between @ [h]) = Some (answers, s)"
    and "length between < SHARE_DEDUPE_RING" and "answers ! length before = False"
  shows "last answers = True"
proof -
  define q where "q = snd (fifo_run [] before)"
  have b: "length q \<le> SHARE_DEDUPE_RING" unfolding q_def by (rule fifo_run_bounds) simp
  have a: "answers = fst (fifo_run [] (before @ h # between @ [h]))"
    using dedupe_run_refines [OF dedupe_inv_init, of "before @ h # between @ [h]"] assms(1) by (simp add: dedupe_fifo_init)
  have "fst (fifo_run [] before) @ fst (fifo_add q h) # fst (fifo_run (snd (fifo_add q h)) (between @ [h])) = answers"
    unfolding a by (simp add: fifo_run_append q_def case_prod_beta Let_def)
  moreover from this have "\<not> fst (fifo_add q h)" using assms(3) by (metis length_fifo_run nth_append_length)
  ultimately show ?thesis
    using fifo_no_second_accept [OF _ b assms(2)] by (auto simp: fifo_run_append case_prod_beta Let_def)
qed

end
