(* ===== verification/Stratum.thy ===== *)
theory Stratum
  imports Template Share Dedupe Wire
begin

text \<open>
  The state of the stratum server and of one connection (\<^verbatim>\<open>src/stratum.c\<close>, \<^verbatim>\<open>src/stratum.h\<close>) and the
  operations below the message handlers: job lookup and retention, coinbase rendering, the notify
  payload, submit rate limiting, difficulty assignment and vardiff. A mutex-protected section is one
  step on the state; clock readings are arguments.
\<close>

section \<open>Constants\<close>

definition RECENT_JOBS :: nat where
  "RECENT_JOBS = 16"

definition RECENT_JOB_TTL_MS :: u64 where
  "RECENT_JOB_TTL_MS = 300000"

definition JOB_DIFF_RING :: nat where
  "JOB_DIFF_RING = (RECENT_JOBS + 1) * 2"

definition VERSION_ROLLING_MASK :: u32 where
  "VERSION_ROLLING_MASK = 0x1fffe000"

definition RL_REPORT_INTERVAL_MS :: u64 where
  "RL_REPORT_INTERVAL_MS = 10000"

definition VD_FLOOR_MIN_SAMPLES :: u32 where
  "VD_FLOOR_MIN_SAMPLES = 5"

definition VD_FLOOR_TRIGGER :: double where
  "VD_FLOOR_TRIGGER = Fin 4"

definition VD_FLOOR_BACKOFF :: double where
  "VD_FLOOR_BACKOFF = d_round (95 / 100)"

section \<open>Jobs, configuration, server and connection\<close>

record stratum_job =
  job_id :: string
  job_version :: u32
  prev_hash_le :: "byte list"
  value_sats :: int
  wc_hex :: "string option"
  coinbasetxn_hex :: "string option"
  coinbase_has_witness :: bool
  en1_size :: nat
  en2_size :: nat
  merkle_branches :: "byte list list"
  nbits :: u32
  job_ntime :: u32
  network_target_be :: "byte list"
  height :: u32
  cb_salt :: u32
  tx_hex_list :: "string list"
  payees :: "coinbase_payee list"
  payee_worker_ids :: "int list"
  created_ms :: u64

record stratum_listener =
  ls_port :: int
  ls_initial_diff :: double
  ls_vardiff_min :: double
  ls_vardiff_max :: double
  ls_min_diff :: double
  ls_max_coinbase_bytes :: int
  ls_label :: string

record stratum_cfg =
  max_conns :: int
  listeners :: "stratum_listener list"
  max_suggested_diff :: double
  cfg_initial_diff :: double
  operator_address :: string
  fee_bps :: int
  coinbase_tag :: string
  coinbase_pays_pool :: bool
  username_is_thunder :: bool
  coinbase_pays_window :: bool
  cfg_max_coinbase_bytes :: nat
  payout_floor_sats :: int
  pps_accrues :: bool
  pool_btc_address :: string
  pps_gate :: "int option"
  pps_refuse_shares_below_min :: bool
  vardiff_enabled :: bool
  vardiff_target_spm :: double
  cfg_vardiff_min :: double
  cfg_vardiff_max :: double
  vardiff_window_sec :: int
  vardiff_min_samples :: int
  vardiff_max_window_mult :: int
  vardiff_idle_step :: double
  idle_timeout_sec :: int
  idle_timeout_authorized_sec :: int
  max_submits_per_sec :: int
  auth_max_failures :: int
  auth_fail_lockout_sec :: int
  bind_port :: int
  on_share_set :: bool
  on_reject_set :: bool
  on_block :: "(string \<Rightarrow> int \<times> string) option"
  on_block_found_set :: bool
  on_window_fractions_set :: bool

record auth_fail_entry =
  af_ip :: string
  af_fails :: u32
  af_window_start :: u64
  af_reported :: bool

record stratum_server =
  cfg :: stratum_cfg
  srv_listeners :: "stratum_listener list"
  extranonce1_seq :: u32
  auth_fail :: "auth_fail_entry list"
  share_dd :: share_dedupe
  current_job :: "stratum_job option"
  recent :: "stratum_job option list"
  recent_head :: nat

record stratum_conn =
  extranonce1 :: "byte list"
  difficulty :: double
  requested_min_diff :: double
  pol_max_coinbase_bytes :: int
  pol_initial_diff :: double
  pol_vardiff_min :: double
  pol_vardiff_max :: double
  pol_min_diff :: double
  pol_port :: int
  pol_label :: string
  subscribed :: bool
  authorized :: bool
  peer_ip :: string
  auth_failures :: u32
  auth_call_window_ms :: u64
  auth_calls_in_window :: u32
  version_mask :: u32
  worker_name :: string
  payout_address :: string
  c_cb :: coinbase_parts
  cb_for_job_id :: string
  c_dedupe :: conn_dedupe
  vd_window_start_ms :: u64
  vd_window_shares :: u32
  vd_window_min_achieved :: double
  vd_window_max_assigned :: double
  job_diffs :: "(string \<times> double) list"
  job_diffs_head :: nat
  rl_window_start_ms :: u64
  rl_window_count :: u32
  rl_limited :: u32
  rl_limited_total :: u64
  rl_reported_ms :: u64
  malformed_streak :: u32

text \<open>What the server tells the rest of the pool, in order, and what it puts on the wire.\<close>

datatype event =
    EvShare string string u64 double bool string
  | EvReject string u64 string
  | EvBlock string
  | EvFractions string "(int \<times> double) list"
  | EvBlockFound string string u64 u32 string int int bool string

record world =
  w_srv :: stratum_server
  w_conn :: stratum_conn
  w_out :: "json list"
  w_log :: "event list"

section \<open>Construction\<close>

text \<open>The job constructor; identifiers keep 31 characters, the salt is never 0.\<close>

definition stratum_job_new ::
  "string option \<Rightarrow> u32 \<Rightarrow> byte list option \<Rightarrow> int \<Rightarrow> string option \<Rightarrow> nat \<Rightarrow> nat \<Rightarrow> byte list list \<Rightarrow> u32 \<Rightarrow> u32 \<Rightarrow>
   byte list option \<Rightarrow> u32 \<Rightarrow> string option list \<Rightarrow> string option \<Rightarrow> bool \<Rightarrow> u64 \<Rightarrow> stratum_job" where
  "stratum_job_new jid version prev v wc en1 en2 branches bits nt target h txs ctxn has_w tmono =
     (let j = c_copy 32 (case jid of None \<Rightarrow> [] | Some s \<Rightarrow> s);
          salt = (ucast (fnv1a j) :: u32)
      in \<lparr>job_id = j, job_version = version,
          prev_hash_le = (case prev of None \<Rightarrow> replicate 32 0 | Some b \<Rightarrow> b), value_sats = v,
          wc_hex = (if c_nonempty wc then wc else None),
          coinbasetxn_hex = (if c_nonempty ctxn then ctxn else None), coinbase_has_witness = has_w,
          en1_size = en1, en2_size = en2, merkle_branches = branches, nbits = bits, job_ntime = nt,
          network_target_be = (case target of None \<Rightarrow> replicate 32 0 | Some b \<Rightarrow> b), height = h,
          cb_salt = (if salt = 0 then 1 else salt),
          tx_hex_list = map (\<lambda>t. case t of None \<Rightarrow> [] | Some s \<Rightarrow> s) txs,
          payees = [], payee_worker_ids = [], created_ms = tmono\<rparr>)"

definition stratum_job_set_window :: "stratum_job \<Rightarrow> coinbase_payee list \<Rightarrow> int list option \<Rightarrow> stratum_job" where
  "stratum_job_set_window j ps ids =
     (if ps = [] then j\<lparr>payees := [], payee_worker_ids := []\<rparr>
      else j\<lparr>payees := map (\<lambda>p. \<lparr>pe_address = Some (c_copy 128 (case pe_address p of None \<Rightarrow> [] | Some a \<Rightarrow> a)),
                                 pe_sats = pe_sats p\<rparr>) ps,
             payee_worker_ids := (case ids of None \<Rightarrow> replicate (length ps) 0 | Some xs \<Rightarrow> take (length ps) xs)\<rparr>)"

definition stratum_conn_new :: "stratum_cfg \<Rightarrow> stratum_conn" where
  "stratum_conn_new g =
     \<lparr>extranonce1 = replicate 4 0, difficulty = cfg_initial_diff g, requested_min_diff = Fin 0,
      pol_max_coinbase_bytes = 0, pol_initial_diff = cfg_initial_diff g, pol_vardiff_min = cfg_vardiff_min g,
      pol_vardiff_max = cfg_vardiff_max g, pol_min_diff = Fin 0, pol_port = bind_port g, pol_label = [],
      subscribed = False, authorized = False, peer_ip = [], auth_failures = 0, auth_call_window_ms = 0,
      auth_calls_in_window = 0, version_mask = 0, worker_name = [], payout_address = [],
      c_cb = \<lparr>cb1 = [], cb2 = []\<rparr>, cb_for_job_id = [],
      c_dedupe = \<lparr>dedupe = replicate DEDUPE_RING 0, dedupe_head = 0\<rparr>,
      vd_window_start_ms = 0, vd_window_shares = 0, vd_window_min_achieved = PInf, vd_window_max_assigned = Fin 0,
      job_diffs = replicate JOB_DIFF_RING ([], Fin 0), job_diffs_head = 0,
      rl_window_start_ms = 0, rl_window_count = 0, rl_limited = 0, rl_limited_total = 0, rl_reported_ms = 0,
      malformed_streak = 0\<rparr>"

definition conn_apply_listener :: "stratum_conn \<Rightarrow> stratum_listener \<Rightarrow> stratum_conn" where
  "conn_apply_listener c pol =
     (let c = (if d_gt (ls_initial_diff pol) (Fin 0) then c\<lparr>pol_initial_diff := ls_initial_diff pol\<rparr> else c);
          c = (if d_gt (ls_vardiff_min pol) (Fin 0) then c\<lparr>pol_vardiff_min := ls_vardiff_min pol\<rparr> else c);
          c = (if d_gt (ls_vardiff_max pol) (Fin 0) then c\<lparr>pol_vardiff_max := ls_vardiff_max pol\<rparr> else c);
          c = c\<lparr>pol_min_diff := ls_min_diff pol, pol_max_coinbase_bytes := ls_max_coinbase_bytes pol,
                pol_port := ls_port pol, pol_label := c_copy 32 (ls_label pol)\<rparr>
      in c\<lparr>difficulty := pol_initial_diff c\<rparr>)"

section \<open>Small helpers\<close>

definition worker_char :: "char \<Rightarrow> char" where
  "worker_char c = (if is_alpha c \<or> is_dec c \<or> c \<in> {CHR ''.'', CHR ''_'', CHR ''-''} then c else CHR ''_'')"

definition sanitize_worker :: "string \<Rightarrow> nat \<Rightarrow> string" where
  "sanitize_worker s outlen = map worker_char (take (outlen - 1) s)"

definition pps_gated :: "stratum_server \<Rightarrow> bool" where
  "pps_gated s \<longleftrightarrow> pps_accrues (cfg s) \<and> pps_refuse_shares_below_min (cfg s) \<and>
     (case pps_gate (cfg s) of None \<Rightarrow> False | Some v \<Rightarrow> v \<noteq> 0)"

definition PPS_GATED_MSG :: string where
  "PPS_GATED_MSG = ''pool is not crediting shares right now: network difficulty is below the minimum this pool will pay PPS at. Point your miner elsewhere until it retargets.''"

definition emit :: "json \<Rightarrow> world \<Rightarrow> world" where
  "emit j w = w\<lparr>w_out := w_out w @ [j]\<rparr>"

definition emit_response :: "json option \<Rightarrow> json option \<Rightarrow> json option \<Rightarrow> world \<Rightarrow> world" where
  "emit_response rid result err = emit (response rid result err)"

definition emit_error :: "json option \<Rightarrow> int \<Rightarrow> string \<Rightarrow> world \<Rightarrow> world" where
  "emit_error rid code msg = emit_response rid None (Some (make_error code msg))"

definition on_reject :: "string \<Rightarrow> u64 \<Rightarrow> string \<Rightarrow> world \<Rightarrow> world" where
  "on_reject worker ts reason w =
     (if on_reject_set (cfg (w_srv w)) then w\<lparr>w_log := w_log w @ [EvReject worker ts reason]\<rparr> else w)"

definition send_set_difficulty :: "double \<Rightarrow> world \<Rightarrow> world" where
  "send_set_difficulty diff = emit (notification ''mining.set_difficulty'' (JArr [JNum diff]))"

section \<open>Job retention and lookup\<close>

definition sweep_slot :: "u64 \<Rightarrow> stratum_job option \<Rightarrow> stratum_job option" where
  "sweep_slot cutoff e = (case e of None \<Rightarrow> None
     | Some j \<Rightarrow> if cutoff - created_ms j > RECENT_JOB_TTL_MS then None else Some j)"

definition retire_job :: "u64 \<Rightarrow> stratum_server \<Rightarrow> stratum_job \<Rightarrow> stratum_server" where
  "retire_job tmono s j =
     (let ring = map (sweep_slot tmono) (recent s)
      in s\<lparr>recent := ring[recent_head s := Some j], recent_head := (recent_head s + 1) mod RECENT_JOBS\<rparr>)"

fun find_recent :: "stratum_job option list \<Rightarrow> string \<Rightarrow> stratum_job option" where
  "find_recent [] jid = None"
| "find_recent (None # es) jid = find_recent es jid"
| "find_recent (Some j # es) jid = (if job_id j = jid then Some j else find_recent es jid)"

definition find_job :: "stratum_server \<Rightarrow> string option \<Rightarrow> stratum_job option" where
  "find_job s jid =
     (case jid of
        None \<Rightarrow> None
      | Some i \<Rightarrow>
          (case current_job s of
             Some cur \<Rightarrow> if job_id cur = i then Some cur else find_recent (recent s) i
           | None \<Rightarrow> find_recent (recent s) i))"

section \<open>Coinbase rendering and notify\<close>

definition cbwin_was_paid :: "coinbase_window_result \<Rightarrow> nat \<Rightarrow> bool" where
  "cbwin_was_paid r i \<longleftrightarrow> i < COINBASE_MAX_PAYOUT_OUTPUTS \<and> wr_paid_payee r ! i"

definition conn_coinbase_budget :: "stratum_server \<Rightarrow> stratum_conn \<Rightarrow> nat" where
  "conn_coinbase_budget s c =
     (if pol_max_coinbase_bytes c > 0 then nat (pol_max_coinbase_bytes c) else cfg_max_coinbase_bytes (cfg s))"

text \<open>The single-payee shape, paying \<open>addr\<close>: from the node's coinbase when there is one.\<close>

definition render_single :: "stratum_server \<Rightarrow> string \<Rightarrow> stratum_job \<Rightarrow> coinbase_parts res" where
  "render_single s addr job =
     (let g = cfg s in
      case coinbasetxn_hex job of
        Some h \<Rightarrow>
          bindR (coinbase_build_from_template (Some h) (Some addr) (Some (operator_address g)) (fee_bps g)
                   (Some (coinbase_tag g)) (cb_salt job) (en1_size job) (en2_size job)) (\<lambda>(parts, _). Ok parts)
      | None \<Rightarrow>
          bindR (coinbase_build_split (height job) (value_sats job) (Some addr) (Some (operator_address g)) (fee_bps g)
                   (wc_hex job) (Some (coinbase_tag g)) (cb_salt job) (en1_size job) (en2_size job)) (\<lambda>(parts, _). Ok parts))"

definition render_finder_coinbase :: "stratum_server \<Rightarrow> stratum_conn \<Rightarrow> stratum_job \<Rightarrow> coinbase_parts res" where
  "render_finder_coinbase s c job = render_single s (payout_address c) job"

text \<open>The window shape, used to render and, for a found block, to tell what the coinbase paid.\<close>

definition render_window :: "stratum_server \<Rightarrow> stratum_conn \<Rightarrow> stratum_job \<Rightarrow> (coinbase_parts \<times> coinbase_window_result) res" where
  "render_window s c job =
     (let g = cfg s in
      case coinbasetxn_hex job of
        Some h \<Rightarrow>
          bindR (coinbase_build_window_from_template (Some h) (payees job) (Some (operator_address g)) (fee_bps g)
                   (Some (coinbase_tag g)) (cb_salt job) (en1_size job) (en2_size job)
                   (conn_coinbase_budget s c) (payout_floor_sats g)) (\<lambda>(parts, _, r). Ok (parts, r))
      | None \<Rightarrow>
          coinbase_build_window (height job) (value_sats job) (payees job) (Some (operator_address g)) (fee_bps g)
            (wc_hex job) (Some (coinbase_tag g)) (cb_salt job) (en1_size job) (en2_size job)
            (conn_coinbase_budget s c) (payout_floor_sats g))"

text \<open>\<open>Ok (False, c)\<close> is the return of a negative value.\<close>

definition conn_render_coinbase :: "stratum_server \<Rightarrow> stratum_conn \<Rightarrow> stratum_job \<Rightarrow> (bool \<times> stratum_conn) res" where
  "conn_render_coinbase s c job =
     (if \<not> authorized c \<or> payout_address c = [] then Ok (False, c)
      else if cb_for_job_id c \<noteq> [] \<and> cb_for_job_id c = job_id job then Ok (True, c)
      else case (if coinbase_pays_window (cfg s) \<and> payees job \<noteq> []
                 then bindR (render_window s c job) (\<lambda>(parts, _). Ok parts)
                 else if coinbase_pays_pool (cfg s) then render_single s (pool_btc_address (cfg s)) job
                 else render_finder_coinbase s c job) of
             UB \<Rightarrow> UB
           | Err m \<Rightarrow> Ok (False, c)
           | Ok parts \<Rightarrow> Ok (True, c\<lparr>c_cb := parts, cb_for_job_id := c_copy 32 (job_id job)\<rparr>))"

text \<open>The previous hash with each 4-byte word reversed.\<close>

definition word_swap :: "byte list \<Rightarrow> byte list" where
  "word_swap bs = concat (map (\<lambda>wi. map (\<lambda>bi. bs ! (wi * 4 + 3 - bi)) [0, 1, 2, 3]) [0, 1, 2, 3, 4, 5, 6, 7])"

definition make_notify_params :: "stratum_job \<Rightarrow> coinbase_parts \<Rightarrow> bool \<Rightarrow> json" where
  "make_notify_params j cb clean =
     JArr [JStr (job_id j), JStr (bytes_to_hex (word_swap (prev_hash_le j))),
           JStr (bytes_to_hex (cb1 cb)), JStr (bytes_to_hex (cb2 cb)),
           JArr (map (\<lambda>b. JStr (bytes_to_hex b)) (merkle_branches j)),
           JStr (hex8 (job_version j)), JStr (hex8 (nbits j)), JStr (hex8 (job_ntime j)), JBool clean]"

section \<open>Submit rate\<close>

definition submit_rate_exceeded :: "stratum_server \<Rightarrow> stratum_conn \<Rightarrow> u64 \<Rightarrow> bool \<times> stratum_conn" where
  "submit_rate_exceeded s c now_mono =
     (let limit = max_submits_per_sec (cfg s) in
      if limit \<le> 0 then (False, c)
      else let c = (if now_mono - rl_window_start_ms c \<ge> 1000
                    then c\<lparr>rl_window_start_ms := now_mono, rl_window_count := 0\<rparr> else c)
           in if rl_window_count c < word_of_int limit
              then (False, c\<lparr>rl_window_count := rl_window_count c + 1\<rparr>)
              else (True, c\<lparr>rl_limited := rl_limited c + 1, rl_limited_total := rl_limited_total c + 1\<rparr>))"

definition submit_rate_report :: "u64 \<Rightarrow> u64 \<Rightarrow> world \<Rightarrow> world" where
  "submit_rate_report now now_mono w =
     (let c = w_conn w in
      if rl_limited c = 0 then w
      else if rl_reported_ms c \<noteq> 0 \<and> now_mono - rl_reported_ms c < RL_REPORT_INTERVAL_MS then w
      else let msg = c_copy 192 (''submitting too fast: '' @ dec (unat (rl_limited c)) @ '' refused at over '' @
                       dec_int (max_submits_per_sec (cfg (w_srv w))) @ ''/s ('' @ dec (unat (rl_limited_total c)) @ '' total)'');
               w = on_reject (worker_name c) now msg w
           in w\<lparr>w_conn := c\<lparr>rl_limited := 0, rl_reported_ms := now_mono\<rparr>\<rparr>)"

section \<open>Difficulty\<close>

definition current_net_diff :: "stratum_server \<Rightarrow> double" where
  "current_net_diff s = (case current_job s of None \<Rightarrow> Fin 0 | Some j \<Rightarrow> target_to_diff (network_target_be j))"

definition clamp_assigned_difficulty :: "stratum_server \<Rightarrow> stratum_conn \<Rightarrow> double \<Rightarrow> double" where
  "clamp_assigned_difficulty s c diff =
     (let net_diff = current_net_diff s;
          diff = (if d_gt net_diff (Fin 0) \<and> d_gt diff net_diff then net_diff else diff);
          diff = (if d_gt (pol_min_diff c) (Fin 0) \<and> d_lt diff (pol_min_diff c) then pol_min_diff c else diff)
      in if d_le diff (Fin 0) then Fin 1 else diff)"

fun find_diff :: "(string \<times> double) list \<Rightarrow> string \<Rightarrow> nat \<Rightarrow> nat option" where
  "find_diff [] jid i = None"
| "find_diff ((j, d) # es) jid i = (if j = jid then Some i else find_diff es jid (i + 1))"

definition conn_record_job_difficulty :: "stratum_conn \<Rightarrow> string \<Rightarrow> double \<Rightarrow> stratum_conn" where
  "conn_record_job_difficulty c jid diff =
     (if jid = [] \<or> d_le diff (Fin 0) then c
      else case find_diff (job_diffs c) jid 0 of
        Some i \<Rightarrow> c\<lparr>job_diffs := (job_diffs c)[i := (fst (job_diffs c ! i), diff)]\<rparr>
      | None \<Rightarrow> let slot = job_diffs_head c
                in c\<lparr>job_diffs := (job_diffs c)[slot := (c_copy 32 jid, diff)],
                     job_diffs_head := (slot + 1) mod JOB_DIFF_RING\<rparr>)"

definition conn_job_difficulty :: "stratum_conn \<Rightarrow> string \<Rightarrow> double" where
  "conn_job_difficulty c jid =
     (if jid = [] then Fin 0
      else case find_diff (job_diffs c) jid 0 of None \<Rightarrow> Fin 0 | Some i \<Rightarrow> snd (job_diffs c ! i))"

definition vd_reset :: "u64 \<Rightarrow> stratum_conn \<Rightarrow> stratum_conn" where
  "vd_reset now c = c\<lparr>vd_window_start_ms := now, vd_window_shares := 0,
     vd_window_min_achieved := PInf, vd_window_max_assigned := Fin 0\<rparr>"

definition under_sampled :: "stratum_cfg \<Rightarrow> stratum_conn \<Rightarrow> bool" where
  "under_sampled g c \<longleftrightarrow> vardiff_min_samples g > 0 \<and> vd_window_shares c < word_of_int (vardiff_min_samples g)"

text \<open>The rate loop: a proposal that leaves the deadband is limited to one step.\<close>

definition vd_rate_step :: "stratum_cfg \<Rightarrow> stratum_conn \<Rightarrow> double \<Rightarrow> double" where
  "vd_rate_step g c ratio =
     (let old = difficulty c in
      if d_gt ratio (Fin 2) \<or> d_lt ratio (Fin (1/2)) then
        let new = d_mul old ratio;
            max_step = (if under_sampled g c
                        then if d_gt (vardiff_idle_step g) (Fin 1) then vardiff_idle_step g else Fin 2
                        else Fin 4);
            new = (if d_gt new (d_mul old max_step) then d_mul old max_step else new)
        in if d_lt new (d_div old max_step) then d_div old max_step else new
      else old)"

text \<open>The miner's own floor, when every share of the window cleared far more than was asked.\<close>

definition vd_floor_step :: "stratum_conn \<Rightarrow> double \<Rightarrow> double" where
  "vd_floor_step c new =
     (let old = difficulty c;
          basis = (if d_gt (vd_window_max_assigned c) old then vd_window_max_assigned c else old)
      in if vd_window_shares c \<ge> VD_FLOOR_MIN_SAMPLES \<and> d_isfinite (vd_window_min_achieved c) \<and>
            d_gt (vd_window_min_achieved c) (d_mul basis VD_FLOOR_TRIGGER)
         then let f = d_mul (vd_window_min_achieved c) VD_FLOOR_BACKOFF in if d_gt f new then f else new
         else new)"

definition vd_bounds :: "stratum_server \<Rightarrow> stratum_conn \<Rightarrow> double \<Rightarrow> double" where
  "vd_bounds s c new =
     (let new = (if d_gt (requested_min_diff c) (Fin 0) \<and> d_lt new (requested_min_diff c) then requested_min_diff c else new);
          new = (if d_lt new (pol_vardiff_min c) then pol_vardiff_min c else new);
          new = (if d_gt (pol_vardiff_max c) (Fin 0) \<and> d_gt new (pol_vardiff_max c) then pol_vardiff_max c else new)
      in clamp_assigned_difficulty s c new)"

text \<open>Whether a window is still open at \<open>now\<close>.\<close>

definition vd_keep_open :: "stratum_cfg \<Rightarrow> stratum_conn \<Rightarrow> u64 \<Rightarrow> bool" where
  "vd_keep_open g c now \<longleftrightarrow>
     (let elapsed = now - vd_window_start_ms c;
          window = word_of_int (vardiff_window_sec g) * 1000;
          mult = (if vardiff_max_window_mult g > 0 then vardiff_max_window_mult g else 8)
      in elapsed < window \<or> (under_sampled g c \<and> elapsed < window * word_of_int mult))"

definition vd_proposal :: "stratum_server \<Rightarrow> stratum_conn \<Rightarrow> u64 \<Rightarrow> double" where
  "vd_proposal s c now =
     (let g = cfg s;
          elapsed = now - vd_window_start_ms c;
          observed = d_div (d_mul (d_of_int (uint (vd_window_shares c))) (Fin 60000)) (d_of_int (uint elapsed));
          ratio = d_div observed (vardiff_target_spm g)
      in vd_bounds s c (vd_floor_step c (vd_rate_step g c ratio)))"

definition vardiff_maybe_retarget :: "u64 \<Rightarrow> world \<Rightarrow> world" where
  "vardiff_maybe_retarget now w =
     (let s = w_srv w; c = w_conn w; g = cfg s in
      if \<not> vardiff_enabled g then w
      else if vd_window_start_ms c = 0 then w\<lparr>w_conn := vd_reset now c\<rparr>
      else if vd_keep_open g c now then w
      else let new = vd_proposal s c now; c' = vd_reset now c
           in if d_eq new (difficulty c) then w\<lparr>w_conn := c'\<rparr>
              else send_set_difficulty new (w\<lparr>w_conn := c'\<lparr>difficulty := new\<rparr>\<rparr>))"

definition send_current_notify :: "bool \<Rightarrow> world \<Rightarrow> world res" where
  "send_current_notify clean w =
     (let s = w_srv w; c = w_conn w in
      case current_job s of
        None \<Rightarrow> Ok w
      | Some cur \<Rightarrow>
          bindR (conn_render_coinbase s c cur) (\<lambda>(ok, c').
            if ok then
              let w = emit (notification ''mining.notify'' (make_notify_params cur (c_cb c') clean)) (w\<lparr>w_conn := c'\<rparr>)
              in Ok (w\<lparr>w_conn := conn_record_job_difficulty (w_conn w) (job_id cur) (difficulty (w_conn w))\<rparr>)
            else Ok (w\<lparr>w_conn := c'\<rparr>)))"

definition conn_idle_budget_sec :: "stratum_server \<Rightarrow> stratum_conn \<Rightarrow> int" where
  "conn_idle_budget_sec s c =
     (if \<not> authorized c then idle_timeout_sec (cfg s)
      else if idle_timeout_authorized_sec (cfg s) \<le> 0 then 0
      else idle_timeout_authorized_sec (cfg s))"

end
