(* ===== verification/Handlers.thy ===== *)
theory Handlers
  imports Stratum
begin

text \<open>
  The message handlers of \<^verbatim>\<open>src/stratum.c\<close>: subscribe, configure, suggest\_difficulty, authorize with its
  failure budget, submit, the dispatcher, and the job swap with its broadcast. A handler maps the
  world (server, this connection, lines written, events reported) to the world after it and says
  whether the connection stays open; \<open>UB\<close> is undefined behaviour of the C code or a probe loop of the
  duplicate index that never ends. The JSON parser and the node's block submission are arguments.
\<close>

section \<open>Clock readings of one message\<close>

text \<open>\<open>now_ms()\<close> and \<open>mono_ms()\<close>; the second readings are those taken later in the same handler.\<close>

record clock =
  ck_now :: u64
  ck_now2 :: u64
  ck_mono :: u64
  ck_mono2 :: u64

type_synonym handled = "(bool \<times> world) res"

definition stay :: "world \<Rightarrow> handled" where
  "stay w = Ok (True, w)"

definition close :: "world \<Rightarrow> handled" where
  "close w = Ok (False, w)"

section \<open>Subscribe and configure\<close>

definition handle_subscribe :: "json option \<Rightarrow> world \<Rightarrow> handled" where
  "handle_subscribe rid w =
     (let s = w_srv w; mix = extranonce1_seq s;
          en1 = [ucast (drop_bit 24 mix), ucast (drop_bit 16 mix), ucast (drop_bit 8 mix), ucast mix];
          w = w\<lparr>w_srv := s\<lparr>extranonce1_seq := mix + 1\<rparr>,
                w_conn := (w_conn w)\<lparr>extranonce1 := en1, subscribed := True\<rparr>\<rparr>;
          result = JArr [JArr [JArr [JStr ''mining.set_difficulty'', JStr ''sd''],
                               JArr [JStr ''mining.notify'', JStr ''sn'']],
                         JStr (bytes_to_hex en1), JNum (Fin 8)]
      in stay (emit_response rid (Some result) None w))"

definition wants_version_rolling :: "json option \<Rightarrow> bool" where
  "wants_version_rolling exts \<longleftrightarrow> JStr ''version-rolling'' \<in> set (arr_items exts)"

definition handle_configure :: "json option \<Rightarrow> json option \<Rightarrow> world \<Rightarrow> handled" where
  "handle_configure rid params w =
     (let exts = arr_item params 0; args = arr_item params 1 in
      if wants_version_rolling exts then
        let m = obj_get args ''version-rolling.mask'';
            client = (if is_str m then case parse_u32_hex (valuestring m) of Some p \<Rightarrow> p | None \<Rightarrow> 0xffffffff else 0xffffffff);
            mask = client AND VERSION_ROLLING_MASK;
            w = w\<lparr>w_conn := (w_conn w)\<lparr>version_mask := mask\<rparr>\<rparr>
        in stay (emit_response rid (Some (JObj [(''version-rolling'', JBool True), (''version-rolling.mask'', JStr (hex8 mask))])) None w)
      else stay (emit_response rid (Some (JObj [])) None w))"

section \<open>Requested difficulty\<close>

fun pw_scan :: "char option \<Rightarrow> string \<Rightarrow> double option" where
  "pw_scan prev [] = None"
| "pw_scan prev (c # r) =
     (if (case prev of None \<Rightarrow> False | Some p \<Rightarrow> p \<notin> {CHR '','', CHR '';'', CHR '' ''}) then pw_scan (Some c) r
      else if c \<noteq> CHR ''d'' \<or> r = [] \<or> hd r \<noteq> CHR ''='' then pw_scan (Some c) r
      else let (v, n) = strtod (tl r)
           in if n = 0 then None else if \<not> d_gt v (Fin 0) then None else Some v)"

definition parse_password_diff :: "string option \<Rightarrow> double option" where
  "parse_password_diff pw = (case pw of None \<Rightarrow> None | Some p \<Rightarrow> pw_scan None p)"

definition apply_requested_diff :: "stratum_server \<Rightarrow> stratum_conn \<Rightarrow> double \<Rightarrow> stratum_conn" where
  "apply_requested_diff s c req =
     (if \<not> d_gt req (Fin 0) then c
      else if d_le (max_suggested_diff (cfg s)) (Fin 0) then c
      else let req = (if d_gt req (max_suggested_diff (cfg s)) then max_suggested_diff (cfg s) else req);
               req = clamp_assigned_difficulty s c req;
               req = (if d_gt (pol_vardiff_max c) (Fin 0) \<and> d_gt req (pol_vardiff_max c) then pol_vardiff_max c else req);
               c = c\<lparr>requested_min_diff := req\<rparr>
           in if d_lt (difficulty c) req then c\<lparr>difficulty := req\<rparr> else c)"

definition handle_suggest_difficulty :: "json option \<Rightarrow> json option \<Rightarrow> world \<Rightarrow> handled" where
  "handle_suggest_difficulty rid params w =
     (let req = (case arr_item params 0 of Some (JNum v) \<Rightarrow> v | _ \<Rightarrow> Fin 0) in
      if \<not> d_gt req (Fin 0) then stay (emit_error rid 20 ''bad params'' w)
      else let before = difficulty (w_conn w);
               c = apply_requested_diff (w_srv w) (w_conn w) req;
               w = w\<lparr>w_conn := c\<rparr>;
               w = (if authorized c \<and> \<not> d_eq (difficulty c) before then send_set_difficulty (difficulty c) w else w);
               w = (if rid \<noteq> None then emit_response rid (Some (JBool True)) None w else w)
           in stay w)"

section \<open>The authorize budget\<close>

definition AUTH_FAIL_SLOTS :: nat where
  "AUTH_FAIL_SLOTS = 1024"

definition AUTH_FAIL_PROBE :: nat where
  "AUTH_FAIL_PROBE = 8"

definition AUTH_CALL_WINDOW_MS :: u64 where
  "AUTH_CALL_WINDOW_MS = 10000"

definition AUTH_MAX_CALLS_PER_WINDOW :: u32 where
  "AUTH_MAX_CALLS_PER_WINDOW = 60"

definition lockout_ms :: "stratum_cfg \<Rightarrow> u64" where
  "lockout_ms g = word_of_int (auth_fail_lockout_sec g) * 1000"

text \<open>The probe: the entry found, or the first free slot and the one whose window began earliest.\<close>

fun af_scan :: "auth_fail_entry list \<Rightarrow> string \<Rightarrow> u64 \<Rightarrow> u64 \<Rightarrow> nat list \<Rightarrow> nat option \<Rightarrow> nat option \<Rightarrow>
    nat + nat option \<times> nat option" where
  "af_scan tab ip now lo [] fr ol = Inr (fr, ol)"
| "af_scan tab ip now lo (i # is) fr ol =
     (let e = tab ! i in
      if af_ip e \<noteq> [] \<and> af_ip e = ip then Inl i
      else let fr' = (if (af_ip e = [] \<or> now - af_window_start e \<ge> lo) \<and> fr = None then Some i else fr);
               ol' = (case ol of None \<Rightarrow> Some i
                      | Some k \<Rightarrow> if af_window_start e < af_window_start (tab ! k) then Some i else ol)
           in af_scan tab ip now lo is fr' ol')"

definition af_slots :: "string \<Rightarrow> nat list" where
  "af_slots ip = (let home = unat (fnv1a ip AND word_of_nat (AUTH_FAIL_SLOTS - 1))
                  in map (\<lambda>k. (home + k) AND (AUTH_FAIL_SLOTS - 1)) [0..<AUTH_FAIL_PROBE])"

definition auth_fail_find :: "auth_fail_entry list \<Rightarrow> string \<Rightarrow> u64 \<Rightarrow> u64 \<Rightarrow> bool \<Rightarrow> nat option \<times> auth_fail_entry list" where
  "auth_fail_find tab ip now lo create =
     (case af_scan tab ip now lo (af_slots ip) None None of
        Inl i \<Rightarrow> (Some i, if now - af_window_start (tab ! i) \<ge> lo
                         then tab[i := (tab ! i)\<lparr>af_fails := 0, af_window_start := now, af_reported := False\<rparr>] else tab)
      | Inr (fr, ol) \<Rightarrow>
          if \<not> create then (None, tab)
          else let i = (case fr of Some k \<Rightarrow> k | None \<Rightarrow> the ol)
               in (Some i, tab[i := \<lparr>af_ip = c_copy 46 ip, af_fails = 0, af_window_start = now, af_reported = False\<rparr>]))"

definition retry_secs :: "u64 \<Rightarrow> u64 \<Rightarrow> nat" where
  "retry_secs lo elapsed = unat (if lo > elapsed then lo - elapsed + 999 else 0) div 1000"

text \<open>\<open>Inl w\<close>: refused and to be closed; \<open>Inr (over, w)\<close>: go on, over the call ceiling or not.\<close>

definition auth_gate :: "clock \<Rightarrow> json option \<Rightarrow> world \<Rightarrow> world + bool \<times> world" where
  "auth_gate ck rid w =
     (let g = cfg (w_srv w); max_fail = auth_max_failures g; tmono = ck_mono ck; c = w_conn w in
      if max_fail \<le> 0 then Inr (False, w)
      else
        let (hit, tab) = (if peer_ip c \<noteq> [] then auth_fail_find (auth_fail (w_srv w)) (peer_ip c) tmono (lockout_ms g) False
                          else (None, auth_fail (w_srv w)));
            locked = (case hit of None \<Rightarrow> False | Some i \<Rightarrow> af_fails (tab ! i) \<ge> word_of_int max_fail);
            tab' = (case hit of Some i \<Rightarrow> if locked then tab[i := (tab ! i)\<lparr>af_reported := True\<rparr>] else tab | None \<Rightarrow> tab);
            w = w\<lparr>w_srv := (w_srv w)\<lparr>auth_fail := tab'\<rparr>\<rparr>
        in if locked then
             Inl (emit_error rid 24 (c_copy 160 (''too many failed authorizations from this address; retry in '' @
                    dec (retry_secs (lockout_ms g) (tmono - af_window_start (tab ! the hit))) @ ''s'')) w)
           else
             let c = (if tmono - auth_call_window_ms c \<ge> AUTH_CALL_WINDOW_MS
                      then c\<lparr>auth_call_window_ms := tmono, auth_calls_in_window := 0\<rparr> else c);
                 c = c\<lparr>auth_calls_in_window := auth_calls_in_window c + 1\<rparr>
             in Inr (auth_calls_in_window c > AUTH_MAX_CALLS_PER_WINDOW, w\<lparr>w_conn := c\<rparr>))"

definition auth_failed :: "clock \<Rightarrow> world \<Rightarrow> handled" where
  "auth_failed ck w =
     (let g = cfg (w_srv w); max_fail = auth_max_failures g in
      if max_fail \<le> 0 then stay w
      else let c = (w_conn w)\<lparr>auth_failures := auth_failures (w_conn w) + 1\<rparr>;
               tab = (if peer_ip c \<noteq> []
                      then (case auth_fail_find (auth_fail (w_srv w)) (peer_ip c) (ck_mono2 ck) (lockout_ms g) True of
                              (Some i, t) \<Rightarrow> t[i := (t ! i)\<lparr>af_fails := af_fails (t ! i) + 1\<rparr>]
                            | (None, t) \<Rightarrow> t)
                      else auth_fail (w_srv w));
               w = w\<lparr>w_srv := (w_srv w)\<lparr>auth_fail := tab\<rparr>, w_conn := c\<rparr>
           in if auth_failures c \<ge> word_of_int max_fail then close w else stay w)"

definition auth_succeeded :: "clock \<Rightarrow> world \<Rightarrow> world" where
  "auth_succeeded ck w =
     (let g = cfg (w_srv w); c = (w_conn w)\<lparr>auth_failures := 0\<rparr>; w = w\<lparr>w_conn := c\<rparr> in
      if auth_max_failures g \<le> 0 \<or> peer_ip c = [] then w
      else case auth_fail_find (auth_fail (w_srv w)) (peer_ip c) (ck_mono2 ck) (lockout_ms g) False of
        (Some i, t) \<Rightarrow> w\<lparr>w_srv := (w_srv w)\<lparr>auth_fail := t[i := (t ! i)\<lparr>af_ip := []\<rparr>]\<rparr>\<rparr>
      | (None, t) \<Rightarrow> w\<lparr>w_srv := (w_srv w)\<lparr>auth_fail := t\<rparr>\<rparr>)"

section \<open>Authorize\<close>

text \<open>The address check of the username, by mode: \<open>Err\<close> carries the decoder's message.\<close>

definition check_username :: "stratum_cfg \<Rightarrow> string \<Rightarrow> unit res" where
  "check_username g addr =
     (if username_is_thunder g then bindR (thunder_address_decode (Some addr)) (\<lambda>_. Ok ())
      else bindR (coinbase_address_to_script addr 64) (\<lambda>_. Ok ()))"

definition password_request :: "json option \<Rightarrow> double" where
  "password_request params =
     (case parse_password_diff (valuestring (arr_item params 1)) of Some v \<Rightarrow> v | None \<Rightarrow> Fin 0)"

text \<open>What follows a valid username.\<close>

definition authorize_ok :: "clock \<Rightarrow> json option \<Rightarrow> string \<Rightarrow> double \<Rightarrow> world \<Rightarrow> handled" where
  "authorize_ok ck rid worker pw_diff w =
     (let w = w\<lparr>w_conn := (w_conn w)\<lparr>worker_name := sanitize_worker worker 129\<rparr>\<rparr>;
          w = auth_succeeded ck w;
          c = (w_conn w)\<lparr>authorized := True\<rparr>;
          c = (if d_le (difficulty c) (Fin 0) then c\<lparr>difficulty := pol_initial_diff c\<rparr> else c);
          req = (if d_gt pw_diff (Fin 0) then pw_diff else requested_min_diff c);
          c = (if d_gt req (Fin 0) then apply_requested_diff (w_srv w) c req else c);
          c = c\<lparr>difficulty := clamp_assigned_difficulty (w_srv w) c (difficulty c)\<rparr>;
          c = vd_reset (ck_now ck) c;
          w = emit_response rid (Some (JBool True)) None (w\<lparr>w_conn := c\<rparr>);
          w = send_set_difficulty (difficulty c) w
      in bindR (send_current_notify True w) stay)"

definition handle_authorize :: "clock \<Rightarrow> json option \<Rightarrow> json option \<Rightarrow> world \<Rightarrow> handled" where
  "handle_authorize ck rid params w =
     (case auth_gate ck rid w of
        Inl w \<Rightarrow> close w
      | Inr (over, w) \<Rightarrow>
          if over then auth_failed ck (emit_error rid 24 ''too many mining.authorize calls; slow down'' w)
          else case valuestring (arr_item params 0) of
            None \<Rightarrow> auth_failed ck (emit_error rid 24 ''missing worker name'' w)
          | Some worker \<Rightarrow>
              let g = cfg (w_srv w); addr = takeWhile (\<lambda>ch. ch \<noteq> CHR ''.'') worker in
              if addr = [] \<or> length addr \<ge> 128 then
                auth_failed ck (emit_error rid 24 ''stratum username must be <bitcoin_address>[.<rig_label>]''
                  (on_reject worker (ck_now ck) ''stratum username must start with a bitcoin address'' w))
              else if pps_gated (w_srv w) then
                stay (emit_error rid 24 PPS_GATED_MSG
                  (on_reject worker (ck_now ck) ''pps accrual suspended (difficulty below floor)'' w))
              else case check_username g addr of
                UB \<Rightarrow> UB
              | Err m \<Rightarrow>
                  let kind = (if username_is_thunder g then ''invalid thunder address'' else ''invalid payout address'');
                      w = on_reject worker (ck_now ck) (c_copy 192 (kind @ '': '' @ c_copy 128 m)) w;
                      w = w\<lparr>w_conn := (w_conn w)\<lparr>payout_address := []\<rparr>\<rparr>
                  in auth_failed ck (emit_error rid 24 (c_copy 192 (kind @ '' in stratum username: '' @ c_copy 128 m)) w)
              | Ok _ \<Rightarrow>
                  authorize_ok ck rid worker (password_request params)
                    (w\<lparr>w_conn := (w_conn w)\<lparr>payout_address := addr\<rparr>\<rparr>))"

end
