(* ===== verification/Submit.thy ===== *)
theory Submit
  imports Handlers
begin

text \<open>
  mining.submit in \<^verbatim>\<open>src/stratum.c\<close>: the checks in the order of the code, the header a submission
  stands for, the verdict on its hash, block assembly, what is reported to the rest of the pool, and
  the dispatcher over all methods.
\<close>

section \<open>What a submission hashes\<close>

definition NTIME_MAX_FORWARD_ROLL :: int where
  "NTIME_MAX_FORWARD_ROLL = 7200"

definition NTIME_MAX_BACKWARD_ROLL :: int where
  "NTIME_MAX_BACKWARD_ROLL = 600"

text \<open>The optional sixth parameter; \<open>None\<close> when it is not 8 hex digits.\<close>

definition submit_version :: "stratum_conn \<Rightarrow> stratum_job \<Rightarrow> json option \<Rightarrow> u32 option" where
  "submit_version c job params =
     (if length (arr_items params) \<ge> 6 then
        case parse_u32_hex (valuestring (arr_item params 5)) of
          None \<Rightarrow> None
        | Some rolled \<Rightarrow>
            let mask = (if version_mask c \<noteq> 0 then version_mask c else VERSION_ROLLING_MASK)
            in Some ((job_version job AND NOT mask) OR (rolled AND mask))
      else Some (job_version job))"

definition ntime_in_range :: "stratum_job \<Rightarrow> u32 \<Rightarrow> bool" where
  "ntime_in_range job nt \<longleftrightarrow>
     uint nt \<le> uint (job_ntime job) + NTIME_MAX_FORWARD_ROLL \<and> uint (job_ntime job) - NTIME_MAX_BACKWARD_ROLL \<le> uint nt"

definition submit_coinbase :: "stratum_conn \<Rightarrow> byte list \<Rightarrow> byte list" where
  "submit_coinbase c en2 = cb1 (c_cb c) @ extranonce1 c @ en2 @ cb2 (c_cb c)"

definition submit_header :: "u32 \<Rightarrow> stratum_job \<Rightarrow> byte list \<Rightarrow> u32 \<Rightarrow> u32 \<Rightarrow> byte list" where
  "submit_header version job cb nt nonce =
     build_header version (prev_hash_le job) (merkle_root_from_branches (dsha256 cb) (merkle_branches job)) nt (nbits job) nonce"

section \<open>The verdict\<close>

record verdict =
  v_is_block :: bool
  v_meets :: bool
  v_share_diff :: double

definition assigned_difficulty :: "stratum_conn \<Rightarrow> stratum_job \<Rightarrow> double" where
  "assigned_difficulty c job =
     (let d = conn_job_difficulty c (job_id job) in if d_le d (Fin 0) then difficulty c else d)"

definition judge :: "stratum_conn \<Rightarrow> stratum_job \<Rightarrow> byte list \<Rightarrow> verdict res" where
  "judge c job hash_be =
     (let assigned = assigned_difficulty c job in
      bindR (worker_diff_to_target assigned) (\<lambda>worker_target.
      let is_block = be32_cmp hash_be (network_target_be job) \<le> 0;
          meets = be32_cmp hash_be worker_target < 0
      in bindR (if \<not> meets \<and> d_lt (difficulty c) assigned then
                  bindR (worker_diff_to_target (difficulty c)) (\<lambda>current_target.
                    Ok (if be32_cmp hash_be current_target < 0 then (True, difficulty c) else (False, assigned)))
                else Ok (meets, assigned)) (\<lambda>(meets, share_diff).
           Ok \<lparr>v_is_block = is_block, v_meets = meets,
               v_share_diff = (if is_block \<and> \<not> meets then target_to_diff (network_target_be job) else share_diff)\<rparr>)))"

section \<open>Block assembly\<close>

definition varint_append :: "byte list \<Rightarrow> u64 \<Rightarrow> byte list" where
  "varint_append buf n =
     buf @ (if n < 0xfd then [ucast n]
            else if n \<le> 0xffff then [0xfd, ucast n, ucast (drop_bit 8 n)]
            else if n \<le> 0xffffffff then 0xfe # map (\<lambda>i. ucast (drop_bit (8 * i) n)) [0..<4]
            else 0xff # map (\<lambda>i. ucast (drop_bit (8 * i) n)) [0..<8])"

fun append_txs :: "byte list \<Rightarrow> string list \<Rightarrow> byte list option" where
  "append_txs block [] = Some block"
| "append_txs block (h # hs) =
     (case hex_to_bytes_alloc (Some h) of None \<Rightarrow> None | Some b \<Rightarrow> append_txs (block @ b) hs)"

text \<open>The coinbase in segwit form when the node's coinbase had a witness.\<close>

definition block_coinbase :: "stratum_job \<Rightarrow> byte list \<Rightarrow> byte list" where
  "block_coinbase j cb =
     (if coinbase_has_witness j \<and> length cb \<ge> 8
      then take 4 cb @ [0x00, 0x01] @ take (length cb - 8) (drop 4 cb) @ ([0x01, 0x20] @ replicate 32 0) @
           drop (length cb - 4) cb
      else cb)"

definition assemble_block_hex :: "stratum_job \<Rightarrow> byte list \<Rightarrow> byte list \<Rightarrow> string option" where
  "assemble_block_hex j cb header =
     (case append_txs (varint_append header (word_of_nat (length (tx_hex_list j) + 1)) @ block_coinbase j cb) (tx_hex_list j) of
        None \<Rightarrow> None
      | Some block \<Rightarrow> Some (bytes_to_hex block))"

definition REASON_TEXT_MAX :: nat where
  "REASON_TEXT_MAX = 128"

text \<open>Submission of a candidate: accepted or not, the node's reason, and the event of a real call.\<close>

definition submit_block :: "stratum_job \<Rightarrow> byte list \<Rightarrow> byte list \<Rightarrow> world \<Rightarrow> bool \<times> string \<times> world" where
  "submit_block job cb header w =
     (case assemble_block_hex job cb header of
        None \<Rightarrow> (False, ''block assembly failed'', w)
      | Some hex \<Rightarrow>
          (case on_block (cfg (w_srv w)) of
             None \<Rightarrow> (True, [], w)
           | Some f \<Rightarrow> let (rc, why) = f hex
                       in (rc = 0, c_copy REASON_TEXT_MAX why, w\<lparr>w_log := w_log w @ [EvBlock hex]\<rparr>)))"

section \<open>Queue fractions of a found block\<close>

fun sum_sats :: "int list \<Rightarrow> int \<Rightarrow> int res" where
  "sum_sats [] acc = Ok acc"
| "sum_sats (x # xs) acc = bindR (chk64 (acc + x)) (sum_sats xs)"

definition fraction_delta :: "int \<Rightarrow> int \<Rightarrow> bool \<Rightarrow> int \<Rightarrow> double" where
  "fraction_delta sats entitled_total paid survivors_own =
     d_sub (d_div (d_of_int sats) (d_of_int entitled_total))
       (if paid then d_div (d_of_int sats) (d_of_int survivors_own) else Fin 0)"

definition significant :: "double \<Rightarrow> bool" where
  "significant d \<longleftrightarrow> d_gt d (d_round (1 / 10 ^ 12)) \<or> d_lt d (d_neg (d_round (1 / 10 ^ 12)))"

definition window_fractions :: "stratum_job \<Rightarrow> coinbase_window_result \<Rightarrow> (int \<times> double) list res" where
  "window_fractions job r =
     (let sats = map pe_sats (payees job);
          flags = map (cbwin_was_paid r) [0..<length sats] in
      bindR (sum_sats sats 0) (\<lambda>entitled_total.
      bindR (sum_sats (map fst (filter snd (zip sats flags))) 0) (\<lambda>survivors_own.
        if entitled_total > 0 \<and> survivors_own > 0 then
          Ok (take COINBASE_MAX_PAYOUT_OUTPUTS
                (filter (\<lambda>(wid, d). significant d)
                   (map (\<lambda>((wid, v), paid). (wid, fraction_delta v entitled_total paid survivors_own))
                      (zip (zip (payee_worker_ids job) sats) flags))))
        else Ok [])))"

definition report_fractions :: "stratum_job \<Rightarrow> string \<Rightarrow> world \<Rightarrow> world res" where
  "report_fractions job hash w =
     (if coinbase_pays_window (cfg (w_srv w)) \<and> payees job \<noteq> [] then
        case render_window (w_srv w) (w_conn w) job of
          UB \<Rightarrow> UB
        | Err m \<Rightarrow> Ok w
        | Ok (parts, r) \<Rightarrow>
            if on_window_fractions_set (cfg (w_srv w)) \<and> payee_worker_ids job \<noteq> [] \<and> wr_paid_sats r > 0 then
              bindR (window_fractions job r) (\<lambda>ds.
                Ok (if ds \<noteq> [] then w\<lparr>w_log := w_log w @ [EvFractions hash ds]\<rparr> else w))
            else Ok w
      else Ok w)"

definition report_block :: "u64 \<Rightarrow> stratum_job \<Rightarrow> string \<Rightarrow> bool \<Rightarrow> string \<Rightarrow> world \<Rightarrow> world res" where
  "report_block ts job hash accepted why w =
     (let g = cfg (w_srv w); c = w_conn w in
      if on_block_found_set g then
        bindR (if fee_bps g > 0 \<and> operator_address g \<noteq> []
               then bindR (fee_cut (value_sats job) (fee_bps g)) (\<lambda>f. Ok (if f < COINBASE_DUST_SATS then 0 else f))
               else Ok 0) (\<lambda>fee.
        bindR (chk64 (value_sats job - fee)) (\<lambda>reward.
          Ok (w\<lparr>w_log := w_log w @ [EvBlockFound (worker_name c) (payout_address c) ts (height job) hash reward fee accepted why]\<rparr>)))
      else Ok w)"

section \<open>Submit\<close>

definition count_share :: "stratum_job \<Rightarrow> byte list \<Rightarrow> double \<Rightarrow> stratum_conn \<Rightarrow> stratum_conn" where
  "count_share job hash_be assigned c =
     (let achieved = target_to_diff hash_be in
      c\<lparr>vd_window_shares := vd_window_shares c + 1,
        vd_window_min_achieved := (if d_lt achieved (vd_window_min_achieved c) then achieved else vd_window_min_achieved c),
        vd_window_max_assigned := (if d_gt assigned (vd_window_max_assigned c) then assigned else vd_window_max_assigned c)\<rparr>)"

definition reject_share :: "clock \<Rightarrow> json option \<Rightarrow> int \<Rightarrow> string \<Rightarrow> world \<Rightarrow> handled" where
  "reject_share ck rid code why w =
     stay (emit_error rid code why (on_reject (worker_name (w_conn w)) (ck_now ck) why w))"

text \<open>From a hash that is a share or a block to the reply: submission, crediting, vardiff, reports.\<close>

definition accept_share ::
  "clock \<Rightarrow> json option \<Rightarrow> stratum_job \<Rightarrow> byte list \<Rightarrow> byte list \<Rightarrow> byte list \<Rightarrow> verdict \<Rightarrow> world \<Rightarrow> handled" where
  "accept_share ck rid job cb header hash_be v w =
     (let assigned = assigned_difficulty (w_conn w) job;
          hex = bytes_to_hex hash_be;
          (accepted, why, w) = (if v_is_block v then submit_block job cb header w else (True, [], w));
          c = w_conn w;
          w = (if on_share_set (cfg (w_srv w))
               then w\<lparr>w_log := w_log w @ [EvShare (worker_name c) (payout_address c) (ck_now ck) (v_share_diff v) (v_is_block v) hex]\<rparr>
               else w);
          w = w\<lparr>w_conn := count_share job hash_be assigned c\<rparr>;
          w = vardiff_maybe_retarget (ck_now2 ck) w
      in bindR (if v_is_block v \<and> accepted then report_fractions job hex w else Ok w) (\<lambda>w.
         bindR (if v_is_block v then report_block (ck_now ck) job hex accepted why w else Ok w) (\<lambda>w.
           stay (emit_response rid (Some (JBool True)) None w))))"

definition submit_with_job ::
  "clock \<Rightarrow> json option \<Rightarrow> json option \<Rightarrow> stratum_job \<Rightarrow> string option \<Rightarrow> string option \<Rightarrow> string option \<Rightarrow> world \<Rightarrow> handled" where
  "submit_with_job ck rid params job en2 ntime nonce w =
     (case submit_version (w_conn w) job params of
        None \<Rightarrow> stay (emit_error rid 20 ''bad version hex'' w)
      | Some version \<Rightarrow>
        let (dup, dd) = dedupe_check_and_add (c_dedupe (w_conn w)) (Some (job_id job)) en2 ntime nonce version;
            w = w\<lparr>w_conn := (w_conn w)\<lparr>c_dedupe := dd\<rparr>\<rparr>
        in if dup then reject_share ck rid 22 ''duplicate share'' w
        else case (parse_u32_hex ntime, parse_u32_hex nonce) of
          (Some nt, Some nc) \<Rightarrow>
            if \<not> ntime_in_range job nt then reject_share ck rid 20 ''ntime out of range'' w
            else (case hex_to_bytes_alloc en2 of
              None \<Rightarrow> stay (emit_error rid 20 ''bad extranonce2 hex'' w)
            | Some en2b \<Rightarrow>
                if length en2b \<noteq> en2_size job then reject_share ck rid 20 ''wrong extranonce2 size'' w
                else bindR (conn_render_coinbase (w_srv w) (w_conn w) job) (\<lambda>(ok, c).
                  let w = w\<lparr>w_conn := c\<rparr> in
                  if \<not> ok then reject_share ck rid 25 ''coinbase render failed'' w
                  else
                    let cb = submit_coinbase c en2b;
                        header = submit_header version job cb nt nc;
                        hash_be = hash_header header
                    in case share_dedupe_check_and_add (share_dd (w_srv w)) hash_be of
                         None \<Rightarrow> UB
                       | Some (dup, sdd) \<Rightarrow>
                           let w = w\<lparr>w_srv := (w_srv w)\<lparr>share_dd := sdd\<rparr>\<rparr> in
                           if dup then reject_share ck rid 22 ''duplicate share'' w
                           else bindR (judge c job hash_be) (\<lambda>v.
                             if \<not> v_is_block v \<and> \<not> v_meets v then reject_share ck rid 23 ''low difficulty'' w
                             else accept_share ck rid job cb header hash_be v w)))
        | _ \<Rightarrow> stay (emit_error rid 20 ''bad ntime/nonce hex'' w))"

definition handle_submit :: "clock \<Rightarrow> json option \<Rightarrow> json option \<Rightarrow> world \<Rightarrow> handled" where
  "handle_submit ck rid params w =
     (if \<not> authorized (w_conn w) then stay (emit_error rid 24 ''unauthorized'' w)
      else let (over, c) = submit_rate_exceeded (w_srv w) (w_conn w) (ck_mono ck);
               w = w\<lparr>w_conn := c\<rparr> in
        if over then stay (emit_error rid 20 ''submitting too fast'' (submit_rate_report (ck_now ck) (ck_mono ck) w))
        else if \<not> is_arr params \<or> length (arr_items params) < 5 then stay (emit_error rid 20 ''bad params'' w)
        else if pps_gated (w_srv w) then
          stay (emit_error rid 24 PPS_GATED_MSG
            (on_reject (worker_name c) (ck_now ck) ''pps accrual suspended (difficulty below floor)'' w))
        else case find_job (w_srv w) (valuestring (arr_item params 1)) of
          None \<Rightarrow> reject_share ck rid 21 ''stale or unknown job'' w
        | Some job \<Rightarrow>
            submit_with_job ck rid params job (valuestring (arr_item params 2)) (valuestring (arr_item params 3))
              (valuestring (arr_item params 4)) w)"

section \<open>The dispatcher\<close>

definition MAX_LINE_BYTES :: nat where
  "MAX_LINE_BYTES = 16384"

definition MAX_MALFORMED_STREAK :: u32 where
  "MAX_MALFORMED_STREAK = 8"

definition protocol_noise :: "string \<Rightarrow> world \<Rightarrow> handled" where
  "protocol_noise what w =
     (let c = (w_conn w)\<lparr>malformed_streak := malformed_streak (w_conn w) + 1\<rparr>; w = w\<lparr>w_conn := c\<rparr>
      in if malformed_streak c \<ge> MAX_MALFORMED_STREAK then close w
         else stay (emit_error None 20 what w))"

definition dispatch :: "clock \<Rightarrow> string \<Rightarrow> json option \<Rightarrow> json option \<Rightarrow> world \<Rightarrow> handled" where
  "dispatch ck meth rid params w =
     (if meth = ''mining.configure'' then handle_configure rid params w
      else if meth = ''mining.subscribe'' then handle_subscribe rid w
      else if meth = ''mining.suggest_difficulty'' then handle_suggest_difficulty rid params w
      else if meth = ''mining.authorize'' then handle_authorize ck rid params w
      else if meth = ''mining.submit'' then handle_submit ck rid params w
      else stay (emit_error rid 20 ''unknown method'' w))"

text \<open>\<open>parse\<close> is \<open>cJSON_Parse\<close>.\<close>

definition stratum_handle_message :: "(string \<Rightarrow> json option) \<Rightarrow> clock \<Rightarrow> string option \<Rightarrow> world \<Rightarrow> handled" where
  "stratum_handle_message parse ck line w =
     (case line of
        None \<Rightarrow> close w
      | Some l \<Rightarrow>
          if length l > MAX_LINE_BYTES then close w
          else let p = dropWhile (\<lambda>ch. ch \<in> {CHR '' '', CHR 0x09, CHR 0x0D}) l in
            if p = [] then stay w
            else case parse p of
              None \<Rightarrow> protocol_noise ''malformed JSON'' w
            | Some r \<Rightarrow>
                (case valuestring (obj_get (Some r) ''method'') of
                   None \<Rightarrow>
                     if obj_get (Some r) ''result'' \<noteq> None \<or> obj_get (Some r) ''error'' \<noteq> None
                     then stay (w\<lparr>w_conn := (w_conn w)\<lparr>malformed_streak := 0\<rparr>\<rparr>)
                     else protocol_noise ''missing method'' w
                 | Some meth \<Rightarrow>
                     dispatch ck meth (obj_get (Some r) ''id'') (obj_get (Some r) ''params'')
                       (w\<lparr>w_conn := (w_conn w)\<lparr>malformed_streak := 0\<rparr>\<rparr>)))"

section \<open>The job swap\<close>

text \<open>Registered connections, each with whether its socket is open and the lines written to it.\<close>

fun broadcast :: "stratum_server \<Rightarrow> bool \<Rightarrow> (bool \<times> stratum_conn) list \<Rightarrow> ((bool \<times> stratum_conn) \<times> json list) list res" where
  "broadcast s clean [] = Ok []"
| "broadcast s clean ((fd_open, c) # cs) =
     bindR (if subscribed c \<and> fd_open \<and> authorized c
            then send_current_notify clean \<lparr>w_srv = s, w_conn = c, w_out = [], w_log = []\<rparr>
            else Ok \<lparr>w_srv = s, w_conn = c, w_out = [], w_log = []\<rparr>) (\<lambda>w.
     bindR (broadcast s clean cs) (\<lambda>rest. Ok (((fd_open, w_conn w), w_out w) # rest)))"

definition stratum_server_set_job ::
  "u64 \<Rightarrow> stratum_server \<Rightarrow> stratum_job \<Rightarrow> bool \<Rightarrow> (bool \<times> stratum_conn) list \<Rightarrow>
   (stratum_server \<times> ((bool \<times> stratum_conn) \<times> json list) list) res" where
  "stratum_server_set_job tmono s new_job clean conns =
     (let old = current_job s;
          s = s\<lparr>current_job := Some new_job\<rparr>;
          s = (case old of None \<Rightarrow> s | Some j \<Rightarrow> retire_job tmono s j)
      in bindR (broadcast s clean conns) (\<lambda>outs. Ok (s, outs)))"

section \<open>What is credited\<close>

fun is_share_event :: "event \<Rightarrow> bool" where
  "is_share_event (EvShare wk pa ts d blk h) = True"
| "is_share_event _ = False"

definition credited :: "world \<Rightarrow> event list" where
  "credited w = filter is_share_event (w_log w)"

named_theorems quiet \<open>operations that credit nothing\<close>

lemma credited_update [quiet]:
  "credited (w\<lparr>w_conn := c\<rparr>) = credited w" "credited (w\<lparr>w_srv := s\<rparr>) = credited w" "credited (w\<lparr>w_out := ls\<rparr>) = credited w"
  by (simp_all add: credited_def)

lemma credited_emit [quiet]: "credited (emit j w) = credited w"
  by (simp add: emit_def credited_def)

lemma credited_respond [quiet]:
  "credited (emit_response rid r e w) = credited w" "credited (emit_error rid n m w) = credited w"
  "credited (send_set_difficulty d w) = credited w"
  by (simp_all add: emit_response_def emit_error_def send_set_difficulty_def quiet)

lemma credited_on_reject [quiet]: "credited (on_reject wk ts m w) = credited w"
  by (simp add: on_reject_def credited_def)

lemma credited_rate_report [quiet]: "credited (submit_rate_report now mon w) = credited w"
  by (simp add: submit_rate_report_def Let_def quiet)

lemma credited_vardiff [quiet]: "credited (vardiff_maybe_retarget now w) = credited w"
  by (simp add: vardiff_maybe_retarget_def Let_def quiet)

lemma reject_share_Ok: "reject_share ck rid n m w = Ok (k, w') \<longleftrightarrow>
    k \<and> w' = emit_error rid n m (on_reject (worker_name (w_conn w)) (ck_now ck) m w)"
  by (auto simp: reject_share_def stay_def)

lemma submit_block_quiet: "submit_block job cb header w = (a, why, w') \<Longrightarrow>
    credited w' = credited w \<and> w_conn w' = w_conn w \<and> w_srv w' = w_srv w"
  by (auto simp: submit_block_def credited_def split: option.splits prod.splits)

lemma report_fractions_quiet: "report_fractions job h w = Ok w' \<Longrightarrow> credited w' = credited w \<and> w_srv w' = w_srv w"
  by (auto simp: report_fractions_def credited_def bindR_Ok_iff split: if_splits res.splits prod.splits)

lemma report_block_quiet: "report_block ts job h a why w = Ok w' \<Longrightarrow> credited w' = credited w \<and> w_srv w' = w_srv w"
  by (auto simp: report_block_def credited_def bindR_Ok_iff Let_def split: if_splits)

lemma vardiff_srv [simp]: "w_srv (vardiff_maybe_retarget now w) = w_srv w"
  by (simp add: vardiff_maybe_retarget_def Let_def send_set_difficulty_def emit_def)

lemma accept_share_credits:
  assumes "accept_share ck rid job cb header hash v w = Ok (k, w')"
  shows "credited w' = credited w @ (if on_share_set (cfg (w_srv w))
      then [EvShare (worker_name (w_conn w)) (payout_address (w_conn w)) (ck_now ck) (v_share_diff v) (v_is_block v) (bytes_to_hex hash)] else [])
    \<and> w_srv w' = w_srv w"
proof -
  obtain a why w1 where b: "(if v_is_block v then submit_block job cb header w else (True, [], w)) = (a, why, w1)"
    by (cases "if v_is_block v then submit_block job cb header w else (True, [], w)") auto
  have w1: "credited w1 = credited w" "w_conn w1 = w_conn w" "w_srv w1 = w_srv w"
    using b submit_block_quiet [of job cb header w a why w1] by (auto split: if_splits)
  define w2 where "w2 = (if on_share_set (cfg (w_srv w1))
               then w1\<lparr>w_log := w_log w1 @ [EvShare (worker_name (w_conn w1)) (payout_address (w_conn w1)) (ck_now ck) (v_share_diff v) (v_is_block v) (bytes_to_hex hash)]\<rparr>
               else w1)"
  define w3 where "w3 = vardiff_maybe_retarget (ck_now2 ck) (w2\<lparr>w_conn := count_share job hash (assigned_difficulty (w_conn w) job) (w_conn w1)\<rparr>)"
  have c3: "credited w3 = credited w2" and s3: "w_srv w3 = w_srv w2" by (simp_all add: w3_def quiet)
  obtain w4 w5 where "(if v_is_block v \<and> a then report_fractions job (bytes_to_hex hash) w3 else Ok w3) = Ok w4"
    and "(if v_is_block v then report_block (ck_now ck) job (bytes_to_hex hash) a why w4 else Ok w4) = Ok w5"
    and w': "w' = emit_response rid (Some (JBool True)) None w5"
    using assms unfolding accept_share_def Let_def b w3_def w2_def by (auto simp: bindR_Ok_iff stay_def)
  then have "credited w5 = credited w3" "w_srv w5 = w_srv w3"
    using report_fractions_quiet report_block_quiet by (auto split: if_splits)
  then show ?thesis using w1 c3 s3 unfolding w'
    by (auto simp: quiet w2_def credited_def emit_response_def emit_def)
qed

lemma render_keeps:
  assumes "conn_render_coinbase s c job = Ok (ok, c')"
  shows "\<exists>parts jid. c' = c \<or> c' = c\<lparr>c_cb := parts, cb_for_job_id := jid\<rparr>"
  using assms by (auto simp: conn_render_coinbase_def split: if_splits res.splits)

lemma length_sha_round [simp]: "length (sha_round km st) = length st"
  by (cases "(km, st)" rule: sha_round.cases) (auto simp: Let_def)

lemma length_sha_compress [simp]: "length (sha_compress st data) = length st"
proof -
  have "length (fold sha_round kms st) = length st" for kms
    by (induction kms arbitrary: st) auto
  then show ?thesis by (simp add: sha_compress_def)
qed

lemma length_sha_absorb [simp]: "length (sha_absorb st bs) = length st"
  by (induction st bs rule: sha_absorb.induct) (simp add: sha_absorb.simps [of st bs for st bs])

lemma length_sha256 [simp]: "length (sha256 msg) = 32"
proof -
  have "length (concat (map be_word_bytes ws)) = 4 * length ws" for ws
    by (induction ws) (auto simp: be_word_bytes_def)
  then show ?thesis by (simp add: sha256_streams_spec sha256_spec_def sha256_init_def)
qed

lemma length_hash_header [simp]: "length (hash_header h) = 32"
  by (simp add: hash_header_def dsha256_def)

section \<open>What a credited share proves\<close>

lemma judge_sound:
  assumes "judge c job h = Ok v" and "length h = 32" and "length (network_target_be job) = 32"
  shows "v_is_block v \<longleftrightarrow> be_val h \<le> be_val (network_target_be job)"
    and "v_meets v \<Longrightarrow> be_val h < target_of (v_share_diff v) \<and> v_share_diff v \<in> {assigned_difficulty c job, difficulty c}"
    and "v_is_block v \<Longrightarrow> \<not> v_meets v \<Longrightarrow> v_share_diff v = target_to_diff (network_target_be job)"
proof -
  let ?a = "assigned_difficulty c job"
  have tgt: "worker_diff_to_target d = Ok t \<Longrightarrow> be32_cmp h t < 0 \<longleftrightarrow> be_val h < target_of d" for d t
    using worker_target_total [of d] be32_cmp_val [of h t] assms(2) by (auto simp: target_of_def)
  obtain t where t: "worker_diff_to_target ?a = Ok t" using worker_target_total by blast
  obtain t' where t': "worker_diff_to_target (difficulty c) = Ok t'" using worker_target_total by blast
  have net: "be32_cmp h (network_target_be job) \<le> 0 \<longleftrightarrow> be_val h \<le> be_val (network_target_be job)"
    using be32_cmp_val [of h "network_target_be job"] assms(2,3) by auto
  have v: "v = (let m = (if be32_cmp h t < 0 then (True, ?a)
                         else if d_lt (difficulty c) ?a \<and> be32_cmp h t' < 0 then (True, difficulty c) else (False, ?a));
                    b = be32_cmp h (network_target_be job) \<le> 0
                in \<lparr>v_is_block = b, v_meets = fst m, v_share_diff = (if b \<and> \<not> fst m then target_to_diff (network_target_be job) else snd m)\<rparr>)"
    using assms(1) by (auto simp: judge_def Let_def t t' bindR_Ok_iff split: if_splits)
  show "v_is_block v \<longleftrightarrow> be_val h \<le> be_val (network_target_be job)" by (simp add: v Let_def net)
  show "v_meets v \<Longrightarrow> be_val h < target_of (v_share_diff v) \<and> v_share_diff v \<in> {?a, difficulty c}"
    using tgt [OF t] tgt [OF t'] by (auto simp: v Let_def split: if_splits)
  show "v_is_block v \<Longrightarrow> \<not> v_meets v \<Longrightarrow> v_share_diff v = target_to_diff (network_target_be job)"
    by (simp add: v Let_def)
qed

lemma submit_version_outside:
  assumes "submit_version c job params = Some v"
  shows "v AND NOT (if version_mask c \<noteq> 0 then version_mask c else VERSION_ROLLING_MASK) =
         job_version job AND NOT (if version_mask c \<noteq> 0 then version_mask c else VERSION_ROLLING_MASK)"
proof -
  have "((a AND NOT m) OR (r AND m)) AND NOT m = a AND NOT m" for a m r :: u32
    by (rule bit_word_eqI) (auto simp: bit_simps)
  then show ?thesis using assms
    by (auto simp: submit_version_def Let_def split: if_splits option.splits)
qed

text \<open>The share a submission stands for: the header hashed, and who is credited what for it.\<close>

record claim =
  cl_job :: stratum_job
  cl_version :: u32
  cl_en2 :: "byte list"
  cl_ntime :: u32
  cl_nonce :: u32

definition claim_hash :: "stratum_conn \<Rightarrow> claim \<Rightarrow> byte list" where
  "claim_hash c k = hash_header (submit_header (cl_version k) (cl_job k) (submit_coinbase c (cl_en2 k)) (cl_ntime k) (cl_nonce k))"

definition claim_of :: "json option \<Rightarrow> world \<Rightarrow> claim \<Rightarrow> bool" where
  "claim_of params w k \<longleftrightarrow>
     find_job (w_srv w) (valuestring (arr_item params 1)) = Some (cl_job k) \<and>
     hex_to_bytes_alloc (valuestring (arr_item params 2)) = Some (cl_en2 k) \<and>
     length (cl_en2 k) = en2_size (cl_job k) \<and>
     parse_u32_hex (valuestring (arr_item params 3)) = Some (cl_ntime k) \<and> ntime_in_range (cl_job k) (cl_ntime k) \<and>
     parse_u32_hex (valuestring (arr_item params 4)) = Some (cl_nonce k) \<and>
     submit_version (w_conn w) (cl_job k) params = Some (cl_version k)"

lemma submit_version_cong: "version_mask c = version_mask c' \<Longrightarrow> submit_version c job params = submit_version c' job params"
  by (simp add: submit_version_def cong: option.case_cong)

lemma credited_reject [quiet]: "reject_share ck rid n m w = Ok (k, w') \<Longrightarrow> credited w' = credited w"
  by (auto simp: reject_share_Ok quiet)

lemma rate_keeps:
  "submit_rate_exceeded s c t = (b, c') \<Longrightarrow> \<exists>st n l lt. c' = c\<lparr>rl_window_start_ms := st, rl_window_count := n, rl_limited := l, rl_limited_total := lt\<rparr>"
  by (cases c) (auto simp: submit_rate_exceeded_def Let_def split: if_splits)


lemma submit_with_job_cases:
  assumes "submit_with_job ck rid params job en2 ntime nonce w = Ok (k, w')"
  obtains "credited w' = credited w"
  | ver dd nt nc en2b c sdd v cb hd where "submit_version (w_conn w) job params = Some ver"
    and "parse_u32_hex ntime = Some nt" and "parse_u32_hex nonce = Some nc" and "ntime_in_range job nt"
    and "hex_to_bytes_alloc en2 = Some en2b" and "length en2b = en2_size job"
    and "conn_render_coinbase (w_srv w) ((w_conn w)\<lparr>c_dedupe := dd\<rparr>) job = Ok (True, c)"
    and "cb = submit_coinbase c en2b" and "hd = submit_header ver job cb nt nc"
    and "share_dedupe_check_and_add (share_dd (w_srv w)) (hash_header hd) = Some (False, sdd)"
    and "judge c job (hash_header hd) = Ok v" and "v_is_block v \<or> v_meets v"
    and "accept_share ck rid job cb hd (hash_header hd) v (w\<lparr>w_conn := c, w_srv := (w_srv w)\<lparr>share_dd := sdd\<rparr>\<rparr>) = Ok (k, w')"
proof (cases "credited w' = credited w")
  case True
  then show thesis by (rule that(1))
next
  case False
  note q = quiet stay_def
  from assms False obtain ver where ver: "submit_version (w_conn w) job params = Some ver"
    by (auto simp: submit_with_job_def q split: option.splits)
  obtain dup dd where d: "dedupe_check_and_add (c_dedupe (w_conn w)) (Some (job_id job)) en2 ntime nonce ver = (dup, dd)" by fastforce
  from assms False have dup: "\<not> dup" by (auto simp: submit_with_job_def ver d Let_def reject_share_Ok quiet split: if_splits)
  from assms False dup obtain nt nc where n: "parse_u32_hex ntime = Some nt" "parse_u32_hex nonce = Some nc"
    by (auto simp: submit_with_job_def ver d Let_def q split: option.splits)
  from assms False dup have rng: "ntime_in_range job nt"
    by (auto simp: submit_with_job_def ver d n Let_def reject_share_Ok quiet split: if_splits)
  from assms False dup rng obtain en2b where e: "hex_to_bytes_alloc en2 = Some en2b"
    by (auto simp: submit_with_job_def ver d n Let_def q split: option.splits)
  from assms False dup rng have l: "length en2b = en2_size job"
    by (auto simp: submit_with_job_def ver d n e Let_def reject_share_Ok quiet split: if_splits)
  let ?c0 = "(w_conn w)\<lparr>c_dedupe := dd\<rparr>"
  from assms dup rng l obtain ok c where r: "conn_render_coinbase (w_srv w) ?c0 job = Ok (ok, c)"
    by (auto simp: submit_with_job_def ver d n e Let_def bindR_Ok_iff)
  from assms False dup rng l have ok: ok
    by (auto simp: submit_with_job_def ver d n e r Let_def reject_share_Ok quiet split: if_splits)
  define cb where "cb = submit_coinbase c en2b"
  define hd where "hd = submit_header ver job cb nt nc"
  let ?w = "\<lambda>sdd. w\<lparr>w_conn := c, w_srv := (w_srv w)\<lparr>share_dd := sdd\<rparr>\<rparr>"
  from assms dup rng l ok obtain dup2 sdd where sd: "share_dedupe_check_and_add (share_dd (w_srv w)) (hash_header hd) = Some (dup2, sdd)"
    by (auto simp: submit_with_job_def ver d n e r Let_def cb_def hd_def split: option.splits)
  from assms False dup rng l ok have dup2: "\<not> dup2"
    by (auto simp: submit_with_job_def ver d n e r sd [unfolded hd_def cb_def] Let_def reject_share_Ok quiet split: if_splits)
  from assms False dup rng l ok dup2 obtain v where "judge c job (hash_header hd) = Ok v" and "v_is_block v \<or> v_meets v"
    and "accept_share ck rid job cb hd (hash_header hd) v (?w sdd) = Ok (k, w')"
    by (auto simp: submit_with_job_def ver d n e r sd [unfolded hd_def cb_def] Let_def reject_share_Ok quiet bindR_Ok_iff
        cb_def hd_def split: if_splits)
  with ver n rng e l r ok sd dup2 show thesis by (intro that(2)) (auto simp: cb_def hd_def)
qed

lemma vardiff_log_indep: "w_conn (vardiff_maybe_retarget now w) =
    w_conn (vardiff_maybe_retarget now \<lparr>w_srv = w_srv w, w_conn = w_conn w, w_out = [], w_log = []\<rparr>)"
  by (simp add: vardiff_maybe_retarget_def Let_def send_set_difficulty_def emit_def)

text \<open>The connection after vardiff has seen it at \<open>now\<close>.\<close>

definition retargeted :: "stratum_server \<Rightarrow> u64 \<Rightarrow> stratum_conn \<Rightarrow> stratum_conn" where
  "retargeted s now c = w_conn (vardiff_maybe_retarget now \<lparr>w_srv = s, w_conn = c, w_out = [], w_log = []\<rparr>)"

lemma report_conn: "report_fractions job h w = Ok w' \<Longrightarrow> w_conn w' = w_conn w"
  "report_block ts job h a why w = Ok w' \<Longrightarrow> w_conn w' = w_conn w"
  by (auto simp: report_fractions_def report_block_def bindR_Ok_iff Let_def split: if_splits res.splits prod.splits)

lemma accept_share_conn:
  assumes "accept_share ck rid job cb header hash v w = Ok (k, w')"
  shows "w_conn w' = retargeted (w_srv w) (ck_now2 ck) (count_share job hash (assigned_difficulty (w_conn w) job) (w_conn w)) \<and> k"
proof -
  obtain a why w1 where b: "(if v_is_block v then submit_block job cb header w else (True, [], w)) = (a, why, w1)"
    by (cases "if v_is_block v then submit_block job cb header w else (True, [], w)") auto
  have w1: "w_conn w1 = w_conn w" "w_srv w1 = w_srv w"
    using b submit_block_quiet [of job cb header w a why w1] by (auto split: if_splits)
  have "w_conn w' = w_conn (vardiff_maybe_retarget (ck_now2 ck)
      ((if on_share_set (cfg (w_srv w1)) then w1\<lparr>w_log := w_log w1 @ [EvShare (worker_name (w_conn w1)) (payout_address (w_conn w1)) (ck_now ck) (v_share_diff v) (v_is_block v) (bytes_to_hex hash)]\<rparr> else w1)
        \<lparr>w_conn := count_share job hash (assigned_difficulty (w_conn w) job) (w_conn w1)\<rparr>)) \<and> k"
    using assms unfolding accept_share_def Let_def b
    by (auto simp: bindR_Ok_iff stay_def emit_response_def emit_def dest!: report_conn split: if_splits)
  then show ?thesis
    by (subst (asm) vardiff_log_indep) (simp add: w1 retargeted_def cong: if_cong)
qed

lemma retargeted_eq: "retargeted s now c =
    (if \<not> vardiff_enabled (cfg s) then c else if vd_window_start_ms c = 0 then vd_reset now c
     else if vd_keep_open (cfg s) c now then c
     else if d_eq (vd_proposal s c now) (difficulty c) then vd_reset now c
     else (vd_reset now c)\<lparr>difficulty := vd_proposal s c now\<rparr>)"
  by (simp add: retargeted_def vardiff_maybe_retarget_def Let_def send_set_difficulty_def emit_def)

lemma retargeted_cases:
  obtains (same) "retargeted s now c = c" | (reset) "retargeted s now c = vd_reset now c"
  | (moved) "retargeted s now c = (vd_reset now c)\<lparr>difficulty := vd_proposal s c now\<rparr>"
  by (metis retargeted_eq)

lemma retargeted_keeps [simp]:
  "extranonce1 (retargeted s now c) = extranonce1 c" "c_cb (retargeted s now c) = c_cb c" "cb_for_job_id (retargeted s now c) = cb_for_job_id c"
  "subscribed (retargeted s now c) = subscribed c" "authorized (retargeted s now c) = authorized c" "version_mask (retargeted s now c) = version_mask c"
  "worker_name (retargeted s now c) = worker_name c" "payout_address (retargeted s now c) = payout_address c"
  "pol_min_diff (retargeted s now c) = pol_min_diff c" "pol_vardiff_max (retargeted s now c) = pol_vardiff_max c"
  "pol_initial_diff (retargeted s now c) = pol_initial_diff c" "job_diffs (retargeted s now c) = job_diffs c" "job_diffs_head (retargeted s now c) = job_diffs_head c"
  by (cases s now c rule: retargeted_cases; simp add: vd_reset_def)+

lemma count_share_keeps [simp]:
  "extranonce1 (count_share j h a c) = extranonce1 c" "c_cb (count_share j h a c) = c_cb c" "cb_for_job_id (count_share j h a c) = cb_for_job_id c"
  "subscribed (count_share j h a c) = subscribed c" "authorized (count_share j h a c) = authorized c" "version_mask (count_share j h a c) = version_mask c"
  "worker_name (count_share j h a c) = worker_name c" "payout_address (count_share j h a c) = payout_address c"
  "pol_min_diff (count_share j h a c) = pol_min_diff c" "pol_vardiff_max (count_share j h a c) = pol_vardiff_max c"
  "pol_initial_diff (count_share j h a c) = pol_initial_diff c" "job_diffs (count_share j h a c) = job_diffs c" "job_diffs_head (count_share j h a c) = job_diffs_head c"
  "difficulty (count_share j h a c) = difficulty c"
  by (simp_all add: count_share_def Let_def)

lemma render_True:
  assumes "conn_render_coinbase s c job = Ok (True, c')"
  obtains parts where "c' = c\<lparr>c_cb := parts, cb_for_job_id := cb_for_job_id c'\<rparr>" and "authorized c" and "payout_address c \<noteq> []"
    and "cb_for_job_id c' = job_id job \<or> cb_for_job_id c' = c_copy 32 (job_id job)"
  using assms that by (cases c) (auto simp: conn_render_coinbase_def split: if_splits res.splits)

section \<open>Block serialisation\<close>

lemma le_bytes_narrow: "le_bytes 4 (ucast n :: u32) = map (\<lambda>i. ucast (drop_bit (8 * i) (n :: u64))) [0..<4]"
proof -
  have "(ucast (drop_bit (8 * i) (ucast n :: u32)) :: byte) = ucast (drop_bit (8 * i) n)" if "i < 4" for i
    using that by (intro bit_word_eqI) (auto simp: bit_simps)
  then show ?thesis by (simp add: le_bytes_map)
qed

lemma varint_append_bytes: "varint_append buf n = buf @ varint_bytes n"
proof -
  have "[ucast n, ucast (drop_bit 8 n)] = (le_bytes 2 n :: byte list)" by (simp add: numeral_2_eq_2)
  then show ?thesis
    unfolding varint_append_def varint_bytes_cases le_bytes_narrow le_bytes_map [of 8 n] by simp
qed

lemma append_txs_eq: "append_txs block hs = map_option (\<lambda>txs. block @ concat txs) (those (map (\<lambda>h. hex_to_bytes_alloc (Some h)) hs))"
  by (induction hs arbitrary: block) (auto split: option.splits simp: option.map_comp comp_def)

lemma witness_coinbase:
  assumes "tm_witness t = None" and "coinbase_has_witness j"
  shows "block_coinbase j (ser_tx t) = ser_tx (t\<lparr>tm_witness := Some [replicate 32 0]\<rparr>)"
proof -
  define body where "body = varint_bytes 1 @ tm_prevout t @ varint_bytes (word_of_nat (length (tm_ss t))) @ tm_ss t @
     le_bytes 4 (tm_sequence t) @ varint_bytes (word_of_nat (length (tm_outs t))) @ concat (map ser_out (tm_outs t))"
  have s: "ser_tx t = le_bytes 4 (tm_version t) @ body @ le_bytes 4 (tm_locktime t)"
    using assms(1) by (simp add: ser_tx_def ser_head_def ser_tail_def body_def)
  have v: "varint_bytes 1 = [0x01]" "varint_bytes 32 = [0x20]" by (simp_all add: varint_bytes_cases)
  have "block_coinbase j (ser_tx t) = le_bytes 4 (tm_version t) @ [0x00, 0x01] @ body @ ([0x01, 0x20] @ replicate 32 0) @ le_bytes 4 (tm_locktime t)"
    using assms(2) by (simp add: block_coinbase_def s)
  also have "\<dots> = ser_tx (t\<lparr>tm_witness := Some [replicate 32 0]\<rparr>)"
    by (simp add: ser_tx_def ser_head_def ser_tail_def ser_item_def body_def v)
  finally show ?thesis .
qed

text \<open>
  C17: the block handed to the node is the header, the number of transactions, the coinbase that was
  hashed into the merkle root (in segwit form, with the reserved witness value, when the node's coinbase
  had a witness) and the template's transactions in order; it is not built when one of them is not hex.
\<close>

theorem block_assembled:
  assumes "tm_witness t = None"
  shows "assemble_block_hex j (ser_tx t) header =
    (case those (map (\<lambda>h. hex_to_bytes_alloc (Some h)) (tx_hex_list j)) of
       None \<Rightarrow> None
     | Some txs \<Rightarrow> Some (bytes_to_hex (header @ varint_bytes (word_of_nat (length (tx_hex_list j) + 1)) @
         ser_tx (t\<lparr>tm_witness := if coinbase_has_witness j then Some [replicate 32 0] else None\<rparr>) @ concat txs)))"
proof -
  have "t\<lparr>tm_witness := None\<rparr> = t" using assms by (cases t) simp
  then have "block_coinbase j (ser_tx t) = ser_tx (t\<lparr>tm_witness := if coinbase_has_witness j then Some [replicate 32 0] else None\<rparr>)"
    using witness_coinbase [OF assms, of j] by (cases "coinbase_has_witness j") (simp_all, simp add: block_coinbase_def)
  then show ?thesis
    by (auto simp: assemble_block_hex_def append_txs_eq varint_append_bytes split: option.splits)
qed

definition example_tx :: tmpl where
  "example_tx = \<lparr>tm_version = 2, tm_prevout = replicate 36 0, tm_ss = [1, 2], tm_sequence = 0, tm_outs = [(50, [0x51])], tm_witness = None, tm_locktime = 0\<rparr>"

definition example_job :: stratum_job where
  "example_job = (stratum_job_new None 1 None 50 None 4 8 [] 0 0 None 0 [Some ''aabb'', Some ''cc''] (Some ''00'') True 0)"

theorem block_assembled_witness:
  "\<exists>hex. assemble_block_hex example_job (ser_tx example_tx) (replicate 80 7) = Some hex \<and> length hex = 2 * (80 + 1 + 99 + 3)"
proof -
  have h: "hex_to_bytes_alloc (Some ''aabb'') = Some [0xaa, 0xbb]" "hex_to_bytes_alloc (Some ''cc'') = Some [0xcc]" by code_simp+
  have j: "tx_hex_list example_job = [''aabb'', ''cc'']" "coinbase_has_witness example_job" by (simp_all add: example_job_def stratum_job_new_def Let_def)
  have "tm_witness example_tx = None" by (simp add: example_tx_def)
  from block_assembled [OF this, of example_job "replicate 80 7"] show ?thesis
    by (simp add: h j example_tx_def ser_tx_def ser_head_def ser_tail_def ser_item_def ser_out_def length_varint_bytes)
qed

section \<open>The submit rate\<close>

text \<open>The answers over a sequence of submissions at the given times: accepted or not.\<close>

fun rate_run :: "stratum_server \<Rightarrow> stratum_conn \<Rightarrow> u64 list \<Rightarrow> bool list" where
  "rate_run s c [] = []"
| "rate_run s c (t # ts) = (let (over, c') = submit_rate_exceeded s c t in (\<not> over) # rate_run s c' ts)"

definition accepted :: "bool list \<Rightarrow> nat" where
  "accepted bs = length (filter id bs)"

lemma limit_nat: "0 < L \<Longrightarrow> L < 2 ^ 32 \<Longrightarrow> unat (word_of_int L :: u32) = nat L"
proof -
  assume "0 < L" "L < 2 ^ 32"
  then have "uint (word_of_int L :: u32) = L" by (simp add: uint_word_of_int_eq take_bit_int_eq_self)
  then show ?thesis by (metis nat_uint_eq)
qed

text \<open>Within one window at most what is left of the budget is accepted; as long as some is left, everything is.\<close>

lemma rate_one_window:
  assumes "max_submits_per_sec (cfg s) = L" and "0 < L" and "L < 2 ^ 32" and "\<forall>t \<in> set ts. t - rl_window_start_ms c < 1000"
  shows "accepted (rate_run s c ts) \<le> nat L - unat (rl_window_count c)"
  using assms(4)
proof (induction ts arbitrary: c)
  case (Cons t ts)
  have u: "rl_window_count c < word_of_int L \<longleftrightarrow> unat (rl_window_count c) < nat L"
    using limit_nat [OF assms(2,3)] by (simp add: word_less_nat_alt)
  have "unat (rl_window_count c + 1) = Suc (unat (rl_window_count c))" if "unat (rl_window_count c) < nat L"
    using that assms(3) by (simp add: unat_word_ariths)
  then show ?case using Cons.IH [of "c\<lparr>rl_window_count := rl_window_count c + 1\<rparr>"] 
      Cons.IH [of "c\<lparr>rl_limited := rl_limited c + 1, rl_limited_total := rl_limited_total c + 1\<rparr>"] Cons.prems
    by (auto simp: submit_rate_exceeded_def assms(1,2) Let_def not_le u accepted_def)
qed (simp add: accepted_def)

lemma rate_within_budget:
  assumes "max_submits_per_sec (cfg s) = L" and "0 < L" and "L < 2 ^ 32" and "unat (rl_window_count c) + length ts \<le> nat L"
  shows "\<forall>b \<in> set (rate_run s c ts). b"
  using assms(4)
proof (induction ts arbitrary: c)
  case (Cons t ts)
  define c1 where "c1 = (if t - rl_window_start_ms c \<ge> 1000 then c\<lparr>rl_window_start_ms := t, rl_window_count := 0\<rparr> else c)"
  have n: "unat (rl_window_count c1) < nat L" "unat (rl_window_count c1) + Suc (length ts) \<le> nat L" using Cons.prems by (auto simp: c1_def)
  have "unat (rl_window_count c1 + 1) = Suc (unat (rl_window_count c1))"
    using n(1) assms(3) by (simp add: unat_word_ariths)
  moreover have "rl_window_count c1 < word_of_int L" using n(1) limit_nat [OF assms(2,3)] by (simp add: word_less_nat_alt)
  then have "submit_rate_exceeded s c t = (False, c1\<lparr>rl_window_count := rl_window_count c1 + 1\<rparr>)"
    using assms(1,2) by (simp add: submit_rate_exceeded_def Let_def c1_def)
  ultimately show ?case using Cons.IH [of "c1\<lparr>rl_window_count := rl_window_count c1 + 1\<rparr>"] n(2) by simp
qed simp

lemma accepted_Cons: "accepted (b # bs) = (if b then Suc (accepted bs) else accepted bs)"
  by (simp add: accepted_def)

lemma rate_two_windows:
  assumes "max_submits_per_sec (cfg s) = L" and "0 < L" and "L < 2 ^ 32" and "sorted_wrt (\<lambda>t t'. t' - t < (1000 :: u64)) ts"
  shows "accepted (rate_run s c ts) \<le> nat L - unat (rl_window_count c) + nat L"
  using assms(4)
proof (induction ts arbitrary: c)
  case (Cons t ts)
  show ?case
  proof (cases "t - rl_window_start_ms c < 1000")
    case True
    define n where "n = unat (rl_window_count c)"
    have u: "rl_window_count c < word_of_int L \<longleftrightarrow> n < nat L"
      using limit_nat [OF assms(2,3)] by (simp add: word_less_nat_alt n_def)
    show ?thesis
    proof (cases "n < nat L")
      case t: True
      have "unat (rl_window_count c + 1) = Suc n" using t assms(3) by (simp add: unat_word_ariths n_def)
      then have "accepted (rate_run s (c\<lparr>rl_window_count := rl_window_count c + 1\<rparr>) ts) \<le> nat L - Suc n + nat L"
        using Cons.IH [of "c\<lparr>rl_window_count := rl_window_count c + 1\<rparr>"] Cons.prems by simp
      moreover have "submit_rate_exceeded s c t = (False, c\<lparr>rl_window_count := rl_window_count c + 1\<rparr>)"
        using True t u assms(1,2) by (auto simp: submit_rate_exceeded_def Let_def)
      ultimately show ?thesis using t by (simp add: accepted_Cons n_def [symmetric])
    next
      case False
      then show ?thesis using Cons.IH [of "c\<lparr>rl_limited := rl_limited c + 1, rl_limited_total := rl_limited_total c + 1\<rparr>"] Cons.prems True u assms(2)
        by (auto simp: submit_rate_exceeded_def assms(1) Let_def accepted_Cons n_def)
    qed
  next
    case False
    have f: "submit_rate_exceeded s c t = submit_rate_exceeded s (c\<lparr>rl_window_start_ms := t, rl_window_count := 0\<rparr>) t"
    proof -
      have "1000 \<le> t - rl_window_start_ms c" using False by (rule leI)
      then show ?thesis using assms(1,2) by (simp add: submit_rate_exceeded_def Let_def)
    qed
    have "accepted (rate_run s (c\<lparr>rl_window_start_ms := t, rl_window_count := 0\<rparr>) (t # ts)) \<le> nat L - unat (0 :: u32)"
      using rate_one_window [OF assms(1-3), of "t # ts" "c\<lparr>rl_window_start_ms := t, rl_window_count := 0\<rparr>"] Cons.prems by simp
    then show ?thesis by (simp add: f)
  qed
qed (simp add: accepted_def)

text \<open>
  The submit ceiling bounds a burst and starves nobody: within any second at most twice the
  configured number of submissions gets past it, and a connection whose last window has run out
  gets at least that number past it.
\<close>

theorem submit_rate_bounded:
  assumes "max_submits_per_sec (cfg s) = L" and "0 < L" and "L < 2 ^ 32"
  shows "(sorted_wrt (\<lambda>t t'. t' - t < 1000) ts \<longrightarrow> accepted (rate_run s c ts) \<le> 2 * nat L) \<and>
    (1000 \<le> t - rl_window_start_ms c \<and> Suc (length ts) \<le> nat L \<longrightarrow> accepted (rate_run s c (t # ts)) = Suc (length ts))"
proof (intro conjI impI)
  assume "sorted_wrt (\<lambda>t t'. t' - t < 1000) ts"
  from rate_two_windows [OF assms this, of c] show "accepted (rate_run s c ts) \<le> 2 * nat L" by simp
next
  assume a: "1000 \<le> t - rl_window_start_ms c \<and> Suc (length ts) \<le> nat L"
  let ?c = "c\<lparr>rl_window_start_ms := t, rl_window_count := 0\<rparr>"
  have len: "length (rate_run s c ts) = length ts" for c by (induction ts arbitrary: c) (auto simp: case_prod_beta)
  have all: "\<forall>b \<in> set bs. b \<Longrightarrow> accepted bs = length bs" for bs by (induction bs) (auto simp: accepted_def)
  have "rate_run s c (t # ts) = rate_run s ?c (t # ts)" using a assms(1,2) by (simp add: submit_rate_exceeded_def Let_def)
  moreover have "\<forall>b \<in> set (rate_run s ?c (t # ts)). b" using a by (intro rate_within_budget [OF assms]) simp
  then have "accepted (rate_run s ?c (t # ts)) = length (rate_run s ?c (t # ts))" by (rule all)
  moreover have "length (rate_run s ?c (t # ts)) = Suc (length ts)" using len by (simp add: case_prod_beta)
  ultimately show "accepted (rate_run s c (t # ts)) = Suc (length ts)" by simp
qed

section \<open>Properties\<close>

text \<open>
  C1: a submission credits nothing, or exactly one share: to this connection's worker and (non-empty)
  payout address, for a hash that no recent submission had, of the header the submission spells out
  over the coinbase this connection holds for the job, with the extranonce of the right size, the
  time in range and the version changed only where the negotiated mask allows. It is reported as a
  block exactly when the hash is at most the network target, and the difficulty credited is one the
  hash meets: the one recorded with the job, the current one, or the network's for a block.
\<close>

theorem submit_credit_sound:
  assumes "handle_submit ck rid params w = Ok (k, w')" and "on_share_set (cfg (w_srv w))"
    and "\<forall>j. find_job (w_srv w) (valuestring (arr_item params 1)) = Some j \<longrightarrow> length (network_target_be j) = 32"
  shows "credited w' = credited w \<or>
    (\<exists>cl d blk. authorized (w_conn w) \<and> payout_address (w_conn w) \<noteq> [] \<and> claim_of params w cl \<and>
       (let h = claim_hash (w_conn w') cl; target = be_val (network_target_be (cl_job cl));
            mask = (if version_mask (w_conn w) \<noteq> 0 then version_mask (w_conn w) else VERSION_ROLLING_MASK) in
        credited w' = credited w @
          [EvShare (worker_name (w_conn w)) (payout_address (w_conn w)) (ck_now ck) d blk (bytes_to_hex h)] \<and>
        extranonce1 (w_conn w') = extranonce1 (w_conn w) \<and>
        share_dedupe_check_and_add (share_dd (w_srv w)) h = Some (False, share_dd (w_srv w')) \<and>
        cl_version cl AND NOT mask = job_version (cl_job cl) AND NOT mask \<and>
        (blk \<longleftrightarrow> be_val h \<le> target) \<and>
        (be_val h < target_of d \<or> (blk \<and> d = target_to_diff (network_target_be (cl_job cl))))))"
proof (cases "credited w' = credited w")
  case False
  obtain over c1 where r: "submit_rate_exceeded (w_srv w) (w_conn w) (ck_mono ck) = (over, c1)" by fastforce
  obtain st n l lt where c1: "c1 = (w_conn w)\<lparr>rl_window_start_ms := st, rl_window_count := n, rl_limited := l, rl_limited_total := lt\<rparr>"
    using rate_keeps [OF r] by blast
  let ?w1 = "w\<lparr>w_conn := c1\<rparr>"
  from assms(1) False obtain job where auth: "authorized (w_conn w)"
    and job: "find_job (w_srv w) (valuestring (arr_item params 1)) = Some job"
    and sub: "submit_with_job ck rid params job (valuestring (arr_item params 2)) (valuestring (arr_item params 3))
        (valuestring (arr_item params 4)) ?w1 = Ok (k, w')"
    by (auto simp: handle_submit_def r Let_def stay_def quiet reject_share_Ok split: if_splits option.splits)
  from sub show ?thesis
  proof (cases rule: submit_with_job_cases)
    case 1
    with False show ?thesis by (simp add: quiet)
  next
    case (2 ver dd nt nc en2b c sdd v cb hd)
    from 2(7) obtain parts where c: "c = (c1\<lparr>c_dedupe := dd\<rparr>)\<lparr>c_cb := parts, cb_for_job_id := cb_for_job_id c\<rparr>" and pa: "payout_address c1 \<noteq> []"
      by (rule render_True) auto
    have keep: "worker_name c = worker_name (w_conn w)" "payout_address c = payout_address (w_conn w)" "extranonce1 c = extranonce1 (w_conn w)"
      by (subst c, simp add: c1)+
    define cl where "cl = \<lparr>cl_job = job, cl_version = ver, cl_en2 = en2b, cl_ntime = nt, cl_nonce = nc\<rparr>"
    have w': "w_conn w' = retargeted ((w_srv w)\<lparr>share_dd := sdd\<rparr>) (ck_now2 ck) (count_share job (hash_header hd) (assigned_difficulty c job) c)"
      using accept_share_conn [OF 2(13)] by simp
    have h: "claim_hash (w_conn w') cl = hash_header hd"
      by (simp add: claim_hash_def cl_def w' submit_coinbase_def 2(8,9))
    have ver: "submit_version (w_conn w) job params = Some ver" using 2(1) submit_version_cong [of c1 "w_conn w"] by (simp add: c1)
    have "claim_of params w cl"
      using 2(2-6) job ver by (simp add: claim_of_def cl_def)
    moreover have "length (network_target_be job) = 32" using assms(3) job by blast
    moreover have "credited w' = credited w @ [EvShare (worker_name (w_conn w)) (payout_address (w_conn w)) (ck_now ck) (v_share_diff v) (v_is_block v) (bytes_to_hex (hash_header hd))]"
        "share_dd (w_srv w') = sdd"
      using accept_share_credits [OF 2(13)] assms(2) by (auto simp: quiet keep)
    ultimately show ?thesis
      using auth pa h 2(10,12) submit_version_outside [OF ver] judge_sound [OF 2(11)]
      by (intro disjI2 exI [of _ cl] exI [of _ "v_share_diff v"] exI [of _ "v_is_block v"])
        (auto simp: c1 Let_def cl_def w' keep)
  qed
qed simp

end
