(* ===== verification/Framing.thy ===== *)
theory Framing
  imports Submit
begin

text \<open>
  The receive loop of a connection (\<open>conn_thread\<close> of \<^verbatim>\<open>src/stratum.c\<close>): bytes arrive in pieces of any
  size, lines are cut out of a fixed buffer and handed to the message handler one by one. The theory
  shows that the pieces do not matter: the loop does what it would do with the whole stream at once,
  and its buffer neither overflows nor fills up.
\<close>

section \<open>The loop\<close>

definition newline :: char where
  "newline = CHR 0x0A"

text \<open>A handler takes a line and a state and says whether the connection stays open.\<close>

type_synonym 'w handler = "string \<Rightarrow> 'w \<Rightarrow> (bool \<times> 'w) res"

text \<open>The inner loop over the buffer: \<open>None\<close> is \<open>goto done\<close>. The line is a C string, so a handler sees it
  up to its first NUL.\<close>

function drain_lines :: "'w handler \<Rightarrow> string \<Rightarrow> 'w \<Rightarrow> (string option \<times> 'w) res" where
  "drain_lines h buf w =
     (if newline \<notin> set buf then
        if length buf \<ge> MAX_LINE_BYTES then Ok (None, w) else Ok (Some buf, w)
      else
        let line = takeWhile (\<lambda>ch. ch \<noteq> newline) buf in
        bindR (h (takeWhile (\<lambda>ch. ch \<noteq> CHR 0x00) line) w) (\<lambda>(keep, w).
          if \<not> keep then Ok (None, w) else drain_lines h (drop (length line + 1) buf) w))"
  by pat_completeness auto
termination
proof (relation "measure (\<lambda>(h, buf, w). length buf)", simp)
  fix h :: "'a handler" and buf :: string and w line w1
  assume "\<not> newline \<notin> set buf" and "line = takeWhile (\<lambda>ch. ch \<noteq> newline) buf"
  then show "((h, drop (length line + 1) buf, w1), h, buf, w) \<in> measure (\<lambda>(h, buf, w). length buf)"
    by (cases buf) auto
qed

declare drain_lines.simps [simp del]

text \<open>
  The outer loop over a socket that holds the bytes \<open>s\<close>: the \<open>i\<close>-th \<open>recv\<close> returns at most \<open>ns ! i\<close> bytes and
  at most what the buffer has room for. The result is the buffer (or the hang-up), the bytes not yet
  received and the state, when the last \<open>recv\<close> of \<open>ns\<close> has been served.
\<close>

definition recv_room :: "string \<Rightarrow> nat" where
  "recv_room buf = MAX_LINE_BYTES - length buf"

fun conn_loop :: "'w handler \<Rightarrow> string \<Rightarrow> string \<Rightarrow> nat list \<Rightarrow> 'w \<Rightarrow> (string option \<times> string \<times> 'w) res" where
  "conn_loop h buf s [] w = Ok (Some buf, s, w)"
| "conn_loop h buf s (n # ns) w =
     (let k = min n (recv_room buf) in
      bindR (drain_lines h (buf @ take k s) w) (\<lambda>(r, w).
        case r of None \<Rightarrow> Ok (None, drop k s, w) | Some b \<Rightarrow> conn_loop h b (drop k s) ns w))"

section \<open>The stream seen at once\<close>

text \<open>Lines up to the last newline are handled; a line that cannot fit the buffer hangs up.\<close>

function stream_lines :: "'w handler \<Rightarrow> string \<Rightarrow> 'w \<Rightarrow> (string option \<times> 'w) res" where
  "stream_lines h s w =
     (let line = takeWhile (\<lambda>ch. ch \<noteq> newline) s in
      if length line \<ge> MAX_LINE_BYTES then Ok (None, w)
      else if newline \<notin> set s then Ok (Some s, w)
      else bindR (h (takeWhile (\<lambda>ch. ch \<noteq> CHR 0x00) line) w) (\<lambda>(keep, w).
             if \<not> keep then Ok (None, w) else stream_lines h (drop (length line + 1) s) w))"
  by pat_completeness auto
termination
proof (relation "measure (\<lambda>(h, s, w). length s)", simp)
  fix h :: "'a handler" and s :: string and w line w1
  assume "\<not> newline \<notin> set s" and "line = takeWhile (\<lambda>ch. ch \<noteq> newline) s"
  then show "((h, drop (length line + 1) s, w1), h, s, w) \<in> measure (\<lambda>(h, s, w). length s)"
    by (cases s) auto
qed

declare stream_lines.simps [simp del]

section \<open>Pieces do not matter\<close>

lemma first_line: "newline \<notin> set line \<Longrightarrow> takeWhile (\<lambda>ch. ch \<noteq> newline) (line @ newline # rest) = line"
  by (induction line) auto

lemma no_line: "newline \<notin> set buf \<Longrightarrow> takeWhile (\<lambda>ch. ch \<noteq> newline) buf = buf"
  by (induction buf) auto

lemma first_long: "newline \<notin> set buf \<Longrightarrow> length buf \<le> length (takeWhile (\<lambda>ch. ch \<noteq> newline) (buf @ rest))"
  by (induction buf) auto

lemma drain_none: "newline \<notin> set buf \<Longrightarrow>
    drain_lines h buf w = Ok (if length buf \<ge> MAX_LINE_BYTES then None else Some buf, w)"
  by (subst drain_lines.simps) simp

lemma drain_line: "newline \<notin> set line \<Longrightarrow> drain_lines h (line @ newline # rest) w =
    bindR (h (takeWhile (\<lambda>ch. ch \<noteq> CHR 0x00) line) w) (\<lambda>(keep, w). if \<not> keep then Ok (None, w) else drain_lines h rest w)"
  by (subst drain_lines.simps) (simp add: first_line cong: if_cong)

lemma stream_none: "newline \<notin> set s \<Longrightarrow>
    stream_lines h s w = Ok (if length s \<ge> MAX_LINE_BYTES then None else Some s, w)"
  by (subst stream_lines.simps) (simp add: no_line)

lemma stream_line: "newline \<notin> set line \<Longrightarrow> length line < MAX_LINE_BYTES \<Longrightarrow> stream_lines h (line @ newline # rest) w =
    bindR (h (takeWhile (\<lambda>ch. ch \<noteq> CHR 0x00) line) w) (\<lambda>(keep, w). if \<not> keep then Ok (None, w) else stream_lines h rest w)"
  by (subst stream_lines.simps) (simp add: first_line cong: if_cong)

lemma stream_long: "newline \<notin> set buf \<Longrightarrow> length buf \<ge> MAX_LINE_BYTES \<Longrightarrow> stream_lines h (buf @ rest) w = Ok (None, w)"
  using first_long [of buf rest] by (subst stream_lines.simps) simp

text \<open>Induction over the lines of a buffer.\<close>

lemma lines_induct [case_names rest line]:
  assumes "\<And>buf. newline \<notin> set buf \<Longrightarrow> P buf"
    and "\<And>line rest. newline \<notin> set line \<Longrightarrow> P rest \<Longrightarrow> P (line @ newline # rest)"
  shows "P buf"
proof (induction buf rule: length_induct)
  case (1 buf)
  show ?case
  proof (cases "newline \<in> set buf")
    case True
    then obtain line rest where b: "buf = line @ newline # rest" "newline \<notin> set line" by (meson split_list_first)
    with 1 show ?thesis by (auto intro: assms(2))
  qed (rule assms(1))
qed

lemma drain_buffer_bound: "drain_lines h buf w = Ok (Some b, w') \<Longrightarrow> length b < MAX_LINE_BYTES \<and> newline \<notin> set b"
proof (induction buf arbitrary: w rule: lines_induct)
  case (line line rest)
  then show ?case by (auto simp: drain_line bindR_Ok_iff split: if_splits)
qed (auto simp: drain_none split: if_splits)

lemma drain_prefix:
  assumes "length buf \<le> MAX_LINE_BYTES"
  shows "stream_lines h (buf @ rest) w =
    bindR (drain_lines h buf w) (\<lambda>(r, w'). case r of None \<Rightarrow> Ok (None, w') | Some b \<Rightarrow> stream_lines h (b @ rest) w')"
  using assms
proof (induction buf arbitrary: w rule: lines_induct)
  case (rest buf)
  then show ?case by (simp add: drain_none stream_long)
next
  case (line line r)
  then show ?case
    by (cases "h (takeWhile (\<lambda>ch. ch \<noteq> CHR 0x00) line) w")
      (auto simp: drain_line stream_line)
qed

lemma conn_loop_stream:
  assumes "conn_loop h buf s ns w = Ok (r, s', w')" and "length buf < MAX_LINE_BYTES \<and> newline \<notin> set buf"
  shows "\<exists>got. s = got @ s' \<and> stream_lines h (buf @ got) w = Ok (r, w') \<and> (\<forall>b. r = Some b \<longrightarrow> length b < MAX_LINE_BYTES \<and> newline \<notin> set b)"
  using assms
proof (induction ns arbitrary: buf s w)
  case (Cons n ns)
  define k where "k = min n (recv_room buf)"
  obtain r1 w1 where d: "drain_lines h (buf @ take k s) w = Ok (r1, w1)"
    and rest: "(case r1 of None \<Rightarrow> Ok (None, drop k s, w1) | Some b \<Rightarrow> conn_loop h b (drop k s) ns w1) = Ok (r, s', w')"
    using Cons.prems(1) by (auto simp: k_def [symmetric] Let_def bindR_Ok_iff)
  have room: "length (buf @ take k s) \<le> MAX_LINE_BYTES" using Cons.prems(2) by (auto simp: k_def recv_room_def min_def)
  show ?case
  proof (cases r1)
    case None
    then show ?thesis using rest d drain_prefix [OF room, of h "[]" w] by (intro exI [of _ "take k s"]) auto
  next
    case (Some b)
    obtain got where "drop k s = got @ s'" "stream_lines h (b @ got) w1 = Ok (r, w')" "\<forall>b. r = Some b \<longrightarrow> length b < MAX_LINE_BYTES \<and> newline \<notin> set b"
      using Cons.IH [of b "drop k s" w1] rest d Some drain_buffer_bound [of h "buf @ take k s" w b w1] by auto
    then show ?thesis using drain_prefix [OF room, of h got w] d Some
      by (intro exI [of _ "take k s @ got"]) (auto, metis append.assoc append_take_drop_id)
  qed
qed (auto simp: stream_none)

lemma stream_hangup_extends: "stream_lines h s w = Ok (None, w') \<Longrightarrow> stream_lines h (s @ tl_bytes) w = Ok (None, w')"
proof (induction s arbitrary: w rule: lines_induct)
  case (rest s)
  then show ?case by (auto simp: stream_none stream_long split: if_splits)
next
  case (line line rest)
  then show ?case
    by (cases "length line < MAX_LINE_BYTES") (auto simp: stream_line stream_long bindR_Ok_iff split: if_splits)
qed

section \<open>Properties\<close>

text \<open>
  C23: however the network cuts the byte stream, the connection does what it would do with the stream at
  once: a loop that has hung up, or has received everything, has handed the handler exactly the lines
  of the stream in order, each once, and is left with the same partial line and the same state. A
  connection that is still open always has room for at least one more byte, so \<open>recv\<close> is never called
  with length 0 and the buffer is never written past its end.
\<close>

theorem framing_independent:
  assumes "conn_loop h [] s ns w = Ok (r, unread, w')"
  shows "(r = None \<or> unread = [] \<longrightarrow> stream_lines h s w = Ok (r, w')) \<and>
    (\<forall>buf. r = Some buf \<longrightarrow> 0 < recv_room buf \<and> newline \<notin> set buf)"
proof -
  have "length ([] :: string) < MAX_LINE_BYTES \<and> newline \<notin> set []" by (simp add: MAX_LINE_BYTES_def)
  from conn_loop_stream [OF assms this] obtain got where "s = got @ unread" "stream_lines h got w = Ok (r, w')"
    "\<forall>b. r = Some b \<longrightarrow> length b < MAX_LINE_BYTES \<and> newline \<notin> set b" by auto
  then show ?thesis using stream_hangup_extends [of h got w w' unread] by (auto simp: recv_room_def)
qed

theorem framing_independent_witness:
  "conn_loop (\<lambda>l w. Ok (True, w @ [l])) [] ''ab\<newline>c'' [1, 3, 1] [] = Ok (Some ''c'', [], [''ab'']) \<and>
   stream_lines (\<lambda>l w. Ok (True, w @ [l])) ''ab\<newline>c'' [] = Ok (Some ''c'', [''ab''])"
proof -
  have r: "recv_room [] = 16384" "recv_room ''a'' = 16383" "recv_room ''c'' = 16383" by (simp_all add: recv_room_def MAX_LINE_BYTES_def)
  have d: "drain_lines (\<lambda>l w. Ok (True, w @ [l])) ''a'' [] = Ok (Some ''a'', [])"
    "drain_lines (\<lambda>l w. Ok (True, w @ [l])) ''ab\<newline>c'' [] = Ok (Some ''c'', [''ab''])"
    "drain_lines (\<lambda>l w. Ok (True, w @ [l])) ''c'' [''ab''] = Ok (Some ''c'', [''ab''])"
    by (simp_all add: drain_lines.simps newline_def MAX_LINE_BYTES_def)
  have c: "conn_loop (\<lambda>l w. Ok (True, w @ [l])) [] ''ab\<newline>c'' [1, 3, 1] [] = Ok (Some ''c'', [], [''ab''])"
    by (simp add: r d)
  from framing_independent [OF c] c show ?thesis by simp
qed

end
