(* ===== verification/Session.thy ===== *)
theory Session
  imports Framing
begin

text \<open>
  The stratum server as a whole (\<^verbatim>\<open>src/stratum.c\<close>): start-up, accepting and dropping connections, and a
  step relation over the server, its live connections and what it reports, in which connections
  send arbitrary lines in any order and the pool swaps jobs in between. Whole messages are the steps.
  The theory shows invariants of every reachable state: who can be credited, which difficulty a
  connection has, that no two connections share a search space and that no hash is credited twice.
\<close>

section \<open>Start-up, accept, teardown\<close>

definition STRATUM_MAX_LISTENERS :: nat where
  "STRATUM_MAX_LISTENERS = 8"

definition start_cfg :: "stratum_cfg \<Rightarrow> stratum_cfg" where
  "start_cfg g =
     (let g = (if max_conns g \<le> 0 then g\<lparr>max_conns := 500\<rparr> else g);
          g = (if d_le (cfg_initial_diff g) (Fin 0) then g\<lparr>cfg_initial_diff := Fin 1\<rparr> else g);
          g = (if idle_timeout_sec g = 0 then g\<lparr>idle_timeout_sec := 600\<rparr>
               else if idle_timeout_sec g < 0 then g\<lparr>idle_timeout_sec := 0\<rparr> else g)
      in if idle_timeout_authorized_sec g = 0 then g\<lparr>idle_timeout_authorized_sec := 7200\<rparr> else g)"

text \<open>Listener 0 is the configured port on the server-wide defaults.\<close>

definition start_listeners :: "stratum_cfg \<Rightarrow> stratum_listener list" where
  "start_listeners g =
     take STRATUM_MAX_LISTENERS
       (\<lparr>ls_port = bind_port g, ls_initial_diff = Fin 0, ls_vardiff_min = Fin 0, ls_vardiff_max = Fin 0,
         ls_min_diff = Fin 0, ls_max_coinbase_bytes = 0, ls_label = []\<rparr> # filter (\<lambda>l. ls_port l > 0) (listeners g))"

definition stratum_server_start :: "stratum_cfg \<Rightarrow> u64 \<Rightarrow> stratum_server" where
  "stratum_server_start g now =
     \<lparr>cfg = start_cfg g, srv_listeners = start_listeners g, extranonce1_seq = ucast now,
      auth_fail = replicate AUTH_FAIL_SLOTS \<lparr>af_ip = [], af_fails = 0, af_window_start = 0, af_reported = False\<rparr>,
      share_dd = share_dedupe_init, current_job = None, recent = replicate RECENT_JOBS None, recent_head = 0\<rparr>"

text \<open>A connection accepted on a listener, with the peer's address as text.\<close>

definition accept_conn :: "stratum_server \<Rightarrow> stratum_listener \<Rightarrow> string \<Rightarrow> stratum_conn" where
  "accept_conn s pol ip = conn_apply_listener ((stratum_conn_new (cfg s))\<lparr>peer_ip := ip\<rparr>) pol"

text \<open>Freeing a connection reports the refusals not reported yet.\<close>

definition conn_free :: "clock \<Rightarrow> world \<Rightarrow> world" where
  "conn_free ck w =
     (if rl_limited (w_conn w) > 0
      then submit_rate_report (ck_now ck) (ck_mono ck) (w\<lparr>w_conn := (w_conn w)\<lparr>rl_reported_ms := 0\<rparr>\<rparr>)
      else w)"

section \<open>Runs of the server\<close>

record system =
  sys_srv :: stratum_server
  sys_conns :: "stratum_conn list"
  sys_log :: "event list"

definition focus :: "system \<Rightarrow> stratum_conn \<Rightarrow> world" where
  "focus S c = \<lparr>w_srv = sys_srv S, w_conn = c, w_out = [], w_log = sys_log S\<rparr>"

text \<open>
  The steps: a line on one connection, after which it stays or is dropped; a connection that goes away;
  a connection accepted; a job swap with its broadcast; and changes of what the pool's other parts own,
  the accrual gate and the node's answer to a block.
\<close>

inductive sys_step :: "(string \<Rightarrow> json option) \<Rightarrow> system \<Rightarrow> system \<Rightarrow> bool" for parse where
  message: "sys_conns S = xs @ c # ys \<Longrightarrow> stratum_handle_message parse ck (Some line) (focus S c) = Ok (True, w) \<Longrightarrow>
    sys_step parse S \<lparr>sys_srv = w_srv w, sys_conns = xs @ w_conn w # ys, sys_log = w_log w\<rparr>"
| hangup: "sys_conns S = xs @ c # ys \<Longrightarrow> stratum_handle_message parse ck (Some line) (focus S c) = Ok (False, w) \<Longrightarrow>
    sys_step parse S \<lparr>sys_srv = w_srv (conn_free ck' w), sys_conns = xs @ ys, sys_log = w_log (conn_free ck' w)\<rparr>"
| gone: "sys_conns S = xs @ c # ys \<Longrightarrow> w = conn_free ck (focus S c) \<Longrightarrow>
    sys_step parse S \<lparr>sys_srv = w_srv w, sys_conns = xs @ ys, sys_log = w_log w\<rparr>"
| accept: "int (length (sys_conns S)) < max_conns (cfg (sys_srv S)) \<Longrightarrow> pol \<in> set (srv_listeners (sys_srv S)) \<Longrightarrow>
    sys_step parse S (S\<lparr>sys_conns := accept_conn (sys_srv S) pol ip # sys_conns S\<rparr>)"
| new_job: "stratum_server_set_job t (sys_srv S) j clean (map (Pair True) (sys_conns S)) = Ok (s, outs) \<Longrightarrow>
    sys_step parse S (S\<lparr>sys_srv := s, sys_conns := map (snd \<circ> fst) outs\<rparr>)"
| environment: "sys_step parse S (S\<lparr>sys_srv := (sys_srv S)\<lparr>cfg := (cfg (sys_srv S))\<lparr>pps_gate := gate, on_block := node\<rparr>\<rparr>\<rparr>)"

definition sys_start :: "stratum_cfg \<Rightarrow> u64 \<Rightarrow> system" where
  "sys_start g now = \<lparr>sys_srv = stratum_server_start g now, sys_conns = [], sys_log = []\<rparr>"

text \<open>States after \<open>n\<close> steps.\<close>

inductive sys_run :: "(string \<Rightarrow> json option) \<Rightarrow> system \<Rightarrow> nat \<Rightarrow> system \<Rightarrow> bool" for parse S0 where
  start: "sys_run parse S0 0 S0"
| step: "sys_run parse S0 n S \<Longrightarrow> sys_step parse S S' \<Longrightarrow> sys_run parse S0 (Suc n) S'"

inductive_cases sys_runE: "sys_run parse S0 (Suc n) S"

section \<open>What a handler leaves alone\<close>

definition ident :: "stratum_conn \<Rightarrow> byte list \<times> bool \<times> u32" where
  "ident c = (extranonce1 c, subscribed c, version_mask c)"

definition policy :: "stratum_conn \<Rightarrow> double \<times> double \<times> double \<times> double" where
  "policy c = (pol_initial_diff c, pol_vardiff_min c, pol_vardiff_max c, pol_min_diff c)"

definition account :: "stratum_conn \<Rightarrow> bool \<times> string" where
  "account c = (authorized c, payout_address c)"

definition diffs :: "stratum_conn \<Rightarrow> double \<times> double" where
  "diffs c = (difficulty c, requested_min_diff c)"

definition shared :: "stratum_server \<Rightarrow> stratum_cfg \<times> stratum_listener list \<times> u32 \<times> share_dedupe \<times> stratum_job option" where
  "shared s = (cfg s, srv_listeners s, extranonce1_seq s, share_dd s, current_job s)"

lemmas view_defs = ident_def policy_def account_def diffs_def shared_def

text \<open>Bookkeeping: everything the invariants below speak about is as before.\<close>

definition keeps :: "world \<Rightarrow> world \<Rightarrow> bool" where
  "keeps w w' \<longleftrightarrow> ident (w_conn w') = ident (w_conn w) \<and> policy (w_conn w') = policy (w_conn w) \<and>
     account (w_conn w') = account (w_conn w) \<and> diffs (w_conn w') = diffs (w_conn w) \<and>
     shared (w_srv w') = shared (w_srv w) \<and> credited w' = credited w"

lemma keeps_refl [simp, intro]: "keeps w w"
  by (simp add: keeps_def)

lemma keeps_trans [trans]: "keeps w w1 \<Longrightarrow> keeps w1 w2 \<Longrightarrow> keeps w w2"
  by (simp add: keeps_def)

named_theorems keepI \<open>bookkeeping operations\<close>

lemma keeps_emit [keepI]: "keeps w (emit j w)" "keeps w (emit_response rid r e w)" "keeps w (emit_error rid n m w)"
    "keeps w (send_set_difficulty d w)"
  by (simp_all add: keeps_def quiet emit_response_def emit_error_def send_set_difficulty_def) (simp_all add: emit_def)

lemma keeps_on_reject [keepI]: "keeps w (on_reject wk ts m w)"
  by (simp add: keeps_def quiet) (simp add: on_reject_def)

lemma keeps_conn: "ident c = ident (w_conn w) \<Longrightarrow> policy c = policy (w_conn w) \<Longrightarrow> account c = account (w_conn w) \<Longrightarrow>
    diffs c = diffs (w_conn w) \<Longrightarrow> keeps w (w\<lparr>w_conn := c\<rparr>)"
  by (simp add: keeps_def quiet)

lemma keeps_srv: "shared s = shared (w_srv w) \<Longrightarrow> keeps w (w\<lparr>w_srv := s\<rparr>)"
  by (simp add: keeps_def quiet)

lemma keeps_rate_report [keepI]: "keeps w (submit_rate_report now mon w)"
  by (auto simp: submit_rate_report_def Let_def view_defs on_reject_def keeps_def credited_def)

lemma keeps_conn_free: "keeps w (conn_free ck w)"
  by (auto simp: conn_free_def intro!: keeps_trans [OF keeps_conn keeps_rate_report] simp: view_defs)

lemma render_views:
  assumes "conn_render_coinbase s c job = Ok (ok, c')"
  shows "ident c' = ident c" "policy c' = policy c" "account c' = account c" "diffs c' = diffs c"
  using render_keeps [OF assms] by (auto simp: view_defs)

lemma record_views [simp]: "ident (conn_record_job_difficulty c j d) = ident c" "policy (conn_record_job_difficulty c j d) = policy c"
    "account (conn_record_job_difficulty c j d) = account c" "diffs (conn_record_job_difficulty c j d) = diffs c"
  by (auto simp: conn_record_job_difficulty_def view_defs Let_def split: option.splits)

lemma keeps_notify: "send_current_notify clean w = Ok w' \<Longrightarrow> keeps w w' \<and> w_srv w' = w_srv w"
  by (auto simp: send_current_notify_def Let_def bindR_Ok_iff keeps_def quiet render_views split: option.splits if_splits)
    (auto simp: emit_def render_views)

lemma keeps_auth_gate: "auth_gate ck rid w = Inl w' \<Longrightarrow> keeps w w'" "auth_gate ck rid w = Inr (over, w') \<Longrightarrow> keeps w w'"
  by (auto simp: auth_gate_def Let_def keeps_def quiet split: if_splits prod.splits)
    (auto simp: view_defs emit_error_def emit_response_def emit_def)

lemma keeps_auth_failed: "auth_failed ck w = Ok (k, w') \<Longrightarrow> keeps w w'"
  by (auto simp: auth_failed_def Let_def keeps_def quiet stay_def close_def split: if_splits)
    (auto simp: view_defs)

lemma keeps_auth_succeeded: "keeps w (auth_succeeded ck w)"
  by (auto simp: auth_succeeded_def Let_def keeps_def quiet split: prod.splits option.splits)
    (auto simp: view_defs)

lemma keeps_noise: "protocol_noise m w = Ok (k, w') \<Longrightarrow> keeps w w'"
  by (auto simp: protocol_noise_def Let_def stay_def close_def view_defs split: if_splits
      intro!: keeps_conn intro: keeps_trans [OF keeps_conn keeps_emit(3)])

section \<open>What each handler changes\<close>

lemma apply_requested_views [simp]:
  "ident (apply_requested_diff s c r) = ident c" "policy (apply_requested_diff s c r) = policy c" "account (apply_requested_diff s c r) = account c"
  by (simp_all add: apply_requested_diff_def Let_def view_defs)

lemma clamp_cong: "current_job s' = current_job s \<Longrightarrow> pol_min_diff c' = pol_min_diff c \<Longrightarrow>
    clamp_assigned_difficulty s' c' d = clamp_assigned_difficulty s c d"
  by (simp add: clamp_assigned_difficulty_def current_net_diff_def cong: if_cong)

lemma apply_requested_cong:
  assumes "shared s' = shared s" and "policy c' = policy c" and "diffs c' = diffs c"
  shows "diffs (apply_requested_diff s' c' r) = diffs (apply_requested_diff s c r)"
proof -
  have c: "pol_min_diff c' = pol_min_diff c" "pol_vardiff_max c' = pol_vardiff_max c" "difficulty c' = difficulty c" "requested_min_diff c' = requested_min_diff c"
    using assms(2,3) by (simp_all add: view_defs)
  have "current_job s' = current_job s" "cfg s' = cfg s" using assms(1) by (simp_all add: shared_def)
  then show ?thesis by (simp add: apply_requested_diff_def Let_def diffs_def clamp_cong [OF _ c(1), of s' s] c cong: if_cong)
qed

text \<open>The difficulty and the floor of a connection after a login with the request \<open>req\<close>.\<close>

definition login_diffs :: "stratum_server \<Rightarrow> stratum_conn \<Rightarrow> double \<Rightarrow> double \<times> double" where
  "login_diffs s c req =
     (let c0 = (if d_le (difficulty c) (Fin 0) then c\<lparr>difficulty := pol_initial_diff c\<rparr> else c);
          c1 = (if d_gt req (Fin 0) then apply_requested_diff s c0 req else c0)
      in (clamp_assigned_difficulty s c1 (difficulty c1), requested_min_diff c1))"

lemma login_diffs_cong:
  assumes "shared s' = shared s" and "policy c' = policy c" and "diffs c' = diffs c"
  shows "login_diffs s' c' req = login_diffs s c req"
proof -
  define f where "f c = (if d_le (difficulty c) (Fin 0) then c\<lparr>difficulty := pol_initial_diff c\<rparr> else c)" for c :: stratum_conn
  define h where "h s c = (if d_gt req (Fin 0) then apply_requested_diff s c req else c)" for s and c :: stratum_conn
  have f: "policy (f c') = policy (f c)" "diffs (f c') = diffs (f c)" using assms(2,3) by (auto simp: f_def view_defs)
  have h: "diffs (h s' (f c')) = diffs (h s (f c))" "policy (h s' (f c')) = policy (h s (f c))"
    using apply_requested_cong [OF assms(1) f, of req] f by (auto simp: h_def)
  then have "pol_min_diff (h s' (f c')) = pol_min_diff (h s (f c))" by (simp add: policy_def)
  moreover have "current_job s' = current_job s" using assms(1) by (simp add: shared_def)
  ultimately have "clamp_assigned_difficulty s' (h s' (f c')) d = clamp_assigned_difficulty s (h s (f c)) d" for d
    by (intro clamp_cong) auto
  then show ?thesis using h by (simp add: login_diffs_def Let_def f_def [symmetric] h_def [symmetric] diffs_def)
qed


text \<open>
  The effect of one message on what the invariants speak about. Only a subscribe touches the extranonce,
  only a configure the version mask, only an authorize the account, and only a submit the credited
  shares and the duplicate set.
\<close>

inductive effect :: "world \<Rightarrow> world \<Rightarrow> bool" for w where
  nothing: "keeps w w' \<Longrightarrow> effect w w'"
| subscribe: "ident (w_conn w') = (be_word_bytes (extranonce1_seq (w_srv w)), True, version_mask (w_conn w)) \<Longrightarrow>
    policy (w_conn w') = policy (w_conn w) \<Longrightarrow> account (w_conn w') = account (w_conn w) \<Longrightarrow> diffs (w_conn w') = diffs (w_conn w) \<Longrightarrow>
    shared (w_srv w') = shared ((w_srv w)\<lparr>extranonce1_seq := extranonce1_seq (w_srv w) + 1\<rparr>) \<Longrightarrow> credited w' = credited w \<Longrightarrow> effect w w'"
| configure: "keeps (w\<lparr>w_conn := (w_conn w)\<lparr>version_mask := m AND VERSION_ROLLING_MASK\<rparr>\<rparr>) w' \<Longrightarrow> effect w w'"
| suggest: "ident (w_conn w') = ident (w_conn w) \<Longrightarrow> policy (w_conn w') = policy (w_conn w) \<Longrightarrow> account (w_conn w') = account (w_conn w) \<Longrightarrow>
    diffs (w_conn w') = diffs (apply_requested_diff (w_srv w) (w_conn w) req) \<Longrightarrow>
    shared (w_srv w') = shared (w_srv w) \<Longrightarrow> credited w' = credited w \<Longrightarrow> effect w w'"
| logout: "keeps (w\<lparr>w_conn := (w_conn w)\<lparr>payout_address := []\<rparr>\<rparr>) w' \<Longrightarrow> effect w w'"
| login: "check_username (cfg (w_srv w)) addr = Ok () \<Longrightarrow> account (w_conn w') = (True, addr) \<Longrightarrow>
    ident (w_conn w') = ident (w_conn w) \<Longrightarrow> policy (w_conn w') = policy (w_conn w) \<Longrightarrow>
    diffs (w_conn w') = login_diffs (w_srv w) (w_conn w) req \<Longrightarrow>
    shared (w_srv w') = shared (w_srv w) \<Longrightarrow> credited w' = credited w \<Longrightarrow> effect w w'"
| submit: "share_dedupe_check_and_add (share_dd (w_srv w)) h = Some (dup, sdd) \<Longrightarrow> length h = 32 \<Longrightarrow>
    shared (w_srv w') = shared ((w_srv w)\<lparr>share_dd := sdd\<rparr>) \<Longrightarrow>
    authorized (w_conn w) \<Longrightarrow> payout_address (w_conn w) \<noteq> [] \<Longrightarrow>
    ident (w_conn w') = ident (w_conn w) \<Longrightarrow> policy (w_conn w') = policy (w_conn w) \<Longrightarrow> account (w_conn w') = account (w_conn w) \<Longrightarrow>
    diffs (w_conn w') = diffs (w_conn w) \<or>
      (\<exists>c t. policy c = policy (w_conn w) \<and> diffs c = diffs (w_conn w) \<and>
         diffs (w_conn w') = (vd_proposal (w_srv w) c t, requested_min_diff (w_conn w))) \<Longrightarrow>
    credited w' = credited w \<or>
      (\<not> dup \<and> (\<exists>wk ts d blk. credited w' = credited w @ [EvShare wk (payout_address (w_conn w)) ts d blk (bytes_to_hex h)])) \<Longrightarrow>
    effect w w'"

lemma effect_subscribe: "handle_subscribe rid w = Ok (k, w') \<Longrightarrow> effect w w'"
  by (rule effect.subscribe)
    (auto simp: handle_subscribe_def Let_def stay_def quiet view_defs emit_response_def emit_def be_word_bytes_def credited_def)

lemma keeps_stay: "keeps w w1 \<Longrightarrow> stay w1 = Ok (k, w') \<Longrightarrow> keeps w w'"
  by (auto simp: stay_def)

lemma effect_configure: "handle_configure rid params w = Ok (k, w') \<Longrightarrow> effect w w'"
  by (auto simp: handle_configure_def Let_def stay_def split: if_splits intro: effect.nothing keepI effect.configure)

lemma effect_suggest:
  assumes "handle_suggest_difficulty rid params w = Ok (k, w')"
  shows "effect w w'"
proof -
  define req where "req = (case arr_item params 0 of Some (JNum v) \<Rightarrow> v | _ \<Rightarrow> Fin 0)"
  define w1 where "w1 = w\<lparr>w_conn := apply_requested_diff (w_srv w) (w_conn w) req\<rparr>"
  have "keeps w1 (emit_response rid r e (send_set_difficulty d w1))" for r e d by (rule keeps_trans [OF keeps_emit(4) keeps_emit(2)])
  then have "keeps w w' \<or> keeps w1 w'"
    using assms unfolding handle_suggest_difficulty_def Let_def req_def [symmetric] stay_def
    by (auto simp: w1_def [symmetric] keepI split: if_splits)
  then show ?thesis
    by (auto intro: effect.nothing) (rule effect.suggest [where req = req], auto simp: keeps_def quiet w1_def)
qed

lemma authorize_ok_effect:
  assumes "authorize_ok ck rid worker pw (w\<lparr>w_conn := (w_conn w)\<lparr>payout_address := addr\<rparr>\<rparr>) = Ok (k, w')"
    and "check_username (cfg (w_srv w)) addr = Ok ()"
  shows "effect w w'"
proof -
  define wa where "wa = auth_succeeded ck (w\<lparr>w_conn := (w_conn w)\<lparr>payout_address := addr, worker_name := sanitize_worker worker 129\<rparr>\<rparr>)"
  have wa: "keeps (w\<lparr>w_conn := (w_conn w)\<lparr>payout_address := addr, worker_name := sanitize_worker worker 129\<rparr>\<rparr>) wa"
    unfolding wa_def by (rule keeps_auth_succeeded)
  define ca where "ca = (w_conn wa)\<lparr>authorized := True\<rparr>"
  define cb where "cb = (if d_le (difficulty ca) (Fin 0) then ca\<lparr>difficulty := pol_initial_diff ca\<rparr> else ca)"
  define req where "req = (if d_gt pw (Fin 0) then pw else requested_min_diff cb)"
  define cc where "cc = (if d_gt req (Fin 0) then apply_requested_diff (w_srv wa) cb req else cb)"
  define cd where "cd = vd_reset (ck_now ck) (cc\<lparr>difficulty := clamp_assigned_difficulty (w_srv wa) cc (difficulty cc)\<rparr>)"
  obtain w2 where n: "send_current_notify True (send_set_difficulty (difficulty cd) (emit_response rid (Some (JBool True)) None (wa\<lparr>w_conn := cd\<rparr>))) = Ok w2"
    and w': "w' = w2"
    using assms(1) unfolding authorize_ok_def Let_def
    by (auto simp: bindR_Ok_iff stay_def wa_def [symmetric] ca_def [symmetric] cb_def [symmetric] req_def [symmetric]
        cc_def [symmetric] cd_def [symmetric] cong: if_cong)
  have fin: "keeps (wa\<lparr>w_conn := cd\<rparr>) w'"
    using keeps_notify [OF n] keeps_emit(2,4) keeps_trans w' by blast
  have g: "shared (w_srv wa) = shared (w_srv w)" "credited wa = credited w"
    and va: "ident ca = ident (w_conn w)" "policy ca = policy (w_conn w)" "account ca = (True, addr)" "diffs ca = diffs (w_conn w)"
    using wa by (simp_all add: keeps_def quiet ca_def) (simp_all add: view_defs)
  have vd: "ident cd = ident ca" "policy cd = policy ca" "account cd = account ca" "diffs cd = login_diffs (w_srv wa) ca req"
    by (auto simp: cd_def vd_reset_def cc_def cb_def login_diffs_def Let_def) (auto simp: view_defs apply_requested_diff_def Let_def)
  show ?thesis
    by (rule effect.login [OF assms(2), where req = req])
      (use fin vd va g login_diffs_cong [OF g(1) va(2,4), of req] in \<open>simp_all add: keeps_def quiet\<close>)
qed

lemma vd_proposal_cong: "cfg s' = cfg s \<Longrightarrow> current_job s' = current_job s \<Longrightarrow> vd_proposal s' c t = vd_proposal s c t"
  by (simp add: vd_proposal_def vd_bounds_def Let_def clamp_cong [of s' s c c] cong: if_cong)

lemma effect_after:
  assumes "keeps w w1" and "effect w1 w'"
  shows "effect w w'"
proof -
  have k: "ident (w_conn w1) = ident (w_conn w)" "policy (w_conn w1) = policy (w_conn w)" "account (w_conn w1) = account (w_conn w)"
    "diffs (w_conn w1) = diffs (w_conn w)" "shared (w_srv w1) = shared (w_srv w)" "credited w1 = credited w"
    using assms(1) by (simp_all add: keeps_def)
  show ?thesis using assms(2)
  proof cases
    case nothing
    with assms(1) show ?thesis by (blast intro: effect.nothing keeps_trans)
  next
    case subscribe
    with k show ?thesis by (intro effect.subscribe) (simp_all add: view_defs)
  next
    case (configure m)
    with k show ?thesis by (intro effect.configure [where m = m]) (simp add: keeps_def quiet view_defs)
  next
    case (suggest req)
    with k apply_requested_cong [OF k(5,2,4), of req] show ?thesis by (intro effect.suggest [where req = req]) simp_all
  next
    case logout
    with k show ?thesis by (intro effect.logout) (simp add: keeps_def quiet view_defs)
  next
    case (login addr req)
    with k login_diffs_cong [OF k(5,2,4), of req] show ?thesis
      by (intro effect.login [where addr = addr and req = req]) (simp_all add: shared_def)
  next
    case (submit h dup sdd)
    have "vd_proposal (w_srv w1) c t = vd_proposal (w_srv w) c t" for c t
      using k(5) by (intro vd_proposal_cong) (simp_all add: shared_def)
    with submit k show ?thesis
      by (intro effect.submit [where h = h and dup = dup and sdd = sdd]) (auto simp: view_defs)
  qed
qed

lemma effect_authorize:
  assumes "handle_authorize ck rid params w = Ok (k, w')"
  shows "effect w w'"
proof (cases "auth_gate ck rid w")
  case (Inl w1)
  with assms keeps_auth_gate(1) show ?thesis by (auto simp: handle_authorize_def close_def intro: effect.nothing)
next
  case (Inr ow)
  then obtain over w1 where g: "auth_gate ck rid w = Inr (over, w1)" by (cases ow) auto
  note k1 = keeps_auth_gate(2) [OF g]
  have fail: "auth_failed ck w2 = Ok (k, w') \<Longrightarrow> keeps w1 w2 \<Longrightarrow> effect w1 w'" for w2
    using keeps_auth_failed keeps_trans by (blast intro: effect.nothing)
  note kr = keeps_trans [OF keeps_on_reject keeps_emit(3)]
  show ?thesis
  proof (rule effect_after [OF k1], cases "valuestring (arr_item params 0)")
    case None
    with assms g show "effect w1 w'" by (auto simp: handle_authorize_def split: if_splits intro: fail keepI)
  next
    case (Some worker)
    define addr where "addr = takeWhile (\<lambda>ch. ch \<noteq> CHR ''.'') worker"
    show "effect w1 w'"
    proof (cases "over \<or> addr = [] \<or> length addr \<ge> 128 \<or> pps_gated (w_srv w1)")
      case True
      with assms g Some show ?thesis
        by (auto simp: handle_authorize_def Let_def addr_def [symmetric] stay_def split: if_splits
            intro: fail keepI kr effect.nothing)
    next
      case False
      show ?thesis
      proof (cases "check_username (cfg (w_srv w1)) addr")
        case (Ok u)
        with assms g Some False show ?thesis
          by (auto simp: handle_authorize_def Let_def addr_def [symmetric] intro: authorize_ok_effect)
      next
        case (Err m)
        let ?kind = "if username_is_thunder (cfg (w_srv w1)) then ''invalid thunder address'' else ''invalid payout address''"
        define w2 where "w2 = on_reject worker (ck_now ck) (c_copy 192 (?kind @ '': '' @ c_copy 128 m)) w1"
        from assms g Some False Err obtain t where
          "auth_failed ck (emit_error rid 24 t (w2\<lparr>w_conn := (w_conn w2)\<lparr>payout_address := []\<rparr>\<rparr>)) = Ok (k, w')"
          unfolding w2_def by (simp add: handle_authorize_def Let_def addr_def [symmetric])
        then have "keeps (w2\<lparr>w_conn := (w_conn w2)\<lparr>payout_address := []\<rparr>\<rparr>) w'"
          using keeps_auth_failed keeps_trans [OF keeps_emit(3)] by blast
        then show ?thesis using keeps_on_reject [of w1] by (intro effect_after [of w1 w2] effect.logout) (auto simp: w2_def)
      next
        case UB
        with assms g Some False show ?thesis by (simp add: handle_authorize_def Let_def addr_def)
      qed
    qed
  qed
qed

lemma reject_keeps: "reject_share ck rid n m w = Ok (k, w') \<Longrightarrow> keeps w w'"
  by (auto simp: reject_share_Ok intro: keeps_trans [OF keeps_on_reject keeps_emit(3)])

text \<open>Everything before the hash is known is bookkeeping.\<close>

lemma submit_with_job_stages:
  assumes "submit_with_job ck rid params job en2 ntime nonce w = Ok (k, w')"
  obtains (early) "keeps w w'"
  | (hashed) dd c cb hd dup sdd where "conn_render_coinbase (w_srv w) ((w_conn w)\<lparr>c_dedupe := dd\<rparr>) job = Ok (True, c)"
    and "share_dedupe_check_and_add (share_dd (w_srv w)) (hash_header hd) = Some (dup, sdd)"
    and "keeps (w\<lparr>w_conn := c, w_srv := (w_srv w)\<lparr>share_dd := sdd\<rparr>\<rparr>) w' \<or>
      (\<not> dup \<and> (\<exists>v. accept_share ck rid job cb hd (hash_header hd) v (w\<lparr>w_conn := c, w_srv := (w_srv w)\<lparr>share_dd := sdd\<rparr>\<rparr>) = Ok (k, w')))"
proof (cases "submit_version (w_conn w) job params")
  case None
  with assms show thesis by (intro early) (auto simp: submit_with_job_def stay_def intro: keepI)
next
  case ver: (Some ver)
  obtain dup dd where d: "dedupe_check_and_add (c_dedupe (w_conn w)) (Some (job_id job)) en2 ntime nonce ver = (dup, dd)" by fastforce
  define c0 where "c0 = (w_conn w)\<lparr>c_dedupe := dd\<rparr>"
  define w0 where "w0 = w\<lparr>w_conn := c0\<rparr>"
  have k0: "keeps w w0" by (auto simp: w0_def c0_def view_defs intro: keeps_conn)
  have rej: "reject_share ck rid n m w0 = Ok (k, w') \<Longrightarrow> keeps w w'" "stay (emit_error rid n m w0) = Ok (k, w') \<Longrightarrow> keeps w w'" for n m
    using keeps_trans [OF k0 reject_keeps] keeps_trans [OF k0 keeps_emit(3)] by (auto simp: stay_def)
  note un = submit_with_job_def ver d Let_def c0_def [symmetric] w0_def [symmetric]
  show thesis
  proof (cases "dup \<or> parse_u32_hex ntime = None \<or> parse_u32_hex nonce = None \<or> hex_to_bytes_alloc en2 = None")
    case True
    with assms show thesis by (intro early) (auto simp: un dest: rej split: option.splits if_splits)
  next
    case False
    then obtain nt nc en2b where v: "parse_u32_hex ntime = Some nt" "parse_u32_hex nonce = Some nc" "hex_to_bytes_alloc en2 = Some en2b" and nd: "\<not> dup" by auto
    show thesis
    proof (cases "ntime_in_range job nt \<and> length en2b = en2_size job")
      case False
      with assms v nd show thesis by (intro early) (auto simp: un dest: rej split: if_splits)
    next
      case True
      with assms v nd obtain ok c where r: "conn_render_coinbase (w_srv w) c0 job = Ok (ok, c)"
        by (auto simp: un bindR_Ok_iff w0_def)
      show thesis
      proof (cases ok)
        case False
        with assms v nd True r have "reject_share ck rid 25 ''coinbase render failed'' (w0\<lparr>w_conn := c\<rparr>) = Ok (k, w')"
          by (simp add: un) (simp add: w0_def)
        moreover have "keeps w (w0\<lparr>w_conn := c\<rparr>)"
          using render_views [OF r] by (auto simp: w0_def c0_def intro!: keeps_conn) (auto simp: view_defs)
        ultimately show thesis using early keeps_trans reject_keeps by blast
      next
        case ok: True
        define hd where "hd = submit_header ver job (submit_coinbase c en2b) nt nc"
        from assms v nd True r ok obtain dup2 sdd where sd: "share_dedupe_check_and_add (share_dd (w_srv w)) (hash_header hd) = Some (dup2, sdd)"
          by (auto simp: un hd_def w0_def split: option.splits)
        let ?w = "w\<lparr>w_conn := c, w_srv := (w_srv w)\<lparr>share_dd := sdd\<rparr>\<rparr>"
        have "keeps ?w w' \<or> (\<not> dup2 \<and> (\<exists>v. accept_share ck rid job (submit_coinbase c en2b) hd (hash_header hd) v ?w = Ok (k, w')))"
          using assms v nd True r ok sd
          by (auto simp: un hd_def w0_def bindR_Ok_iff dest: reject_keeps split: if_splits)
        with r ok sd show thesis by (intro hashed [of dd c hd dup2 sdd "submit_coinbase c en2b"]) (auto simp: c0_def)
      qed
    qed
  qed
qed

lemma retargeted_views [simp]: "ident (retargeted s t c) = ident c" "policy (retargeted s t c) = policy c" "account (retargeted s t c) = account c"
  by (simp_all add: retargeted_eq vd_reset_def) (simp_all add: view_defs)

lemma count_share_views [simp]: "ident (count_share j h a c) = ident c" "policy (count_share j h a c) = policy c"
    "account (count_share j h a c) = account c" "diffs (count_share j h a c) = diffs c"
  by (simp_all add: count_share_def Let_def view_defs)

lemma retargeted_diffs: "diffs (retargeted s t c) = diffs c \<or> diffs (retargeted s t c) = (vd_proposal s c t, requested_min_diff c)"
  by (simp add: retargeted_eq diffs_def vd_reset_def)

lemma submit_with_job_effect:
  assumes "submit_with_job ck rid params job en2 ntime nonce w = Ok (k, w')"
  shows "effect w w'"
  using assms
proof (cases rule: submit_with_job_stages)
  case early
  then show ?thesis by (rule effect.nothing)
next
  case (hashed dd c cb hd dup sdd)
  let ?w = "w\<lparr>w_conn := c, w_srv := (w_srv w)\<lparr>share_dd := sdd\<rparr>\<rparr>"
  have v: "ident c = ident (w_conn w)" "policy c = policy (w_conn w)" "account c = account (w_conn w)" "diffs c = diffs (w_conn w)"
    using render_views [OF hashed(1)] by (simp_all add: view_defs)
  have a: "authorized (w_conn w)" "payout_address (w_conn w) \<noteq> []" using hashed(1) by (auto elim: render_True)
  have r: "vd_proposal ((w_srv w)\<lparr>share_dd := sdd\<rparr>) c' t = vd_proposal (w_srv w) c' t" for c' t by (rule vd_proposal_cong) simp_all
  from hashed(3) show ?thesis
  proof
    assume "keeps ?w w'"
    then show ?thesis using v a by (intro effect.submit [OF hashed(2)]) (auto simp: keeps_def quiet)
  next
    assume "\<not> dup \<and> (\<exists>v. accept_share ck rid job cb hd (hash_header hd) v ?w = Ok (k, w'))"
    then obtain vd where nd: "\<not> dup" and acc: "accept_share ck rid job cb hd (hash_header hd) vd ?w = Ok (k, w')" by blast
    define c2 where "c2 = count_share job (hash_header hd) (assigned_difficulty c job) c"
    have w': "w_conn w' = retargeted ((w_srv w)\<lparr>share_dd := sdd\<rparr>) (ck_now2 ck) c2"
      using accept_share_conn [OF acc] by (simp add: c2_def)
    have c2: "policy c2 = policy (w_conn w)" "diffs c2 = diffs (w_conn w)" "requested_min_diff c2 = requested_min_diff (w_conn w)"
      using v by (simp_all add: c2_def) (simp add: count_share_def Let_def diffs_def)
    have cr: "w_srv w' = (w_srv w)\<lparr>share_dd := sdd\<rparr>" "credited w' = credited w \<or>
        (\<exists>wk ts d blk. credited w' = credited w @ [EvShare wk (payout_address (w_conn w)) ts d blk (bytes_to_hex (hash_header hd))])"
      using accept_share_credits [OF acc] v(3) by (auto simp: quiet account_def)
    have "diffs (w_conn w') = diffs (w_conn w) \<or>
        (\<exists>c t. policy c = policy (w_conn w) \<and> diffs c = diffs (w_conn w) \<and> diffs (w_conn w') = (vd_proposal (w_srv w) c t, requested_min_diff (w_conn w)))"
      using retargeted_diffs [of "(w_srv w)\<lparr>share_dd := sdd\<rparr>" "ck_now2 ck" c2] c2 unfolding w' r by metis
    then show ?thesis using nd cr a v
      by (intro effect.submit [OF hashed(2)]) (auto simp: w' c2_def)
  qed
qed

lemma effect_submit:
  assumes "handle_submit ck rid params w = Ok (k, w')"
  shows "effect w w'"
proof (cases "authorized (w_conn w)")
  case False
  with assms show ?thesis by (auto simp: handle_submit_def stay_def intro: effect.nothing keepI)
next
  case True
  obtain over c1 where r: "submit_rate_exceeded (w_srv w) (w_conn w) (ck_mono ck) = (over, c1)" by fastforce
  have k1: "keeps w (w\<lparr>w_conn := c1\<rparr>)" using rate_keeps [OF r] by (auto intro!: keeps_conn simp: view_defs)
  note kr = keeps_trans [OF keeps_on_reject keeps_emit(3)] keeps_trans [OF keeps_rate_report keeps_emit(3)]
  have "effect (w\<lparr>w_conn := c1\<rparr>) w'"
    using assms True by (auto simp: handle_submit_def r Let_def stay_def split: if_splits option.splits
        intro: effect.nothing keepI kr submit_with_job_effect reject_keeps)
  then show ?thesis by (rule effect_after [OF k1])
qed

lemma effect_message:
  assumes "stratum_handle_message parse ck line w = Ok (k, w')"
  shows "effect w w'"
proof -
  let ?w = "w\<lparr>w_conn := (w_conn w)\<lparr>malformed_streak := 0\<rparr>\<rparr>"
  have k: "keeps w ?w" by (auto intro!: keeps_conn simp: view_defs)
  have d: "dispatch ck meth rid params ?w = Ok (k, w') \<Longrightarrow> effect w w'" for meth rid params
    by (rule effect_after [OF k], unfold dispatch_def)
      (auto split: if_splits simp: stay_def intro: effect_configure effect_subscribe effect_suggest effect_authorize effect_submit effect.nothing keepI)
  show ?thesis using assms k
    by (auto simp: stratum_handle_message_def Let_def close_def stay_def split: option.splits if_splits
        intro: effect.nothing keeps_noise d)
qed

end
