(* ===== verification/Runs.thy ===== *)
theory Runs
  imports Session
begin

text \<open>
  Invariants of every reachable state of the stratum server: a locale states what makes a property of
  connections invariant under all messages, and is interpreted for the version mask, the payout
  account and the assigned difficulty; then the extranonces of the live connections, the addresses
  credited, and the hashes credited over any stretch of a run.
\<close>

section \<open>Invariants of connections\<close>

text \<open>The configuration up to what the other parts of the pool own.\<close>

definition settled :: "stratum_cfg \<Rightarrow> stratum_cfg" where
  "settled g = g\<lparr>pps_gate := None, on_block := None\<rparr>"

lemma effect_shared: "effect w w' \<Longrightarrow> cfg (w_srv w') = cfg (w_srv w) \<and> srv_listeners (w_srv w') = srv_listeners (w_srv w)"
  by (cases rule: effect.cases) (auto simp: keeps_def shared_def)

definition same_views :: "stratum_conn \<Rightarrow> stratum_conn \<Rightarrow> bool" where
  "same_views c c' \<longleftrightarrow> ident c' = ident c \<and> policy c' = policy c \<and> account c' = account c \<and> diffs c' = diffs c"

lemma keeps_same_views: "keeps w w' \<Longrightarrow> same_views (w_conn w) (w_conn w')"
  by (simp add: keeps_def same_views_def)

lemma broadcast_views:
  "broadcast s clean (map (Pair True) cs) = Ok outs \<Longrightarrow> list_all2 same_views cs (map (snd \<circ> fst) outs)"
proof (induction cs arbitrary: outs)
  case (Cons c cs)
  define w0 where "w0 = \<lparr>w_srv = s, w_conn = c, w_out = [], w_log = []\<rparr>"
  from Cons.prems obtain w rest where w: "(if subscribed c \<and> True \<and> authorized c then send_current_notify clean w0 else Ok w0) = Ok w"
    and rest: "broadcast s clean (map (Pair True) cs) = Ok rest" "outs = ((True, w_conn w), w_out w) # rest"
    by (auto simp: bindR_Ok_iff w0_def [symmetric] cong: if_cong)
  have "keeps w0 w" using w keeps_notify by (auto split: if_splits)
  then have "same_views c (w_conn w)" using keeps_same_views by (fastforce simp: w0_def)
  with rest show ?case using Cons.IH by simp
qed simp

lemma list_all2_source: "list_all2 R xs ys \<Longrightarrow> y \<in> set ys \<Longrightarrow> \<exists>x \<in> set xs. R x y"
  by (induction rule: list_all2_induct) auto

lemma retire_job_shared [simp]: "cfg (retire_job t s j) = cfg s" "srv_listeners (retire_job t s j) = srv_listeners s"
    "extranonce1_seq (retire_job t s j) = extranonce1_seq s" "share_dd (retire_job t s j) = share_dd s" "current_job (retire_job t s j) = current_job s"
  by (simp_all add: retire_job_def Let_def)

lemma set_job_effect:
  assumes "stratum_server_set_job t s j clean (map (Pair True) cs) = Ok (s', outs)"
  shows "cfg s' = cfg s" "srv_listeners s' = srv_listeners s" "extranonce1_seq s' = extranonce1_seq s" "share_dd s' = share_dd s"
    "list_all2 same_views cs (map (snd \<circ> fst) outs)"
  using assms by (auto simp: stratum_server_set_job_def Let_def bindR_Ok_iff split: option.splits intro: broadcast_views)

text \<open>
  The contract of a connection invariant: it holds of a connection just accepted under a configuration
  that is \<open>sane\<close>, it looks at nothing but the views, and no message breaks it. Then it holds in every
  reachable state, whatever lines arrive in whatever order.
\<close>

locale conn_invariant =
  fixes sane :: "stratum_cfg \<Rightarrow> bool" and Inv :: "stratum_cfg \<Rightarrow> stratum_conn \<Rightarrow> bool"
  assumes accepted: "sane g \<Longrightarrow> settled (cfg s) = settled (start_cfg g) \<Longrightarrow> pol \<in> set (start_listeners g) \<Longrightarrow> Inv (cfg s) (accept_conn s pol ip)"
    and views: "Inv g c \<Longrightarrow> same_views c c' \<Longrightarrow> Inv g c'"
    and config: "Inv g c \<Longrightarrow> settled g' = settled g \<Longrightarrow> Inv g' c"
    and message: "Inv (cfg (w_srv w)) (w_conn w) \<Longrightarrow> effect w w' \<Longrightarrow> Inv (cfg (w_srv w)) (w_conn w')"
begin

definition holds :: "stratum_cfg \<Rightarrow> system \<Rightarrow> bool" where
  "holds g S \<longleftrightarrow> settled (cfg (sys_srv S)) = settled (start_cfg g) \<and> srv_listeners (sys_srv S) = start_listeners g \<and>
     (\<forall>c \<in> set (sys_conns S). Inv (cfg (sys_srv S)) c)"

lemma start: "holds g (sys_start g now)"
  by (simp add: holds_def sys_start_def stratum_server_start_def)

lemma one_step:
  assumes "sane g" and "holds g S" and "sys_step parse S S'"
  shows "holds g S'"
  using assms(3)
proof cases
  case (message xs c ys ck line w)
  note e = effect_message [OF message(3)]
  have "cfg (w_srv w) = cfg (sys_srv S)" "srv_listeners (w_srv w) = srv_listeners (sys_srv S)"
    using effect_shared [OF e] by (simp_all add: focus_def)
  moreover have "Inv (cfg (sys_srv S)) (w_conn w)"
    using conn_invariant.message [OF conn_invariant_axioms _ e] assms(2) message(2) by (simp add: focus_def holds_def)
  ultimately show ?thesis using assms(2) message(1,2) by (auto simp: holds_def)
next
  case (hangup xs c ys ck line w ck')
  have "cfg (w_srv w) = cfg (sys_srv S)" "srv_listeners (w_srv w) = srv_listeners (sys_srv S)"
    using effect_shared [OF effect_message [OF hangup(3)]] by (simp_all add: focus_def)
  with keeps_conn_free [of w ck'] show ?thesis using assms(2) hangup(1,2) by (auto simp: holds_def keeps_def shared_def)
next
  case (gone xs c ys w ck)
  with keeps_conn_free [of "focus S c" ck] show ?thesis using assms(2) by (auto simp: holds_def keeps_def shared_def focus_def)
next
  case (accept pol ip)
  from accept(3) assms(2) have "pol \<in> set (start_listeners g)" by (simp add: holds_def)
  with accepted [OF assms(1)] assms(2) show ?thesis unfolding accept(1) by (simp add: holds_def)
next
  case (new_job t j clean s outs)
  note f = set_job_effect [OF new_job(2)]
  have "Inv (cfg (sys_srv S)) c'" if "c' \<in> set (map (snd \<circ> fst) outs)" for c'
    using list_all2_source [OF f(5) that] assms(2) views by (auto simp: holds_def)
  then show ?thesis using assms(2) f(1,2) new_job(1) by (auto simp: holds_def)
next
  case (environment node gate)
  have "settled ((cfg (sys_srv S))\<lparr>pps_gate := gate, on_block := node\<rparr>) = settled (cfg (sys_srv S))" by (simp add: settled_def)
  with config [OF _ this] show ?thesis using assms(2) environment by (auto simp: holds_def)
qed

lemma reachable:
  assumes "sane g" and "sys_run parse (sys_start g now) n S"
  shows "holds g S"
  using assms(2) by induction (auto intro: start one_step [OF assms(1)])

lemma everywhere: "sane g \<Longrightarrow> sys_run parse (sys_start g now) n S \<Longrightarrow> c \<in> set (sys_conns S) \<Longrightarrow> Inv (cfg (sys_srv S)) c"
  using reachable by (auto simp: holds_def)

end

section \<open>Masks and accounts\<close>

definition mask_inv :: "stratum_cfg \<Rightarrow> stratum_conn \<Rightarrow> bool" where
  "mask_inv g c \<longleftrightarrow> version_mask c AND NOT VERSION_ROLLING_MASK = 0"

definition account_inv :: "stratum_cfg \<Rightarrow> stratum_conn \<Rightarrow> bool" where
  "account_inv g c \<longleftrightarrow> payout_address c = [] \<or> check_username g (payout_address c) = Ok ()"

lemma check_username_settled: "settled g' = settled g \<Longrightarrow> check_username g' a = check_username g a"
proof -
  assume "settled g' = settled g"
  then have "username_is_thunder (settled g') = username_is_thunder (settled g)" by simp
  then show ?thesis by (simp add: settled_def check_username_def)
qed

lemma accept_conn_fresh [simp]: "version_mask (accept_conn s pol ip) = 0" "payout_address (accept_conn s pol ip) = []"
    "subscribed (accept_conn s pol ip) = False" "authorized (accept_conn s pol ip) = False" "requested_min_diff (accept_conn s pol ip) = Fin 0"
  by (simp_all add: accept_conn_def conn_apply_listener_def stratum_conn_new_def Let_def)

interpretation masks: conn_invariant "\<lambda>_. True" mask_inv
proof
  have z: "(m AND VERSION_ROLLING_MASK) AND NOT VERSION_ROLLING_MASK = 0" for m by (rule bit_word_eqI) (simp add: bit_simps)
  show "mask_inv (cfg (w_srv w)) (w_conn w')" if "mask_inv (cfg (w_srv w)) (w_conn w)" "effect w w'" for w w'
    using that(2,1) by cases (auto simp: mask_inv_def keeps_def view_defs z)
qed (auto simp: mask_inv_def same_views_def view_defs)

interpretation accounts: conn_invariant "\<lambda>_. True" account_inv
proof
  show "account_inv (cfg (w_srv w)) (w_conn w')" if "account_inv (cfg (w_srv w)) (w_conn w)" "effect w w'" for w w'
    using that(2,1) by cases (auto simp: account_inv_def keeps_def view_defs)
  show "account_inv g' c" if "account_inv g c" "settled g' = settled g" for g g' c
    using that check_username_settled [OF that(2)] by (simp add: account_inv_def)
qed (auto simp: account_inv_def same_views_def view_defs)

section \<open>Difficulty\<close>

lemma clamp_spec:
  assumes "d_le d (Fin U)" and "pol_min_diff c = Fin m"
  shows "\<exists>q. clamp_assigned_difficulty s c d = Fin q \<and> 0 < q \<and> m \<le> max q 0 \<and> q \<le> max U (max m 1)"
proof -
  define d1 where "d1 = (if d_gt (current_net_diff s) (Fin 0) \<and> d_gt d (current_net_diff s) then current_net_diff s else d)"
  have "d_le d1 (Fin U)"
    using assms(1) by (cases d; cases "current_net_diff s") (auto simp: d1_def d_gt_def)
  moreover have "clamp_assigned_difficulty s c d =
      (let d2 = (if d_gt (Fin m) (Fin 0) \<and> d_lt d1 (Fin m) then Fin m else d1) in if d_le d2 (Fin 0) then Fin 1 else d2)"
    by (simp add: clamp_assigned_difficulty_def d1_def assms(2) Let_def)
  ultimately show ?thesis by (cases d1) (auto simp: d_gt_def)
qed

lemma d_round_finite_or_inf [simp]: "d_round q \<noteq> NaN"
  by (simp add: d_round_def Let_def)

lemma d_mul_defined: "a \<noteq> 0 \<Longrightarrow> r \<noteq> NaN \<Longrightarrow> d_mul (Fin a) r \<noteq> NaN"
  by (cases r) (auto simp: d_signed_inf_def sgn_if)

lemma d_div_defined: "d_gt r (Fin 0) \<Longrightarrow> d_div (Fin a) r \<noteq> NaN"
  by (cases r) (auto simp: d_gt_def)

lemma vd_rate_step_defined:
  assumes "difficulty c = Fin a" and "0 < a"
  shows "vd_rate_step g c ratio \<noteq> NaN"
proof -
  define ms where "ms = (if under_sampled g c then if d_gt (vardiff_idle_step g) (Fin 1) then vardiff_idle_step g else Fin 2 else Fin 4)"
  have ms: "d_gt ms (Fin 0)" by (cases "vardiff_idle_step g") (auto simp: ms_def d_gt_def)
  then have "ms \<noteq> NaN" by (auto simp: d_gt_def)
  then have "d_mul (Fin a) ms \<noteq> NaN" "d_div (Fin a) ms \<noteq> NaN" using assms(2) ms by (simp_all add: d_mul_defined d_div_defined)
  moreover have "d_mul (Fin a) ratio \<noteq> NaN" if "d_gt ratio (Fin 2) \<or> d_lt ratio (Fin (1/2))"
    using that assms(2) by (intro d_mul_defined) (auto simp: d_gt_def)
  ultimately show ?thesis
    unfolding vd_rate_step_def Let_def ms_def [symmetric] by (simp add: assms(1))
qed

lemma d_lt_NaN [simp]: "\<not> d_lt x NaN"
  by (cases x) auto

lemma vd_floor_step_defined: "new \<noteq> NaN \<Longrightarrow> vd_floor_step c new \<noteq> NaN"
  by (auto simp: vd_floor_step_def Let_def d_gt_def split: if_splits)

lemma vd_proposal_spec:
  assumes "difficulty c = Fin a" and "0 < a" and "pol_vardiff_max c = Fin v" and "0 < v" and "pol_min_diff c = Fin m"
    and "requested_min_diff c \<noteq> NaN"
  shows "\<exists>q. vd_proposal s c t = Fin q \<and> 0 < q \<and> m \<le> max q 0 \<and> q \<le> max v (max m 1)"
proof -
  define cap where "cap x = (if d_gt (pol_vardiff_max c) (Fin 0) \<and> d_gt x (pol_vardiff_max c) then pol_vardiff_max c else x)" for x
  define low where "low x = (if d_gt (requested_min_diff c) (Fin 0) \<and> d_lt x (requested_min_diff c) then requested_min_diff c else x)" for x
  define low2 where "low2 x = (if d_lt x (pol_vardiff_min c) then pol_vardiff_min c else x)" for x
  have cap: "x \<noteq> NaN \<Longrightarrow> d_le (cap x) (Fin v)" for x using assms(4) by (cases x) (auto simp: cap_def assms(3) d_gt_def)
  have low: "x \<noteq> NaN \<Longrightarrow> low2 (low x) \<noteq> NaN" for x using assms(6) by (auto simp: low_def low2_def)
  have "\<exists>x. vd_proposal s c t = clamp_assigned_difficulty s c (cap (low2 (low x))) \<and> x \<noteq> NaN"
    unfolding vd_proposal_def vd_bounds_def Let_def cap_def [symmetric] low_def [symmetric] low2_def [symmetric]
    using vd_floor_step_defined vd_rate_step_defined [OF assms(1,2)] by blast
  then show ?thesis using clamp_spec [OF cap [OF low] assms(5)] by metis
qed

lemma apply_requested_spec:
  assumes "difficulty c = Fin a" and "pol_vardiff_max c = Fin v" and "0 < v" and "pol_min_diff c = Fin m" and "max_suggested_diff (cfg s) = Fin M"
    and "requested_min_diff c = Fin r" and "0 \<le> r"
  shows "\<exists>a' r'. difficulty (apply_requested_diff s c req) = Fin a' \<and> a \<le> a' \<and> a' \<le> max a v \<and>
    requested_min_diff (apply_requested_diff s c req) = Fin r' \<and> 0 \<le> r' \<and> r' \<le> max r v"
proof (cases "d_gt req (Fin 0) \<and> \<not> d_le (max_suggested_diff (cfg s)) (Fin 0)")
  case False
  then show ?thesis using assms by (auto simp: apply_requested_diff_def)
next
  case True
  define r1 where "r1 = (if d_gt req (Fin M) then Fin M else req)"
  have "d_le r1 (Fin M)" using True by (cases req) (auto simp: r1_def d_gt_def)
  from clamp_spec [OF this assms(4)] obtain q where q: "clamp_assigned_difficulty s c r1 = Fin q" "0 < q" by blast
  have "apply_requested_diff s c req =
      (let rq = Fin (min q v) in if a < min q v then c\<lparr>requested_min_diff := rq, difficulty := rq\<rparr> else c\<lparr>requested_min_diff := rq\<rparr>)"
    using True q assms(3) by (auto simp: apply_requested_diff_def Let_def assms(1,2,5) r1_def d_gt_def min_def)
  then show ?thesis using q(2) assms(1,3) by (auto simp: Let_def)
qed

text \<open>
  A configuration is sound when every listener's policy is: a positive starting difficulty, a positive
  finite ceiling, a finite floor, and a finite limit on requests.
\<close>

definition sound_policy :: "double \<times> double \<times> double \<times> double \<Rightarrow> bool" where
  "sound_policy = (\<lambda>(init, lo, hi, mn). \<exists>i v m. init = Fin i \<and> 0 < i \<and> hi = Fin v \<and> 0 < v \<and> mn = Fin m \<and> 0 \<le> m)"

definition sound_cfg :: "stratum_cfg \<Rightarrow> bool" where
  "sound_cfg g \<longleftrightarrow> (\<exists>M. max_suggested_diff g = Fin M) \<and>
     (\<forall>pol \<in> set (start_listeners g). sound_policy (policy (conn_apply_listener (stratum_conn_new (start_cfg g)) pol)))"

text \<open>The most a connection can be asked for.\<close>

fun diff_ceiling :: "double \<times> double \<times> double \<times> double \<Rightarrow> rat" where
  "diff_ceiling (Fin i, lo, Fin v, Fin m) = max (max i v) (max m 1)"
| "diff_ceiling _ = 0"

definition diff_inv :: "stratum_cfg \<Rightarrow> stratum_conn \<Rightarrow> bool" where
  "diff_inv g c \<longleftrightarrow> sound_policy (policy c) \<and> (\<exists>M. max_suggested_diff g = Fin M) \<and>
     (\<exists>q. difficulty c = Fin q \<and> 0 < q \<and> q \<le> diff_ceiling (policy c) \<and> (authorized c \<longrightarrow> d_le (pol_min_diff c) (Fin q))) \<and>
     (\<exists>r. requested_min_diff c = Fin r \<and> 0 \<le> r)"

lemma sound_policyE:
  assumes "sound_policy (policy c)"
  obtains i v m where "pol_initial_diff c = Fin i" "0 < i" "pol_vardiff_max c = Fin v" "0 < v" "pol_min_diff c = Fin m" "0 \<le> m"
    "diff_ceiling (policy c) = max (max i v) (max m 1)"
  using assms by (auto simp: sound_policy_def policy_def)

lemma login_diffs_spec:
  assumes "diff_inv (cfg s) c"
  shows "\<exists>q r. login_diffs s c req = (Fin q, Fin r) \<and> 0 < q \<and> q \<le> diff_ceiling (policy c) \<and> d_le (pol_min_diff c) (Fin q) \<and> 0 \<le> r"
proof -
  obtain i v m where p: "pol_initial_diff c = Fin i" "0 < i" "pol_vardiff_max c = Fin v" "0 < v" "pol_min_diff c = Fin m" "0 \<le> m"
    "diff_ceiling (policy c) = max (max i v) (max m 1)"
    using assms by (auto simp: diff_inv_def elim!: sound_policyE)
  obtain M a r where g: "max_suggested_diff (cfg s) = Fin M" and a: "difficulty c = Fin a" "0 < a" "a \<le> diff_ceiling (policy c)"
    and r: "requested_min_diff c = Fin r" "0 \<le> r"
    using assms by (auto simp: diff_inv_def)
  define c1 where "c1 = (if d_gt req (Fin 0) then apply_requested_diff s c req else c)"
  have m1: "pol_min_diff c1 = Fin m" using p(5) by (simp add: c1_def apply_requested_diff_def Let_def)
  obtain a1 r1 where a1: "difficulty c1 = Fin a1" "a1 \<le> max a v" "requested_min_diff c1 = Fin r1" "0 \<le> r1"
    using apply_requested_spec [OF a(1) p(3,4,5) g r, of req] a r
    by (cases "d_gt req (Fin 0)") (auto simp: c1_def)
  obtain q where "clamp_assigned_difficulty s c1 (Fin a1) = Fin q" "0 < q" "m \<le> max q 0" "q \<le> max a1 (max m 1)"
    using clamp_spec [of "Fin a1" a1 c1 m s] m1 by auto
  moreover have "login_diffs s c req = (clamp_assigned_difficulty s c1 (difficulty c1), requested_min_diff c1)"
    using a by (simp add: login_diffs_def Let_def c1_def)
  moreover from calculation have "q \<le> diff_ceiling (policy c)"
    using a1(2) a(3) p(7) by (auto simp: max_def split: if_splits)
  ultimately show ?thesis using a1 p by auto
qed

lemma policy_accept: "policy (accept_conn s pol ip) = policy (conn_apply_listener (stratum_conn_new (cfg s)) pol)"
    "difficulty (accept_conn s pol ip) = pol_initial_diff (accept_conn s pol ip)"
  by (simp_all add: accept_conn_def conn_apply_listener_def Let_def policy_def)

lemma policy_settled:
  assumes "settled g' = settled g"
  shows "policy (conn_apply_listener (stratum_conn_new g') pol) = policy (conn_apply_listener (stratum_conn_new g) pol)" "max_suggested_diff g' = max_suggested_diff g"
proof -
  have "cfg_initial_diff (settled g') = cfg_initial_diff (settled g)" "cfg_vardiff_min (settled g') = cfg_vardiff_min (settled g)"
    "cfg_vardiff_max (settled g') = cfg_vardiff_max (settled g)" "max_suggested_diff (settled g') = max_suggested_diff (settled g)"
    using assms by simp_all
  then show "policy (conn_apply_listener (stratum_conn_new g') pol) = policy (conn_apply_listener (stratum_conn_new g) pol)" "max_suggested_diff g' = max_suggested_diff g"
    by (simp_all add: settled_def policy_def conn_apply_listener_def stratum_conn_new_def Let_def)
qed

lemma diff_inv_message:
  assumes inv: "diff_inv (cfg (w_srv w)) (w_conn w)" and "effect w w'"
  shows "diff_inv (cfg (w_srv w)) (w_conn w')"
proof -
  let ?c = "w_conn w"
  obtain i v m where p: "pol_initial_diff ?c = Fin i" "0 < i" "pol_vardiff_max ?c = Fin v" "0 < v" "pol_min_diff ?c = Fin m" "0 \<le> m"
    "diff_ceiling (policy ?c) = max (max i v) (max m 1)"
    using inv by (auto simp: diff_inv_def elim!: sound_policyE)
  obtain M a r where g: "max_suggested_diff (cfg (w_srv w)) = Fin M" and a: "difficulty ?c = Fin a" "0 < a" "a \<le> diff_ceiling (policy ?c)"
      "authorized ?c \<longrightarrow> d_le (pol_min_diff ?c) (Fin a)" and r: "requested_min_diff ?c = Fin r" "0 \<le> r"
    using inv by (auto simp: diff_inv_def)
  have base: "policy (w_conn w') = policy ?c \<Longrightarrow> account (w_conn w') = account ?c \<or> payout_address (w_conn w') = [] \<and> authorized (w_conn w') = authorized ?c \<Longrightarrow>
      diffs (w_conn w') = (Fin q, Fin r') \<Longrightarrow>
      0 < q \<Longrightarrow> q \<le> diff_ceiling (policy ?c) \<Longrightarrow> m \<le> q \<or> \<not> authorized ?c \<Longrightarrow> 0 \<le> r' \<Longrightarrow> ?thesis" for q r'
    using inv p by (auto simp: diff_inv_def account_def diffs_def) (auto simp: policy_def)
  show ?thesis using assms(2)
  proof cases
    case (suggest req)
    from apply_requested_spec [OF a(1) p(3,4,5) g r, of req] obtain a' r' where
      "diffs (w_conn w') = (Fin a', Fin r')" "a \<le> a'" "a' \<le> max a v" "0 \<le> r'" using suggest by (auto simp: diffs_def)
    moreover have "max a v \<le> diff_ceiling (policy ?c)" using a(3) p(7) by auto
    ultimately show ?thesis using suggest a p by (intro base [of a' r']) (auto intro: order_trans)
  next
    case (login addr req)
    with login_diffs_spec [OF inv, of req] inv show ?thesis
      by (auto simp: diff_inv_def diffs_def) (auto simp: policy_def)
  next
    case (submit h dup sdd)
    from submit(9) show ?thesis
    proof
      assume "diffs (w_conn w') = diffs ?c"
      then show ?thesis using submit a r p by (intro base [of a r]) (auto simp: diffs_def)
    next
      assume "\<exists>c t. policy c = policy ?c \<and> diffs c = diffs ?c \<and> diffs (w_conn w') = (vd_proposal (w_srv w) c t, requested_min_diff ?c)"
      then obtain c t where c: "policy c = policy ?c" "diffs c = diffs ?c" "diffs (w_conn w') = (vd_proposal (w_srv w) c t, Fin r)" using r by auto
      then have "pol_vardiff_max c = Fin v" "pol_min_diff c = Fin m" "difficulty c = Fin a" "requested_min_diff c \<noteq> NaN"
        using p a r by (auto simp: policy_def diffs_def)
      from vd_proposal_spec [OF this(3) a(2) this(1) p(4) this(2,4), of "w_srv w" t] obtain q where
        q: "vd_proposal (w_srv w) c t = Fin q" "0 < q" "m \<le> max q 0" "q \<le> max v (max m 1)" by blast
      from q(4) p(7) have "q \<le> diff_ceiling (policy ?c)" by auto
      then show ?thesis using submit(7,8) r q c(3) by (intro base [of q r]) auto
    qed
  qed (use inv in \<open>auto simp: diff_inv_def keeps_def view_defs\<close>)
qed

interpretation difficulties: conn_invariant sound_cfg diff_inv
proof
  show "diff_inv (cfg s) (accept_conn s pol ip)"
    if "sound_cfg g" "settled (cfg s) = settled (start_cfg g)" "pol \<in> set (start_listeners g)" for g s pol ip
  proof -
    have "sound_policy (policy (accept_conn s pol ip))"
      using that policy_settled(1) [OF that(2)] by (simp add: policy_accept sound_cfg_def)
    moreover have "\<exists>M. max_suggested_diff (cfg s) = Fin M"
      using that(1) policy_settled(2) [OF that(2)] by (auto simp: sound_cfg_def start_cfg_def Let_def)
    ultimately show ?thesis by (auto simp: diff_inv_def policy_accept(2) elim!: sound_policyE)
  qed
  show "diff_inv g' c" if "diff_inv g c" "settled g' = settled g" for g g' c
    using that(1) policy_settled(2) [OF that(2)] by (simp add: diff_inv_def)
qed (auto simp: diff_inv_message, auto simp: diff_inv_def same_views_def view_defs)

section \<open>Search spaces\<close>

definition live_nonces :: "stratum_conn list \<Rightarrow> byte list list" where
  "live_nonces cs = map extranonce1 (filter subscribed cs)"

definition nonce_view :: "stratum_conn \<Rightarrow> byte list \<times> bool" where
  "nonce_view c = (extranonce1 c, subscribed c)"

lemma live_nonces_view: "live_nonces cs = map fst (filter snd (map nonce_view cs))"
  by (induction cs) (auto simp: live_nonces_def nonce_view_def)

lemma same_views_nonce: "list_all2 same_views cs cs' \<Longrightarrow> map nonce_view cs' = map nonce_view cs"
  by (induction rule: list_all2_induct) (auto simp: same_views_def nonce_view_def ident_def)

lemma be_word_bytes_inj: "be_word_bytes a = be_word_bytes b \<Longrightarrow> a = b"
proof -
  assume "be_word_bytes a = be_word_bytes b"
  then have e: "ucast (drop_bit k a) = (ucast (drop_bit k b) :: byte)" if "k \<in> {0, 8, 16, 24}" for k
    using that by (auto simp: be_word_bytes_def)
  have b: "bit (ucast (drop_bit k x) :: byte) i \<longleftrightarrow> bit x (k + i)" if "i < 8" for k i and x :: u32
    using that by (simp add: bit_simps ac_simps)
  have q: "bit a (k + i) = bit b (k + i)" if "k \<in> {0, 8, 16, 24}" "i < 8" for k i
    using e [OF that(1)] b [OF that(2), of k a] b [OF that(2), of k b] by simp
  show "a = b"
  proof (rule bit_word_eqI)
    fix n assume "n < LENGTH(32)"
    moreover have "n mod 8 < 8" "n div 8 * 8 + n mod 8 = n" by simp_all
    moreover have "n div 8 * 8 \<in> {0, 8, 16, 24}" using \<open>n < LENGTH(32)\<close> by auto
    ultimately show "bit a n = bit b n" using q by metis
  qed
qed

text \<open>Counting from \<open>seq0\<close>: the connections that subscribed hold distinct numbers already handed out.\<close>

definition nonce_inv :: "u32 \<Rightarrow> nat \<Rightarrow> u32 \<Rightarrow> stratum_conn list \<Rightarrow> bool" where
  "nonce_inv seq0 n s cs \<longleftrightarrow> (\<exists>m \<le> n. s = seq0 + word_of_nat m \<and>
     (\<forall>b \<in> set (live_nonces cs). \<exists>k < m. b = be_word_bytes (seq0 + word_of_nat k)) \<and>
     (n \<le> 2 ^ 32 \<longrightarrow> distinct (live_nonces cs)))"

lemma nonce_inv_later: "nonce_inv seq0 n s cs \<Longrightarrow> nonce_inv seq0 (Suc n) s cs"
  by (auto simp: nonce_inv_def intro: le_SucI)

lemma nonce_inv_view: "nonce_inv seq0 n s cs \<Longrightarrow> map nonce_view cs' = map nonce_view cs \<Longrightarrow> nonce_inv seq0 n s cs'"
  by (simp add: nonce_inv_def live_nonces_view)

lemma nonce_inv_drop: "nonce_inv seq0 n s (xs @ c # ys) \<Longrightarrow> nonce_inv seq0 n s (xs @ ys)"
  unfolding nonce_inv_def live_nonces_def by (auto split: if_splits)

lemma nonce_inv_add: "nonce_inv seq0 n s cs \<Longrightarrow> \<not> subscribed c \<Longrightarrow> nonce_inv seq0 n s (c # cs)"
  by (simp add: nonce_inv_def live_nonces_def)

lemma nonce_inv_subscribe:
  assumes "nonce_inv seq0 n s (xs @ c # ys)" and "nonce_view c' = (be_word_bytes s, True)"
  shows "nonce_inv seq0 (Suc n) (s + 1) (xs @ c' # ys)"
proof -
  from nonce_inv_drop [OF assms(1)] obtain m where m: "m \<le> n" "s = seq0 + word_of_nat m"
    and old: "\<forall>b \<in> set (live_nonces (xs @ ys)). \<exists>k < m. b = be_word_bytes (seq0 + word_of_nat k)"
    and d: "n \<le> 2 ^ 32 \<longrightarrow> distinct (live_nonces (xs @ ys))"
    unfolding nonce_inv_def by blast
  have c': "subscribed c'" "extranonce1 c' = be_word_bytes s" using assms(2) by (auto simp: nonce_view_def)
  have live: "set (live_nonces (xs @ c' # ys)) = insert (be_word_bytes s) (set (live_nonces (xs @ ys)))"
    using c' by (auto simp: live_nonces_def)
  have fresh: "be_word_bytes s \<notin> set (live_nonces (xs @ ys))" if "Suc n \<le> 2 ^ 32"
  proof
    assume "be_word_bytes s \<in> set (live_nonces (xs @ ys))"
    then obtain k where k: "k < m" "be_word_bytes s = be_word_bytes (seq0 + word_of_nat k)" using old by blast
    then have "(word_of_nat m :: u32) = word_of_nat k" using be_word_bytes_inj m(2) by fastforce
    moreover have "m < 2 ^ LENGTH(32)" "k < 2 ^ LENGTH(32)" using that m(1) k(1) by simp_all
    ultimately show False using k(1) by (simp add: word_of_nat_eq_iff take_bit_nat_eq_self)
  qed
  have "Suc n \<le> 2 ^ 32 \<longrightarrow> distinct (live_nonces (xs @ c' # ys))"
    using fresh d c' by (auto simp: live_nonces_def)
  moreover have "s + 1 = seq0 + word_of_nat (Suc m)" using m(2) by simp
  moreover have "\<forall>b \<in> set (live_nonces (xs @ c' # ys)). \<exists>k < Suc m. b = be_word_bytes (seq0 + word_of_nat k)"
    using old m(2) unfolding live by (auto intro: less_SucI)
  ultimately show ?thesis using m(1) unfolding nonce_inv_def by blast
qed

lemma effect_nonce:
  assumes "effect w w'"
  shows "nonce_view (w_conn w') = nonce_view (w_conn w) \<and> extranonce1_seq (w_srv w') = extranonce1_seq (w_srv w) \<or>
    nonce_view (w_conn w') = (be_word_bytes (extranonce1_seq (w_srv w)), True) \<and> extranonce1_seq (w_srv w') = extranonce1_seq (w_srv w) + 1"
  using assms by cases (auto simp: keeps_def nonce_view_def ident_def shared_def)

lemma nonce_step:
  assumes "nonce_inv seq0 n (extranonce1_seq (sys_srv S)) (sys_conns S)" and "sys_step parse S S'"
  shows "nonce_inv seq0 (Suc n) (extranonce1_seq (sys_srv S')) (sys_conns S')"
  using assms(2)
proof cases
  case (message xs c ys ck line w)
  from effect_nonce [OF effect_message [OF message(3)]] show ?thesis
  proof
    assume "nonce_view (w_conn w) = nonce_view (w_conn (focus S c)) \<and> extranonce1_seq (w_srv w) = extranonce1_seq (w_srv (focus S c))"
    then show ?thesis using assms(1) message by (auto simp: focus_def intro!: nonce_inv_later elim!: nonce_inv_view)
  next
    assume "nonce_view (w_conn w) = (be_word_bytes (extranonce1_seq (w_srv (focus S c))), True) \<and>
        extranonce1_seq (w_srv w) = extranonce1_seq (w_srv (focus S c)) + 1"
    then show ?thesis using assms(1) message by (auto simp: focus_def intro: nonce_inv_subscribe)
  qed
next
  case (hangup xs c ys ck line w ck')
  have "extranonce1_seq (w_srv (conn_free ck' w)) = extranonce1_seq (w_srv w)"
    using keeps_conn_free [of w ck'] by (simp add: keeps_def shared_def)
  with effect_nonce [OF effect_message [OF hangup(3)]] show ?thesis
  proof (elim disjE)
    assume "nonce_view (w_conn w) = nonce_view (w_conn (focus S c)) \<and> extranonce1_seq (w_srv w) = extranonce1_seq (w_srv (focus S c))"
    then show ?thesis using assms(1) hangup(1,2) \<open>extranonce1_seq (w_srv (conn_free ck' w)) = extranonce1_seq (w_srv w)\<close>
      by (auto simp: focus_def intro!: nonce_inv_later elim!: nonce_inv_drop)
  next
    assume "nonce_view (w_conn w) = (be_word_bytes (extranonce1_seq (w_srv (focus S c))), True) \<and>
        extranonce1_seq (w_srv w) = extranonce1_seq (w_srv (focus S c)) + 1"
    then show ?thesis using assms(1) hangup(1,2) \<open>extranonce1_seq (w_srv (conn_free ck' w)) = extranonce1_seq (w_srv w)\<close>
        nonce_inv_drop [OF nonce_inv_subscribe [of seq0 n "extranonce1_seq (sys_srv S)" xs c ys "w_conn w"]]
      by (simp add: focus_def)
  qed
next
  case (gone xs c ys w ck)
  have "extranonce1_seq (w_srv w) = extranonce1_seq (sys_srv S)"
    using keeps_conn_free [of "focus S c" ck] gone(3) by (simp add: keeps_def shared_def focus_def)
  then show ?thesis using assms(1) gone(1,2) by (auto intro!: nonce_inv_later elim!: nonce_inv_drop)
next
  case (accept pol ip)
  then show ?thesis using assms(1) by (auto intro!: nonce_inv_later nonce_inv_add)
next
  case (new_job t j clean s outs)
  note f = set_job_effect [OF new_job(2)]
  show ?thesis using assms(1) f(3) same_views_nonce [OF f(5)] new_job(1)
    by (auto intro!: nonce_inv_later elim!: nonce_inv_view)
next
  case (environment node gate)
  then show ?thesis using assms(1) by (simp add: nonce_inv_later)
qed

section \<open>Credits\<close>

definition sys_credited :: "system \<Rightarrow> event list" where
  "sys_credited S = filter is_share_event (sys_log S)"

lemma effect_credits:
  assumes "effect w w'"
  obtains (quiet) "credited w' = credited w" "share_dd (w_srv w') = share_dd (w_srv w)"
  | (hashed) h dup where "share_dedupe_check_and_add (share_dd (w_srv w)) h = Some (dup, share_dd (w_srv w'))"
    "payout_address (w_conn w) \<noteq> []"
    "credited w' = credited w \<or> \<not> dup \<and> (\<exists>wk ts d blk. credited w' = credited w @ [EvShare wk (payout_address (w_conn w)) ts d blk (bytes_to_hex h)])"
  using assms
proof cases
  case (submit h dup sdd)
  then show thesis by (intro hashed [of h dup]) (auto simp: shared_def)
qed (auto intro!: quiet simp: keeps_def shared_def credited_def)

lemma credited_focus [simp]: "credited (focus S c) = sys_credited S" "share_dd (w_srv (focus S c)) = share_dd (sys_srv S)" "w_conn (focus S c) = c"
  by (simp_all add: credited_def sys_credited_def focus_def)

lemma sys_step_credits:
  assumes "sys_step parse S S'"
  obtains (quiet) "sys_credited S' = sys_credited S" "share_dd (sys_srv S') = share_dd (sys_srv S)"
  | (hashed) c h dup where "c \<in> set (sys_conns S)" "share_dedupe_check_and_add (share_dd (sys_srv S)) h = Some (dup, share_dd (sys_srv S'))"
    "payout_address c \<noteq> []"
    "sys_credited S' = sys_credited S \<or> \<not> dup \<and> (\<exists>wk ts d blk. sys_credited S' = sys_credited S @ [EvShare wk (payout_address c) ts d blk (bytes_to_hex h)])"
  using assms
proof cases
  case (message xs c ys ck line w)
  have w: "credited w = sys_credited S'" "share_dd (w_srv w) = share_dd (sys_srv S')" by (simp_all add: message(1) credited_def sys_credited_def)
  from effect_message [OF message(3)] show thesis
  proof (cases rule: effect_credits)
    case (hashed h dup)
    then show thesis using message(2) w by (intro that(2) [of c h dup]) auto
  qed (use w that(1) in auto)
next
  case (hangup xs c ys ck line w ck')
  have w: "credited w = sys_credited S'" "share_dd (w_srv w) = share_dd (sys_srv S')"
    using keeps_conn_free [of w ck'] by (simp_all add: hangup(1) credited_def sys_credited_def keeps_def shared_def)
  from effect_message [OF hangup(3)] show thesis
  proof (cases rule: effect_credits)
    case (hashed h dup)
    then show thesis using hangup(2) w by (intro that(2) [of c h dup]) auto
  qed (use w that(1) in auto)
next
  case (gone xs c ys w ck)
  show thesis using keeps_conn_free [of "focus S c" ck] gone
    by (intro that(1)) (simp_all add: keeps_def shared_def focus_def credited_def sys_credited_def)
next
  case (new_job t j clean s outs)
  then show thesis using set_job_effect [OF new_job(2)] by (intro that(1)) (simp_all add: sys_credited_def)
qed (auto intro: that(1) simp: sys_credited_def)

fun share_payee :: "event \<Rightarrow> string" where
  "share_payee (EvShare wk pa ts d blk hx) = pa"
| "share_payee _ = []"

lemma credit_addresses:
  assumes "sys_run parse (sys_start g now) n S"
  shows "\<forall>e \<in> set (sys_credited S). share_payee e \<noteq> [] \<and> check_username (start_cfg g) (share_payee e) = Ok ()"
  using assms
proof induction
  case start
  then show ?case by (simp add: sys_start_def sys_credited_def)
next
  case (step n S S')
  from step(2) show ?case
  proof (cases rule: sys_step_credits)
    case (hashed c h dup)
    have "account_inv (cfg (sys_srv S)) c" using accounts.everywhere [OF _ step(1) hashed(1)] by simp
    moreover have "settled (cfg (sys_srv S)) = settled (start_cfg g)" using accounts.reachable [OF _ step(1)] by (simp add: accounts.holds_def)
    ultimately have "check_username (start_cfg g) (payout_address c) = Ok ()"
      using hashed(3) by (simp add: account_inv_def check_username_settled [of "cfg (sys_srv S)" "start_cfg g"])
    then show ?thesis using step.IH hashed(3,4) by auto
  qed (use step.IH in simp)
qed

section \<open>No hash twice\<close>

fun share_hash :: "event \<Rightarrow> string" where
  "share_hash (EvShare wk pa ts d blk hx) = hx"
| "share_hash _ = []"

definition hash_key :: "byte list \<Rightarrow> u64" where
  "hash_key h = (let k = fnv1a_bytes h in if k = 0 then 1 else k)"

lemma bytes_to_hex_inj: "bytes_to_hex a = bytes_to_hex b \<Longrightarrow> a = b"
  by (metis hex_pairs_bytes_to_hex option.inject)

lemma dedupe_call:
  assumes "dedupe_inv s" and "share_dedupe_check_and_add s h = Some (dup, s')"
  shows "dedupe_inv s' \<and> dup = (hash_key h \<in> set (dedupe_fifo s)) \<and>
    dedupe_fifo s' = (if dup then dedupe_fifo s
      else (if length (dedupe_fifo s) = SHARE_DEDUPE_RING then tl (dedupe_fifo s) else dedupe_fifo s) @ [hash_key h])"
  using dedupe_step_refines [OF assms(1), of "fnv1a_bytes h"] assms(2)
  by (auto simp: share_dedupe_check_and_add_def fifo_add_def hash_key_def Let_def split: if_splits)

lemma dedupe_reachable: "sys_run parse (sys_start g now) n S \<Longrightarrow> dedupe_inv (share_dd (sys_srv S))"
proof (induction rule: sys_run.induct)
  case start
  then show ?case by (simp add: sys_start_def stratum_server_start_def dedupe_inv_init)
next
  case (step n S S')
  from step(2) show ?case
  proof (cases rule: sys_step_credits)
    case (hashed c h dup)
    then show ?thesis using dedupe_call [OF step.IH] by blast
  qed (use step.IH in simp)
qed

text \<open>
  What \<open>k\<close> steps from a state credit has its keys among the last \<open>k\<close> of the set, so the set cannot have
  forgotten them while \<open>k\<close> is at most its capacity.
\<close>

definition credits_since :: "event list \<Rightarrow> nat \<Rightarrow> system \<Rightarrow> bool" where
  "credits_since before k S \<longleftrightarrow> dedupe_inv (share_dd (sys_srv S)) \<and>
     (\<exists>added old late. sys_credited S = before @ added \<and> dedupe_fifo (share_dd (sys_srv S)) = old @ late \<and> length late \<le> k \<and>
        (\<forall>e \<in> set added. \<exists>h. share_hash e = bytes_to_hex h \<and> hash_key h \<in> set late) \<and> distinct (map share_hash added))"

lemma credits_since_step:
  assumes "credits_since before k S" and "sys_step parse S S'" and "k < SHARE_DEDUPE_RING"
  shows "credits_since before (Suc k) S'"
proof -
  obtain added old late where inv: "dedupe_inv (share_dd (sys_srv S))" "sys_credited S = before @ added"
    and q: "dedupe_fifo (share_dd (sys_srv S)) = old @ late" "length late \<le> k"
    and keys: "\<forall>e \<in> set added. \<exists>h. share_hash e = bytes_to_hex h \<and> hash_key h \<in> set late" and d: "distinct (map share_hash added)"
    using assms(1) by (auto simp: credits_since_def)
  from assms(2) show ?thesis
  proof (cases rule: sys_step_credits)
    case quiet
    then show ?thesis using inv q keys d unfolding credits_since_def by (auto intro: le_SucI)
  next
    case (hashed c h dup)
    note call = dedupe_call [OF inv(1) hashed(2)]
    show ?thesis
    proof (cases dup)
      case True
      then show ?thesis using inv q keys d call hashed(4) unfolding credits_since_def by (auto intro: le_SucI)
    next
      case False
      define old' where "old' = (if length (old @ late) = SHARE_DEDUPE_RING then tl old else old)"
      have "length (old @ late) = SHARE_DEDUPE_RING \<Longrightarrow> old \<noteq> []" using q(2) assms(3) by auto
      then have q': "dedupe_fifo (share_dd (sys_srv S')) = old' @ (late @ [hash_key h])"
        using call False q(1) by (auto simp: old'_def)
      have new: "hash_key h \<notin> set late" using call False q(1) by auto
      then have fresh: "bytes_to_hex h \<notin> set (map share_hash added)"
        using keys by (force dest: bytes_to_hex_inj)
      have late: "length (late @ [hash_key h]) \<le> Suc k" using q(2) by simp
      from hashed(4) show ?thesis
      proof
        assume "sys_credited S' = sys_credited S"
        then show ?thesis using call q' late keys d inv(2) unfolding credits_since_def
          by (intro conjI exI [of _ added] exI [of _ old'] exI [of _ "late @ [hash_key h]"]) auto
      next
        assume "\<not> dup \<and> (\<exists>wk ts d blk. sys_credited S' = sys_credited S @ [EvShare wk (payout_address c) ts d blk (bytes_to_hex h)])"
        then obtain wk ts df blk where c: "sys_credited S' = before @ (added @ [EvShare wk (payout_address c) ts df blk (bytes_to_hex h)])"
          using inv(2) by auto
        then show ?thesis using call q' late keys d fresh unfolding credits_since_def
          by (intro conjI exI [of _ "added @ [EvShare wk (payout_address c) ts df blk (bytes_to_hex h)]"] exI [of _ old'] exI [of _ "late @ [hash_key h]"]) auto
      qed
    qed
  qed
qed

lemma credits_since_run:
  assumes "sys_run parse S k S'" and "dedupe_inv (share_dd (sys_srv S))" and "k \<le> SHARE_DEDUPE_RING"
  shows "credits_since (sys_credited S) k S'"
  using assms
proof (induction rule: sys_run.induct)
  case start
  then show ?case by (auto simp: credits_since_def)
next
  case (step n S1 S2)
  then show ?case by (auto intro: credits_since_step)
qed

section \<open>A concrete run\<close>

definition demo_cfg :: stratum_cfg where
  "demo_cfg = \<lparr>max_conns = 2, listeners = [], max_suggested_diff = Fin 1000, cfg_initial_diff = Fin 1, operator_address = [], fee_bps = 0,
     coinbase_tag = [], coinbase_pays_pool = False, username_is_thunder = False, coinbase_pays_window = False,
     cfg_max_coinbase_bytes = 0, payout_floor_sats = 0, pps_accrues = False, pool_btc_address = [], pps_gate = None,
     pps_refuse_shares_below_min = False, vardiff_enabled = False, vardiff_target_spm = Fin 12, cfg_vardiff_min = Fin 1,
     cfg_vardiff_max = Fin 100000, vardiff_window_sec = 60, vardiff_min_samples = 0, vardiff_max_window_mult = 0,
     vardiff_idle_step = Fin 2, idle_timeout_sec = 0, idle_timeout_authorized_sec = 0, max_submits_per_sec = 0,
     auth_max_failures = 0, auth_fail_lockout_sec = 0, bind_port = 3333, on_share_set = True, on_reject_set = False,
     on_block = None, on_block_found_set = False, on_window_fractions_set = False\<rparr>"

definition demo_job :: stratum_job where
  "demo_job = stratum_job_new (Some ''j'') 0x20000000 None 5000000000 None 4 8 [] 0x207fffff 1000 (Some (replicate 32 0xff)) 1 [] None False 0"

fun demo_parse :: "string \<Rightarrow> json option" where
  "demo_parse s =
     (if s = ''A'' then Some (JObj [(''method'', JStr ''mining.authorize''), (''params'', JArr [JStr example_addr])])
      else if s = ''C'' then Some (JObj [(''method'', JStr ''mining.subscribe'')])
      else Some (JObj [(''method'', JStr ''mining.submit''),
             (''params'', JArr [JStr ''w'', JStr ''j'', JStr ''0000000000000000'', JStr ''000003e8'', JStr ''00000000''])]))"

definition demo_params :: "json option" where
  "demo_params = Some (JArr [JStr ''w'', JStr ''j'', JStr ''0000000000000000'', JStr ''000003e8'', JStr ''00000000''])"

definition demo_clock :: clock where
  "demo_clock = \<lparr>ck_now = 1, ck_now2 = 1, ck_mono = 1, ck_mono2 = 1\<rparr>"

definition demo_conn :: stratum_conn where
  "demo_conn = accept_conn (stratum_server_start demo_cfg 0) (hd (start_listeners demo_cfg)) ''192.0.2.1''"

lemma demo_username: "check_username (start_cfg demo_cfg) example_addr = Ok ()"
  by code_simp

lemma demo_split: "\<exists>p. coinbase_build_split 1 5000000000 (Some example_addr) (Some []) 0 None (Some []) (cb_salt demo_job) 4 8 = Ok (p, 5000000000, 0)"
proof -
  have "(case coinbase_build_split 1 5000000000 (Some example_addr) (Some []) 0 None (Some []) (cb_salt demo_job) 4 8 of Ok (p, x, y) \<Rightarrow> x = 5000000000 \<and> y = 0 | _ \<Rightarrow> False)"
    by code_simp
  then show ?thesis by (auto split: res.splits)
qed

lemma demo_start: "cfg (stratum_server_start demo_cfg 0) = demo_cfg\<lparr>idle_timeout_sec := 600, idle_timeout_authorized_sec := 7200\<rparr>"
  "current_job (stratum_server_start demo_cfg 0) = None" "share_dd (stratum_server_start demo_cfg 0) = share_dedupe_init"
  by (simp_all add: stratum_server_start_def start_cfg_def demo_cfg_def Let_def)

lemma demo_authorize:
  assumes "sys_srv S = stratum_server_start demo_cfg 0" and "sys_log S = []"
  shows "\<exists>w. stratum_handle_message demo_parse demo_clock (Some ''A'') (focus S demo_conn) = Ok (True, w) \<and> w_srv w = sys_srv S \<and> w_log w = [] \<and>
    authorized (w_conn w) \<and> payout_address (w_conn w) = example_addr \<and> cb_for_job_id (w_conn w) = [] \<and> c_dedupe (w_conn w) = c_dedupe demo_conn \<and>
    version_mask (w_conn w) = 0 \<and> \<not> subscribed (w_conn w)"
proof -
  have a: "takeWhile (\<lambda>ch. ch \<noteq> CHR ''.'') example_addr = example_addr" "\<not> 128 \<le> length example_addr" "example_addr \<noteq> []" by code_simp+
  have u: "check_username (demo_cfg\<lparr>idle_timeout_sec := 600, idle_timeout_authorized_sec := 7200\<rparr>) example_addr = Ok ()"
    using demo_username demo_start(1) by (simp add: stratum_server_start_def)
  have c: "difficulty demo_conn = Fin 1" "pol_min_diff demo_conn = Fin 0" "requested_min_diff demo_conn = Fin 0" "version_mask demo_conn = 0" "subscribed demo_conn = False"
    "cb_for_job_id demo_conn = []"
    by (simp_all add: demo_conn_def accept_conn_def conn_apply_listener_def start_listeners_def stratum_conn_new_def demo_start Let_def STRATUM_MAX_LISTENERS_def)
      (simp_all add: demo_cfg_def d_gt_def)
  have g: "auth_max_failures demo_cfg = 0" "pps_accrues demo_cfg = False" by (simp_all add: demo_cfg_def)
  show ?thesis
    by (simp add: a u c g assms stratum_handle_message_def MAX_LINE_BYTES_def dispatch_def handle_authorize_def auth_gate_def focus_def demo_start Let_def
      arr_item_def pps_gated_def authorize_ok_def auth_succeeded_def d_gt_def password_request_def parse_password_diff_def
      clamp_assigned_difficulty_def current_net_diff_def vd_reset_def emit_response_def emit_def send_set_difficulty_def send_current_notify_def stay_def demo_clock_def)
qed

lemma judge_total: "\<exists>v. judge c job h = Ok v"
proof -
  obtain t t' where "worker_diff_to_target (assigned_difficulty c job) = Ok t" "worker_diff_to_target (difficulty c) = Ok t'"
    using worker_target_total by metis
  then show ?thesis by (simp add: judge_def Let_def)
qed

lemma demo_submit:
  assumes "cfg s = cfg (stratum_server_start demo_cfg 0)" and "share_dd s = share_dedupe_init" and "current_job s = Some demo_job"
    and "authorized c" and "payout_address c = example_addr" and "cb_for_job_id c = []" and "c_dedupe c = c_dedupe demo_conn" and "version_mask c = 0"
    and "w_srv w = s" and "w_conn w = c" and "w_log w = []"
  shows "\<exists>w' e. stratum_handle_message demo_parse demo_clock (Some ''S'') w = Ok (True, w') \<and> credited w' = [e] \<and> share_payee e = example_addr \<and>
    handle_submit demo_clock None demo_params (w\<lparr>w_conn := c\<lparr>malformed_streak := 0\<rparr>\<rparr>) = Ok (True, w')"
proof -
  obtain p where p: "coinbase_build_split 1 5000000000 (Some example_addr) (Some []) 0 None (Some []) (cb_salt demo_job) 4 8 = Ok (p, 5000000000, 0)"
    using demo_split by blast
  have j: "job_id demo_job = ''j''" "coinbasetxn_hex demo_job = None" "height demo_job = 1" "value_sats demo_job = 5000000000" "wc_hex demo_job = None"
    "en1_size demo_job = 4" "en2_size demo_job = 8" "network_target_be demo_job = replicate 32 0xff" "payees demo_job = []" "job_ntime demo_job = 1000"
    "job_version demo_job = 0x20000000"
    by (simp_all add: demo_job_def stratum_job_new_def Let_def c_copy_def)
  have g: "operator_address (cfg s) = []" "fee_bps (cfg s) = 0" "coinbase_tag (cfg s) = []" "\<not> coinbase_pays_window (cfg s)" "\<not> coinbase_pays_pool (cfg s)"
    "max_submits_per_sec (cfg s) = 0" "\<not> pps_accrues (cfg s)" "on_block (cfg s) = None" "on_share_set (cfg s)" "\<not> on_block_found_set (cfg s)" "\<not> vardiff_enabled (cfg s)"
    by (simp_all add: assms(1) demo_start) (simp_all add: demo_cfg_def)
  define c0 where "c0 = c\<lparr>malformed_streak := 0\<rparr>"
  define w0 where "w0 = w\<lparr>w_conn := c0\<rparr>"
  let ?params = "Some (JArr [JStr ''w'', JStr ''j'', JStr ''0000000000000000'', JStr ''000003e8'', JStr ''00000000''])"
  have m: "stratum_handle_message demo_parse demo_clock (Some ''S'') w = handle_submit demo_clock None ?params w0"
    by (simp add: stratum_handle_message_def MAX_LINE_BYTES_def dispatch_def Let_def w0_def c0_def assms(10))
  have sub: "handle_submit demo_clock None ?params w0 =
      submit_with_job demo_clock None ?params demo_job (Some ''0000000000000000'') (Some ''000003e8'') (Some ''00000000'') w0"
    by (simp add: handle_submit_def w0_def c0_def assms(2-11) submit_rate_exceeded_def g Let_def arr_item_def pps_gated_def find_job_def j)
  have hex: "parse_u32_hex (Some ''000003e8'') = Some 1000" "parse_u32_hex (Some ''00000000'') = Some 0"
    "hex_to_bytes_alloc (Some ''0000000000000000'') = Some (replicate 8 0)" by code_simp+
  obtain dd where dd: "dedupe_check_and_add (c_dedupe demo_conn) (Some ''j'') (Some ''0000000000000000'') (Some ''000003e8'') (Some ''00000000'') 0x20000000 = (False, dd)"
  proof -
    have "fnv1a (dedupe_key (Some ''j'') (Some ''0000000000000000'') (Some ''000003e8'') (Some ''00000000'') 0x20000000) \<noteq> 0" by code_simp
    moreover have "dedupe (c_dedupe demo_conn) = replicate DEDUPE_RING 0"
      by (simp add: demo_conn_def accept_conn_def conn_apply_listener_def stratum_conn_new_def Let_def)
    ultimately show ?thesis by (intro that) (simp add: dedupe_check_and_add_def Let_def)
  qed
  let ?c1 = "c0\<lparr>c_dedupe := dd\<rparr>"
  define c2 where "c2 = ?c1\<lparr>c_cb := p, cb_for_job_id := c_copy 32 ''j''\<rparr>"
  have "render_finder_coinbase s ?c1 demo_job = Ok p"
    by (simp add: render_finder_coinbase_def render_single_def Let_def g j p c0_def assms(5))
  moreover have "example_addr \<noteq> []" by (simp add: example_addr_def)
  ultimately have r: "conn_render_coinbase s ?c1 demo_job = Ok (True, c2)"
    by (simp add: conn_render_coinbase_def g j c2_def c0_def assms(2-11))
  define hd where "hd = submit_header 0x20000000 demo_job (submit_coinbase c2 (replicate 8 0)) 1000 0"
  obtain sdd where sdd: "share_dedupe_check_and_add share_dedupe_init (hash_header hd) = Some (False, sdd)"
    using dedupe_step_refines [OF dedupe_inv_init, of "fnv1a_bytes (hash_header hd)"]
    by (auto simp: share_dedupe_check_and_add_def dedupe_fifo_init fifo_add_def)
  obtain v where v: "judge c2 demo_job (hash_header hd) = Ok v" using judge_total by blast
  have ff: "be_val (hash_header hd) \<le> be_val (replicate 32 0xff)"
    using be_val_bound [of "hash_header hd"] by (simp add: be_val_ones)
  have blk: "v_is_block v" using judge_sound(1) [OF v] ff by (simp add: j)
  define w2 where "w2 = w0\<lparr>w_conn := c2, w_srv := s\<lparr>share_dd := sdd\<rparr>\<rparr>"
  have s2: "submit_with_job demo_clock None ?params demo_job (Some ''0000000000000000'') (Some ''000003e8'') (Some ''00000000'') w0 =
      accept_share demo_clock None demo_job (submit_coinbase c2 (replicate 8 0)) hd (hash_header hd) v w2"
    using r sdd v blk
    by (simp add: submit_with_job_def submit_version_def j dd hex ntime_in_range_def NTIME_MAX_FORWARD_ROLL_def NTIME_MAX_BACKWARD_ROLL_def Let_def
        w0_def c0_def assms(2-11) hd_def [symmetric] w2_def)
  obtain a why w3 where b: "submit_block demo_job (submit_coinbase c2 (replicate 8 0)) hd w2 = (a, why, w3)"
    by (cases "submit_block demo_job (submit_coinbase c2 (replicate 8 0)) hd w2") auto
  have w3: "cfg (w_srv w3) = cfg s" using submit_block_quiet [OF b] by (simp add: w2_def)
  obtain w' where acc: "accept_share demo_clock None demo_job (submit_coinbase c2 (replicate 8 0)) hd (hash_header hd) v w2 = Ok (True, w')"
    unfolding accept_share_def Let_def b using blk
    by (simp add: b w3 g vardiff_maybe_retarget_def report_fractions_def report_block_def Let_def stay_def)
  have "credited w' = [EvShare (worker_name c2) example_addr 1 (v_share_diff v) True (bytes_to_hex (hash_header hd))]"
    using accept_share_credits [OF acc] blk assms(2-11) by (simp add: w2_def w0_def g credited_def demo_clock_def c2_def c0_def)
  then show ?thesis using m sub s2 acc by (simp add: demo_params_def w0_def c0_def)
qed

definition demo_state :: "stratum_conn list \<Rightarrow> system" where
  "demo_state cs = \<lparr>sys_srv = stratum_server_start demo_cfg 0, sys_conns = cs, sys_log = []\<rparr>"

lemma demo_state_start: "demo_state [] = sys_start demo_cfg 0"
  by (simp add: demo_state_def sys_start_def)

lemma demo_accept: "length cs < 2 \<Longrightarrow> sys_step demo_parse (demo_state cs) (demo_state (demo_conn # cs))"
proof -
  assume n: "length cs < 2"
  have "sys_step demo_parse (demo_state cs) ((demo_state cs)\<lparr>sys_conns := accept_conn (sys_srv (demo_state cs)) (hd (start_listeners demo_cfg)) ''192.0.2.1'' # sys_conns (demo_state cs)\<rparr>)"
    by (rule sys_step.accept)
      (use n in \<open>simp_all add: demo_state_def demo_start demo_cfg_def start_listeners_def stratum_server_start_def STRATUM_MAX_LISTENERS_def start_cfg_def Let_def\<close>)
  then show ?thesis by (simp add: demo_state_def demo_conn_def)
qed

lemma demo_credit: "\<exists>S e. sys_run demo_parse (sys_start demo_cfg 0) 4 S \<and> sys_credited S = [e] \<and> share_payee e = example_addr"
proof -
  have r1: "sys_run demo_parse (sys_start demo_cfg 0) 1 (demo_state [demo_conn])"
    using sys_run.step [OF sys_run.start demo_accept [of "[]", unfolded demo_state_start]] by simp
  obtain w where a: "stratum_handle_message demo_parse demo_clock (Some ''A'') (focus (demo_state [demo_conn]) demo_conn) = Ok (True, w)"
    and w: "w_srv w = stratum_server_start demo_cfg 0" "w_log w = []" "authorized (w_conn w)" "payout_address (w_conn w) = example_addr" "cb_for_job_id (w_conn w) = []"
      "c_dedupe (w_conn w) = c_dedupe demo_conn" "version_mask (w_conn w) = 0" "\<not> subscribed (w_conn w)"
    using demo_authorize [of "demo_state [demo_conn]"] by (auto simp: demo_state_def)
  have "sys_step demo_parse (demo_state [demo_conn]) (demo_state [w_conn w])"
    using sys_step.message [OF _ a, of "[]" "[]"] w by (simp add: demo_state_def)
  then have r2: "sys_run demo_parse (sys_start demo_cfg 0) 2 (demo_state [w_conn w])" using sys_run.step [OF r1] by (simp add: eval_nat_numeral)
  define s where "s = (stratum_server_start demo_cfg 0)\<lparr>current_job := Some demo_job\<rparr>"
  define S where "S = \<lparr>sys_srv = s, sys_conns = [w_conn w], sys_log = []\<rparr>"
  have "stratum_server_set_job 0 (sys_srv (demo_state [w_conn w])) demo_job True (map (Pair True) (sys_conns (demo_state [w_conn w]))) = Ok (s, [((True, w_conn w), [])])"
    using w(8) by (simp add: stratum_server_set_job_def demo_state_def demo_start s_def Let_def)
  from sys_step.new_job [OF this] have "sys_step demo_parse (demo_state [w_conn w]) S" by (simp add: S_def demo_state_def)
  then have r3: "sys_run demo_parse (sys_start demo_cfg 0) 3 S" using sys_run.step [OF r2] by (simp add: eval_nat_numeral)
  obtain w' e where m: "stratum_handle_message demo_parse demo_clock (Some ''S'') (focus S (w_conn w)) = Ok (True, w')" "credited w' = [e]" "share_payee e = example_addr"
    using demo_submit [of s "w_conn w" "focus S (w_conn w)"] w by (auto simp: s_def S_def demo_start focus_def)
  define S' where "S' = \<lparr>sys_srv = w_srv w', sys_conns = [w_conn w'], sys_log = w_log w'\<rparr>"
  have "sys_step demo_parse S S'" using sys_step.message [OF _ m(1), of "[]" "[]"] by (simp add: S_def S'_def)
  then have "sys_run demo_parse (sys_start demo_cfg 0) 4 S'" using sys_run.step [OF r3] by (simp add: eval_nat_numeral)
  then show ?thesis using m(2,3) by (auto simp: S'_def sys_credited_def credited_def)
qed

lemma demo_subscribe: "\<exists>w. stratum_handle_message demo_parse demo_clock (Some ''C'') (focus S c) = Ok (True, w) \<and> subscribed (w_conn w)"
  by (simp add: stratum_handle_message_def MAX_LINE_BYTES_def dispatch_def Let_def handle_subscribe_def stay_def emit_response_def emit_def)

lemma demo_two_subscribed: "\<exists>S. sys_run demo_parse (sys_start demo_cfg 0) 4 S \<and> length (live_nonces (sys_conns S)) = 2"
proof -
  have r1: "sys_run demo_parse (sys_start demo_cfg 0) 1 (demo_state [demo_conn])"
    using sys_run.step [OF sys_run.start demo_accept [of "[]", unfolded demo_state_start]] by simp
  then have r2: "sys_run demo_parse (sys_start demo_cfg 0) 2 (demo_state [demo_conn, demo_conn])"
    using sys_run.step [OF r1 demo_accept [of "[demo_conn]"]] by (simp add: eval_nat_numeral)
  obtain w where w: "stratum_handle_message demo_parse demo_clock (Some ''C'') (focus (demo_state [demo_conn, demo_conn]) demo_conn) = Ok (True, w)" "subscribed (w_conn w)"
    using demo_subscribe by blast
  define S where "S = \<lparr>sys_srv = w_srv w, sys_conns = [w_conn w, demo_conn], sys_log = w_log w\<rparr>"
  have "sys_step demo_parse (demo_state [demo_conn, demo_conn]) S"
    using sys_step.message [OF _ w(1), of "[]" "[demo_conn]"] by (simp add: demo_state_def S_def)
  then have r3: "sys_run demo_parse (sys_start demo_cfg 0) 3 S" using sys_run.step [OF r2] by (simp add: eval_nat_numeral)
  obtain w' where w': "stratum_handle_message demo_parse demo_clock (Some ''C'') (focus S demo_conn) = Ok (True, w')" "subscribed (w_conn w')"
    using demo_subscribe by blast
  define S' where "S' = \<lparr>sys_srv = w_srv w', sys_conns = [w_conn w, w_conn w'], sys_log = w_log w'\<rparr>"
  have "sys_step demo_parse S S'" using sys_step.message [OF _ w'(1), of "[w_conn w]" "[]"] by (simp add: S_def S'_def)
  then have "sys_run demo_parse (sys_start demo_cfg 0) 4 S'" using sys_run.step [OF r3] by (simp add: eval_nat_numeral)
  moreover have "length (live_nonces (sys_conns S')) = 2" using w(2) w'(2) by (simp add: S'_def live_nonces_def)
  ultimately show ?thesis by blast
qed

definition demo_world :: world where
  "demo_world = \<lparr>w_srv = (stratum_server_start demo_cfg 0)\<lparr>current_job := Some demo_job\<rparr>,
     w_conn = demo_conn\<lparr>authorized := True, payout_address := example_addr, malformed_streak := 0\<rparr>, w_out = [], w_log = []\<rparr>"

theorem submit_credit_sound_witness:
  "\<exists>w' cl d blk. handle_submit demo_clock None demo_params demo_world = Ok (True, w') \<and> cl_job cl = demo_job \<and>
     credited w' = [EvShare [] example_addr 1 d blk (bytes_to_hex (claim_hash (w_conn w') cl))] \<and>
     (blk \<longleftrightarrow> be_val (claim_hash (w_conn w') cl) \<le> be_val (replicate 32 0xff))"
proof -
  have c: "cb_for_job_id demo_conn = []" "version_mask demo_conn = 0" "worker_name demo_conn = []"
    by (simp_all add: demo_conn_def accept_conn_def conn_apply_listener_def start_listeners_def stratum_conn_new_def demo_start Let_def STRATUM_MAX_LISTENERS_def)
  have on: "on_share_set (cfg (w_srv demo_world))" by (simp add: demo_world_def demo_start) (simp add: demo_cfg_def)
  have f: "find_job (w_srv demo_world) (valuestring (arr_item demo_params 1)) = Some demo_job"
    by (simp add: find_job_def demo_world_def demo_params_def arr_item_def demo_job_def stratum_job_new_def Let_def c_copy_def)
  have t: "network_target_be demo_job = replicate 32 0xff" by (simp add: demo_job_def stratum_job_new_def Let_def)
  obtain w' e where s: "handle_submit demo_clock None demo_params demo_world = Ok (True, w')" "credited w' = [e]"
    using demo_submit [of "w_srv demo_world" "w_conn demo_world" demo_world] c by (auto simp: demo_world_def demo_start)
  have "credited demo_world = []" by (simp add: credited_def demo_world_def)
  with submit_credit_sound [OF s(1) on] s(2) f t obtain cl d blk where
    cl: "claim_of demo_params demo_world cl" and h: "blk \<longleftrightarrow> be_val (claim_hash (w_conn w') cl) \<le> be_val (network_target_be (cl_job cl))"
    and cr: "credited w' = [EvShare (worker_name (w_conn demo_world)) (payout_address (w_conn demo_world)) (ck_now demo_clock) d blk (bytes_to_hex (claim_hash (w_conn w') cl))]"
    unfolding Let_def by force
  have "cl_job cl = demo_job" using cl f by (simp add: claim_of_def)
  then show ?thesis using s(1) h cr t c
    by (intro exI [of _ w'] exI [of _ cl] exI [of _ d] exI [of _ blk]) (simp add: demo_world_def demo_clock_def)
qed

section \<open>The cached coinbase\<close>

definition cached :: "stratum_conn \<Rightarrow> coinbase_parts \<times> string" where
  "cached c = (c_cb c, cb_for_job_id c)"

text \<open>Nothing of an authorize before its notify touches the cache, and a notify for the cached job keeps it.\<close>

lemma cached_auth: "auth_gate ck rid w = Inl w' \<Longrightarrow> cached (w_conn w') = cached (w_conn w)"
    "auth_gate ck rid w = Inr (over, w') \<Longrightarrow> cached (w_conn w') = cached (w_conn w) \<and> current_job (w_srv w') = current_job (w_srv w)"
    "auth_failed ck w = Ok (k, w') \<Longrightarrow> cached (w_conn w') = cached (w_conn w)"
    "cached (w_conn (auth_succeeded ck w)) = cached (w_conn w) \<and> current_job (w_srv (auth_succeeded ck w)) = current_job (w_srv w)"
  by (auto simp: auth_gate_def auth_failed_def auth_succeeded_def Let_def cached_def emit_error_def emit_response_def emit_def stay_def close_def
      split: if_splits prod.splits option.splits)

lemma cached_conn [simp]: "cached (apply_requested_diff s c r) = cached c" "cached (vd_reset t c) = cached c" "cached (conn_record_job_difficulty c j d) = cached c"
    "cached (c\<lparr>payout_address := a\<rparr>) = cached c" "cached (c\<lparr>worker_name := n\<rparr>) = cached c" "cached (c\<lparr>authorized := b\<rparr>) = cached c" "cached (c\<lparr>difficulty := x\<rparr>) = cached c"
  by (auto simp: apply_requested_diff_def vd_reset_def conn_record_job_difficulty_def Let_def cached_def split: option.splits)

lemma w_conn_emit [simp]: "w_conn (emit j w) = w_conn w" "w_conn (emit_response rid r e w) = w_conn w" "w_conn (emit_error rid n m w) = w_conn w"
    "w_conn (send_set_difficulty d w) = w_conn w" "w_conn (on_reject wk ts m w) = w_conn w" "w_srv (on_reject wk ts m w) = w_srv w"
    "w_srv (emit j w) = w_srv w" "w_srv (emit_response rid r e w) = w_srv w" "w_srv (send_set_difficulty d w) = w_srv w"
  by (simp_all add: emit_def emit_response_def emit_error_def send_set_difficulty_def on_reject_def)

lemma cached_render:
  assumes "conn_render_coinbase s c j = Ok (ok, c')" and "cb_for_job_id c = job_id j" and "job_id j \<noteq> []"
  shows "c' = c"
  using assms by (auto simp: conn_render_coinbase_def split: if_splits)

lemma cached_notify:
  assumes "send_current_notify clean w = Ok w'" and "current_job (w_srv w) = Some j" and "cb_for_job_id (w_conn w) = job_id j" and "job_id j \<noteq> []"
  shows "cached (w_conn w') = cached (w_conn w)"
  using assms by (auto simp: send_current_notify_def Let_def bindR_Ok_iff split: if_splits dest!: cached_render)

lemma cached_authorize_ok:
  assumes "authorize_ok ck rid worker pw w = Ok (k, w')" and "current_job (w_srv w) = Some j" and "cb_for_job_id (w_conn w) = job_id j" and "job_id j \<noteq> []"
  shows "cached (w_conn w') = cached (w_conn w)"
proof -
  define wa where "wa = auth_succeeded ck (w\<lparr>w_conn := (w_conn w)\<lparr>worker_name := sanitize_worker worker 129\<rparr>\<rparr>)"
  have wa: "cached (w_conn wa) = cached (w_conn w)" "current_job (w_srv wa) = Some j"
    using cached_auth(4) [of ck "w\<lparr>w_conn := (w_conn w)\<lparr>worker_name := sanitize_worker worker 129\<rparr>\<rparr>"] assms(2) by (simp_all add: wa_def)
  obtain w1 where n: "send_current_notify True w1 = Ok w'" "cached (w_conn w1) = cached (w_conn wa)" "w_srv w1 = w_srv wa"
    using assms(1) unfolding authorize_ok_def Let_def wa_def [symmetric]
    by (auto simp: bindR_Ok_iff stay_def)
  then show ?thesis using cached_notify [OF n(1)] wa assms(3,4) by (simp add: cached_def)
qed

lemma cached_authorize:
  assumes "handle_authorize ck rid params w = Ok (k, w')" and "current_job (w_srv w) = Some j" and "cb_for_job_id (w_conn w) = job_id j" and "job_id j \<noteq> []"
  shows "cached (w_conn w') = cached (w_conn w)"
proof (cases "auth_gate ck rid w")
  case (Inl w1)
  with assms(1) cached_auth(1) show ?thesis by (auto simp: handle_authorize_def close_def)
next
  case (Inr ow)
  then obtain over w1 where g: "auth_gate ck rid w = Inr (over, w1)" by (cases ow) auto
  note c = cached_auth(2) [OF g]
  from c have j: "current_job (w_srv w1) = Some j" "cb_for_job_id (w_conn w1) = job_id j" using assms(2,3) by (auto simp: cached_def)
  have "cached (w_conn w') = cached (w_conn w1)"
    using assms(1) g j assms(4)
    by (auto simp: handle_authorize_def Let_def stay_def split: if_splits option.splits res.splits dest!: cached_auth(3) cached_authorize_ok)
  then show ?thesis using c by simp
qed

lemma notify_cached:
  assumes "current_job (w_srv w) = Some j" and "cb_for_job_id (w_conn w) = job_id j" and "job_id j \<noteq> []" and "authorized (w_conn w)" and "payout_address (w_conn w) \<noteq> []"
  shows "\<exists>w'. send_current_notify clean w = Ok w' \<and> account (w_conn w') = account (w_conn w)"
  using assms by (simp add: send_current_notify_def conn_render_coinbase_def Let_def)

lemma authorize_ok_cached:
  assumes "current_job (w_srv w) = Some j" and "cb_for_job_id (w_conn w) = job_id j" and "job_id j \<noteq> []" and "payout_address (w_conn w) \<noteq> []"
  shows "\<exists>w'. authorize_ok ck rid worker pw w = Ok (True, w') \<and> account (w_conn w') = (True, payout_address (w_conn w))"
proof -
  define wa where "wa = auth_succeeded ck (w\<lparr>w_conn := (w_conn w)\<lparr>worker_name := sanitize_worker worker 129\<rparr>\<rparr>)"
  have wa: "cb_for_job_id (w_conn wa) = job_id j" "current_job (w_srv wa) = Some j" "payout_address (w_conn wa) = payout_address (w_conn w)"
    using cached_auth(4) [of ck "w\<lparr>w_conn := (w_conn w)\<lparr>worker_name := sanitize_worker worker 129\<rparr>\<rparr>"]
      keeps_auth_succeeded [of "w\<lparr>w_conn := (w_conn w)\<lparr>worker_name := sanitize_worker worker 129\<rparr>\<rparr>" ck] assms(1,2)
    by (simp_all add: wa_def cached_def keeps_def account_def)
  obtain w1 where a: "authorize_ok ck rid worker pw w = bindR (send_current_notify True w1) stay"
    and w1: "cached (w_conn w1) = cached (w_conn wa)" "w_srv w1 = w_srv wa" "account (w_conn w1) = (True, payout_address (w_conn wa))"
  proof -
    define cb where "cb = (let c = (w_conn wa)\<lparr>authorized := True\<rparr> in if d_le (difficulty c) (Fin 0) then c\<lparr>difficulty := pol_initial_diff c\<rparr> else c)"
    define req where "req = (if d_gt pw (Fin 0) then pw else requested_min_diff cb)"
    define cc where "cc = (if d_gt req (Fin 0) then apply_requested_diff (w_srv wa) cb req else cb)"
    define cd where "cd = vd_reset (ck_now ck) (cc\<lparr>difficulty := clamp_assigned_difficulty (w_srv wa) cc (difficulty cc)\<rparr>)"
    have "account cb = (True, payout_address (w_conn wa))" "cached cb = cached (w_conn wa)" by (simp_all add: cb_def Let_def account_def cached_def)
    then have "account cd = (True, payout_address (w_conn wa))" "cached cd = cached (w_conn wa)"
      by (auto simp: cd_def cc_def) (auto simp: vd_reset_def account_def apply_requested_diff_def Let_def)
    then show ?thesis
      by (intro that [of "send_set_difficulty (difficulty cd) (emit_response rid (Some (JBool True)) None (wa\<lparr>w_conn := cd\<rparr>))"])
        (simp_all add: authorize_ok_def wa_def cb_def req_def cc_def cd_def Let_def)
  qed
  with notify_cached [of w1 j True] wa assms(3,4) show ?thesis by (auto simp: stay_def cached_def account_def)
qed

definition demo_other :: string where
  "demo_other = ''bc1qrp33g0q5c5txsp9arysrx4k6zdkfs4nce4xj0gdcccefvpysxf3qccfmv3''"

text \<open>
  A connection that already rendered a coinbase for the current job and authorizes again as somebody
  else keeps the old coinbase: whatever the new address is, the coinbase of that job is the one that was
  rendered for the old one, and the next render returns it unchanged. Shares are credited to the new
  address while a block found on the job pays the old one.
\<close>

theorem reauthorize_keeps_coinbase:
  assumes "conn_render_coinbase (w_srv w) c0 j = Ok (True, w_conn w)" and "job_id j \<noteq> []" and "length (job_id j) < 32"
    and "current_job (w_srv w) = Some j" and "handle_authorize ck rid params w = Ok (k, w')"
    and "authorized (w_conn w')" and "payout_address (w_conn w') \<noteq> []"
  shows "c_cb (w_conn w') = c_cb (w_conn w) \<and> conn_render_coinbase (w_srv w') (w_conn w') j = Ok (True, w_conn w')"
proof -
  have "cb_for_job_id (w_conn w) = job_id j"
    using render_True [OF assms(1)] assms(3) by (metis c_copy_def take_all less_Suc_eq_le Suc_pred' zero_less_numeral diff_Suc_1 numeral_eq_Suc pred_numeral_simps(2))
  then have "cached (w_conn w') = cached (w_conn w)" by (rule cached_authorize [OF assms(5,4) _ assms(2)])
  then show ?thesis using assms(2,6,7) \<open>cb_for_job_id (w_conn w) = job_id j\<close> by (simp add: cached_def conn_render_coinbase_def)
qed

lemma demo_other_ok: "takeWhile (\<lambda>ch. ch \<noteq> CHR ''.'') demo_other = demo_other" "\<not> 128 \<le> length demo_other" "demo_other \<noteq> []" "demo_other \<noteq> example_addr"
    "check_username (start_cfg demo_cfg) demo_other = Ok ()"
  by code_simp+

theorem reauthorize_keeps_coinbase_witness:
  "\<exists>w w' p. coinbase_build_split 1 5000000000 (Some example_addr) (Some []) 0 None (Some []) (cb_salt demo_job) 4 8 = Ok (p, 5000000000, 0) \<and>
     handle_authorize demo_clock None (Some (JArr [JStr demo_other])) w = Ok (True, w') \<and>
     payout_address (w_conn w) = example_addr \<and> payout_address (w_conn w') = demo_other \<and> c_cb (w_conn w') = p"
proof -
  obtain p where p: "coinbase_build_split 1 5000000000 (Some example_addr) (Some []) 0 None (Some []) (cb_salt demo_job) 4 8 = Ok (p, 5000000000, 0)"
    using demo_split by blast
  define c where "c = demo_conn\<lparr>authorized := True, payout_address := example_addr, c_cb := p, cb_for_job_id := ''j''\<rparr>"
  define w where "w = \<lparr>w_srv = (stratum_server_start demo_cfg 0)\<lparr>current_job := Some demo_job\<rparr>, w_conn = c, w_out = [], w_log = []\<rparr>"
  have j: "job_id demo_job = ''j''" by (simp add: demo_job_def stratum_job_new_def Let_def c_copy_def)
  have "example_addr \<noteq> []" by (simp add: example_addr_def)
  then have r: "conn_render_coinbase (w_srv w) c demo_job = Ok (True, w_conn w)"
    by (simp add: conn_render_coinbase_def w_def c_def j)
  have g: "auth_max_failures demo_cfg = 0" "pps_accrues demo_cfg = False" by (simp_all add: demo_cfg_def)
  have u: "check_username (demo_cfg\<lparr>idle_timeout_sec := 600, idle_timeout_authorized_sec := 7200\<rparr>) demo_other = Ok ()"
    using demo_other_ok(5) demo_start(1) by (simp add: stratum_server_start_def)
  obtain w' where w': "handle_authorize demo_clock None (Some (JArr [JStr demo_other])) w = Ok (True, w')"
    and a: "authorized (w_conn w')" "payout_address (w_conn w') = demo_other"
  proof -
    have "handle_authorize demo_clock None (Some (JArr [JStr demo_other])) w =
        authorize_ok demo_clock None demo_other (password_request (Some (JArr [JStr demo_other]))) (w\<lparr>w_conn := (w_conn w)\<lparr>payout_address := demo_other\<rparr>\<rparr>)"
      by (simp add: demo_other_ok(1,2,3) u g handle_authorize_def auth_gate_def demo_start Let_def w_def arr_item_def pps_gated_def)
    moreover have "\<exists>w'. authorize_ok demo_clock None demo_other (password_request (Some (JArr [JStr demo_other]))) (w\<lparr>w_conn := (w_conn w)\<lparr>payout_address := demo_other\<rparr>\<rparr>) =
        Ok (True, w') \<and> account (w_conn w') = (True, demo_other)"
      using authorize_ok_cached [of "w\<lparr>w_conn := (w_conn w)\<lparr>payout_address := demo_other\<rparr>\<rparr>" demo_job] demo_other_ok(3) by (simp add: w_def c_def j)
    ultimately have "\<exists>w'. handle_authorize demo_clock None (Some (JArr [JStr demo_other])) w = Ok (True, w') \<and> authorized (w_conn w') \<and> payout_address (w_conn w') = demo_other"
      by (auto simp: account_def)
    then show ?thesis using that by blast
  qed
  from reauthorize_keeps_coinbase [OF r _ _ _ w' a(1)] have "c_cb (w_conn w') = p"
    using a demo_other_ok(3) by (simp add: j w_def c_def)
  then show ?thesis using p w' a(2) by (intro exI [of _ w] exI [of _ w'] exI [of _ p]) (simp add: w_def c_def)
qed

theorem submit_rate_bounded_witness:
  "\<exists>s. max_submits_per_sec (cfg s) = 2 \<and> accepted (rate_run s demo_conn [5000, 5001]) = 2 \<and>
     accepted (rate_run s demo_conn [5000, 5001, 5002, 5003, 5004, 5005]) \<le> 4"
proof -
  define s where "s = (stratum_server_start demo_cfg 0)\<lparr>cfg := demo_cfg\<lparr>max_submits_per_sec := 2\<rparr>\<rparr>"
  have L: "max_submits_per_sec (cfg s) = 2" by (simp add: s_def)
  have c: "rl_window_start_ms demo_conn = 0"
    by (simp add: demo_conn_def accept_conn_def conn_apply_listener_def stratum_conn_new_def Let_def)
  have "accepted (rate_run s demo_conn [5000, 5001]) = 2"
    using submit_rate_bounded [OF L, of "[5001]" demo_conn 5000] c by (simp del: rate_run.simps)
  moreover have "accepted (rate_run s demo_conn [5000, 5001, 5002, 5003, 5004, 5005]) \<le> 4"
    using submit_rate_bounded [OF L, of "[5000, 5001, 5002, 5003, 5004, 5005]" demo_conn] by (simp del: rate_run.simps)
  ultimately show ?thesis using L by blast
qed

section \<open>Properties\<close>

text \<open>
  C7: whatever lines arrive on whatever connections in whatever order, every share that is ever
  credited is credited to a non-empty address that the decoder of the configured mode accepts.
\<close>

theorem run_credits_payable:
  assumes "sys_run parse (sys_start g now) n S"
  shows "\<forall>e \<in> set (sys_credited S). share_payee e \<noteq> [] \<and> check_username (start_cfg g) (share_payee e) = Ok ()"
  using credit_addresses [OF assms] .

theorem run_credits_payable_witness:
  "\<exists>S e. sys_credited S = [e] \<and> share_payee e \<noteq> [] \<and> check_username (start_cfg demo_cfg) (share_payee e) = Ok ()"
proof -
  obtain S e where S: "sys_run demo_parse (sys_start demo_cfg 0) 4 S" "sys_credited S = [e]" using demo_credit by blast
  from run_credits_payable [OF S(1)] S(2) show ?thesis by auto
qed

text \<open>
  C8: over any stretch of at most 16384 steps of any run, on all connections together, no block-header
  hash is credited twice, however the submissions that lead to it are framed.
\<close>

theorem run_no_hash_twice:
  assumes "sys_run parse (sys_start g now) n S" and "sys_run parse S k S'" and "k \<le> SHARE_DEDUPE_RING"
  shows "\<exists>added. sys_credited S' = sys_credited S @ added \<and> distinct (map share_hash added)"
  using credits_since_run [OF assms(2) dedupe_reachable [OF assms(1)] assms(3)] by (auto simp: credits_since_def)

theorem run_no_hash_twice_witness:
  "\<exists>S e added. sys_run demo_parse (sys_start demo_cfg 0) 4 S \<and> sys_credited S = [e] \<and> added = [e] \<and> distinct (map share_hash added)"
proof -
  obtain S e where S: "sys_run demo_parse (sys_start demo_cfg 0) 4 S" "sys_credited S = [e]" using demo_credit by blast
  have "(4 :: nat) \<le> SHARE_DEDUPE_RING" by (simp add: SHARE_DEDUPE_RING_def)
  from run_no_hash_twice [OF sys_run.start S(1) this] S show ?thesis by (auto simp: sys_start_def sys_credited_def)
qed

text \<open>
  C20: the search spaces of the connections are disjoint: in a run of at most 2^32 steps no two
  subscribed connections hold the same extranonce1.
\<close>

theorem run_extranonce_distinct:
  assumes "sys_run parse (sys_start g now) n S" and "n \<le> 2 ^ 32"
  shows "distinct (map extranonce1 (filter subscribed (sys_conns S)))"
proof -
  have "nonce_inv (ucast now) n (extranonce1_seq (sys_srv S)) (sys_conns S)"
    using assms(1)
  proof induction
    case start
    then show ?case by (simp add: sys_start_def stratum_server_start_def nonce_inv_def live_nonces_def)
  qed (rule nonce_step)
  then show ?thesis using assms(2) by (auto simp: nonce_inv_def live_nonces_def)
qed

theorem run_extranonce_distinct_witness:
  "\<exists>S :: system. length (map extranonce1 (filter subscribed (sys_conns S))) = 2 \<and> distinct (map extranonce1 (filter subscribed (sys_conns S)))"
proof -
  obtain S where S: "sys_run demo_parse (sys_start demo_cfg 0) 4 S" "length (live_nonces (sys_conns S)) = 2" using demo_two_subscribed by blast
  have "(4 :: nat) \<le> 2 ^ 32" by simp
  from run_extranonce_distinct [OF S(1) this] S(2) show ?thesis by (intro exI [of _ S]) (simp add: live_nonces_def)
qed

text \<open>
  C21: under a sound configuration the difficulty of every connection is at all times a positive finite
  number, never above the ceiling its port and the configuration set, whatever the miner asks for and
  whatever the network difficulty is; and from the first authorize on it is at least the floor its
  port promises.
\<close>

theorem run_difficulty_bounded:
  assumes "sound_cfg g" and "sys_run parse (sys_start g now) n S" and "c \<in> set (sys_conns S)"
  shows "\<exists>q. difficulty c = Fin q \<and> 0 < q \<and> q \<le> diff_ceiling (policy c) \<and> (authorized c \<longrightarrow> d_le (pol_min_diff c) (difficulty c))"
  using difficulties.everywhere [OF assms] by (auto simp: diff_inv_def)

theorem run_difficulty_bounded_witness:
  "\<exists>q. difficulty demo_conn = Fin q \<and> 0 < q \<and> q \<le> 100000"
proof -
  have "sound_cfg demo_cfg"
    by (simp add: sound_cfg_def start_listeners_def STRATUM_MAX_LISTENERS_def conn_apply_listener_def stratum_conn_new_def Let_def d_gt_def policy_def
        sound_policy_def start_cfg_def demo_cfg_def)
  moreover have "sys_run demo_parse (sys_start demo_cfg 0) 1 (demo_state [demo_conn])"
    using sys_run.step [OF sys_run.start demo_accept [of "[]", unfolded demo_state_start]] by simp
  ultimately have "\<exists>q. difficulty demo_conn = Fin q \<and> 0 < q \<and> q \<le> diff_ceiling (policy demo_conn)"
    using run_difficulty_bounded [of demo_cfg demo_parse 0 1 "demo_state [demo_conn]" demo_conn] by (auto simp: demo_state_def)
  moreover have "diff_ceiling (policy demo_conn) = 100000"
    by (simp add: demo_conn_def accept_conn_def conn_apply_listener_def start_listeners_def stratum_conn_new_def demo_start Let_def STRATUM_MAX_LISTENERS_def policy_def)
      (simp add: demo_cfg_def d_gt_def)
  ultimately show ?thesis by simp
qed

text \<open>
  C22: a miner rolls only the version bits reserved for it: in every reachable state the version a
  submission is hashed with agrees with the job's outside the general-purpose mask, whatever mask the
  client negotiated.
\<close>

theorem run_version_bits_kept:
  assumes "sys_run parse (sys_start g now) n S" and "c \<in> set (sys_conns S)" and "submit_version c job params = Some v"
  shows "v AND NOT VERSION_ROLLING_MASK = job_version job AND NOT VERSION_ROLLING_MASK"
proof -
  have m: "version_mask c AND NOT VERSION_ROLLING_MASK = 0" using masks.everywhere [OF _ assms(1,2)] by (simp add: mask_inv_def)
  have "x AND NOT M = y AND NOT M" if "k AND NOT M = 0" "x AND NOT k = y AND NOT k" for x y k M :: u32
  proof (rule bit_word_eqI)
    fix i assume i: "i < LENGTH(32)"
    have "bit (k AND NOT M) i = bit (0 :: u32) i" "bit (x AND NOT k) i = bit (y AND NOT k) i" using that by simp_all
    then have "bit k i \<longrightarrow> bit M i" "bit k i \<or> bit x i = bit y i" using i by (auto simp: bit_and_iff bit_not_iff)
    then show "bit (x AND NOT M) i = bit (y AND NOT M) i" by (auto simp: bit_and_iff bit_not_iff)
  qed
  note outside = this
  show ?thesis
  proof (cases "version_mask c = 0")
    case True
    then show ?thesis using submit_version_outside [OF assms(3)] by simp
  next
    case False
    then have "v AND NOT (version_mask c) = job_version job AND NOT (version_mask c)" using submit_version_outside [OF assms(3)] by simp
    then show ?thesis by (rule outside [OF m])
  qed
qed

theorem run_version_bits_kept_witness:
  "\<exists>v. submit_version demo_conn demo_job (Some (JArr [JNull, JNull, JNull, JNull, JNull, JStr ''ffffffff''])) = Some v \<and>
     v AND NOT VERSION_ROLLING_MASK = 0x20000000"
proof -
  have p: "parse_u32_hex (Some ''ffffffff'') = Some 0xffffffff" by code_simp
  obtain v where v: "submit_version demo_conn demo_job (Some (JArr [JNull, JNull, JNull, JNull, JNull, JStr ''ffffffff''])) = Some v"
    by (simp add: submit_version_def p arr_item_def Let_def)
  have "sys_run demo_parse (sys_start demo_cfg 0) 1 (demo_state [demo_conn])"
    using sys_run.step [OF sys_run.start demo_accept [of "[]", unfolded demo_state_start]] by simp
  from run_version_bits_kept [OF this _ v] have "v AND NOT VERSION_ROLLING_MASK = job_version demo_job AND NOT VERSION_ROLLING_MASK"
    by (simp add: demo_state_def)
  also have "\<dots> = 0x20000000" by (simp add: demo_job_def stratum_job_new_def Let_def VERSION_ROLLING_MASK_def)
  finally show ?thesis using v by blast
qed

end
