(* ===== verification/Jobs.thy ===== *)
theory Jobs
  imports Submit "HOL-Library.Multiset"
begin

text \<open>
  The lifetime of jobs (\<^verbatim>\<open>src/stratum.c\<close>): a job is shared between the current slot, the retention ring
  and every submit that is still reading it, and is destroyed when the last reference goes. Here the
  critical sections of the lookup, the swap, the retirement and the submit are separate steps that
  interleave freely. The theory shows that the count is exact in every reachable state, so no step ever
  touches a destroyed job, and that swap, retirement and lookup on counted pointers do what they do on
  job values.
\<close>

section \<open>Counted jobs\<close>

type_synonym addr = nat

text \<open>Memory: the count and the contents of each job that has not been destroyed.\<close>

type_synonym jobs = "addr \<Rightarrow> (nat \<times> stratum_job) option"

text \<open>\<open>None\<close> is an access to a job that does not exist (any more).\<close>

definition stratum_job_retain :: "jobs \<Rightarrow> addr option \<Rightarrow> jobs option" where
  "stratum_job_retain m p =
     (case p of
        None \<Rightarrow> Some m
      | Some a \<Rightarrow> (case m a of None \<Rightarrow> None | Some (n, j) \<Rightarrow> Some (m(a \<mapsto> (n + 1, j)))))"

definition stratum_job_free :: "jobs \<Rightarrow> addr option \<Rightarrow> jobs option" where
  "stratum_job_free m p =
     (case p of
        None \<Rightarrow> Some m
      | Some a \<Rightarrow> (case m a of None \<Rightarrow> None | Some (n, j) \<Rightarrow> Some (if n = 1 then m(a := None) else m(a \<mapsto> (n - 1, j)))))"

section \<open>The threads\<close>

text \<open>A submit: not looking at a job; past the current slot on its way to the ring; holding a job.\<close>

datatype submitter = Idle | Searching string | Holding addr

record job_state =
  mem :: jobs
  js_current :: "addr option"
  js_retiring :: "addr option"
  js_ring :: "addr option list"
  js_head :: nat
  submitters :: "submitter list"

text \<open>\<open>stratum_server_set_job\<close> under \<open>job_lock\<close>: the new job (count 1) goes into the current slot, the old
  one is left with the caller.\<close>

definition job_swap :: "addr \<Rightarrow> stratum_job \<Rightarrow> job_state \<Rightarrow> job_state option" where
  "job_swap a j s =
     Some (s\<lparr>mem := (mem s)(a \<mapsto> (1, j)), js_current := Some a, js_retiring := js_current s\<rparr>)"

text \<open>The sweep of \<open>retire_job\<close>, slot by slot.\<close>

fun job_sweep :: "u64 \<Rightarrow> addr option list \<Rightarrow> jobs \<Rightarrow> (addr option list \<times> jobs) option" where
  "job_sweep cutoff [] m = Some ([], m)"
| "job_sweep cutoff (None # es) m =
     (case job_sweep cutoff es m of None \<Rightarrow> None | Some (es', m') \<Rightarrow> Some (None # es', m'))"
| "job_sweep cutoff (Some a # es) m =
     (case m a of
        None \<Rightarrow> None
      | Some (n, j) \<Rightarrow>
          if cutoff - created_ms j > RECENT_JOB_TTL_MS then
            (case stratum_job_free m (Some a) of
               None \<Rightarrow> None
             | Some m1 \<Rightarrow> (case job_sweep cutoff es m1 of None \<Rightarrow> None | Some (es', m') \<Rightarrow> Some (None # es', m')))
          else (case job_sweep cutoff es m of None \<Rightarrow> None | Some (es', m') \<Rightarrow> Some (Some a # es', m')))"

text \<open>\<open>retire_job\<close> under \<open>recent_lock\<close>.\<close>

definition job_retire :: "u64 \<Rightarrow> job_state \<Rightarrow> job_state option" where
  "job_retire cutoff s =
     (if js_retiring s = None then Some s
      else case job_sweep cutoff (js_ring s) (mem s) of
        None \<Rightarrow> None
      | Some (r, m) \<Rightarrow>
          (case stratum_job_free m (r ! js_head s) of
             None \<Rightarrow> None
           | Some m' \<Rightarrow> Some (s\<lparr>mem := m', js_ring := r[js_head s := js_retiring s],
                               js_head := (js_head s + 1) mod RECENT_JOBS, js_retiring := None\<rparr>)))"

text \<open>\<open>find_job\<close> in its two sections: the current slot, then the ring.\<close>

definition job_lookup_current :: "nat \<Rightarrow> string \<Rightarrow> job_state \<Rightarrow> job_state option" where
  "job_lookup_current i jid s =
     (case js_current s of
        None \<Rightarrow> Some (s\<lparr>submitters := (submitters s)[i := Searching jid]\<rparr>)
      | Some a \<Rightarrow>
          (case mem s a of
             None \<Rightarrow> None
           | Some (n, j) \<Rightarrow>
               if job_id j = jid then
                 (case stratum_job_retain (mem s) (Some a) of
                    None \<Rightarrow> None
                  | Some m \<Rightarrow> Some (s\<lparr>mem := m, submitters := (submitters s)[i := Holding a]\<rparr>))
               else Some (s\<lparr>submitters := (submitters s)[i := Searching jid]\<rparr>)))"

text \<open>The scan: \<open>None\<close> for a bad access, \<open>Some None\<close> for no such job.\<close>

fun job_scan :: "jobs \<Rightarrow> string \<Rightarrow> addr option list \<Rightarrow> addr option option" where
  "job_scan m jid [] = Some None"
| "job_scan m jid (None # es) = job_scan m jid es"
| "job_scan m jid (Some a # es) =
     (case m a of None \<Rightarrow> None | Some (n, j) \<Rightarrow> if job_id j = jid then Some (Some a) else job_scan m jid es)"

definition job_lookup_recent :: "nat \<Rightarrow> string \<Rightarrow> job_state \<Rightarrow> job_state option" where
  "job_lookup_recent i jid s =
     (case job_scan (mem s) jid (js_ring s) of
        None \<Rightarrow> None
      | Some None \<Rightarrow> Some (s\<lparr>submitters := (submitters s)[i := Idle]\<rparr>)
      | Some (Some a) \<Rightarrow>
          (case stratum_job_retain (mem s) (Some a) of
             None \<Rightarrow> None
           | Some m \<Rightarrow> Some (s\<lparr>mem := m, submitters := (submitters s)[i := Holding a]\<rparr>)))"

text \<open>A read of a held job by \<open>submit_with_job\<close>, of the current job by \<open>send_current_notify\<close> (under
  \<open>job_lock\<close>), and the release at the end of \<open>handle_submit\<close>.\<close>

definition job_read :: "addr \<Rightarrow> job_state \<Rightarrow> job_state option" where
  "job_read a s = (case mem s a of None \<Rightarrow> None | Some _ \<Rightarrow> Some s)"

definition job_notify :: "job_state \<Rightarrow> job_state option" where
  "job_notify s = (case js_current s of None \<Rightarrow> Some s | Some a \<Rightarrow> job_read a s)"

definition job_release :: "nat \<Rightarrow> addr \<Rightarrow> job_state \<Rightarrow> job_state option" where
  "job_release i a s =
     (case stratum_job_free (mem s) (Some a) of
        None \<Rightarrow> None
      | Some m \<Rightarrow> Some (s\<lparr>mem := m, submitters := (submitters s)[i := Idle]\<rparr>))"

text \<open>\<open>stratum_server_free\<close>: the current slot, then the ring.\<close>

fun free_slots :: "addr option list \<Rightarrow> jobs \<Rightarrow> jobs option" where
  "free_slots [] m = Some m"
| "free_slots (p # ps) m = (case stratum_job_free m p of None \<Rightarrow> None | Some m' \<Rightarrow> free_slots ps m')"

definition job_shutdown :: "job_state \<Rightarrow> job_state option" where
  "job_shutdown s =
     (case free_slots (js_current s # js_ring s) (mem s) of
        None \<Rightarrow> None
      | Some m \<Rightarrow> Some (s\<lparr>mem := m, js_current := None\<rparr>))"

section \<open>Interleaving\<close>

text \<open>
  One step of any thread; \<open>None\<close> is a fault. There is one swapping thread, so a swap starts when the
  previous retirement is over. A fresh address is one that memory does not have.
\<close>

inductive job_step :: "job_state \<Rightarrow> job_state option \<Rightarrow> bool" where
  swap: "js_retiring s = None \<Longrightarrow> mem s a = None \<Longrightarrow> job_step s (job_swap a j s)"
| retire: "job_step s (job_retire cutoff s)"
| lookup: "i < length (submitters s) \<Longrightarrow> submitters s ! i = Idle \<Longrightarrow> job_step s (job_lookup_current i jid s)"
| search: "i < length (submitters s) \<Longrightarrow> submitters s ! i = Searching jid \<Longrightarrow> job_step s (job_lookup_recent i jid s)"
| read: "i < length (submitters s) \<Longrightarrow> submitters s ! i = Holding a \<Longrightarrow> job_step s (job_read a s)"
| notify: "job_step s (job_notify s)"
| release: "i < length (submitters s) \<Longrightarrow> submitters s ! i = Holding a \<Longrightarrow> job_step s (job_release i a s)"
| connect: "job_step s (Some (s\<lparr>submitters := submitters s @ [Idle]\<rparr>))"

definition job_start :: job_state where
  "job_start = \<lparr>mem = \<lambda>_. None, js_current = None, js_retiring = None, js_ring = replicate RECENT_JOBS None, js_head = 0, submitters = []\<rparr>"

inductive job_reach :: "job_state \<Rightarrow> bool" where
  start: "job_reach job_start"
| step: "job_reach s \<Longrightarrow> job_step s (Some s') \<Longrightarrow> job_reach s'"

inductive_simps job_step_fault: "job_step s None"

section \<open>The count is exact\<close>

text \<open>Who refers to what: the slots, the swapping thread and the submits.\<close>

fun held :: "submitter \<Rightarrow> addr option" where
  "held (Holding a) = Some a"
| "held _ = None"

definition owners :: "job_state \<Rightarrow> addr option multiset" where
  "owners s = {#js_current s, js_retiring s#} + mset (js_ring s) + mset (map held (submitters s))"

definition refs :: "jobs \<Rightarrow> addr \<Rightarrow> nat" where
  "refs m a = (case m a of None \<Rightarrow> 0 | Some (n, j) \<Rightarrow> n)"

definition agrees :: "jobs \<Rightarrow> addr option multiset \<Rightarrow> bool" where
  "agrees m M \<longleftrightarrow> (\<forall>a. refs m a = count M (Some a)) \<and> (\<forall>a n j. m a = Some (n, j) \<longrightarrow> 0 < n)"

definition contents :: "jobs \<Rightarrow> addr \<Rightarrow> stratum_job option" where
  "contents m a = map_option snd (m a)"

text \<open>What a client of counted pointers may rely on.\<close>

locale refcounts =
  fixes retain release :: "'m \<Rightarrow> 'p \<Rightarrow> 'm option" and ok :: "'m \<Rightarrow> 'p multiset \<Rightarrow> bool" and content :: "'m \<Rightarrow> 'p \<Rightarrow> 'v"
  assumes retain: "ok m M \<Longrightarrow> p \<in># M \<Longrightarrow> \<exists>m'. retain m p = Some m' \<and> ok m' (add_mset p M) \<and> (\<forall>q. content m' q = content m q)"
    and release: "ok m M \<Longrightarrow> p \<in># M \<Longrightarrow> \<exists>m'. release m p = Some m' \<and> ok m' (M - {#p#}) \<and> (\<forall>q. q \<in># M - {#p#} \<longrightarrow> content m' q = content m q)"
begin

lemma retainE:
  assumes "ok m M" and "p \<in># M"
  obtains m' where "retain m p = Some m'" "ok m' (add_mset p M)" "\<And>q. content m' q = content m q"
  using retain [OF assms] by blast

lemma releaseE:
  assumes "ok m M" and "p \<in># M"
  obtains m' where "release m p = Some m'" "ok m' (M - {#p#})" "\<And>q. q \<in># M - {#p#} \<Longrightarrow> content m' q = content m q"
  using release [OF assms] by blast

text \<open>Releasing a whole list that is owned.\<close>

fun release_all :: "'p list \<Rightarrow> 'm \<Rightarrow> 'm option" where
  "release_all [] m = Some m"
| "release_all (p # ps) m = (case release m p of None \<Rightarrow> None | Some m' \<Rightarrow> release_all ps m')"

lemma release_all: "ok m M \<Longrightarrow> mset ps \<subseteq># M \<Longrightarrow> \<exists>m'. release_all ps m = Some m' \<and> ok m' (M - mset ps)"
proof (induction ps arbitrary: m M)
  case (Cons p ps)
  from Cons.prems(2) have "p \<in># M" "mset ps \<subseteq># M - {#p#}" by (auto simp: insert_subset_eq_iff)
  with Cons.prems(1) obtain m' where "release m p = Some m'" "ok m' (M - {#p#})" by (auto elim: releaseE)
  with Cons.IH [of m' "M - {#p#}"] \<open>mset ps \<subseteq># M - {#p#}\<close> show ?case by auto
qed simp

end

definition pointee :: "jobs \<Rightarrow> addr option \<Rightarrow> stratum_job option" where
  "pointee m p = (case p of None \<Rightarrow> None | Some a \<Rightarrow> contents m a)"

lemma agrees_live: "agrees m M \<Longrightarrow> Some a \<in># M \<Longrightarrow> \<exists>n j. m a = Some (n, j) \<and> n = count M (Some a)"
  unfolding agrees_def refs_def by (metis (no_types, lifting) case_prod_conv count_eq_zero_iff option.case(1,2) option.exhaust surj_pair)

lemma agrees_None: "agrees m (add_mset None M) = agrees m M" "agrees m (M - {#None#}) = agrees m M"
  by (simp_all add: agrees_def)

interpretation rc: refcounts stratum_job_retain stratum_job_free agrees pointee
proof
  fix m M p
  assume ok: "agrees m M" and p: "p \<in># M"
  show "\<exists>m'. stratum_job_retain m p = Some m' \<and> agrees m' (add_mset p M) \<and> (\<forall>q. pointee m' q = pointee m q)"
  proof (cases p)
    case None
    with ok show ?thesis by (simp add: stratum_job_retain_def agrees_None)
  next
    case (Some a)
    with agrees_live [OF ok] p obtain n j where "m a = Some (n, j)" "n = count M (Some a)" by blast
    with Some ok show ?thesis
      by (auto simp: stratum_job_retain_def agrees_def refs_def pointee_def contents_def split: option.splits)
  qed
  show "\<exists>m'. stratum_job_free m p = Some m' \<and> agrees m' (M - {#p#}) \<and> (\<forall>q. q \<in># M - {#p#} \<longrightarrow> pointee m' q = pointee m q)"
  proof (cases p)
    case None
    with ok show ?thesis by (simp add: stratum_job_free_def agrees_None)
  next
    case (Some a)
    with agrees_live [OF ok] p obtain n j where a: "m a = Some (n, j)" "n = count M (Some a)" by blast
    define m' where "m' = (if n = 1 then m(a := None) else m(a \<mapsto> (n - 1, j)))"
    have n: "0 < n" using a p Some by simp
    have "agrees m' (M - {#p#})"
      using ok a n Some by (auto simp: agrees_def refs_def m'_def intro: Suc_lessI)
    moreover have "pointee m' q = pointee m q" if "q \<in># M - {#p#}" for q
    proof (cases "n = 1 \<and> q = Some a")
      case True
      with that a Some show ?thesis by (simp add: in_diff_count)
    next
      case False
      with a show ?thesis by (auto simp: m'_def pointee_def contents_def split: option.splits)
    qed
    ultimately show ?thesis using a Some by (auto simp: stratum_job_free_def m'_def)
  qed
qed

section \<open>No step faults\<close>

definition job_inv :: "job_state \<Rightarrow> bool" where
  "job_inv s \<longleftrightarrow> agrees (mem s) (owners s) \<and> length (js_ring s) = RECENT_JOBS \<and> js_head s < RECENT_JOBS"

lemma held_update: "i < length ss \<Longrightarrow> mset (map held (ss[i := x])) = add_mset (held x) (mset (map held ss) - {#held (ss ! i)#})"
  by (simp add: map_update mset_update)

lemma held_member: "i < length ss \<Longrightarrow> held (ss ! i) \<in># mset (map held ss)"
  by (metis length_map nth_map nth_mem set_mset_mset)

lemma pointee_simps [simp]: "pointee m None = None" "pointee m (Some a) = contents m a"
  by (simp_all add: pointee_def)

lemma sweep_slot_None [simp]: "sweep_slot t None = None"
  by (simp add: sweep_slot_def)

text \<open>The sweep keeps the counts exact, drops what has expired and leaves the contents of the rest.\<close>

lemma job_sweep_correct:
  assumes "agrees m (M + mset es)"
  shows "\<exists>es' m'. job_sweep t es m = Some (es', m') \<and> agrees m' (M + mset es') \<and> length es' = length es \<and> set es' \<subseteq> insert None (set es) \<and>
    (\<forall>q. q \<in># M \<or> q \<in> set es' \<longrightarrow> pointee m' q = pointee m q) \<and> map (pointee m') es' = map (\<lambda>e. sweep_slot t (pointee m e)) es"
  using assms
proof (induction es arbitrary: m M)
  case (Cons e es)
  show ?case
  proof (cases e)
    case None
    with Cons.IH [of m "add_mset None M"] Cons.prems obtain es' m' where
      "job_sweep t es m = Some (es', m')" "agrees m' (add_mset None M + mset es')" "length es' = length es" "set es' \<subseteq> insert None (set es)"
      "\<forall>q. q \<in># M \<or> q \<in> set es' \<longrightarrow> pointee m' q = pointee m q" "map (pointee m') es' = map (\<lambda>e. sweep_slot t (pointee m e)) es"
      by auto
    with None show ?thesis by auto
  next
    case (Some a)
    with agrees_live [OF Cons.prems, of a] obtain n j where a: "m a = Some (n, j)" by auto
    then have pa: "pointee m (Some a) = Some j" by (simp add: contents_def)
    show ?thesis
    proof (cases "t - created_ms j > RECENT_JOB_TTL_MS")
      case True
      obtain m1 where m1: "stratum_job_free m (Some a) = Some m1" "agrees m1 (M + mset es)" "\<And>q. q \<in># M + mset es \<Longrightarrow> pointee m1 q = pointee m q"
        using rc.releaseE [OF Cons.prems, of e] Some by auto
      from Cons.IH [OF m1(2)] obtain es' m' where
        i: "job_sweep t es m1 = Some (es', m')" "agrees m' (M + mset es')" "length es' = length es" "set es' \<subseteq> insert None (set es)"
        "\<forall>q. q \<in># M \<or> q \<in> set es' \<longrightarrow> pointee m' q = pointee m1 q" "map (pointee m') es' = map (\<lambda>e. sweep_slot t (pointee m1 e)) es" by auto
      have "pointee m1 q = pointee m q" if "q \<in># M \<or> q \<in> insert None (set es)" for q using that m1(3) by (cases q) (auto simp del: pointee_simps(2))
      moreover from this have "map (\<lambda>e. sweep_slot t (pointee m1 e)) es = map (\<lambda>e. sweep_slot t (pointee m e)) es" by simp
      ultimately show ?thesis using True Some a i m1(1) pa
        by (intro exI [of _ "None # es'"] exI [of _ m']) (auto simp: agrees_None sweep_slot_def simp del: pointee_simps(2))
    next
      case False
      with Cons.IH [of m "add_mset (Some a) M"] Cons.prems Some obtain es' m' where
        i: "job_sweep t es m = Some (es', m')" "agrees m' (add_mset (Some a) M + mset es')" "length es' = length es" "set es' \<subseteq> insert None (set es)"
        "\<forall>q. q \<in># add_mset (Some a) M \<or> q \<in> set es' \<longrightarrow> pointee m' q = pointee m q" "map (pointee m') es' = map (\<lambda>e. sweep_slot t (pointee m e)) es"
        by auto
      have "pointee m' (Some a) = Some j" using i(5) pa by simp
      then show ?thesis using False Some a i pa
        by (intro exI [of _ "Some a # es'"] exI [of _ m']) (auto simp: sweep_slot_def simp del: pointee_simps(2))
    qed
  qed
qed simp

lemma job_scan_correct:
  assumes "\<And>a. Some a \<in> set es \<Longrightarrow> m a \<noteq> None"
  shows "\<exists>r. job_scan m jid es = Some r \<and> (r = None \<or> r \<in> set es) \<and> pointee m r = find_recent (map (pointee m) es) jid"
  using assms
proof (induction es)
  case (Cons e es)
  then obtain r where r: "job_scan m jid es = Some r" "r = None \<or> r \<in> set es" "pointee m r = find_recent (map (pointee m) es) jid" by auto
  show ?case
  proof (cases e)
    case (Some a)
    with Cons.prems obtain n j where "m a = Some (n, j)" by fastforce
    with Some r show ?thesis by (auto simp: contents_def simp del: pointee_simps(2)) (auto simp: contents_def)
  qed (use r in auto)
qed simp

lemma owner_live:
  assumes "job_inv s" and "Some a \<in># owners s"
  obtains n j where "mem s a = Some (n, j)"
  using agrees_live [of "mem s" "owners s" a] assms by (auto simp: job_inv_def)

text \<open>Every step succeeds and keeps the invariant.\<close>

lemma swap_ok:
  assumes "job_inv s" and "js_retiring s = None" and "mem s a = None"
  shows "job_inv (the (job_swap a j s))"
proof -
  have "refs (mem s) a = count (owners s) (Some a)" using assms(1) by (simp add: job_inv_def agrees_def)
  then have "count (owners s) (Some a) = 0" by (simp add: refs_def assms(3))
  then have "agrees ((mem s)(a \<mapsto> (1, j))) (add_mset (Some a) (owners s - {#None#}))"
    using assms by (auto simp: job_inv_def agrees_def refs_def)
  moreover have "owners s - {#None#} = {#js_current s#} + mset (js_ring s) + mset (map held (submitters s))"
    using assms(2) by (simp add: owners_def)
  ultimately show ?thesis using assms(1) by (simp add: job_inv_def job_swap_def owners_def)
qed

lemma retire_ok:
  assumes "job_inv s"
  shows "\<exists>s'. job_retire t s = Some s' \<and> job_inv s' \<and> pointee (mem s') (js_current s') = pointee (mem s) (js_current s) \<and>
    (js_retiring s \<noteq> None \<longrightarrow> map (pointee (mem s')) (js_ring s') =
      (map (\<lambda>e. sweep_slot t (pointee (mem s) e)) (js_ring s))[js_head s := pointee (mem s) (js_retiring s)]) \<and>
    (js_retiring s \<noteq> None \<longrightarrow> js_current s' = js_current s \<and> js_head s' = (js_head s + 1) mod RECENT_JOBS)"
proof (cases "js_retiring s")
  case None
  with assms show ?thesis by (simp add: job_retire_def)
next
  case (Some b)
  let ?M = "{#js_current s, js_retiring s#} + mset (map held (submitters s))"
  have "agrees (mem s) (?M + mset (js_ring s))" using assms by (simp add: job_inv_def owners_def ac_simps)
  from job_sweep_correct [OF this, of t] obtain r m where
    sw: "job_sweep t (js_ring s) (mem s) = Some (r, m)" "agrees m (?M + mset r)" "length r = length (js_ring s)"
    "\<forall>q. q \<in># ?M \<or> q \<in> set r \<longrightarrow> pointee m q = pointee (mem s) q"
    "map (pointee m) r = map (\<lambda>e. sweep_slot t (pointee (mem s) e)) (js_ring s)" by auto
  have len: "js_head s < length r" "length r = RECENT_JOBS" using assms sw(3) by (simp_all add: job_inv_def)
  then have "r ! js_head s \<in># ?M + mset r" by simp
  from rc.releaseE [OF sw(2) this] obtain m' where
    m': "stratum_job_free m (r ! js_head s) = Some m'" "agrees m' (?M + mset r - {#r ! js_head s#})"
    "\<And>q. q \<in># ?M + mset r - {#r ! js_head s#} \<Longrightarrow> pointee m' q = pointee m q" by blast
  define s' where "s' = s\<lparr>mem := m', js_ring := r[js_head s := js_retiring s], js_head := (js_head s + 1) mod RECENT_JOBS, js_retiring := None\<rparr>"
  have s': "job_retire t s = Some s'" using Some by (simp add: job_retire_def sw(1) m'(1) s'_def)
  define D where "D = mset r - {#r ! js_head s#}"
  have head: "r ! js_head s \<in># mset r" using len(1) by simp
  have D: "?M + mset r - {#r ! js_head s#} = ?M + D"
    unfolding D_def by (rule multiset_diff_union_assoc) (simp only: single_subset_iff head)
  have up: "mset (r[js_head s := x]) = add_mset x D" for x using len(1) by (simp add: mset_update D_def)
  have ow: "add_mset None (?M + mset r - {#r ! js_head s#}) = owners s'"
    unfolding D by (simp add: s'_def owners_def up)
  have "job_inv s'" using m'(2) ow len agrees_None(1) [of m' "?M + mset r - {#r ! js_head s#}"]
    by (auto simp: job_inv_def s'_def)
  have keep: "pointee m' q = pointee (mem s) q" if "q = js_current s \<or> q = js_retiring s" for q
  proof -
    have "q \<in># ?M" using that by auto
    then have "q \<in># ?M + mset r - {#r ! js_head s#}" unfolding D by auto
    then have "pointee m' q = pointee m q" by (rule m'(3))
    also have "\<dots> = pointee (mem s) q" using sw(4) \<open>q \<in># ?M\<close> by blast
    finally show ?thesis .
  qed
  have "map (pointee m') (r[js_head s := js_retiring s]) = (map (pointee m) r)[js_head s := pointee (mem s) (js_retiring s)]"
  proof (rule nth_equalityI)
    fix i assume i: "i < length (map (pointee m') (r[js_head s := js_retiring s]))"
    show "map (pointee m') (r[js_head s := js_retiring s]) ! i = (map (pointee m) r)[js_head s := pointee (mem s) (js_retiring s)] ! i"
    proof (cases "i = js_head s")
      case False
      obtain x where x: "x \<noteq> r ! i" by (metis option.distinct(1) option.exhaust)
      have "(r[js_head s := x]) ! i \<in> set (r[js_head s := x])" by (rule nth_mem) (use i in simp)
      then have "r ! i \<in># mset (r[js_head s := x])" using False by simp
      then have "r ! i \<in># D" using x unfolding up by simp
      then have "pointee m' (r ! i) = pointee m (r ! i)" using m'(3) [unfolded D, of "r ! i"] by simp
      then show ?thesis using False i by simp
    qed (use i keep in simp)
  qed simp
  then show ?thesis using s' \<open>job_inv s'\<close> keep sw(5) by (auto simp: s'_def)
qed

lemma retain_ok:
  assumes "job_inv s" and "Some a \<in># owners s" and "i < length (submitters s)" and "held (submitters s ! i) = None"
  shows "\<exists>m. stratum_job_retain (mem s) (Some a) = Some m \<and> job_inv (s\<lparr>mem := m, submitters := (submitters s)[i := Holding a]\<rparr>)"
proof -
  from assms(1) have "agrees (mem s) (owners s)" by (simp add: job_inv_def)
  from rc.retainE [OF this assms(2)] obtain m where m: "stratum_job_retain (mem s) (Some a) = Some m" "agrees m (add_mset (Some a) (owners s))" by metis
  define H where "H = mset (map held (submitters s)) - {#None#}"
  have "mset (map held (submitters s)) = add_mset None H" using held_member [OF assms(3)] assms(4) by (simp add: H_def)
  moreover have "mset (map held ((submitters s)[i := Holding a])) = add_mset (Some a) H"
    using held_update [OF assms(3)] assms(4) by (simp add: H_def)
  ultimately have "add_mset (Some a) (owners s) = add_mset None (owners (s\<lparr>mem := m, submitters := (submitters s)[i := Holding a]\<rparr>))"
    by (simp add: owners_def)
  then show ?thesis using m assms(1) by (simp add: job_inv_def agrees_None)
qed

lemma submitter_ok: "job_inv s \<Longrightarrow> i < length (submitters s) \<Longrightarrow> held (submitters s ! i) = None \<Longrightarrow> held x = None \<Longrightarrow>
    job_inv (s\<lparr>submitters := (submitters s)[i := x]\<rparr>)"
proof -
  assume a: "job_inv s" "i < length (submitters s)" "held (submitters s ! i) = None" "held x = None"
  have "mset (map held ((submitters s)[i := x])) = mset (map held (submitters s))"
    using held_update [OF a(2), of x] held_member [OF a(2)] a(3,4) by simp
  then show ?thesis using a(1) by (simp add: job_inv_def owners_def)
qed

lemma lookup_ok:
  assumes "job_inv s" and "i < length (submitters s)" and "submitters s ! i = Idle"
  shows "\<exists>s'. job_lookup_current i jid s = Some s' \<and> job_inv s'"
proof (cases "js_current s")
  case None
  then show ?thesis using assms submitter_ok by (simp add: job_lookup_current_def)
next
  case (Some a)
  then have own: "Some a \<in># owners s" by (simp add: owners_def)
  then obtain n j where "mem s a = Some (n, j)" by (rule owner_live [OF assms(1)])
  then show ?thesis using Some assms submitter_ok retain_ok [OF assms(1) own assms(2)] by (auto simp: job_lookup_current_def)
qed

lemma ring_live: "job_inv s \<Longrightarrow> Some a \<in> set (js_ring s) \<Longrightarrow> Some a \<in># owners s \<and> mem s a \<noteq> None"
  by (auto simp: owners_def elim!: owner_live [of s a])

lemma search_ok:
  assumes "job_inv s" and "i < length (submitters s)" and "submitters s ! i = Searching jid"
  shows "\<exists>s'. job_lookup_recent i jid s = Some s' \<and> job_inv s'"
proof -
  obtain r where r: "job_scan (mem s) jid (js_ring s) = Some r" "r = None \<or> r \<in> set (js_ring s)"
    using job_scan_correct [of "js_ring s" "mem s" jid] ring_live [OF assms(1)] by blast
  show ?thesis
  proof (cases r)
    case None
    then show ?thesis using r assms submitter_ok by (simp add: job_lookup_recent_def)
  next
    case (Some a)
    then show ?thesis using r assms ring_live [OF assms(1), of a] retain_ok [OF assms(1) _ assms(2), of a] by (auto simp: job_lookup_recent_def)
  qed
qed

lemma release_ok:
  assumes "job_inv s" and "i < length (submitters s)" and "submitters s ! i = Holding a"
  shows "\<exists>s'. job_release i a s = Some s' \<and> job_inv s'"
proof -
  have h: "Some a \<in># mset (map held (submitters s))" using held_member [OF assms(2)] assms(3) by simp
  then have own: "Some a \<in># owners s" by (auto simp: owners_def)
  from assms(1) have "agrees (mem s) (owners s)" by (simp add: job_inv_def)
  from rc.releaseE [OF this own] obtain m where m: "stratum_job_free (mem s) (Some a) = Some m" "agrees m (owners s - {#Some a#})" by blast
  define H where "H = mset (map held (submitters s)) - {#Some a#}"
  have "mset (map held (submitters s)) = add_mset (Some a) H" using h by (simp add: H_def)
  moreover have "mset (map held ((submitters s)[i := Idle])) = add_mset None H"
    using held_update [OF assms(2)] assms(3) by (simp add: H_def)
  ultimately have "add_mset None (owners s - {#Some a#}) = owners (s\<lparr>mem := m, submitters := (submitters s)[i := Idle]\<rparr>)"
    by (simp add: owners_def)
  then have "agrees m (owners (s\<lparr>mem := m, submitters := (submitters s)[i := Idle]\<rparr>))"
    using m(2) agrees_None(1) [of m "owners s - {#Some a#}"] by simp
  then show ?thesis using m(1) assms(1) by (simp add: job_inv_def job_release_def)
qed

lemma read_ok: "job_inv s \<Longrightarrow> Some a \<in># owners s \<Longrightarrow> job_read a s = Some s"
  by (auto simp: job_read_def elim!: owner_live)

lemma job_step_ok:
  assumes "job_step s r" and "job_inv s"
  shows "\<exists>s'. r = Some s' \<and> job_inv s'"
  using assms
proof cases
  case (swap a j)
  then show ?thesis using swap_ok [OF assms(2)] by (auto simp: job_swap_def)
next
  case (retire cutoff)
  then show ?thesis using retire_ok [OF assms(2)] by blast
next
  case (lookup i jid)
  then show ?thesis using lookup_ok [OF assms(2)] by blast
next
  case (search i jid)
  then show ?thesis using search_ok [OF assms(2)] by blast
next
  case (read i a)
  then have "Some a \<in># owners s" using held_member [of i "submitters s"] by (auto simp: owners_def)
  then show ?thesis using read read_ok [OF assms(2)] assms(2) by simp
next
  case notify
  then show ?thesis using read_ok [OF assms(2)] assms(2) by (auto simp: job_notify_def owners_def split: option.splits)
next
  case (release i a)
  then show ?thesis using release_ok [OF assms(2)] by blast
next
  case connect
  have "owners (s\<lparr>submitters := submitters s @ [Idle]\<rparr>) = add_mset None (owners s)" by (simp add: owners_def)
  then show ?thesis using connect assms(2) by (simp add: job_inv_def agrees_None)
qed

lemma job_reach_inv: "job_reach s \<Longrightarrow> job_inv s"
proof (induction rule: job_reach.induct)
  case start
  then show ?case by (simp add: job_inv_def job_start_def agrees_def refs_def owners_def RECENT_JOBS_def)
next
  case (step s s')
  then show ?case using job_step_ok by blast
qed

section \<open>The same as on values\<close>

text \<open>The server of \<^verbatim>\<open>Stratum.thy\<close> that a state of counted pointers stands for.\<close>

definition job_view :: "stratum_server \<Rightarrow> job_state \<Rightarrow> stratum_server" where
  "job_view b s = b\<lparr>current_job := pointee (mem s) (js_current s), recent := map (pointee (mem s)) (js_ring s), recent_head := js_head s\<rparr>"

text \<open>The two sections of a lookup one after the other, and the job it ends up with.\<close>

definition job_lookup :: "nat \<Rightarrow> string \<Rightarrow> job_state \<Rightarrow> job_state option" where
  "job_lookup i jid s =
     (case job_lookup_current i jid s of
        None \<Rightarrow> None
      | Some s1 \<Rightarrow> (case submitters s1 ! i of Holding a \<Rightarrow> Some s1 | _ \<Rightarrow> job_lookup_recent i jid s1))"

definition found_job :: "nat \<Rightarrow> job_state \<Rightarrow> stratum_job option" where
  "found_job i s = pointee (mem s) (held (submitters s ! i))"

lemma swap_view: "mem s a = None \<Longrightarrow> job_inv s \<Longrightarrow> job_view b (the (job_swap a j s)) = (job_view b s)\<lparr>current_job := Some j\<rparr>"
proof -
  assume a: "mem s a = None" "job_inv s"
  have "pointee ((mem s)(a \<mapsto> (1, j))) e = pointee (mem s) e" if "e \<in> set (js_ring s)" for e
  proof (cases e)
    case (Some x)
    with that ring_live [OF a(2), of x] a(1) have "x \<noteq> a" by auto
    with Some show ?thesis by (simp add: contents_def)
  qed simp
  then have "map (pointee ((mem s)(a \<mapsto> (1, j)))) (js_ring s) = map (pointee (mem s)) (js_ring s)" by simp
  then show ?thesis by (simp add: job_view_def job_swap_def contents_def)
qed

lemma retire_view:
  assumes "job_inv s" and "js_retiring s = Some a" and "contents (mem s) a = Some j"
  shows "\<exists>s'. job_retire t s = Some s' \<and> job_view b s' = retire_job t (job_view b s) j"
  using retire_ok [OF assms(1), of t] assms(2,3)
  by (auto simp: job_view_def retire_job_def Let_def comp_def)

lemma retain_contents: "stratum_job_retain m p = Some m' \<Longrightarrow> pointee m' q = pointee m q"
  by (cases q) (auto simp: stratum_job_retain_def contents_def split: option.splits)

lemma lookup_view:
  assumes "job_inv s" and "i < length (submitters s)" and "submitters s ! i = Idle"
  shows "\<exists>s'. job_lookup i jid s = Some s' \<and> found_job i s' = find_job (job_view b s) (Some jid) \<and> job_view b s' = job_view b s"
proof -
  define s0 where "s0 = s\<lparr>submitters := (submitters s)[i := Searching jid]\<rparr>"
  have inv0: "job_inv s0" unfolding s0_def using assms by (intro submitter_ok) auto
  obtain r where r: "job_scan (mem s) jid (js_ring s) = Some r" "r = None \<or> r \<in> set (js_ring s)"
      "pointee (mem s) r = find_recent (map (pointee (mem s)) (js_ring s)) jid"
    using job_scan_correct [of "js_ring s" "mem s" jid] ring_live [OF assms(1)] by blast
  have late: "\<exists>s'. job_lookup_recent i jid s0 = Some s' \<and> found_job i s' = find_recent (recent (job_view b s)) jid \<and> job_view b s' = job_view b s"
  proof (cases r)
    case None
    then show ?thesis using r assms(2) by (auto simp: job_lookup_recent_def s0_def found_job_def job_view_def)
  next
    case (Some a)
    with r ring_live [OF assms(1), of a] have "Some a \<in># owners s0" using ring_live [OF inv0, of a] by (simp add: s0_def)
    then obtain m where m: "stratum_job_retain (mem s0) (Some a) = Some m"
      using retain_ok [OF inv0, of a i] assms(2) by (auto simp: s0_def)
    then have "pointee m q = pointee (mem s) q" for q using retain_contents [OF m, of q] by (simp add: s0_def)
    then show ?thesis using Some r m assms(2)
      by (auto simp: job_lookup_recent_def s0_def found_job_def job_view_def simp del: pointee_simps(2))
  qed
  show ?thesis
  proof (cases "js_current s")
    case None
    then have "job_lookup i jid s = job_lookup_recent i jid s0" using assms(2) by (simp add: job_lookup_def job_lookup_current_def s0_def)
    then show ?thesis using late None by (simp add: find_job_def job_view_def)
  next
    case (Some a)
    then have own: "Some a \<in># owners s" by (simp add: owners_def)
    then obtain n j where j: "mem s a = Some (n, j)" by (rule owner_live [OF assms(1)])
    show ?thesis
    proof (cases "job_id j = jid")
      case True
      obtain m where m: "stratum_job_retain (mem s) (Some a) = Some m" using retain_ok [OF assms(1) own assms(2)] assms(3) by auto
      then have "pointee m q = pointee (mem s) q" for q using retain_contents [OF m] by simp
      moreover have "pointee (mem s) (Some a) = Some j" using j by (simp add: contents_def)
      ultimately show ?thesis using True Some j m assms(2)
        by (auto simp: job_lookup_def job_lookup_current_def found_job_def find_job_def job_view_def simp del: pointee_simps(2))
    next
      case False
      then have "job_lookup i jid s = job_lookup_recent i jid s0" using Some j assms(2) by (simp add: job_lookup_def job_lookup_current_def s0_def)
      moreover have "find_job (job_view b s) (Some jid) = find_recent (recent (job_view b s)) jid"
        using False Some j by (simp add: find_job_def job_view_def contents_def)
      ultimately show ?thesis using late by simp
    qed
  qed
qed

section \<open>Shutdown\<close>

lemma free_slots_eq: "free_slots ps m = rc.release_all ps m"
  by (induction ps arbitrary: m) (auto split: option.splits)

lemma agrees_empty: "agrees m M \<Longrightarrow> set_mset M \<subseteq> {None} \<Longrightarrow> m = (\<lambda>_. None)"
proof
  fix a
  assume ag: "agrees m M" and "set_mset M \<subseteq> {None}"
  then have "count M (Some a) = 0" by (auto simp: not_in_iff [symmetric])
  with ag have "refs m a = 0" by (simp add: agrees_def)
  with ag show "m a = None" by (cases "m a") (auto simp: agrees_def refs_def)
qed

lemma shutdown_frees_all:
  assumes "job_inv s" and "js_retiring s = None" and "\<forall>x \<in> set (submitters s). held x = None"
  shows "\<exists>s'. job_shutdown s = Some s' \<and> mem s' = (\<lambda>_. None)"
proof -
  let ?ps = "js_current s # js_ring s"
  have o: "owners s = mset ?ps + (add_mset None (mset (map held (submitters s))))" using assms(2) by (simp add: owners_def)
  from assms(1) have "agrees (mem s) (owners s)" by (simp add: job_inv_def)
  from rc.release_all [OF this, of ?ps] obtain m where m: "free_slots ?ps (mem s) = Some m" "agrees m (owners s - mset ?ps)"
    unfolding free_slots_eq by (auto simp: o)
  have "owners s - mset ?ps = add_mset None (mset (map held (submitters s)))" unfolding o by (rule add_diff_cancel_left')
  with m(2) assms(3) have "m = (\<lambda>_. None)" by (intro agrees_empty [of m "owners s - mset ?ps"]) auto
  with m(1) show ?thesis by (simp add: job_shutdown_def)
qed

section \<open>Properties\<close>

text \<open>
  C5: however the swap, the retirement, the lookups and the submits interleave, no step touches a job
  that has been destroyed, the count of every job is exactly the number of its owners, and a job with no
  owner has been destroyed: no use after free, no double free, no leak. A server that is freed when no
  submit holds a job and no retirement is under way leaves no job behind.
\<close>

theorem jobs_never_dangle:
  assumes "job_reach s"
  shows "\<not> job_step s None \<and> (\<forall>a. refs (mem s) a = count (owners s) (Some a)) \<and> (\<forall>a. mem s a \<noteq> None \<longleftrightarrow> Some a \<in># owners s) \<and>
    (js_retiring s = None \<and> (\<forall>x \<in> set (submitters s). held x = None) \<longrightarrow> (\<exists>s'. job_shutdown s = Some s' \<and> mem s' = (\<lambda>_. None)))"
proof -
  note inv = job_reach_inv [OF assms]
  have ag: "agrees (mem s) (owners s)" using inv by (simp add: job_inv_def)
  have "mem s a \<noteq> None \<longleftrightarrow> Some a \<in># owners s" for a
  proof (cases "mem s a")
    case None
    then have "refs (mem s) a = 0" by (simp add: refs_def)
    with ag have "count (owners s) (Some a) = 0" by (simp add: agrees_def)
    with None show ?thesis by (simp add: not_in_iff)
  next
    case (Some nj)
    then obtain n j where "mem s a = Some (n, j)" by (cases nj) auto
    with ag have "0 < n" "n = count (owners s) (Some a)" by (auto simp: agrees_def refs_def dest: spec [of _ a])
    with Some show ?thesis by simp
  qed
  then show ?thesis using job_step_ok [OF _ inv] ag shutdown_frees_all [OF inv] by (auto simp: agrees_def)
qed

definition demo_new_job :: "string \<Rightarrow> stratum_job" where
  "demo_new_job i = stratum_job_new (Some i) 0 None 0 None 4 8 [] 0 0 None 0 [] None False 0"

lemma demo_new_job_id: "job_id (demo_new_job ''a'') = ''a''" "job_id (demo_new_job ''b'') = ''b''"
  by (simp_all add: demo_new_job_def stratum_job_new_def Let_def c_copy_def)

text \<open>One submit, one job published; then a second job, with the first not yet in the ring.\<close>

definition demo_gap :: job_state where
  "demo_gap = \<lparr>mem = [0 \<mapsto> (1, demo_new_job ''a''), 1 \<mapsto> (1, demo_new_job ''b'')], js_current = Some 1, js_retiring = Some 0,
     js_ring = replicate RECENT_JOBS None, js_head = 0, submitters = [Idle]\<rparr>"

lemma demo_gap_reach: "job_reach demo_gap"
proof -
  define s1 where "s1 = job_start\<lparr>submitters := [Idle]\<rparr>"
  have r1: "job_reach s1" using job_reach.step [OF job_reach.start job_step.connect] by (simp add: s1_def job_start_def)
  define s2 where "s2 = the (job_swap 0 (demo_new_job ''a'') s1)"
  have "job_step s1 (job_swap 0 (demo_new_job ''a'') s1)" by (rule job_step.swap) (simp_all add: s1_def job_start_def)
  then have r2: "job_reach s2" using job_reach.step [OF r1, of s2] by (simp add: s2_def job_swap_def)
  have s2: "s2 = s1\<lparr>mem := [0 \<mapsto> (1, demo_new_job ''a'')], js_current := Some 0\<rparr>" by (simp add: s2_def job_swap_def s1_def job_start_def)
  have "job_step s2 (job_swap 1 (demo_new_job ''b'') s2)" by (rule job_step.swap) (simp_all add: s2 s1_def job_start_def)
  moreover have "job_swap 1 (demo_new_job ''b'') s2 = Some demo_gap" by (simp add: s2 s1_def job_start_def job_swap_def demo_gap_def)
  ultimately show ?thesis using job_reach.step [OF r2] by simp
qed

theorem jobs_never_dangle_witness: "\<not> job_step demo_gap None \<and> refs (mem demo_gap) 0 = 1 \<and> count (owners demo_gap) (Some 0) = 1"
proof -
  have "refs (mem demo_gap) 0 = 1" by (simp add: refs_def demo_gap_def)
  with jobs_never_dangle [OF demo_gap_reach] show ?thesis by metis
qed

text \<open>
  On the counted pointers of any reachable state, swapping, retiring and looking up a job do exactly
  what they do on job values: the retention ring of the server model is the ring of pointers followed to
  the jobs, with the expired ones dropped and the oldest overwritten.
\<close>

theorem jobs_refine_values:
  assumes "job_reach s"
  shows "(mem s a = None \<longrightarrow> (\<exists>s'. job_swap a j s = Some s' \<and> job_view b s' = (job_view b s)\<lparr>current_job := Some j\<rparr>)) \<and>
    (\<forall>old j. js_retiring s = Some old \<and> contents (mem s) old = Some j \<longrightarrow>
       (\<exists>s'. job_retire t s = Some s' \<and> job_view b s' = retire_job t (job_view b s) j)) \<and>
    (i < length (submitters s) \<and> submitters s ! i = Idle \<longrightarrow>
       (\<exists>s'. job_lookup i jid s = Some s' \<and> found_job i s' = find_job (job_view b s) (Some jid) \<and> job_view b s' = job_view b s))"
  using job_reach_inv [OF assms] swap_view [of s a b j] retire_view [of s _ _ t b] lookup_view [of s i jid b]
  by (auto simp: job_swap_def)

theorem jobs_refine_values_witness:
  "\<exists>s' b. job_lookup 0 ''b'' demo_gap = Some s' \<and> found_job 0 s' = find_job (job_view b demo_gap) (Some ''b'')"
proof -
  have "0 < length (submitters demo_gap) \<and> submitters demo_gap ! 0 = Idle" by (simp add: demo_gap_def)
  with jobs_refine_values [OF demo_gap_reach] show ?thesis by metis
qed

text \<open>
  Between the swap and the retirement the previous job is in neither place a lookup searches: a
  submit for a job the miner was just working on is turned away as stale although nothing expired it.
  There is a reachable state in which this happens.
\<close>

theorem jobs_lookup_gap:
  "\<exists>s s'. job_reach s \<and> js_retiring s = Some 0 \<and> contents (mem s) 0 = Some (demo_new_job ''a'') \<and>
     job_lookup 0 ''a'' s = Some s' \<and> found_job 0 s' = None"
proof -
  define s' where "s' = demo_gap\<lparr>submitters := [Searching ''a'']\<rparr>"
  have c: "job_lookup_current 0 ''a'' demo_gap = Some s'"
    by (simp add: job_lookup_current_def demo_gap_def demo_new_job_id s'_def)
  have "job_scan m ''a'' (replicate n None) = Some None" for m n by (induction n) auto
  then have "job_lookup_recent 0 ''a'' s' = Some (s'\<lparr>submitters := [Idle]\<rparr>)" by (simp add: job_lookup_recent_def s'_def demo_gap_def)
  then have "job_lookup 0 ''a'' demo_gap = Some (s'\<lparr>submitters := [Idle]\<rparr>)" by (simp add: job_lookup_def c) (simp add: s'_def)
  then show ?thesis using demo_gap_reach
    by (intro exI [of _ demo_gap] exI [of _ "s'\<lparr>submitters := [Idle]\<rparr>"]) (simp add: found_job_def demo_gap_def contents_def)
qed

end
