(* ===== verification/Tables.thy ===== *)
theory Tables
  imports Doubles
begin

text \<open>
  The database of the pool (\<^verbatim>\<open>src/store.c\<close>): the tables of the schema as lists of rows in the order
  of their ids, and the statements that write them as functions on the database. A statement that
  violates a constraint has no effect and yields \<open>None\<close>; whether SQLite manages to run a
  statement at all is an argument of the operations that issue it. \<open>AUTOINCREMENT\<close> ids come from
  a counter that is part of the database and is rolled back with it; an insert that ends in \<open>DO UPDATE\<close>
  or \<open>OR IGNORE\<close> has used up a number. Integers are unbounded here:
  ids, times and amounts stay far below \<open>2^63\<close>.
\<close>

section \<open>Rows\<close>

record worker_row =
  wk_id :: int
  wk_name :: string
  wk_first_seen :: int
  wk_last_seen :: int
  wk_payout :: "string option"

record share_row =
  sh_id :: int
  sh_worker :: int
  sh_ts :: int
  sh_difficulty :: double
  sh_is_block :: int
  sh_hash :: "string option"
  sh_credited :: int
  sh_rate :: double

record reject_row =
  rj_id :: int
  rj_worker :: "string option"
  rj_ts :: int
  rj_reason :: string

record block_row =
  bk_id :: int
  bk_ts :: int
  bk_height :: int
  bk_hash :: string
  bk_finder :: "int option"
  bk_finder_address :: "string option"
  bk_reward :: "int option"
  bk_fee :: "int option"
  bk_status :: string
  bk_confirmations :: int
  bk_window :: double
  bk_distributed :: int
  bk_submit_error :: "string option"
  bk_checked_via :: "string option"

record node_row =
  nd_height :: int
  nd_hash :: string
  nd_observed_at :: int
  nd_updated_at :: int

record template_row =
  tp_id :: int
  tp_ts :: int
  tp_height :: int
  tp_prev_hash :: string
  tp_bits :: string
  tp_network_difficulty :: double
  tp_coinbase_value :: int
  tp_tx_count :: int
  tp_tx_fees :: int
  tp_source :: string
  tp_cb_spendable :: int
  tp_cb_op_returns :: int
  tp_longpoll :: int
  tp_rate :: double
  tp_last_seen :: int
  tp_polls :: int

record rate_row =
  rt_id :: int
  rt_ts :: int
  rt_rate :: double
  rt_gross :: double
  rt_fee_bps :: int
  rt_network_difficulty :: double
  rt_block_value :: int
  rt_source :: string

text \<open>The single row of \<open>pool_meta\<close>: the identity columns and the rate columns, each \<open>NULL\<close> until written.\<close>

record pool_identity =
  pi_network :: string
  pi_network_source :: string
  pi_coinbase_tag :: string
  pi_operator_address :: string
  pi_pool_btc_address :: "string option"
  pi_listeners :: "string option"
  pi_payout_floor :: "int option"

record pool_rate =
  pr_mode :: string
  pr_fee_bps :: int
  pr_rate_source :: string
  pr_rate :: double
  pr_gross :: double
  pr_effective_fee_bps :: double
  pr_network_difficulty :: double
  pr_block_value :: int
  pr_credited_from :: int
  pr_updated_at :: int
  pr_events_lost :: int

record credit_row =
  cr_worker :: int
  cr_accrued :: int
  cr_paid :: int
  cr_updated :: int

record fraction_row =
  fr_worker :: int
  fr_owed :: double
  fr_updated :: int

record pending_row =
  pf_hash :: string
  pf_worker :: int
  pf_delta :: double

record db =
  workers :: "worker_row list"
  worker_seq :: int
  shares :: "share_row list"
  share_seq :: int
  rejects :: "reject_row list"
  reject_seq :: int
  blocks :: "block_row list"
  block_seq :: int
  hash_unique :: bool
  node_status :: "node_row option"
  meta_identity :: "pool_identity option"
  meta_rate :: "pool_rate option"
  rates :: "rate_row list"
  rate_seq :: int
  templates :: "template_row list"
  template_seq :: int
  credits :: "credit_row list"
  fractions :: "fraction_row list"
  pending :: "pending_row list"

definition empty_db :: db where
  "empty_db = \<lparr>workers = [], worker_seq = 0, shares = [], share_seq = 0, rejects = [], reject_seq = 0,
     blocks = [], block_seq = 0, hash_unique = False, node_status = None, meta_identity = None,
     meta_rate = None, rates = [], rate_seq = 0, templates = [], template_seq = 0, credits = [],
     fractions = [], pending = []\<rparr>"

section \<open>Statements of the writer\<close>

definition worker_ids :: "db \<Rightarrow> int list" where
  "worker_ids d = map wk_id (workers d)"

definition find_worker :: "string \<Rightarrow> db \<Rightarrow> worker_row option" where
  "find_worker name d = find (\<lambda>r. wk_name r = name) (workers d)"

text \<open>\<open>Q_UPSERT\<close>: the payout address is set once; the statement returns the id.\<close>

definition sql_upsert_worker :: "string \<Rightarrow> int \<Rightarrow> string option \<Rightarrow> db \<Rightarrow> int \<times> db" where
  "sql_upsert_worker name ts addr d =
     (case find_worker name d of
        Some r \<Rightarrow>
          (wk_id r, d\<lparr>workers := map (\<lambda>q. if wk_name q = name
             then q\<lparr>wk_last_seen := ts, wk_payout := (case wk_payout q of Some a \<Rightarrow> Some a | None \<Rightarrow> addr)\<rparr> else q) (workers d),
                   worker_seq := worker_seq d + 1\<rparr>)
      | None \<Rightarrow>
          let i = worker_seq d + 1 in
          (i, d\<lparr>workers := workers d @ [\<lparr>wk_id = i, wk_name = name, wk_first_seen = ts, wk_last_seen = ts, wk_payout = addr\<rparr>],
                worker_seq := i\<rparr>))"

text \<open>\<open>Q_INS_SHARE\<close>: the worker must exist, and a NaN is bound as \<open>NULL\<close>, which the columns refuse.\<close>

definition sql_insert_share :: "int \<Rightarrow> int \<Rightarrow> double \<Rightarrow> int \<Rightarrow> string option \<Rightarrow> int \<Rightarrow> double \<Rightarrow> db \<Rightarrow> db option" where
  "sql_insert_share wid ts diff is_block hash credited rate d =
     (if wid \<in> set (worker_ids d) \<and> diff \<noteq> NaN \<and> rate \<noteq> NaN then
        let i = share_seq d + 1 in
        Some (d\<lparr>shares := shares d @ [\<lparr>sh_id = i, sh_worker = wid, sh_ts = ts, sh_difficulty = diff, sh_is_block = is_block,
                  sh_hash = hash, sh_credited = credited, sh_rate = rate\<rparr>], share_seq := i\<rparr>)
      else None)"

definition sql_insert_reject :: "string option \<Rightarrow> int \<Rightarrow> string \<Rightarrow> db \<Rightarrow> db" where
  "sql_insert_reject worker ts reason d =
     (let i = reject_seq d + 1 in
      d\<lparr>rejects := rejects d @ [\<lparr>rj_id = i, rj_worker = worker, rj_ts = ts, rj_reason = reason\<rparr>], reject_seq := i\<rparr>)"

text \<open>\<open>Q_INS_BLOCK\<close>: with the unique index a known hash is ignored, and so is a NaN window, which is bound as
  \<open>NULL\<close>; \<open>True\<close> when a row was inserted.\<close>

definition sql_insert_block ::
  "int \<Rightarrow> int \<Rightarrow> string \<Rightarrow> int option \<Rightarrow> string option \<Rightarrow> int option \<Rightarrow> int option \<Rightarrow> string \<Rightarrow> string option \<Rightarrow> double \<Rightarrow>
   db \<Rightarrow> (bool \<times> db) option" where
  "sql_insert_block ts height hash finder addr reward fee status submit_error window d =
     (if window = NaN \<or> hash_unique d \<and> hash \<in> set (map bk_hash (blocks d)) then Some (False, d\<lparr>block_seq := block_seq d + 1\<rparr>)
      else if (case finder of Some i \<Rightarrow> i \<notin> set (worker_ids d) | None \<Rightarrow> False) then None
      else let i = block_seq d + 1 in
        Some (True, d\<lparr>blocks := blocks d @ [\<lparr>bk_id = i, bk_ts = ts, bk_height = height, bk_hash = hash, bk_finder = finder,
          bk_finder_address = addr, bk_reward = reward, bk_fee = fee, bk_status = status, bk_confirmations = 0,
          bk_window = window, bk_distributed = 0, bk_submit_error = submit_error, bk_checked_via = None\<rparr>], block_seq := i\<rparr>))"

text \<open>\<open>Q_UPSERT_CREDIT\<close>, also \<open>Q_CREDIT\<close> of the distributor.\<close>

definition sql_upsert_credit :: "int \<Rightarrow> int \<Rightarrow> int \<Rightarrow> db \<Rightarrow> db option" where
  "sql_upsert_credit wid amount ts d =
     (if wid \<notin> set (worker_ids d) then None
      else if wid \<in> set (map cr_worker (credits d)) then
        Some (d\<lparr>credits := map (\<lambda>r. if cr_worker r = wid then r\<lparr>cr_accrued := cr_accrued r + amount, cr_updated := ts\<rparr> else r) (credits d)\<rparr>)
      else Some (d\<lparr>credits := credits d @ [\<lparr>cr_worker = wid, cr_accrued = amount, cr_paid = 0, cr_updated = ts\<rparr>]\<rparr>))"

text \<open>\<open>Q_UPSERT_NODE_TIP\<close>: the observation time moves only when the hash does.\<close>

definition sql_upsert_node_tip :: "int \<Rightarrow> string \<Rightarrow> int \<Rightarrow> int \<Rightarrow> db \<Rightarrow> db" where
  "sql_upsert_node_tip height hash observed updated d =
     d\<lparr>node_status := Some (case node_status d of
         None \<Rightarrow> \<lparr>nd_height = height, nd_hash = hash, nd_observed_at = observed, nd_updated_at = updated\<rparr>
       | Some r \<Rightarrow> \<lparr>nd_height = height, nd_hash = hash,
           nd_observed_at = (if nd_hash r \<noteq> hash then observed else nd_observed_at r), nd_updated_at = updated\<rparr>)\<rparr>"

section \<open>The schema\<close>

text \<open>What the schema guarantees of its tables: primary keys and unique names, ids in the order of insertion
  and never above the counter, references that resolve.\<close>

definition ids_ok :: "int list \<Rightarrow> int \<Rightarrow> bool" where
  "ids_ok is n \<longleftrightarrow> 0 \<le> n \<and> sorted_wrt (<) is \<and> (\<forall>i \<in> set is. 0 < i \<and> i \<le> n)"

definition db_ok :: "db \<Rightarrow> bool" where
  "db_ok d \<longleftrightarrow>
     ids_ok (worker_ids d) (worker_seq d) \<and> distinct (map wk_name (workers d)) \<and>
     ids_ok (map sh_id (shares d)) (share_seq d) \<and> set (map sh_worker (shares d)) \<subseteq> set (worker_ids d) \<and>
     ids_ok (map rj_id (rejects d)) (reject_seq d) \<and>
     ids_ok (map bk_id (blocks d)) (block_seq d) \<and> (hash_unique d \<longrightarrow> distinct (map bk_hash (blocks d))) \<and>
     ids_ok (map rt_id (rates d)) (rate_seq d) \<and>
     ids_ok (map tp_id (templates d)) (template_seq d) \<and>
     distinct (map cr_worker (credits d)) \<and> set (map cr_worker (credits d)) \<subseteq> set (worker_ids d) \<and>
     distinct (map fr_worker (fractions d)) \<and> set (map fr_worker (fractions d)) \<subseteq> set (worker_ids d) \<and>
     distinct (map (\<lambda>r. (pf_hash r, pf_worker r)) (pending d))"

lemma worker_ids_update [simp]:
  "worker_ids (d\<lparr>worker_seq := n\<rparr>) = worker_ids d"
  "worker_ids (d\<lparr>shares := a\<rparr>) = worker_ids d" "worker_ids (d\<lparr>share_seq := n\<rparr>) = worker_ids d"
  "worker_ids (d\<lparr>rejects := b\<rparr>) = worker_ids d" "worker_ids (d\<lparr>reject_seq := n\<rparr>) = worker_ids d"
  "worker_ids (d\<lparr>blocks := c\<rparr>) = worker_ids d" "worker_ids (d\<lparr>block_seq := n\<rparr>) = worker_ids d"
  "worker_ids (d\<lparr>hash_unique := u\<rparr>) = worker_ids d" "worker_ids (d\<lparr>node_status := e\<rparr>) = worker_ids d"
  "worker_ids (d\<lparr>meta_identity := f\<rparr>) = worker_ids d" "worker_ids (d\<lparr>meta_rate := g\<rparr>) = worker_ids d"
  "worker_ids (d\<lparr>rates := h\<rparr>) = worker_ids d" "worker_ids (d\<lparr>rate_seq := n\<rparr>) = worker_ids d"
  "worker_ids (d\<lparr>templates := i\<rparr>) = worker_ids d" "worker_ids (d\<lparr>template_seq := n\<rparr>) = worker_ids d"
  "worker_ids (d\<lparr>credits := j\<rparr>) = worker_ids d" "worker_ids (d\<lparr>fractions := k\<rparr>) = worker_ids d"
  "worker_ids (d\<lparr>pending := l\<rparr>) = worker_ids d"
  by (simp_all add: worker_ids_def)

lemma db_ok_empty [simp]: "db_ok empty_db"
  by (simp add: db_ok_def empty_db_def ids_ok_def worker_ids_def)

lemma ids_ok_snoc: "ids_ok is n \<Longrightarrow> ids_ok (is @ [n + 1]) (n + 1)"
  by (fastforce simp: ids_ok_def sorted_wrt_append)

lemma ids_ok_skip: "ids_ok is n \<Longrightarrow> ids_ok is (n + 1)"
  by (fastforce simp: ids_ok_def)

lemma ids_ok_distinct: "ids_ok is n \<Longrightarrow> distinct is"
  using strict_sorted_iff by (auto simp: ids_ok_def)

text \<open>A replacement of rows that keeps what identifies them.\<close>

lemma map_update: "(\<And>r. P r \<Longrightarrow> f (g r) = f r) \<Longrightarrow> map f (map (\<lambda>r. if P r then g r else r) rs) = map f rs"
  by simp

lemma find_worker_Some:
  "find_worker name d = Some r \<Longrightarrow> r \<in> set (workers d) \<and> wk_name r = name"
  by (auto simp: find_worker_def find_Some_iff in_set_conv_nth)

lemma find_worker_None: "find_worker name d = None \<longleftrightarrow> name \<notin> wk_name ` set (workers d)"
  by (auto simp: find_worker_def find_None_iff)

lemma upsert_worker_old:
  assumes "sql_upsert_worker name ts addr d = (i, d')" and "find_worker name d = Some r"
  shows "i = wk_id r" and "d' = d\<lparr>workers := workers d', worker_seq := worker_seq d + 1\<rparr>" and "map wk_id (workers d') = map wk_id (workers d)"
    and "map wk_name (workers d') = map wk_name (workers d)"
  using assms by (auto simp: sql_upsert_worker_def comp_def if_distrib [of wk_id] if_distrib [of wk_name])

lemma upsert_worker_new:
  assumes "sql_upsert_worker name ts addr d = (i, d')" and "find_worker name d = None"
  shows "i = worker_seq d + 1" and "d' = d\<lparr>workers := workers d', worker_seq := worker_seq d + 1\<rparr>" and
    "map wk_id (workers d') = map wk_id (workers d) @ [i]" and "map wk_name (workers d') = map wk_name (workers d) @ [name]"
  using assms by (auto simp: sql_upsert_worker_def Let_def)

lemma upsert_worker_id:
  assumes "sql_upsert_worker name ts addr d = (i, d')" and "db_ok d"
  shows "0 < i \<and> i \<in> set (worker_ids d') \<and> set (worker_ids d) \<subseteq> set (worker_ids d')"
proof (cases "find_worker name d")
  case None
  from upsert_worker_new [OF assms(1) None] show ?thesis
    using assms(2) unfolding db_ok_def ids_ok_def worker_ids_def by (metis Un_iff add_increasing2 in_set_conv_decomp set_append subsetI zle_add1_eq_le zless_add1_eq zero_le_one)
next
  case (Some r)
  from upsert_worker_old [OF assms(1) Some] show ?thesis
    using assms(2) find_worker_Some [OF Some] unfolding db_ok_def ids_ok_def worker_ids_def by (metis image_eqI list.set_map subset_refl)
qed

lemma upsert_worker_ok:
  assumes "sql_upsert_worker name ts addr d = (i, d')" and "db_ok d"
  shows "db_ok d'"
proof (cases "find_worker name d")
  case None
  note n = upsert_worker_new [OF assms(1) None]
  have "ids_ok (map wk_id (workers d')) (worker_seq d + 1)" "distinct (map wk_name (workers d'))"
    using ids_ok_snoc [of "worker_ids d" "worker_seq d"] assms(2) None unfolding n(3,4)
    by (simp_all add: n(1) db_ok_def worker_ids_def find_worker_None)
  moreover have "set (worker_ids d) \<subseteq> set (map wk_id (workers d'))" unfolding n(3) by (auto simp: worker_ids_def)
  ultimately show ?thesis using assms(2)
    by (subst n(2)) (simp add: db_ok_def worker_ids_def del: set_map, blast)
next
  case (Some r)
  note o = upsert_worker_old [OF assms(1) Some]
  show ?thesis using assms(2) by (subst o(2)) (simp add: db_ok_def worker_ids_def o(3,4) ids_ok_skip del: set_map)
qed

lemma insert_share_ok: "sql_insert_share wid ts diff isb h cr rt d = Some d' \<Longrightarrow> db_ok d \<Longrightarrow> db_ok d'"
  using ids_ok_snoc [of "map sh_id (shares d)" "share_seq d"]
  by (clarsimp simp: sql_insert_share_def db_ok_def Let_def split: if_splits)

lemma insert_reject_ok: "db_ok d \<Longrightarrow> db_ok (sql_insert_reject wk ts re d)"
  using ids_ok_snoc [of "map rj_id (rejects d)" "reject_seq d"]
  by (simp add: sql_insert_reject_def db_ok_def Let_def)

lemma insert_block_ok: "sql_insert_block ts ht h f a re fe st se wi d = Some (b, d') \<Longrightarrow> db_ok d \<Longrightarrow> db_ok d'"
  using ids_ok_snoc [of "map bk_id (blocks d)" "block_seq d"]
  by (clarsimp simp: sql_insert_block_def db_ok_def Let_def ids_ok_skip split: if_splits option.splits)

lemma upsert_credit_ok:
  assumes "sql_upsert_credit wid am ts d = Some d'" and "db_ok d"
  shows "db_ok d'"
proof -
  have m: "map cr_worker (map (\<lambda>r. if cr_worker r = wid then r\<lparr>cr_accrued := cr_accrued r + am, cr_updated := ts\<rparr> else r) (credits d)) = map cr_worker (credits d)"
    by (rule map_update) simp
  show ?thesis using assms m by (clarsimp simp: sql_upsert_credit_def db_ok_def simp del: map_map set_map split: if_splits)
qed

lemma upsert_node_tip_ok: "db_ok d \<Longrightarrow> db_ok (sql_upsert_node_tip ht h ob up d)"
  by (simp add: sql_upsert_node_tip_def db_ok_def)

end
