(* ===== verification/Store.thy ===== *)
theory Store
  imports Tables
begin

text \<open>
  The event store (\<^verbatim>\<open>src/store.c\<close>): producers append events to a bounded ring, one writer thread
  drains it in batches, each batch one SQLite transaction with retries. Worker names are resolved
  to ids through a cache with open addressing. The theory models the ring, the cache, the writer
  and the connection it shares with the other threads.

  SQLite is a parameter: \<open>io\<close> says how the n-th call into it ends. A call that fails has no
  effect; some failures (a full disk, an I/O error, lack of memory) also roll the open transaction
  back, after which the connection is in autocommit mode and every statement is durable by itself.
\<close>

section \<open>Events\<close>

definition EV_SHARE :: nat where "EV_SHARE = 1"
definition EV_REJECT :: nat where "EV_REJECT = 2"
definition EV_BLOCK :: nat where "EV_BLOCK = 3"
definition EV_CREDIT :: nat where "EV_CREDIT = 4"
definition WORKER_NAME_MAX :: nat where "WORKER_NAME_MAX = 128"
definition HASH_STR_MAX :: nat where "HASH_STR_MAX = 96"
definition REASON_MAX :: nat where "REASON_MAX = 128"
definition ADDR_MAX :: nat where "ADDR_MAX = 128"
definition WORKER_CACHE_SLOTS :: nat where "WORKER_CACHE_SLOTS = 16384"
definition STORE_COMMIT_ATTEMPTS :: nat where "STORE_COMMIT_ATTEMPTS = 3"

definition STORE_BLOCK_PENDING :: nat where "STORE_BLOCK_PENDING = 0"
definition STORE_BLOCK_CONFIRMED :: nat where "STORE_BLOCK_CONFIRMED = 1"
definition STORE_BLOCK_ORPHANED :: nat where "STORE_BLOCK_ORPHANED = 2"
definition STORE_BLOCK_REJECTED :: nat where "STORE_BLOCK_REJECTED = 3"

definition store_block_status_text :: "nat \<Rightarrow> string" where
  "store_block_status_text status =
     (if status = STORE_BLOCK_CONFIRMED then ''confirmed''
      else if status = STORE_BLOCK_ORPHANED then ''orphaned''
      else if status = STORE_BLOCK_REJECTED then ''rejected''
      else ''pending'')"

record store_event =
  se_kind :: nat
  se_ts_ms :: u64
  se_difficulty :: double
  se_is_block :: int
  se_height :: int
  se_reward :: int
  se_fee :: int
  se_window :: double
  se_status :: nat
  se_delta :: int
  se_rate :: double
  se_worker :: string
  se_address :: string
  se_hash :: string
  se_reason :: string

definition zero_event :: store_event where
  "zero_event = \<lparr>se_kind = 0, se_ts_ms = 0, se_difficulty = Fin 0, se_is_block = 0, se_height = 0, se_reward = 0, se_fee = 0,
     se_window = Fin 0, se_status = 0, se_delta = 0, se_rate = Fin 0, se_worker = [], se_address = [], se_hash = [], se_reason = []\<rparr>"

section \<open>State\<close>

type_synonym cache = "(string \<times> int) option list"

record store =
  dbase :: db
  saved :: "db option"
  calls :: nat
  ring :: "store_event list"
  ring_head :: nat
  ring_tail :: nat
  ring_count :: nat
  commit_max_shares :: nat
  templates_retention_days :: int
  worker_cache :: cache
  shares_queued :: u64
  shares_committed :: u64
  shares_dropped :: u64
  rejects_queued :: u64
  rejects_committed :: u64
  blocks_committed :: u64
  credits_committed :: u64
  batches :: u64
  pg_errors :: u64
  events_lost :: u64
  enqueue_seq :: u64
  committed_seq :: u64

definition ring_cap :: "store \<Rightarrow> nat" where
  "ring_cap s = length (ring s)"

definition count_error :: "store \<Rightarrow> store" where
  "count_error s = s\<lparr>pg_errors := pg_errors s + 1\<rparr>"

text \<open>\<open>store_open\<close> on a database that opens, whose schema applies and whose statements prepare.\<close>

definition store_open :: "int \<Rightarrow> int \<Rightarrow> nat \<Rightarrow> db \<Rightarrow> store" where
  "store_open max_shares retention test_cap d =
     \<lparr>dbase = d, saved = None, calls = 0,
      ring = replicate (if test_cap > 0 then test_cap else 65536) zero_event, ring_head = 0, ring_tail = 0, ring_count = 0,
      commit_max_shares = (if max_shares > 0 then nat max_shares else 100),
      templates_retention_days = (if retention > 0 then retention else 0),
      worker_cache = replicate WORKER_CACHE_SLOTS None,
      shares_queued = 0, shares_committed = 0, shares_dropped = 0, rejects_queued = 0, rejects_committed = 0,
      blocks_committed = 0, credits_committed = 0, batches = 0, pg_errors = 0, events_lost = 0,
      enqueue_seq = 0, committed_seq = 0\<rparr>"

section \<open>The connection\<close>

datatype sql_outcome = Done | Fail | FailRollback

type_synonym sqlite = "nat \<Rightarrow> sql_outcome"

text \<open>Ends the open transaction by undoing it; without one nothing happens.\<close>

definition sql_rollback :: "store \<Rightarrow> store" where
  "sql_rollback s = (case saved s of None \<Rightarrow> s | Some d \<Rightarrow> s\<lparr>dbase := d, saved := None\<rparr>)"

text \<open>A statement: its result, or \<open>None\<close> when it fails or violates a constraint.\<close>

definition sql_step :: "sqlite \<Rightarrow> (db \<Rightarrow> ('a \<times> db) option) \<Rightarrow> store \<Rightarrow> 'a option \<times> store" where
  "sql_step io f s =
     (let r = io (calls s); s = s\<lparr>calls := calls s + 1\<rparr> in
      case r of
        Done \<Rightarrow> (case f (dbase s) of None \<Rightarrow> (None, s) | Some (x, d) \<Rightarrow> (Some x, s\<lparr>dbase := d\<rparr>))
      | Fail \<Rightarrow> (None, s)
      | FailRollback \<Rightarrow> (None, sql_rollback s))"

definition sql_begin :: "sqlite \<Rightarrow> store \<Rightarrow> bool \<times> store" where
  "sql_begin io s =
     (let r = io (calls s); s = s\<lparr>calls := calls s + 1\<rparr> in
      if saved s = None \<and> r = Done then (True, s\<lparr>saved := Some (dbase s)\<rparr>) else (False, s))"

definition sql_commit :: "sqlite \<Rightarrow> store \<Rightarrow> bool \<times> store" where
  "sql_commit io s =
     (let r = io (calls s); s = s\<lparr>calls := calls s + 1\<rparr> in
      if saved s = None then (False, s)
      else case r of Done \<Rightarrow> (True, s\<lparr>saved := None\<rparr>) | Fail \<Rightarrow> (False, s) | FailRollback \<Rightarrow> (False, sql_rollback s))"

section \<open>The worker cache\<close>

definition name_hash :: "string \<Rightarrow> u32" where
  "name_hash s = foldl (\<lambda>h b. (h XOR ucast b) * 16777619) 2166136261 (str_bytes s)"

text \<open>\<open>strncmp(a, b, WORKER_NAME_MAX) == 0\<close>\<close>

definition same_name :: "string \<Rightarrow> string \<Rightarrow> bool" where
  "same_name a b \<longleftrightarrow> take WORKER_NAME_MAX a = take WORKER_NAME_MAX b"

definition cache_slot :: "nat \<Rightarrow> nat \<Rightarrow> nat" where
  "cache_slot h i = (h + i) mod WORKER_CACHE_SLOTS"

definition cache_home :: "string \<Rightarrow> nat" where
  "cache_home name = unat (name_hash name AND word_of_nat (WORKER_CACHE_SLOTS - 1))"

text \<open>The probe loop over the slots \<open>h + i\<close>, \<open>h + i + 1\<close>, ... of which \<open>n\<close> are left.\<close>

fun cache_probe :: "cache \<Rightarrow> string \<Rightarrow> nat \<Rightarrow> nat \<Rightarrow> nat \<Rightarrow> nat option" where
  "cache_probe c name h i 0 = None"
| "cache_probe c name h i (Suc n) =
     (case c ! cache_slot h i of
        None \<Rightarrow> Some (cache_slot h i)
      | Some (nm, _) \<Rightarrow> if same_name nm name then Some (cache_slot h i) else cache_probe c name h (i + 1) n)"

definition cache_lookup :: "cache \<Rightarrow> string \<Rightarrow> int" where
  "cache_lookup c name =
     (case cache_probe c name (cache_home name) 0 WORKER_CACHE_SLOTS of
        None \<Rightarrow> -1
      | Some k \<Rightarrow> (case c ! k of None \<Rightarrow> -1 | Some (_, i) \<Rightarrow> i))"

definition cache_insert :: "cache \<Rightarrow> string \<Rightarrow> int \<Rightarrow> cache" where
  "cache_insert c name i =
     (case cache_probe c name (cache_home name) 0 WORKER_CACHE_SLOTS of
        None \<Rightarrow> c
      | Some k \<Rightarrow> c[k := Some (case c ! k of None \<Rightarrow> c_copy WORKER_NAME_MAX name | Some (nm, _) \<Rightarrow> nm, i)])"

definition resolve_worker_id :: "sqlite \<Rightarrow> string \<Rightarrow> string \<Rightarrow> u64 \<Rightarrow> store \<Rightarrow> int \<times> store" where
  "resolve_worker_id io name addr ts_ms s =
     (let id0 = cache_lookup (worker_cache s) name;
          cached = id0 \<ge> 0;
          ts = uint (ts_ms div 1000);
          (r, s) = sql_step io (\<lambda>d. Some (sql_upsert_worker name ts (if addr \<noteq> [] then Some addr else None) d)) s;
          (i, s) = (case r of Some i \<Rightarrow> (i, s) | None \<Rightarrow> if cached then (id0, s) else (-1, count_error s))
      in (i, if i \<ge> 0 \<and> \<not> cached then s\<lparr>worker_cache := cache_insert (worker_cache s) name i\<rparr> else s))"

section \<open>The writer\<close>

text \<open>\<open>bind_text\<close> or \<open>bind_null\<close>: an empty string is stored as \<open>NULL\<close>, an amount that is not positive too.\<close>

definition text_or_null :: "string \<Rightarrow> string option" where
  "text_or_null t = (if t \<noteq> [] then Some t else None)"

definition sats_or_null :: "int \<Rightarrow> int option" where
  "sats_or_null v = (if v > 0 then Some v else None)"

definition unit_step :: "(db \<Rightarrow> db option) \<Rightarrow> db \<Rightarrow> (unit \<times> db) option" where
  "unit_step f d = map_option (Pair ()) (f d)"

definition process_share :: "sqlite \<Rightarrow> store_event \<Rightarrow> store \<Rightarrow> store" where
  "process_share io ev s =
     (let (wid, s) = resolve_worker_id io (se_worker ev) (se_address ev) (se_ts_ms ev) s in
      if wid < 0 then count_error s
      else let (r, s) = sql_step io (unit_step (sql_insert_share wid (uint (se_ts_ms ev div 1000)) (se_difficulty ev) (se_is_block ev)
                          (text_or_null (se_hash ev)) (se_delta ev) (se_rate ev))) s
           in case r of None \<Rightarrow> count_error s | Some _ \<Rightarrow> s\<lparr>shares_committed := shares_committed s + 1\<rparr>)"

definition process_reject :: "sqlite \<Rightarrow> store_event \<Rightarrow> store \<Rightarrow> store" where
  "process_reject io ev s =
     (let (r, s) = sql_step io (\<lambda>d. Some ((), sql_insert_reject (text_or_null (se_worker ev)) (uint (se_ts_ms ev div 1000)) (se_reason ev) d)) s
      in case r of None \<Rightarrow> count_error s | Some _ \<Rightarrow> s\<lparr>rejects_committed := rejects_committed s + 1\<rparr>)"

definition process_block :: "sqlite \<Rightarrow> store_event \<Rightarrow> store \<Rightarrow> store" where
  "process_block io ev s =
     (let (finder, s) = (if se_worker ev \<noteq> [] then resolve_worker_id io (se_worker ev) (se_address ev) (se_ts_ms ev) s else (-1, s));
          (r, s) = sql_step io (sql_insert_block (uint (se_ts_ms ev div 1000)) (se_height ev) (se_hash ev)
             (if finder \<ge> 0 then Some finder else None) (text_or_null (se_address ev)) (sats_or_null (se_reward ev))
             (sats_or_null (se_fee ev)) (store_block_status_text (se_status ev)) (text_or_null (se_reason ev)) (se_window ev)) s
      in case r of
           None \<Rightarrow> count_error s
         | Some inserted \<Rightarrow>
             if inserted \<and> se_status ev \<noteq> STORE_BLOCK_REJECTED then s\<lparr>blocks_committed := blocks_committed s + 1\<rparr> else s)"

definition process_credit :: "sqlite \<Rightarrow> store_event \<Rightarrow> store \<Rightarrow> store" where
  "process_credit io ev s =
     (let (wid, s) = resolve_worker_id io (se_worker ev) (se_address ev) (se_ts_ms ev) s in
      if wid < 0 then count_error s
      else let (r, s) = sql_step io (unit_step (sql_upsert_credit wid (se_delta ev) (uint (se_ts_ms ev div 1000)))) s
           in case r of None \<Rightarrow> count_error s | Some _ \<Rightarrow> s\<lparr>credits_committed := credits_committed s + 1\<rparr>)"

definition process_event :: "sqlite \<Rightarrow> store_event \<Rightarrow> store \<Rightarrow> store" where
  "process_event io ev s =
     (if se_kind ev = EV_SHARE then process_share io ev s
      else if se_kind ev = EV_REJECT then process_reject io ev s
      else if se_kind ev = EV_BLOCK then process_block io ev s
      else if se_kind ev = EV_CREDIT then process_credit io ev s
      else s)"

text \<open>One attempt of \<open>commit_batch\<close>, under \<open>txn_mu\<close>.\<close>

definition commit_attempt :: "sqlite \<Rightarrow> store_event list \<Rightarrow> store \<Rightarrow> bool \<times> store" where
  "commit_attempt io batch s =
     (let (ok, s) = sql_begin io s in
      if \<not> ok then (False, count_error s)
      else let (ok, s) = sql_commit io (fold (process_event io) batch s) in
        if ok then (True, s\<lparr>batches := batches s + 1\<rparr>)
        else (False, count_error (sql_rollback s)))"

fun commit_tries :: "sqlite \<Rightarrow> nat \<Rightarrow> store_event list \<Rightarrow> store \<Rightarrow> bool \<times> store" where
  "commit_tries io 0 batch s = (False, s)"
| "commit_tries io (Suc n) batch s =
     (let (ok, s) = commit_attempt io batch s in if ok then (True, s) else commit_tries io n batch s)"

definition commit_batch :: "sqlite \<Rightarrow> store_event list \<Rightarrow> store \<Rightarrow> bool \<times> store" where
  "commit_batch io = commit_tries io STORE_COMMIT_ATTEMPTS"

text \<open>The copy loop that drains \<open>n\<close> events from the tail of the ring.\<close>

fun drain :: "nat \<Rightarrow> store \<Rightarrow> store_event list \<times> store" where
  "drain 0 s = ([], s)"
| "drain (Suc n) s =
     (let e = ring s ! ring_tail s;
          (es, s) = drain n (s\<lparr>ring_tail := (ring_tail s + 1) mod ring_cap s\<rparr>)
      in (e # es, s))"

text \<open>The writer between two waits: take a batch (under \<open>mu\<close>), land it, publish its sequence number (under
  \<open>mu\<close> again).\<close>

definition writer_take :: "store \<Rightarrow> store_event list \<times> u64 \<times> store" where
  "writer_take s =
     (let n = min (ring_count s) (commit_max_shares s);
          (batch, s) = drain n s;
          s = s\<lparr>ring_count := ring_count s - n\<rparr>
      in (batch, enqueue_seq s - word_of_nat (ring_count s), s))"

definition writer_commit :: "sqlite \<Rightarrow> store_event list \<Rightarrow> store \<Rightarrow> store" where
  "writer_commit io batch s =
     (let (ok, s) = commit_batch io batch s
      in if ok then s else s\<lparr>events_lost := events_lost s + word_of_nat (length batch)\<rparr>)"

definition writer_publish :: "u64 \<Rightarrow> store \<Rightarrow> store" where
  "writer_publish seq_after s = s\<lparr>committed_seq := seq_after\<rparr>"

section \<open>Producers\<close>

definition enqueue :: "store_event \<Rightarrow> store \<Rightarrow> bool \<times> store" where
  "enqueue ev s =
     (if ring_count s = ring_cap s then (False, s)
      else (True, s\<lparr>ring := (ring s)[ring_head s := ev], ring_head := (ring_head s + 1) mod ring_cap s,
                    ring_count := ring_count s + 1, enqueue_seq := enqueue_seq s + 1\<rparr>))"

definition count_dropped :: "store \<Rightarrow> store" where
  "count_dropped s = s\<lparr>shares_dropped := shares_dropped s + 1\<rparr>"

definition store_record_share_addr ::
  "string option \<Rightarrow> string option \<Rightarrow> u64 \<Rightarrow> double \<Rightarrow> int \<Rightarrow> string option \<Rightarrow> int \<Rightarrow> double \<Rightarrow> store \<Rightarrow> bool \<times> store" where
  "store_record_share_addr worker addr ts diff is_block hash credited rate s =
     (case worker of
        None \<Rightarrow> (False, s)
      | Some w \<Rightarrow>
          let (ok, s) = enqueue (zero_event\<lparr>se_kind := EV_SHARE, se_ts_ms := ts, se_difficulty := diff, se_is_block := is_block,
                se_delta := credited, se_rate := rate, se_worker := c_copy WORKER_NAME_MAX w,
                se_address := (case addr of None \<Rightarrow> [] | Some a \<Rightarrow> c_copy ADDR_MAX a),
                se_hash := (case hash of None \<Rightarrow> [] | Some h \<Rightarrow> c_copy HASH_STR_MAX h)\<rparr>) s
          in if ok then (True, s\<lparr>shares_queued := shares_queued s + 1\<rparr>) else (False, count_dropped s))"

definition store_record_share :: "string option \<Rightarrow> u64 \<Rightarrow> double \<Rightarrow> int \<Rightarrow> string option \<Rightarrow> store \<Rightarrow> bool \<times> store" where
  "store_record_share worker ts diff is_block hash = store_record_share_addr worker None ts diff is_block hash 0 (Fin 0)"

definition store_record_reject :: "string option \<Rightarrow> u64 \<Rightarrow> string option \<Rightarrow> store \<Rightarrow> bool \<times> store" where
  "store_record_reject worker ts reason s =
     (case reason of
        None \<Rightarrow> (False, s)
      | Some r \<Rightarrow>
          let (ok, s) = enqueue (zero_event\<lparr>se_kind := EV_REJECT, se_ts_ms := ts,
                se_worker := (case worker of None \<Rightarrow> [] | Some w \<Rightarrow> c_copy WORKER_NAME_MAX w), se_reason := c_copy REASON_MAX r\<rparr>) s
          in if ok then (True, s\<lparr>rejects_queued := rejects_queued s + 1\<rparr>) else (False, count_dropped s))"

definition store_record_block ::
  "u64 \<Rightarrow> int \<Rightarrow> string option \<Rightarrow> string option \<Rightarrow> string option \<Rightarrow> int \<Rightarrow> int \<Rightarrow> nat \<Rightarrow> string option \<Rightarrow> double \<Rightarrow> store \<Rightarrow> bool \<times> store" where
  "store_record_block ts height hash finder addr reward fee status submit_error window s =
     (case hash of
        None \<Rightarrow> (False, s)
      | Some h \<Rightarrow>
          if height \<le> 0 then (False, count_error s)
          else let (ok, s) = enqueue (zero_event\<lparr>se_kind := EV_BLOCK, se_ts_ms := ts, se_height := height, se_reward := reward,
                se_fee := fee, se_status := status mod 256, se_window := window,
                se_reason := (case submit_error of None \<Rightarrow> [] | Some e \<Rightarrow> c_copy REASON_MAX e), se_hash := c_copy HASH_STR_MAX h,
                se_worker := (case finder of None \<Rightarrow> [] | Some f \<Rightarrow> c_copy WORKER_NAME_MAX f),
                se_address := (case addr of None \<Rightarrow> [] | Some a \<Rightarrow> c_copy ADDR_MAX a)\<rparr>) s
          in if ok then (True, s) else (False, count_dropped s))"

definition store_record_credit :: "string option \<Rightarrow> string option \<Rightarrow> u64 \<Rightarrow> int \<Rightarrow> store \<Rightarrow> bool \<times> store" where
  "store_record_credit worker addr ts delta s =
     (case worker of
        None \<Rightarrow> (False, s)
      | Some w \<Rightarrow>
          if delta \<le> 0 then (False, s)
          else let (ok, s) = enqueue (zero_event\<lparr>se_kind := EV_CREDIT, se_ts_ms := ts, se_delta := delta,
                se_worker := c_copy WORKER_NAME_MAX w, se_address := (case addr of None \<Rightarrow> [] | Some a \<Rightarrow> c_copy ADDR_MAX a)\<rparr>) s
          in if ok then (True, s) else (False, count_dropped s))"

text \<open>\<open>store_flush\<close>: the wait condition, for the sequence number taken at entry.\<close>

definition flush_target :: "store \<Rightarrow> u64" where
  "flush_target s = enqueue_seq s"

definition flush_done :: "u64 \<Rightarrow> store \<Rightarrow> bool" where
  "flush_done target s \<longleftrightarrow> \<not> committed_seq s < target"

section \<open>The schema is kept\<close>

definition store_ok :: "store \<Rightarrow> bool" where
  "store_ok s \<longleftrightarrow> db_ok (dbase s) \<and> (\<forall>d. saved s = Some d \<longrightarrow> db_ok d)"

named_theorems keeps_schema

lemma count_error_simps [simp]:
  "dbase (count_error s) = dbase s" "saved (count_error s) = saved s" "calls (count_error s) = calls s"
  "worker_cache (count_error s) = worker_cache s" "ring (count_error s) = ring s" "ring_head (count_error s) = ring_head s"
  "ring_tail (count_error s) = ring_tail s" "ring_count (count_error s) = ring_count s"
  "enqueue_seq (count_error s) = enqueue_seq s" "committed_seq (count_error s) = committed_seq s"
  "events_lost (count_error s) = events_lost s" "commit_max_shares (count_error s) = commit_max_shares s"
  by (simp_all add: count_error_def)

lemma store_ok_cong [simp]:
  "store_ok (count_error s) = store_ok s" "store_ok (s\<lparr>worker_cache := c\<rparr>) = store_ok s" "store_ok (s\<lparr>calls := n\<rparr>) = store_ok s"
  "store_ok (s\<lparr>shares_committed := k\<rparr>) = store_ok s" "store_ok (s\<lparr>rejects_committed := k\<rparr>) = store_ok s"
  "store_ok (s\<lparr>blocks_committed := k\<rparr>) = store_ok s" "store_ok (s\<lparr>credits_committed := k\<rparr>) = store_ok s"
  "store_ok (s\<lparr>batches := k\<rparr>) = store_ok s" "store_ok (s\<lparr>events_lost := k\<rparr>) = store_ok s"
  by (simp_all add: store_ok_def)

lemma sql_rollback_ok: "store_ok s \<Longrightarrow> store_ok (sql_rollback s)"
  by (auto simp: sql_rollback_def store_ok_def split: option.splits)

lemma sql_step_ok:
  assumes "sql_step io f s = (r, s')" and "store_ok s" and "\<And>d x d'. f d = Some (x, d') \<Longrightarrow> db_ok d \<Longrightarrow> db_ok d'"
  shows "store_ok s'"
  using assms sql_rollback_ok [of "s\<lparr>calls := calls s + 1\<rparr>"]
  by (auto simp: sql_step_def Let_def store_ok_def split: sql_outcome.splits option.splits)

lemma sql_begin_ok: "sql_begin io s = (b, s') \<Longrightarrow> store_ok s \<Longrightarrow> store_ok s'"
  by (auto simp: sql_begin_def Let_def store_ok_def split: if_splits)

lemma sql_commit_ok: "sql_commit io s = (b, s') \<Longrightarrow> store_ok s \<Longrightarrow> store_ok s'"
  using sql_rollback_ok [of "s\<lparr>calls := calls s + 1\<rparr>"]
  by (auto simp: sql_commit_def Let_def store_ok_def split: if_splits sql_outcome.splits)

lemma resolve_ok:
  assumes "resolve_worker_id io name addr ts s = (i, s')" and "store_ok s"
  shows "store_ok s'"
proof -
  obtain r s1 where s1: "sql_step io (\<lambda>d. Some (sql_upsert_worker name (uint (ts div 1000)) (if addr \<noteq> [] then Some addr else None) d)) s = (r, s1)"
    by fastforce
  have "store_ok s1" using sql_step_ok [OF s1 assms(2)] upsert_worker_ok by blast
  then show ?thesis using assms(1) by (auto simp: resolve_worker_id_def Let_def s1 split: option.splits if_splits)
qed

lemma process_share_ok:
  assumes "store_ok s" shows "store_ok (process_share io ev s)"
proof -
  obtain i s1 where s1: "resolve_worker_id io (se_worker ev) (se_address ev) (se_ts_ms ev) s = (i, s1)" by fastforce
  obtain r s2 where s2: "sql_step io (unit_step (sql_insert_share i (uint (se_ts_ms ev div 1000)) (se_difficulty ev) (se_is_block ev)
      (text_or_null (se_hash ev)) (se_delta ev) (se_rate ev))) s1 = (r, s2)" by fastforce
  have "store_ok s1" by (rule resolve_ok [OF s1 assms])
  moreover have "store_ok s2" using sql_step_ok [OF s2 calculation] by (auto simp: unit_step_def insert_share_ok)
  ultimately show ?thesis by (auto simp: process_share_def Let_def s1 s2 split: option.splits)
qed

lemma process_credit_ok:
  assumes "store_ok s" shows "store_ok (process_credit io ev s)"
proof -
  obtain i s1 where s1: "resolve_worker_id io (se_worker ev) (se_address ev) (se_ts_ms ev) s = (i, s1)" by fastforce
  obtain r s2 where s2: "sql_step io (unit_step (sql_upsert_credit i (se_delta ev) (uint (se_ts_ms ev div 1000)))) s1 = (r, s2)" by fastforce
  have "store_ok s1" by (rule resolve_ok [OF s1 assms])
  moreover have "store_ok s2" using sql_step_ok [OF s2 calculation] by (auto simp: unit_step_def upsert_credit_ok)
  ultimately show ?thesis by (auto simp: process_credit_def Let_def s1 s2 split: option.splits)
qed

lemma process_reject_ok:
  assumes "store_ok s" shows "store_ok (process_reject io ev s)"
proof -
  obtain r s2 where s2: "sql_step io (\<lambda>d. Some ((), sql_insert_reject (text_or_null (se_worker ev)) (uint (se_ts_ms ev div 1000)) (se_reason ev) d)) s = (r, s2)"
    by fastforce
  have "store_ok s2" using sql_step_ok [OF s2 assms] insert_reject_ok by blast
  then show ?thesis by (auto simp: process_reject_def Let_def s2 split: option.splits)
qed

lemma process_block_ok:
  assumes "store_ok s" shows "store_ok (process_block io ev s)"
proof -
  obtain i s1 where s1: "(if se_worker ev \<noteq> [] then resolve_worker_id io (se_worker ev) (se_address ev) (se_ts_ms ev) s else (-1, s)) = (i, s1)" by fastforce
  obtain r s2 where s2: "sql_step io (sql_insert_block (uint (se_ts_ms ev div 1000)) (se_height ev) (se_hash ev)
             (if i \<ge> 0 then Some i else None) (text_or_null (se_address ev)) (sats_or_null (se_reward ev))
             (sats_or_null (se_fee ev)) (store_block_status_text (se_status ev)) (text_or_null (se_reason ev)) (se_window ev)) s1 = (r, s2)" by fastforce
  have "store_ok s1" using s1 resolve_ok assms by (auto split: if_splits)
  then have "store_ok s2" using sql_step_ok [OF s2] insert_block_ok by blast
  then show ?thesis unfolding process_block_def s1 by (simp add: Let_def s2 split: option.splits)
qed

lemma process_event_ok: "store_ok s \<Longrightarrow> store_ok (process_event io ev s)"
  by (simp add: process_event_def process_share_ok process_reject_ok process_block_ok process_credit_ok)

lemma fold_process_ok: "store_ok s \<Longrightarrow> store_ok (fold (process_event io) es s)"
  by (induction es arbitrary: s) (simp_all add: process_event_ok)

lemma commit_attempt_ok: 
  assumes "commit_attempt io es s = (b, s')" and "store_ok s"
  shows "store_ok s'"
proof -
  obtain b1 s1 where s1: "sql_begin io s = (b1, s1)" by fastforce
  obtain b2 s2 where s2: "sql_commit io (fold (process_event io) es s1) = (b2, s2)" by fastforce
  have "store_ok s1" by (rule sql_begin_ok [OF s1 assms(2)])
  moreover have "store_ok s2" by (rule sql_commit_ok [OF s2 fold_process_ok [OF calculation]])
  ultimately show ?thesis using assms(1) sql_rollback_ok by (auto simp: commit_attempt_def s1 s2 split: if_splits)
qed

lemma commit_tries_ok: "commit_tries io n es s = (b, s') \<Longrightarrow> store_ok s \<Longrightarrow> store_ok s'"
  by (induction n arbitrary: s) (auto split: prod.splits if_splits dest: commit_attempt_ok)

lemma writer_commit_ok: "store_ok s \<Longrightarrow> store_ok (writer_commit io es s)"
  by (auto simp: writer_commit_def commit_batch_def split: prod.splits dest: commit_tries_ok)

section \<open>The ring\<close>

definition ring_contents :: "store \<Rightarrow> store_event list" where
  "ring_contents s = map (\<lambda>i. ring s ! ((ring_tail s + i) mod ring_cap s)) [0..<ring_count s]"

definition ring_ok :: "store \<Rightarrow> bool" where
  "ring_ok s \<longleftrightarrow> 0 < ring_cap s \<and> 0 < commit_max_shares s \<and> ring_count s \<le> ring_cap s \<and> ring_tail s < ring_cap s \<and>
     ring_head s = (ring_tail s + ring_count s) mod ring_cap s"

lemma length_ring_contents [simp]: "length (ring_contents s) = ring_count s"
  by (simp add: ring_contents_def)

lemma mod_add_inj:
  assumes "i < n" and "j < n" and "(t + i) mod n = (t + j) mod n"
  shows "i = (j::nat)"
proof -
  have "a = b" if "a \<le> b" "b < n" "(t + a) mod n = (t + b) mod n" for a b
  proof -
    have "n dvd (t + b) - (t + a)" using that by (metis mod_eq_dvd_iff_nat add_le_cancel_left)
    then show ?thesis using that by (auto dest: dvd_imp_le)
  qed
  from this [of i j] this [of j i] show ?thesis using assms by (metis linear)
qed

lemma enqueue_ring:
  assumes "enqueue e s = (ok, s')" and "ring_ok s"
  shows "ring_ok s' \<and> ok = (ring_count s < ring_cap s) \<and> ring_cap s' = ring_cap s \<and>
    ring_contents s' = (if ok then ring_contents s @ [e] else ring_contents s)"
proof (cases "ring_count s = ring_cap s")
  case True
  then show ?thesis using assms by (auto simp: enqueue_def)
next
  case False
  then have lt: "ring_count s < ring_cap s" using assms(2) by (simp add: ring_ok_def)
  define n where "n = ring_cap s"
  have s': "ok" "s' = s\<lparr>ring := (ring s)[ring_head s := e], ring_head := (ring_head s + 1) mod ring_cap s,
      ring_count := ring_count s + 1, enqueue_seq := enqueue_seq s + 1\<rparr>"
    using assms(1) False by (auto simp: enqueue_def)
  have h: "ring_head s = (ring_tail s + ring_count s) mod n" and n: "0 < n" using assms(2) by (auto simp: ring_ok_def n_def)
  have cap: "ring_cap s' = n" by (simp add: s' ring_cap_def n_def)
  have len: "length (ring s) = n" by (simp add: n_def ring_cap_def)
  have "(ring s)[ring_head s := e] ! ((ring_tail s + i) mod n) = ring s ! ((ring_tail s + i) mod n)" if "i < ring_count s" for i
    using mod_add_inj [of i n "ring_count s" "ring_tail s"] that lt h by (metis n_def nth_list_update_neq less_trans order_less_irrefl)
  moreover have "(ring s)[ring_head s := e] ! ((ring_tail s + ring_count s) mod n) = e"
    using n by (simp add: h len)
  ultimately have "ring_contents s' = ring_contents s @ [e]"
    unfolding ring_contents_def cap by (simp add: s' flip: n_def)
  moreover have "ring_ok s'" using assms(2) lt unfolding ring_ok_def cap by (simp add: s' h mod_simps flip: n_def)
  ultimately show ?thesis using s'(1) lt cap n_def by simp
qed

lemma drain_eq:
  assumes "ring_tail s < ring_cap s"
  shows "drain n s = (map (\<lambda>i. ring s ! ((ring_tail s + i) mod ring_cap s)) [0..<n], s\<lparr>ring_tail := (ring_tail s + n) mod ring_cap s\<rparr>)"
  using assms
proof (induction n arbitrary: s)
  case (Suc n)
  define s1 where "s1 = s\<lparr>ring_tail := (ring_tail s + 1) mod ring_cap s\<rparr>"
  have c: "ring_cap s1 = ring_cap s" "ring s1 = ring s" "ring_tail s1 < ring_cap s1" using Suc.prems
    by (auto simp: s1_def ring_cap_def intro: mod_less_divisor)
  have m: "(ring_tail s1 + i) mod ring_cap s = (ring_tail s + Suc i) mod ring_cap s" for i
    by (simp add: s1_def mod_simps)
  have "map (\<lambda>i. ring s ! ((ring_tail s + i) mod ring_cap s)) [0..<Suc n] =
      ring s ! ring_tail s # map (\<lambda>i. ring s ! ((ring_tail s1 + i) mod ring_cap s)) [0..<n]"
    using Suc.prems by (simp add: m map_Suc_upt upt_conv_Cons flip: map_Suc_upt del: upt_Suc)
  moreover have "drain n s1 = (map (\<lambda>i. ring s ! ((ring_tail s1 + i) mod ring_cap s)) [0..<n], s1\<lparr>ring_tail := (ring_tail s1 + n) mod ring_cap s\<rparr>)"
    using Suc.IH [OF c(3)] c by simp
  ultimately show ?case using m [of n] by (simp add: s1_def)
qed simp

lemma writer_take_ring:
  assumes "writer_take s = (es, q, s')" and "ring_ok s"
  shows "ring_ok s' \<and> ring_contents s = es @ ring_contents s' \<and> ring_cap s' = ring_cap s \<and>
    length es = min (ring_count s) (commit_max_shares s) \<and> q = enqueue_seq s - word_of_nat (ring_count s')"
proof -
  define n where "n = min (ring_count s) (commit_max_shares s)"
  have t: "ring_tail s < ring_cap s" using assms(2) by (simp add: ring_ok_def)
  have s': "es = map (\<lambda>i. ring s ! ((ring_tail s + i) mod ring_cap s)) [0..<n]" "q = enqueue_seq s - word_of_nat (ring_count s - n)"
    "s' = s\<lparr>ring_tail := (ring_tail s + n) mod ring_cap s, ring_count := ring_count s - n\<rparr>"
    using assms(1) by (auto simp: writer_take_def drain_eq [OF t] n_def Let_def)
  have cap: "ring_cap s' = ring_cap s" by (simp add: s' ring_cap_def)
  have le: "n \<le> ring_count s" by (simp add: n_def)
  have "[0..<ring_count s] = [0..<n] @ map (\<lambda>i. i + n) [0..<ring_count s - n]"
    using le upt_add_eq_append [of 0 n "ring_count s - n"] by (simp add: map_add_upt)
  then have "ring_contents s = es @ map (\<lambda>i. ring s ! ((ring_tail s + (i + n)) mod ring_cap s)) [0..<ring_count s - n]"
    by (simp add: ring_contents_def s' comp_def)
  moreover have "ring_contents s' = map (\<lambda>i. ring s ! ((ring_tail s + (i + n)) mod ring_cap s)) [0..<ring_count s - n]"
    unfolding ring_contents_def cap by (simp add: s' mod_simps ac_simps)
  moreover have "((ring_tail s + n) mod ring_cap s + (ring_count s - n)) mod ring_cap s = (ring_tail s + ring_count s) mod ring_cap s"
    using le by (simp only: mod_add_left_eq) simp
  then have "ring_ok s'" using assms(2) le unfolding ring_ok_def cap by (auto simp: s')
  ultimately show ?thesis using cap s' by (simp add: n_def)
qed

section \<open>A bounded queue\<close>

text \<open>
  What producers and the writer rely on: a queue that refuses an element only when it is full and
  gives elements out in the order they went in. In the locale a history of pushes and batches is
  replayed and nothing is lost, duplicated or reordered.
\<close>

datatype 'e queue_op = Push 'e | TakeBatch

locale bounded_queue =
  fixes good :: "'s \<Rightarrow> bool" and contents :: "'s \<Rightarrow> 'e list" and capacity :: "'s \<Rightarrow> nat"
    and push :: "'e \<Rightarrow> 's \<Rightarrow> bool \<times> 's" and take_batch :: "'s \<Rightarrow> 'e list \<times> 's"
  assumes push_law: "good s \<Longrightarrow> push e s = (ok, s') \<Longrightarrow>
      good s' \<and> capacity s' = capacity s \<and> ok = (length (contents s) < capacity s) \<and>
      contents s' = (if ok then contents s @ [e] else contents s)"
    and take_law: "good s \<Longrightarrow> take_batch s = (es, s') \<Longrightarrow>
      good s' \<and> capacity s' = capacity s \<and> contents s = es @ contents s' \<and> (contents s \<noteq> [] \<longrightarrow> es \<noteq> [])"
begin

fun replay :: "'e queue_op list \<Rightarrow> 's \<Rightarrow> 'e list \<times> 'e list \<times> 's" where
  "replay [] s = ([], [], s)"
| "replay (Push e # ops) s =
     (let (ok, s) = push e s; (ins, outs, s) = replay ops s in (if ok then e # ins else ins, outs, s))"
| "replay (TakeBatch # ops) s =
     (let (es, s) = take_batch s; (ins, outs, s) = replay ops s in (ins, es @ outs, s))"

lemma replay_fifo:
  "good s \<Longrightarrow> replay ops s = (ins, outs, s') \<Longrightarrow>
     good s' \<and> capacity s' = capacity s \<and> contents s @ ins = outs @ contents s'"
proof (induction ops s arbitrary: ins outs s' rule: replay.induct)
  case (2 e ops s)
  obtain ok s1 where p: "push e s = (ok, s1)" by fastforce
  obtain i o2 s2 where r: "replay ops s1 = (i, o2, s2)" by (metis prod_cases3)
  from "2.IH" [OF p [symmetric] refl _ r] push_law [OF "2.prems"(1) p] "2.prems"(2) show ?case
    by (auto simp: p r split: if_splits)
next
  case (3 ops s)
  obtain es s1 where p: "take_batch s = (es, s1)" by fastforce
  obtain i o2 s2 where r: "replay ops s1 = (i, o2, s2)" by (metis prod_cases3)
  from "3.IH" [OF p [symmetric] refl _ r] take_law [OF "3.prems"(1) p] "3.prems"(2) show ?case
    by (auto simp: p r)
qed simp

lemma drains:
  "good s \<Longrightarrow> length (contents s) \<le> n \<Longrightarrow> \<exists>outs s'. replay (replicate n TakeBatch) s = ([], outs, s') \<and> outs = contents s \<and> contents s' = []"
proof (induction n arbitrary: s)
  case (Suc n)
  obtain es s1 where p: "take_batch s = (es, s1)" by fastforce
  note t = take_law [OF Suc.prems(1) p]
  have "length (contents s1) \<le> n" using t Suc.prems(2) by (cases "contents s = []") (auto simp: Suc_le_eq neq_Nil_conv)
  with Suc.IH [of s1] t show ?case by (auto simp: p)
qed auto

end

interpretation rq: bounded_queue ring_ok ring_contents ring_cap enqueue "\<lambda>s. (fst (writer_take s), snd (snd (writer_take s)))"
proof
  fix s s' :: store and e ok es
  show "ring_ok s \<Longrightarrow> enqueue e s = (ok, s') \<Longrightarrow> ring_ok s' \<and> ring_cap s' = ring_cap s \<and>
      ok = (length (ring_contents s) < ring_cap s) \<and> ring_contents s' = (if ok then ring_contents s @ [e] else ring_contents s)"
    using enqueue_ring by simp
  assume g: "ring_ok s" and t: "(fst (writer_take s), snd (snd (writer_take s))) = (es, s')"
  then obtain q where w: "writer_take s = (es, q, s')" by (metis prod.collapse prod.inject)
  have "es \<noteq> []" if "ring_contents s \<noteq> []"
  proof -
    have "0 < ring_count s" using that by (metis length_greater_0_conv length_ring_contents)
    then have "0 < length es" using writer_take_ring [OF w g] g by (simp add: ring_ok_def)
    then show ?thesis by simp
  qed
  with writer_take_ring [OF w g] show "ring_ok s' \<and> ring_cap s' = ring_cap s \<and> ring_contents s = es @ ring_contents s' \<and> (ring_contents s \<noteq> [] \<longrightarrow> es \<noteq> [])"
    by blast
qed

section \<open>What the writer touches\<close>

text \<open>The writer leaves the ring, its counters and the sequence numbers alone while it lands a batch.\<close>

definition same_ring :: "store \<Rightarrow> store \<Rightarrow> bool" where
  "same_ring s s' \<longleftrightarrow> ring s' = ring s \<and> ring_head s' = ring_head s \<and> ring_tail s' = ring_tail s \<and> ring_count s' = ring_count s \<and>
     commit_max_shares s' = commit_max_shares s \<and> enqueue_seq s' = enqueue_seq s \<and> committed_seq s' = committed_seq s \<and> events_lost s' = events_lost s"

lemma same_ring_refl [simp]: "same_ring s s"
  by (simp add: same_ring_def)

lemma same_ring_trans: "same_ring s s' \<Longrightarrow> same_ring s' s'' \<Longrightarrow> same_ring s s''"
  by (simp add: same_ring_def)

lemma same_ring_count [simp]: "same_ring s (count_error s') = same_ring s s'"
  by (simp add: same_ring_def)

lemma same_ring_update [simp]:
  "same_ring s (s'\<lparr>dbase := d\<rparr>) = same_ring s s'" "same_ring s (s'\<lparr>saved := sv\<rparr>) = same_ring s s'" "same_ring s (s'\<lparr>calls := n\<rparr>) = same_ring s s'"
  "same_ring s (s'\<lparr>worker_cache := c\<rparr>) = same_ring s s'" "same_ring s (s'\<lparr>shares_committed := k\<rparr>) = same_ring s s'"
  "same_ring s (s'\<lparr>rejects_committed := k\<rparr>) = same_ring s s'" "same_ring s (s'\<lparr>blocks_committed := k\<rparr>) = same_ring s s'"
  "same_ring s (s'\<lparr>credits_committed := k\<rparr>) = same_ring s s'" "same_ring s (s'\<lparr>batches := k\<rparr>) = same_ring s s'"
  by (simp_all add: same_ring_def)

lemma same_ring_rollback [simp]: "same_ring s (sql_rollback s') = same_ring s s'"
  by (simp add: sql_rollback_def split: option.splits)

lemma sql_step_ring: "sql_step io f s = (r, s') \<Longrightarrow> same_ring s s'"
  by (auto simp: sql_step_def Let_def split: sql_outcome.splits option.splits)

lemma sql_begin_ring: "sql_begin io s = (b, s') \<Longrightarrow> same_ring s s'"
  by (auto simp: sql_begin_def Let_def split: if_splits)

lemma sql_commit_ring: "sql_commit io s = (b, s') \<Longrightarrow> same_ring s s'"
  by (auto simp: sql_commit_def Let_def split: if_splits sql_outcome.splits)

lemma resolve_ring: "resolve_worker_id io name addr ts s = (i, s') \<Longrightarrow> same_ring s s'"
  by (auto simp: resolve_worker_id_def Let_def split: prod.splits option.splits if_splits dest!: sql_step_ring)

lemma process_share_ring: "same_ring s (process_share io ev s)"
  unfolding process_share_def Let_def
  by (clarsimp split: prod.splits option.splits) (blast dest: sql_step_ring resolve_ring intro: same_ring_trans)

lemma process_credit_ring: "same_ring s (process_credit io ev s)"
  unfolding process_credit_def Let_def
  by (clarsimp split: prod.splits option.splits) (blast dest: sql_step_ring resolve_ring intro: same_ring_trans)

lemma process_reject_ring: "same_ring s (process_reject io ev s)"
  unfolding process_reject_def Let_def
  by (clarsimp split: prod.splits option.splits) (blast dest: sql_step_ring)

lemma process_block_ring: "same_ring s (process_block io ev s)"
proof -
  obtain i s1 where s1: "(if se_worker ev \<noteq> [] then resolve_worker_id io (se_worker ev) (se_address ev) (se_ts_ms ev) s else (-1, s)) = (i, s1)" by fastforce
  have "same_ring s s1" using s1 by (auto split: if_splits dest: resolve_ring)
  then show ?thesis unfolding process_block_def s1 Let_def
    by (clarsimp split: prod.splits option.splits) (blast dest: sql_step_ring intro: same_ring_trans)
qed

lemma process_event_ring: "same_ring s (process_event io ev s)"
  by (simp add: process_event_def process_share_ring process_credit_ring process_reject_ring process_block_ring)

lemma fold_process_ring: "same_ring s (fold (process_event io) es s)"
  by (induction es arbitrary: s) (auto intro: same_ring_trans process_event_ring)

lemma commit_attempt_ring: "commit_attempt io es s = (b, s') \<Longrightarrow> same_ring s s'"
  by (auto simp: commit_attempt_def Let_def split: prod.splits if_splits dest!: sql_begin_ring sql_commit_ring)
    (blast intro: same_ring_trans fold_process_ring)+

lemma commit_tries_ring: "commit_tries io n es s = (b, s') \<Longrightarrow> same_ring s s'"
  by (induction n arbitrary: s) (auto split: prod.splits if_splits dest: commit_attempt_ring intro: same_ring_trans)

lemma commit_batch_ring: "commit_batch io es s = (b, s') \<Longrightarrow> same_ring s s'"
  by (simp add: commit_batch_def commit_tries_ring)

lemma same_ring_ok: "same_ring s s' \<Longrightarrow> ring_ok s' = ring_ok s \<and> ring_contents s' = ring_contents s \<and> ring_cap s' = ring_cap s"
  by (simp add: same_ring_def ring_ok_def ring_contents_def ring_cap_def)

lemma ring_lost [simp]:
  "ring_ok (s\<lparr>events_lost := k\<rparr>) = ring_ok s" "ring_contents (s\<lparr>events_lost := k\<rparr>) = ring_contents s"
  "ring_ok (s\<lparr>committed_seq := k\<rparr>) = ring_ok s" "ring_contents (s\<lparr>committed_seq := k\<rparr>) = ring_contents s"
  by (simp_all add: ring_ok_def ring_contents_def ring_cap_def)

section \<open>Producers and writer together\<close>

text \<open>The writer is waiting, has taken a batch it is landing, or has landed it and not yet published it.\<close>

datatype writer = Waiting | Landing "store_event list" u64 | Landed u64

text \<open>
  The runs of a store: \<open>acc\<close> is what producers were told is queued, \<open>bs\<close> the batches that left the
  writer, each committed (\<open>True\<close>) or lost. Producers and the other users of the connection, which never
  touch the ring, run between any two steps of the writer.
\<close>

inductive store_run :: "sqlite \<Rightarrow> store \<Rightarrow> writer \<Rightarrow> store_event list \<Rightarrow> (bool \<times> store_event list) list \<Rightarrow> bool" for io where
  opened: "store_run io (store_open mx rt tc d) Waiting [] []"
| queued: "store_run io s w acc bs \<Longrightarrow> enqueue e s = (True, s') \<Longrightarrow> store_run io s' w (acc @ [e]) bs"
| refused: "store_run io s w acc bs \<Longrightarrow> enqueue e s = (False, s') \<Longrightarrow> store_run io (count_dropped s') w acc bs"
| taken: "store_run io s Waiting acc bs \<Longrightarrow> writer_take s = (b, q, s') \<Longrightarrow> b \<noteq> [] \<Longrightarrow> store_run io s' (Landing b q) acc bs"
| landed: "store_run io s (Landing b q) acc bs \<Longrightarrow> writer_commit io b s = s' \<Longrightarrow>
    store_run io s' (Landed q) acc (bs @ [(fst (commit_batch io b s), b)])"
| published: "store_run io s (Landed q) acc bs \<Longrightarrow> store_run io (writer_publish q s) Waiting acc bs"
| other: "store_run io s w acc bs \<Longrightarrow> same_ring s s' \<Longrightarrow> store_run io s' w acc bs"

inductive_cases store_runE: "store_run io s w acc bs"

fun in_flight :: "writer \<Rightarrow> store_event list" where
  "in_flight (Landing b q) = b"
| "in_flight _ = []"

definition handled :: "(bool \<times> store_event list) list \<Rightarrow> store_event list" where
  "handled bs = concat (map snd bs)"

definition lost :: "(bool \<times> store_event list) list \<Rightarrow> store_event list" where
  "lost bs = concat (map snd (filter (\<lambda>(ok, b). \<not> ok) bs))"

text \<open>The sequence number the writer carries, and the one it has published.\<close>

definition seq_ok :: "store \<Rightarrow> writer \<Rightarrow> store_event list \<Rightarrow> (bool \<times> store_event list) list \<Rightarrow> bool" where
  "seq_ok s w acc bs \<longleftrightarrow>
     enqueue_seq s = word_of_nat (length acc) \<and> events_lost s = word_of_nat (length (lost bs)) \<and>
     (case w of
        Waiting \<Rightarrow> committed_seq s = word_of_nat (length (handled bs))
      | Landing b q \<Rightarrow> committed_seq s = word_of_nat (length (handled bs)) \<and> q = word_of_nat (length (handled bs) + length b)
      | Landed q \<Rightarrow> q = word_of_nat (length (handled bs)) \<and> (\<exists>k \<le> length (handled bs). committed_seq s = word_of_nat k))"

lemma lost_snoc: "length (lost (bs @ [(ok, b)])) = length (lost bs) + (if ok then 0 else length b)"
  by (simp add: lost_def)

lemma handled_snoc [simp]: "handled (bs @ [(ok, b)]) = handled bs @ b"
  by (simp add: handled_def)

lemma same_ring_seq: "same_ring s s' \<Longrightarrow> seq_ok s' w acc bs = seq_ok s w acc bs"
  by (cases w) (simp_all add: seq_ok_def same_ring_def)

lemma store_run_inv:
  "store_run io s w acc bs \<Longrightarrow> ring_ok s \<and> acc = handled bs @ in_flight w @ ring_contents s \<and> seq_ok s w acc bs"
proof (induction rule: store_run.induct)
  case (opened mx rt tc d)
  show ?case by (auto simp: store_open_def ring_ok_def ring_cap_def ring_contents_def handled_def lost_def seq_ok_def)
next
  case (queued s w acc bs e s')
  then have "enqueue_seq s' = enqueue_seq s + 1" "events_lost s' = events_lost s" "committed_seq s' = committed_seq s"
    by (auto simp: enqueue_def split: if_splits)
  with queued enqueue_ring [OF queued.hyps(2)] show ?case by (simp add: seq_ok_def split: writer.splits)
next
  case (refused s w acc bs e s')
  then have "s' = s" by (auto simp: enqueue_def split: if_splits)
  then have "same_ring s (count_dropped s')" by (simp add: same_ring_def count_dropped_def)
  with refused same_ring_ok [OF this] same_ring_seq [OF this] show ?case by auto
next
  case (taken s acc bs b q s')
  have e: "enqueue_seq s' = enqueue_seq s" "events_lost s' = events_lost s" "committed_seq s' = committed_seq s"
    using taken.hyps(2) taken.IH by (auto simp: writer_take_def Let_def drain_eq ring_ok_def)
  have t: "ring_ok s'" "ring_contents s = b @ ring_contents s'" "q = enqueue_seq s - word_of_nat (ring_count s')"
    using writer_take_ring [OF taken.hyps(2)] taken.IH by auto
  have "length acc = length (handled bs) + length b + ring_count s'"
    using taken.IH t(2) by simp
  then have "q = word_of_nat (length (handled bs) + length b)"
    using t(3) taken.IH by (simp add: seq_ok_def)
  then show ?case using taken.IH t(1,2) e by (simp add: seq_ok_def)
next
  case (landed s b q acc bs s')
  obtain ok s1 where c: "commit_batch io b s = (ok, s1)" by fastforce
  have s': "s' = (if ok then s1 else s1\<lparr>events_lost := events_lost s1 + word_of_nat (length b)\<rparr>)"
    using landed.hyps(2) c by (simp add: writer_commit_def)
  have r: "same_ring s s1" by (rule commit_batch_ring [OF c])
  have "ring_ok s' \<and> ring_contents s' = ring_contents s"
    using same_ring_ok [OF r] landed.IH by (simp add: s')
  moreover have "seq_ok s' (Landed q) acc (bs @ [(ok, b)])"
    using landed.IH r by (auto simp: s' seq_ok_def same_ring_def lost_snoc intro: exI [of _ "length (handled bs)"])
  ultimately show ?case using landed.IH c by simp
next
  case (published s q acc bs)
  then show ?case by (simp add: writer_publish_def seq_ok_def)
next
  case (other s w acc bs s')
  with same_ring_ok [OF other.hyps(2)] same_ring_seq [OF other.hyps(2)] show ?case by auto
qed

section \<open>Transactions\<close>

text \<open>Without spontaneous rollbacks a transaction stays open until it is ended, and its snapshot stays.\<close>

definition no_auto_rollback :: "sqlite \<Rightarrow> bool" where
  "no_auto_rollback io \<longleftrightarrow> (\<forall>n. io n \<noteq> FailRollback)"

lemma sql_step_saved: "sql_step io f s = (r, s') \<Longrightarrow> no_auto_rollback io \<Longrightarrow> saved s' = saved s"
  by (auto simp: sql_step_def Let_def no_auto_rollback_def split: sql_outcome.splits option.splits)

lemma resolve_saved: "resolve_worker_id io name addr ts s = (i, s') \<Longrightarrow> no_auto_rollback io \<Longrightarrow> saved s' = saved s"
  by (auto simp: resolve_worker_id_def Let_def split: prod.splits option.splits if_splits dest!: sql_step_saved)

lemma process_event_saved:
  assumes "no_auto_rollback io"
  shows "saved (process_event io ev s) = saved s"
proof -
  have "saved (process_share io ev s) = saved s" "saved (process_credit io ev s) = saved s" "saved (process_reject io ev s) = saved s"
    unfolding process_share_def process_credit_def process_reject_def Let_def
    using assms by (auto split: prod.splits option.splits dest!: sql_step_saved resolve_saved)
  moreover have "saved (process_block io ev s) = saved s"
  proof -
    obtain i s1 where s1: "(if se_worker ev \<noteq> [] then resolve_worker_id io (se_worker ev) (se_address ev) (se_ts_ms ev) s else (-1, s)) = (i, s1)" by fastforce
    have "saved s1 = saved s" using s1 assms by (auto split: if_splits dest: resolve_saved)
    then show ?thesis unfolding process_block_def s1 Let_def
      using assms by (auto split: prod.splits option.splits dest!: sql_step_saved)
  qed
  ultimately show ?thesis by (simp add: process_event_def)
qed

lemma fold_process_saved: "no_auto_rollback io \<Longrightarrow> saved (fold (process_event io) es s) = saved s"
  by (induction es arbitrary: s) (simp_all add: process_event_saved)

text \<open>One attempt: everything or nothing.\<close>

lemma commit_attempt_cases:
  assumes "commit_attempt io es s = (ok, s')" and "no_auto_rollback io" and "saved s = None"
  shows "saved s' = None" and "\<not> ok \<Longrightarrow> dbase s' = dbase s"
    and "ok \<Longrightarrow> \<exists>s1. sql_begin io s = (True, s1) \<and> dbase s1 = dbase s \<and> dbase s' = dbase (fold (process_event io) es s1)"
proof -
  obtain b s1 where s1: "sql_begin io s = (b, s1)" by fastforce
  obtain c s2 where s2: "sql_commit io (fold (process_event io) es s1) = (c, s2)" by fastforce
  have b: "dbase s1 = dbase s" "saved s1 = (if b then Some (dbase s) else None)"
    using s1 assms(3) by (auto simp: sql_begin_def Let_def split: if_splits)
  have f: "saved (fold (process_event io) es s1) = saved s1" by (rule fold_process_saved [OF assms(2)])
  have "\<not> c \<Longrightarrow> b \<Longrightarrow> saved s2 = Some (dbase s)" "c \<Longrightarrow> saved s2 = None" "c \<Longrightarrow> dbase s2 = dbase (fold (process_event io) es s1)"
    using s2 f b assms(2) by (auto simp: sql_commit_def Let_def no_auto_rollback_def split: sql_outcome.splits if_splits)
  then show "saved s' = None" "\<not> ok \<Longrightarrow> dbase s' = dbase s"
    "ok \<Longrightarrow> \<exists>s1. sql_begin io s = (True, s1) \<and> dbase s1 = dbase s \<and> dbase s' = dbase (fold (process_event io) es s1)"
    using assms(1) b by (auto simp: commit_attempt_def s1 s2 sql_rollback_def split: if_splits)
qed

lemma commit_tries_cases:
  assumes "commit_tries io n es s = (ok, s')" and "no_auto_rollback io" and "saved s = None"
  shows "saved s' = None \<and> (\<not> ok \<longrightarrow> dbase s' = dbase s) \<and>
    (ok \<longrightarrow> (\<exists>s1. dbase s1 = dbase s \<and> saved s1 = Some (dbase s) \<and> dbase s' = dbase (fold (process_event io) es s1)))"
  using assms(1,3)
proof (induction n arbitrary: s)
  case (Suc n)
  obtain b s1 where s1: "commit_attempt io es s = (b, s1)" by fastforce
  note c = commit_attempt_cases [OF s1 assms(2) Suc.prems(2)]
  show ?case
  proof (cases b)
    case True
    with Suc.prems s1 have "ok" "s' = s1" by simp_all
    moreover obtain s2 where "sql_begin io s = (True, s2)" "dbase s2 = dbase s" "dbase s1 = dbase (fold (process_event io) es s2)"
      using c(3) True by blast
    moreover have "saved s2 = Some (dbase s)" using \<open>sql_begin io s = (True, s2)\<close> by (auto simp: sql_begin_def Let_def split: if_splits)
    ultimately show ?thesis using c(1) by blast
  next
    case False
    then have "commit_tries io n es s1 = (ok, s')" using Suc.prems s1 by simp
    from Suc.IH [OF this c(1)] c(2) False show ?thesis by simp
  qed
qed simp

section \<open>The cache is a map\<close>

text \<open>A probe stops at an empty slot or at the name.\<close>

definition stops :: "cache \<Rightarrow> string \<Rightarrow> nat \<Rightarrow> bool" where
  "stops c name k \<longleftrightarrow> (case c ! k of None \<Rightarrow> True | Some (nm, _) \<Rightarrow> same_name nm name)"

lemma cache_probe_iff:
  "cache_probe c name h i n = Some k \<longleftrightarrow>
     (\<exists>j < n. k = cache_slot h (i + j) \<and> stops c name k \<and> (\<forall>j' < j. \<not> stops c name (cache_slot h (i + j'))))"
proof (induction n arbitrary: i)
  case (Suc n)
  have e: "(\<exists>j < Suc n. P j) \<longleftrightarrow> P 0 \<or> (\<exists>j < n. P (Suc j))" for P by (metis Suc_less_eq less_Suc_eq_0_disj zero_less_Suc)
  have a: "(\<forall>j' < Suc j. P j') \<longleftrightarrow> P 0 \<and> (\<forall>j' < j. P (Suc j'))" for P and j :: nat by (metis All_less_Suc2)
  show ?case unfolding e a using Suc.IH [of "i + 1"]
    by (auto simp: stops_def split: option.splits)
qed simp

lemma cache_probe_None: "cache_probe c name h i n = None \<longleftrightarrow> (\<forall>j < n. \<not> stops c name (cache_slot h (i + j)))"
proof (induction n arbitrary: i)
  case (Suc n)
  have a: "(\<forall>j' < Suc n. P j') \<longleftrightarrow> P 0 \<and> (\<forall>j' < n. P (Suc j'))" for P by (metis All_less_Suc2)
  show ?case unfolding a using Suc.IH [of "i + 1"] by (auto simp: stops_def split: option.splits)
qed simp

lemma cache_slot_inj: "i < WORKER_CACHE_SLOTS \<Longrightarrow> j < WORKER_CACHE_SLOTS \<Longrightarrow> cache_slot h i = cache_slot h j \<Longrightarrow> i = j"
  unfolding cache_slot_def by (rule mod_add_inj)

lemma cache_slot_lt: "cache_slot h i < WORKER_CACHE_SLOTS"
  by (simp add: cache_slot_def WORKER_CACHE_SLOTS_def)

definition probe :: "cache \<Rightarrow> string \<Rightarrow> nat option" where
  "probe c name = cache_probe c name (cache_home name) 0 WORKER_CACHE_SLOTS"

definition cache_wf :: "cache \<Rightarrow> bool" where
  "cache_wf c \<longleftrightarrow> length c = WORKER_CACHE_SLOTS \<and>
     (\<forall>k < WORKER_CACHE_SLOTS. \<forall>nm i. c ! k = Some (nm, i) \<longrightarrow> length nm < WORKER_NAME_MAX \<and> probe c nm = Some k)"

lemma same_name_eq: "length a < WORKER_NAME_MAX \<Longrightarrow> length b < WORKER_NAME_MAX \<Longrightarrow> same_name a b \<longleftrightarrow> a = b"
  by (simp add: same_name_def)

lemma probe_iff:
  "probe c name = Some k \<longleftrightarrow>
     (\<exists>j < WORKER_CACHE_SLOTS. k = cache_slot (cache_home name) j \<and> stops c name k \<and> (\<forall>j' < j. \<not> stops c name (cache_slot (cache_home name) j')))"
  by (simp add: probe_def cache_probe_iff)

lemma stops_other [simp]: "q \<noteq> k \<Longrightarrow> stops (c[k := v]) m q = stops c m q"
  by (simp add: stops_def)

text \<open>The probe depends only on where it stops.\<close>

lemma probe_cong:
  assumes "\<And>q. q < WORKER_CACHE_SLOTS \<Longrightarrow> stops d m q = stops c m q"
  shows "probe d m = probe c m"
proof -
  have "stops d m (cache_slot h j) = stops c m (cache_slot h j)" for h j by (rule assms [OF cache_slot_lt])
  then have "probe d m = Some k \<longleftrightarrow> probe c m = Some k" for k unfolding probe_iff by metis
  then show ?thesis by (metis not_Some_eq)
qed

lemma probe_update:
  assumes "probe c name = Some k'" and "stops (c[k := v]) name k = stops c name k"
  shows "probe (c[k := v]) name = Some k'"
proof -
  have "stops (c[k := v]) name q = stops c name q" for q using assms(2) by (cases "q = k") simp_all
  then show ?thesis using assms(1) probe_cong by metis
qed

lemma cache_insert_eq:
  "length name < WORKER_NAME_MAX \<Longrightarrow> cache_wf c \<Longrightarrow>
   cache_insert c name i = (case probe c name of None \<Rightarrow> c | Some k \<Rightarrow> c[k := Some (name, i)])"
proof -
  assume n: "length name < WORKER_NAME_MAX" and c: "cache_wf c"
  have "nm = name" if "probe c name = Some k" "c ! k = Some (nm, x)" for k nm x
  proof -
    have "k < WORKER_CACHE_SLOTS" "stops c name k" using that(1) cache_slot_lt by (auto simp: probe_iff)
    then show ?thesis using that(2) c n by (auto simp: stops_def same_name_eq cache_wf_def)
  qed
  then show ?thesis using n by (auto simp: cache_insert_def probe_def [symmetric] c_copy_def split: option.splits)
qed

lemma cache_lookup_eq: "cache_lookup c name = (case probe c name of None \<Rightarrow> -1 | Some k \<Rightarrow> (case c ! k of None \<Rightarrow> -1 | Some (_, i) \<Rightarrow> i))"
  by (simp add: cache_lookup_def probe_def)

lemma probe_lt: "probe c name = Some k \<Longrightarrow> k < WORKER_CACHE_SLOTS" and probe_stops: "probe c name = Some k \<Longrightarrow> stops c name k"
  using cache_slot_lt by (auto simp: probe_iff)

lemma probe_slot:
  assumes "cache_wf c" and "length name < WORKER_NAME_MAX" and "probe c name = Some k"
  shows "c ! k = None \<or> (\<exists>x. c ! k = Some (name, x))"
  using probe_stops [OF assms(3)] probe_lt [OF assms(3)] assms(1,2) by (auto simp: stops_def same_name_eq cache_wf_def split: option.splits)

lemma probe_self:
  assumes "cache_wf c" and "probe c name = Some k"
  shows "probe (c[k := Some (name, i)]) name = Some k"
  using assms(1) probe_lt [OF assms(2)] probe_stops [OF assms(2)]
  by (intro probe_update [OF assms(2)]) (auto simp: cache_wf_def stops_def same_name_def)

lemma probe_stored:
  assumes c: "cache_wf c" and n: "length name < WORKER_NAME_MAX" and k: "probe c name = Some k"
    and a: "k' < WORKER_CACHE_SLOTS" "k' \<noteq> k" "c ! k' = Some (nm, x)"
  shows "probe (c[k := Some (name, i)]) nm = Some k'"
proof -
  have p: "probe c nm = Some k'" and nm: "length nm < WORKER_NAME_MAX" using c a by (auto simp: cache_wf_def)
  have "nm \<noteq> name" using p k a(2) by auto
  have s: "\<not> stops (c[k := Some (name, i)]) nm k"
    using probe_lt [OF k] c \<open>nm \<noteq> name\<close> nm n by (auto simp: stops_def same_name_eq cache_wf_def)
  show ?thesis
  proof (cases "c ! k")
    case None
    obtain j where j: "j < WORKER_CACHE_SLOTS" "k' = cache_slot (cache_home nm) j" "stops c nm k'"
      "\<forall>j' < j. \<not> stops c nm (cache_slot (cache_home nm) j')" using p by (auto simp: probe_iff)
    have "stops c nm k" using None by (simp add: stops_def)
    then have "\<forall>j' < j. cache_slot (cache_home nm) j' \<noteq> k" using j(4) by metis
    then have "\<forall>j' < j. \<not> stops (c[k := Some (name, i)]) nm (cache_slot (cache_home nm) j')" using j(4) by simp
    moreover have "stops (c[k := Some (name, i)]) nm k'" using j(3) a(2) by simp
    ultimately show ?thesis using j(1,2) unfolding probe_iff by blast
  next
    case (Some y)
    then have "\<not> stops c nm k" using probe_slot [OF c n k] \<open>nm \<noteq> name\<close> nm n by (auto simp: stops_def same_name_eq)
    with s show ?thesis using p by (intro probe_update) simp_all
  qed
qed

lemma insert_wf:
  assumes c: "cache_wf c" and n: "length name < WORKER_NAME_MAX" and k: "probe c name = Some k"
  shows "cache_wf (c[k := Some (name, i)])"
  unfolding cache_wf_def
proof (intro conjI allI impI)
  fix k' nm x
  assume k': "k' < WORKER_CACHE_SLOTS" and e: "c[k := Some (name, i)] ! k' = Some (nm, x)"
  show "length nm < WORKER_NAME_MAX"
    using k' e c n by (cases "k' = k") (auto simp: cache_wf_def)
  show "probe (c[k := Some (name, i)]) nm = Some k'"
    using k' e c probe_self [OF c k] probe_stored [OF c n k k'] by (cases "k' = k") (auto simp: cache_wf_def)
qed (use c in \<open>simp add: cache_wf_def\<close>)

lemma lookup_self:
  assumes "cache_wf c" and "probe c name = Some k"
  shows "cache_lookup (c[k := Some (name, i)]) name = i"
  using assms probe_lt [OF assms(2)] by (simp add: cache_lookup_eq probe_self cache_wf_def)

lemma lookup_other:
  assumes c: "cache_wf c" and n: "length name < WORKER_NAME_MAX" and k: "probe c name = Some k"
    and m: "length m < WORKER_NAME_MAX" "m \<noteq> name"
  shows "cache_lookup (c[k := Some (name, i)]) m = cache_lookup c m"
proof (cases "stops c m k")
  case True
  then have empty: "c ! k = None" using probe_slot [OF c n k] m n by (auto simp: stops_def same_name_eq)
  have none: "cache_lookup d m = -1" if "length d = WORKER_CACHE_SLOTS" "\<forall>q < WORKER_CACHE_SLOTS. \<forall>x. d ! q \<noteq> Some (m, x)"
    "\<forall>q < WORKER_CACHE_SLOTS. \<forall>nm x. d ! q = Some (nm, x) \<longrightarrow> length nm < WORKER_NAME_MAX" for d
  proof (cases "probe d m")
    case (Some q)
    then have "q < WORKER_CACHE_SLOTS" "stops d m q" using cache_slot_lt by (auto simp: probe_iff)
    then have "d ! q = None" using that m by (fastforce simp: stops_def same_name_eq split: option.splits)
    then show ?thesis by (simp add: cache_lookup_eq Some)
  qed (simp add: cache_lookup_eq)
  show ?thesis
  proof (cases "\<exists>q x. q < WORKER_CACHE_SLOTS \<and> c ! q = Some (m, x)")
    case True
    then obtain q x where q: "q < WORKER_CACHE_SLOTS" "c ! q = Some (m, x)" by blast
    then have "q \<noteq> k" using empty by auto
    moreover have "probe c m = Some q" using c q by (simp add: cache_wf_def)
    ultimately show ?thesis using probe_stored [OF c n k q(1) _ q(2)] q by (simp add: cache_lookup_eq)
  next
    case False
    then have "cache_lookup c m = -1" using c by (intro none) (auto simp: cache_wf_def)
    moreover have "cache_lookup (c[k := Some (name, i)]) m = -1"
      using False insert_wf [OF c n k, of i] m probe_lt [OF k] c by (intro none) (auto simp: cache_wf_def nth_list_update)
    ultimately show ?thesis by simp
  qed
next
  case False
  have "\<not> stops (c[k := Some (name, i)]) m k" using m n probe_lt [OF k] c by (auto simp: stops_def same_name_eq cache_wf_def)
  then have "stops (c[k := Some (name, i)]) m q = stops c m q" for q using False by (cases "q = k") simp_all
  then have p: "probe (c[k := Some (name, i)]) m = probe c m" by (rule probe_cong)
  have "probe c m \<noteq> Some k" using False by (auto simp: probe_iff)
  then show ?thesis unfolding cache_lookup_eq p by (auto split: option.splits)
qed

lemma cache_wf_empty: "cache_wf (replicate WORKER_CACHE_SLOTS None)"
  by (simp add: cache_wf_def)

lemma probe_empty: "probe (replicate WORKER_CACHE_SLOTS None) name \<noteq> None"
proof
  assume "probe (replicate WORKER_CACHE_SLOTS None) name = None"
  then have "\<not> stops (replicate WORKER_CACHE_SLOTS None) name (cache_slot (cache_home name) 0)"
    by (simp add: probe_def cache_probe_None WORKER_CACHE_SLOTS_def)
  then show False using cache_slot_lt by (simp add: stops_def)
qed

section \<open>What a cache promises\<close>

text \<open>
  The interface the writer relies on: an entry that is found is the last one stored under its name; an
  entry may be missing. In the locale a cache that agrees with a table goes on agreeing with it when
  entries of the table are stored.
\<close>

locale name_cache =
  fixes good :: "'c \<Rightarrow> bool" and key :: "'k \<Rightarrow> bool" and lookup :: "'c \<Rightarrow> 'k \<Rightarrow> int" and store :: "'c \<Rightarrow> 'k \<Rightarrow> int \<Rightarrow> 'c"
  assumes store_good: "good c \<Longrightarrow> key n \<Longrightarrow> good (store c n i)"
    and store_same: "good c \<Longrightarrow> key n \<Longrightarrow> lookup (store c n i) n = i \<or> (store c n i = c \<and> lookup c n = -1)"
    and store_other: "good c \<Longrightarrow> key n \<Longrightarrow> key m \<Longrightarrow> m \<noteq> n \<Longrightarrow> lookup (store c n i) m = lookup c m"
begin

definition agrees :: "('k \<Rightarrow> int option) \<Rightarrow> 'c \<Rightarrow> bool" where
  "agrees t c \<longleftrightarrow> good c \<and> (\<forall>n. key n \<longrightarrow> 0 \<le> lookup c n \<longrightarrow> t n = Some (lookup c n))"

lemma agrees_store: "agrees t c \<Longrightarrow> key n \<Longrightarrow> t n = Some i \<Longrightarrow> agrees t (store c n i)"
  using store_good store_same store_other unfolding agrees_def by (metis)

lemma agrees_grow: "agrees t c \<Longrightarrow> (\<And>n i. t n = Some i \<Longrightarrow> t' n = Some i) \<Longrightarrow> agrees t' c"
  unfolding agrees_def by metis

end

interpretation wc: name_cache cache_wf "\<lambda>n. length n < WORKER_NAME_MAX" cache_lookup cache_insert
proof
  fix c :: cache and n m :: string and i :: int
  assume c: "cache_wf c" and n: "length n < WORKER_NAME_MAX"
  show "cache_wf (cache_insert c n i)"
    using c insert_wf [OF c n] by (simp add: cache_insert_eq [OF n c] split: option.splits)
  show "cache_lookup (cache_insert c n i) n = i \<or> cache_insert c n i = c \<and> cache_lookup c n = -1"
  proof (cases "probe c n")
    case None
    then show ?thesis by (simp add: cache_insert_eq [OF n c] cache_lookup_eq)
  next
    case (Some k)
    then show ?thesis by (simp add: cache_insert_eq [OF n c] lookup_self [OF c])
  qed
  show "length m < WORKER_NAME_MAX \<Longrightarrow> m \<noteq> n \<Longrightarrow> cache_lookup (cache_insert c n i) m = cache_lookup c m"
    using lookup_other [OF c n] by (simp add: cache_insert_eq [OF n c] split: option.splits)
qed

end
