(* ===== verification/Batches.thy ===== *)
theory Batches
  imports Store "HOL-Library.Sublist"
begin

text \<open>
  What the batches of the event store (\<^verbatim>\<open>src/store.c\<close>) write: the rows and balances of a committed
  batch are those of its events, each under the name of its worker, and a batch that does not commit
  leaves nothing behind. The last sections show where this ends: when SQLite abandons a transaction on
  its own, and when the cache outlives a transaction that was undone.
\<close>

section \<open>Whose work a row records\<close>

definition worker_id :: "db \<Rightarrow> string \<Rightarrow> int option" where
  "worker_id d name = map_option wk_id (find_worker name d)"

definition worker_name :: "db \<Rightarrow> int \<Rightarrow> string option" where
  "worker_name d i = map_option wk_name (find (\<lambda>r. wk_id r = i) (workers d))"

text \<open>Statements only add names.\<close>

definition names_kept :: "db \<Rightarrow> db \<Rightarrow> bool" where
  "names_kept d d' \<longleftrightarrow> (\<forall>n i. worker_id d n = Some i \<longrightarrow> worker_id d' n = Some i)"

lemma names_kept_refl [simp]: "names_kept d d"
  by (simp add: names_kept_def)

lemma names_kept_trans: "names_kept d d' \<Longrightarrow> names_kept d' d'' \<Longrightarrow> names_kept d d''"
  by (simp add: names_kept_def)

lemma names_kept_workers: "workers d' = workers d \<Longrightarrow> names_kept d d'"
  by (simp add: names_kept_def worker_id_def find_worker_def)

lemma worker_id_iff:
  "db_ok d \<Longrightarrow> worker_id d n = Some i \<longleftrightarrow> (n, i) \<in> set (map (\<lambda>r. (wk_name r, wk_id r)) (workers d))"
proof
  assume "db_ok d" and "(n, i) \<in> set (map (\<lambda>r. (wk_name r, wk_id r)) (workers d))"
  then obtain r where r: "r \<in> set (workers d)" "n = wk_name r" "i = wk_id r" and ds: "distinct (map wk_name (workers d))"
    by (auto simp: db_ok_def)
  obtain q where q: "find_worker n d = Some q" using r by (metis find_worker_None image_eqI not_None_eq)
  then have "q = r" using find_worker_Some [OF q] r ds by (metis distinct_map inj_on_eq_iff)
  then show "worker_id d n = Some i" using q r by (simp add: worker_id_def)
qed (auto simp: worker_id_def dest!: find_worker_Some)

lemma worker_name_iff: 
  "db_ok d \<Longrightarrow> worker_name d i = Some n \<longleftrightarrow> worker_id d n = Some i"
proof -
  assume d: "db_ok d"
  have ds: "distinct (map wk_id (workers d))" using d ids_ok_distinct by (auto simp: db_ok_def worker_ids_def)
  have "worker_name d i = Some n \<longleftrightarrow> (n, i) \<in> set (map (\<lambda>r. (wk_name r, wk_id r)) (workers d))"
  proof
    assume "(n, i) \<in> set (map (\<lambda>r. (wk_name r, wk_id r)) (workers d))"
    then obtain r where r: "r \<in> set (workers d)" "n = wk_name r" "i = wk_id r" by auto
    then obtain q where q: "find (\<lambda>r. wk_id r = i) (workers d) = Some q" by (metis (mono_tags) find_None_iff not_None_eq)
    then have "q \<in> set (workers d)" "wk_id q = i" by (auto simp: find_Some_iff in_set_conv_nth)
    then have "q = r" using r ds by (metis distinct_map inj_on_eq_iff)
    then show "worker_name d i = Some n" using q r by (simp add: worker_name_def)
  qed (fastforce simp: worker_name_def find_Some_iff in_set_conv_nth)
  then show ?thesis by (simp add: worker_id_iff [OF d])
qed

lemma upsert_worker_names:
  assumes "sql_upsert_worker name ts addr d = (i, d')" and "db_ok d"
  shows "worker_id d' name = Some i \<and> names_kept d d' \<and> shares d' = shares d \<and> credits d' = credits d"
proof -
  have d': "db_ok d'" by (rule upsert_worker_ok [OF assms])
  have t: "shares d' = shares d" "credits d' = credits d"
    using assms(1) by (auto simp: sql_upsert_worker_def Let_def split: option.splits)
  have zip: "map (\<lambda>r. (wk_name r, wk_id r)) ws = zip (map wk_name ws) (map wk_id ws)" for ws
    by (induction ws) auto
  show ?thesis
  proof (cases "find_worker name d")
    case None
    note u = upsert_worker_new [OF assms(1) None]
    have "map (\<lambda>r. (wk_name r, wk_id r)) (workers d') = map (\<lambda>r. (wk_name r, wk_id r)) (workers d) @ [(name, i)]"
      unfolding zip u(3,4) by simp
    then show ?thesis using assms(2) d' t by (simp add: names_kept_def worker_id_iff)
  next
    case (Some r)
    note u = upsert_worker_old [OF assms(1) Some]
    have z: "map (\<lambda>r. (wk_name r, wk_id r)) (workers d') = map (\<lambda>r. (wk_name r, wk_id r)) (workers d)"
      unfolding zip u(3,4) by simp
    have "worker_id d name = Some i" using Some u(1) by (simp add: worker_id_def)
    then show ?thesis using assms(2) d' z t by (simp add: names_kept_def worker_id_iff)
  qed
qed

text \<open>The cache agrees with the table of workers.\<close>

definition cache_agrees :: "store \<Rightarrow> bool" where
  "cache_agrees s \<longleftrightarrow> wc.agrees (worker_id (dbase s)) (worker_cache s)"

lemma cache_agrees_kept:
  "cache_agrees s \<Longrightarrow> names_kept (dbase s) (dbase s') \<Longrightarrow> worker_cache s' = worker_cache s \<Longrightarrow> cache_agrees s'"
  using wc.agrees_grow [of "worker_id (dbase s)" "worker_cache s" "worker_id (dbase s')"]
  by (auto simp: cache_agrees_def names_kept_def)

lemma sql_step_cases:
  assumes "sql_step io f s = (r, s')" and "no_auto_rollback io"
  obtains (ok) x d where "r = Some x" "f (dbase s) = Some (x, d)" "s' = s\<lparr>calls := calls s + 1, dbase := d\<rparr>" "io (calls s) = Done"
  | (no) "r = None" "s' = s\<lparr>calls := calls s + 1\<rparr>" "io (calls s) = Done \<Longrightarrow> f (dbase s) = None"
  using assms by (auto simp: sql_step_def Let_def no_auto_rollback_def split: sql_outcome.splits option.splits)

lemma resolve_sound:
  assumes "resolve_worker_id io name addr ts s = (i, s')" and "no_auto_rollback io" and "store_ok s" and "cache_agrees s"
    and "length name < WORKER_NAME_MAX"
  shows "cache_agrees s' \<and> names_kept (dbase s) (dbase s') \<and> (0 \<le> i \<longrightarrow> worker_id (dbase s') name = Some i) \<and>
    (io (calls s) = Done \<longrightarrow> 0 \<le> i) \<and> shares (dbase s') = shares (dbase s) \<and> credits (dbase s') = credits (dbase s)"
proof -
  let ?f = "\<lambda>d. Some (sql_upsert_worker name (uint (ts div 1000)) (if addr \<noteq> [] then Some addr else None) d)"
  obtain r s1 where s1: "sql_step io ?f s = (r, s1)" by fastforce
  define id0 where "id0 = cache_lookup (worker_cache s) name"
  from s1 assms(2) show ?thesis
  proof (cases rule: sql_step_cases)
    case (ok x d)
    have d: "db_ok (dbase s)" using assms(3) by (simp add: store_ok_def)
    have u: "sql_upsert_worker name (uint (ts div 1000)) (if addr \<noteq> [] then Some addr else None) (dbase s) = (x, d)" using ok(2) by simp
    note n = upsert_worker_names [OF u d]
    have x: "0 < x" using upsert_worker_id [OF u d] by simp
    have i: "i = x" "s' = (if id0 \<ge> 0 then s1 else s1\<lparr>worker_cache := cache_insert (worker_cache s1) name x\<rparr>)"
      using assms(1) x by (auto simp: resolve_worker_id_def Let_def s1 ok(1) id0_def split: if_splits)
    have a1: "cache_agrees s1" using cache_agrees_kept [OF assms(4)] n by (simp add: ok(3))
    have "worker_id (dbase s1) name = Some x" using n by (simp add: ok(3))
    then have "cache_agrees (s1\<lparr>worker_cache := cache_insert (worker_cache s1) name x\<rparr>)"
      using a1 wc.agrees_store assms(5) by (simp add: cache_agrees_def)
    then show ?thesis using i x n a1 by (simp add: ok(3))
  next
    case no
    have i: "i = (if id0 \<ge> 0 then id0 else -1)" "dbase s' = dbase s" "worker_cache s' = worker_cache s"
      using assms(1) no by (auto simp: resolve_worker_id_def Let_def s1 id0_def split: if_splits)
    have "0 \<le> id0 \<longrightarrow> worker_id (dbase s) name = Some id0"
      using assms(4,5) by (auto simp: cache_agrees_def wc.agrees_def id0_def)
    then show ?thesis using i cache_agrees_kept [OF assms(4), of s'] no(3) by auto
  qed
qed

section \<open>What a batch writes\<close>

definition share_data :: "share_row \<Rightarrow> int \<times> double \<times> int \<times> string option \<times> int \<times> double" where
  "share_data r = (sh_ts r, sh_difficulty r, sh_is_block r, sh_hash r, sh_credited r, sh_rate r)"

definition event_data :: "store_event \<Rightarrow> int \<times> double \<times> int \<times> string option \<times> int \<times> double" where
  "event_data e = (uint (se_ts_ms e div 1000), se_difficulty e, se_is_block e, text_or_null (se_hash e), se_delta e, se_rate e)"

definition share_view :: "db \<Rightarrow> share_row \<Rightarrow> string option \<times> int \<times> double \<times> int \<times> string option \<times> int \<times> double" where
  "share_view d r = (worker_name d (sh_worker r), share_data r)"

definition event_share :: "store_event \<Rightarrow> string option \<times> int \<times> double \<times> int \<times> string option \<times> int \<times> double" where
  "event_share e = (Some (se_worker e), event_data e)"

definition reject_data :: "reject_row \<Rightarrow> string option \<times> int \<times> string" where
  "reject_data r = (rj_worker r, rj_ts r, rj_reason r)"

definition event_reject :: "store_event \<Rightarrow> string option \<times> int \<times> string" where
  "event_reject e = (text_or_null (se_worker e), uint (se_ts_ms e div 1000), se_reason e)"

definition block_data :: "block_row \<Rightarrow> int \<times> int \<times> string \<times> string option \<times> int option \<times> int option \<times> string \<times> string option \<times> double" where
  "block_data r = (bk_ts r, bk_height r, bk_hash r, bk_finder_address r, bk_reward r, bk_fee r, bk_status r, bk_submit_error r, bk_window r)"

definition event_block :: "store_event \<Rightarrow> int \<times> int \<times> string \<times> string option \<times> int option \<times> int option \<times> string \<times> string option \<times> double" where
  "event_block e = (uint (se_ts_ms e div 1000), se_height e, se_hash e, text_or_null (se_address e), sats_or_null (se_reward e), sats_or_null (se_fee e),
     store_block_status_text (se_status e), text_or_null (se_reason e), se_window e)"

definition share_events :: "store_event list \<Rightarrow> store_event list" where
  "share_events es = filter (\<lambda>e. se_kind e = EV_SHARE) es"

definition credit_events :: "store_event list \<Rightarrow> store_event list" where
  "credit_events es = filter (\<lambda>e. se_kind e = EV_CREDIT) es"

definition reject_events :: "store_event list \<Rightarrow> store_event list" where
  "reject_events es = filter (\<lambda>e. se_kind e = EV_REJECT) es"

definition block_events :: "store_event list \<Rightarrow> store_event list" where
  "block_events es = filter (\<lambda>e. se_kind e = EV_BLOCK \<and> se_window e \<noteq> NaN) es"

lemmas events_defs = share_events_def credit_events_def reject_events_def block_events_def EV_SHARE_def EV_REJECT_def EV_BLOCK_def EV_CREDIT_def

lemma events_append [simp]:
  "share_events (es @ fs) = share_events es @ share_events fs" "credit_events (es @ fs) = credit_events es @ credit_events fs"
  "reject_events (es @ fs) = reject_events es @ reject_events fs" "block_events (es @ fs) = block_events es @ block_events fs"
  "share_events [] = []" "credit_events [] = []" "reject_events [] = []" "block_events [] = []"
  by (simp_all add: share_events_def credit_events_def reject_events_def block_events_def)

definition accrued :: "db \<Rightarrow> int" where
  "accrued d = sum_list (map cr_accrued (credits d))"

lemma accrued_update:
  "distinct (map cr_worker rs) \<Longrightarrow>
     sum_list (map cr_accrued (filter P (map (\<lambda>r. if cr_worker r = wid then r\<lparr>cr_accrued := cr_accrued r + am, cr_updated := ts\<rparr> else r) rs))) =
     sum_list (map cr_accrued (filter P rs)) + (if \<exists>r \<in> set rs. cr_worker r = wid \<and> P r then am else 0)"
  if "\<And>r a b. P (r\<lparr>cr_accrued := a, cr_updated := b\<rparr>) = P r"
  by (induction rs) (auto simp: that)

lemma credits_update:
  "sql_upsert_credit wid am ts d = Some d' \<Longrightarrow> wid \<in> set (map cr_worker (credits d)) \<Longrightarrow>
     credits d' = map (\<lambda>r. if cr_worker r = wid then r\<lparr>cr_accrued := cr_accrued r + am, cr_updated := ts\<rparr> else r) (credits d)"
  by (auto simp: sql_upsert_credit_def split: if_splits)

lemma accrued_credit:
  assumes "sql_upsert_credit wid am ts d = Some d'" and "db_ok d"
  shows "accrued d' = accrued d + am"
proof (cases "wid \<in> set (map cr_worker (credits d))")
  case True
  have ds: "distinct (map cr_worker (credits d))" using assms(2) by (simp add: db_ok_def)
  have "\<exists>r \<in> set (credits d). cr_worker r = wid \<and> True" using True by auto
  then have "sum_list (map cr_accrued (credits d')) = sum_list (map cr_accrued (credits d)) + am"
    using credits_update [OF assms(1) True] accrued_update [OF _ ds, where P = "\<lambda>r. True" and wid = wid and am = am and ts = ts] by simp
  then show ?thesis by (simp add: accrued_def)
qed (use assms in \<open>auto simp: sql_upsert_credit_def accrued_def split: if_splits\<close>)

text \<open>The balance of a worker, by id and by name.\<close>

definition worker_balance :: "db \<Rightarrow> int \<Rightarrow> int" where
  "worker_balance d i = sum_list (map cr_accrued (filter (\<lambda>r. cr_worker r = i) (credits d)))"

definition balance :: "db \<Rightarrow> string \<Rightarrow> int" where
  "balance d name = (case worker_id d name of None \<Rightarrow> 0 | Some i \<Rightarrow> worker_balance d i)"

lemma worker_balance_credit:
  assumes "sql_upsert_credit i am ts d = Some d'" and "db_ok d"
  shows "worker_balance d' j = worker_balance d j + (if j = i then am else 0)"
proof (cases "i \<in> set (map cr_worker (credits d))")
  case True
  have ds: "distinct (map cr_worker (credits d))" using assms(2) by (simp add: db_ok_def)
  have "(\<exists>r \<in> set (credits d). cr_worker r = i \<and> cr_worker r = j) = (j = i)" using True by auto
  then show ?thesis unfolding worker_balance_def
    using credits_update [OF assms(1) True] accrued_update [OF _ ds, where P = "\<lambda>r. cr_worker r = j" and wid = i and am = am and ts = ts] by simp
qed (use assms(1) in \<open>auto simp: sql_upsert_credit_def worker_balance_def split: if_splits\<close>)

lemma worker_id_inj: "db_ok d \<Longrightarrow> worker_id d m = Some i \<Longrightarrow> worker_id d n = Some i \<Longrightarrow> m = n"
  by (metis worker_name_iff option.inject)

lemma balance_kept:
  assumes "names_kept d d'" and "db_ok d" and "db_ok d'" and "credits d' = credits d"
  shows "balance d' n = balance d n"
proof (cases "worker_id d n")
  case None
  have "filter (\<lambda>r. cr_worker r = i) (credits d) = []" if i: "worker_id d' n = Some i" for i
  proof (rule ccontr)
    assume "filter (\<lambda>r. cr_worker r = i) (credits d) \<noteq> []"
    then have "i \<in> set (map cr_worker (credits d))" by (force simp: filter_empty_conv)
    then have "i \<in> set (worker_ids d)" using assms(2) unfolding db_ok_def by blast
    then obtain m where "worker_id d m = Some i" using worker_id_iff [OF assms(2)] by (auto simp: worker_ids_def)
    moreover have "m = n" using worker_id_inj [OF assms(3) _ i] assms(1) calculation by (simp add: names_kept_def)
    ultimately show False using None by simp
  qed
  then show ?thesis using None assms(4) by (auto simp: balance_def worker_balance_def split: option.splits)
qed (use assms in \<open>auto simp: balance_def worker_balance_def names_kept_def\<close>)

lemma balance_credit:
  assumes "sql_upsert_credit i am ts d = Some d'" and "db_ok d" and "worker_id d name = Some i"
  shows "balance d' m = balance d m + (if m = name then am else 0)"
proof -
  have w: "worker_id d' m = worker_id d m" using assms(1) by (auto simp: sql_upsert_credit_def worker_id_def find_worker_def split: if_splits)
  have i: "worker_id d m = Some j \<Longrightarrow> j = i \<longleftrightarrow> m = name" for j using worker_id_inj [OF assms(2)] assms(3) by auto
  show ?thesis using i worker_balance_credit [OF assms(1,2)] assms(3) by (auto simp: balance_def w split: option.splits)
qed

text \<open>The tables after a batch \<open>es\<close> of which the events \<open>fs\<close> were written: the rows of shares and rejects are
  appended in order, the credits are added, the new blocks are blocks of the batch, and every block that
  was written is known by its hash.\<close>

definition landed :: "store_event list \<Rightarrow> store_event list \<Rightarrow> db \<Rightarrow> db \<Rightarrow> bool" where
  "landed es fs d d' \<longleftrightarrow>
     (\<exists>rows. shares d' = shares d @ rows \<and> map share_data rows = map event_data (share_events fs)) \<and>
     (\<exists>rows. rejects d' = rejects d @ rows \<and> map reject_data rows = map event_reject (reject_events fs)) \<and>
     (\<exists>rows. blocks d' = blocks d @ rows \<and> subseq (map block_data rows) (map event_block (block_events es)) \<and>
        se_hash ` set (block_events fs) \<subseteq> bk_hash ` set (blocks d')) \<and>
     accrued d' = accrued d + sum_list (map se_delta (credit_events fs))"

text \<open>The same under the names of the workers.\<close>

definition booked :: "store_event list \<Rightarrow> db \<Rightarrow> db \<Rightarrow> bool" where
  "booked fs d d' \<longleftrightarrow>
     (\<exists>rows. shares d' = shares d @ rows \<and> map (share_view d') rows = map event_share (share_events fs)) \<and>
     (\<forall>n. balance d' n = balance d n + sum_list (map se_delta (filter (\<lambda>e. se_worker e = n) (credit_events fs))))"

lemma landed_trans:
  assumes "landed es fs d d'" and "landed es' fs' d' d''"
  shows "landed (es @ es') (fs @ fs') d d''"
proof -
  obtain r1 r2 r3 where r: "shares d' = shares d @ r1" "map share_data r1 = map event_data (share_events fs)" "rejects d' = rejects d @ r2"
    "map reject_data r2 = map event_reject (reject_events fs)" "blocks d' = blocks d @ r3" "subseq (map block_data r3) (map event_block (block_events es))"
    using assms(1) by (auto simp: landed_def)
  obtain q1 q2 q3 where q: "shares d'' = shares d' @ q1" "map share_data q1 = map event_data (share_events fs')" "rejects d'' = rejects d' @ q2"
    "map reject_data q2 = map event_reject (reject_events fs')" "blocks d'' = blocks d' @ q3" "subseq (map block_data q3) (map event_block (block_events es'))"
    using assms(2) by (auto simp: landed_def)
  have "se_hash ` set (block_events (fs @ fs')) \<subseteq> bk_hash ` set (blocks d'')" using assms q(5) by (auto simp: landed_def)
  moreover have "accrued d'' = accrued d + sum_list (map se_delta (credit_events (fs @ fs')))" using assms by (simp add: landed_def)
  moreover have "subseq (map block_data (r3 @ q3)) (map event_block (block_events (es @ es')))" using list_emb_append_mono [OF r(6) q(6)] by simp
  ultimately show ?thesis unfolding landed_def using r q
    by (intro conjI exI [of _ "r1 @ q1"] exI [of _ "r2 @ q2"] exI [of _ "r3 @ q3"]) simp_all
qed

lemma share_view_kept:
  assumes "names_kept d d'" and "db_ok d" and "db_ok d'" and "worker_name d (sh_worker r) \<noteq> None"
  shows "share_view d' r = share_view d r"
proof -
  obtain n where "worker_name d (sh_worker r) = Some n" using assms(4) by blast
  moreover have "worker_name d' (sh_worker r) = Some n" using calculation assms(1-3) by (simp add: worker_name_iff names_kept_def)
  ultimately show ?thesis by (simp add: share_view_def)
qed

lemma booked_trans:
  assumes "booked es d d'" and "booked fs d' d''" and "names_kept d' d''" and "db_ok d'" and "db_ok d''"
  shows "booked (es @ fs) d d''"
proof -
  obtain rows where r: "shares d' = shares d @ rows" "map (share_view d') rows = map event_share (share_events es)" using assms(1) by (auto simp: booked_def)
  obtain rows' where r': "shares d'' = shares d' @ rows'" "map (share_view d'') rows' = map event_share (share_events fs)" using assms(2) by (auto simp: booked_def)
  have "worker_name d' (sh_worker x) \<noteq> None" if "x \<in> set rows" for x
  proof -
    have "share_view d' x \<in> set (map event_share (share_events es))" using that r(2) by (metis image_eqI list.set_map)
    then show ?thesis by (auto simp: share_view_def event_share_def)
  qed
  then have "map (share_view d'') rows = map (share_view d') rows" using share_view_kept [OF assms(3-5)] by simp
  then have "shares d'' = shares d @ (rows @ rows') \<and> map (share_view d'') (rows @ rows') = map event_share (share_events (es @ fs))" using r r' by simp
  then show ?thesis using assms(1,2) unfolding booked_def by (metis (no_types, lifting) add.assoc events_append(2) filter_append map_append sum_list_append)
qed

section \<open>What an event writes\<close>

text \<open>The events that were written: those whose statements SQLite refused are counted as errors.\<close>

fun written :: "sqlite \<Rightarrow> store_event list \<Rightarrow> store \<Rightarrow> store_event list" where
  "written io [] s = []"
| "written io (e # es) s =
     (let p = process_event io e s in (if pg_errors p = pg_errors s then [e] else []) @ written io es p)"

definition effect :: "store_event \<Rightarrow> store \<Rightarrow> store \<Rightarrow> bool" where
  "effect e s p \<longleftrightarrow>
     (let fs = (if pg_errors p = pg_errors s then [e] else []) in
      store_ok p \<and> names_kept (dbase s) (dbase p) \<and> landed [e] fs (dbase s) (dbase p) \<and>
      (pg_errors p = pg_errors s \<or> pg_errors p = pg_errors s + 1 \<or> pg_errors p = pg_errors s + 2) \<and>
      (cache_agrees s \<and> length (se_worker e) < WORKER_NAME_MAX \<longrightarrow> cache_agrees p \<and> booked fs (dbase s) (dbase p)))"

lemma effect_refused:
  assumes "store_ok s" and "store_ok p" and "names_kept (dbase s) (dbase p)" and "shares (dbase p) = shares (dbase s)" and "rejects (dbase p) = rejects (dbase s)"
    and "blocks (dbase p) = blocks (dbase s)" and "credits (dbase p) = credits (dbase s)"
    and "pg_errors p = pg_errors s + 1 \<or> pg_errors p = pg_errors s + 2" and "cache_agrees s \<Longrightarrow> length (se_worker e) < WORKER_NAME_MAX \<Longrightarrow> cache_agrees p"
  shows "effect e s p"
proof -
  have "pg_errors p \<noteq> pg_errors s" using assms(8) by auto
  moreover have "landed [e] [] (dbase s) (dbase p)" using assms(4-7) by (simp add: landed_def accrued_def)
  moreover have "booked [] (dbase s) (dbase p)" using assms(1-4,7) balance_kept [OF assms(3)] by (simp add: booked_def store_ok_def)
  ultimately show ?thesis using assms(2,3,8,9) unfolding effect_def Let_def by simp
qed

lemma resolve_plain:
  assumes "resolve_worker_id io name addr ts s = (i, s')" and "no_auto_rollback io" and "store_ok s"
  shows "names_kept (dbase s) (dbase s') \<and> shares (dbase s') = shares (dbase s) \<and> credits (dbase s') = credits (dbase s) \<and>
    rejects (dbase s') = rejects (dbase s) \<and> blocks (dbase s') = blocks (dbase s) \<and> pg_errors s' = pg_errors s + (if i < 0 then 1 else 0) \<and>
    (io (calls s) = Done \<longrightarrow> 0 \<le> i \<and> i \<in> set (worker_ids (dbase s')))"
proof -
  let ?f = "\<lambda>d. Some (sql_upsert_worker name (uint (ts div 1000)) (if addr \<noteq> [] then Some addr else None) d)"
  obtain r s1 where s1: "sql_step io ?f s = (r, s1)" by fastforce
  from s1 assms(2) show ?thesis
  proof (cases rule: sql_step_cases)
    case (ok x d)
    have d: "db_ok (dbase s)" using assms(3) by (simp add: store_ok_def)
    have u: "sql_upsert_worker name (uint (ts div 1000)) (if addr \<noteq> [] then Some addr else None) (dbase s) = (x, d)" using ok(2) by simp
    have "rejects d = rejects (dbase s)" "blocks d = blocks (dbase s)" using u by (auto simp: sql_upsert_worker_def Let_def split: option.splits)
    moreover have "i = x" "dbase s' = d" "pg_errors s' = pg_errors s" using assms(1) by (auto simp: resolve_worker_id_def Let_def s1 ok(1,3) split: if_splits)
    ultimately show ?thesis using upsert_worker_names [OF u d] upsert_worker_id [OF u d] by simp
  next
    case no
    then have "dbase s' = dbase s" "pg_errors s' = pg_errors s + (if i < 0 then 1 else 0)"
      using assms(1) by (auto simp: resolve_worker_id_def Let_def s1 count_error_def split: if_splits)
    then show ?thesis using no(3) by auto
  qed
qed

lemma share_effect:
  assumes "no_auto_rollback io" and "store_ok s" and "se_kind e = EV_SHARE"
  shows "effect e s (process_share io e s) \<and>
    ((\<forall>n. io n = Done) \<and> se_difficulty e \<noteq> NaN \<and> se_rate e \<noteq> NaN \<longrightarrow> pg_errors (process_share io e s) = pg_errors s)"
proof -
  let ?p = "process_share io e s"
  obtain i s1 where s1: "resolve_worker_id io (se_worker e) (se_address e) (se_ts_ms e) s = (i, s1)" by fastforce
  note r = resolve_plain [OF s1 assms(1,2)] and ok1 = resolve_ok [OF s1 assms(2)] and c = resolve_sound [OF s1 assms(1,2)]
  let ?g = "sql_insert_share i (uint (se_ts_ms e div 1000)) (se_difficulty e) (se_is_block e) (text_or_null (se_hash e)) (se_delta e) (se_rate e)"
  obtain q s2 where s2: "sql_step io (unit_step ?g) s1 = (q, s2)" by fastforce
  have okp: "store_ok ?p" by (rule process_share_ok [OF assms(2)])
  show ?thesis
  proof (cases "i < 0")
    case True
    then have p: "?p = count_error s1" by (simp add: process_share_def s1)
    show ?thesis using True r c assms(2) okp by (intro conjI effect_refused) (auto simp: p cache_agrees_def count_error_def)
  next
    case False
    from s2 assms(1) show ?thesis
    proof (cases rule: sql_step_cases)
      case (ok x d)
      then have g: "?g (dbase s1) = Some d" by (auto simp: unit_step_def)
      have p: "?p = s2\<lparr>shares_committed := shares_committed s2 + 1\<rparr>" using False by (simp add: process_share_def s1 s2 ok(1))
      have d: "dbase ?p = d" "worker_cache ?p = worker_cache s1" "pg_errors ?p = pg_errors s" using False r by (simp_all add: p ok(3))
      have w: "workers d = workers (dbase s1)" "credits d = credits (dbase s1)" "rejects d = rejects (dbase s1)" "blocks d = blocks (dbase s1)"
        using g by (auto simp: sql_insert_share_def Let_def split: if_splits)
      obtain row where row: "shares d = shares (dbase s1) @ [row]" "sh_worker row = i" "share_data row = event_data e"
        using g by (auto simp: sql_insert_share_def Let_def share_data_def event_data_def split: if_splits)
      have nk: "names_kept (dbase s) d" using r names_kept_trans names_kept_workers [OF w(1)] by blast
      have dd: "db_ok d" "db_ok (dbase s)" using okp d assms(2) by (simp_all add: store_ok_def)
      have l: "landed [e] [e] (dbase s) d" using r w row assms(3) by (simp add: landed_def accrued_def events_defs)
      have "booked [e] (dbase s) d" if a: "cache_agrees s" "length (se_worker e) < WORKER_NAME_MAX"
      proof -
        have "worker_id d (se_worker e) = Some i" using c [OF a] False by (simp add: worker_id_def find_worker_def w)
        then have "share_view d row = event_share e" using dd by (simp add: share_view_def event_share_def row worker_name_iff)
        then show ?thesis using row r w balance_kept [OF nk dd(2,1)] assms(3) by (simp add: booked_def events_defs)
      qed
      moreover have "cache_agrees ?p" if a: "cache_agrees s" "length (se_worker e) < WORKER_NAME_MAX"
        using c [OF a] cache_agrees_kept [of s1 ?p] names_kept_workers [OF w(1)] by (simp add: d)
      ultimately show ?thesis using okp nk l by (simp add: effect_def d)
    next
      case no
      have p: "?p = count_error s2" using False by (simp add: process_share_def s1 s2 no(1))
      have d: "dbase ?p = dbase s1" "worker_cache ?p = worker_cache s1" "pg_errors ?p = pg_errors s + 1" using False r by (simp_all add: p no(2) count_error_def)
      have "effect e s ?p" using r c assms(2) okp by (intro effect_refused) (auto simp: d cache_agrees_def)
      moreover have "unit_step ?g (dbase s1) \<noteq> None" if "\<forall>n. io n = Done" "se_difficulty e \<noteq> NaN" "se_rate e \<noteq> NaN"
        using that r by (simp add: unit_step_def sql_insert_share_def Let_def)
      ultimately show ?thesis using no(3) by auto
    qed
  qed
qed

lemma credit_effect:
  assumes "no_auto_rollback io" and "store_ok s" and "se_kind e = EV_CREDIT"
  shows "effect e s (process_credit io e s) \<and> ((\<forall>n. io n = Done) \<longrightarrow> pg_errors (process_credit io e s) = pg_errors s)"
proof -
  let ?p = "process_credit io e s"
  obtain i s1 where s1: "resolve_worker_id io (se_worker e) (se_address e) (se_ts_ms e) s = (i, s1)" by fastforce
  note r = resolve_plain [OF s1 assms(1,2)] and ok1 = resolve_ok [OF s1 assms(2)] and c = resolve_sound [OF s1 assms(1,2)]
  let ?g = "sql_upsert_credit i (se_delta e) (uint (se_ts_ms e div 1000))"
  obtain q s2 where s2: "sql_step io (unit_step ?g) s1 = (q, s2)" by fastforce
  have okp: "store_ok ?p" by (rule process_credit_ok [OF assms(2)])
  show ?thesis
  proof (cases "i < 0")
    case True
    then have p: "?p = count_error s1" by (simp add: process_credit_def s1)
    show ?thesis using True r c assms(2) okp by (intro conjI effect_refused) (auto simp: p cache_agrees_def count_error_def)
  next
    case False
    from s2 assms(1) show ?thesis
    proof (cases rule: sql_step_cases)
      case (ok x d)
      then have g: "?g (dbase s1) = Some d" by (auto simp: unit_step_def)
      have p: "?p = s2\<lparr>credits_committed := credits_committed s2 + 1\<rparr>" using False by (simp add: process_credit_def s1 s2 ok(1))
      have d: "dbase ?p = d" "worker_cache ?p = worker_cache s1" "pg_errors ?p = pg_errors s" using False r by (simp_all add: p ok(3))
      have w: "workers d = workers (dbase s1)" "shares d = shares (dbase s1)" "rejects d = rejects (dbase s1)" "blocks d = blocks (dbase s1)"
        using g by (auto simp: sql_upsert_credit_def split: if_splits)
      have nk: "names_kept (dbase s) d" using r names_kept_trans names_kept_workers [OF w(1)] by blast
      have dd: "db_ok d" "db_ok (dbase s)" "db_ok (dbase s1)" using okp d assms(2) ok1 by (simp_all add: store_ok_def)
      have "accrued d = accrued (dbase s) + se_delta e" using accrued_credit [OF g dd(3)] r by (simp add: accrued_def)
      then have l: "landed [e] [e] (dbase s) d" using r w assms(3) by (simp add: landed_def events_defs)
      have "booked [e] (dbase s) d" if a: "cache_agrees s" "length (se_worker e) < WORKER_NAME_MAX"
      proof -
        have "worker_id (dbase s1) (se_worker e) = Some i" using c [OF a] False by simp
        then have "balance d n = balance (dbase s) n + (if n = se_worker e then se_delta e else 0)" for n
          using balance_credit [OF g dd(3)] balance_kept [of "dbase s" "dbase s1"] r dd by simp
        then show ?thesis using r w assms(3) by (simp add: booked_def events_defs)
      qed
      moreover have "cache_agrees ?p" if a: "cache_agrees s" "length (se_worker e) < WORKER_NAME_MAX"
        using c [OF a] cache_agrees_kept [of s1 ?p] names_kept_workers [OF w(1)] by (simp add: d)
      ultimately show ?thesis using okp nk l by (simp add: effect_def d)
    next
      case no
      have p: "?p = count_error s2" using False by (simp add: process_credit_def s1 s2 no(1))
      have d: "dbase ?p = dbase s1" "worker_cache ?p = worker_cache s1" "pg_errors ?p = pg_errors s + 1" using False r by (simp_all add: p no(2) count_error_def)
      have "effect e s ?p" using r c assms(2) okp by (intro effect_refused) (auto simp: d cache_agrees_def)
      moreover have "unit_step ?g (dbase s1) \<noteq> None" if "\<forall>n. io n = Done" using that r by (simp add: unit_step_def sql_upsert_credit_def)
      ultimately show ?thesis using no(3) by auto
    qed
  qed
qed

lemma reject_effect:
  assumes "no_auto_rollback io" and "store_ok s" and "se_kind e = EV_REJECT"
  shows "effect e s (process_reject io e s) \<and> ((\<forall>n. io n = Done) \<longrightarrow> pg_errors (process_reject io e s) = pg_errors s)"
proof -
  let ?p = "process_reject io e s"
  obtain q s1 where s1: "sql_step io (\<lambda>d. Some ((), sql_insert_reject (text_or_null (se_worker e)) (uint (se_ts_ms e div 1000)) (se_reason e) d)) s = (q, s1)"
    by fastforce
  have okp: "store_ok ?p" by (rule process_reject_ok [OF assms(2)])
  from s1 assms(1) show ?thesis
  proof (cases rule: sql_step_cases)
    case (ok x d)
    have d: "dbase ?p = d" "worker_cache ?p = worker_cache s" "pg_errors ?p = pg_errors s" by (simp_all add: process_reject_def s1 ok(1,3))
    have w: "workers d = workers (dbase s)" "shares d = shares (dbase s)" "credits d = credits (dbase s)" "blocks d = blocks (dbase s)"
      "\<exists>row. rejects d = rejects (dbase s) @ [row] \<and> reject_data row = event_reject e"
      using ok(2) by (auto simp: sql_insert_reject_def Let_def reject_data_def event_reject_def)
    have dd: "db_ok d" "db_ok (dbase s)" using okp d assms(2) by (simp_all add: store_ok_def)
    have nk: "names_kept (dbase s) d" by (rule names_kept_workers [OF w(1)])
    have "landed [e] [e] (dbase s) d" using w assms(3) by (auto simp: landed_def accrued_def events_defs)
    moreover have "booked [e] (dbase s) d" using w balance_kept [OF nk dd(2,1)] assms(3) by (simp add: booked_def events_defs)
    ultimately show ?thesis using okp nk cache_agrees_kept [of s ?p] by (simp add: effect_def d)
  next
    case no
    have "?p = count_error s1" by (simp add: process_reject_def s1 no(1))
    then have d: "dbase ?p = dbase s" "worker_cache ?p = worker_cache s" "pg_errors ?p = pg_errors s + 1" by (simp_all add: no(2) count_error_def)
    show ?thesis using assms(2) okp no(3) by (intro conjI effect_refused) (auto simp: d cache_agrees_def)
  qed
qed

lemma insert_block_landed:
  assumes "sql_insert_block ts ht h f a re fe st se wi d = Some (b, d')"
  shows "workers d' = workers d \<and> shares d' = shares d \<and> credits d' = credits d \<and> rejects d' = rejects d \<and>
    (\<exists>rows. blocks d' = blocks d @ rows \<and> (rows = [] \<or> (\<exists>row. rows = [row] \<and> block_data row = (ts, ht, h, a, re, fe, st, se, wi) \<and> wi \<noteq> NaN))) \<and>
    (wi \<noteq> NaN \<longrightarrow> h \<in> bk_hash ` set (blocks d'))"
  using assms by (auto simp: sql_insert_block_def Let_def block_data_def split: if_splits)

lemma block_effect:
  assumes "no_auto_rollback io" and "store_ok s" and "se_kind e = EV_BLOCK"
  shows "effect e s (process_block io e s) \<and> ((\<forall>n. io n = Done) \<longrightarrow> pg_errors (process_block io e s) = pg_errors s)"
proof -
  let ?p = "process_block io e s"
  obtain i s1 where s1: "(if se_worker e \<noteq> [] then resolve_worker_id io (se_worker e) (se_address e) (se_ts_ms e) s else (-1, s)) = (i, s1)" by fastforce
  have "(names_kept (dbase s) (dbase s1) \<and> shares (dbase s1) = shares (dbase s) \<and> credits (dbase s1) = credits (dbase s) \<and>
      rejects (dbase s1) = rejects (dbase s) \<and> blocks (dbase s1) = blocks (dbase s)) \<and> (pg_errors s1 = pg_errors s \<or> pg_errors s1 = pg_errors s + 1) \<and>
    ((\<forall>n. io n = Done) \<longrightarrow> pg_errors s1 = pg_errors s \<and> (0 \<le> i \<longrightarrow> i \<in> set (worker_ids (dbase s1)))) \<and>
    (cache_agrees s \<and> length (se_worker e) < WORKER_NAME_MAX \<longrightarrow> cache_agrees s1)"
  proof (cases "se_worker e = []")
    case False
    then have r1: "resolve_worker_id io (se_worker e) (se_address e) (se_ts_ms e) s = (i, s1)" using s1 by simp
    show ?thesis using resolve_plain [OF r1 assms(1,2)] resolve_sound [OF r1 assms(1,2)] by (cases "i < 0") auto
  qed (use s1 in auto)
  then have r: "names_kept (dbase s) (dbase s1) \<and> shares (dbase s1) = shares (dbase s) \<and> credits (dbase s1) = credits (dbase s) \<and>
      rejects (dbase s1) = rejects (dbase s) \<and> blocks (dbase s1) = blocks (dbase s)" "pg_errors s1 = pg_errors s \<or> pg_errors s1 = pg_errors s + 1"
    "(\<forall>n. io n = Done) \<longrightarrow> pg_errors s1 = pg_errors s \<and> (0 \<le> i \<longrightarrow> i \<in> set (worker_ids (dbase s1)))"
    "cache_agrees s \<and> length (se_worker e) < WORKER_NAME_MAX \<longrightarrow> cache_agrees s1" by blast+
  let ?g = "sql_insert_block (uint (se_ts_ms e div 1000)) (se_height e) (se_hash e)
             (if i \<ge> 0 then Some i else None) (text_or_null (se_address e)) (sats_or_null (se_reward e))
             (sats_or_null (se_fee e)) (store_block_status_text (se_status e)) (text_or_null (se_reason e)) (se_window e)"
  obtain q s2 where s2: "sql_step io ?g s1 = (q, s2)" by fastforce
  have okp: "store_ok ?p" by (rule process_block_ok [OF assms(2)])
  from s2 assms(1) show ?thesis
  proof (cases rule: sql_step_cases)
    case (ok x d)
    have d: "dbase ?p = d" "worker_cache ?p = worker_cache s1" "pg_errors ?p = pg_errors s1" 
      unfolding process_block_def Let_def s1 by (simp_all add: s2 ok(1,3))
    note w = insert_block_landed [OF ok(2)]
    obtain rows where rows: "blocks d = blocks (dbase s1) @ rows" "rows = [] \<or> (\<exists>row. rows = [row] \<and> block_data row = event_block e \<and> se_window e \<noteq> NaN)"
      using w by (auto simp: event_block_def)
    have nk: "names_kept (dbase s) d" using r(1) names_kept_trans names_kept_workers w by blast
    have dd: "db_ok d" "db_ok (dbase s)" using okp d assms(2) by (simp_all add: store_ok_def)
    have "subseq (map block_data rows) (map event_block (block_events [e]))" using rows(2) assms(3) by (auto simp: block_events_def)
    then have "landed [e] fs (dbase s) d" "booked fs (dbase s) d" if "fs = [e] \<or> fs = []" for fs
      using that w r(1) rows(1) balance_kept [OF nk dd(2,1)] assms(3) by (auto simp: landed_def booked_def accrued_def events_defs)
    then show ?thesis using okp nk r cache_agrees_kept [of s1 ?p] names_kept_workers [of d "dbase s1"] w
      by (auto simp: effect_def d Let_def)
  next
    case no
    have "?p = count_error s2" unfolding process_block_def Let_def s1 by (simp add: s2 no(1))
    then have d: "dbase ?p = dbase s1" "worker_cache ?p = worker_cache s1" "pg_errors ?p = pg_errors s1 + 1" by (simp_all add: no(2) count_error_def)
    have "effect e s ?p" using r assms(2) okp by (intro effect_refused) (auto simp: d cache_agrees_def)
    moreover have "?g (dbase s1) \<noteq> None" if "\<forall>n. io n = Done" using that r(3) by (auto simp: sql_insert_block_def Let_def)
    ultimately show ?thesis using no(3) by auto
  qed
qed

lemma event_effect:
  assumes "no_auto_rollback io" and "store_ok s"
  shows "effect e s (process_event io e s) \<and>
    ((\<forall>n. io n = Done) \<and> se_difficulty e \<noteq> NaN \<and> se_rate e \<noteq> NaN \<longrightarrow> pg_errors (process_event io e s) = pg_errors s)"
proof -
  have "effect e s s" if "se_kind e \<noteq> EV_SHARE" "se_kind e \<noteq> EV_CREDIT" "se_kind e \<noteq> EV_REJECT" "se_kind e \<noteq> EV_BLOCK"
    using that assms(2) by (auto simp: effect_def landed_def booked_def share_events_def credit_events_def reject_events_def block_events_def)
  then show ?thesis using share_effect credit_effect reject_effect block_effect assms by (simp add: process_event_def)
qed

text \<open>A whole batch: what was written and how many errors were counted.\<close>

lemma fold_effect:
  assumes "no_auto_rollback io"
  shows "store_ok s \<Longrightarrow> landed es (written io es s) (dbase s) (dbase (fold (process_event io) es s)) \<and> subseq (written io es s) es \<and>
    (\<exists>n. pg_errors (fold (process_event io) es s) = pg_errors s + word_of_nat n \<and> length es \<le> length (written io es s) + n \<and> n + 2 * length (written io es s) \<le> 2 * length es)"
proof (induction es arbitrary: s)
  case Nil
  then show ?case by (simp add: landed_def)
next
  case (Cons e es)
  let ?p = "process_event io e s" and ?f = "if pg_errors (process_event io e s) = pg_errors s then [e] else []"
  have e: "store_ok ?p" "landed [e] ?f (dbase s) (dbase ?p)" "pg_errors ?p = pg_errors s \<or> pg_errors ?p = pg_errors s + 1 \<or> pg_errors ?p = pg_errors s + 2"
    using event_effect [OF assms Cons.prems, of e] by (auto simp: effect_def Let_def)
  note ih = Cons.IH [OF e(1)]
  have "landed ([e] @ es) (?f @ written io es ?p) (dbase s) (dbase (fold (process_event io) es ?p))" using landed_trans [OF e(2)] ih by blast
  moreover have "subseq (?f @ written io es ?p) (e # es)" using ih by auto
  moreover obtain n where n: "pg_errors (fold (process_event io) es ?p) = pg_errors ?p + word_of_nat n" "length es \<le> length (written io es ?p) + n"
    "n + 2 * length (written io es ?p) \<le> 2 * length es" using ih by blast
  have "\<exists>k. pg_errors ?p = pg_errors s + word_of_nat k \<and> (k = 0 \<longleftrightarrow> ?f = [e]) \<and> k \<le> 2"
    using e(3) by (elim disjE) (rule exI [of _ 0], simp, rule exI [of _ 1], simp, rule exI [of _ 2], simp)
  then obtain k where k: "pg_errors ?p = pg_errors s + word_of_nat k" "k = 0 \<longleftrightarrow> ?f = [e]" "k \<le> 2" by blast
  have "pg_errors (fold (process_event io) es ?p) = pg_errors s + word_of_nat (k + n)" using n(1) k(1) by simp
  moreover have "length (e # es) \<le> length (?f @ written io es ?p) + (k + n)" "k + n + 2 * length (?f @ written io es ?p) \<le> 2 * length (e # es)" using n k by auto
  ultimately show ?case by (simp only: written.simps Let_def fold_simps append_Cons append_Nil) blast
qed

lemma fold_booked:
  assumes "no_auto_rollback io"
  shows "store_ok s \<Longrightarrow> cache_agrees s \<Longrightarrow> \<forall>e \<in> set es. length (se_worker e) < WORKER_NAME_MAX \<Longrightarrow>
    cache_agrees (fold (process_event io) es s) \<and> names_kept (dbase s) (dbase (fold (process_event io) es s)) \<and>
    booked (written io es s) (dbase s) (dbase (fold (process_event io) es s))"
proof (induction es arbitrary: s)
  case Nil
  then show ?case by (simp add: booked_def)
next
  case (Cons e es)
  let ?p = "process_event io e s" and ?f = "if pg_errors (process_event io e s) = pg_errors s then [e] else []"
  have e: "store_ok ?p" "cache_agrees ?p" "names_kept (dbase s) (dbase ?p)" "booked ?f (dbase s) (dbase ?p)"
    using event_effect [OF assms Cons.prems(1), of e] Cons.prems(2,3) by (auto simp: effect_def Let_def)
  have ih: "cache_agrees (fold (process_event io) es ?p)" "names_kept (dbase ?p) (dbase (fold (process_event io) es ?p))"
    "booked (written io es ?p) (dbase ?p) (dbase (fold (process_event io) es ?p))" using Cons.IH [OF e(1,2)] Cons.prems(3) by simp_all
  have "db_ok (dbase ?p)" "db_ok (dbase (fold (process_event io) es ?p))" using e(1) fold_process_ok [OF e(1)] by (simp_all add: store_ok_def)
  from booked_trans [OF e(4) ih(3,2) this] names_kept_trans [OF e(3) ih(2)] ih(1) show ?case by (simp add: Let_def)
qed

lemma written_all:
  assumes "\<forall>n. io n = Done"
  shows "store_ok s \<Longrightarrow> \<forall>e \<in> set es. se_difficulty e \<noteq> NaN \<and> se_rate e \<noteq> NaN \<Longrightarrow> written io es s = es"
proof (induction es arbitrary: s)
  case (Cons e es)
  have "no_auto_rollback io" using assms by (simp add: no_auto_rollback_def)
  then have "pg_errors (process_event io e s) = pg_errors s" using event_effect [OF _ Cons.prems(1), of io e] assms Cons.prems(2) by simp
  then show ?case using Cons process_event_ok [OF Cons.prems(1)] by simp
qed simp

section \<open>What the store guarantees\<close>

text \<open>
  C12: producers and the writer share a first-in first-out queue: however they interleave, what producers
  were told is queued is, in order, the batches that left the writer, the batch it is landing and the
  contents of the ring; the ring never overflows; every event of a batch that could not be committed is
  counted as lost; and when a flush returns, every event queued before it has left the writer.
\<close>

theorem store_fifo:
  assumes "store_run io s w acc bs" and "length acc < 2 ^ 64"
  shows "acc = handled bs @ in_flight w @ ring_contents s \<and> length (ring_contents s) \<le> ring_cap s \<and>
    unat (events_lost s) = length (lost bs) \<and> (\<forall>k \<le> length acc. flush_done (word_of_nat k) s \<longrightarrow> k \<le> length (handled bs))"
proof -
  have inv: "ring_ok s" "acc = handled bs @ in_flight w @ ring_contents s" "seq_ok s w acc bs" using store_run_inv [OF assms(1)] by auto
  have u: "unat (word_of_nat k :: u64) = k" if "k \<le> length acc" for k
    using that assms(2) by (simp add: unat_of_nat)
  have "length (lost bs) \<le> length (handled bs)" by (induction bs) (auto simp: lost_def handled_def)
  then have l: "length (lost bs) \<le> length acc" by (simp add: inv(2))
  obtain m where m: "committed_seq s = word_of_nat m" "m \<le> length (handled bs)"
    using inv(3) by (cases w) (auto simp: seq_ok_def)
  have "k \<le> length (handled bs)" if "k \<le> length acc" "flush_done (word_of_nat k) s" for k
    using that m u [of k] u [of m] by (simp add: flush_done_def word_less_nat_alt inv(2))
  then show ?thesis using inv u [OF l] by (simp add: seq_ok_def ring_ok_def)
qed

definition demo_share :: store_event where
  "demo_share = zero_event\<lparr>se_kind := EV_SHARE, se_difficulty := Fin 8, se_worker := ''alice''\<rparr>"

definition demo_store :: store where
  "demo_store = store_open 10 0 4 empty_db"

lemma demo_queued: "\<exists>s. store_run io s Waiting [demo_share] []"
proof -
  have "fst (enqueue demo_share demo_store)" by (simp add: enqueue_def demo_store_def store_open_def ring_cap_def)
  then obtain s where "enqueue demo_share demo_store = (True, s)" by (metis eq_fst_iff)
  from store_run.queued [OF store_run.opened this [unfolded demo_store_def]] show ?thesis by auto
qed

theorem store_fifo_witness: "\<exists>s. store_run (\<lambda>n. Done) s Waiting [demo_share] [] \<and> ring_contents s = [demo_share] \<and> \<not> flush_done 1 s"
proof -
  obtain s where s: "store_run (\<lambda>n. Done) s Waiting [demo_share] []" using demo_queued by blast
  have "ring_contents s = [demo_share]" "\<not> flush_done 1 s"
    using store_fifo [OF s] by (auto simp: handled_def dest!: spec [of _ "1 :: nat"])
  then show ?thesis using s by blast
qed

text \<open>The state after \<open>k\<close> attempts.\<close>

definition attempts :: "sqlite \<Rightarrow> store_event list \<Rightarrow> nat \<Rightarrow> store \<Rightarrow> store" where
  "attempts io es k s = ((\<lambda>t. snd (commit_attempt io es t)) ^^ k) s"

lemma attempts_cases:
  assumes "commit_tries io n es s = (True, s')"
  shows "\<exists>k < n. (\<forall>j < k. \<not> fst (commit_attempt io es (attempts io es j s))) \<and> commit_attempt io es (attempts io es k s) = (True, s')"
  using assms
proof (induction n arbitrary: s)
  case (Suc n)
  obtain b s1 where s1: "commit_attempt io es s = (b, s1)" by fastforce
  have step: "attempts io es (Suc j) s = attempts io es j s1" for j by (simp add: attempts_def funpow_Suc_right s1 del: funpow.simps)
  show ?case
  proof (cases b)
    case True
    then show ?thesis using Suc.prems s1 by (intro exI [of _ 0]) (simp add: attempts_def)
  next
    case False
    then obtain k where "k < n" "\<forall>j < k. \<not> fst (commit_attempt io es (attempts io es j s1))" "commit_attempt io es (attempts io es k s1) = (True, s')"
      using Suc.IH [of s1] Suc.prems s1 by auto
    then show ?thesis using False s1 by (intro exI [of _ "Suc k"]) (auto simp: step less_Suc_eq_0_disj attempts_def [of io es 0])
  qed
qed simp

lemma attempts_kept:
  assumes "no_auto_rollback io" and "saved s = None" and "store_ok s" and "\<forall>j < k. \<not> fst (commit_attempt io es (attempts io es j s))"
  shows "saved (attempts io es k s) = None \<and> store_ok (attempts io es k s) \<and> dbase (attempts io es k s) = dbase s"
  using assms(4)
proof (induction k)
  case 0
  then show ?case using assms by (simp add: attempts_def)
next
  case (Suc k)
  then have ih: "saved (attempts io es k s) = None" "store_ok (attempts io es k s)" "dbase (attempts io es k s) = dbase s" by simp_all
  obtain t where t: "commit_attempt io es (attempts io es k s) = (False, t)" using Suc.prems by (metis lessI prod.collapse)
  have "attempts io es (Suc k) s = t" using t by (simp add: attempts_def)
  then show ?case using commit_attempt_cases(1,2) [OF t assms(1) ih(1)] commit_attempt_ok [OF t ih(2)] ih(3) by simp
qed

text \<open>An attempt that commits.\<close>

lemma attempt_commits:
  assumes "commit_attempt io es s = (True, s')" and "store_ok s"
  obtains s1 where "sql_begin io s = (True, s1)" and "dbase s1 = dbase s" and "worker_cache s1 = worker_cache s" and "pg_errors s1 = pg_errors s" and "store_ok s1"
    and "dbase s' = dbase (fold (process_event io) es s1)" and "worker_cache s' = worker_cache (fold (process_event io) es s1)"
    and "pg_errors s' = pg_errors (fold (process_event io) es s1)"
proof -
  obtain s1 where s1: "sql_begin io s = (True, s1)" using assms(1) by (cases "sql_begin io s") (auto simp: commit_attempt_def split: if_splits)
  obtain s2 where s2: "sql_commit io (fold (process_event io) es s1) = (True, s2)" "s' = s2\<lparr>batches := batches s2 + 1\<rparr>"
    using assms(1) s1 by (cases "sql_commit io (fold (process_event io) es s1)") (auto simp: commit_attempt_def split: if_splits)
  have "dbase s1 = dbase s" "worker_cache s1 = worker_cache s" "pg_errors s1 = pg_errors s" using s1 by (auto simp: sql_begin_def Let_def split: if_splits)
  moreover have "dbase s2 = dbase (fold (process_event io) es s1)" "worker_cache s2 = worker_cache (fold (process_event io) es s1)" "pg_errors s2 = pg_errors (fold (process_event io) es s1)"
    using s2(1) by (auto simp: sql_commit_def Let_def split: if_splits sql_outcome.splits)
  ultimately show ?thesis using that [OF s1] s2(2) sql_begin_ok [OF s1 assms(2)] by simp
qed


lemma demo_agrees: "cache_agrees demo_store \<and> store_ok demo_store \<and> saved demo_store = None"
proof -
  have "cache_lookup (replicate WORKER_CACHE_SLOTS None) n = -1" for n
    using probe_lt [of "replicate WORKER_CACHE_SLOTS None" n] by (auto simp: cache_lookup_eq split: option.splits)
  then show ?thesis by (auto simp: cache_agrees_def wc.agrees_def cache_wf_empty demo_store_def store_open_def store_ok_def)
qed

lemma demo_store_empty: "shares (dbase demo_store) = []" "credits (dbase demo_store) = []" "workers (dbase demo_store) = []" "accrued (dbase demo_store) = 0" "balance (dbase demo_store) n = 0"
  by (simp_all add: demo_store_def store_open_def empty_db_def accrued_def balance_def worker_id_def find_worker_def)

definition demo_reject :: store_event where
  "demo_reject = zero_event\<lparr>se_kind := EV_REJECT, se_reason := ''low difficulty''\<rparr>"

definition demo_credit :: "string \<Rightarrow> int \<Rightarrow> store_event" where
  "demo_credit name v = zero_event\<lparr>se_kind := EV_CREDIT, se_worker := name, se_delta := v\<rparr>"

lemma all_done_commits: "saved s = None \<Longrightarrow> \<exists>s'. commit_attempt (\<lambda>n. Done) es s = (True, s')"
  using fold_process_saved [of "\<lambda>n. Done" es "s\<lparr>calls := calls s + 1, saved := Some (dbase s)\<rparr>"]
  by (simp add: commit_attempt_def sql_begin_def sql_commit_def Let_def no_auto_rollback_def)




lemma process_credit_done:
  assumes "io (calls s) = Done" and "io (calls s + 1) = Done" and "store_ok s"
  shows "accrued (dbase (process_credit io e s)) = accrued (dbase s) + se_delta e \<and> saved (process_credit io e s) = saved s \<and>
    calls (process_credit io e s) = calls s + 2"
proof -
  let ?u = "sql_upsert_worker (se_worker e) (uint (se_ts_ms e div 1000)) (if se_address e \<noteq> [] then Some (se_address e) else None) (dbase s)"
  obtain i d where u: "?u = (i, d)" by fastforce
  have d: "db_ok (dbase s)" using assms(3) by (simp add: store_ok_def)
  note n = upsert_worker_id [OF u d] upsert_worker_names [OF u d] upsert_worker_ok [OF u d]
  obtain s1 where s1: "resolve_worker_id io (se_worker e) (se_address e) (se_ts_ms e) s = (i, s1)" "dbase s1 = d" "saved s1 = saved s" "calls s1 = calls s + 1"
    using n u assms(1) by (auto simp: resolve_worker_id_def sql_step_def Let_def)
  have "sql_upsert_credit i (se_delta e) (uint (se_ts_ms e div 1000)) d \<noteq> None" using n by (simp add: sql_upsert_credit_def)
  then obtain d' where d': "sql_upsert_credit i (se_delta e) (uint (se_ts_ms e div 1000)) d = Some d'" by blast
  have "accrued d' = accrued (dbase s) + se_delta e" using accrued_credit [OF d'] n by (simp add: accrued_def)
  then show ?thesis using n s1 assms(2) d' by (simp add: process_credit_def sql_step_def unit_step_def Let_def)
qed

text \<open>
  C35: the retry of a batch assumes that nothing of the failed attempt was written. SQLite abandons the
  whole transaction on some errors; the writer does not notice, the rest of the batch is written
  statement by statement, the closing \<open>COMMIT\<close> fails for want of a transaction, and the batch is
  replayed: a credit after the failing event is booked twice.
\<close>

theorem batch_replayed_twice:
  assumes "saved s = None" and "store_ok s" and "se_kind r = EV_REJECT" and "se_kind e = EV_CREDIT"
    and "\<forall>n. io n = (if n = calls s + 1 then FailRollback else Done)"
  shows "\<exists>s'. commit_batch io [r, e] s = (True, s') \<and> accrued (dbase s') = accrued (dbase s) + 2 * se_delta e"
proof -
  have rej: "process_event io r t = process_reject io r t" "process_event io e t = process_credit io e t" for t
    using assms(3,4) by (simp_all add: process_event_def EV_SHARE_def EV_REJECT_def EV_BLOCK_def EV_CREDIT_def)
  obtain s1 where s1: "sql_begin io s = (True, s1)" "saved s1 = Some (dbase s)" "dbase s1 = dbase s" "calls s1 = calls s + 1"
    using assms(1,5) by (simp add: sql_begin_def Let_def)
  have s2: "dbase (process_reject io r s1) = dbase s" "saved (process_reject io r s1) = None" "calls (process_reject io r s1) = calls s + 2"
    using s1 assms(5) by (simp_all add: process_reject_def sql_step_def Let_def sql_rollback_def)
  have ok2: "store_ok (process_reject io r s1)" using process_reject_ok sql_begin_ok [OF s1(1) assms(2)] by blast
  note p = process_credit_done [of io "process_reject io r s1" e, OF _ _ ok2]
  define t where "t = process_credit io e (process_reject io r s1)"
  have t: "accrued (dbase t) = accrued (dbase s) + se_delta e" "saved t = None" "calls t = calls s + 4" "store_ok t"
    using p s2 assms(5) process_credit_ok [OF ok2] by (simp_all add: t_def)
  obtain u where u: "commit_attempt io [r, e] s = (False, u)" "dbase u = dbase t" "saved u = None" "calls u = calls s + 5" "store_ok u"
    using s1 t commit_attempt_ok [OF _ assms(2)] by (fastforce simp: commit_attempt_def rej t_def [symmetric] sql_commit_def sql_rollback_def Let_def)
  obtain u1 where u1: "sql_begin io u = (True, u1)" "saved u1 = Some (dbase t)" "dbase u1 = dbase t" "calls u1 = calls s + 6"
    using u assms(5) by (simp add: sql_begin_def Let_def)
  have u2: "accrued (dbase (process_reject io r u1)) = accrued (dbase t)" "saved (process_reject io r u1) = Some (dbase t)" "calls (process_reject io r u1) = calls s + 7"
    using u1 assms(5) by (simp_all add: process_reject_def sql_step_def Let_def sql_insert_reject_def accrued_def)
  have ok3: "store_ok (process_reject io r u1)" using process_reject_ok sql_begin_ok [OF u1(1) u(5)] by blast
  define v where "v = process_credit io e (process_reject io r u1)"
  have v: "accrued (dbase v) = accrued (dbase s) + 2 * se_delta e" "saved v = Some (dbase t)" "calls v = calls s + 9"
    using process_credit_done [of io "process_reject io r u1" e, OF _ _ ok3] u2 t assms(5) by (simp_all add: v_def)
  obtain s' where "commit_attempt io [r, e] u = (True, s')" "dbase s' = dbase v"
    using u1 v assms(5) by (simp add: commit_attempt_def rej v_def [symmetric] sql_commit_def Let_def)
  then show ?thesis using u v by (auto simp: commit_batch_def STORE_COMMIT_ATTEMPTS_def numeral_3_eq_3)
qed

theorem batch_replayed_twice_witness:
  "\<exists>s'. commit_batch (\<lambda>n. if n = 1 then FailRollback else Done) [demo_reject, demo_credit ''alice'' 100] demo_store = (True, s') \<and>
     accrued (dbase s') = 200"
proof -
  have "calls demo_store = 0" "accrued (dbase demo_store) = 0" by (simp_all add: demo_store_def store_open_def empty_db_def accrued_def)
  then show ?thesis
    using batch_replayed_twice [of demo_store demo_reject "demo_credit ''alice'' 100" "\<lambda>n. if n = 1 then FailRollback else Done"] demo_agrees
    by (simp add: demo_reject_def demo_credit_def)
qed

lemma demo_cache:
  defines "c \<equiv> cache_insert (worker_cache demo_store) ''alice'' 1"
  shows "cache_lookup (worker_cache demo_store) ''alice'' = -1" and "cache_lookup c ''alice'' = 1" and "cache_lookup c ''bob'' = -1"
proof -
  have w: "worker_cache demo_store = replicate WORKER_CACHE_SLOTS None" by (simp add: demo_store_def store_open_def)
  have n: "length ''alice'' < WORKER_NAME_MAX" "length ''bob'' < WORKER_NAME_MAX" by (simp_all add: WORKER_NAME_MAX_def)
  have e: "cache_lookup (worker_cache demo_store) m = -1" for m
    using probe_lt [of "replicate WORKER_CACHE_SLOTS None" m] by (auto simp: w cache_lookup_eq split: option.splits)
  then show "cache_lookup (worker_cache demo_store) ''alice'' = -1" by simp
  obtain k where "probe (worker_cache demo_store) ''alice'' = Some k" using probe_empty w by fastforce
  then show "cache_lookup c ''alice'' = 1" using lookup_self cache_wf_empty by (simp add: c_def cache_insert_eq [OF n(1)] w)
  show "cache_lookup c ''bob'' = -1" using wc.store_other [of "worker_cache demo_store" "''alice''" "''bob''" 1] e n cache_wf_empty by (simp add: c_def w)
qed

text \<open>An attempt with one credit, with the upsert answered or refused.\<close>

lemma credit_attempt:
  assumes "saved s = None" and "io (calls s) = Done" and "io (calls s + 1) = Done" and "io (calls s + 2) = Done" and "io (calls s + 3) \<noteq> FailRollback"
    and "sql_upsert_worker name 0 None (dbase s) = (i, d1)" and "sql_upsert_credit i v 0 d1 = Some d2" and "0 \<le> i"
  shows "\<exists>s'. commit_attempt io [demo_credit name v] s = (io (calls s + 3) = Done, s') \<and> saved s' = None \<and> calls s' = calls s + 4 \<and>
    dbase s' = (if io (calls s + 3) = Done then d2 else dbase s) \<and>
    worker_cache s' = (if 0 \<le> cache_lookup (worker_cache s) name then worker_cache s else cache_insert (worker_cache s) name i)"
  using assms
  by (cases "io (calls s + 3)")
    (auto simp: commit_attempt_def sql_begin_def sql_commit_def sql_rollback_def sql_step_def Let_def process_event_def process_credit_def
      resolve_worker_id_def demo_credit_def zero_event_def EV_SHARE_def EV_REJECT_def EV_BLOCK_def EV_CREDIT_def unit_step_def numeral_2_eq_2 numeral_3_eq_3)

lemma credit_attempt_cached:
  assumes "saved s = None" and "io (calls s) = Done" and "io (calls s + 1) = Fail" and "io (calls s + 2) = Done" and "io (calls s + 3) = Done"
    and "cache_lookup (worker_cache s) name = i" and "sql_upsert_credit i v 0 (dbase s) = Some d2" and "0 \<le> i"
  shows "\<exists>s'. commit_attempt io [demo_credit name v] s = (True, s') \<and> dbase s' = d2"
  using assms
  by (auto simp: commit_attempt_def sql_begin_def sql_commit_def sql_rollback_def sql_step_def Let_def process_event_def process_credit_def
      resolve_worker_id_def demo_credit_def zero_event_def EV_SHARE_def EV_REJECT_def EV_BLOCK_def EV_CREDIT_def unit_step_def numeral_2_eq_2 numeral_3_eq_3)

text \<open>
  C36: the cache is not rolled back with the transaction that filled it. After a batch that was lost, the
  id it had assigned goes to the next new worker, and when SQLite then refuses the upsert of the first
  worker the cached id is used: the credit of one miner is booked to another.
\<close>

theorem stale_cache_credits_stranger:
  "\<exists>io s. no_auto_rollback io \<and>
     s = writer_commit io [demo_credit ''alice'' 100] (writer_commit io [demo_credit ''bob'' 1] (writer_commit io [demo_credit ''alice'' 5] demo_store)) \<and>
     worker_id (dbase s) ''alice'' = None \<and> worker_name (dbase s) 1 = Some ''bob'' \<and> map cr_worker (credits (dbase s)) = [1] \<and> accrued (dbase s) = 101"
proof -
  define io where "io = (\<lambda>n :: nat. if n \<in> {3, 7, 11, 17} then Fail else Done)"
  define c0 where "c0 = worker_cache demo_store"
  define c1 where "c1 = cache_insert c0 ''alice'' 1"
  define c2 where "c2 = cache_insert c1 ''bob'' 1"
  have c: "cache_lookup c0 ''alice'' = -1" "cache_lookup c1 ''alice'' = 1" "cache_lookup c1 ''bob'' = -1" "cache_lookup c2 ''alice'' = 1"
    using demo_cache wc.store_other [of c1 "''bob''" "''alice''" 1] wc.store_good [of c0 "''alice''" 1] cache_wf_empty
    by (auto simp: c0_def c1_def c2_def WORKER_NAME_MAX_def demo_store_def store_open_def)
  let ?A = "[demo_credit ''alice'' 5]" and ?B = "[demo_credit ''bob'' 1]" and ?C = "[demo_credit ''alice'' 100]"
  define w where "w n v = empty_db\<lparr>workers := [\<lparr>wk_id = 1, wk_name = n, wk_first_seen = 0, wk_last_seen = 0, wk_payout = None\<rparr>], worker_seq := 1,
      credits := (if v = 0 then [] else [\<lparr>cr_worker = 1, cr_accrued = v, cr_paid = 0, cr_updated = 0\<rparr>])\<rparr>" for n and v :: int
  have up: "sql_upsert_worker n 0 None empty_db = (1, w n 0)" for n
    by (simp add: sql_upsert_worker_def find_worker_def empty_db_def w_def)
  have cr: "v \<noteq> 0 \<Longrightarrow> sql_upsert_credit 1 v 0 (w n 0) = Some (w n v)" "sql_upsert_credit 1 100 0 (w n 1) = Some (w n 101)" for n v
    by (simp_all add: sql_upsert_credit_def worker_ids_def w_def)
  have wb: "worker_id (w ''bob'' 101) ''alice'' = None" "worker_name (w ''bob'' 101) 1 = Some ''bob''" "map cr_worker (credits (w ''bob'' 101)) = [1]" "accrued (w ''bob'' 101) = 101"
    by (simp_all add: worker_id_def worker_name_def find_worker_def w_def accrued_def)
  have d0: "saved demo_store = None" "calls demo_store = 0" "dbase demo_store = empty_db" by (simp_all add: demo_store_def store_open_def)
  obtain s1 where s1: "commit_attempt io ?A demo_store = (False, s1)" "saved s1 = None" "calls s1 = 4" "dbase s1 = empty_db" "worker_cache s1 = c1"
    using credit_attempt [of demo_store io "''alice''" 1 "w ''alice'' 0" 5 "w ''alice'' 5"] d0 up cr c by (auto simp: io_def c1_def c0_def)
  obtain s2 where s2: "commit_attempt io ?A s1 = (False, s2)" "saved s2 = None" "calls s2 = 8" "dbase s2 = empty_db" "worker_cache s2 = c1"
    using credit_attempt [of s1 io "''alice''" 1 "w ''alice'' 0" 5 "w ''alice'' 5"] s1 up cr c by (auto simp: io_def)
  obtain s3 where s3: "commit_attempt io ?A s2 = (False, s3)" "saved s3 = None" "calls s3 = 12" "dbase s3 = empty_db" "worker_cache s3 = c1"
    using credit_attempt [of s2 io "''alice''" 1 "w ''alice'' 0" 5 "w ''alice'' 5"] s2 up cr c by (auto simp: io_def)
  define t1 where "t1 = writer_commit io ?A demo_store"
  have t1: "saved t1 = None" "calls t1 = 12" "dbase t1 = empty_db" "worker_cache t1 = c1"
    using s1 s2 s3 by (simp_all add: t1_def writer_commit_def commit_batch_def STORE_COMMIT_ATTEMPTS_def numeral_3_eq_3)
  define t2 where "t2 = writer_commit io ?B t1"
  obtain s4 where "commit_attempt io ?B t1 = (True, s4)" "saved s4 = None" "calls s4 = 16" "dbase s4 = w ''bob'' 1" "worker_cache s4 = c2"
    using credit_attempt [of t1 io "''bob''" 1 "w ''bob'' 0" 1 "w ''bob'' 1"] t1 up cr c by (auto simp: io_def c2_def)
  then have t2: "saved t2 = None" "calls t2 = 16" "dbase t2 = w ''bob'' 1" "worker_cache t2 = c2"
    by (simp_all add: t2_def writer_commit_def commit_batch_def STORE_COMMIT_ATTEMPTS_def numeral_3_eq_3)
  obtain s5 where "commit_attempt io ?C t2 = (True, s5)" "dbase s5 = w ''bob'' 101"
    using credit_attempt_cached [of t2 io "''alice''" 1 100 "w ''bob'' 101"] t2 cr c by (auto simp: io_def)
  then have E: "dbase (writer_commit io ?C t2) = w ''bob'' 101"
    by (simp add: writer_commit_def commit_batch_def STORE_COMMIT_ATTEMPTS_def numeral_3_eq_3)
  have "worker_id (dbase (writer_commit io ?C t2)) ''alice'' = None" "worker_name (dbase (writer_commit io ?C t2)) 1 = Some ''bob''"
    "map cr_worker (credits (dbase (writer_commit io ?C t2))) = [1]" "accrued (dbase (writer_commit io ?C t2)) = 101"
    unfolding E by (rule wb)+
  moreover have "no_auto_rollback io" by (simp add: no_auto_rollback_def io_def)
  ultimately show ?thesis unfolding t2_def t1_def
    by - (rule exI [of _ io], rule exI [of _ "writer_commit io ?C (writer_commit io ?B (writer_commit io ?A demo_store))"], intro conjI refl; assumption)
qed

text \<open>A flush succeeds although the event it waited for was lost.\<close>

lemma flush_hides_loss: "\<exists>s acc bs. store_run (\<lambda>n. Fail) s Waiting acc bs \<and> acc \<noteq> [] \<and> flush_done (flush_target s) s \<and> handled bs = lost bs"
proof -
  obtain s where s: "store_run (\<lambda>n. Fail) s Waiting [demo_share] []" using demo_queued by blast
  obtain b q s1 where t: "writer_take s = (b, q, s1)" by (metis prod_cases3)
  have r: "ring_contents s = [demo_share]" "ring_ok s" using store_run_inv [OF s] by (auto simp: handled_def)
  have b: "b = [demo_share]" using writer_take_ring [OF t r(2)] r by (auto simp: ring_ok_def Cons_eq_append_conv simp flip: length_ring_contents)
  let ?io = "\<lambda>n :: nat. Fail"
  have "store_run ?io s1 (Landing b q) [demo_share] []" by (rule store_run.taken [OF s t]) (simp add: b)
  from store_run.published [OF store_run.landed [OF this refl]]
  have run: "store_run ?io (writer_publish q (writer_commit ?io b s1)) Waiting [demo_share] [(fst (commit_batch ?io b s1), b)]" by simp
  have f: "\<not> fst (commit_batch ?io b s1)"
    by (simp add: commit_batch_def STORE_COMMIT_ATTEMPTS_def numeral_3_eq_3 commit_attempt_def sql_begin_def Let_def)
  note inv = store_run_inv [OF run]
  have "enqueue_seq (writer_publish q (writer_commit ?io b s1)) = committed_seq (writer_publish q (writer_commit ?io b s1))"
    using inv by (simp add: seq_ok_def handled_def b)
  then have "flush_done (flush_target (writer_publish q (writer_commit ?io b s1))) (writer_publish q (writer_commit ?io b s1))"
    by (simp add: flush_done_def flush_target_def)
  moreover have "handled [(fst (commit_batch ?io b s1), b)] = lost [(fst (commit_batch ?io b s1), b)]" using f by (simp add: handled_def lost_def)
  ultimately show ?thesis using run by blast
qed

end
