(* ===== verification/Ledger.thy ===== *)
theory Ledger
  imports Batches Coinbase
begin

text \<open>
  The block ledger of the event store (\<^verbatim>\<open>src/store.c\<close>): the status of found blocks, their
  confirmation from the observed chain of templates, the PPLNS distribution of matured blocks, the
  window a new template pays, and the queue fractions staged by found blocks and settled by their
  fate.

  A query is a call into SQLite that yields its rows or fails; preparing a statement is a call of
  its own. \<open>SUM\<close> over doubles is a parameter: its value depends on how SQLite rounds.
\<close>

section \<open>Statements and transactions\<close>

definition sql_prepare :: "sqlite \<Rightarrow> store \<Rightarrow> bool \<times> store" where
  "sql_prepare io s = (io (calls s) = Done, s\<lparr>calls := calls s + 1\<rparr>)"

definition sql_query :: "sqlite \<Rightarrow> (db \<Rightarrow> 'a) \<Rightarrow> store \<Rightarrow> 'a option \<times> store" where
  "sql_query io f = sql_step io (\<lambda>d. Some (f d, d))"

definition sql_exec :: "sqlite \<Rightarrow> (db \<Rightarrow> db) \<Rightarrow> store \<Rightarrow> bool \<times> store" where
  "sql_exec io f s = (let (r, s) = sql_step io (\<lambda>d. Some ((), f d)) s in (r \<noteq> None, s))"

definition txn_begin :: "sqlite \<Rightarrow> store \<Rightarrow> bool \<times> store" where
  "txn_begin = sql_begin"

definition txn_commit :: "sqlite \<Rightarrow> store \<Rightarrow> bool \<times> store" where
  "txn_commit io s = (let (ok, s) = sql_commit io s in if ok then (True, s) else (False, count_error (sql_rollback s)))"

definition txn_rollback :: "store \<Rightarrow> store" where
  "txn_rollback = sql_rollback"

section \<open>Block status\<close>

type_synonym candidate = "string \<times> int"

text \<open>\<open>ORDER BY height DESC, id DESC\<close> on rows in the order of their ids.\<close>

definition unresolved :: "int \<Rightarrow> int \<Rightarrow> db \<Rightarrow> block_row list" where
  "unresolved tip final_depth d =
     rev (sort_key bk_height (filter (\<lambda>b. (bk_status b = ''pending'' \<or> bk_status b = ''confirmed'') \<and>
        bk_confirmations b < final_depth \<and> bk_height b \<le> tip) (blocks d)))"

definition store_list_unresolved_blocks :: "sqlite \<Rightarrow> int \<Rightarrow> int \<Rightarrow> nat \<Rightarrow> store \<Rightarrow> candidate list option \<times> store" where
  "store_list_unresolved_blocks io tip final_depth cap s =
     (if cap = 0 then (None, s)
      else let (ok, s) = sql_prepare io s in
        if \<not> ok then (None, count_error s)
        else let (r, s) = sql_query io (\<lambda>d. map (\<lambda>b. (c_copy 80 (bk_hash b), bk_height b)) (take cap (unresolved tip final_depth d))) s
             in (Some (case r of None \<Rightarrow> [] | Some cs \<Rightarrow> cs), s))"

definition sql_set_status :: "string \<Rightarrow> string \<Rightarrow> int \<Rightarrow> string option \<Rightarrow> db \<Rightarrow> db" where
  "sql_set_status hash status confs via d =
     d\<lparr>blocks := map (\<lambda>b. if bk_hash b = hash then b\<lparr>bk_status := status, bk_confirmations := confs, bk_checked_via := via\<rparr> else b) (blocks d)\<rparr>"

definition store_set_block_status :: "sqlite \<Rightarrow> string option \<Rightarrow> nat \<Rightarrow> int \<Rightarrow> string option \<Rightarrow> store \<Rightarrow> int \<times> store" where
  "store_set_block_status io hash status confs via s =
     (case hash of
        None \<Rightarrow> (-1, s)
      | Some h \<Rightarrow>
          let (ok, s) = sql_prepare io s in
          if \<not> ok then (-2, count_error s)
          else let (ok, s) = sql_exec io (sql_set_status h (store_block_status_text status) (if confs < 0 then 0 else confs) via) s
               in if ok then (0, s) else (-2, count_error s))"

section \<open>Confirmation from templates\<close>

text \<open>The newest template at the height above a block: the hash it builds on.\<close>

definition observed :: "db \<Rightarrow> block_row \<Rightarrow> string option" where
  "observed d b =
     (case filter (\<lambda>t. tp_height t = bk_height b + 1) (templates d) of [] \<Rightarrow> None | ts \<Rightarrow> Some (tp_prev_hash (last ts)))"

definition resolve_row :: "int \<Rightarrow> db \<Rightarrow> block_row \<Rightarrow> block_row" where
  "resolve_row tip d b =
     (if bk_status b = ''rejected'' then b
      else case observed d b of
        None \<Rightarrow> b
      | Some h \<Rightarrow>
          if h = bk_hash b
          then b\<lparr>bk_status := ''confirmed'', bk_checked_via := Some ''tips'', bk_confirmations := max 0 (tip - bk_height b + 1)\<rparr>
          else b\<lparr>bk_status := ''orphaned'', bk_checked_via := Some ''tips'', bk_confirmations := 0\<rparr>)"

definition impossible_row :: "int \<Rightarrow> block_row \<Rightarrow> block_row" where
  "impossible_row tip b =
     (if bk_status b \<noteq> ''rejected'' \<and> (bk_height b \<le> 0 \<or> tip < bk_height b)
      then b\<lparr>bk_status := ''orphaned'', bk_confirmations := 0, bk_checked_via := Some ''tips''\<rparr> else b)"

definition sql_resolve :: "int \<Rightarrow> db \<Rightarrow> db" where
  "sql_resolve tip d = d\<lparr>blocks := map (resolve_row tip d) (blocks d)\<rparr>"

definition sql_impossible :: "int \<Rightarrow> db \<Rightarrow> db" where
  "sql_impossible tip d = d\<lparr>blocks := map (impossible_row tip) (blocks d)\<rparr>"

definition count_blocks_with_status :: "sqlite \<Rightarrow> string \<Rightarrow> store \<Rightarrow> nat \<times> store" where
  "count_blocks_with_status io status s =
     (let (ok, s) = sql_prepare io s in
      if \<not> ok then (0, s)
      else let (r, s) = sql_query io (\<lambda>d. length (filter (\<lambda>b. bk_status b = status) (blocks d))) s
           in (case r of None \<Rightarrow> 0 | Some n \<Rightarrow> n, s))"

definition prepared_exec :: "sqlite \<Rightarrow> (db \<Rightarrow> db) \<Rightarrow> store \<Rightarrow> bool \<times> bool \<times> store" where
  "prepared_exec io f s =
     (let (p, s) = sql_prepare io s in
      if \<not> p then (False, False, s) else let (ok, s) = sql_exec io f s in (True, ok, s))"

definition store_reconcile_blocks_from_templates :: "sqlite \<Rightarrow> int \<Rightarrow> store \<Rightarrow> int \<times> nat \<times> nat \<times> nat \<times> store" where
  "store_reconcile_blocks_from_templates io tip s =
     (let (p, ok, s) = prepared_exec io (sql_resolve tip) s;
          rc = (if p \<and> ok then 0 else -2);
          (rc, s) = (if tip > 0
             then let (p, ok, s) = prepared_exec io (sql_impossible tip) s in (if p \<and> \<not> ok then -2 else rc, s)
             else (rc, s));
          (confirmed, s) = count_blocks_with_status io ''confirmed'' s;
          (orphaned, s) = count_blocks_with_status io ''orphaned'' s;
          (pending, s) = count_blocks_with_status io ''pending'' s
      in (rc, confirmed, orphaned, pending, if rc \<noteq> 0 then count_error s else s))"

section \<open>One row per hash\<close>

definition first_verdict :: "db \<Rightarrow> string \<Rightarrow> string option" where
  "first_verdict d hash = map_option bk_status (find (\<lambda>b. bk_hash b = hash \<and> bk_status b \<noteq> ''pending'') (blocks d))"

definition sql_promote :: "db \<Rightarrow> db" where
  "sql_promote d =
     d\<lparr>blocks := map (\<lambda>b. if bk_status b = ''pending''
        then (case first_verdict d (bk_hash b) of None \<Rightarrow> b | Some st \<Rightarrow> b\<lparr>bk_status := st\<rparr>) else b) (blocks d)\<rparr>"

text \<open>The rows with the least id of their hash: the first occurrences, as ids grow.\<close>

fun first_rows :: "string set \<Rightarrow> block_row list \<Rightarrow> block_row list" where
  "first_rows seen [] = []"
| "first_rows seen (b # bs) = (if bk_hash b \<in> seen then first_rows seen bs else b # first_rows (insert (bk_hash b) seen) bs)"

definition sql_dedupe :: "db \<Rightarrow> db" where
  "sql_dedupe d = d\<lparr>blocks := first_rows {} (blocks d)\<rparr>"

definition sql_hash_index :: "db \<Rightarrow> (unit \<times> db) option" where
  "sql_hash_index d = (if distinct (map bk_hash (blocks d)) then Some ((), d\<lparr>hash_unique := True\<rparr>) else None)"

definition store_finalize_block_hash_index :: "sqlite \<Rightarrow> store \<Rightarrow> int \<times> store" where
  "store_finalize_block_hash_index io s =
     (let (ok1, s) = sql_exec io sql_promote s;
          (ok2, s) = sql_exec io sql_dedupe s;
          (r, s) = sql_step io sql_hash_index s
      in (if ok1 \<and> ok2 \<and> r \<noteq> None then 0 else -2, s))"

section \<open>The PPLNS distribution\<close>

type_synonym sql_sum = "double list \<Rightarrow> double"

text \<open>The rows whose running total without themselves is below the window, of rows newest first.\<close>

definition window_rows :: "sql_sum \<Rightarrow> double \<Rightarrow> share_row list \<Rightarrow> share_row list" where
  "window_rows agg window rows =
     map (\<lambda>k. rows ! k) (filter (\<lambda>k. d_lt (d_sub (agg (map sh_difficulty (take (k + 1) rows))) (sh_difficulty (rows ! k))) window) [0..<length rows])"

definition anchor_id :: "string \<Rightarrow> db \<Rightarrow> int option" where
  "anchor_id hash d = (case filter (\<lambda>r. sh_hash r = Some hash) (shares d) of [] \<Rightarrow> None | rs \<Rightarrow> Some (sh_id (last rs)))"

definition anchored :: "string \<Rightarrow> db \<Rightarrow> share_row list" where
  "anchored hash d = (case anchor_id hash d of None \<Rightarrow> [] | Some a \<Rightarrow> rev (filter (\<lambda>r. sh_id r \<le> a) (shares d)))"

definition group_sum :: "sql_sum \<Rightarrow> share_row list \<Rightarrow> int \<Rightarrow> double" where
  "group_sum agg rows w = agg (map sh_difficulty (filter (\<lambda>r. sh_worker r = w) rows))"

definition group_ids :: "share_row list \<Rightarrow> int list" where
  "group_ids rows = sort (remdups (map sh_worker rows))"

text \<open>\<open>Q_WINDOW\<close>: each worker with its difficulty and the total.\<close>

definition window_query :: "sql_sum \<Rightarrow> string \<Rightarrow> double \<Rightarrow> db \<Rightarrow> (int \<times> double \<times> double) list" where
  "window_query agg hash window d =
     (let rows = window_rows agg window (anchored hash d)
      in map (\<lambda>w. (w, group_sum agg rows w, agg (map sh_difficulty rows))) (group_ids rows))"

definition due_blocks :: "int \<Rightarrow> db \<Rightarrow> block_row list" where
  "due_blocks maturity d =
     sort_key bk_height (filter (\<lambda>b. bk_status b = ''confirmed'' \<and> bk_distributed b = 0 \<and> maturity \<le> bk_confirmations b \<and> d_gt (bk_window b) (Fin 0)) (blocks d))"

definition sql_mark :: "int \<Rightarrow> db \<Rightarrow> db" where
  "sql_mark i d = d\<lparr>blocks := map (\<lambda>b. if bk_id b = i then b\<lparr>bk_distributed := 1\<rparr> else b) (blocks d)\<rparr>"

definition block_gross :: "block_row \<Rightarrow> int" where
  "block_gross b = (case bk_reward b of None \<Rightarrow> 0 | Some v \<Rightarrow> v) + (case bk_fee b of None \<Rightarrow> 0 | Some v \<Rightarrow> v)"

definition block_payable :: "int \<Rightarrow> int \<Rightarrow> int res" where
  "block_payable fee_bps gross =
     (if 0 < fee_bps \<and> fee_bps \<le> 10000
      then bindR (chk64 (gross * fee_bps)) (\<lambda>p. let fee = p sdiv 10000 in if fee \<ge> COINBASE_DUST_SATS then chk64 (gross - fee) else Ok gross)
      else Ok gross)"

text \<open>The credit loop over the rows of the window; \<open>False\<close> when SQLite refuses a credit.\<close>

fun credit_rows :: "sqlite \<Rightarrow> int \<Rightarrow> int \<Rightarrow> (int \<times> double \<times> double) list \<Rightarrow> nat \<Rightarrow> store \<Rightarrow> (bool \<times> nat \<times> store) res" where
  "credit_rows io now payable [] n s = Ok (True, n, s)"
| "credit_rows io now payable ((w, wd, tot) # rows) n s =
     (if \<not> d_gt tot (Fin 0) \<or> \<not> d_gt wd (Fin 0) then credit_rows io now payable rows n s
      else bindR (prop_share payable wd tot) (\<lambda>amt.
        if amt \<le> 0 then credit_rows io now payable rows n s
        else let (r, s) = sql_step io (unit_step (sql_upsert_credit w amt now)) s in
          if r = None then Ok (False, n, s) else credit_rows io now payable rows (n + 1) s))"

text \<open>One due block with something to pay: \<open>Some n\<close> when it was distributed to \<open>n\<close> workers.\<close>

definition distribute_block :: "sqlite \<Rightarrow> sql_sum \<Rightarrow> int \<Rightarrow> int \<Rightarrow> block_row \<Rightarrow> store \<Rightarrow> (nat option \<times> store) res" where
  "distribute_block io agg now payable b s =
     (let (ok, s) = txn_begin io s in
      if \<not> ok then Ok (None, s)
      else
        let (p1, s) = sql_prepare io s;
            (p2, s) = (if p1 then sql_prepare io s else (False, s));
            (p3, s) = (if p2 then sql_prepare io s else (False, s))
        in if \<not> p3 then Ok (None, txn_rollback s)
        else let (rows, s) = sql_query io (window_query agg (c_copy HASH_STR_MAX (bk_hash b)) (bk_window b)) s in
          bindR (credit_rows io now payable (case rows of None \<Rightarrow> [] | Some rs \<Rightarrow> rs) 0 s) (\<lambda>(ok, n, s).
            if \<not> ok then Ok (None, txn_rollback s)
            else let (ok, s) = sql_exec io (sql_mark (bk_id b)) s in
              if \<not> ok then Ok (None, txn_rollback s)
              else let (ok, s) = txn_commit io s in Ok (if ok then Some n else None, s)))"

fun distribute_loop :: "sqlite \<Rightarrow> sql_sum \<Rightarrow> int \<Rightarrow> int \<Rightarrow> block_row list \<Rightarrow> nat \<Rightarrow> nat \<Rightarrow> store \<Rightarrow> (int \<times> nat \<times> nat \<times> store) res" where
  "distribute_loop io agg now fee_bps [] nb nw s = Ok (int nb, nb, nw, s)"
| "distribute_loop io agg now fee_bps (b # bs) nb nw s =
     bindR (block_payable fee_bps (block_gross b)) (\<lambda>payable.
       if payable \<le> 0 then
         let (p, ok, s) = prepared_exec io (sql_mark (bk_id b)) s in distribute_loop io agg now fee_bps bs nb nw s
       else bindR (distribute_block io agg now payable b s) (\<lambda>(r, s).
         case r of None \<Rightarrow> Ok (-1, nb, nw, s) | Some n \<Rightarrow> distribute_loop io agg now fee_bps bs (nb + 1) (nw + n) s))"

definition store_pplns_distribute :: "sqlite \<Rightarrow> sql_sum \<Rightarrow> int \<Rightarrow> int \<Rightarrow> int \<Rightarrow> store \<Rightarrow> (int \<times> nat \<times> nat \<times> store) res" where
  "store_pplns_distribute io agg now maturity fee_bps s =
     (let (p, s) = sql_prepare io s in
      if \<not> p then Ok (-1, 0, 0, s)
      else let (r, s) = sql_query io (due_blocks (if maturity < 0 then 0 else maturity)) s
           in distribute_loop io agg now fee_bps (case r of None \<Rightarrow> [] | Some bs \<Rightarrow> bs) 0 0 s)"

section \<open>The window of a new template\<close>

definition d_max :: "double \<Rightarrow> double \<Rightarrow> double" where
  "d_max x y = (if d_lt x y then y else x)"

fun d_maximum :: "double list \<Rightarrow> double" where
  "d_maximum [] = NaN"
| "d_maximum [x] = x"
| "d_maximum (x # xs) = d_max x (d_maximum xs)"

text \<open>The running totals of the rows that pass the filter, of rows newest first.\<close>

definition window_totals :: "sql_sum \<Rightarrow> double \<Rightarrow> share_row list \<Rightarrow> double list" where
  "window_totals agg window rows =
     map (\<lambda>k. agg (map sh_difficulty (take (k + 1) rows)))
       (filter (\<lambda>k. d_lt (d_sub (agg (map sh_difficulty (take (k + 1) rows))) (sh_difficulty (rows ! k))) window) [0..<length rows])"

text \<open>\<open>QB\<close>: count, least id, greatest id and greatest running total of the filtered rows of a batch.\<close>

definition boundary_query :: "sql_sum \<Rightarrow> int \<Rightarrow> double \<Rightarrow> db \<Rightarrow> int \<times> int \<times> int \<times> double" where
  "boundary_query agg batch window d =
     (let rows = take (nat batch) (rev (shares d)); ws = window_rows agg window rows; is = map sh_id ws
      in if ws = [] then (0, 0, 0, Fin 0)
         else (int (length ws), Min (set is), Max (set is), d_maximum (window_totals agg window rows)))"

definition INT64_MAX :: int where
  "INT64_MAX = 2 ^ 63 - 1"

text \<open>The walk: \<open>None\<close> when it ended without having covered the window or read the whole table.\<close>

function window_walk :: "sqlite \<Rightarrow> sql_sum \<Rightarrow> double \<Rightarrow> int \<Rightarrow> int \<times> int \<Rightarrow> store \<Rightarrow> (int \<times> int) option \<times> store" where
  "window_walk io agg window batch rng s =
     (let (r, s) = sql_query io (boundary_query agg batch window) s in
      case r of
        None \<Rightarrow> (None, s)
      | Some (got, lo, hi, covered) \<Rightarrow>
          if got = 0 then (Some rng, s)
          else if d_ge covered window then (Some (lo, hi), s)
          else if got < batch then (Some (lo, hi), s)
          else if batch > INT64_MAX div 4 \<or> batch \<le> 0 then (None, s)
          else window_walk io agg window (batch * 4) (lo, hi) s)"
  by pat_completeness auto
termination
  by (relation "measure (\<lambda>(io, agg, window, batch, rng, s). nat (INT64_MAX - batch))") (auto simp: INT64_MAX_def)

declare window_walk.simps [simp del]

record window_entry =
  we_worker :: int
  we_address :: string
  we_difficulty :: double
  we_owed :: double

definition payable_workers :: "db \<Rightarrow> worker_row list" where
  "payable_workers d = filter (\<lambda>w. c_nonempty (wk_payout w)) (workers d)"

text \<open>The payout query over the rows between the two boundaries.\<close>

definition range_rows :: "int \<times> int \<Rightarrow> db \<Rightarrow> share_row list" where
  "range_rows rng d = filter (\<lambda>r. fst rng \<le> sh_id r \<and> sh_id r \<le> snd rng) (shares d)"

definition owed_fraction :: "db \<Rightarrow> int \<Rightarrow> double" where
  "owed_fraction d w = (case find (\<lambda>f. fr_worker f = w) (fractions d) of None \<Rightarrow> Fin 0 | Some f \<Rightarrow> fr_owed f)"

definition entry_before :: "window_entry \<Rightarrow> window_entry \<Rightarrow> bool" where
  "entry_before a b \<longleftrightarrow> d_gt (we_difficulty a) (we_difficulty b) \<or> (\<not> d_gt (we_difficulty b) (we_difficulty a) \<and> we_worker a \<le> we_worker b)"

fun insert_entry :: "window_entry \<Rightarrow> window_entry list \<Rightarrow> window_entry list" where
  "insert_entry e [] = [e]"
| "insert_entry e (f # fs) = (if entry_before e f then e # f # fs else f # insert_entry e fs)"

definition sort_entries :: "window_entry list \<Rightarrow> window_entry list" where
  "sort_entries es = foldr insert_entry es []"

definition payout_of :: "sql_sum \<Rightarrow> share_row list \<Rightarrow> db \<Rightarrow> window_entry list" where
  "payout_of agg rows d =
     sort_entries (filter (\<lambda>e. d_gt (we_difficulty e) (Fin 0))
       (map (\<lambda>w. \<lparr>we_worker = wk_id w, we_address = the (wk_payout w), we_difficulty = group_sum agg rows (wk_id w), we_owed = owed_fraction d (wk_id w)\<rparr>)
          (filter (\<lambda>w. wk_id w \<in> set (map sh_worker rows)) (payable_workers d))))"

definition payout_query :: "sql_sum \<Rightarrow> int \<times> int \<Rightarrow> db \<Rightarrow> window_entry list" where
  "payout_query agg rng d = payout_of agg (range_rows rng d) d"

definition store_pplns_window :: "sqlite \<Rightarrow> sql_sum \<Rightarrow> double \<Rightarrow> nat \<Rightarrow> store \<Rightarrow> (window_entry list \<times> double \<times> bool) option \<times> store" where
  "store_pplns_window io agg window cap s =
     (if cap = 0 \<or> \<not> d_gt window (Fin 0) then (None, s)
      else let (p, s) = sql_prepare io s in
        if \<not> p then (None, count_error s)
        else let (r, s) = window_walk io agg window 4096 (0, INT64_MAX) s in
          case r of
            None \<Rightarrow> (None, count_error s)
          | Some rng \<Rightarrow>
              let (p, s) = sql_prepare io s in
              if \<not> p then (None, count_error s)
              else let (rows, s) = sql_query io (payout_query agg rng) s;
                       es = (case rows of None \<Rightarrow> [] | Some es \<Rightarrow> es);
                       out = map (\<lambda>e. e\<lparr>we_address := c_copy 128 (we_address e)\<rparr>) (take cap es)
                   in (Some (out, foldl d_add (Fin 0) (map we_difficulty out), cap < length es), s))"

section \<open>Queue fractions\<close>

definition stage_tolerance :: double where
  "stage_tolerance = d_round (1 / 10 ^ 9)"

definition writable :: "(int \<times> double) list \<Rightarrow> (int \<times> double) list" where
  "writable deltas = filter (\<lambda>(w, v). 0 < w) deltas"

definition stage_sum :: "(int \<times> double) list \<Rightarrow> double" where
  "stage_sum deltas = foldl d_add (Fin 0) (map snd (writable deltas))"

definition sql_stage :: "string \<Rightarrow> int \<Rightarrow> double \<Rightarrow> db \<Rightarrow> db" where
  "sql_stage hash w v d =
     (if \<exists>r \<in> set (pending d). pf_hash r = hash \<and> pf_worker r = w
      then d\<lparr>pending := map (\<lambda>r. if pf_hash r = hash \<and> pf_worker r = w then r\<lparr>pf_delta := v\<rparr> else r) (pending d)\<rparr>
      else d\<lparr>pending := pending d @ [\<lparr>pf_hash = hash, pf_worker = w, pf_delta = v\<rparr>]\<rparr>)"

fun stage_rows :: "sqlite \<Rightarrow> string \<Rightarrow> (int \<times> double) list \<Rightarrow> store \<Rightarrow> bool \<times> store" where
  "stage_rows io hash [] s = (True, s)"
| "stage_rows io hash ((w, v) # ds) s =
     (let (ok, s) = sql_exec io (sql_stage hash w v) s in if ok then stage_rows io hash ds s else (False, s))"

definition store_stage_block_fractions :: "sqlite \<Rightarrow> string option \<Rightarrow> (int \<times> double) list \<Rightarrow> store \<Rightarrow> int \<times> store" where
  "store_stage_block_fractions io hash deltas s =
     (if \<not> c_nonempty hash then (-1, s)
      else if writable deltas = [] then (0, s)
      else if d_gt (stage_sum deltas) stage_tolerance \<or> d_lt (stage_sum deltas) (d_neg stage_tolerance) then (-1, s)
      else let (ok, s) = txn_begin io s in
        if \<not> ok then (-1, s)
        else let (p, s) = sql_prepare io s in
          if \<not> p then (-2, count_error (txn_rollback s))
          else let (ok, s) = stage_rows io (the hash) (writable deltas) s in
            if \<not> ok then (-2, count_error (txn_rollback s))
            else let (ok, s) = txn_commit io s in (if ok then int (length (writable deltas)) else -2, s))"

text \<open>\<open>ONE_HASH\<close>: the staged hashes with the status of their block, each pair once.\<close>

definition settle_query :: "db \<Rightarrow> (string \<times> string) list" where
  "settle_query d =
     take 64 (remdups (concat (map (\<lambda>p. map (\<lambda>b. (pf_hash p, bk_status b))
        (filter (\<lambda>b. bk_hash b = pf_hash p \<and> (bk_status b = ''confirmed'' \<or> bk_status b = ''orphaned'')) (blocks d))) (pending d))))"

definition sql_apply_one :: "int \<Rightarrow> pending_row \<Rightarrow> db \<Rightarrow> db option" where
  "sql_apply_one now p d =
     (if pf_worker p \<notin> set (worker_ids d) then None
      else if pf_worker p \<in> set (map fr_worker (fractions d)) then
        Some (d\<lparr>fractions := map (\<lambda>f. if fr_worker f = pf_worker p then f\<lparr>fr_owed := d_add (fr_owed f) (pf_delta p), fr_updated := now\<rparr> else f) (fractions d)\<rparr>)
      else Some (d\<lparr>fractions := fractions d @ [\<lparr>fr_worker = pf_worker p, fr_owed = pf_delta p, fr_updated = now\<rparr>]\<rparr>))"

fun apply_rows :: "int \<Rightarrow> pending_row list \<Rightarrow> db \<Rightarrow> db option" where
  "apply_rows now [] d = Some d"
| "apply_rows now (p # ps) d = (case sql_apply_one now p d of None \<Rightarrow> None | Some d' \<Rightarrow> apply_rows now ps d')"

definition sql_apply :: "int \<Rightarrow> string \<Rightarrow> db \<Rightarrow> db option" where
  "sql_apply now hash d = apply_rows now (filter (\<lambda>p. pf_hash p = hash) (pending d)) d"

definition sql_drop :: "string \<Rightarrow> db \<Rightarrow> db" where
  "sql_drop hash d = d\<lparr>pending := filter (\<lambda>p. pf_hash p \<noteq> hash) (pending d)\<rparr>"

text \<open>The loop over the hashes: applied and discarded blocks, \<open>None\<close> when SQLite refuses a statement.\<close>

definition settle_apply :: "sqlite \<Rightarrow> int \<Rightarrow> string \<Rightarrow> bool \<Rightarrow> store \<Rightarrow> bool \<times> store" where
  "settle_apply io now h conf s =
     (if conf
      then let (p, s) = sql_prepare io s in
           if p then let (r, s) = sql_step io (unit_step (sql_apply now h)) s in (r \<noteq> None, s) else (False, s)
      else (True, s))"

fun settle_rows :: "sqlite \<Rightarrow> int \<Rightarrow> (string \<times> string) list \<Rightarrow> nat \<Rightarrow> nat \<Rightarrow> store \<Rightarrow> (nat \<times> nat) option \<times> store" where
  "settle_rows io now [] a x s = (Some (a, x), s)"
| "settle_rows io now ((h, st) # hs) a x s =
     (let conf = (st = ''confirmed'');
          (ok, s) = settle_apply io now (c_copy 80 h) conf s
      in if \<not> ok then (None, s)
         else let (p, s) = sql_prepare io s in
           if \<not> p then (None, s)
           else let (ok, s) = sql_exec io (sql_drop (c_copy 80 h)) s in
             if \<not> ok then (None, s)
             else settle_rows io now hs (if conf then a + 1 else a) (if conf then x else x + 1) s)"

definition store_settle_block_fractions :: "sqlite \<Rightarrow> int \<Rightarrow> store \<Rightarrow> int \<times> nat \<times> nat \<times> store" where
  "store_settle_block_fractions io now s =
     (let (p, s) = sql_prepare io s in
      if \<not> p then (-2, 0, 0, count_error s)
      else let (r, s) = sql_query io (\<lambda>d. pending d \<noteq> []) s in
        if r \<noteq> Some True then (0, 0, 0, s)
        else let (ok, s) = txn_begin io s in
          if \<not> ok then (-1, 0, 0, s)
          else let (p, s) = sql_prepare io s in
            if \<not> p then (-2, 0, 0, txn_rollback s)
            else let (hs, s) = sql_query io settle_query s;
                     (r, s) = settle_rows io now (case hs of None \<Rightarrow> [] | Some l \<Rightarrow> l) 0 0 s
                 in case r of
                      None \<Rightarrow> (-2, 0, 0, count_error (txn_rollback s))
                    | Some (a, x) \<Rightarrow>
                        let (ok, s) = txn_commit io s in if ok then (0, a, x, s) else (-2, 0, 0, s))"

section \<open>What the statements do\<close>

lemma query_done: "io (calls s) = Done \<Longrightarrow> sql_query io f s = (Some (f (dbase s)), s\<lparr>calls := calls s + 1\<rparr>)"
  by (simp add: sql_query_def sql_step_def Let_def)

lemma sql_prepare_simps [simp]:
  "dbase (snd (sql_prepare io s)) = dbase s" "saved (snd (sql_prepare io s)) = saved s" "store_ok (snd (sql_prepare io s)) = store_ok s"
  by (simp_all add: sql_prepare_def)

lemma sql_query_kept:
  "sql_query io f s = (r, s') \<Longrightarrow> no_auto_rollback io \<Longrightarrow> dbase s' = dbase s \<and> saved s' = saved s \<and> store_ok s' = store_ok s \<and> (r = None \<or> r = Some (f (dbase s))) \<and>
     (io (calls s) = Done \<longrightarrow> r = Some (f (dbase s)))"
  unfolding sql_query_def by (erule sql_step_cases) (auto simp: store_ok_def)

lemma sql_exec_cases:
  assumes "sql_exec io f s = (ok, s')" and "no_auto_rollback io"
  shows "saved s' = saved s \<and> dbase s' = (if ok then f (dbase s) else dbase s) \<and> (io (calls s) = Done \<longrightarrow> ok)"
  using assms by (auto simp: sql_exec_def sql_step_def Let_def no_auto_rollback_def split: sql_outcome.splits)

lemma prepared_exec_cases:
  assumes "prepared_exec io f s = (p, ok, s')" and "no_auto_rollback io"
  shows "saved s' = saved s \<and> dbase s' = (if ok then f (dbase s) else dbase s) \<and> ((\<forall>n. io n = Done) \<longrightarrow> p \<and> ok) \<and> (ok \<longrightarrow> p)"
proof -
  obtain ok1 s1 where e: "sql_exec io f (s\<lparr>calls := Suc (calls s)\<rparr>) = (ok1, s1)" by fastforce
  show ?thesis using assms(1) sql_exec_cases [OF e assms(2)] by (auto simp: prepared_exec_def sql_prepare_def e split: if_splits)
qed

end
