(* ===== verification/Windows.thy ===== *)
theory Windows
  imports Ledger
begin

text \<open>
  The window a new template pays (\<^verbatim>\<open>store_pplns_window\<close>): the walk over growing batches ends, and
  finds the rows of a running total over the whole table.
\<close>

section \<open>Exact sums\<close>

text \<open>
  Difficulties on a common binary grid whose total keeps within 53 bits: then no partial sum needs
  rounding, and the sum SQLite computes is the sum.
\<close>

definition grid_value :: "nat \<Rightarrow> int \<Rightarrow> rat" where
  "grid_value g n = of_int n / 2 ^ g"

definition exact_sum :: "sql_sum \<Rightarrow> bool" where
  "exact_sum agg \<longleftrightarrow> (\<forall>g ns. g \<le> 1000 \<longrightarrow> (\<forall>n \<in> set ns. 0 \<le> n) \<longrightarrow> sum_list ns < 2 ^ 53 \<longrightarrow>
     agg (map (\<lambda>n. Fin (grid_value g n)) ns) = Fin (grid_value g (sum_list ns)))"

definition on_grid :: "nat \<Rightarrow> share_row list \<Rightarrow> int list \<Rightarrow> bool" where
  "on_grid g rows ns \<longleftrightarrow> g \<le> 1000 \<and> map sh_difficulty rows = map (\<lambda>n. Fin (grid_value g n)) ns \<and> (\<forall>n \<in> set ns. 0 \<le> n) \<and> sum_list ns < 2 ^ 53"

lemma sum_list_take_le: "\<forall>n \<in> set ns. (0 :: int) \<le> n \<Longrightarrow> sum_list (take k ns) \<le> sum_list ns"
proof -
  assume "\<forall>n \<in> set ns. (0 :: int) \<le> n"
  then have "0 \<le> sum_list (drop k ns)" by (intro sum_list_nonneg) (auto dest: in_set_dropD)
  then show ?thesis using sum_list_append [of "take k ns" "drop k ns"] by simp
qed

lemma sum_list_take_mono: "\<forall>n \<in> set ns. (0 :: int) \<le> n \<Longrightarrow> i \<le> j \<Longrightarrow> sum_list (take i ns) \<le> sum_list (take j ns)"
  using sum_list_take_le [of "take j ns" i] by (auto simp: min_def dest: in_set_takeD)

lemma on_grid_length: "on_grid g rows ns \<Longrightarrow> length ns = length rows"
  by (metis length_map on_grid_def)

lemma on_grid_take: "on_grid g rows ns \<Longrightarrow> on_grid g (take k rows) (take k ns)"
  using sum_list_take_le [of ns k] by (auto simp: on_grid_def dest: in_set_takeD simp flip: take_map)

lemma grid_prefix:
  assumes "exact_sum agg" and "on_grid g rows ns"
  shows "agg (map sh_difficulty (take k rows)) = Fin (grid_value g (sum_list (take k ns)))"
proof -
  have "on_grid g (take k rows) (take k ns)" by (rule on_grid_take [OF assms(2)])
  then show ?thesis using assms(1) by (auto simp: on_grid_def exact_sum_def)
qed

text \<open>The filter of the window is a cut: row \<open>k\<close> passes when the rows before it have not filled the window.\<close>

lemma grid_filter:
  assumes "exact_sum agg" and "on_grid g rows ns" and "k < length rows"
  shows "d_sub (agg (map sh_difficulty (take (k + 1) rows))) (sh_difficulty (rows ! k)) = Fin (grid_value g (sum_list (take k ns)))"
proof -
  have l: "k < length ns" using assms(2,3) on_grid_length by metis
  have "map sh_difficulty rows ! k = Fin (grid_value g (ns ! k))" using assms(2) l by (simp add: on_grid_def)
  then have r: "sh_difficulty (rows ! k) = Fin (grid_value g (ns ! k))" using assms(3) by simp
  have s: "sum_list (take (k + 1) ns) = sum_list (take k ns) + ns ! k" using l by (simp add: take_Suc_conv_app_nth)
  have n: "0 \<le> sum_list (take k ns)" "sum_list (take k ns) < 2 ^ 53" "g \<le> 1000"
    using assms(2) sum_list_take_le [of ns k] by (auto simp: on_grid_def intro!: sum_list_nonneg dest: in_set_takeD)
  have "d_sub (Fin (grid_value g (sum_list (take (k + 1) ns)))) (Fin (grid_value g (ns ! k))) = d_round (grid_value g (sum_list (take k ns)))"
    unfolding s by (simp add: d_sub_def grid_value_def add_divide_distrib)
  also have "\<dots> = Fin (grid_value g (sum_list (take k ns)))" unfolding grid_value_def by (rule d_round_dyadic [OF n])
  finally show ?thesis using grid_prefix [OF assms(1,2)] r by simp
qed

text \<open>How many of the newest rows the window holds.\<close>

definition window_len :: "nat \<Rightarrow> double \<Rightarrow> int list \<Rightarrow> nat" where
  "window_len g window ns = length (takeWhile (\<lambda>k. d_lt (Fin (grid_value g (sum_list (take k ns)))) window) [0..<length ns])"

lemma d_lt_mono: "d_lt (Fin b) w \<Longrightarrow> a \<le> b \<Longrightarrow> d_lt (Fin a) w"
  by (cases w) auto

lemma grid_value_mono: "a \<le> b \<Longrightarrow> grid_value g a \<le> grid_value g b"
  by (simp add: grid_value_def divide_right_mono)

lemma filter_upt_prefix:
  assumes "\<And>i j. i \<le> j \<Longrightarrow> j < n \<Longrightarrow> P j \<Longrightarrow> P i"
  shows "filter P [0..<n] = [0..<length (takeWhile P [0..<n])]"
proof -
  define m where "m = length (takeWhile P [0..<n])"
  have m: "m \<le> n" using length_takeWhile_le [of P "[0..<n]"] by (simp add: m_def)
  have tw: "takeWhile P [0..<n] = [0..<m]" using takeWhile_eq_take [of P "[0..<n]"] m by (simp add: m_def take_upt)
  have lt: "P i" if "i < m" for i using that tw by (metis atLeastLessThan_iff set_takeWhileD set_upt zero_le)
  have ge: "\<not> P i" if "m \<le> i" "i < n" for i
  proof
    assume "P i"
    then have "P m" using assms [of m i] that by simp
    moreover have "\<not> P ([0..<n] ! m)" using nth_length_takeWhile [of P "[0..<n]"] that by (simp add: m_def)
    ultimately show False using that by simp
  qed
  have "[0..<n] = [0..<m] @ [m..<n]" using m by (metis le_add_diff_inverse upt_add_eq_append zero_le)
  then have "filter P [0..<n] = filter P [0..<m] @ filter P [m..<n]" by (metis filter_append)
  also have "filter P [0..<m] = [0..<m]" using lt by (simp add: filter_id_conv)
  also have "filter P [m..<n] = []" using ge by (auto simp: filter_empty_conv)
  finally show ?thesis by (simp add: m_def)
qed

lemma window_filter:
  assumes "exact_sum agg" and "on_grid g rows ns"
  shows "filter (\<lambda>k. d_lt (d_sub (agg (map sh_difficulty (take (k + 1) rows))) (sh_difficulty (rows ! k))) window) [0..<length rows] =
    [0..<window_len g window ns]"
proof -
  have "filter (\<lambda>k. d_lt (d_sub (agg (map sh_difficulty (take (k + 1) rows))) (sh_difficulty (rows ! k))) window) [0..<length rows] =
      filter (\<lambda>k. d_lt (Fin (grid_value g (sum_list (take k ns)))) window) [0..<length ns]"
    using grid_filter [OF assms] on_grid_length [OF assms(2)] by (intro filter_cong) auto
  also have "\<dots> = [0..<window_len g window ns]" unfolding window_len_def
  proof (rule filter_upt_prefix)
    fix i j assume "i \<le> j" "d_lt (Fin (grid_value g (sum_list (take j ns)))) window"
    then show "d_lt (Fin (grid_value g (sum_list (take i ns)))) window"
      using sum_list_take_mono [of ns i j] assms(2) by (auto simp: on_grid_def intro: d_lt_mono grid_value_mono)
  qed
  finally show ?thesis .
qed

lemma window_len_le: "window_len g window ns \<le> length ns"
  unfolding window_len_def using length_takeWhile_le [of _ "[0..<length ns]"] by (metis length_upt minus_nat.diff_0)

lemma window_rows_take:
  assumes "exact_sum agg" and "on_grid g rows ns"
  shows "window_rows agg window rows = take (window_len g window ns) rows"
proof -
  have "window_len g window ns \<le> length rows" using window_len_le on_grid_length [OF assms(2)] by metis
  then have "map (\<lambda>k. rows ! k) [0..<window_len g window ns] = take (window_len g window ns) rows"
    by (intro nth_equalityI) auto
  then show ?thesis unfolding window_rows_def window_filter [OF assms] .
qed

lemma takeWhile_take: "takeWhile P (take n xs) = take n (takeWhile P xs)"
  by (induction xs arbitrary: n) (auto simp: take_Cons split: nat.splits)

lemma window_len_take: "window_len g window (take b ns) = min (window_len g window ns) b"
proof -
  let ?P = "\<lambda>ns k. d_lt (Fin (grid_value g (sum_list (take k ns)))) window"
  have "window_len g window (take b ns) = length (takeWhile (?P (take b ns)) [0..<min b (length ns)])"
    by (simp add: window_len_def min.commute)
  also have "takeWhile (?P (take b ns)) [0..<min b (length ns)] = takeWhile (?P ns) [0..<min b (length ns)]"
    by (intro takeWhile_cong) (auto simp: min_def split: if_splits)
  also have "[0..<min b (length ns)] = take b [0..<length ns]" by (auto simp: take_upt min_def)
  also have "takeWhile (?P ns) (take b [0..<length ns]) = take b (takeWhile (?P ns) [0..<length ns])"
    by (rule takeWhile_take)
  finally show ?thesis by (simp add: window_len_def min.commute)
qed

lemma d_maximum_sorted: "sorted qs \<Longrightarrow> qs \<noteq> [] \<Longrightarrow> d_maximum (map Fin qs) = Fin (last qs)"
proof (induction qs)
  case (Cons q qs)
  show ?case
  proof (cases qs)
    case Nil
    then show ?thesis by simp
  next
    case (Cons r rs)
    have "d_maximum (map Fin (q # qs)) = d_max (Fin q) (d_maximum (map Fin qs))" by (simp add: local.Cons)
    moreover have "q \<le> last qs" using Cons.prems local.Cons by (simp add: last_in_set)
    ultimately show ?thesis using Cons.IH Cons.prems local.Cons by (auto simp: d_max_def)
  qed
qed simp

lemma window_totals_max:
  assumes "exact_sum agg" and "on_grid g rows ns" and "0 < window_len g window ns"
  shows "d_maximum (window_totals agg window rows) = Fin (grid_value g (sum_list (take (window_len g window ns) ns)))"
proof -
  let ?m = "window_len g window ns"
  define qs where "qs = map (\<lambda>k. grid_value g (sum_list (take (k + 1) ns))) [0..<?m]"
  have "window_totals agg window rows = map Fin qs"
    unfolding window_totals_def window_filter [OF assms(1,2)] qs_def using grid_prefix [OF assms(1,2)] by simp
  moreover have "sorted qs"
    using assms(2) by (auto simp: qs_def sorted_iff_nth_mono on_grid_def intro!: grid_value_mono sum_list_take_mono)
  moreover have "qs \<noteq> []" "last qs = grid_value g (sum_list (take ?m ns))" using assms(3) by (simp_all add: qs_def last_map)
  ultimately show ?thesis using d_maximum_sorted [of qs] by simp
qed

text \<open>What one batch of the walk sees.\<close>

lemma boundary_query_eq:
  fixes d :: db
  assumes "exact_sum agg" and "on_grid g (rev (shares d)) ns" and "0 < window_len g window ns" and "0 < b"
  defines "m \<equiv> min (window_len g window ns) b"
  shows "boundary_query agg (int b) window d =
    (int m, Min (sh_id ` set (take m (rev (shares d)))), Max (sh_id ` set (take m (rev (shares d)))), Fin (grid_value g (sum_list (take m ns))))"
proof -
  let ?rows = "take b (rev (shares d))"
  have g: "on_grid g ?rows (take b ns)" by (rule on_grid_take [OF assms(2)])
  have m: "window_len g window (take b ns) = m" by (simp add: window_len_take m_def)
  have w: "window_rows agg window ?rows = take m (rev (shares d))"
    unfolding window_rows_take [OF assms(1) g] m by (simp add: m_def)
  have l: "m \<le> length (shares d)" using window_len_le [of g window ns] on_grid_length [OF assms(2)] by (simp add: m_def)
  have p: "0 < m" using assms(3,4) by (simp add: m_def)
  have "d_maximum (window_totals agg window ?rows) = Fin (grid_value g (sum_list (take m ns)))"
    using window_totals_max [OF assms(1) g] m p by (simp add: m_def)
  moreover have "take m (rev (shares d)) \<noteq> []" using l p by auto
  ultimately show ?thesis using l by (simp add: boundary_query_def w Let_def min_def)
qed

lemma rev_take_rev: "m \<le> length xs \<Longrightarrow> rev (take m (rev xs)) = drop (length xs - m) xs"
  by (simp add: take_rev)

text \<open>The rows between the ends of the newest \<open>m\<close> rows are those rows.\<close>

lemma range_rows_newest:
  assumes "ids_ok (map sh_id (shares d)) n" and "0 < m" and "m \<le> length (shares d)"
  shows "range_rows (Min (sh_id ` set (take m (rev (shares d)))), Max (sh_id ` set (take m (rev (shares d))))) d = rev (take m (rev (shares d)))"
proof -
  define xs where "xs = shares d"
  define k where "k = length xs - m"
  have s: "sorted_wrt (\<lambda>a b. sh_id a < sh_id b) xs" using assms(1) by (simp add: ids_ok_def xs_def sorted_wrt_map)
  have t: "rev (take m (rev xs)) = drop k xs" unfolding k_def by (rule rev_take_rev) (use assms(3) in \<open>simp add: xs_def\<close>)
  then have st: "set (take m (rev xs)) = set (drop k xs)" by (metis set_rev)
  have ne: "drop k xs \<noteq> []" using assms(2,3) by (simp add: k_def xs_def)
  let ?lo = "Min (sh_id ` set (drop k xs))" and ?hi = "Max (sh_id ` set (drop k xs))"
  have lt: "sh_id a < sh_id b" if "a \<in> set (take k xs)" "b \<in> set (drop k xs)" for a b
  proof -
    have "sorted_wrt (\<lambda>a b. sh_id a < sh_id b) (take k xs @ drop k xs)" using s by simp
    then show ?thesis using that unfolding sorted_wrt_append by blast
  qed
  have "?lo \<in> sh_id ` set (drop k xs)" using ne by (intro Min_in) simp_all
  then obtain b where b: "b \<in> set (drop k xs)" "?lo = sh_id b" by blast
  have "\<not> ?lo \<le> sh_id a" if "a \<in> set (take k xs)" for a using lt [OF that b(1)] by (simp only: b(2) not_le)
  then have "filter (\<lambda>r. ?lo \<le> sh_id r \<and> sh_id r \<le> ?hi) (take k xs) = []" by (simp add: filter_empty_conv)
  moreover have "filter (\<lambda>r. ?lo \<le> sh_id r \<and> sh_id r \<le> ?hi) (drop k xs) = drop k xs"
    by (auto simp: filter_id_conv)
  ultimately have "filter (\<lambda>r. ?lo \<le> sh_id r \<and> sh_id r \<le> ?hi) xs = drop k xs"
    using filter_append [of "\<lambda>r. ?lo \<le> sh_id r \<and> sh_id r \<le> ?hi" "take k xs" "drop k xs"] by (simp only: append_take_drop_id append_Nil)
  then show ?thesis by (simp add: range_rows_def st t flip: xs_def)
qed

text \<open>The walk ends, with exactly the newest rows that fill the window.\<close>

lemma window_walk_result:
  assumes "exact_sum agg" and "on_grid g (rev (shares (dbase s))) ns" and "0 < window_len g window ns"
    and "\<forall>n. io n = Done" and "0 < b" and "int (length (shares (dbase s))) \<le> INT64_MAX div 4"
  defines "newest \<equiv> take (window_len g window ns) (rev (shares (dbase s)))"
  shows "\<exists>s'. window_walk io agg window (int b) r s = (Some (Min (sh_id ` set newest), Max (sh_id ` set newest)), s') \<and> dbase s' = dbase s"
  using assms(2,5,6) unfolding newest_def
proof (induction "nat (INT64_MAX - int b)" arbitrary: b r s rule: less_induct)
  case less
  let ?L = "window_len g window ns"
  define m where "m = min ?L b"
  define s1 where "s1 = s\<lparr>calls := calls s + 1\<rparr>"
  define lo where "lo = Min (sh_id ` set (take m (rev (shares (dbase s)))))"
  define hi where "hi = Max (sh_id ` set (take m (rev (shares (dbase s)))))"
  have q: "sql_query io (boundary_query agg (int b) window) s = (Some (int m, lo, hi, Fin (grid_value g (sum_list (take m ns)))), s1)"
    using assms(4) boundary_query_eq [OF assms(1) less.prems(1) assms(3) less.prems(2)]
    by (simp add: query_done s1_def m_def lo_def hi_def)
  have m0: "0 < m" using assms(3) less.prems(2) by (simp add: m_def)
  have len: "length ns = length (shares (dbase s))" using on_grid_length [OF less.prems(1)] by simp
  show ?case
  proof (cases "d_ge (Fin (grid_value g (sum_list (take m ns)))) window \<or> m < b")
    case True
    have "m = ?L"
    proof (cases "m < b")
      case False
      then have mb: "m = b" "b \<le> ?L" by (auto simp: m_def min_def split: if_splits)
      have "\<not> b < ?L"
      proof
        assume "b < ?L"
        then have "d_lt (Fin (grid_value g (sum_list (take b ns)))) window"
          unfolding window_len_def by (metis (no_types, lifting) nth_mem set_takeWhileD takeWhile_nth nth_upt add_0 length_takeWhile_le length_upt minus_nat.diff_0 order_less_le_trans)
        with True False mb show False by (cases window) (auto simp: d_ge_def)
      qed
      with mb show ?thesis by simp
    qed (auto simp: m_def min_def split: if_splits)
    then show ?thesis using True m0 q by (subst window_walk.simps) (auto simp: s1_def lo_def hi_def)
  next
    case False
    then have mb: "m = b" "b \<le> ?L" by (auto simp: m_def min_def split: if_splits)
    have small: "int b \<le> INT64_MAX div 4"
      using mb window_len_le [of g window ns] len less.prems(3) by linarith
    have "window_walk io agg window (int b) r s = window_walk io agg window (int (b * 4)) (lo, hi) s1"
      using False m0 q small mb by (subst window_walk.simps) (simp add: not_less)
    moreover have "nat (INT64_MAX - int (b * 4)) < nat (INT64_MAX - int b)"
      using small less.prems(2) by (simp add: INT64_MAX_def)
    ultimately show ?thesis using less.hyps [of "b * 4" s1 "(lo, hi)"] less.prems by (simp add: s1_def)
  qed
qed

lemma window_len_pos: "ns \<noteq> [] \<Longrightarrow> d_gt window (Fin 0) \<Longrightarrow> 0 < window_len g window ns"
  by (cases window) (auto simp: window_len_def d_gt_def grid_value_def upt_conv_Cons)

lemma window_walk_empty:
  assumes "shares (dbase s) = []" and "\<forall>n. io n = Done"
  shows "\<exists>s'. window_walk io agg window b r s = (Some r, s') \<and> dbase s' = dbase s"
  using assms by (subst window_walk.simps) (simp add: query_done boundary_query_def window_rows_def)

lemma anchored_newest:
  assumes "ids_ok (map sh_id (shares d)) n" and "shares d \<noteq> []" and "sh_hash (last (shares d)) = Some hash"
  shows "anchored hash d = rev (shares d)"
proof -
  define xs where "xs = shares d"
  have l: "last xs \<in> set (filter (\<lambda>r. sh_hash r = Some hash) xs)" using assms(2,3) by (simp add: xs_def)
  have "filter (\<lambda>r. sh_hash r = Some hash) xs = filter (\<lambda>r. sh_hash r = Some hash) (butlast xs) @ [last xs]"
    using filter_append [of "\<lambda>r. sh_hash r = Some hash" "butlast xs" "[last xs]"] assms(2,3) by (simp add: xs_def)
  then have "last (filter (\<lambda>r. sh_hash r = Some hash) xs) = last xs" by simp
  moreover have "filter (\<lambda>r. sh_hash r = Some hash) xs \<noteq> []" using l by (metis empty_iff list.set(1))
  ultimately have a: "anchor_id hash d = Some (sh_id (last xs))"
    unfolding anchor_id_def xs_def [symmetric] by (cases "filter (\<lambda>r. sh_hash r = Some hash) xs") auto
  have "sh_id r \<le> sh_id (last xs)" if "r \<in> set xs" for r
  proof -
    have "sorted_wrt (\<lambda>a b. sh_id a < sh_id b) (butlast xs @ [last xs])"
      using assms(1,2) by (simp add: ids_ok_def xs_def sorted_wrt_map)
    moreover have "r \<in> set (butlast xs @ [last xs])" using that assms(2) by (simp add: xs_def)
    ultimately show ?thesis by (auto simp: sorted_wrt_append)
  qed
  then show ?thesis by (simp add: anchored_def a xs_def [symmetric] filter_id_conv)
qed

lemma window_walk_spec:
  assumes "exact_sum agg" and "on_grid g (rev (shares (dbase s))) ns" and "\<forall>n. io n = Done" and "store_ok s"
    and "int (length (shares (dbase s))) \<le> INT64_MAX div 4" and "0 < cap" and "d_gt window (Fin 0)"
  shows "\<exists>s' es. store_pplns_window io agg window cap s =
      (Some (map (\<lambda>e. e\<lparr>we_address := c_copy 128 (we_address e)\<rparr>) (take cap es), foldl d_add (Fin 0) (map we_difficulty (take cap es)), cap < length es), s') \<and>
    dbase s' = dbase s \<and> es = payout_of agg (rev (window_rows agg window (rev (shares (dbase s))))) (dbase s) \<and>
    (\<forall>hash. shares (dbase s) \<noteq> [] \<and> sh_hash (last (shares (dbase s))) = Some hash \<longrightarrow>
       window_query agg hash window (dbase s) =
         (let rows = window_rows agg window (rev (shares (dbase s)))
          in map (\<lambda>w. (w, group_sum agg rows w, agg (map sh_difficulty rows))) (group_ids rows)))"
proof -
  let ?d = "dbase s" and ?s1 = "s\<lparr>calls := calls s + 1\<rparr>"
  have ids: "ids_ok (map sh_id (shares ?d)) (share_seq ?d)" using assms(4) by (simp add: store_ok_def db_ok_def)
  have g1: "on_grid g (rev (shares (dbase ?s1))) ns" using assms(2) by simp
  obtain rng s2 where w: "window_walk io agg window 4096 (0, INT64_MAX) ?s1 = (Some rng, s2)" "dbase s2 = ?d"
    "range_rows rng ?d = rev (window_rows agg window (rev (shares ?d)))"
  proof (cases "shares ?d = []")
    case True
    then obtain s2 where "window_walk io agg window 4096 (0, INT64_MAX) ?s1 = (Some (0, INT64_MAX), s2)" "dbase s2 = dbase ?s1"
      using window_walk_empty [of ?s1 io agg window 4096 "(0, INT64_MAX)"] assms(3) by auto
    then show ?thesis using that True by (simp add: range_rows_def window_rows_def)
  next
    case False
    then have "ns \<noteq> []" using on_grid_length [OF assms(2)] by auto
    then have L: "0 < window_len g window ns" using assms(7) window_len_pos by blast
    let ?m = "window_len g window ns"
    have m: "?m \<le> length (shares ?d)" using window_len_le [of g window ns] on_grid_length [OF assms(2)] by simp
    obtain s2 where "window_walk io agg window 4096 (0, INT64_MAX) ?s1 =
        (Some (Min (sh_id ` set (take ?m (rev (shares ?d)))), Max (sh_id ` set (take ?m (rev (shares ?d))))), s2)" "dbase s2 = ?d"
      using window_walk_result [OF assms(1) g1 L assms(3), of 4096 "(0, INT64_MAX)"] assms(5) by auto
    then show ?thesis using that range_rows_newest [OF ids L m] window_rows_take [OF assms(1,2), of window] by simp
  qed
  have "store_pplns_window io agg window cap s =
      (let es = payout_query agg rng ?d in
       (Some (map (\<lambda>e. e\<lparr>we_address := c_copy 128 (we_address e)\<rparr>) (take cap es), foldl d_add (Fin 0) (map we_difficulty (take cap es)), cap < length es),
        s2\<lparr>calls := calls s2 + 2\<rparr>))"
    using assms(3,6,7) w(1,2) by (simp add: store_pplns_window_def sql_prepare_def query_done Let_def comp_def)
  moreover have "window_query agg hash window ?d =
      (let rows = window_rows agg window (rev (shares ?d)) in map (\<lambda>w. (w, group_sum agg rows w, agg (map sh_difficulty rows))) (group_ids rows))"
    if "shares ?d \<noteq> []" "sh_hash (last (shares ?d)) = Some hash" for hash
    using anchored_newest [OF ids that] by (simp add: window_query_def)
  ultimately show ?thesis using w by (auto simp: Let_def payout_query_def)
qed

fun d_val :: "double \<Rightarrow> rat" where
  "d_val (Fin q) = q"
| "d_val _ = 0"

section \<open>Sums that are rounded\<close>

text \<open>The sum SQLite computes over difficulties (compensated summation in doubles) is accurate to one part in
  \<open>2^50\<close>, far from the range where a double overflows.\<close>

definition accurate_sum :: "sql_sum \<Rightarrow> bool" where
  "accurate_sum agg \<longleftrightarrow> (\<forall>qs. (\<forall>q \<in> set qs. 0 \<le> q) \<and> sum_list qs \<le> 2 ^ 1000 \<longrightarrow>
     (\<exists>t. agg (map Fin qs) = Fin t \<and> \<bar>t - sum_list qs\<bar> \<le> sum_list qs / 2 ^ 50))"

definition plain_difficulties :: "db \<Rightarrow> bool" where
  "plain_difficulties d \<longleftrightarrow> (\<forall>r \<in> set (shares d). \<exists>q \<ge> 0. sh_difficulty r = Fin q) \<and>
     sum_list (map (\<lambda>r. d_val (sh_difficulty r)) (shares d)) \<le> 2 ^ 1000"

text \<open>The difficulty of the first \<open>k\<close> rows.\<close>

definition worked :: "share_row list \<Rightarrow> nat \<Rightarrow> rat" where
  "worked rows k = sum_list (map (\<lambda>r. d_val (sh_difficulty r)) (take k rows))"

definition in_window :: "sql_sum \<Rightarrow> double \<Rightarrow> share_row list \<Rightarrow> nat \<Rightarrow> bool" where
  "in_window agg window rows k = d_lt (d_sub (agg (map sh_difficulty (take (k + 1) rows))) (sh_difficulty (rows ! k))) window"

lemma window_rows_in: "window_rows agg window rows = map (\<lambda>k. rows ! k) (filter (in_window agg window rows) [0..<length rows])"
  by (simp add: window_rows_def in_window_def [abs_def])

lemma in_window_take: "k < b \<Longrightarrow> k < length rows \<Longrightarrow> in_window agg window (take b rows) k = in_window agg window rows k"
  by (simp add: in_window_def min_def)

text \<open>A rounded difference against a bound.\<close>

lemma round_below:
  assumes "x \<le> w * (1 - 1 / 2 ^ 41)" and "1 / 2 ^ 50 \<le> w" and "x \<le> 2 ^ 1001"
  shows "d_lt (d_round x) (Fin w)"
proof (cases "0 < x")
  case True
  have t: "d_tiny \<le> w / 2 ^ 50" using d_tiny_small assms(2) by (simp add: field_simps)
  have e: "d_mag x \<le> x + (x / 2 ^ 53 + d_tiny)" using d_mag_error [OF True] by linarith
  have "d_mag x < w" using e t assms(1,2) by (simp add: field_simps)
  moreover have "d_mag x < 2 ^ 1024"
  proof -
    have "d_tiny \<le> 1" using d_tiny_small d_tiny_pos by (simp add: field_simps)
    then have "d_mag x \<le> 2 ^ 1001 + (2 ^ 1001 / 2 ^ 53 + 1)" using e assms(3) by (simp add: field_simps)
    then show ?thesis by (rule le_less_trans) (simp add: field_simps)
  qed
  ultimately show ?thesis using True by (simp add: d_round_pos)
next
  case False
  have "0 < w" using assms(2) by (rule less_le_trans [rotated]) simp
  then show ?thesis using False d_mag_nonneg [of "- x"] by (auto simp: d_round_def Let_def)
qed

lemma round_above:
  assumes "d_lt (d_round x) (Fin w)" and "1 / 2 ^ 50 \<le> w"
  shows "x < w * (1 + 1 / 2 ^ 41)"
proof (rule ccontr)
  assume n: "\<not> x < w * (1 + 1 / 2 ^ 41)"
  have w: "0 < w" using assms(2) by (rule less_le_trans [rotated]) simp
  have "w * 1 \<le> w * (1 + 1 / 2 ^ 41)" using w by (intro mult_left_mono) simp_all
  then have x: "0 < x" using n w by linarith
  have t: "d_tiny \<le> w / 2 ^ 50" using d_tiny_small assms(2) by (simp add: field_simps)
  have "x - (x / 2 ^ 53 + d_tiny) \<le> d_mag x" using d_mag_error [OF x] by linarith
  then have "w \<le> d_mag x" using n t w by (simp add: field_simps)
  then show False using assms(1) x by (simp add: d_round_pos split: if_splits)
qed

lemma worked_step: "k < length rows \<Longrightarrow> worked rows (Suc k) = worked rows k + d_val (sh_difficulty (rows ! k))"
  by (simp add: worked_def take_Suc_conv_app_nth)

lemma worked_mono:
  assumes "\<forall>r \<in> set rows. 0 \<le> d_val (sh_difficulty r)" and "i \<le> j"
  shows "0 \<le> worked rows i" and "worked rows i \<le> worked rows j"
proof -
  show "0 \<le> worked rows i" using assms(1) by (auto simp: worked_def intro!: sum_list_nonneg dest!: in_set_takeD)
  have "take j rows = take i rows @ take (j - i) (drop i rows)" using assms(2) by (metis le_add_diff_inverse take_add)
  moreover have "0 \<le> sum_list (map (\<lambda>r. d_val (sh_difficulty r)) (take (j - i) (drop i rows)))"
    using assms(1) by (auto intro!: sum_list_nonneg dest!: in_set_takeD in_set_dropD)
  ultimately show "worked rows i \<le> worked rows j" by (simp add: worked_def)
qed

text \<open>Rows with non-negative finite difficulties, none above 256 windows.\<close>

definition plain_rows :: "rat \<Rightarrow> share_row list \<Rightarrow> bool" where
  "plain_rows w rows \<longleftrightarrow> (\<forall>r \<in> set rows. \<exists>q. sh_difficulty r = Fin q \<and> 0 \<le> q \<and> q \<le> 256 * w) \<and> worked rows (length rows) \<le> 2 ^ 1000"

lemma plain_rows_total:
  assumes "accurate_sum agg" and "plain_rows w rows"
  shows "\<exists>t. agg (map sh_difficulty (take k rows)) = Fin t \<and> \<bar>t - worked rows k\<bar> \<le> worked rows k / 2 ^ 50 \<and> worked rows k \<le> 2 ^ 1000"
proof -
  let ?qs = "map (\<lambda>r. d_val (sh_difficulty r)) (take k rows)"
  have p: "\<forall>r \<in> set rows. sh_difficulty r = Fin (d_val (sh_difficulty r)) \<and> 0 \<le> d_val (sh_difficulty r)" using assms(2) by (auto simp: plain_rows_def)
  then have m: "map sh_difficulty (take k rows) = map Fin ?qs" by (auto dest: in_set_takeD)
  have "worked rows k \<le> worked rows (max k (length rows))" using p by (intro worked_mono(2)) auto
  also have "\<dots> = worked rows (length rows)" by (simp add: worked_def max_def)
  finally have b: "worked rows k \<le> 2 ^ 1000" using assms(2) by (simp add: plain_rows_def)
  have "\<forall>q \<in> set ?qs. 0 \<le> q" using p by (auto dest: in_set_takeD)
  then show ?thesis using assms(1) b unfolding accurate_sum_def m worked_def by blast
qed

text \<open>The filter of the window decides by the work before a row, up to one part in \<open>2^40\<close>.\<close>

lemma in_window_close:
  assumes "accurate_sum agg" and "plain_rows w rows" and "k < length rows" and "1 / 2 ^ 50 \<le> w"
  shows "worked rows k < w * (1 - 1 / 2 ^ 40) \<Longrightarrow> in_window agg (Fin w) rows k" and "in_window agg (Fin w) rows k \<Longrightarrow> worked rows k < w * (1 + 1 / 2 ^ 40)"
proof -
  obtain t where t: "agg (map sh_difficulty (take (k + 1) rows)) = Fin t" "\<bar>t - worked rows (k + 1)\<bar> \<le> worked rows (k + 1) / 2 ^ 50" "worked rows (k + 1) \<le> 2 ^ 1000"
    using plain_rows_total [OF assms(1,2)] by blast
  obtain q where q: "sh_difficulty (rows ! k) = Fin q" "0 \<le> q" "q \<le> 256 * w" using assms(2,3) by (auto simp: plain_rows_def dest!: nth_mem)
  define B where "B = worked rows k"
  have s: "worked rows (k + 1) = B + q" using worked_step [OF assms(3)] q(1) by (simp add: B_def)
  have "\<forall>r \<in> set rows. 0 \<le> d_val (sh_difficulty r)" using assms(2) by (auto simp: plain_rows_def)
  from worked_mono(1) [OF this order_refl] have B0: "0 \<le> B" by (simp add: B_def)
  have "t - (B + q) \<le> (B + q) / 2 ^ 50" "(B + q) - t \<le> (B + q) / 2 ^ 50" using t(2) unfolding s by linarith+
  moreover have "(B + q) / 2 ^ 50 \<le> (B + 256 * w) / 2 ^ 50" using q(3) by (intro divide_right_mono) simp_all
  ultimately have x: "B - (B + 256 * w) / 2 ^ 50 \<le> t - q" "t - q \<le> B + (B + 256 * w) / 2 ^ 50" by linarith+
  have i: "in_window agg (Fin w) rows k = d_lt (d_round (t - q)) (Fin w)" by (simp add: in_window_def t(1) [simplified] q(1) d_sub_def)
  show "in_window agg (Fin w) rows k" if "worked rows k < w * (1 - 1 / 2 ^ 40)"
    unfolding i
  proof (rule round_below [OF _ assms(4)])
    show "t - q \<le> w * (1 - 1 / 2 ^ 41)" using x(2) that assms(4) by (simp add: B_def [symmetric] field_simps)
    have "t - q \<le> B + q + (B + q) / 2 ^ 50" using t(2) q(2) unfolding s by linarith
    moreover have "(B + q) / 2 ^ 50 \<le> 2 ^ 1000" using t(3) B0 q(2) unfolding s by (simp add: field_simps)
    moreover have "(2 :: rat) ^ 1001 = 2 ^ 1000 + 2 ^ 1000" by simp
    ultimately show "t - q \<le> 2 ^ 1001" using t(3) unfolding s by linarith
  qed
  show "worked rows k < w * (1 + 1 / 2 ^ 40)" if "in_window agg (Fin w) rows k"
  proof -
    have "t - q < w * (1 + 1 / 2 ^ 41)" using round_above [OF _ assms(4)] that unfolding i by blast
    then show ?thesis using x(1) assms(4) by (simp add: B_def [symmetric] field_simps)
  qed
qed

section \<open>The walk on any table\<close>

lemma d_maximum_mem: "xs \<noteq> [] \<Longrightarrow> d_maximum xs \<in> set xs"
  by (induction xs rule: d_maximum.induct) (auto simp: d_max_def)

text \<open>Whatever the sums are, the walk ends in a batch that filled the window or was not filled.\<close>

lemma window_walk_stops:
  assumes "\<forall>n. io n = Done" and "0 < b" and "int (length (shares (dbase s))) \<le> INT64_MAX div 4" and "in_window agg window (rev (shares (dbase s))) 0" and "shares (dbase s) \<noteq> []"
  shows "\<exists>c s'. 0 < c \<and> dbase s' = dbase s \<and>
    window_walk io agg window (int b) r s = (Some (Min (sh_id ` set (window_rows agg window (take c (rev (shares (dbase s)))))), Max (sh_id ` set (window_rows agg window (take c (rev (shares (dbase s))))))), s') \<and>
    (d_ge (d_maximum (window_totals agg window (take c (rev (shares (dbase s)))))) window \<or> length (window_rows agg window (take c (rev (shares (dbase s))))) < c)"
  using assms(2-5)
proof (induction "nat (INT64_MAX - int b)" arbitrary: b r s rule: less_induct)
  case less
  let ?rows = "take b (rev (shares (dbase s)))"
  define ws where "ws = window_rows agg window ?rows"
  define s1 where "s1 = s\<lparr>calls := calls s + 1\<rparr>"
  have "in_window agg window ?rows 0" using less.prems by (subst in_window_take) simp_all
  moreover have "0 \<in> set [0..<length ?rows]" using less.prems by simp
  ultimately have ne: "ws \<noteq> []" unfolding ws_def window_rows_in by (metis (mono_tags, lifting) filter_empty_conv map_is_Nil_conv)
  have q: "sql_query io (boundary_query agg (int b) window) s =
      (Some (int (length ws), Min (sh_id ` set ws), Max (sh_id ` set ws), d_maximum (window_totals agg window ?rows)), s1)"
    using assms(1) ne by (simp add: query_done s1_def boundary_query_def Let_def ws_def)
  have len: "length ws \<le> length (shares (dbase s))" unfolding ws_def window_rows_in using length_filter_le [of _ "[0..<length ?rows]"] by (simp add: le_trans)
  show ?case
  proof (cases "d_ge (d_maximum (window_totals agg window ?rows)) window \<or> length ws < b")
    case True
    then have "window_walk io agg window (int b) r s = (Some (Min (sh_id ` set ws), Max (sh_id ` set ws)), s1)"
      using q ne by (subst window_walk.simps) auto
    then show ?thesis using True less.prems(1) by (intro exI [of _ b] exI [of _ s1]) (auto simp: ws_def s1_def)
  next
    case False
    then have small: "int b \<le> INT64_MAX div 4" using len less.prems(2) by linarith
    have w: "window_walk io agg window (int b) r s = window_walk io agg window (int (b * 4)) (Min (sh_id ` set ws), Max (sh_id ` set ws)) s1"
      using False q ne small less.prems(1) by (subst window_walk.simps) (simp add: not_less)
    have "nat (INT64_MAX - int (b * 4)) < nat (INT64_MAX - int b)" using small less.prems(1) by (simp add: INT64_MAX_def)
    from less.hyps [OF this, of s1] less.prems show ?thesis unfolding w by (simp add: s1_def)
  qed
qed

text \<open>Between the ends of the filtered rows lie the newest rows up to the last that passed.\<close>

lemma range_rows_filtered:
  fixes d :: db
  defines "rows \<equiv> rev (shares d)"
  assumes "ids_ok (map sh_id (shares d)) n" and "K \<subseteq> {..<length rows}" and "0 \<in> K"
  shows "range_rows (Min (sh_id ` (\<lambda>k. rows ! k) ` K), Max (sh_id ` (\<lambda>k. rows ! k) ` K)) d = rev (take (Suc (Max K)) rows)"
proof -
  have fin: "finite K" by (rule finite_subset [OF assms(3)]) simp
  define m where "m = Max K"
  have mK: "m \<in> K" unfolding m_def using fin assms(4) by (intro Max_in) auto
  then have m: "m < length rows" using assms(3) by blast
  have desc: "sh_id (rows ! j) < sh_id (rows ! i)" if "i < j" "j < length rows" for i j
  proof -
    have "sorted_wrt (\<lambda>a b. sh_id b < sh_id a) rows" using assms(2) by (simp add: rows_def ids_ok_def sorted_wrt_map sorted_wrt_rev)
    then show ?thesis using that by (simp add: sorted_wrt_iff_nth_less)
  qed
  then have mono: "sh_id (rows ! j) \<le> sh_id (rows ! i)" if "i \<le> j" "j < length rows" for i j using that by (cases "i = j") (auto simp: order_less_imp_le)
  have tk: "set (take (Suc m) rows) = (\<lambda>k. rows ! k) ` {..m}" using m by (auto simp: set_conv_nth image_iff less_Suc_eq_le intro!: exI)
  let ?A = "sh_id ` (\<lambda>k. rows ! k) ` K" and ?B = "sh_id ` set (take (Suc m) rows)"
  have K: "k \<le> m" if "k \<in> K" for k using that fin by (simp add: m_def)
  have "Min ?A = sh_id (rows ! m)" "Max ?A = sh_id (rows ! 0)"
    using fin mK assms(3,4) m K by (auto intro!: Min_eqI Max_eqI mono)
  moreover have "Min ?B = sh_id (rows ! m)" "Max ?B = sh_id (rows ! 0)"
    unfolding tk using m by (auto intro!: Min_eqI Max_eqI mono)
  ultimately have e: "Min ?A = Min ?B" "Max ?A = Max ?B" by simp_all
  have "Suc m \<le> length (shares d)" using m by (simp add: rows_def)
  from range_rows_newest [OF assms(2) _ this] show ?thesis using e unfolding m_def [symmetric] rows_def by simp
qed

text \<open>The rows of the walk: the newest ones, as many as fill the window, up to one part in \<open>2^40\<close>.\<close>

lemma window_walk_close:
  fixes s :: store
  defines "rows \<equiv> rev (shares (dbase s))"
  assumes "accurate_sum agg" and "plain_rows w rows" and "1 / 2 ^ 50 \<le> w" and "\<forall>n. io n = Done" and "store_ok s"
    and "int (length rows) \<le> INT64_MAX div 4" and "0 < b" and "rows \<noteq> []"
  shows "\<exists>rng s' m. window_walk io agg (Fin w) (int b) r s = (Some rng, s') \<and> dbase s' = dbase s \<and> range_rows rng (dbase s) = rev (take m rows) \<and>
    m \<le> length rows \<and> (\<forall>k < length rows. worked rows k < w * (1 - 1 / 2 ^ 40) \<longrightarrow> k < m) \<and> (\<forall>k < m. worked rows k < w * (1 + 1 / 2 ^ 40))"
proof -
  have w0: "0 < w" using assms(4) by (rule less_le_trans [rotated]) simp
  note close = in_window_close [OF assms(2,3) _ assms(4)]
  have nn: "\<forall>r \<in> set rows. 0 \<le> d_val (sh_difficulty r)" using assms(3) by (auto simp: plain_rows_def)
  have "worked rows 0 < w * (1 - 1 / 2 ^ 40)" using w0 by (simp add: worked_def)
  then have z: "in_window agg (Fin w) rows 0" using close(1) assms(9) by simp
  obtain c s' where c: "0 < c" "dbase s' = dbase s"
    "window_walk io agg (Fin w) (int b) r s = (Some (Min (sh_id ` set (window_rows agg (Fin w) (take c rows))), Max (sh_id ` set (window_rows agg (Fin w) (take c rows)))), s')"
    "d_ge (d_maximum (window_totals agg (Fin w) (take c rows))) (Fin w) \<or> length (window_rows agg (Fin w) (take c rows)) < c"
    using window_walk_stops [OF assms(5,8)] assms(7,9) z unfolding rows_def by (metis length_rev rev_is_Nil_conv)
  define K where "K = {k. k < min c (length rows) \<and> in_window agg (Fin w) rows k}"
  have fl: "filter (in_window agg (Fin w) (take c rows)) [0..<length (take c rows)] = filter (in_window agg (Fin w) rows) [0..<min c (length rows)]"
    by (rule filter_cong) (auto simp: in_window_take min.commute)
  have sK: "set (filter (in_window agg (Fin w) rows) [0..<min c (length rows)]) = K" by (auto simp: K_def)
  have wr: "window_rows agg (Fin w) (take c rows) = map (\<lambda>k. take c rows ! k) (filter (in_window agg (Fin w) rows) [0..<min c (length rows)])"
    unfolding window_rows_in fl ..
  have "set (window_rows agg (Fin w) (take c rows)) = (\<lambda>k. take c rows ! k) ` K" unfolding wr by (simp only: set_map sK)
  also have "\<dots> = (\<lambda>k. rows ! k) ` K" by (intro image_cong) (auto simp: K_def)
  finally have sw: "set (window_rows agg (Fin w) (take c rows)) = (\<lambda>k. rows ! k) ` K" .
  have K: "K \<subseteq> {..<length rows}" "0 \<in> K" using z c(1) assms(9) by (auto simp: K_def)
  have fin: "finite K" by (rule finite_subset [OF K(1)]) simp
  have ids: "ids_ok (map sh_id (shares (dbase s))) (share_seq (dbase s))" using assms(6) by (simp add: store_ok_def db_ok_def)
  define m where "m = Suc (Max K)"
  have rr: "range_rows (Min (sh_id ` set (window_rows agg (Fin w) (take c rows))), Max (sh_id ` set (window_rows agg (Fin w) (take c rows)))) (dbase s) = rev (take m rows)"
    unfolding sw m_def using range_rows_filtered [OF ids] K by (simp add: rows_def)
  have mK: "Max K \<in> K" using fin K(2) by (intro Max_in) auto
  have upper: "worked rows k < w * (1 + 1 / 2 ^ 40)" if "k < m" for k
  proof -
    have "worked rows (Max K) < w * (1 + 1 / 2 ^ 40)" using mK close(2) by (auto simp: K_def)
    moreover have "worked rows k \<le> worked rows (Max K)" using that nn by (intro worked_mono(2)) (simp_all add: m_def)
    ultimately show ?thesis by linarith
  qed
  have filled: "w * (1 - 1 / 2 ^ 40) \<le> worked rows c" if cl: "c < length rows"
  proof (cases "length (window_rows agg (Fin w) (take c rows)) < c")
    case True
    then have "length (filter (in_window agg (Fin w) rows) [0..<c]) < length [0..<c]" unfolding wr using cl by (simp add: min_def)
    then have "\<exists>j < c. \<not> in_window agg (Fin w) rows j" by (metis atLeastLessThan_iff filter_True less_irrefl set_upt)
    then obtain j where j: "j < c" "\<not> in_window agg (Fin w) rows j" by blast
    then have "w * (1 - 1 / 2 ^ 40) \<le> worked rows j" using close(1) [of j] cl by force
    then show ?thesis using worked_mono(2) [OF nn, of j c] j(1) by linarith
  next
    case False
    have tot: "window_totals agg (Fin w) (take c rows) = map (\<lambda>k. agg (map sh_difficulty (take (k + 1) (take c rows)))) (filter (in_window agg (Fin w) rows) [0..<min c (length rows)])"
      unfolding window_totals_def in_window_def [abs_def, symmetric] using fl by (simp add: in_window_def [abs_def])
    have "window_totals agg (Fin w) (take c rows) \<noteq> []" using K(2) sK unfolding tot by (metis empty_iff list.set(1) map_is_Nil_conv)
    from d_maximum_mem [OF this] obtain k where k: "k \<in> K" "d_maximum (window_totals agg (Fin w) (take c rows)) = agg (map sh_difficulty (take (k + 1) (take c rows)))"
      unfolding tot using sK by auto
    have "k + 1 \<le> c" using k(1) by (auto simp: K_def)
    then have "take (k + 1) (take c rows) = take (k + 1) rows" by (simp add: min_absorb1)
    then obtain t where t: "d_maximum (window_totals agg (Fin w) (take c rows)) = Fin t" "\<bar>t - worked rows (k + 1)\<bar> \<le> worked rows (k + 1) / 2 ^ 50"
      using plain_rows_total [OF assms(2,3), of "k + 1"] k(2) by auto
    have "w \<le> t" using c(4) False t(1) by (simp add: d_ge_def)
    moreover have "t - worked rows (k + 1) \<le> worked rows (k + 1) / 2 ^ 50" using t(2) by linarith
    moreover have "worked rows (k + 1) \<le> worked rows c" using k(1) by (intro worked_mono(2) nn) (simp add: K_def)
    ultimately show ?thesis using w0 by (simp add: field_simps)
  qed
  have lower: "k < m" if k: "k < length rows" "worked rows k < w * (1 - 1 / 2 ^ 40)" for k
  proof -
    have "k < c"
    proof (rule ccontr)
      assume "\<not> k < c"
      then have "worked rows c \<le> worked rows k" by (intro worked_mono(2) nn) simp
      then show False using filled k \<open>\<not> k < c\<close> by simp
    qed
    then have "k \<in> K" using close(1) [OF k] k(1) by (simp add: K_def)
    then show ?thesis using fin by (simp add: m_def less_Suc_eq_le)
  qed
  have "m \<le> length rows" using mK K(1) by (auto simp: m_def)
  then show ?thesis using c(2,3) rr upper lower by blast
qed

text \<open>The rows \<open>ws\<close> are a window of \<open>w\<close> over rows newest first, up to one part in \<open>2^40\<close>: every row is in before
  which less than the window was worked, and no row before which more was.\<close>

definition fills :: "rat \<Rightarrow> share_row list \<Rightarrow> share_row list \<Rightarrow> bool" where
  "fills w rows ws \<longleftrightarrow>
     (\<forall>k < length rows. worked rows k < w * (1 - 1 / 2 ^ 40) \<longrightarrow> rows ! k \<in> set ws) \<and>
     (\<forall>r \<in> set ws. \<exists>k < length rows. r = rows ! k \<and> worked rows k < w * (1 + 1 / 2 ^ 40))"

lemma fills_take:
  assumes "m \<le> length rows" and "\<forall>k < length rows. worked rows k < w * (1 - 1 / 2 ^ 40) \<longrightarrow> k < m" and "\<forall>k < m. worked rows k < w * (1 + 1 / 2 ^ 40)"
  shows "fills w rows (take m rows)"
  unfolding fills_def
proof (intro conjI allI impI ballI)
  fix k assume "k < length rows" "worked rows k < w * (1 - 1 / 2 ^ 40)"
  then show "rows ! k \<in> set (take m rows)" using assms(1,2) by (auto simp: in_set_conv_nth)
next
  fix r assume "r \<in> set (take m rows)"
  then obtain k where "k < m" "r = rows ! k" using assms(1) by (auto simp: in_set_conv_nth)
  then show "\<exists>k < length rows. r = rows ! k \<and> worked rows k < w * (1 + 1 / 2 ^ 40)" using assms(1,3) by (intro exI [of _ k]) simp
qed

lemma fills_window:
  assumes "accurate_sum agg" and "plain_rows w rows" and "1 / 2 ^ 50 \<le> w"
  shows "fills w rows (window_rows agg (Fin w) rows)"
  using in_window_close [OF assms(1,2) _ assms(3)] by (auto simp: fills_def window_rows_in)

lemma walk_grid:
  assumes "window_walk io agg window 4096 r s = (Some rng, s')" and "exact_sum agg" and "on_grid g (rev (shares (dbase s))) ns" and "\<forall>n. io n = Done" and "store_ok s"
    and "int (length (shares (dbase s))) \<le> INT64_MAX div 4" and "shares (dbase s) \<noteq> []" and "d_gt window (Fin 0)"
  shows "range_rows rng (dbase s) = rev (window_rows agg window (rev (shares (dbase s))))"
proof -
  let ?m = "window_len g window ns"
  have "ns \<noteq> []" using on_grid_length [OF assms(3)] assms(7) by auto
  then have L: "0 < ?m" using assms(8) window_len_pos by blast
  have m: "?m \<le> length (shares (dbase s))" using window_len_le [of g window ns] on_grid_length [OF assms(3)] by simp
  have ids: "ids_ok (map sh_id (shares (dbase s))) (share_seq (dbase s))" using assms(5) by (simp add: store_ok_def db_ok_def)
  have "rng = (Min (sh_id ` set (take ?m (rev (shares (dbase s))))), Max (sh_id ` set (take ?m (rev (shares (dbase s))))))"
    using window_walk_result [OF assms(2,3) L assms(4), of 4096 r] assms(1,6) by auto
  then show ?thesis using range_rows_newest [OF ids L m] window_rows_take [OF assms(2,3), of window] by simp
qed


definition demo_ledger :: store where
  "demo_ledger = (store_open 10 0 4 (empty_db\<lparr>
     workers := [\<lparr>wk_id = 1, wk_name = ''alice'', wk_first_seen = 0, wk_last_seen = 0, wk_payout = Some ''a''\<rparr>,
                 \<lparr>wk_id = 2, wk_name = ''bob'', wk_first_seen = 0, wk_last_seen = 0, wk_payout = Some ''b''\<rparr>], worker_seq := 2,
     shares := [\<lparr>sh_id = 1, sh_worker = 1, sh_ts = 0, sh_difficulty = Fin 8, sh_is_block = 0, sh_hash = None, sh_credited = 0, sh_rate = Fin 0\<rparr>,
                \<lparr>sh_id = 2, sh_worker = 2, sh_ts = 0, sh_difficulty = Fin 4, sh_is_block = 0, sh_hash = None, sh_credited = 0, sh_rate = Fin 0\<rparr>,
                \<lparr>sh_id = 3, sh_worker = 2, sh_ts = 0, sh_difficulty = Fin 2, sh_is_block = 1, sh_hash = Some ''h1'', sh_credited = 0, sh_rate = Fin 0\<rparr>],
     share_seq := 3,
     blocks := [\<lparr>bk_id = 1, bk_ts = 0, bk_height = 5, bk_hash = ''h1'', bk_finder = Some 2, bk_finder_address = None, bk_reward = Some 600, bk_fee = None,
        bk_status = ''confirmed'', bk_confirmations = 100, bk_window = Fin 5, bk_distributed = 0, bk_submit_error = None, bk_checked_via = Some ''tips''\<rparr>],
     block_seq := 1\<rparr>))"

definition plain_sum :: sql_sum where
  "plain_sum xs = Fin (sum_list (map d_val xs))"

lemma plain_sum_exact: "exact_sum plain_sum"
proof -
  have "sum_list (map (grid_value g) ns) = grid_value g (sum_list ns)" for g ns
    by (induction ns) (simp_all add: grid_value_def add_divide_distrib)
  then show ?thesis by (simp add: exact_sum_def plain_sum_def comp_def)
qed

lemma plain_sum_accurate: "accurate_sum plain_sum"
  by (auto simp: accurate_sum_def plain_sum_def comp_def intro!: sum_list_nonneg)

lemma demo_ledger_ok: "store_ok demo_ledger \<and> saved demo_ledger = None"
  by (simp add: demo_ledger_def store_open_def store_ok_def db_ok_def ids_ok_def worker_ids_def empty_db_def)

lemma demo_grid: "on_grid 0 (rev (shares (dbase demo_ledger))) [2, 4, 8]"
  by (simp add: on_grid_def grid_value_def demo_ledger_def store_open_def)

lemma demo_rows: "window_rows plain_sum (Fin 5) (rev (shares (dbase demo_ledger))) = take 2 (rev (shares (dbase demo_ledger)))"
  unfolding window_rows_take [OF plain_sum_exact demo_grid] by (simp add: window_len_def grid_value_def upt_rec numeral_2_eq_2)

lemma demo_payout: "payout_of plain_sum (rev (take 2 (rev (shares (dbase demo_ledger))))) (dbase demo_ledger) =
    [\<lparr>we_worker = 2, we_address = ''b'', we_difficulty = Fin 6, we_owed = Fin 0\<rparr>]"
  by (simp add: demo_ledger_def store_open_def payout_of_def payable_workers_def group_sum_def plain_sum_def owed_fraction_def
      sort_entries_def d_gt_def empty_db_def)

lemma demo_window:
  assumes "0 < cap"
  shows "\<exists>s'. store_pplns_window (\<lambda>n. Done) plain_sum (Fin 5) cap demo_ledger =
    (Some ([\<lparr>we_worker = 2, we_address = ''b'', we_difficulty = Fin 6, we_owed = Fin 0\<rparr>], Fin 6, False), s') \<and> dbase s' = dbase demo_ledger"
proof -
  have "int (length (shares (dbase demo_ledger))) \<le> INT64_MAX div 4" by (simp add: INT64_MAX_def demo_ledger_def store_open_def)
  note w = window_walk_spec [OF plain_sum_exact demo_grid _ _ this assms, of "\<lambda>n. Done" "Fin 5"]
  have "d_add (Fin 0) (Fin 6) = Fin 6" using d_of_int_exact [of 6] by (simp add: d_of_int_def)
  then show ?thesis using w demo_ledger_ok assms by (auto simp: demo_rows demo_payout d_gt_def c_copy_def)
qed


end
