(* ===== verification/Distribution.thy ===== *)
theory Distribution
  imports Windows
begin

text \<open>
  What the distributor (\<^verbatim>\<open>store_pplns_distribute\<close>) pays: each matured block once, and no more than it
  earned, over any number of passes.
\<close>

section \<open>What a distribution pays\<close>

lemma sum_filter_le:
  fixes f :: "'a \<Rightarrow> rat"
  shows "(\<And>x. x \<in> set xs \<Longrightarrow> 0 \<le> f x) \<Longrightarrow> sum_list (map f (filter P xs)) \<le> sum_list (map f xs)"
  by (induction xs) (auto intro: add_increasing)

lemma sum_window_le:
  fixes f :: "share_row \<Rightarrow> rat"
  assumes "\<And>r. r \<in> set (shares d) \<Longrightarrow> 0 \<le> f r"
  shows "sum_list (map f (window_rows agg window (anchored hash d))) \<le> sum_list (map f (shares d))"
proof -
  let ?rs = "anchored hash d"
  have a: "set ?rs \<subseteq> set (shares d)" by (auto simp: anchored_def split: option.splits)
  have "sum_list (map f (window_rows agg window ?rs)) \<le> sum_list (map (\<lambda>k. f (?rs ! k)) [0..<length ?rs])"
    using sum_filter_le [of "[0..<length ?rs]" "\<lambda>k. f (?rs ! k)"] assms a by (auto simp: window_rows_def comp_def dest: nth_mem)
  also have "\<dots> = sum_list (map f ?rs)" by (simp flip: map_nth [of ?rs, THEN arg_cong [of _ _ "map f"], unfolded map_map comp_def])
  also have "\<dots> \<le> sum_list (map f (shares d))"
    using sum_filter_le [of "shares d" f] assms sum_list_nonneg [of "map f (shares d)"] by (auto simp: anchored_def rev_map [symmetric] split: option.splits)
  finally show ?thesis .
qed

lemma sum_groups:
  fixes f :: "'a \<Rightarrow> rat"
  assumes "distinct is" and "g ` set rows \<subseteq> set is"
  shows "sum_list (map (\<lambda>w. sum_list (map f (filter (\<lambda>r. g r = w) rows))) is) = sum_list (map f rows)"
  using assms(2)
proof (induction rows)
  case (Cons r rows)
  have one: "sum_list (map (\<lambda>w. if g r = w then f r else 0) is) = (if g r \<in> set is then f r else 0)"
    using assms(1) by (induction "is") auto
  have "sum_list (map (\<lambda>w. sum_list (map f (filter (\<lambda>r. g r = w) (r # rows)))) is) =
      sum_list (map (\<lambda>w. (if g r = w then f r else 0) + sum_list (map f (filter (\<lambda>r. g r = w) rows))) is)"
    by (intro arg_cong [where f = sum_list] map_cong) auto
  then show ?case using Cons one by (simp add: sum_list_addf)
qed simp

lemma set_window_rows: "set (window_rows agg window rows) \<subseteq> set rows"
  by (auto simp: window_rows_def)

lemma set_anchored: "set (anchored hash d) \<subseteq> set (shares d)"
  by (auto simp: anchored_def split: option.splits)

lemma near:
  fixes t g :: rat
  assumes "\<bar>t - g\<bar> \<le> g / 2 ^ 50" and "0 \<le> g"
  shows "0 \<le> t" and "t \<le> g * (1 + 1 / 2 ^ 50)" and "g * (1 - 1 / 2 ^ 50) \<le> t"
proof -
  define e where "e = g / 2 ^ 50"
  have a: "t - g \<le> e" "- (t - g) \<le> e" using abs_le_D1 [OF assms(1)] abs_le_D2 [OF assms(1)] by (simp_all only: e_def)
  have g: "g * (1 + 1 / 2 ^ 50) = g + e" "g * (1 - 1 / 2 ^ 50) = g - e" by (simp_all add: e_def algebra_simps)
  have "e \<le> g" using assms(2) by (simp add: e_def divide_le_eq mult_le_cancel_left1)
  with a show "0 \<le> t" by linarith
  show "t \<le> g * (1 + 1 / 2 ^ 50)" "g * (1 - 1 / 2 ^ 50) \<le> t" unfolding g using a by linarith+
qed

text \<open>The weights the credit loop divides: non-negative, and together at most the total, up to rounding.\<close>

lemma window_weights:
  assumes "accurate_sum agg" and "plain_difficulties d"
  shows "\<exists>is ds T. window_query agg hash window d = zip is (map (\<lambda>q. (Fin q, Fin T)) ds) \<and> length ds = length is \<and> distinct is \<and>
    set is \<subseteq> sh_worker ` set (shares d) \<and> (\<forall>q \<in> set ds. 0 \<le> q) \<and> sum_list ds \<le> T * (1 + 1 / 2 ^ 44)"
proof -
  define rows where "rows = window_rows agg window (anchored hash d)"
  define v where "v r = d_val (sh_difficulty r)" for r :: share_row
  have v: "sh_difficulty r = Fin (v r) \<and> 0 \<le> v r" if "r \<in> set rows" for r
    using assms(2) that set_window_rows set_anchored unfolding plain_difficulties_def rows_def v_def by (metis d_val.simps(1) subsetD)
  have "0 \<le> v r" if "r \<in> set (shares d)" for r using assms(2) that unfolding plain_difficulties_def v_def by (metis d_val.simps(1))
  from sum_window_le [of d v agg window hash, OF this] have bound: "sum_list (map v rows) \<le> 2 ^ 1000"
    using assms(2) unfolding plain_difficulties_def rows_def v_def by (meson order_trans)
  have acc: "\<exists>t. agg (map sh_difficulty rs) = Fin t \<and> \<bar>t - sum_list (map v rs)\<bar> \<le> sum_list (map v rs) / 2 ^ 50" if rs: "rs = filter P rows" for rs P
  proof -
    have m: "map sh_difficulty rs = map Fin (map v rs)" using v rs by auto
    have "\<forall>q \<in> set (map v rs). 0 \<le> q" using v rs by auto
    moreover have "sum_list (map v rs) \<le> 2 ^ 1000" using sum_filter_le [of rows v P] v bound unfolding rs by (meson order_trans)
    ultimately show ?thesis using assms(1) unfolding accurate_sum_def m by blast
  qed
  define G where "G w = sum_list (map v (filter (\<lambda>r. sh_worker r = w) rows))" for w
  define S where "S = sum_list (map v rows)"
  obtain T where T: "agg (map sh_difficulty rows) = Fin T" "\<bar>T - S\<bar> \<le> S / 2 ^ 50" using acc [of rows "\<lambda>r. True"] by (auto simp: S_def)
  have "\<forall>w. \<exists>t. group_sum agg rows w = Fin t \<and> \<bar>t - G w\<bar> \<le> G w / 2 ^ 50"
    using acc [OF refl] by (simp add: group_sum_def G_def)
  then obtain t where t: "\<And>w. group_sum agg rows w = Fin (t w)" "\<And>w. \<bar>t w - G w\<bar> \<le> G w / 2 ^ 50" by metis
  let ?is = "group_ids rows"
  have G0: "0 \<le> G w" for w using v by (auto simp: G_def intro!: sum_list_nonneg)
  have S0: "0 \<le> S" using v by (auto simp: S_def intro!: sum_list_nonneg)
  have SG: "sum_list (map G ?is) = S"
    unfolding G_def S_def by (rule sum_groups) (simp_all add: group_ids_def)
  have tb: "0 \<le> t w" "t w \<le> G w * (1 + 1 / 2 ^ 50)" for w using near [OF t(2) G0] by blast+
  have "sum_list (map t ?is) \<le> sum_list (map (\<lambda>w. G w * (1 + 1 / 2 ^ 50)) ?is)" using tb by (intro sum_list_mono)
  also have "\<dots> = S * (1 + 1 / 2 ^ 50)" unfolding SG [symmetric] by (rule sum_list_mult_const)
  also have "\<dots> \<le> T * (1 + 1 / 2 ^ 44)" using near(3) [OF T(2) S0] S0 by (simp add: field_simps)
  finally have sum: "sum_list (map t ?is) \<le> T * (1 + 1 / 2 ^ 44)" .
  have "window_query agg hash window d = map (\<lambda>w. (w, Fin (t w), Fin T)) ?is"
    by (simp add: window_query_def Let_def t(1) T(1) flip: rows_def)
  also have "\<dots> = zip ?is (map (\<lambda>q. (Fin q, Fin T)) (map t ?is))"
    by (simp add: comp_def zip_map2 zip_same_conv_map)
  finally have "window_query agg hash window d = zip ?is (map (\<lambda>q. (Fin q, Fin T)) (map t ?is))" .
  moreover have "set ?is \<subseteq> sh_worker ` set (shares d)" "distinct ?is"
    using set_window_rows [of agg window "anchored hash d"] set_anchored [of hash d] by (auto simp: group_ids_def rows_def)
  ultimately show ?thesis using sum tb by (intro exI [of _ ?is] exI [of _ "map t ?is"] exI [of _ T]) auto
qed

text \<open>The credit loop: balances grow by at most the shares, and nothing else changes.\<close>

definition only_credits :: "db \<Rightarrow> db \<Rightarrow> bool" where
  "only_credits d d' \<longleftrightarrow> d' = d\<lparr>credits := credits d'\<rparr>"

lemma only_credits_refl [simp]: "only_credits d d"
  by (simp add: only_credits_def)

lemma only_credits_trans: "only_credits d d' \<Longrightarrow> only_credits d' d'' \<Longrightarrow> only_credits d d''"
  unfolding only_credits_def by (metis db.surjective db.update_convs(17))

lemma only_credits_credit: "sql_upsert_credit w amt now d = Some d' \<Longrightarrow> only_credits d d'"
  by (auto simp: sql_upsert_credit_def only_credits_def split: if_splits)

lemma credit_rows_effect:
  assumes "no_auto_rollback io" and "map (\<lambda>q. prop_share P (Fin q) (Fin T)) ds = map Ok ks" and "\<forall>k \<in> set ks. 0 \<le> k"
    and "length is = length ds" and "store_ok s" and "0 < T"
  shows "\<exists>ok n' s'. credit_rows io now P (zip is (map (\<lambda>q. (Fin q, Fin T)) ds)) n s = Ok (ok, n', s') \<and> store_ok s' \<and> saved s' = saved s \<and>
    only_credits (dbase s) (dbase s') \<and> accrued (dbase s) \<le> accrued (dbase s') \<and> accrued (dbase s') \<le> accrued (dbase s) + sum_list ks \<and>
    ((\<forall>n. io n = Done) \<and> set is \<subseteq> set (worker_ids (dbase s)) \<longrightarrow> ok)"
  using assms(2-5)
proof (induction ds arbitrary: "is" ks n s)
  case Nil
  then show ?case by auto
next
  case (Cons q ds)
  obtain w ws where "is": "is = w # ws" using Cons.prems(3) by (cases "is") auto
  obtain k ks' where ks: "ks = k # ks'" using Cons.prems(1) by (cases ks) auto
  have k: "prop_share P (Fin q) (Fin T) = Ok k" "0 \<le> k" "0 \<le> sum_list ks'" and rest: "map (\<lambda>q. prop_share P (Fin q) (Fin T)) ds = map Ok ks'" "\<forall>k \<in> set ks'. 0 \<le> k" "length ws = length ds"
    using Cons.prems by (auto simp: ks "is" intro: sum_list_nonneg)
  note IH = Cons.IH [OF rest]
  show ?case
  proof (cases "0 < q \<and> 0 < k")
    case False
    have "credit_rows io now P (zip is (map (\<lambda>q. (Fin q, Fin T)) (q # ds))) n s = credit_rows io now P (zip ws (map (\<lambda>q. (Fin q, Fin T)) ds)) n s"
      using False k assms(6) by (auto simp: "is" d_gt_def)
    then show ?thesis using IH [OF Cons.prems(4), of n] k by (auto simp: ks "is")
  next
    case True
    obtain r s1 where s1: "sql_step io (unit_step (sql_upsert_credit w k now)) s = (r, s1)" by fastforce
    have e: "credit_rows io now P (zip is (map (\<lambda>q. (Fin q, Fin T)) (q # ds))) n s =
        (if r = None then Ok (False, n, s1) else credit_rows io now P (zip ws (map (\<lambda>q. (Fin q, Fin T)) ds)) (n + 1) s1)"
      using True k assms(6) by (simp add: "is" d_gt_def s1)
    have ok1: "store_ok s1" using sql_step_ok [OF s1 Cons.prems(4)] by (auto simp: unit_step_def upsert_credit_ok)
    from s1 assms(1) show ?thesis
    proof (cases rule: sql_step_cases)
      case (ok x d)
      then have u: "sql_upsert_credit w k now (dbase s) = Some d" by (auto simp: unit_step_def)
      have "accrued d = accrued (dbase s) + k" using accrued_credit [OF u] Cons.prems(4) by (simp add: store_ok_def)
      moreover have "worker_ids d = worker_ids (dbase s)" using only_credits_credit [OF u] by (metis only_credits_def worker_ids_update(16))
      moreover obtain ok' n' s' where "credit_rows io now P (zip ws (map (\<lambda>q. (Fin q, Fin T)) ds)) (n + 1) s1 = Ok (ok', n', s')" "store_ok s'" "saved s' = saved s1"
        "only_credits (dbase s1) (dbase s')" "accrued (dbase s1) \<le> accrued (dbase s')" "accrued (dbase s') \<le> accrued (dbase s1) + sum_list ks'"
        "(\<forall>n. io n = Done) \<and> set ws \<subseteq> set (worker_ids (dbase s1)) \<longrightarrow> ok'" using IH [OF ok1] by blast
      ultimately show ?thesis unfolding e using ok k only_credits_trans [OF only_credits_credit [OF u]]
        by (intro exI [of _ ok'] exI [of _ n'] exI [of _ s']) (auto simp: ks "is")
    next
      case no
      have "w \<in> set (worker_ids (dbase s)) \<Longrightarrow> unit_step (sql_upsert_credit w k now) (dbase s) \<noteq> None"
        by (simp add: unit_step_def sql_upsert_credit_def)
      then show ?thesis using e no ok1 k by (auto simp: ks "is")
    qed
  qed
qed

text \<open>Marking a block changes nothing but its latch.\<close>

lemma mark_ok: "db_ok d \<Longrightarrow> db_ok (sql_mark i d)"
proof -
  have "map bk_id (blocks (sql_mark i d)) = map bk_id (blocks d)" "map bk_hash (blocks (sql_mark i d)) = map bk_hash (blocks d)"
    by (simp_all add: sql_mark_def)
  then show "db_ok d \<Longrightarrow> db_ok (sql_mark i d)" by (simp add: db_ok_def) (simp add: sql_mark_def)
qed

lemma accrued_mark [simp]: "accrued (sql_mark i d) = accrued d"
  by (simp add: accrued_def sql_mark_def)

definition small_ledger :: "db \<Rightarrow> bool" where
  "small_ledger d \<longleftrightarrow> plain_difficulties d \<and> length (workers d) \<le> 2 ^ 20 \<and> (\<forall>b \<in> set (blocks d). 0 \<le> block_gross b \<and> block_gross b \<le> 2 ^ 42)"

text \<open>Every share of a positive amount is representable and together they are at most the amount.\<close>

lemma window_shares:
  assumes "accurate_sum agg" and "small_ledger d" and "db_ok d" and "0 < P" and "P \<le> 2 ^ 42"
  shows "\<exists>is ds T ks. window_query agg hash window d = zip is (map (\<lambda>q. (Fin q, Fin T)) ds) \<and> length is = length ds \<and> set is \<subseteq> set (worker_ids d) \<and>
    (0 < T \<longrightarrow> map (\<lambda>q. prop_share P (Fin q) (Fin T)) ds = map Ok ks \<and> (\<forall>k \<in> set ks. 0 \<le> k) \<and> sum_list ks \<le> P)"
proof -
  obtain "is" ds T where w: "window_query agg hash window d = zip is (map (\<lambda>q. (Fin q, Fin T)) ds)" "length ds = length is" "distinct is"
    "set is \<subseteq> sh_worker ` set (shares d)" "\<forall>q \<in> set ds. 0 \<le> q" "sum_list ds \<le> T * (1 + 1 / 2 ^ 44)"
    using window_weights [OF assms(1)] assms(2) unfolding small_ledger_def by blast
  have sub: "set is \<subseteq> set (worker_ids d)" using w(4) assms(3) by (auto simp: db_ok_def)
  have "length is = card (set is)" using w(3) by (simp add: distinct_card)
  also have "\<dots> \<le> card (set (worker_ids d))" using sub by (intro card_mono) simp_all
  also have "\<dots> \<le> length (workers d)" using card_length [of "worker_ids d"] by (simp add: worker_ids_def)
  finally have len: "length ds \<le> 2 ^ 20" using w(2) assms(2) by (simp add: small_ledger_def)
  show ?thesis
  proof (cases "0 < T")
    case True
    obtain ks where "map (\<lambda>d. prop_share P (Fin d) (Fin T)) ds = map Ok ks" "\<And>k. k \<in> set ks \<Longrightarrow> 0 \<le> k" "sum_list ks \<le> P"
      using sum_prop_shares_le [of P T ds] assms(4,5) True w(5,6) len by auto
    then show ?thesis using w(1,2) sub by (intro exI [of _ "is"] exI [of _ ds] exI [of _ T] exI [of _ ks]) auto
  next
    case False
    then show ?thesis using w(1,2) sub by (intro exI [of _ "is"] exI [of _ ds] exI [of _ T]) auto
  qed
qed

lemma credit_rows_zero:
  assumes "\<not> 0 < T" and "length is = length ds"
  shows "credit_rows io now P (zip is (map (\<lambda>q. (Fin q, Fin T)) ds)) n s = Ok (True, n, s)"
  using assms(2,1) by (induction "is" ds rule: list_induct2) (auto simp: d_gt_def)

lemma credit_window:
  assumes "no_auto_rollback io" and "accurate_sum agg" and "small_ledger (dbase s)" and "store_ok s" and "0 < P" and "P \<le> 2 ^ 42"
    and "rows = [] \<or> rows = window_query agg hash window (dbase s)"
  shows "\<exists>ok n s'. credit_rows io now P rows 0 s = Ok (ok, n, s') \<and> store_ok s' \<and> saved s' = saved s \<and> only_credits (dbase s) (dbase s') \<and>
    accrued (dbase s) \<le> accrued (dbase s') \<and> accrued (dbase s') \<le> accrued (dbase s) + P \<and> ((\<forall>n. io n = Done) \<longrightarrow> ok)"
proof (cases "rows = []")
  case True
  then show ?thesis using assms(4,5) by auto
next
  case False
  have d: "db_ok (dbase s)" using assms(4) by (simp add: store_ok_def)
  obtain "is" ds T ks where w: "rows = zip is (map (\<lambda>q. (Fin q, Fin T)) ds)" "length is = length ds" "set is \<subseteq> set (worker_ids (dbase s))"
    "0 < T \<longrightarrow> map (\<lambda>q. prop_share P (Fin q) (Fin T)) ds = map Ok ks \<and> (\<forall>k \<in> set ks. 0 \<le> k) \<and> sum_list ks \<le> P"
    using window_shares [OF assms(2,3) d assms(5,6)] assms(7) False by metis
  show ?thesis
  proof (cases "0 < T")
    case True
    with w(4) have k: "map (\<lambda>q. prop_share P (Fin q) (Fin T)) ds = map Ok ks" "\<forall>k \<in> set ks. 0 \<le> k" "sum_list ks \<le> P" by auto
    obtain ok n' s' where r: "credit_rows io now P rows 0 s = Ok (ok, n', s')" "store_ok s'" "saved s' = saved s" "only_credits (dbase s) (dbase s')"
      "accrued (dbase s) \<le> accrued (dbase s')" "accrued (dbase s') \<le> accrued (dbase s) + sum_list ks" "(\<forall>n. io n = Done) \<and> set is \<subseteq> set (worker_ids (dbase s)) \<longrightarrow> ok"
      using credit_rows_effect [OF assms(1) k(1,2) w(2) assms(4) True] unfolding w(1) by blast
    then show ?thesis using k(3) w(3) by (intro exI [of _ ok] exI [of _ n'] exI [of _ s']) auto
  next
    case False
    then show ?thesis using credit_rows_zero [OF False w(2)] assms(4,5) unfolding w(1) by auto
  qed
qed

text \<open>One block: all of it or nothing, and never more than it has to give.\<close>

lemma distribute_block_effect:
  assumes "no_auto_rollback io" and "accurate_sum agg" and "small_ledger (dbase s)" and "store_ok s" and "saved s = None" and "0 < P" and "P \<le> 2 ^ 42"
  shows "\<exists>r s'. distribute_block io agg now P b s = Ok (r, s') \<and> store_ok s' \<and> saved s' = None \<and>
    (r = None \<longrightarrow> dbase s' = dbase s) \<and>
    (r \<noteq> None \<longrightarrow> (\<exists>d. only_credits (dbase s) d \<and> accrued (dbase s) \<le> accrued d \<and> accrued d \<le> accrued (dbase s) + P \<and> dbase s' = sql_mark (bk_id b) d)) \<and>
    ((\<forall>n. io n = Done) \<longrightarrow> r \<noteq> None)"
proof -
  obtain ok0 s0 where s0: "sql_begin io s = (ok0, s0)" by fastforce
  have b: "dbase s0 = dbase s" "store_ok s0" "saved s0 = (if ok0 then Some (dbase s) else None)" "(\<forall>n. io n = Done) \<longrightarrow> ok0"
    using s0 assms(5) sql_begin_ok [OF s0 assms(4)] by (auto simp: sql_begin_def Let_def split: if_splits)
  show ?thesis
  proof (cases ok0)
    case False
    then show ?thesis using b by (auto simp: distribute_block_def txn_begin_def s0)
  next
    case True
    have rb: "saved t = Some (dbase s) \<Longrightarrow> store_ok t \<Longrightarrow> store_ok (txn_rollback t) \<and> saved (txn_rollback t) = None \<and> dbase (txn_rollback t) = dbase s" for t
      using sql_rollback_ok [of t] by (auto simp: txn_rollback_def sql_rollback_def)
    obtain p1 s1 where s1: "sql_prepare io s0 = (p1, s1)" by fastforce
    obtain p2 s2 where s2: "(if p1 then sql_prepare io s1 else (False, s1)) = (p2, s2)" by fastforce
    obtain p3 s3 where s3: "(if p2 then sql_prepare io s2 else (False, s2)) = (p3, s3)" by fastforce
    have p: "dbase s3 = dbase s" "store_ok s3" "saved s3 = Some (dbase s)" "(\<forall>n. io n = Done) \<longrightarrow> p3"
      using s1 s2 s3 b True by (auto simp: sql_prepare_def split: if_splits)
    show ?thesis
    proof (cases p3)
      case False
      then show ?thesis using rb [OF p(3,2)] p(4) unfolding distribute_block_def txn_begin_def s0
        by (auto simp: True s1 s2 s3 Let_def)
    next
      case p3: True
      obtain q s4 where s4: "sql_query io (window_query agg (c_copy HASH_STR_MAX (bk_hash b)) (bk_window b)) s3 = (q, s4)" by fastforce
      note k = sql_query_kept [OF s4 assms(1)]
      define rows where "rows = (case q of None \<Rightarrow> [] | Some rs \<Rightarrow> rs)"
      have "rows = [] \<or> rows = window_query agg (c_copy HASH_STR_MAX (bk_hash b)) (bk_window b) (dbase s4)"
        using k by (auto simp: rows_def)
      then obtain ok n s5 where s5: "credit_rows io now P rows 0 s4 = Ok (ok, n, s5)" "store_ok s5" "saved s5 = saved s4" "only_credits (dbase s4) (dbase s5)"
        "accrued (dbase s4) \<le> accrued (dbase s5)" "accrued (dbase s5) \<le> accrued (dbase s4) + P" "(\<forall>n. io n = Done) \<longrightarrow> ok"
        using credit_window [OF assms(1,2) _ _ assms(6,7), of s4 rows] k p assms(3) by metis
      obtain mk s6 where s6: "sql_exec io (sql_mark (bk_id b)) s5 = (mk, s6)" by fastforce
      note m = sql_exec_cases [OF s6 assms(1)]
      have ok6: "store_ok s6" using s5(2) m mark_ok by (simp add: store_ok_def)
      obtain c s7 where s7: "sql_commit io s6 = (c, s7)" by fastforce
      have sv: "saved s6 = Some (dbase s)" "saved s5 = Some (dbase s)" using m s5(3) k p(3) by auto
      have c: "c \<longrightarrow> saved s7 = None \<and> dbase s7 = dbase s6" "\<not> c \<longrightarrow> saved s7 = Some (dbase s)" "(\<forall>n. io n = Done) \<longrightarrow> c"
        using s7 sv assms(1) by (auto simp: sql_commit_def Let_def no_auto_rollback_def split: sql_outcome.splits intro!: exI [of _ "calls s6"])
      have ok7: "store_ok s7" by (rule sql_commit_ok [OF s7 ok6])
      define r where "r = (if ok \<and> mk \<and> c then Some n else None)"
      define s' where "s' = (if \<not> ok then txn_rollback s5 else if \<not> mk then txn_rollback s6 else if c then s7 else count_error (sql_rollback s7))"
      have "distribute_block io agg now P b s = Ok (r, s')"
        unfolding distribute_block_def txn_begin_def s0 
        by (simp add: True s1 s2 s3 p3 s4 rows_def [symmetric] s5(1) s6 txn_commit_def s7 r_def s'_def Let_def)
      moreover have "store_ok s' \<and> saved s' = None \<and> (r = None \<longrightarrow> dbase s' = dbase s) \<and> (r \<noteq> None \<longrightarrow> s' = s7)"
        using rb [OF sv(2) s5(2)] rb [OF sv(1) ok6] rb [of s7] c ok7 by (auto simp: r_def s'_def txn_rollback_def)
      moreover have "r \<noteq> None \<longrightarrow> dbase s7 = sql_mark (bk_id b) (dbase s5)" using c(1) m by (auto simp: r_def)
      moreover have "(\<forall>n. io n = Done) \<longrightarrow> r \<noteq> None" using s5(7) m c(3) by (auto simp: r_def)
      moreover have "dbase s4 = dbase s" using k p(1) by simp
      ultimately show ?thesis using s5(4-6) by (intro exI [of _ r] exI [of _ s']) auto
    qed
  qed
qed

text \<open>What a block has to give, and what the latched blocks had.\<close>

definition pay :: "int \<Rightarrow> block_row \<Rightarrow> int" where
  "pay fee_bps b = (case block_payable fee_bps (block_gross b) of Ok v \<Rightarrow> max 0 v | _ \<Rightarrow> 0)"

definition latched_pay :: "int \<Rightarrow> db \<Rightarrow> int" where
  "latched_pay fee_bps d = sum_list (map (\<lambda>b. if bk_distributed b \<noteq> 0 then pay fee_bps b else 0) (blocks d))"

definition latch :: "int set \<Rightarrow> block_row \<Rightarrow> block_row" where
  "latch I b = (if bk_id b \<in> I then b\<lparr>bk_distributed := 1\<rparr> else b)"

text \<open>Balances and the latches of the blocks \<open>I\<close> have changed, within what those blocks had to give.\<close>

definition distributes :: "int \<Rightarrow> int set \<Rightarrow> db \<Rightarrow> db \<Rightarrow> bool" where
  "distributes fee_bps I d d' \<longleftrightarrow>
     d' = d\<lparr>credits := credits d', blocks := map (latch I) (blocks d)\<rparr> \<and> accrued d \<le> accrued d' \<and>
     accrued d' - accrued d \<le> latched_pay fee_bps d' - latched_pay fee_bps d"

lemma latch_simps [simp]: "bk_id (latch I b) = bk_id b" "bk_hash (latch I b) = bk_hash b" "block_gross (latch I b) = block_gross b" "pay f (latch I b) = pay f b"
  by (simp_all add: latch_def block_gross_def pay_def)

lemma latch_latch: "latch J (latch I b) = latch (I \<union> J) b"
  by (simp add: latch_def)

lemma latch_empty [simp]: "latch {} = (\<lambda>b. b)"
  by (simp add: latch_def fun_eq_iff)

lemma latch_single: "latch {i} = (\<lambda>b. if bk_id b = i then b\<lparr>bk_distributed := 1\<rparr> else b)"
  by (simp add: latch_def fun_eq_iff)

lemma distributes_refl: "distributes f {} d d"
  by (simp add: distributes_def)

lemma distributes_trans: "distributes f I d d' \<Longrightarrow> distributes f J d' d'' \<Longrightarrow> distributes f (I \<union> J) d d''"
proof -
  assume a: "distributes f I d d'" and b: "distributes f J d' d''"
  have "d'' = d\<lparr>credits := credits d'', blocks := map (latch (I \<union> J)) (blocks d)\<rparr>"
  proof -
    have e: "d' = d\<lparr>credits := credits d', blocks := map (latch I) (blocks d)\<rparr>" "d'' = d'\<lparr>credits := credits d'', blocks := map (latch J) (blocks d')\<rparr>"
      using a b by (auto simp: distributes_def)
    then have "blocks d' = map (latch I) (blocks d)" by (metis db.select_convs(7) db.surjective db.update_convs(7))
    then have "d'' = d'\<lparr>credits := credits d'', blocks := map (latch (I \<union> J)) (blocks d)\<rparr>" using e(2) by (simp add: latch_latch comp_def)
    then show ?thesis by (subst (asm) e(1)) simp
  qed
  then show ?thesis using a b by (simp add: distributes_def)
qed

lemma latched_pay_mark:
  assumes "db_ok d" and "b \<in> set (blocks d)" and "bk_distributed b = 0"
  shows "latched_pay f (sql_mark (bk_id b) d) = latched_pay f d + pay f b"
proof -
  have "sum_list (map (\<lambda>x. if bk_distributed x \<noteq> 0 then pay f x else 0) (map (\<lambda>x. if bk_id x = bk_id b then x\<lparr>bk_distributed := 1\<rparr> else x) bs)) =
      sum_list (map (\<lambda>x. if bk_distributed x \<noteq> 0 then pay f x else 0) bs) + (if b \<in> set bs then pay f b else 0)"
    if "distinct (map bk_id bs)" "\<forall>x \<in> set bs. bk_id x = bk_id b \<longrightarrow> x = b" for bs
    using that
  proof (induction bs)
    case (Cons x bs)
    have "pay f (x\<lparr>bk_distributed := 1\<rparr>) = pay f x" by (simp add: pay_def block_gross_def)
    with Cons show ?case using assms(3) by (cases "x = b") (auto simp: image_iff)
  qed simp
  moreover have "distinct (map bk_id (blocks d))" using assms(1) ids_ok_distinct by (auto simp: db_ok_def)
  moreover have "x = b" if "x \<in> set (blocks d)" "bk_id x = bk_id b" for x
    using calculation(2) that assms(2) by (metis distinct_map inj_on_eq_iff)
  ultimately show ?thesis using assms(2) by (simp add: latched_pay_def sql_mark_def del: map_map)
qed

lemma block_payable_ok: "0 \<le> g \<Longrightarrow> g \<le> 2 ^ 42 \<Longrightarrow> \<exists>v. block_payable f g = Ok v \<and> v \<le> g"
proof -
  assume g: "0 \<le> g" "g \<le> 2 ^ 42"
  have "i64_ok (g * f)" and "0 \<le> g * f sdiv 10000" and "i64_ok (g - g * f sdiv 10000)" if f: "0 < f" "f \<le> 10000"
  proof -
    have p: "0 \<le> g * f" "g * f \<le> g * 10000" using g f by (simp_all add: mult_left_mono)
    then show "i64_ok (g * f)" using g by (simp add: i64_ok_def)
    have e: "g * f sdiv 10000 = g * f div 10000" by (rule sdiv_nonneg) (use p in simp_all)
    then show "0 \<le> g * f sdiv 10000" using p by (simp add: pos_imp_zdiv_nonneg_iff)
    moreover have "g * f div 10000 \<le> g" using p zdiv_mono1 [of "g * f" "g * 10000" 10000] by simp
    ultimately show "i64_ok (g - g * f sdiv 10000)" using g e by (simp add: i64_ok_def)
  qed
  then show ?thesis by (auto simp: block_payable_def Let_def)
qed

lemma distributes_mark:
  assumes "only_credits d d'" and "accrued d \<le> accrued d'" and "accrued d' \<le> accrued d + pay f b" and "db_ok d'" and "b \<in> set (blocks d)" and "bk_distributed b = 0"
  shows "distributes f {bk_id b} d (sql_mark (bk_id b) d')"
proof -
  have e: "d' = d\<lparr>credits := credits d'\<rparr>" using assms(1) by (simp add: only_credits_def)
  then have b: "blocks d' = blocks d" by (metis db.select_convs(7) db.surjective db.update_convs(17))
  have "latched_pay f d' = latched_pay f d" by (simp add: latched_pay_def b)
  moreover have "latched_pay f (sql_mark (bk_id b) d') = latched_pay f d' + pay f b" by (rule latched_pay_mark [OF assms(4)]) (use assms(5,6) b in simp_all)
  moreover have "sql_mark (bk_id b) d' = d\<lparr>credits := credits (sql_mark (bk_id b) d'), blocks := map (latch {bk_id b}) (blocks d)\<rparr>"
    by (subst e) (simp add: sql_mark_def latch_single b e [symmetric])
  ultimately show ?thesis using assms(2,3) by (simp add: distributes_def)
qed

lemma distributes_small: "distributes f I d d' \<Longrightarrow> small_ledger d \<Longrightarrow> small_ledger d'"
  unfolding distributes_def by (erule conjE, erule ssubst) (simp add: small_ledger_def plain_difficulties_def)

lemma distributes_blocks: "distributes f I d d' \<Longrightarrow> blocks d' = map (latch I) (blocks d)"
  unfolding distributes_def by (metis db.select_convs(7) db.surjective db.update_convs(7))

lemma distribute_loop_effect:
  assumes "no_auto_rollback io" and "accurate_sum agg"
  shows "small_ledger (dbase s) \<Longrightarrow> store_ok s \<Longrightarrow> saved s = None \<Longrightarrow> distinct (map bk_id bs) \<Longrightarrow>
    (\<forall>b \<in> set bs. b \<in> set (blocks (dbase s)) \<and> bk_distributed b = 0) \<Longrightarrow>
    \<exists>rc nb' nw' s' I. distribute_loop io agg now f bs nb nw s = Ok (rc, nb', nw', s') \<and> store_ok s' \<and> saved s' = None \<and>
      I \<subseteq> bk_id ` set bs \<and> distributes f I (dbase s) (dbase s') \<and> ((\<forall>n. io n = Done) \<longrightarrow> I = bk_id ` set bs)"
proof (induction bs arbitrary: nb nw s)
  case Nil
  then show ?case using distributes_refl by fastforce
next
  case (Cons b bs)
  have b: "b \<in> set (blocks (dbase s))" "bk_distributed b = 0" using Cons.prems(5) by auto
  obtain v where v: "block_payable f (block_gross b) = Ok v" "v \<le> 2 ^ 42"
    using block_payable_ok [of "block_gross b" f] Cons.prems(1) b(1) by (force simp: small_ledger_def)
  have step: "\<exists>rc nb' nw' s' I. distribute_loop io agg now f bs nb1 nw1 t = Ok (rc, nb', nw', s') \<and> store_ok s' \<and> saved s' = None \<and>
      I \<subseteq> bk_id ` set (b # bs) \<and> distributes f I (dbase s) (dbase s') \<and> ((\<forall>n. io n = Done) \<longrightarrow> I = bk_id ` set (b # bs))"
    if t: "store_ok t" "saved t = None" "distributes f J (dbase s) (dbase t)" "J \<subseteq> {bk_id b}" "(\<forall>n. io n = Done) \<longrightarrow> J = {bk_id b}" for t J nb1 nw1
  proof -
    have "x \<in> set (blocks (dbase t))" if "x \<in> set bs" for x
    proof -
      have "bk_id x \<noteq> bk_id b" using that Cons.prems(4) by (auto simp: image_iff)
      then have "bk_id x \<notin> J" using t(4) by blast
      then have "latch J x = x" by (simp add: latch_def)
      then show ?thesis using distributes_blocks [OF t(3)] that Cons.prems(5) by (metis image_eqI list.set_intros(2) list.set_map)
    qed
    then have l: "\<forall>b \<in> set bs. b \<in> set (blocks (dbase t)) \<and> bk_distributed b = 0" using Cons.prems(5) by simp
    have "distinct (map bk_id bs)" using Cons.prems(4) by simp
    from Cons.IH [OF distributes_small [OF t(3) Cons.prems(1)] t(1,2) this l, of nb1 nw1] obtain rc nb' nw' s' I where r: "distribute_loop io agg now f bs nb1 nw1 t = Ok (rc, nb', nw', s')" "store_ok s'" "saved s' = None"
      "I \<subseteq> bk_id ` set bs" "distributes f I (dbase t) (dbase s')" "(\<forall>n. io n = Done) \<longrightarrow> I = bk_id ` set bs" by blast
    have "distributes f (J \<union> I) (dbase s) (dbase s')" by (rule distributes_trans [OF t(3) r(5)])
    moreover have "J \<union> I \<subseteq> bk_id ` set (b # bs)" using r(4) t(4) by auto
    moreover have "(\<forall>n. io n = Done) \<longrightarrow> J \<union> I = bk_id ` set (b # bs)" using r(6) t(5) by auto
    ultimately show ?thesis using r(1-3) by blast
  qed
  show ?case
  proof (cases "v \<le> 0")
    case True
    obtain p ok t where m: "prepared_exec io (sql_mark (bk_id b)) s = (p, ok, t)" by (metis prod_cases3)
    have t: "saved t = None" "dbase t = (if ok then sql_mark (bk_id b) (dbase s) else dbase s)" "(\<forall>n. io n = Done) \<longrightarrow> ok"
      using prepared_exec_cases [OF m assms(1)] Cons.prems(3) by simp_all
    have d: "db_ok (dbase s)" using Cons.prems(2) by (simp add: store_ok_def)
    have "store_ok t" using t d mark_ok by (simp add: store_ok_def)
    moreover have "pay f b = 0" using v(1) True by (simp add: pay_def)
    then have "distributes f (if ok then {bk_id b} else {}) (dbase s) (dbase t)"
      using distributes_mark [OF only_credits_refl, of "dbase s" f b] d b distributes_refl by (simp add: t(2))
    ultimately show ?thesis using step [of t] t v(1) True m by auto
  next
    case False
    obtain r t where r: "distribute_block io agg now v b s = Ok (r, t)" "store_ok t" "saved t = None" "r = None \<longrightarrow> dbase t = dbase s"
      "r \<noteq> None \<longrightarrow> (\<exists>d. only_credits (dbase s) d \<and> accrued (dbase s) \<le> accrued d \<and> accrued d \<le> accrued (dbase s) + v \<and> dbase t = sql_mark (bk_id b) d)"
      "(\<forall>n. io n = Done) \<longrightarrow> r \<noteq> None"
      using distribute_block_effect [OF assms Cons.prems(1-3), of v now b] False v(2) by auto
    show ?thesis
    proof (cases r)
      case None
      then show ?thesis using r v(1) False distributes_refl by (intro exI [of _ "-1"] exI [of _ nb] exI [of _ nw] exI [of _ t] exI [of _ "{}"]) auto
    next
      case (Some n)
      then obtain d where d: "only_credits (dbase s) d" "accrued (dbase s) \<le> accrued d" "accrued d \<le> accrued (dbase s) + v" "dbase t = sql_mark (bk_id b) d"
        using r(5) by auto
      have "pay f b = v" using v(1) False by (simp add: pay_def)
      moreover have "db_ok d" 
      proof -
        have "db_ok (sql_mark (bk_id b) d)" using r(2) d(4) by (simp add: store_ok_def)
        then show ?thesis by (simp add: db_ok_def sql_mark_def worker_ids_def comp_def if_distrib cong: if_cong)
      qed
      ultimately have "distributes f {bk_id b} (dbase s) (dbase t)" using distributes_mark [OF d(1,2), of f b] d(3,4) b by simp
      then show ?thesis using step [of t "{bk_id b}"] r v(1) False Some by auto
    qed
  qed
qed

lemma set_due: "b \<in> set (due_blocks m d) \<longleftrightarrow>
    b \<in> set (blocks d) \<and> bk_status b = ''confirmed'' \<and> bk_distributed b = 0 \<and> m \<le> bk_confirmations b \<and> d_gt (bk_window b) (Fin 0)"
  by (auto simp: due_blocks_def)

lemma distinct_due: "db_ok d \<Longrightarrow> distinct (map bk_id (due_blocks m d))"
proof -
  assume "db_ok d"
  then have "distinct (map bk_id (blocks d))" using ids_ok_distinct by (auto simp: db_ok_def)
  then have "distinct (map bk_id (filter P (blocks d)))" for P by (simp add: distinct_map_filter)
  then show ?thesis by (simp add: due_blocks_def distinct_map)
qed

text \<open>One pass.\<close>

lemma distribute_effect:
  assumes "no_auto_rollback io" and "accurate_sum agg" and "small_ledger (dbase s)" and "store_ok s" and "saved s = None"
  shows "\<exists>rc nb nw s' I. store_pplns_distribute io agg now m f s = Ok (rc, nb, nw, s') \<and> store_ok s' \<and> saved s' = None \<and>
    I \<subseteq> bk_id ` set (due_blocks (max 0 m) (dbase s)) \<and> distributes f I (dbase s) (dbase s') \<and>
    ((\<forall>n. io n = Done) \<longrightarrow> I = bk_id ` set (due_blocks (max 0 m) (dbase s)))"
proof -
  define m0 where "m0 = max 0 m"
  have mx: "(if m < 0 then 0 else m) = m0" by (simp add: m0_def)
  let ?s = "s\<lparr>calls := calls s + 1\<rparr>"
  show ?thesis
  proof (cases "io (calls s) = Done")
    case False
    then have "store_pplns_distribute io agg now m f s = Ok (-1, 0, 0, ?s)" by (simp add: store_pplns_distribute_def sql_prepare_def)
    moreover have "\<not> (\<forall>n. io n = Done)" using False by blast
    ultimately show ?thesis using assms(4,5) distributes_refl [of f "dbase s"] by fastforce
  next
    case True
    obtain r s1 where q: "sql_query io (due_blocks m0) ?s = (r, s1)" by fastforce
    note k = sql_query_kept [OF q assms(1)]
    define bs where "bs = (case r of None \<Rightarrow> [] | Some bs \<Rightarrow> bs)"
    have bs: "set bs \<subseteq> set (due_blocks m0 (dbase s))" "(\<forall>n. io n = Done) \<longrightarrow> bs = due_blocks m0 (dbase s)" "distinct (map bk_id bs)"
      using k distinct_due [of "dbase s" m0] assms(4) by (auto simp: bs_def store_ok_def)
    then have l: "\<forall>b \<in> set bs. b \<in> set (blocks (dbase s1)) \<and> bk_distributed b = 0" using k by (auto simp: set_due)
    have "small_ledger (dbase s1)" "store_ok s1" "saved s1 = None" using k assms by simp_all
    from distribute_loop_effect [OF assms(1,2) this bs(3) l, of now f 0 0] obtain rc nb' nw' s' I where
      d: "distribute_loop io agg now f bs 0 0 s1 = Ok (rc, nb', nw', s')" "store_ok s'" "saved s' = None" "I \<subseteq> bk_id ` set bs"
        "distributes f I (dbase s1) (dbase s')" "(\<forall>n. io n = Done) \<longrightarrow> I = bk_id ` set bs" by blast
    have "store_pplns_distribute io agg now m f s = Ok (rc, nb', nw', s')"
      using True q d(1) by (simp add: store_pplns_distribute_def sql_prepare_def mx bs_def)
    then show ?thesis using d bs k unfolding m0_def
      by (intro exI [of _ rc] exI [of _ nb'] exI [of _ nw'] exI [of _ s'] exI [of _ I]) auto
  qed
qed

text \<open>With SQLite answering, nothing stays due.\<close>

lemma nothing_due:
  assumes "distributes f (bk_id ` set (due_blocks m d)) d d'"
  shows "due_blocks m d' = []"
proof -
  have "\<not> b \<in> set (due_blocks m d')" for b
  proof
    assume b: "b \<in> set (due_blocks m d')"
    then obtain c where c: "c \<in> set (blocks d)" "b = latch (bk_id ` set (due_blocks m d)) c"
      using distributes_blocks [OF assms] by (auto simp: set_due)
    show False
    proof (cases "bk_id c \<in> bk_id ` set (due_blocks m d)")
      case True
      then show ?thesis using b c(2) by (simp add: set_due latch_def)
    next
      case False
      then show ?thesis using b c by (auto simp: set_due latch_def)
    qed
  qed
  then show ?thesis by (metis length_greater_0_conv nth_mem)
qed

text \<open>Passes one after the other, each with its own fate, time and maturity.\<close>

fun distribute_passes :: "sql_sum \<Rightarrow> int \<Rightarrow> (sqlite \<times> int \<times> int) list \<Rightarrow> store \<Rightarrow> store res" where
  "distribute_passes agg f [] s = Ok s"
| "distribute_passes agg f ((io, now, m) # ps) s =
     bindR (store_pplns_distribute io agg now m f s) (\<lambda>(rc, nb, nw, s). distribute_passes agg f ps s)"

lemma distribute_passes_effect:
  assumes "\<forall>(io, now, m) \<in> set ps. no_auto_rollback io" and "accurate_sum agg" and "small_ledger (dbase s)" and "store_ok s" and "saved s = None"
  shows "\<exists>s' I. distribute_passes agg f ps s = Ok s' \<and> saved s' = None \<and> distributes f I (dbase s) (dbase s') \<and>
    (\<forall>b \<in> set (blocks (dbase s)). bk_id b \<in> I \<longrightarrow> bk_status b = ''confirmed'' \<and> bk_distributed b = 0)"
  using assms
proof (induction ps arbitrary: s)
  case Nil
  then show ?case using distributes_refl by fastforce
next
  case (Cons p ps)
  obtain io now m where p: "p = (io, now, m)" by (metis prod_cases3)
  have n: "no_auto_rollback io" using Cons.prems(1) p by simp
  obtain rc nb nw s1 I where r: "store_pplns_distribute io agg now m f s = Ok (rc, nb, nw, s1)" "store_ok s1" "saved s1 = None"
    "I \<subseteq> bk_id ` set (due_blocks (max 0 m) (dbase s))" "distributes f I (dbase s) (dbase s1)"
    using distribute_effect [OF n Cons.prems(2-5), of now m f] by blast
  obtain s' J where t: "distribute_passes agg f ps s1 = Ok s'" "saved s' = None" "distributes f J (dbase s1) (dbase s')"
    "\<forall>b \<in> set (blocks (dbase s1)). bk_id b \<in> J \<longrightarrow> bk_status b = ''confirmed'' \<and> bk_distributed b = 0"
    using Cons.IH [of s1] Cons.prems distributes_small [OF r(5)] r(2,3) by auto
  have inj: "b = c" if "b \<in> set (blocks (dbase s))" "c \<in> set (blocks (dbase s))" "bk_id b = bk_id c" for b c
  proof -
    have "distinct (map bk_id (blocks (dbase s)))" using Cons.prems(4) ids_ok_distinct by (auto simp: store_ok_def db_ok_def)
    then show ?thesis using that by (metis distinct_map inj_on_eq_iff)
  qed
  have "bk_status b = ''confirmed'' \<and> bk_distributed b = 0" if b: "b \<in> set (blocks (dbase s))" "bk_id b \<in> I \<union> J" for b
  proof (cases "bk_id b \<in> I")
    case True
    then obtain c where "c \<in> set (due_blocks (max 0 m) (dbase s))" "bk_id b = bk_id c" using r(4) by auto
    then show ?thesis using inj [of b c] b(1) by (auto simp: set_due)
  next
    case False
    then have "latch I b = b" by (simp add: latch_def)
    then have "b \<in> set (blocks (dbase s1))" using distributes_blocks [OF r(5)] b(1) by (metis image_eqI list.set_map)
    then show ?thesis using t(4) b(2) False by blast
  qed
  then show ?case using r(1) t(1,2) distributes_trans [OF r(5) t(3)] p by (intro exI [of _ s'] exI [of _ "I \<union> J"]) simp
qed

section \<open>What a distribution credits\<close>

text \<open>What a block gives a worker: its truncated share of the amount the block has to give.\<close>

definition share_amount :: "int \<Rightarrow> double \<Rightarrow> double \<Rightarrow> int" where
  "share_amount payable wd tot = (if d_gt tot (Fin 0) \<and> d_gt wd (Fin 0) then (case prop_share payable wd tot of Ok k \<Rightarrow> max 0 k | _ \<Rightarrow> 0) else 0)"

definition row_credits :: "int \<Rightarrow> (int \<times> double \<times> double) list \<Rightarrow> int \<Rightarrow> int" where
  "row_credits payable rows i = sum_list (map (\<lambda>(w, wd, tot). if w = i then share_amount payable wd tot else 0) rows)"

definition block_credits :: "sql_sum \<Rightarrow> int \<Rightarrow> db \<Rightarrow> block_row \<Rightarrow> int \<Rightarrow> int" where
  "block_credits agg fee_bps d b i =
     (if 0 < pay fee_bps b then row_credits (pay fee_bps b) (window_query agg (c_copy HASH_STR_MAX (bk_hash b)) (bk_window b) d) i else 0)"

lemma worker_balance_mark [simp]: "worker_balance (sql_mark k d) i = worker_balance d i"
  by (simp add: worker_balance_def sql_mark_def)

lemma credit_rows_exact:
  assumes "no_auto_rollback io" and "0 < P"
  shows "store_ok s \<Longrightarrow> credit_rows io now P rows n s = Ok (True, n', s') \<Longrightarrow> worker_balance (dbase s') i = worker_balance (dbase s) i + row_credits P rows i"
proof (induction rows arbitrary: n s)
  case Nil
  then show ?case by (simp add: row_credits_def)
next
  case (Cons p rows)
  obtain w wd tot where p: "p = (w, wd, tot)" by (cases p) auto
  have rc: "row_credits P (p # rows) i = (if w = i then share_amount P wd tot else 0) + row_credits P rows i" by (simp add: row_credits_def p)
  show ?case
  proof (cases "d_gt tot (Fin 0) \<and> d_gt wd (Fin 0)")
    case False
    then have "share_amount P wd tot = 0" by (auto simp: share_amount_def)
    moreover have "credit_rows io now P rows n s = Ok (True, n', s')" using Cons.prems(2) False by (auto simp: p)
    ultimately show ?thesis using Cons.IH [OF Cons.prems(1)] rc by simp
  next
    case True
    then obtain k where k: "prop_share P wd tot = Ok k" using Cons.prems(2) by (auto simp: p bindR_Ok_iff)
    show ?thesis
    proof (cases "k \<le> 0")
      case t: True
      then have "share_amount P wd tot = 0" using k by (simp add: share_amount_def)
      moreover have "credit_rows io now P rows n s = Ok (True, n', s')" using Cons.prems(2) True t k by (auto simp: p)
      ultimately show ?thesis using Cons.IH [OF Cons.prems(1)] rc by simp
    next
      case f: False
      then have a: "share_amount P wd tot = k" using k True by (simp add: share_amount_def)
      obtain r s1 where s1: "sql_step io (unit_step (sql_upsert_credit w k now)) s = (r, s1)" by fastforce
      have rest: "r \<noteq> None" "credit_rows io now P rows (n + 1) s1 = Ok (True, n', s')"
        using Cons.prems(2) True f k s1 by (auto simp: p split: if_splits)
      have ok1: "store_ok s1" using sql_step_ok [OF s1 Cons.prems(1)] by (auto simp: unit_step_def upsert_credit_ok)
      from s1 assms(1) show ?thesis
      proof (cases rule: sql_step_cases)
        case (ok x d)
        then have u: "sql_upsert_credit w k now (dbase s) = Some d" by (auto simp: unit_step_def)
        have "db_ok (dbase s)" using Cons.prems(1) by (simp add: store_ok_def)
        then have "worker_balance d i = worker_balance (dbase s) i + (if i = w then k else 0)" by (rule worker_balance_credit [OF u])
        then show ?thesis using Cons.IH [OF ok1 rest(2)] rc a ok(3) by auto
      qed (use rest in simp)
    qed
  qed
qed

lemma window_query_shares: "shares d' = shares d \<Longrightarrow> window_query agg hash window d' = window_query agg hash window d"
proof -
  assume "shares d' = shares d"
  then have "anchored hash d' = anchored hash d" by (simp add: anchored_def anchor_id_def cong: option.case_cong)
  then show ?thesis by (simp add: window_query_def)
qed

lemma distribute_block_exact:
  assumes "\<forall>n. io n = Done" and "store_ok s" and "saved s = None" and "0 < P" and "distribute_block io agg now P b s = Ok (Some n, s')"
  shows "worker_balance (dbase s') i = worker_balance (dbase s) i + row_credits P (window_query agg (c_copy HASH_STR_MAX (bk_hash b)) (bk_window b) (dbase s)) i"
proof -
  have nr: "no_auto_rollback io" using assms(1) by (simp add: no_auto_rollback_def)
  let ?s = "s\<lparr>saved := Some (dbase s), calls := Suc (Suc (Suc (Suc (Suc (calls s)))))\<rparr>"
  have "bindR (credit_rows io now P (window_query agg (c_copy HASH_STR_MAX (bk_hash b)) (bk_window b) (dbase s)) 0 ?s) (\<lambda>(ok, n, s).
            if \<not> ok then Ok (None, txn_rollback s)
            else let (ok, s) = sql_exec io (sql_mark (bk_id b)) s in
              if \<not> ok then Ok (None, txn_rollback s)
              else let (ok, s) = txn_commit io s in Ok (if ok then Some n else None, s)) = Ok (Some n, s')"
    using assms(5) assms(1,3) by (simp add: distribute_block_def txn_begin_def sql_begin_def sql_prepare_def query_done Let_def)
  then obtain n1 s1 where c: "credit_rows io now P (window_query agg (c_copy HASH_STR_MAX (bk_hash b)) (bk_window b) (dbase s)) 0 ?s = Ok (True, n1, s1)"
    and e: "(let (ok, s) = sql_exec io (sql_mark (bk_id b)) s1 in if \<not> ok then Ok (None, txn_rollback s)
              else let (ok, s) = txn_commit io s in Ok (if ok then Some n1 else None, s)) = Ok (Some n, s')"
    by (auto simp: bindR_Ok_iff split: if_splits prod.splits)
  have "store_ok ?s" using assms(2) by (simp add: store_ok_def)
  from credit_rows_exact [OF nr assms(4) this c] have w: "worker_balance (dbase s1) i = worker_balance (dbase s) i + row_credits P (window_query agg (c_copy HASH_STR_MAX (bk_hash b)) (bk_window b) (dbase s)) i" by simp
  have "dbase s' = sql_mark (bk_id b) (dbase s1)"
    using e assms(1) by (auto simp: sql_exec_def sql_step_def txn_commit_def sql_commit_def Let_def split: if_splits prod.splits)
  then show ?thesis using w by simp
qed

lemma distributes_shares: "distributes f I d d' \<Longrightarrow> shares d' = shares d"
  unfolding distributes_def by (metis db.select_convs(3) db.surjective db.update_convs(7,17))

lemma block_credits_shares: "shares d' = shares d \<Longrightarrow> block_credits agg f d' b i = block_credits agg f d b i"
  using window_query_shares [of d' d] by (simp only: block_credits_def)

text \<open>The loop, when SQLite answers: every worker gets its share of every due block.\<close>

lemma distribute_loop_exact:
  assumes "\<forall>n. io n = Done" and "accurate_sum agg"
  shows "small_ledger (dbase s) \<Longrightarrow> store_ok s \<Longrightarrow> saved s = None \<Longrightarrow> distinct (map bk_id bs) \<Longrightarrow>
    (\<forall>b \<in> set bs. b \<in> set (blocks (dbase s)) \<and> bk_distributed b = 0) \<Longrightarrow> distribute_loop io agg now f bs nb nw s = Ok (rc, nb', nw', s') \<Longrightarrow>
    worker_balance (dbase s') i = worker_balance (dbase s) i + sum_list (map (\<lambda>b. block_credits agg f (dbase s) b i) bs)"
proof (induction bs arbitrary: nb nw s)
  case (Cons b bs)
  have nr: "no_auto_rollback io" using assms(1) by (simp add: no_auto_rollback_def)
  have b: "b \<in> set (blocks (dbase s))" "bk_distributed b = 0" using Cons.prems(5) by auto
  obtain v where v: "block_payable f (block_gross b) = Ok v" "v \<le> 2 ^ 42"
    using block_payable_ok [of "block_gross b" f] Cons.prems(1) b(1) by (force simp: small_ledger_def)
  have step: "worker_balance (dbase s') i = worker_balance (dbase s) i + sum_list (map (\<lambda>b. block_credits agg f (dbase s) b i) (b # bs))"
    if t: "store_ok t" "saved t = None" "distributes f {bk_id b} (dbase s) (dbase t)" "worker_balance (dbase t) i = worker_balance (dbase s) i + block_credits agg f (dbase s) b i"
      "distribute_loop io agg now f bs nb1 nw1 t = Ok (rc, nb', nw', s')" for t nb1 nw1
  proof -
    have "x \<in> set (blocks (dbase t))" if "x \<in> set bs" for x
    proof -
      have "bk_id x \<noteq> bk_id b" using that Cons.prems(4) by (auto simp: image_iff)
      then have "latch {bk_id b} x = x" by (simp add: latch_def)
      then show ?thesis using distributes_blocks [OF t(3)] that Cons.prems(5) by (metis image_eqI list.set_intros(2) list.set_map)
    qed
    then have l: "\<forall>b \<in> set bs. b \<in> set (blocks (dbase t)) \<and> bk_distributed b = 0" using Cons.prems(5) by simp
    have "distinct (map bk_id bs)" using Cons.prems(4) by simp
    from Cons.IH [OF distributes_small [OF t(3) Cons.prems(1)] t(1,2) this l t(5)] show ?thesis
      using t(4) block_credits_shares [OF distributes_shares [OF t(3)]] by simp
  qed
  show ?case
  proof (cases "v \<le> 0")
    case True
    obtain p ok t where m: "prepared_exec io (sql_mark (bk_id b)) s = (p, ok, t)" by (metis prod_cases3)
    have t: "saved t = None" "dbase t = sql_mark (bk_id b) (dbase s)" using prepared_exec_cases [OF m nr] Cons.prems(3) assms(1) by simp_all
    have d: "db_ok (dbase s)" using Cons.prems(2) by (simp add: store_ok_def)
    have "store_ok t" using t d mark_ok by (simp add: store_ok_def)
    moreover have z: "pay f b = 0" using v(1) True by (simp add: pay_def)
    then have "distributes f {bk_id b} (dbase s) (dbase t)" using distributes_mark [OF only_credits_refl, of "dbase s" f b] d b by (simp add: t(2))
    moreover have "distribute_loop io agg now f bs nb nw t = Ok (rc, nb', nw', s')" using Cons.prems(6) v(1) True m by simp
    ultimately show ?thesis using step t z by (simp add: block_credits_def)
  next
    case False
    obtain r t where r: "distribute_block io agg now v b s = Ok (r, t)" "store_ok t" "saved t = None"
      "r \<noteq> None \<longrightarrow> (\<exists>d. only_credits (dbase s) d \<and> accrued (dbase s) \<le> accrued d \<and> accrued d \<le> accrued (dbase s) + v \<and> dbase t = sql_mark (bk_id b) d)"
      "r \<noteq> None"
      using distribute_block_effect [OF nr assms(2) Cons.prems(1-3), of v now b] False v(2) assms(1) by auto
    then obtain n where n: "r = Some n" by blast
    then obtain d where d: "only_credits (dbase s) d" "accrued (dbase s) \<le> accrued d" "accrued d \<le> accrued (dbase s) + v" "dbase t = sql_mark (bk_id b) d"
      using r(4) by auto
    have pv: "pay f b = v" using v(1) False by (simp add: pay_def)
    have "db_ok d"
    proof -
      have "db_ok (sql_mark (bk_id b) d)" using r(2) d(4) by (simp add: store_ok_def)
      then show ?thesis by (simp add: db_ok_def sql_mark_def worker_ids_def comp_def if_distrib cong: if_cong)
    qed
    then have "distributes f {bk_id b} (dbase s) (dbase t)" using distributes_mark [OF d(1,2), of f b] d(3,4) b pv by simp
    moreover have "worker_balance (dbase t) i = worker_balance (dbase s) i + block_credits agg f (dbase s) b i"
      using distribute_block_exact [OF assms(1) Cons.prems(2,3) _ r(1) [unfolded n]] False pv by (simp add: block_credits_def)
    moreover have "distribute_loop io agg now f bs (nb + 1) (nw + n) t = Ok (rc, nb', nw', s')" using Cons.prems(6) v(1) False r(1) n by simp
    ultimately show ?thesis using step r(2,3) by blast
  qed
qed simp

lemma distribute_exact:
  assumes "\<forall>n. io n = Done" and "accurate_sum agg" and "small_ledger (dbase s)" and "store_ok s" and "saved s = None" and "0 \<le> m"
    and "store_pplns_distribute io agg now m f s = Ok (rc, nb, nw, s')"
  shows "worker_balance (dbase s') i = worker_balance (dbase s) i + sum_list (map (\<lambda>b. block_credits agg f (dbase s) b i) (due_blocks m (dbase s)))"
proof -
  have ds: "distinct (map bk_id (due_blocks m (dbase s)))"
    using assms(4) by (simp add: distinct_due store_ok_def)
  have l: "distribute_loop io agg now f (due_blocks m (dbase s)) 0 0 (s\<lparr>calls := Suc (Suc (calls s))\<rparr>) = Ok (rc, nb, nw, s')"
    using assms(1,6,7) by (simp add: store_pplns_distribute_def sql_prepare_def query_done Let_def not_less)
  show ?thesis using distribute_loop_exact [OF assms(1,2) _ _ _ ds _ l, of i] assms(3-5) by (simp add: store_ok_def set_due)
qed

text \<open>
  C3: a block is distributed at most once and never pays out more than it earned: over any number of
  passes, however SQLite answers and with all divisions in floating point, no pass has undefined
  behaviour, the balances of the miners together grow by at most what the newly latched blocks had to
  give, only confirmed blocks are latched, and a pass in which SQLite answers leaves no matured block
  undistributed.
\<close>

theorem distribution_within_blocks:
  assumes "\<forall>(io, now, m) \<in> set ps. no_auto_rollback io" and "accurate_sum agg" and "small_ledger (dbase s)" and "store_ok s" and "saved s = None"
  shows "\<exists>s' I. distribute_passes agg f ps s = Ok s' \<and> blocks (dbase s') = map (latch I) (blocks (dbase s)) \<and> shares (dbase s') = shares (dbase s) \<and>
    accrued (dbase s) \<le> accrued (dbase s') \<and> accrued (dbase s') - accrued (dbase s) \<le> latched_pay f (dbase s') - latched_pay f (dbase s) \<and>
    (\<forall>b \<in> set (blocks (dbase s)). bk_id b \<in> I \<longrightarrow> bk_status b = ''confirmed'' \<and> bk_distributed b = 0) \<and>
    (\<forall>now m. ps = [(\<lambda>n. Done, now, m)] \<longrightarrow> due_blocks (max 0 m) (dbase s') = [])"
proof -
  obtain s' I where r: "distribute_passes agg f ps s = Ok s'" "distributes f I (dbase s) (dbase s')"
    "\<forall>b \<in> set (blocks (dbase s)). bk_id b \<in> I \<longrightarrow> bk_status b = ''confirmed'' \<and> bk_distributed b = 0"
    using distribute_passes_effect [OF assms] by blast
  have "due_blocks (max 0 m) (dbase s') = []" if "ps = [(\<lambda>n. Done, now, m)]" for now m
  proof -
    have "no_auto_rollback (\<lambda>n. Done)" by (simp add: no_auto_rollback_def)
    from distribute_effect [OF this assms(2-5), of now m f] obtain rc nb nw t J where
      t: "store_pplns_distribute (\<lambda>n. Done) agg now m f s = Ok (rc, nb, nw, t)" "distributes f J (dbase s) (dbase t)"
        "(\<forall>n :: nat. Done = Done) \<longrightarrow> J = bk_id ` set (due_blocks (max 0 m) (dbase s))"
      by blast
    then have "due_blocks (max 0 m) (dbase t) = []" using nothing_due [of f "max 0 m" "dbase s" "dbase t"] by simp
    then show ?thesis using r(1) that t(1) by simp
  qed
  moreover have "shares (dbase s') = shares (dbase s)" using r(2) unfolding distributes_def by (metis db.select_convs(3) db.surjective db.update_convs(7,17))
  ultimately show ?thesis using r distributes_blocks [OF r(2)]
    by (intro exI [of _ s'] exI [of _ I]) (auto simp: distributes_def)
qed

theorem distribution_within_blocks_witness:
  "\<exists>s'. distribute_passes plain_sum 100 [(\<lambda>n. Fail, 7, 100), (\<lambda>n. Done, 7, 100), (\<lambda>n. Done, 8, 100)] demo_ledger = Ok s' \<and>
     accrued (dbase s') \<le> 600"
proof -
  have l: "latched_pay 100 (dbase demo_ledger) = 0" "accrued (dbase demo_ledger) = 0" "blocks (dbase demo_ledger) \<noteq> []"
    by (simp_all add: latched_pay_def accrued_def demo_ledger_def store_open_def empty_db_def)
  have sm: "small_ledger (dbase demo_ledger)"
    by (auto simp: small_ledger_def plain_difficulties_def demo_ledger_def store_open_def block_gross_def)
  have "block_payable 100 600 = Ok 600" by (simp add: block_payable_def COINBASE_DUST_SATS_def i64_ok_def sdiv_nonneg Let_def)
  then have p: "latched_pay 100 d \<le> 600" if "blocks d = map (latch I) (blocks (dbase demo_ledger))" for d I
    using that by (simp add: latched_pay_def demo_ledger_def store_open_def pay_def block_gross_def latch_def)
  have ps: "\<forall>(io, now, m) \<in> set [(\<lambda>n. Fail, 7 :: int, 100 :: int), (\<lambda>n. Done, 7, 100), (\<lambda>n. Done, 8, 100)]. no_auto_rollback io"
    by (simp add: no_auto_rollback_def)
  have "store_ok demo_ledger" "saved demo_ledger = None" using demo_ledger_ok by blast+
  from distribution_within_blocks [OF ps plain_sum_accurate sm this, of 100] obtain s' I where
    r: "distribute_passes plain_sum 100 [(\<lambda>n. Fail, 7, 100), (\<lambda>n. Done, 7, 100), (\<lambda>n. Done, 8, 100)] demo_ledger = Ok s'"
      "blocks (dbase s') = map (latch I) (blocks (dbase demo_ledger))" "accrued (dbase s') - accrued (dbase demo_ledger) \<le> latched_pay 100 (dbase s') - latched_pay 100 (dbase demo_ledger)"
    by blast
  then have "accrued (dbase s') \<le> 600" using p [OF r(2)] l by simp
  with r(1) show ?thesis by blast
qed

end
