(* ===== verification/Settlement.thy ===== *)
theory Settlement
  imports Distribution "HOL-Library.Multiset"
begin

text \<open>
  The fate of a found block: the verdict of the observed chain of templates
  (\<^verbatim>\<open>store_reconcile_blocks_from_templates\<close>) and the settlement of the payout queue it staged
  (\<^verbatim>\<open>store_settle_block_fractions\<close>).
\<close>

section \<open>Settling queue fractions\<close>

text \<open>The verdict on a block.\<close>

definition verdict :: "db \<Rightarrow> string \<Rightarrow> string option" where
  "verdict d h = map_option bk_status (find (\<lambda>b. bk_hash b = h) (blocks d))"

definition decided :: "db \<Rightarrow> string \<Rightarrow> bool" where
  "decided d h \<longleftrightarrow> verdict d h = Some ''confirmed'' \<or> verdict d h = Some ''orphaned''"

definition staged_ok :: "db \<Rightarrow> bool" where
  "staged_ok d \<longleftrightarrow> hash_unique d \<and> (\<forall>p \<in> set (pending d). length (pf_hash p) < 80 \<and> pf_worker p \<in> set (worker_ids d))"

lemma apply_one_some: "pf_worker p \<in> set (worker_ids d) \<Longrightarrow> \<exists>d'. sql_apply_one now p d = Some d'"
  by (cases "pf_worker p \<in> set (map fr_worker (fractions d))") (simp_all add: sql_apply_one_def)

text \<open>Applying rows changes the fractions only.\<close>

definition only_fractions :: "db \<Rightarrow> db \<Rightarrow> bool" where
  "only_fractions d d' \<longleftrightarrow> d' = d\<lparr>fractions := fractions d'\<rparr>"

lemma only_fractions_simps:
  assumes "only_fractions d d'"
  shows "pending d' = pending d" "worker_ids d' = worker_ids d" "blocks d' = blocks d" "hash_unique d' = hash_unique d"
  using assms unfolding only_fractions_def by (metis db.select_convs db.surjective db.update_convs(18) worker_ids_update(17))+

lemma only_fractions_trans: "only_fractions d d' \<Longrightarrow> only_fractions d' d'' \<Longrightarrow> only_fractions d d''"
  unfolding only_fractions_def by (metis db.surjective db.update_convs(18))

lemma apply_one_only: "sql_apply_one now p d = Some d' \<Longrightarrow> only_fractions d d'"
  by (auto simp: sql_apply_one_def only_fractions_def split: if_splits)

lemma apply_rows_some:
  "\<forall>p \<in> set ps. pf_worker p \<in> set (worker_ids d) \<Longrightarrow> \<exists>d'. apply_rows now ps d = Some d' \<and> only_fractions d d'"
proof (induction ps arbitrary: d)
  case Nil
  then show ?case by (simp add: only_fractions_def)
next
  case (Cons p ps)
  obtain d1 where d1: "sql_apply_one now p d = Some d1" using apply_one_some Cons.prems by fastforce
  have o: "only_fractions d d1" by (rule apply_one_only [OF d1])
  from Cons.IH [of d1] Cons.prems only_fractions_simps(2) [OF o] obtain d' where "apply_rows now ps d1 = Some d'" "only_fractions d1 d'" by auto
  then show ?case using d1 only_fractions_trans [OF o] by auto
qed

lemma apply_rows_append: "apply_rows now (ps @ qs) d = (case apply_rows now ps d of None \<Rightarrow> None | Some d' \<Rightarrow> apply_rows now qs d')"
  by (induction ps arbitrary: d) (auto split: option.splits)

lemma apply_rows_pending: "apply_rows now ps (d\<lparr>pending := q\<rparr>) = map_option (\<lambda>d. d\<lparr>pending := q\<rparr>) (apply_rows now ps d)"
proof (induction ps arbitrary: d)
  case (Cons p ps)
  have "sql_apply_one now p (d\<lparr>pending := q\<rparr>) = map_option (\<lambda>d. d\<lparr>pending := q\<rparr>) (sql_apply_one now p d)"
    by (auto simp: sql_apply_one_def)
  then show ?case using Cons.IH by (auto split: option.splits)
qed simp

text \<open>The state after settling the hashes \<open>H\<close>: the staged rows of the confirmed ones applied once each, all of them gone.\<close>

definition settles :: "int \<Rightarrow> string set \<Rightarrow> string set \<Rightarrow> db \<Rightarrow> db \<Rightarrow> bool" where
  "settles now C H d d' \<longleftrightarrow>
     (\<exists>rows d1. mset rows = mset (filter (\<lambda>p. pf_hash p \<in> C) (pending d)) \<and> apply_rows now rows d = Some d1 \<and> only_fractions d d1 \<and>
        d' = d1\<lparr>pending := filter (\<lambda>p. pf_hash p \<notin> H) (pending d)\<rparr>)"

lemma settles_refl: "settles now {} {} d d"
  unfolding settles_def by (rule exI [of _ "[]"], rule exI [of _ d]) (simp add: only_fractions_def)

lemma settles_step:
  assumes "settles now C H d d'" and "C \<subseteq> H" and "h \<notin> H" and "staged_ok d"
  shows "settles now C (insert h H) d (sql_drop h d')"
    and "\<exists>d2. sql_apply now h d' = Some d2 \<and> settles now (insert h C) (insert h H) d (sql_drop h d2)"
proof -
  obtain rows d1 where r: "mset rows = mset (filter (\<lambda>p. pf_hash p \<in> C) (pending d))" "apply_rows now rows d = Some d1" "only_fractions d d1"
    "d' = d1\<lparr>pending := filter (\<lambda>p. pf_hash p \<notin> H) (pending d)\<rparr>"
    using assms(1) by (auto simp: settles_def)
  have f: "filter (\<lambda>p. pf_hash p \<noteq> h) (filter (\<lambda>p. pf_hash p \<notin> H) (pending d)) = filter (\<lambda>p. pf_hash p \<notin> insert h H) (pending d)"
    by (auto intro: filter_cong)
  show "settles now C (insert h H) d (sql_drop h d')"
    unfolding settles_def by (rule exI [of _ rows], rule exI [of _ d1]) (use r f in \<open>simp add: sql_drop_def\<close>)
  let ?q = "filter (\<lambda>p. pf_hash p = h) (pending d)"
  have q: "filter (\<lambda>p. pf_hash p = h) (pending d') = ?q" using assms(3) by (auto simp: r(4) intro: filter_cong)
  have "\<forall>p \<in> set ?q. pf_worker p \<in> set (worker_ids d1)" using assms(4) only_fractions_simps(2) [OF r(3)] by (auto simp: staged_ok_def)
  then obtain d2 where d2: "apply_rows now ?q d1 = Some d2" "only_fractions d1 d2" using apply_rows_some by blast
  have "mset (rows @ ?q) = mset (filter (\<lambda>p. pf_hash p \<in> insert h C) (pending d))"
  proof -
    have "h \<notin> C" using assms(2,3) by blast
    then have "mset (filter (\<lambda>p. pf_hash p \<in> insert h C) xs) = mset (filter (\<lambda>p. pf_hash p \<in> C) xs) + mset (filter (\<lambda>p. pf_hash p = h) xs)" for xs
      by (induction xs) auto
    from this [of "pending d"] show ?thesis using r(1) by (simp only: mset_append)
  qed
  moreover have "apply_rows now (rows @ ?q) d = Some d2" by (simp add: apply_rows_append r(2) d2)
  moreover have "sql_apply now h d' = Some (d2\<lparr>pending := filter (\<lambda>p. pf_hash p \<notin> H) (pending d)\<rparr>)"
    unfolding sql_apply_def q by (simp add: r(4) apply_rows_pending d2(1))
  ultimately show "\<exists>d2. sql_apply now h d' = Some d2 \<and> settles now (insert h C) (insert h H) d (sql_drop h d2)"
    using only_fractions_trans [OF r(3) d2(2)] f unfolding settles_def
    by (intro exI [of _ "d2\<lparr>pending := filter (\<lambda>p. pf_hash p \<notin> H) (pending d)\<rparr>"] conjI exI [of _ "rows @ ?q"] exI [of _ d2]) (simp_all add: sql_drop_def)
qed

text \<open>The loop over the hashes.\<close>

lemma settle_rows_effect:
  assumes "no_auto_rollback io" and "staged_ok d"
  shows "settles now C H d (dbase s) \<Longrightarrow> C \<subseteq> H \<Longrightarrow> distinct (map fst hs) \<Longrightarrow> fst ` set hs \<inter> H = {} \<Longrightarrow> (\<forall>(h, st) \<in> set hs. length h < 80) \<Longrightarrow>
    settle_rows io now hs a x s = (r, s') \<Longrightarrow>
    saved s' = saved s \<and>
    (\<forall>n m. r = Some (n, m) \<longrightarrow> n = a + length (filter (\<lambda>(h, st). st = ''confirmed'') hs) \<and> m = x + length (filter (\<lambda>(h, st). st \<noteq> ''confirmed'') hs) \<and>
       settles now (C \<union> {h. (h, ''confirmed'') \<in> set hs}) (H \<union> fst ` set hs) d (dbase s')) \<and>
    ((\<forall>n. io n = Done) \<longrightarrow> r \<noteq> None)"
proof (induction hs arbitrary: C H a x s)
  case Nil
  then show ?case by auto
next
  case (Cons p hs)
  obtain h st where p: "p = (h, st)" by (cases p)
  have h: "h \<notin> H" "c_copy 80 h = h" using Cons.prems(4,5) by (auto simp: p c_copy_def)
  obtain ok s1 where s1: "settle_apply io now h (st = ''confirmed'') s = (ok, s1)" by fastforce
  obtain ok2 s2 where s2: "sql_exec io (sql_drop h) (s1\<lparr>calls := Suc (calls s1)\<rparr>) = (ok2, s2)" by fastforce
  obtain d2 where d2: "sql_apply now h (dbase s) = Some d2" "settles now (insert h C) (insert h H) d (sql_drop h d2)"
    using settles_step(2) [OF Cons.prems(1,2) h(1) assms(2)] by blast
  have a1: "saved s1 = saved s \<and> (ok \<longrightarrow> dbase s1 = (if st = ''confirmed'' then d2 else dbase s)) \<and> ((\<forall>n. io n = Done) \<longrightarrow> ok)"
  proof (cases "st = ''confirmed''")
    case True
    obtain r t where t: "sql_step io (unit_step (sql_apply now h)) (s\<lparr>calls := Suc (calls s)\<rparr>) = (r, t)" by fastforce
    have "saved t = saved s \<and> (r \<noteq> None \<longrightarrow> dbase t = d2) \<and> ((\<forall>n. io n = Done) \<longrightarrow> r \<noteq> None)"
      using t assms(1) by (rule sql_step_cases) (use d2(1) in \<open>auto simp: unit_step_def\<close>)
    then show ?thesis using s1 True t by (auto simp: settle_apply_def sql_prepare_def split: if_splits)
  qed (use s1 in \<open>auto simp: settle_apply_def\<close>)
  have e: "settle_rows io now (p # hs) a x s =
      (if \<not> ok then (None, s1) else if io (calls s1) \<noteq> Done then (None, s1\<lparr>calls := Suc (calls s1)\<rparr>) else if \<not> ok2 then (None, s2)
       else settle_rows io now hs (if st = ''confirmed'' then a + 1 else a) (if st = ''confirmed'' then x else x + 1) s2)"
    using s1 s2 h(2) by (simp add: p sql_prepare_def Let_def)
  note b = sql_exec_cases [OF s2 assms(1)]
  show ?case
  proof (cases "ok \<and> io (calls s1) = Done \<and> ok2")
    case False
    then show ?thesis using Cons.prems(6) e a1 b by (auto split: if_splits)
  next
    case True
    let ?C = "if st = ''confirmed'' then insert h C else C"
    have st: "settles now ?C (insert h H) d (dbase s2)"
      using True a1 b d2(2) settles_step(1) [OF Cons.prems(1,2) h(1) assms(2)] by auto
    have sub: "?C \<subseteq> insert h H" using Cons.prems(2) by auto
    have "fst ` set hs \<inter> insert h H = {}" "distinct (map fst hs)" "\<forall>(h, st) \<in> set hs. length h < 80"
      using Cons.prems(3-5) by (auto simp: p)
    from Cons.IH [OF st sub this(2,1,3), of "if st = ''confirmed'' then a + 1 else a" "if st = ''confirmed'' then x else x + 1"]
    have IH: "saved s' = saved s2 \<and>
      (\<forall>n m. r = Some (n, m) \<longrightarrow> n = (if st = ''confirmed'' then a + 1 else a) + length (filter (\<lambda>(h, st). st = ''confirmed'') hs) \<and>
         m = (if st = ''confirmed'' then x else x + 1) + length (filter (\<lambda>(h, st). st \<noteq> ''confirmed'') hs) \<and>
         settles now (?C \<union> {h. (h, ''confirmed'') \<in> set hs}) (insert h H \<union> fst ` set hs) d (dbase s')) \<and>
      ((\<forall>n. io n = Done) \<longrightarrow> r \<noteq> None)" using Cons.prems(6) True by (simp add: e)
    have "?C \<union> {h. (h, ''confirmed'') \<in> set hs} = C \<union> {h. (h, ''confirmed'') \<in> set (p # hs)}" "insert h H \<union> fst ` set hs = H \<union> fst ` set (p # hs)"
      by (auto simp: p)
    then show ?thesis using IH a1 b by (auto simp: p)
  qed
qed

lemma verdict_block:
  assumes "db_ok d" and "hash_unique d" and "b \<in> set (blocks d)"
  shows "verdict d (bk_hash b) = Some (bk_status b)"
proof -
  have ds: "distinct (map bk_hash (blocks d))" using assms(1,2) by (simp add: db_ok_def)
  obtain c where c: "find (\<lambda>x. bk_hash x = bk_hash b) (blocks d) = Some c" using assms(3) by (metis (mono_tags, lifting) find_None_iff not_None_eq)
  then have "c \<in> set (blocks d)" "bk_hash c = bk_hash b" by (auto simp: find_Some_iff in_set_conv_nth)
  then have "c = b" using ds assms(3) by (metis distinct_map inj_on_eq_iff)
  then show ?thesis using c by (simp add: verdict_def)
qed

definition staged_decided :: "db \<Rightarrow> string set" where
  "staged_decided d = {h \<in> pf_hash ` set (pending d). decided d h}"

lemma verdict_find: "verdict d h = Some st \<Longrightarrow> \<exists>b \<in> set (blocks d). bk_hash b = h \<and> bk_status b = st"
  by (auto simp: verdict_def find_Some_iff)

lemma settle_query_all:
  assumes "db_ok d" and "hash_unique d"
  defines "Q \<equiv> remdups (concat (map (\<lambda>p. map (\<lambda>b. (pf_hash p, bk_status b))
        (filter (\<lambda>b. bk_hash b = pf_hash p \<and> (bk_status b = ''confirmed'' \<or> bk_status b = ''orphaned'')) (blocks d))) (pending d)))"
  shows "set Q = (\<lambda>h. (h, the (verdict d h))) ` staged_decided d"
proof (rule set_eqI, rule iffI)
  fix q assume "q \<in> set Q"
  then obtain p b where q: "q = (pf_hash p, bk_status b)" "p \<in> set (pending d)" "b \<in> set (blocks d)" "bk_hash b = pf_hash p"
    "bk_status b = ''confirmed'' \<or> bk_status b = ''orphaned''" by (auto simp: Q_def)
  then have "verdict d (pf_hash p) = Some (bk_status b)" using verdict_block [OF assms(1,2) q(3)] by simp
  then show "q \<in> (\<lambda>h. (h, the (verdict d h))) ` staged_decided d"
    using q by (intro image_eqI [of _ _ "pf_hash p"]) (auto simp: staged_decided_def decided_def)
next
  fix q assume "q \<in> (\<lambda>h. (h, the (verdict d h))) ` staged_decided d"
  then obtain h p where h: "q = (h, the (verdict d h))" "p \<in> set (pending d)" "pf_hash p = h" "decided d h" by (auto simp: staged_decided_def)
  then obtain st where st: "verdict d h = Some st" "st = ''confirmed'' \<or> st = ''orphaned''" by (auto simp: decided_def)
  obtain b where "b \<in> set (blocks d)" "bk_hash b = h" "bk_status b = st" using verdict_find [OF st(1)] by blast
  moreover from this have "(h, st) \<in> set (map (\<lambda>b. (pf_hash p, bk_status b))
        (filter (\<lambda>b. bk_hash b = pf_hash p \<and> (bk_status b = ''confirmed'' \<or> bk_status b = ''orphaned'')) (blocks d)))"
    using h(3) st(2) unfolding set_map by (intro image_eqI [of _ _ b]) auto
  ultimately show "q \<in> set Q" using h(1,2) st(1) by (auto simp: Q_def)
qed

lemma settle_query_spec:
  assumes "db_ok d" and "hash_unique d"
  shows "distinct (map fst (settle_query d))" and "\<forall>(h, st) \<in> set (settle_query d). h \<in> staged_decided d \<and> verdict d h = Some st"
    and "card (staged_decided d) \<le> 64 \<Longrightarrow> fst ` set (settle_query d) = staged_decided d"
proof -
  define Q where "Q = remdups (concat (map (\<lambda>p. map (\<lambda>b. (pf_hash p, bk_status b))
        (filter (\<lambda>b. bk_hash b = pf_hash p \<and> (bk_status b = ''confirmed'' \<or> bk_status b = ''orphaned'')) (blocks d))) (pending d)))"
  have Q: "set Q = (\<lambda>h. (h, the (verdict d h))) ` staged_decided d" unfolding Q_def by (rule settle_query_all [OF assms])
  have s: "settle_query d = take 64 Q" by (simp add: settle_query_def Q_def)
  have "inj_on fst (set Q)" unfolding Q by (auto simp: inj_on_def)
  then have "distinct (map fst Q)" by (simp add: distinct_map Q_def)
  then show "distinct (map fst (settle_query d))" by (simp add: s flip: take_map)
  have "set (settle_query d) \<subseteq> set Q" by (simp add: s set_take_subset)
  then show "\<forall>(h, st) \<in> set (settle_query d). h \<in> staged_decided d \<and> verdict d h = Some st"
    unfolding Q by (auto simp: staged_decided_def decided_def)
  assume c: "card (staged_decided d) \<le> 64"
  have "length Q = card (set Q)" by (simp add: Q_def length_remdups_card_conv)
  also have "\<dots> \<le> 64" using c unfolding Q by (metis card_image_le finite_Collect_conjI finite_imageI finite_set order_trans staged_decided_def Collect_mem_eq)
  finally show "fst ` set (settle_query d) = staged_decided d" using Q by (simp add: s image_image)
qed

lemma settles_none: "settles now {} {} d d' \<Longrightarrow> d' = d"
  by (auto simp: settles_def)

lemma settles_blocks: "settles now C H d d' \<Longrightarrow> blocks d' = blocks d \<and> pending d' = filter (\<lambda>p. pf_hash p \<notin> H) (pending d)"
  using only_fractions_simps(3) by (fastforce simp: settles_def)

text \<open>The whole settlement.\<close>

lemma settle_effect:
  assumes "no_auto_rollback io" and "staged_ok (dbase s)" and "store_ok s" and "saved s = None"
    and "store_settle_block_fractions io now s = (rc, a, x, s')"
  shows "saved s' = None \<and> (rc \<noteq> 0 \<longrightarrow> dbase s' = dbase s) \<and>
    (\<exists>H. H \<subseteq> staged_decided (dbase s) \<and> settles now {h \<in> H. verdict (dbase s) h = Some ''confirmed''} H (dbase s) (dbase s')) \<and>
    ((\<forall>n. io n = Done) \<and> card (staged_decided (dbase s)) \<le> 64 \<longrightarrow> rc = 0 \<and> staged_decided (dbase s') = {})"
proof -
  let ?d = "dbase s"
  have d: "db_ok ?d" "hash_unique ?d" using assms(2,3) by (simp_all add: store_ok_def staged_ok_def)
  define s0 where "s0 = s\<lparr>calls := Suc (calls s)\<rparr>"
  obtain r s1 where s1: "sql_query io (\<lambda>d. pending d \<noteq> []) s0 = (r, s1)" by fastforce
  have k1: "dbase s1 = ?d" "saved s1 = None" "store_ok s1" "r = None \<or> r = Some (pending ?d \<noteq> [])" "(\<forall>n. io n = Done) \<longrightarrow> r = Some (pending ?d \<noteq> [])"
    using sql_query_kept [OF s1 assms(1)] assms(3,4) by (auto simp: s0_def)
  obtain ok s2 where s2: "sql_begin io s1 = (ok, s2)" by fastforce
  have k2: "dbase s2 = ?d" "saved s2 = (if ok then Some ?d else None)" "(\<forall>n. io n = Done) \<longrightarrow> ok"
    using s2 k1 by (auto simp: sql_begin_def Let_def split: if_splits)
  define s3 where "s3 = s2\<lparr>calls := Suc (calls s2)\<rparr>"
  obtain q s4 where s4: "sql_query io settle_query s3 = (q, s4)" by fastforce
  define hs where "hs = (case q of None \<Rightarrow> [] | Some l \<Rightarrow> l)"
  have k4: "dbase s4 = ?d" "saved s4 = saved s2" "hs = [] \<or> hs = settle_query ?d" "(\<forall>n. io n = Done) \<longrightarrow> hs = settle_query ?d"
    using sql_query_kept [OF s4 assms(1)] k2 by (auto simp: s3_def hs_def)
  note Q = settle_query_spec [OF d]
  have hs: "distinct (map fst hs)" "\<forall>(h, st) \<in> set hs. h \<in> staged_decided ?d \<and> verdict ?d h = Some st" using k4(3) Q(1,2) by auto
  then have len: "\<forall>(h, st) \<in> set hs. length h < 80" using assms(2) by (auto simp: staged_decided_def staged_ok_def)
  obtain t s5 where s5: "settle_rows io now hs 0 0 s4 = (t, s5)" by fastforce
  have base: "settles now {} {} ?d (dbase s4)" using settles_refl k4(1) by simp
  have CH: "{h. (h, ''confirmed'') \<in> set hs} = {h \<in> fst ` set hs. verdict ?d h = Some ''confirmed''}" using hs(2) by force
  from settle_rows_effect [OF assms(1,2) base _ hs(1) _ len s5] CH
  have e: "saved s5 = saved s4" "t = Some (n, m) \<Longrightarrow> settles now {h \<in> fst ` set hs. verdict ?d h = Some ''confirmed''} (fst ` set hs) ?d (dbase s5)" "(\<forall>n. io n = Done) \<longrightarrow> t \<noteq> None" for n m
    by auto
  obtain c s6 where s6: "sql_commit io s5 = (c, s6)" by fastforce
  have k6: "ok \<and> c \<Longrightarrow> saved s6 = None \<and> dbase s6 = dbase s5" "ok \<and> \<not> c \<Longrightarrow> saved s6 = Some ?d" "ok \<and> (\<forall>n. io n = Done) \<longrightarrow> c"
    using s6 e(1) k4(2) k2(2) assms(1) by (auto simp: sql_commit_def Let_def no_auto_rollback_def split: sql_outcome.splits if_splits intro!: exI [of _ "calls s5"])
  have un: "store_settle_block_fractions io now s =
     (if io (calls s) \<noteq> Done then (-2, 0, 0, count_error s0)
      else if r \<noteq> Some True then (0, 0, 0, s1)
      else if \<not> ok then (-1, 0, 0, s2)
      else if io (calls s2) \<noteq> Done then (-2, 0, 0, sql_rollback s3)
      else case t of None \<Rightarrow> (-2, 0, 0, count_error (sql_rollback s5))
        | Some (a, x) \<Rightarrow> if c then (0, a, x, s6) else (-2, 0, 0, count_error (sql_rollback s6)))"
    using s1 s2 s4 s5 s6 unfolding store_settle_block_fractions_def txn_begin_def txn_commit_def txn_rollback_def
    by (simp add: sql_prepare_def s0_def s3_def hs_def Let_def split: option.splits)
  show ?thesis
  proof (cases "io (calls s) = Done \<and> r = Some True \<and> ok \<and> io (calls s2) = Done \<and> (\<exists>n m. t = Some (n, m)) \<and> c")
    case True
    then obtain n m where t: "t = Some (n, m)" by blast
    have s': "rc = 0" "s' = s6" using assms(5) un True t by auto
    have st: "settles now {h \<in> fst ` set hs. verdict ?d h = Some ''confirmed''} (fst ` set hs) ?d (dbase s')" using e(2) [OF t] k6(1) True s' by simp
    moreover have "fst ` set hs \<subseteq> staged_decided ?d" using hs(2) by auto
    moreover have "staged_decided (dbase s') = {}" if "\<forall>n. io n = Done" "card (staged_decided ?d) \<le> 64"
      using settles_blocks [OF st] k4(4) Q(3) that by (auto simp: staged_decided_def decided_def verdict_def)
    ultimately show ?thesis using s' k6(1) True by auto
  next
    case False
    have "dbase s' = ?d \<and> saved s' = None" using assms(5) un False k1 k2 k4 e(1) k6(2) assms(4)
      by (auto simp: sql_rollback_def s0_def s3_def split: if_splits option.splits)
    moreover have "settles now {} {} ?d (dbase s')" using calculation settles_refl by simp
    moreover have "rc = 0 \<and> staged_decided ?d = {}" if "\<forall>n. io n = Done"
    proof -
      have "r \<noteq> Some True" using False that k2(3) e(3) k6(3) by auto
      then have "pending ?d = []" using k1(5) that by auto
      then show ?thesis using assms(5) un that \<open>r \<noteq> Some True\<close> by (auto simp: staged_decided_def)
    qed
    ultimately show ?thesis by (intro conjI exI [of _ "{}"]) auto
  qed
qed

text \<open>
  C4: the queue rotates exactly once per block that stands: however SQLite answers, a settlement pass
  either leaves the ledger untouched or takes the staged rows of some decided blocks away together,
  having added each row of the confirmed ones to the ledger once and none of the orphaned ones; a pass
  in which SQLite answers leaves no row of a decided block behind, up to 64 blocks a pass.
\<close>

theorem settle_exactly_once:
  assumes "no_auto_rollback io" and "staged_ok (dbase s)" and "store_ok s" and "saved s = None"
    and "store_settle_block_fractions io now s = (rc, a, x, s')"
  shows "saved s' = None \<and> (rc \<noteq> 0 \<longrightarrow> dbase s' = dbase s) \<and>
    (\<exists>H. H \<subseteq> staged_decided (dbase s) \<and> settles now {h \<in> H. verdict (dbase s) h = Some ''confirmed''} H (dbase s) (dbase s')) \<and>
    ((\<forall>n. io n = Done) \<and> card (staged_decided (dbase s)) \<le> 64 \<longrightarrow> rc = 0 \<and> staged_decided (dbase s') = {})"
  by (rule settle_effect [OF assms])

definition demo_staged :: store where
  "demo_staged = demo_ledger\<lparr>dbase := (dbase demo_ledger)\<lparr>hash_unique := True,
     pending := [\<lparr>pf_hash = ''h1'', pf_worker = 1, pf_delta = Fin (1 / 4)\<rparr>, \<lparr>pf_hash = ''h1'', pf_worker = 2, pf_delta = Fin (- 1 / 4)\<rparr>,
                 \<lparr>pf_hash = ''h2'', pf_worker = 1, pf_delta = Fin 0\<rparr>]\<rparr>\<rparr>"

lemma demo_staged_ok: "staged_ok (dbase demo_staged) \<and> store_ok demo_staged \<and> saved demo_staged = None"
  by (simp add: demo_staged_def demo_ledger_def store_open_def store_ok_def db_ok_def ids_ok_def worker_ids_def empty_db_def staged_ok_def)

lemma demo_staged_decided: "staged_decided (dbase demo_staged) = {''h1''}"
  by (auto simp: staged_decided_def decided_def verdict_def demo_staged_def demo_ledger_def store_open_def)

theorem settle_exactly_once_witness:
  "\<exists>a x s'. store_settle_block_fractions (\<lambda>n. Done) 9 demo_staged = (0, a, x, s') \<and> staged_decided (dbase demo_staged) = {''h1''} \<and>
     staged_decided (dbase s') = {}"
proof -
  obtain rc a x s' where r: "store_settle_block_fractions (\<lambda>n. Done) 9 demo_staged = (rc, a, x, s')" by (metis surj_pair)
  have "no_auto_rollback (\<lambda>n. Done)" by (simp add: no_auto_rollback_def)
  from settle_exactly_once [OF this _ _ _ r] show ?thesis using r demo_staged_ok demo_staged_decided by auto
qed

section \<open>The verdict of the templates\<close>

lemma resolve_idem: "observed d' = observed d \<Longrightarrow> resolve_row tip d' (resolve_row tip d b) = resolve_row tip d b"
  by (auto simp: resolve_row_def observed_def split: option.splits list.splits)

lemma observed_height: "bk_height b = bk_height c \<Longrightarrow> observed d b = observed d c"
  by (simp add: observed_def)

text \<open>What the pool has seen of the chain says of a block, whatever was said of it before.\<close>

definition chain_verdict :: "int \<Rightarrow> string option \<Rightarrow> block_row \<Rightarrow> string" where
  "chain_verdict tip seen b =
     (if bk_status b = ''rejected'' then ''rejected''
      else if bk_height b \<le> 0 \<or> tip < bk_height b then ''orphaned''
      else case seen of None \<Rightarrow> bk_status b | Some h \<Rightarrow> if h = bk_hash b then ''confirmed'' else ''orphaned'')"

definition judge_row :: "int \<Rightarrow> db \<Rightarrow> block_row \<Rightarrow> block_row" where
  "judge_row tip d b = impossible_row tip (resolve_row tip d b)"

lemma resolve_row_simps [simp]:
  "bk_height (resolve_row tip d b) = bk_height b" "bk_hash (resolve_row tip d b) = bk_hash b" "bk_id (resolve_row tip d b) = bk_id b"
  "bk_status (resolve_row tip d b) = ''rejected'' \<longleftrightarrow> bk_status b = ''rejected''" "bk_distributed (resolve_row tip d b) = bk_distributed b"
  "bk_reward (resolve_row tip d b) = bk_reward b" "bk_fee (resolve_row tip d b) = bk_fee b"
  by (simp_all add: resolve_row_def split: option.splits)

lemma impossible_row_simps [simp]:
  "bk_height (impossible_row tip b) = bk_height b" "bk_hash (impossible_row tip b) = bk_hash b" "bk_id (impossible_row tip b) = bk_id b"
  "bk_status (impossible_row tip b) = ''rejected'' \<longleftrightarrow> bk_status b = ''rejected''" "bk_distributed (impossible_row tip b) = bk_distributed b"
  "bk_reward (impossible_row tip b) = bk_reward b" "bk_fee (impossible_row tip b) = bk_fee b"
  by (simp_all add: impossible_row_def)

lemma judge_row_simps [simp]:
  "bk_height (judge_row tip d b) = bk_height b" "bk_hash (judge_row tip d b) = bk_hash b" "bk_id (judge_row tip d b) = bk_id b"
  "bk_status (judge_row tip d b) = chain_verdict tip (observed d b) b" "bk_distributed (judge_row tip d b) = bk_distributed b"
  by (simp_all add: judge_row_def) (auto simp: impossible_row_def resolve_row_def chain_verdict_def split: option.splits)

lemma observed_judged: "observed (d\<lparr>blocks := bs\<rparr>) (judge_row tip d b) = observed d b"
  by (simp add: observed_def)

lemma judge_idem: "judge_row tip (d\<lparr>blocks := bs\<rparr>) (judge_row tip d b) = judge_row tip d b"
proof -
  have o: "observed (d\<lparr>blocks := bs\<rparr>) x = observed d b" if "bk_height x = bk_height b" for x using that by (simp add: observed_def)
  show ?thesis
  proof (cases "bk_status b = ''rejected'' \<or> observed d b = None")
    case True
    then have "resolve_row tip d b = b" "resolve_row tip (d\<lparr>blocks := bs\<rparr>) (impossible_row tip b) = impossible_row tip b"
      by (auto simp add: resolve_row_def o)
    then show ?thesis by (simp add: judge_row_def impossible_row_def)
  next
    case False
    then obtain h where "observed d b = Some h" "bk_status b \<noteq> ''rejected''" by blast
    then show ?thesis by (cases "bk_height b \<le> 0 \<or> tip < bk_height b"; cases "h = bk_hash b") (simp_all add: judge_row_def impossible_row_def resolve_row_def o)
  qed
qed

lemma exec_done: "\<forall>n. io n = Done \<Longrightarrow> prepared_exec io f s = (True, True, s\<lparr>calls := Suc (Suc (calls s)), dbase := f (dbase s)\<rparr>)"
  by (simp add: prepared_exec_def sql_prepare_def sql_exec_def sql_step_def Let_def)

lemma count_done: "\<forall>n. io n = Done \<Longrightarrow>
    count_blocks_with_status io st s = (length (filter (\<lambda>b. bk_status b = st) (blocks (dbase s))), s\<lparr>calls := Suc (Suc (calls s))\<rparr>)"
  by (simp add: count_blocks_with_status_def sql_prepare_def sql_query_def sql_step_def Let_def)

lemma templates_done:
  assumes "\<forall>n. io n = Done" and "0 < tip"
  shows "\<exists>c orp p s'. store_reconcile_blocks_from_templates io tip s = (0, c, orp, p, s') \<and>
    dbase s' = (dbase s)\<lparr>blocks := map (judge_row tip (dbase s)) (blocks (dbase s))\<rparr> \<and> saved s' = saved s \<and>
    c = length (filter (\<lambda>b. bk_status b = ''confirmed'') (blocks (dbase s')))"
proof -
  have "sql_impossible tip (sql_resolve tip d) = d\<lparr>blocks := map (judge_row tip d) (blocks d)\<rparr>" for d
    by (simp add: sql_impossible_def sql_resolve_def judge_row_def)
  then show ?thesis using assms(2) by (simp add: store_reconcile_blocks_from_templates_def exec_done [OF assms(1)] count_done [OF assms(1)] Let_def)
qed

text \<open>
  C25: the templates decide a block's fate from what was seen last, not from what was said before: after a
  pass each block has the verdict of the newest template above it, so a reorganisation out of the chain
  demotes it and one back into it restores it, while a rejected block stays rejected; a second pass changes
  nothing; and of the pool's blocks at one height that has been built upon at most one counts as confirmed.
\<close>

theorem templates_decide:
  assumes "\<forall>n. io n = Done" and "0 < tip" and "store_ok s" and "hash_unique (dbase s)"
    and "store_reconcile_blocks_from_templates io tip s = (rc, c, orp, p, s')"
  shows "rc = 0 \<and> map bk_status (blocks (dbase s')) = map (\<lambda>b. chain_verdict tip (observed (dbase s) b) b) (blocks (dbase s)) \<and>
    map bk_hash (blocks (dbase s')) = map bk_hash (blocks (dbase s)) \<and>
    (\<exists>c2 o2 p2 s2. store_reconcile_blocks_from_templates io tip s' = (0, c2, o2, p2, s2) \<and> dbase s2 = dbase s' \<and> c2 = c) \<and>
    (\<forall>a \<in> set (blocks (dbase s')). \<forall>b \<in> set (blocks (dbase s')). bk_status a = ''confirmed'' \<and> bk_status b = ''confirmed'' \<and>
       bk_height a = bk_height b \<and> observed (dbase s') a \<noteq> None \<longrightarrow> a = b)"
proof -
  let ?d = "dbase s"
  have r: "rc = 0" "dbase s' = ?d\<lparr>blocks := map (judge_row tip ?d) (blocks ?d)\<rparr>" "c = length (filter (\<lambda>b. bk_status b = ''confirmed'') (blocks (dbase s')))"
    using templates_done [OF assms(1,2), of s] assms(5) by auto
  obtain c2 o2 p2 s2 where t: "store_reconcile_blocks_from_templates io tip s' = (0, c2, o2, p2, s2)"
    "dbase s2 = (dbase s')\<lparr>blocks := map (judge_row tip (dbase s')) (blocks (dbase s'))\<rparr>" "c2 = length (filter (\<lambda>b. bk_status b = ''confirmed'') (blocks (dbase s2)))"
    using templates_done [OF assms(1,2), of s'] by blast
  have s2: "dbase s2 = dbase s'" using t(2) by (simp add: r(2) judge_idem)
  have ds: "distinct (map bk_hash (blocks ?d))" using assms(3,4) by (simp add: store_ok_def db_ok_def)
  have one: "judge_row tip ?d a = judge_row tip ?d b"
    if ab: "a \<in> set (blocks ?d)" "b \<in> set (blocks ?d)" "chain_verdict tip (observed ?d a) a = ''confirmed''" "chain_verdict tip (observed ?d b) b = ''confirmed''"
      "bk_height a = bk_height b" "observed ?d a \<noteq> None" for a b
  proof -
    have "bk_hash a = bk_hash b" using ab(3-6) observed_height [OF ab(5), of ?d]
      by (auto simp: chain_verdict_def split: if_splits)
    then have "a = b" using ds ab(1,2) by (metis distinct_map inj_on_eq_iff)
    then show ?thesis by simp
  qed
  have "observed (dbase s') (judge_row tip ?d b) = observed ?d b" for b by (simp add: r(2) observed_judged)
  then have "\<forall>a \<in> set (blocks (dbase s')). \<forall>b \<in> set (blocks (dbase s')). bk_status a = ''confirmed'' \<and> bk_status b = ''confirmed'' \<and>
       bk_height a = bk_height b \<and> observed (dbase s') a \<noteq> None \<longrightarrow> a = b" using one by (auto simp: r(2))
  moreover have "map bk_status (blocks (dbase s')) = map (\<lambda>b. chain_verdict tip (observed ?d b) b) (blocks ?d)" "map bk_hash (blocks (dbase s')) = map bk_hash (blocks ?d)"
    by (simp_all add: r(2))
  moreover have "c2 = c" using t(3) r(3) s2 by simp
  ultimately show ?thesis using r(1) t(1) s2 by (intro conjI exI [of _ c2] exI [of _ o2] exI [of _ p2] exI [of _ s2]) blast+
qed

definition demo_template :: "int \<Rightarrow> string \<Rightarrow> template_row" where
  "demo_template i prev = \<lparr>tp_id = i, tp_ts = 0, tp_height = 6, tp_prev_hash = prev, tp_bits = ''1d00ffff'', tp_network_difficulty = Fin 1,
     tp_coinbase_value = 600, tp_tx_count = 0, tp_tx_fees = 0, tp_source = ''gbt'', tp_cb_spendable = 1, tp_cb_op_returns = 0, tp_longpoll = 0, tp_rate = Fin 0, tp_last_seen = 0, tp_polls = 1\<rparr>"

definition demo_reorged :: store where
  "demo_reorged = demo_ledger\<lparr>dbase := (dbase demo_ledger)\<lparr>hash_unique := True,
     templates := [demo_template 1 ''h1'', demo_template 2 ''h9''], template_seq := 2\<rparr>\<rparr>"

theorem templates_decide_witness:
  "\<exists>c orp p s'. store_reconcile_blocks_from_templates (\<lambda>n. Done) 5 demo_reorged = (0, c, orp, p, s') \<and>
     map bk_status (blocks (dbase demo_reorged)) = [''confirmed''] \<and> map bk_status (blocks (dbase s')) = [''orphaned'']"
proof -
  obtain rc c orp p s' where r: "store_reconcile_blocks_from_templates (\<lambda>n. Done) 5 demo_reorged = (rc, c, orp, p, s')" by (metis surj_pair)
  have ok: "store_ok demo_reorged" "hash_unique (dbase demo_reorged)"
    by (simp_all add: demo_reorged_def demo_template_def demo_ledger_def store_open_def store_ok_def db_ok_def ids_ok_def worker_ids_def empty_db_def)
  have "map (\<lambda>b. chain_verdict 5 (observed (dbase demo_reorged) b) b) (blocks (dbase demo_reorged)) = [''orphaned'']"
    "map bk_status (blocks (dbase demo_reorged)) = [''confirmed'']"
    by (simp_all add: demo_reorged_def demo_template_def demo_ledger_def store_open_def chain_verdict_def observed_def)
  then show ?thesis using templates_decide [OF _ _ ok r] r by auto
qed

end
