(* ===== verification/Reconcile.thy ===== *)
theory Reconcile
  imports Settlement Wire
begin

text \<open>
  The block confirmation pass (\<^verbatim>\<open>src/reconcile.c\<close>): which of the two confirmation mechanisms runs
  on a new tip, and the settlement and the distribution that follow it.

  The canonical hash at a height is the answer of the node, a parameter: the answer to the \<open>i\<close>-th
  question of a pass, which is a hash, a refusal for want of the method, or a failure.
\<close>

definition PPLNS_MATURITY_CONFS :: int where
  "PPLNS_MATURITY_CONFS = 100"

definition BLOCK_FINAL_DEPTH :: int where
  "BLOCK_FINAL_DEPTH = 100"

definition RECONCILE_MAX_PER_TICK :: nat where
  "RECONCILE_MAX_PER_TICK = 16"

datatype block_answer = Answer string | Unsupported | Unavailable

type_synonym block_hash_fn = "nat \<Rightarrow> int \<Rightarrow> block_answer"

record reconcile_cfg =
  get_block_hash :: "block_hash_fn option"
  rc_pplns :: bool
  rc_fee_bps :: int

record reconcile_result =
  checked_via_node :: nat
  ran_templates_pass :: bool
  ran_distribution :: bool
  blocks_distributed :: nat
  worker_credits :: nat
  fractions_applied :: nat
  fractions_discarded :: nat
  distribute_failed :: bool

definition no_result :: reconcile_result where
  "no_result = \<lparr>checked_via_node = 0, ran_templates_pass = False, ran_distribution = False, blocks_distributed = 0, worker_credits = 0,
     fractions_applied = 0, fractions_discarded = 0, distribute_failed = False\<rparr>"

section \<open>The pass\<close>

definition same_text :: "string \<Rightarrow> string \<Rightarrow> bool" where
  "same_text a b \<longleftrightarrow> map lower a = map lower b"

text \<open>The loop over the candidates: the state of \<open>gbh_state\<close>, whether the statuses are settled, and the candidates checked.\<close>

fun check_candidates :: "sqlite \<Rightarrow> block_hash_fn \<Rightarrow> int \<Rightarrow> candidate list \<Rightarrow> nat \<Rightarrow> int \<Rightarrow> nat \<Rightarrow> store \<Rightarrow> int \<times> bool \<times> nat \<times> store" where
  "check_candidates io gbh tip [] i gs n s = (gs, False, n, s)"
| "check_candidates io gbh tip ((hash, height) # cs) i gs n s =
     (case gbh i height of
        Unsupported \<Rightarrow> (-1, False, n, s)
      | Unavailable \<Rightarrow> (gs, True, n, s)
      | Answer have \<Rightarrow>
          let match = same_text have hash;
              (rc, s) = store_set_block_status io (Some hash) (if match then STORE_BLOCK_CONFIRMED else STORE_BLOCK_ORPHANED)
                 (if match then tip - height + 1 else 0) (Some ''node'') s
          in check_candidates io gbh tip cs (i + 1) 1 (n + 1) s)"

definition node_pass :: "sqlite \<Rightarrow> reconcile_cfg \<Rightarrow> int \<Rightarrow> int \<Rightarrow> store \<Rightarrow> int \<times> bool \<times> nat \<times> store" where
  "node_pass io cfg tip gs s =
     (if gs \<ge> 0 then
        (case get_block_hash cfg of
           None \<Rightarrow> (gs, False, 0, s)
         | Some gbh \<Rightarrow>
             let (cands, s) = store_list_unresolved_blocks io tip BLOCK_FINAL_DEPTH RECONCILE_MAX_PER_TICK s;
                 (gs, settled, n, s) = check_candidates io gbh tip (case cands of None \<Rightarrow> [] | Some cs \<Rightarrow> cs) 0 gs 0 s
             in (gs, settled \<or> 0 < gs, n, s))
      else (gs, False, 0, s))"

definition reconcile_blocks_pass ::
  "sqlite \<Rightarrow> sql_sum \<Rightarrow> int \<Rightarrow> reconcile_cfg \<Rightarrow> int \<Rightarrow> int \<Rightarrow> store \<Rightarrow> (reconcile_result \<times> int \<times> store) res" where
  "reconcile_blocks_pass io agg now cfg tip gs s =
     (if tip \<le> 0 then Ok (no_result, gs, s)
      else
        let (gs, settled, n, s) = node_pass io cfg tip gs s;
            r = no_result\<lparr>checked_via_node := n\<rparr>;
            (r, s) = (if settled then (r, s)
               else let (rc, c, orp, p, s) = store_reconcile_blocks_from_templates io tip s in (r\<lparr>ran_templates_pass := True\<rparr>, s));
            (rc, applied, discarded, s) = store_settle_block_fractions io now s;
            r = r\<lparr>fractions_applied := applied, fractions_discarded := discarded\<rparr>
        in if \<not> rc_pplns cfg then Ok (r, gs, s)
           else bindR (store_pplns_distribute io agg now PPLNS_MATURITY_CONFS (rc_fee_bps cfg) s) (\<lambda>(rc, nb, nw, s).
             Ok (r\<lparr>ran_distribution := True, distribute_failed := rc < 0, blocks_distributed := nb, worker_credits := nw\<rparr>, gs, s)))"

section \<open>Reviews\<close>

text \<open>A review changes the status columns of blocks, of the hashes \<open>H\<close> only.\<close>

definition status_only :: "block_row \<Rightarrow> block_row \<Rightarrow> bool" where
  "status_only b c \<longleftrightarrow> c = b\<lparr>bk_status := bk_status c, bk_confirmations := bk_confirmations c, bk_checked_via := bk_checked_via c\<rparr>"

definition reviews :: "string set \<Rightarrow> db \<Rightarrow> db \<Rightarrow> bool" where
  "reviews H d d' \<longleftrightarrow>
     (\<exists>f. d' = d\<lparr>blocks := map f (blocks d)\<rparr> \<and> (\<forall>b. status_only b (f b)) \<and> (\<forall>b. bk_hash b \<notin> H \<longrightarrow> f b = b))"

lemma status_only_refl [simp]: "status_only b b"
  by (simp add: status_only_def)

lemma status_only_keeps:
  assumes "status_only b c"
  shows "bk_id c = bk_id b" "bk_hash c = bk_hash b" "bk_height c = bk_height b" "block_gross c = block_gross b" "bk_distributed c = bk_distributed b" "bk_window c = bk_window b"
proof -
  obtain st n v where c: "c = b\<lparr>bk_status := st, bk_confirmations := n, bk_checked_via := v\<rparr>" using assms by (auto simp: status_only_def)
  show "bk_id c = bk_id b" "bk_hash c = bk_hash b" "bk_height c = bk_height b" "block_gross c = block_gross b" "bk_distributed c = bk_distributed b" "bk_window c = bk_window b"
    by (simp_all add: c block_gross_def)
qed

lemma status_only_trans:
  assumes "status_only a b" and "status_only b c"
  shows "status_only a c"
proof -
  obtain st n v where b: "b = a\<lparr>bk_status := st, bk_confirmations := n, bk_checked_via := v\<rparr>" using assms(1) by (auto simp: status_only_def)
  obtain st n v where c: "c = b\<lparr>bk_status := st, bk_confirmations := n, bk_checked_via := v\<rparr>" using assms(2) by (auto simp: status_only_def)
  show ?thesis by (simp add: status_only_def b c)
qed

lemma reviews_refl [simp]: "reviews H d d"
  unfolding reviews_def by (rule exI [of _ id]) simp

lemma reviews_trans:
  assumes "reviews H d d'" and "reviews K d' d''"
  shows "reviews (H \<union> K) d d''"
proof -
  obtain f where f: "d' = d\<lparr>blocks := map f (blocks d)\<rparr>" "\<forall>b. status_only b (f b)" "\<forall>b. bk_hash b \<notin> H \<longrightarrow> f b = b" using assms(1) by (auto simp: reviews_def)
  obtain g where g: "d'' = d'\<lparr>blocks := map g (blocks d')\<rparr>" "\<forall>b. status_only b (g b)" "\<forall>b. bk_hash b \<notin> K \<longrightarrow> g b = b" using assms(2) by (auto simp: reviews_def)
  show ?thesis unfolding reviews_def
  proof (intro exI [of _ "g \<circ> f"] conjI allI impI)
    show "d'' = d\<lparr>blocks := map (g \<circ> f) (blocks d)\<rparr>" by (simp add: g(1) f(1))
    show "status_only b ((g \<circ> f) b)" for b using f(2) g(2) status_only_trans [of b "f b" "g (f b)"] by simp
    show "(g \<circ> f) b = b" if "bk_hash b \<notin> H \<union> K" for b using that f(3) g(3) by simp
  qed
qed

lemma reviews_mono: "reviews H d d' \<Longrightarrow> H \<subseteq> K \<Longrightarrow> reviews K d d'"
  unfolding reviews_def by blast

lemma reviews_none: "reviews {} d d' \<Longrightarrow> d' = d"
proof -
  assume "reviews {} d d'"
  then obtain f where f: "d' = d\<lparr>blocks := map f (blocks d)\<rparr>" "\<And>b. f b = b" by (auto simp: reviews_def)
  have "map f (blocks d) = blocks d" by (rule map_idI) (rule f(2))
  then show "d' = d" using f(1) by simp
qed

lemma reviews_kept:
  assumes "reviews H d d'"
  shows "db_ok d \<Longrightarrow> db_ok d'" and "small_ledger d \<Longrightarrow> small_ledger d'" and "staged_ok d \<Longrightarrow> staged_ok d'"
    and "pending d' = pending d" and "hash_unique d' = hash_unique d" and "b \<in> set (blocks d) \<Longrightarrow> bk_hash b \<notin> H \<Longrightarrow> b \<in> set (blocks d')"
proof -
  obtain f where f: "d' = d\<lparr>blocks := map f (blocks d)\<rparr>" "\<forall>b. status_only b (f b)" "\<forall>b. bk_hash b \<notin> H \<longrightarrow> f b = b" using assms by (auto simp: reviews_def)
  have k: "bk_id (f b) = bk_id b" "bk_hash (f b) = bk_hash b" "block_gross (f b) = block_gross b" for b using f(2) status_only_keeps by blast+
  have m: "map (\<lambda>b. bk_id (f b)) bs = map bk_id bs" "map (\<lambda>b. bk_hash (f b)) bs = map bk_hash bs" for bs by (simp_all add: k)
  show "db_ok d'" if "db_ok d" using that by (simp add: db_ok_def f(1) comp_def m)
  show "small_ledger d'" if "small_ledger d" using that by (auto simp: small_ledger_def plain_difficulties_def f(1) k)
  show "staged_ok d'" if "staged_ok d" using that by (simp add: staged_ok_def f(1))
  show "pending d' = pending d" "hash_unique d' = hash_unique d" by (simp_all add: f(1))
  show "b \<in> set (blocks d')" if "b \<in> set (blocks d)" "bk_hash b \<notin> H" using that f(1,3) by force
qed

lemma set_status_reviews: "reviews {h} d (sql_set_status h st n via d)"
  unfolding reviews_def sql_set_status_def
  by (rule exI [of _ "\<lambda>b. if bk_hash b = h then b\<lparr>bk_status := st, bk_confirmations := n, bk_checked_via := via\<rparr> else b"]) (simp add: status_only_def)

lemma row_reviews: "status_only b (resolve_row tip d b)" "status_only b (impossible_row tip b)"
  by (auto simp: status_only_def resolve_row_def impossible_row_def split: option.splits)

lemma templates_review: "reviews UNIV d (sql_resolve tip d)" "reviews UNIV d (sql_impossible tip d)"
  using row_reviews unfolding reviews_def sql_resolve_def sql_impossible_def by blast+

text \<open>Whatever SQLite does, a status update and the templates pass are reviews.\<close>

lemma set_block_status_reviews:
  assumes "store_set_block_status io (Some h) st n via s = (rc, s')" and "no_auto_rollback io"
  shows "reviews {h} (dbase s) (dbase s') \<and> saved s' = saved s"
proof -
  obtain ok t where t: "sql_exec io (sql_set_status h (store_block_status_text st) (if n < 0 then 0 else n) via) (s\<lparr>calls := Suc (calls s)\<rparr>) = (ok, t)" by fastforce
  note e = sql_exec_cases [OF t assms(2)]
  show ?thesis
  proof (cases "io (calls s) = Done")
    case True
    then have "dbase s' = dbase t" "saved s' = saved t" using assms(1) t by (auto simp: store_set_block_status_def sql_prepare_def split: if_splits)
    then show ?thesis using e set_status_reviews by (cases ok) auto
  next
    case False
    then show ?thesis using assms(1) by (auto simp: store_set_block_status_def sql_prepare_def)
  qed
qed

lemma count_blocks_kept:
  assumes "count_blocks_with_status io st s = (n, s')" and "no_auto_rollback io"
  shows "dbase s' = dbase s \<and> saved s' = saved s"
proof -
  obtain r t where t: "sql_query io (\<lambda>d. length (filter (\<lambda>b. bk_status b = st) (blocks d))) (s\<lparr>calls := Suc (calls s)\<rparr>) = (r, t)" by fastforce
  show ?thesis using assms(1) sql_query_kept [OF t assms(2)] by (auto simp: count_blocks_with_status_def sql_prepare_def t split: if_splits)
qed

lemma templates_reviews:
  assumes "store_reconcile_blocks_from_templates io tip s = (rc, c, orp, p, s')" and "no_auto_rollback io"
  shows "reviews UNIV (dbase s) (dbase s') \<and> saved s' = saved s"
proof -
  obtain p1 ok1 s1 where s1: "prepared_exec io (sql_resolve tip) s = (p1, ok1, s1)" by (metis surj_pair)
  obtain p2 ok2 s2 where s2: "prepared_exec io (sql_impossible tip) s1 = (p2, ok2, s2)" by (metis surj_pair)
  define t where "t = (if 0 < tip then s2 else s1)"
  obtain n3 s3 where s3: "count_blocks_with_status io ''confirmed'' t = (n3, s3)" by fastforce
  obtain n4 s4 where s4: "count_blocks_with_status io ''orphaned'' s3 = (n4, s4)" by fastforce
  obtain n5 s5 where s5: "count_blocks_with_status io ''pending'' s4 = (n5, s5)" by fastforce
  have "dbase s' = dbase s5" "saved s' = saved s5"
    using assms(1) s1 s2 s3 s4 s5 by (auto simp: store_reconcile_blocks_from_templates_def Let_def t_def split: if_splits)
  then have e: "dbase s' = dbase t" "saved s' = saved t"
    using count_blocks_kept [OF s3 assms(2)] count_blocks_kept [OF s4 assms(2)] count_blocks_kept [OF s5 assms(2)] by simp_all
  have r1: "reviews UNIV (dbase s) (dbase s1)" "saved s1 = saved s" using prepared_exec_cases [OF s1 assms(2)] templates_review(1) by (auto split: if_splits)
  have r2: "reviews UNIV (dbase s1) (dbase s2)" "saved s2 = saved s1" using prepared_exec_cases [OF s2 assms(2)] templates_review(2) by (auto split: if_splits)
  show ?thesis using e r1 r2 reviews_trans [OF r1(1) r2(1)] by (simp add: t_def)
qed

text \<open>What the node answers, and the candidates it is asked about.\<close>

definition serves :: "reconcile_cfg \<Rightarrow> bool" where
  "serves cfg \<longleftrightarrow> (\<exists>gbh. get_block_hash cfg = Some gbh \<and> (\<forall>i h. gbh i h \<noteq> Unsupported))"

definition candidates :: "int \<Rightarrow> db \<Rightarrow> block_row list" where
  "candidates tip d = take RECONCILE_MAX_PER_TICK (unresolved tip BLOCK_FINAL_DEPTH d)"

lemma list_unresolved_kept:
  assumes "store_list_unresolved_blocks io tip depth cap s = (r, s')" and "no_auto_rollback io"
  shows "dbase s' = dbase s \<and> saved s' = saved s \<and>
    (\<forall>cs. r = Some cs \<longrightarrow> cs = [] \<or> cs = map (\<lambda>b. (c_copy 80 (bk_hash b), bk_height b)) (take cap (unresolved tip depth (dbase s)))) \<and>
    ((\<forall>n. io n = Done) \<and> 0 < cap \<longrightarrow> r = Some (map (\<lambda>b. (c_copy 80 (bk_hash b), bk_height b)) (take cap (unresolved tip depth (dbase s)))))"
proof -
  obtain q t where t: "sql_query io (\<lambda>d. map (\<lambda>b. (c_copy 80 (bk_hash b), bk_height b)) (take cap (unresolved tip depth d))) (s\<lparr>calls := Suc (calls s)\<rparr>) = (q, t)"
    by fastforce
  show ?thesis using assms(1) sql_query_kept [OF t assms(2)]
    by (auto simp: store_list_unresolved_blocks_def sql_prepare_def t split: if_splits)
qed

lemma check_candidates_effect:
  assumes "no_auto_rollback io"
  shows "check_candidates io gbh tip cs i gs n s = (gs', st, n', s') \<Longrightarrow>
    saved s' = saved s \<and> reviews (fst ` set cs) (dbase s) (dbase s') \<and> (gs = 1 \<and> (\<forall>i h. gbh i h \<noteq> Unsupported) \<longrightarrow> gs' = 1)"
proof (induction cs arbitrary: i gs n s)
  case Nil
  then show ?case by simp
next
  case (Cons c cs)
  obtain hash height where c: "c = (hash, height)" by (cases c)
  show ?case
  proof (cases "gbh i height")
    case (Answer ans)
    let ?m = "same_text ans hash"
    obtain rc t where t: "store_set_block_status io (Some hash) (if ?m then STORE_BLOCK_CONFIRMED else STORE_BLOCK_ORPHANED)
        (if ?m then tip - height + 1 else 0) (Some ''node'') s = (rc, t)" by fastforce
    have "check_candidates io gbh tip cs (i + 1) 1 (n + 1) t = (gs', st, n', s')" using Cons.prems t by (simp add: c Answer Let_def)
    note IH = Cons.IH [OF this]
    note r = set_block_status_reviews [OF t assms]
    have "reviews ({hash} \<union> fst ` set cs) (dbase s) (dbase s')" using reviews_trans r IH by blast
    then show ?thesis using r IH by (simp add: c)
  next
    case Unsupported
    then show ?thesis using Cons.prems by (auto simp: c)
  next
    case Unavailable
    then show ?thesis using Cons.prems by (auto simp: c)
  qed
qed

lemma unresolved_set: "b \<in> set (unresolved tip depth d) \<longleftrightarrow>
    b \<in> set (blocks d) \<and> (bk_status b = ''pending'' \<or> bk_status b = ''confirmed'') \<and> bk_confirmations b < depth \<and> bk_height b \<le> tip"
  by (auto simp: unresolved_def)

definition short_hashes :: "db \<Rightarrow> bool" where
  "short_hashes d \<longleftrightarrow> (\<forall>b \<in> set (blocks d). length (bk_hash b) < 80)"

lemma candidate_hashes:
  "short_hashes d \<Longrightarrow> map (\<lambda>b. (c_copy 80 (bk_hash b), bk_height b)) (candidates tip d) = map (\<lambda>b. (bk_hash b, bk_height b)) (candidates tip d)"
  by (fastforce simp: candidates_def short_hashes_def c_copy_def unresolved_set dest!: in_set_takeD)

lemma node_pass_effect:
  assumes "node_pass io cfg tip gs s = (gs', st, n, s')" and "no_auto_rollback io" and "short_hashes (dbase s)"
  shows "saved s' = saved s \<and> reviews (bk_hash ` set (candidates tip (dbase s))) (dbase s) (dbase s') \<and> (gs = 1 \<and> serves cfg \<longrightarrow> gs' = 1 \<and> st)"
proof (cases "0 \<le> gs \<and> get_block_hash cfg \<noteq> None")
  case False
  then show ?thesis using assms(1) by (auto simp: node_pass_def serves_def split: if_splits option.splits)
next
  case True
  then obtain gbh where gbh: "get_block_hash cfg = Some gbh" by blast
  obtain r t where t: "store_list_unresolved_blocks io tip BLOCK_FINAL_DEPTH RECONCILE_MAX_PER_TICK s = (r, t)" by fastforce
  define cs where "cs = (case r of None \<Rightarrow> [] | Some cs \<Rightarrow> cs)"
  obtain g2 st2 n2 u where u: "check_candidates io gbh tip cs 0 gs 0 t = (g2, st2, n2, u)" by (metis surj_pair)
  note l = list_unresolved_kept [OF t assms(2)] and e = check_candidates_effect [OF assms(2) u]
  have s': "gs' = g2" "st = (st2 \<or> 0 < g2)" "s' = u" using assms(1) True gbh t u by (auto simp: node_pass_def cs_def Let_def)
  have "cs = [] \<or> cs = map (\<lambda>b. (bk_hash b, bk_height b)) (candidates tip (dbase s))"
    using l candidate_hashes [OF assms(3), of tip] by (auto simp: cs_def candidates_def split: option.splits)
  then have "fst ` set cs \<subseteq> bk_hash ` set (candidates tip (dbase s))" by force
  then have "reviews (bk_hash ` set (candidates tip (dbase s))) (dbase s) (dbase s')" using e l s'(3) reviews_mono by metis
  then show ?thesis using e l s' gbh by (auto simp: serves_def)
qed

text \<open>The settlement and the distribution that end a pass.\<close>

definition review :: "sqlite \<Rightarrow> reconcile_cfg \<Rightarrow> int \<Rightarrow> int \<Rightarrow> store \<Rightarrow> reconcile_result \<times> int \<times> store" where
  "review io cfg tip gs s =
     (let (gs, settled, n, s) = node_pass io cfg tip gs s; r = no_result\<lparr>checked_via_node := n\<rparr>
      in if settled then (r, gs, s)
         else let (rc, c, orp, p, s) = store_reconcile_blocks_from_templates io tip s in (r\<lparr>ran_templates_pass := True\<rparr>, gs, s))"

lemma pass_review:
  "0 < tip \<Longrightarrow> reconcile_blocks_pass io agg now cfg tip gs s =
     (let (r, gs, s) = review io cfg tip gs s;
          (rc, applied, discarded, s) = store_settle_block_fractions io now s;
          r = r\<lparr>fractions_applied := applied, fractions_discarded := discarded\<rparr>
      in if \<not> rc_pplns cfg then Ok (r, gs, s)
         else bindR (store_pplns_distribute io agg now PPLNS_MATURITY_CONFS (rc_fee_bps cfg) s) (\<lambda>(rc, nb, nw, s).
           Ok (r\<lparr>ran_distribution := True, distribute_failed := rc < 0, blocks_distributed := nb, worker_credits := nw\<rparr>, gs, s)))"
  by (auto simp: reconcile_blocks_pass_def review_def Let_def split: prod.splits)

lemma review_effect:
  assumes "review io cfg tip gs s = (r, gs', s')" and "no_auto_rollback io" and "short_hashes (dbase s)"
  shows "saved s' = saved s \<and> reviews UNIV (dbase s) (dbase s') \<and>
    (gs = 1 \<and> serves cfg \<longrightarrow> gs' = 1 \<and> \<not> ran_templates_pass r \<and> reviews (bk_hash ` set (candidates tip (dbase s))) (dbase s) (dbase s'))"
proof -
  obtain g st n t where t: "node_pass io cfg tip gs s = (g, st, n, t)" by (metis surj_pair)
  obtain rc c orp p u where u: "store_reconcile_blocks_from_templates io tip t = (rc, c, orp, p, u)" by (metis surj_pair)
  note e = node_pass_effect [OF t assms(2,3)] and q = templates_reviews [OF u assms(2)]
  have v: "gs' = g" "s' = (if st then t else u)" "ran_templates_pass r \<longleftrightarrow> \<not> st"
    using assms(1) t u by (auto simp: review_def no_result_def Let_def split: if_splits)
  have "reviews UNIV (dbase s) (dbase t)" using e reviews_mono by blast
  then have "reviews UNIV (dbase s) (dbase s')" using q reviews_trans [of UNIV "dbase s" "dbase t" UNIV] v(2) by simp
  then show ?thesis using e q v by auto
qed

lemma apply_one_ok: "sql_apply_one now p d = Some d' \<Longrightarrow> db_ok d \<Longrightarrow> db_ok d'"
proof -
  assume a: "sql_apply_one now p d = Some d'" "db_ok d"
  have fw: "db_ok (d\<lparr>fractions := fs\<rparr>)" if "distinct (map fr_worker fs)" "set (map fr_worker fs) \<subseteq> set (worker_ids d)" for fs
    using a(2) that by (simp add: db_ok_def)
  have m: "map fr_worker (map (\<lambda>f. if fr_worker f = w then f\<lparr>fr_owed := g f, fr_updated := t\<rparr> else f) fs) = map fr_worker fs" for w g t fs by simp
  have ds: "distinct (map fr_worker (fractions d))" "set (map fr_worker (fractions d)) \<subseteq> set (worker_ids d)" using a(2) by (simp_all add: db_ok_def)
  show ?thesis
  proof (cases "pf_worker p \<in> set (map fr_worker (fractions d))")
    case True
    then have "d' = d\<lparr>fractions := map (\<lambda>f. if fr_worker f = pf_worker p then f\<lparr>fr_owed := d_add (fr_owed f) (pf_delta p), fr_updated := now\<rparr> else f) (fractions d)\<rparr>"
      using a(1) by (simp add: sql_apply_one_def split: if_splits)
    moreover have "db_ok (d\<lparr>fractions := map (\<lambda>f. if fr_worker f = pf_worker p then f\<lparr>fr_owed := d_add (fr_owed f) (pf_delta p), fr_updated := now\<rparr> else f) (fractions d)\<rparr>)"
      by (rule fw) (use ds in \<open>simp_all only: m\<close>)
    ultimately show ?thesis by simp
  next
    case False
    then have "d' = d\<lparr>fractions := fractions d @ [\<lparr>fr_worker = pf_worker p, fr_owed = pf_delta p, fr_updated = now\<rparr>]\<rparr>" "pf_worker p \<in> set (worker_ids d)"
      using a(1) by (simp_all add: sql_apply_one_def split: if_splits)
    then show ?thesis using fw [of "fractions d @ [\<lparr>fr_worker = pf_worker p, fr_owed = pf_delta p, fr_updated = now\<rparr>]"] ds False by simp
  qed
qed

lemma apply_rows_ok: "apply_rows now ps d = Some d' \<Longrightarrow> db_ok d \<Longrightarrow> db_ok d'"
  by (induction ps arbitrary: d) (auto split: option.splits intro: apply_one_ok)

lemma settles_kept:
  assumes "settles now C H d d'"
  shows "db_ok d \<Longrightarrow> db_ok d'" and "small_ledger d \<Longrightarrow> small_ledger d'" and "blocks d' = blocks d" and "short_hashes d' = short_hashes d"
    and "staged_ok d \<Longrightarrow> staged_ok d'" and "hash_unique d' = hash_unique d"
proof -
  obtain rows d1 where r: "apply_rows now rows d = Some d1" "only_fractions d d1" "d' = d1\<lparr>pending := filter (\<lambda>p. pf_hash p \<notin> H) (pending d)\<rparr>"
    using assms by (auto simp: settles_def)
  note o = only_fractions_simps [OF r(2)]
  have e: "shares d1 = shares d" "workers d1 = workers d"
    using r(2) unfolding only_fractions_def by (metis db.select_convs db.surjective db.update_convs(18))+
  show "db_ok d'" if "db_ok d"
  proof -
    have "db_ok d1" by (rule apply_rows_ok [OF r(1) that])
    moreover have "distinct (map (\<lambda>r. (pf_hash r, pf_worker r)) (filter (\<lambda>p. pf_hash p \<notin> H) (pending d)))"
      using that by (simp add: db_ok_def distinct_map_filter)
    ultimately show ?thesis by (simp add: r(3) db_ok_def)
  qed
  show "small_ledger d'" if "small_ledger d" using that by (simp add: small_ledger_def plain_difficulties_def r(3) o e)
  show "blocks d' = blocks d" "short_hashes d' = short_hashes d" "hash_unique d' = hash_unique d" by (simp_all add: r(3) o short_hashes_def)
  show "staged_ok d'" if "staged_ok d" using that o by (simp add: staged_ok_def r(3))
qed

lemma settles_tables:
  assumes "settles now C H d d'"
  shows "shares d' = shares d" and "credits d' = credits d"
proof -
  obtain d1 where r: "only_fractions d d1" "d' = d1\<lparr>pending := filter (\<lambda>p. pf_hash p \<notin> H) (pending d)\<rparr>" using assms by (auto simp: settles_def)
  have "shares d1 = shares d" "credits d1 = credits d"
    using r(1) unfolding only_fractions_def by (metis db.select_convs db.surjective db.update_convs(18))+
  then show "shares d' = shares d" "credits d' = credits d" by (simp_all add: r(2))
qed

lemma settle_keeps:
  assumes "store_settle_block_fractions io now s = (rc, a, x, s')" and "no_auto_rollback io" and "staged_ok (dbase s)" and "store_ok s" and "saved s = None"
  shows "saved s' = None \<and> store_ok s' \<and> (\<exists>C H. settles now C H (dbase s) (dbase s')) \<and>
    ((\<forall>n. io n = Done) \<and> card (staged_decided (dbase s)) \<le> 64 \<longrightarrow> staged_decided (dbase s') = {})"
proof -
  note e = settle_effect [OF assms(2-5,1)]
  then obtain C H where "settles now C H (dbase s) (dbase s')" by blast
  then show ?thesis using e settles_kept(1) assms(4) by (auto simp: store_ok_def)
qed

text \<open>The states a pass is run in.\<close>

definition ready :: "store \<Rightarrow> bool" where
  "ready s \<longleftrightarrow> store_ok s \<and> saved s = None \<and> hash_unique (dbase s) \<and> small_ledger (dbase s) \<and> staged_ok (dbase s) \<and> short_hashes (dbase s)"

lemma reviews_ready:
  assumes "reviews H (dbase s) (dbase s')" and "saved s' = saved s" and "ready s"
  shows "ready s'"
proof -
  obtain f where f: "dbase s' = (dbase s)\<lparr>blocks := map f (blocks (dbase s))\<rparr>" "\<forall>b. status_only b (f b)" using assms(1) by (auto simp: reviews_def)
  have "bk_hash (f b) = bk_hash b" for b using f(2) status_only_keeps by blast
  then have "short_hashes (dbase s')" using assms(3) by (auto simp: ready_def short_hashes_def f(1))
  then show ?thesis using reviews_kept [OF assms(1)] assms(2,3) by (auto simp: ready_def store_ok_def)
qed

lemma distributes_kept:
  assumes "distributes f I d d'"
  shows "small_ledger d \<Longrightarrow> small_ledger d'" and "staged_ok d \<Longrightarrow> staged_ok d'" and "short_hashes d \<Longrightarrow> short_hashes d'" and "hash_unique d' = hash_unique d"
    and "pending d' = pending d" and "verdict d' h = verdict d h"
proof -
  obtain cr where d: "d' = d\<lparr>credits := cr, blocks := map (latch I) (blocks d)\<rparr>" using assms by (auto simp: distributes_def)
  show "small_ledger d \<Longrightarrow> small_ledger d'" by (auto simp: d small_ledger_def plain_difficulties_def)
  show "staged_ok d \<Longrightarrow> staged_ok d'" by (simp add: d staged_ok_def)
  show "short_hashes d \<Longrightarrow> short_hashes d'" by (simp add: d short_hashes_def)
  show "hash_unique d' = hash_unique d" "pending d' = pending d" by (simp_all add: d)
  have s: "bk_status (latch I b) = bk_status b" for b by (simp add: latch_def)
  have "map_option bk_status (find (\<lambda>b. bk_hash b = h) (map (latch I) bs)) = map_option bk_status (find (\<lambda>b. bk_hash b = h) bs)" for bs
    by (induction bs) (simp_all add: s)
  then show "verdict d' h = verdict d h" by (simp add: verdict_def d)
qed

text \<open>One pass: a review, a settlement, a distribution.\<close>

lemma pass_effect:
  assumes "no_auto_rollback io" and "accurate_sum agg" and "ready s" and "0 < tip"
  shows "\<exists>r gs' s' d1 d2 C H I. reconcile_blocks_pass io agg now cfg tip gs s = Ok (r, gs', s') \<and> ready s' \<and>
    reviews UNIV (dbase s) d1 \<and> settles now C H d1 d2 \<and> distributes (rc_fee_bps cfg) I d2 (dbase s') \<and>
    I \<subseteq> bk_id ` set (due_blocks PPLNS_MATURITY_CONFS d2) \<and> ran_distribution r = rc_pplns cfg \<and>
    (gs = 1 \<and> serves cfg \<longrightarrow> gs' = 1 \<and> \<not> ran_templates_pass r \<and> reviews (bk_hash ` set (candidates tip (dbase s))) (dbase s) d1) \<and>
    ((\<forall>n. io n = Done) \<longrightarrow> (card (staged_decided d1) \<le> 64 \<longrightarrow> staged_decided (dbase s') = {}) \<and>
       (rc_pplns cfg \<longrightarrow> due_blocks PPLNS_MATURITY_CONFS (dbase s') = []))"
proof -
  obtain r0 g1 s1 where s1: "review io cfg tip gs s = (r0, g1, s1)" by (metis surj_pair)
  have sh: "short_hashes (dbase s)" using assms(3) by (simp add: ready_def)
  note e1 = review_effect [OF s1 assms(1) sh]
  have k1: "ready s1" using reviews_ready e1 assms(3) by blast
  obtain rc a x s2 where s2: "store_settle_block_fractions io now s1 = (rc, a, x, s2)" by (metis surj_pair)
  have e2: "saved s2 = None" "store_ok s2" "\<exists>C H. settles now C H (dbase s1) (dbase s2)"
      "(\<forall>n. io n = Done) \<and> card (staged_decided (dbase s1)) \<le> 64 \<longrightarrow> staged_decided (dbase s2) = {}"
    using settle_keeps [OF s2 assms(1)] k1 by (auto simp: ready_def)
  then obtain C H where CH: "settles now C H (dbase s1) (dbase s2)" by blast
  have k2: "ready s2" using settles_kept [OF CH] e2(1,2) k1 by (auto simp: ready_def)
  define r1 where "r1 = r0\<lparr>fractions_applied := a, fractions_discarded := x\<rparr>"
  have t0: "ran_templates_pass r1 = ran_templates_pass r0" by (simp add: r1_def)
  show ?thesis
  proof (cases "rc_pplns cfg")
    case False
    have "reconcile_blocks_pass io agg now cfg tip gs s = Ok (r1, g1, s2)" using s1 s2 False by (simp add: pass_review [OF assms(4)] r1_def)
    moreover have "\<not> ran_distribution r1"
      using s1 by (auto simp: r1_def review_def no_result_def Let_def split: if_splits prod.splits)
    ultimately show ?thesis using k2 e1 CH e2(4) t0 False distributes_refl [of "rc_fee_bps cfg" "dbase s2"]
      apply -
      apply (rule exI [of _ r1], rule exI [of _ g1], rule exI [of _ s2], rule exI [of _ "dbase s1"], rule exI [of _ "dbase s2"], rule exI [of _ C], rule exI [of _ H], rule exI [of _ "{} :: int set"])
      by auto
  next
    case True
    have mx: "max 0 PPLNS_MATURITY_CONFS = PPLNS_MATURITY_CONFS" by (simp add: PPLNS_MATURITY_CONFS_def)
    have "small_ledger (dbase s2)" "store_ok s2" "saved s2 = None" using k2 by (simp_all add: ready_def)
    from distribute_effect [OF assms(1,2) this, of now PPLNS_MATURITY_CONFS "rc_fee_bps cfg"] obtain rc nb nw s3 I where
      s3: "store_pplns_distribute io agg now PPLNS_MATURITY_CONFS (rc_fee_bps cfg) s2 = Ok (rc, nb, nw, s3)" "store_ok s3" "saved s3 = None"
        "I \<subseteq> bk_id ` set (due_blocks PPLNS_MATURITY_CONFS (dbase s2))" "distributes (rc_fee_bps cfg) I (dbase s2) (dbase s3)"
        "(\<forall>n. io n = Done) \<longrightarrow> I = bk_id ` set (due_blocks PPLNS_MATURITY_CONFS (dbase s2))"
      unfolding mx by blast
    define r2 where "r2 = r1\<lparr>ran_distribution := True, distribute_failed := rc < 0, blocks_distributed := nb, worker_credits := nw\<rparr>"
    have "reconcile_blocks_pass io agg now cfg tip gs s = Ok (r2, g1, s3)" using s1 s2 s3(1) True by (simp add: pass_review [OF assms(4)] r1_def r2_def)
    moreover note d = distributes_kept [OF s3(5)]
    moreover have "ready s3" using s3(2,3) d k2 by (simp add: ready_def)
    moreover have "staged_decided (dbase s3) = staged_decided (dbase s2)" by (simp add: staged_decided_def decided_def d(5,6))
    moreover have "(\<forall>n. io n = Done) \<longrightarrow> due_blocks PPLNS_MATURITY_CONFS (dbase s3) = []" using s3(5,6) nothing_due by metis
    moreover have "ran_distribution r2" "ran_templates_pass r2 = ran_templates_pass r0" by (simp_all add: r2_def t0)
    ultimately show ?thesis using e1 CH e2(4) s3(4,5) True
      apply -
      apply (rule exI [of _ r2], rule exI [of _ g1], rule exI [of _ s3], rule exI [of _ "dbase s1"], rule exI [of _ "dbase s2"], rule exI [of _ C], rule exI [of _ H], rule exI [of _ I])
      by simp
  qed
qed

section \<open>What a pass guarantees\<close>

lemma candidate_unique:
  assumes "ready s" and "b \<in> set (blocks (dbase s))" and "b \<notin> set (candidates tip (dbase s))"
  shows "bk_hash b \<notin> bk_hash ` set (candidates tip (dbase s))"
proof
  assume "bk_hash b \<in> bk_hash ` set (candidates tip (dbase s))"
  then obtain c where c: "c \<in> set (candidates tip (dbase s))" "bk_hash c = bk_hash b" by auto
  then have "c \<in> set (blocks (dbase s))" by (auto simp: candidates_def unresolved_set dest: in_set_takeD)
  moreover have "distinct (map bk_hash (blocks (dbase s)))" using assms(1) by (simp add: ready_def store_ok_def db_ok_def)
  ultimately have "c = b" using assms(2) c(2) by (metis distinct_map inj_on_eq_iff)
  then show False using c assms(3) by simp
qed

text \<open>While the node answers, a block it is not asked about and that is not due is left as it is.\<close>

lemma unasked_kept:
  assumes "no_auto_rollback io" and "accurate_sum agg" and "ready s" and "0 < tip" and "serves cfg"
    and "b \<in> set (blocks (dbase s))" and "b \<notin> set (candidates tip (dbase s))" and "b \<notin> set (due_blocks PPLNS_MATURITY_CONFS (dbase s))"
  shows "\<exists>r s'. reconcile_blocks_pass io agg now cfg tip 1 s = Ok (r, 1, s') \<and> ready s' \<and> b \<in> set (blocks (dbase s'))"
proof -
  obtain r gs' s' d1 d2 C H I where p: "reconcile_blocks_pass io agg now cfg tip 1 s = Ok (r, gs', s')" "ready s'"
    "settles now C H d1 d2" "distributes (rc_fee_bps cfg) I d2 (dbase s')" "I \<subseteq> bk_id ` set (due_blocks PPLNS_MATURITY_CONFS d2)"
    "gs' = 1" "reviews (bk_hash ` set (candidates tip (dbase s))) (dbase s) d1"
    using pass_effect [OF assms(1-4), of now cfg 1] assms(5) by blast
  have b1: "b \<in> set (blocks d1)" using reviews_kept(6) [OF p(7) assms(6) candidate_unique [OF assms(3,6,7)]] .
  then have b2: "b \<in> set (blocks d2)" using settles_kept(3) [OF p(3)] by simp
  have ids: "distinct (map bk_id (blocks d2))"
  proof -
    have "db_ok (dbase s)" using assms(3) by (simp add: ready_def store_ok_def)
    then have "db_ok d2" using reviews_kept(1) [OF p(7)] settles_kept(1) [OF p(3)] by blast
    then show ?thesis using ids_ok_distinct by (auto simp: db_ok_def)
  qed
  have "bk_id b \<notin> I"
  proof
    assume "bk_id b \<in> I"
    then obtain c where c: "c \<in> set (due_blocks PPLNS_MATURITY_CONFS d2)" "bk_id c = bk_id b" using p(5) by auto
    then have "c = b" using ids b2 by (metis distinct_map inj_on_eq_iff set_due)
    then show False using c(1) assms(6,8) by (simp add: set_due)
  qed
  then have "latch I b = b" by (simp add: latch_def)
  then have "b \<in> set (blocks (dbase s'))" using distributes_blocks [OF p(4)] b2 by (metis image_eqI list.set_map)
  then show ?thesis using p(1,2,6) by blast
qed

text \<open>Passes one after the other, each with its own fate, time, configuration and tip.\<close>

fun reconcile_passes :: "sql_sum \<Rightarrow> (sqlite \<times> int \<times> reconcile_cfg \<times> int) list \<Rightarrow> int \<Rightarrow> store \<Rightarrow> (int \<times> store) res" where
  "reconcile_passes agg [] gs s = Ok (gs, s)"
| "reconcile_passes agg ((io, now, cfg, tip) # ps) gs s =
     bindR (reconcile_blocks_pass io agg now cfg tip gs s) (\<lambda>(r, gs, s). reconcile_passes agg ps gs s)"

lemma unlisted_orphan: "bk_status b = ''orphaned'' \<Longrightarrow> b \<notin> set (candidates tip d) \<and> b \<notin> set (due_blocks m d)"
  by (auto simp: candidates_def set_due unresolved_set dest!: in_set_takeD)

lemma pass_without_tip: "\<not> 0 < tip \<Longrightarrow> reconcile_blocks_pass io agg now cfg tip gs s = Ok (no_result, gs, s)"
  by (simp add: reconcile_blocks_pass_def)

lemma orphan_kept:
  assumes "accurate_sum agg" and "bk_status b = ''orphaned''"
  shows "\<forall>(io, now, cfg, tip) \<in> set ps. no_auto_rollback io \<and> serves cfg \<Longrightarrow> ready s \<Longrightarrow> b \<in> set (blocks (dbase s)) \<Longrightarrow>
    \<exists>s'. reconcile_passes agg ps 1 s = Ok (1, s') \<and> ready s' \<and> b \<in> set (blocks (dbase s'))"
proof (induction ps arbitrary: s)
  case Nil
  then show ?case by simp
next
  case (Cons p ps)
  obtain io now cfg tip where p: "p = (io, now, cfg, tip)" by (metis surj_pair)
  have "\<exists>r s1. reconcile_blocks_pass io agg now cfg tip 1 s = Ok (r, 1, s1) \<and> ready s1 \<and> b \<in> set (blocks (dbase s1))"
  proof (cases "0 < tip")
    case True
    then show ?thesis using unasked_kept [OF _ assms(1) Cons.prems(2) True _ Cons.prems(3)] unlisted_orphan [OF assms(2)] Cons.prems(1) by (auto simp: p)
  next
    case False
    then show ?thesis using Cons.prems(2,3) by (simp add: pass_without_tip)
  qed
  then obtain r s1 where s1: "reconcile_blocks_pass io agg now cfg tip 1 s = Ok (r, 1, s1)" "ready s1" "b \<in> set (blocks (dbase s1))" by blast
  then show ?case using Cons.IH [OF _ s1(2,3)] Cons.prems(1) by (auto simp: p)
qed

text \<open>A block with sixteen newer unresolved ones above it is not a candidate.\<close>

lemma unresolved_sorted: "sorted_wrt (\<lambda>a b. bk_height b \<le> bk_height a) (unresolved tip depth d)"
proof -
  have "sorted (map bk_height (sort_key bk_height xs))" for xs :: "block_row list" by simp
  then have "sorted_wrt (\<lambda>a b. bk_height a \<le> bk_height b) (sort_key bk_height xs)" for xs :: "block_row list" by (simp add: sorted_map)
  then show ?thesis by (simp add: unresolved_def sorted_wrt_rev)
qed

lemma crowded_out:
  assumes "sorted_wrt (\<lambda>a b. bk_height b \<le> bk_height a) bs" and "n \<le> length (filter (\<lambda>c. bk_height b < bk_height c) bs)"
  shows "b \<notin> set (take n bs)"
proof
  assume "b \<in> set (take n bs)"
  then obtain i where i: "i < n" "i < length bs" "bs ! i = b" by (auto simp: in_set_conv_nth)
  have "\<not> bk_height b < bk_height c" if "c \<in> set (drop i bs)" for c
  proof -
    obtain j where j: "c = bs ! (i + j)" "i + j < length bs" using \<open>c \<in> set (drop i bs)\<close> by (auto simp: in_set_conv_nth)
    then show ?thesis using assms(1) i(3) by (cases "j = 0") (auto simp: sorted_wrt_iff_nth_less not_less)
  qed
  then have "filter (\<lambda>c. bk_height b < bk_height c) (drop i bs) = []" by (simp add: filter_empty_conv)
  then have "filter (\<lambda>c. bk_height b < bk_height c) bs = filter (\<lambda>c. bk_height b < bk_height c) (take i bs)"
    by (metis append_Nil2 append_take_drop_id filter_append)
  then have "length (filter (\<lambda>c. bk_height b < bk_height c) bs) \<le> i" using length_filter_le [of _ "take i bs"] i(2) by (metis length_take min.strict_order_iff min.commute)
  then show False using assms(2) i(1) by simp
qed

text \<open>A pass in which SQLite answers: the staged rows of every decided block are settled, and every due block is paid.\<close>

lemma pass_done:
  assumes "\<forall>n. io n = Done" and "accurate_sum agg" and "ready s" and "0 < tip"
  shows "\<exists>r gs' s' d1 d2. reconcile_blocks_pass io agg now cfg tip gs s = Ok (r, gs', s') \<and> ready s' \<and> ran_distribution r = rc_pplns cfg \<and>
    d1 = dbase (snd (snd (review io cfg tip gs s))) \<and> reviews UNIV (dbase s) d1 \<and>
    (card (staged_decided d1) \<le> 64 \<longrightarrow> settles now {h \<in> staged_decided d1. verdict d1 h = Some ''confirmed''} (staged_decided d1) d1 d2 \<and> staged_decided (dbase s') = {}) \<and>
    blocks d2 = blocks d1 \<and> shares d2 = shares (dbase s) \<and> credits d2 = credits (dbase s) \<and>
    (\<forall>i. worker_balance (dbase s') i = worker_balance (dbase s) i +
       (if rc_pplns cfg then sum_list (map (\<lambda>b. block_credits agg (rc_fee_bps cfg) (dbase s) b i) (due_blocks PPLNS_MATURITY_CONFS d1)) else 0)) \<and>
    (rc_pplns cfg \<longrightarrow> due_blocks PPLNS_MATURITY_CONFS (dbase s') = []) \<and> (\<not> rc_pplns cfg \<longrightarrow> dbase s' = d2)"
proof -
  have nr: "no_auto_rollback io" using assms(1) by (simp add: no_auto_rollback_def)
  obtain r0 g1 s1 where s1: "review io cfg tip gs s = (r0, g1, s1)" by (metis surj_pair)
  have sh: "short_hashes (dbase s)" using assms(3) by (simp add: ready_def)
  note e1 = review_effect [OF s1 nr sh]
  have k1: "ready s1" using reviews_ready e1 assms(3) by blast
  have b1: "shares (dbase s1) = shares (dbase s)" "credits (dbase s1) = credits (dbase s)" using e1 by (auto simp: reviews_def)
  obtain rc a x s2 where s2: "store_settle_block_fractions io now s1 = (rc, a, x, s2)" by (metis surj_pair)
  obtain H where H: "H \<subseteq> staged_decided (dbase s1)" "settles now {h \<in> H. verdict (dbase s1) h = Some ''confirmed''} H (dbase s1) (dbase s2)"
    "card (staged_decided (dbase s1)) \<le> 64 \<longrightarrow> staged_decided (dbase s2) = {}" "saved s2 = None"
    using settle_effect [OF nr _ _ _ s2] k1 assms(1) by (auto simp: ready_def)
  note sk = settles_kept [OF H(2)]
  have d2: "db_ok (dbase s2)" using sk(1) k1 by (simp add: ready_def store_ok_def)
  have k2: "ready s2" using sk H(4) k1 d2 by (auto simp: ready_def store_ok_def)
  have v2: "verdict (dbase s2) h = verdict (dbase s1) h" for h using sk(3) by (simp add: verdict_def)
  have all: "H = staged_decided (dbase s1)" if "staged_decided (dbase s2) = {}"
  proof -
    have "h \<in> H" if h: "h \<in> staged_decided (dbase s1)" for h
    proof (rule ccontr)
      assume "h \<notin> H"
      then have "h \<in> staged_decided (dbase s2)" using h settles_blocks [OF H(2)] v2 by (auto simp: staged_decided_def decided_def)
      then show False using \<open>staged_decided (dbase s2) = {}\<close> by simp
    qed
    then show ?thesis using H(1) by blast
  qed
  have q: "shares (dbase s2) = shares (dbase s)" "credits (dbase s2) = credits (dbase s)"
    using settles_tables [OF H(2)] b1 by simp_all
  define r1 where "r1 = r0\<lparr>fractions_applied := a, fractions_discarded := x\<rparr>"
  have st: "card (staged_decided (dbase s1)) \<le> 64 \<longrightarrow>
      settles now {h \<in> staged_decided (dbase s1). verdict (dbase s1) h = Some ''confirmed''} (staged_decided (dbase s1)) (dbase s1) (dbase s2) \<and> staged_decided (dbase s2) = {}"
    using H all by auto
  have rv: "reviews UNIV (dbase s) (dbase s1)" using e1 by blast
  have due: "due_blocks m (dbase s2) = due_blocks m (dbase s1)" for m using sk(3) by (simp add: due_blocks_def)
  show ?thesis
  proof (cases "rc_pplns cfg")
    case False
    have "reconcile_blocks_pass io agg now cfg tip gs s = Ok (r1, g1, s2)" using s1 s2 False by (simp add: pass_review [OF assms(4)] r1_def)
    moreover have "\<not> ran_distribution r1"
      using s1 by (auto simp: r1_def review_def no_result_def Let_def split: if_splits prod.splits)
    ultimately show ?thesis using False k2 rv st sk(3) q
      by (intro exI [of _ r1] exI [of _ g1] exI [of _ s2] exI [of _ "dbase s1"] exI [of _ "dbase s2"]) (simp add: worker_balance_def s1)
  next
    case True
    have mx: "max 0 PPLNS_MATURITY_CONFS = PPLNS_MATURITY_CONFS" "0 \<le> PPLNS_MATURITY_CONFS" by (simp_all add: PPLNS_MATURITY_CONFS_def)
    have p2: "small_ledger (dbase s2)" "store_ok s2" "saved s2 = None" using k2 by (simp_all add: ready_def)
    from distribute_effect [OF nr assms(2) this, of now PPLNS_MATURITY_CONFS "rc_fee_bps cfg"] obtain rc nb nw s3 where
      s3: "store_pplns_distribute io agg now PPLNS_MATURITY_CONFS (rc_fee_bps cfg) s2 = Ok (rc, nb, nw, s3)" "store_ok s3" "saved s3 = None"
        "distributes (rc_fee_bps cfg) (bk_id ` set (due_blocks PPLNS_MATURITY_CONFS (dbase s2))) (dbase s2) (dbase s3)"
      unfolding mx using assms(1) by blast
    define r2 where "r2 = r1\<lparr>ran_distribution := True, distribute_failed := rc < 0, blocks_distributed := nb, worker_credits := nw\<rparr>"
    have "reconcile_blocks_pass io agg now cfg tip gs s = Ok (r2, g1, s3)" using s1 s2 s3(1) True by (simp add: pass_review [OF assms(4)] r1_def r2_def)
    moreover note d = distributes_kept [OF s3(4)]
    moreover have "ready s3" using s3(2,3) d k2 by (simp add: ready_def)
    moreover have "staged_decided (dbase s3) = staged_decided (dbase s2)" by (simp add: staged_decided_def decided_def d(5,6))
    moreover have "due_blocks PPLNS_MATURITY_CONFS (dbase s3) = []" using s3(4) nothing_due by metis
    moreover have "worker_balance (dbase s3) i = worker_balance (dbase s) i + sum_list (map (\<lambda>b. block_credits agg (rc_fee_bps cfg) (dbase s) b i) (due_blocks PPLNS_MATURITY_CONFS (dbase s1)))" for i
      using distribute_exact [OF assms(1,2) p2 mx(2) s3(1), of i] block_credits_shares [OF q(1)] by (simp add: due worker_balance_def q(2))
    ultimately show ?thesis using True rv st sk(3) q
      by (intro exI [of _ r2] exI [of _ g1] exI [of _ s3] exI [of _ "dbase s1"] exI [of _ "dbase s2"]) (simp add: r2_def s1)
  qed
qed

text \<open>
  C9: payment is never skipped. In a pass in which SQLite answers every call, with at most 64 blocks
  among the staged rows, whatever the node answers to getblockhash, whether it is asked at all and
  whichever of the two mechanisms reviewed the statuses: in every mode, the staged rows of every decided
  block are settled, those of the confirmed ones applied and those of the others dropped; and in the modes
  that keep balances, every matured block of the reviewed ledger is latched and every worker is credited
  exactly its truncated share of every one of them, while in the other modes no balance changes. The ledger
  must satisfy its constraints, with at most \<open>2^20\<close> workers and at most \<open>2^42\<close> satoshis a block.
\<close>

theorem reconcile_always_pays:
  assumes "\<forall>n. io n = Done" and "accurate_sum agg" and "ready s" and "0 < tip" and "card (pf_hash ` set (pending (dbase s))) \<le> 64"
  shows "\<exists>r gs' s' d1 d2. reconcile_blocks_pass io agg now cfg tip gs s = Ok (r, gs', s') \<and> ready s' \<and>
    d1 = dbase (snd (snd (review io cfg tip gs s))) \<and> reviews UNIV (dbase s) d1 \<and>
    settles now {h \<in> staged_decided d1. verdict d1 h = Some ''confirmed''} (staged_decided d1) d1 d2 \<and> staged_decided (dbase s') = {} \<and>
    ran_distribution r = rc_pplns cfg \<and> (\<not> rc_pplns cfg \<longrightarrow> dbase s' = d2) \<and>
    (rc_pplns cfg \<longrightarrow> due_blocks PPLNS_MATURITY_CONFS (dbase s') = []) \<and>
    (\<forall>i. worker_balance (dbase s') i = worker_balance (dbase s) i +
       (if rc_pplns cfg then sum_list (map (\<lambda>b. block_credits agg (rc_fee_bps cfg) (dbase s) b i) (due_blocks PPLNS_MATURITY_CONFS d1)) else 0))"
proof -
  obtain r gs' s' d1 d2 where p: "reconcile_blocks_pass io agg now cfg tip gs s = Ok (r, gs', s')" "ready s'" "ran_distribution r = rc_pplns cfg" "reviews UNIV (dbase s) d1" "d1 = dbase (snd (snd (review io cfg tip gs s)))"
    "card (staged_decided d1) \<le> 64 \<longrightarrow> settles now {h \<in> staged_decided d1. verdict d1 h = Some ''confirmed''} (staged_decided d1) d1 d2 \<and> staged_decided (dbase s') = {}"
    "\<forall>i. worker_balance (dbase s') i = worker_balance (dbase s) i +
       (if rc_pplns cfg then sum_list (map (\<lambda>b. block_credits agg (rc_fee_bps cfg) (dbase s) b i) (due_blocks PPLNS_MATURITY_CONFS d1)) else 0)"
    "rc_pplns cfg \<longrightarrow> due_blocks PPLNS_MATURITY_CONFS (dbase s') = []" "\<not> rc_pplns cfg \<longrightarrow> dbase s' = d2"
    using pass_done [OF assms(1-4), of now cfg gs] by blast
  have "staged_decided d1 \<subseteq> pf_hash ` set (pending (dbase s))" using reviews_kept(4) [OF p(4)] by (auto simp: staged_decided_def)
  then have "card (staged_decided d1) \<le> 64" using assms(5) card_mono [of "pf_hash ` set (pending (dbase s))"] by (metis finite_imageI finite_set order_trans)
  then show ?thesis using p by blast
qed

text \<open>
  C37: an orphaned block is never restored on a node that serves getblockhash: through any number of passes,
  whatever hashes the node returns, its own included, the row stays exactly as it is, so a block that a
  second reorganisation put back into the chain is never confirmed and never paid.
\<close>

theorem orphan_never_restored:
  assumes "\<forall>(io, now, cfg, tip) \<in> set ps. no_auto_rollback io \<and> serves cfg" and "accurate_sum agg" and "ready s"
    and "b \<in> set (blocks (dbase s))" and "bk_status b = ''orphaned''"
  shows "\<exists>s'. reconcile_passes agg ps 1 s = Ok (1, s') \<and> b \<in> set (blocks (dbase s'))"
  using orphan_kept [OF assms(2,5,1,3,4)] by blast

text \<open>
  C38: on a node that serves getblockhash a block with sixteen newer unresolved blocks above it is not
  looked at: its confirmations stay where they are, below maturity, and it is not distributed.
\<close>

theorem crowded_block_starves:
  assumes "no_auto_rollback io" and "accurate_sum agg" and "ready s" and "0 < tip" and "serves cfg"
    and "b \<in> set (blocks (dbase s))" and "bk_confirmations b < PPLNS_MATURITY_CONFS"
    and "RECONCILE_MAX_PER_TICK \<le> length (filter (\<lambda>c. bk_height b < bk_height c) (unresolved tip BLOCK_FINAL_DEPTH (dbase s)))"
  shows "\<exists>r s'. reconcile_blocks_pass io agg now cfg tip 1 s = Ok (r, 1, s') \<and> b \<in> set (blocks (dbase s'))"
proof -
  have "b \<notin> set (candidates tip (dbase s))" unfolding candidates_def by (rule crowded_out [OF unresolved_sorted assms(8)])
  moreover have "b \<notin> set (due_blocks PPLNS_MATURITY_CONFS (dbase s))" using assms(7) by (simp add: set_due)
  ultimately show ?thesis using unasked_kept [OF assms(1-6)] by blast
qed

text \<open>What the node's own answers make of the rows it is asked about.\<close>

definition node_row :: "int \<Rightarrow> (int \<Rightarrow> string) \<Rightarrow> block_row \<Rightarrow> block_row" where
  "node_row tip chain b =
     (if same_text (chain (bk_height b)) (bk_hash b)
      then b\<lparr>bk_status := ''confirmed'', bk_confirmations := tip - bk_height b + 1, bk_checked_via := Some ''node''\<rparr>
      else b\<lparr>bk_status := ''orphaned'', bk_confirmations := 0, bk_checked_via := Some ''node''\<rparr>)"

lemma node_row_simps [simp]: "bk_hash (node_row tip chain b) = bk_hash b" "bk_height (node_row tip chain b) = bk_height b"
  by (simp_all add: node_row_def)

lemma set_status_done:
  "\<forall>n. io n = Done \<Longrightarrow> store_set_block_status io (Some h) st n via s =
     (0, s\<lparr>calls := Suc (Suc (calls s)), dbase := sql_set_status h (store_block_status_text st) (if n < 0 then 0 else n) via (dbase s)\<rparr>)"
  by (simp add: store_set_block_status_def sql_prepare_def sql_exec_def sql_step_def Let_def)

lemma set_status_row:
  assumes "distinct (map bk_hash (blocks d))" and "b \<in> set (blocks d)" and "bk_height b \<le> tip" and "m = same_text (chain (bk_height b)) (bk_hash b)"
  shows "sql_set_status (bk_hash b) (store_block_status_text (if m then STORE_BLOCK_CONFIRMED else STORE_BLOCK_ORPHANED))
      (if (if m then tip - bk_height b + 1 else 0) < 0 then 0 else if m then tip - bk_height b + 1 else 0) (Some ''node'')
      (d\<lparr>blocks := map (\<lambda>c. if c \<in> A then node_row tip chain c else c) (blocks d)\<rparr>) =
    d\<lparr>blocks := map (\<lambda>c. if c \<in> insert b A then node_row tip chain c else c) (blocks d)\<rparr>"
proof -
  define g where "g c = (if bk_hash c = bk_hash b then c\<lparr>bk_status := store_block_status_text (if m then STORE_BLOCK_CONFIRMED else STORE_BLOCK_ORPHANED),
     bk_confirmations := if (if m then tip - bk_height b + 1 else 0) < 0 then 0 else if m then tip - bk_height b + 1 else 0, bk_checked_via := Some ''node''\<rparr> else c)" for c :: block_row
  have tx: "store_block_status_text STORE_BLOCK_CONFIRMED = ''confirmed''" "store_block_status_text STORE_BLOCK_ORPHANED = ''orphaned''"
    by (simp_all add: store_block_status_text_def STORE_BLOCK_CONFIRMED_def STORE_BLOCK_ORPHANED_def STORE_BLOCK_REJECTED_def)
  have gb: "g b = node_row tip chain b \<and> g (node_row tip chain b) = node_row tip chain b"
  proof (cases "same_text (chain (bk_height b)) (bk_hash b)")
    case True
    then show ?thesis using assms(3) by (simp add: g_def node_row_def assms(4) tx)
  next
    case False
    then show ?thesis by (simp add: g_def node_row_def assms(4) tx)
  qed
  have go: "g c = c" "g (node_row tip chain c) = node_row tip chain c" if "c \<in> set (blocks d)" "c \<noteq> b" for c
  proof -
    have "bk_hash c \<noteq> bk_hash b" using that assms(1,2) by (metis distinct_map inj_on_eq_iff)
    then show "g c = c" "g (node_row tip chain c) = node_row tip chain c" by (simp_all add: g_def)
  qed
  have "map g (map (\<lambda>c. if c \<in> A then node_row tip chain c else c) (blocks d)) = map (\<lambda>c. if c \<in> insert b A then node_row tip chain c else c) (blocks d)"
    using gb go by auto
  then show ?thesis by (simp add: sql_set_status_def g_def)
qed

lemma check_done:
  assumes "\<forall>n. io n = Done" and "distinct (map bk_hash (blocks d))" and "\<forall>i h. gbh i h = Answer (chain h)"
  shows "set bs \<subseteq> set (blocks d) \<Longrightarrow> (\<forall>b \<in> set bs. bk_height b \<le> tip) \<Longrightarrow>
    dbase s = d\<lparr>blocks := map (\<lambda>c. if c \<in> A then node_row tip chain c else c) (blocks d)\<rparr> \<Longrightarrow>
    \<exists>s'. check_candidates io gbh tip (map (\<lambda>b. (bk_hash b, bk_height b)) bs) i gs n s = (if bs = [] then gs else 1, False, n + length bs, s') \<and>
      dbase s' = d\<lparr>blocks := map (\<lambda>c. if c \<in> A \<union> set bs then node_row tip chain c else c) (blocks d)\<rparr>"
proof (induction bs arbitrary: A i gs n s)
  case Nil
  then show ?case by simp
next
  case (Cons b bs)
  define m where "m = same_text (chain (bk_height b)) (bk_hash b)"
  define t where "t = s\<lparr>calls := Suc (Suc (calls s)), dbase := d\<lparr>blocks := map (\<lambda>c. if c \<in> insert b A then node_row tip chain c else c) (blocks d)\<rparr>\<rparr>"
  have "b \<in> set (blocks d)" "bk_height b \<le> tip" using Cons.prems by simp_all
  from set_status_row [OF assms(2) this, where chain = chain and m = m and A = A] m_def
  have "store_set_block_status io (Some (bk_hash b)) (if m then STORE_BLOCK_CONFIRMED else STORE_BLOCK_ORPHANED)
      (if m then tip - bk_height b + 1 else 0) (Some ''node'') s = (0, t)"
    by (simp only: set_status_done [OF assms(1)] Cons.prems(3) t_def)
  then have e: "check_candidates io gbh tip (map (\<lambda>b. (bk_hash b, bk_height b)) (b # bs)) i gs n s =
      check_candidates io gbh tip (map (\<lambda>b. (bk_hash b, bk_height b)) bs) (i + 1) 1 (n + 1) t"
    using assms(3) by (simp add: Let_def m_def)
  have "\<exists>s'. check_candidates io gbh tip (map (\<lambda>b. (bk_hash b, bk_height b)) bs) (i + 1) 1 (n + 1) t = (if bs = [] then 1 else 1, False, n + 1 + length bs, s') \<and>
      dbase s' = d\<lparr>blocks := map (\<lambda>c. if c \<in> insert b A \<union> set bs then node_row tip chain c else c) (blocks d)\<rparr>"
    by (rule Cons.IH) (use Cons.prems in \<open>simp_all add: t_def\<close>)
  then show ?case using e by auto
qed

text \<open>
  On a node that serves getblockhash the sixteen newest unresolved blocks get the node's own verdict,
  confirmed with their depth when the canonical block at their height is theirs and orphaned when it is
  another, every other block keeps its row, and the weaker check of the templates does not run.
\<close>

theorem node_decides:
  assumes "\<forall>n. io n = Done" and "ready s" and "0 \<le> gs" and "get_block_hash cfg = Some gbh" and "\<forall>i h. gbh i h = Answer (chain h)"
  shows "\<exists>s'. node_pass io cfg tip gs s =
      (if candidates tip (dbase s) = [] then gs else 1, candidates tip (dbase s) \<noteq> [] \<or> 0 < gs, length (candidates tip (dbase s)), s') \<and>
    dbase s' = (dbase s)\<lparr>blocks := map (\<lambda>b. if b \<in> set (candidates tip (dbase s)) then node_row tip chain b else b) (blocks (dbase s))\<rparr>"
proof -
  let ?d = "dbase s" and ?cs = "candidates tip (dbase s)"
  have nr: "no_auto_rollback io" using assms(1) by (simp add: no_auto_rollback_def)
  obtain r t where t: "store_list_unresolved_blocks io tip BLOCK_FINAL_DEPTH RECONCILE_MAX_PER_TICK s = (r, t)" by fastforce
  have sh: "short_hashes ?d" "distinct (map bk_hash (blocks ?d))" using assms(2) by (simp_all add: ready_def store_ok_def db_ok_def)
  have r: "r = Some (map (\<lambda>b. (bk_hash b, bk_height b)) ?cs)" "dbase t = ?d"
    using list_unresolved_kept [OF t nr] assms(1) candidate_hashes [OF sh(1), of tip] by (auto simp: candidates_def RECONCILE_MAX_PER_TICK_def)
  have c: "set ?cs \<subseteq> set (blocks ?d)" "\<forall>b \<in> set ?cs. bk_height b \<le> tip" by (auto simp: candidates_def unresolved_set dest!: in_set_takeD)
  have z: "dbase t = ?d\<lparr>blocks := map (\<lambda>c. if c \<in> {} then node_row tip chain c else c) (blocks ?d)\<rparr>" using r(2) by simp
  from check_done [OF assms(1) sh(2) assms(5) c z, of 0 gs 0] obtain s' where
    "check_candidates io gbh tip (map (\<lambda>b. (bk_hash b, bk_height b)) ?cs) 0 gs 0 t = (if ?cs = [] then gs else 1, False, length ?cs, s')"
    "dbase s' = ?d\<lparr>blocks := map (\<lambda>c. if c \<in> set ?cs then node_row tip chain c else c) (blocks ?d)\<rparr>" by auto
  then show ?thesis using assms(3,4) t r(1) by (simp add: node_pass_def)
qed

section \<open>Passes on concrete ledgers\<close>

lemmas demo_defs = demo_staged_def demo_reorged_def demo_template_def demo_ledger_def store_open_def empty_db_def

lemma demo_staged_ready: "ready demo_staged"
  using demo_staged_ok
  by (auto simp: ready_def small_ledger_def plain_difficulties_def short_hashes_def block_gross_def demo_defs)

lemma demo_credits:
  assumes "bk_hash b = ''h1''" and "bk_window b = Fin 5" and "block_gross b = 600"
  shows "block_credits plain_sum 100 (dbase demo_staged) b 2 = 600"
proof -
  have p: "pay 100 b = 600" using assms(3) by (simp add: pay_def block_payable_def COINBASE_DUST_SATS_def i64_ok_def sdiv_nonneg Let_def)
  have sh: "shares (dbase demo_staged) = shares (dbase demo_ledger)" by (simp add: demo_staged_def)
  have a: "anchored ''h1'' (dbase demo_ledger) = rev (shares (dbase demo_ledger))" by (simp add: anchored_def anchor_id_def demo_ledger_def store_open_def)
  have "window_query plain_sum ''h1'' (Fin 5) (dbase demo_ledger) = [(2, Fin 6, Fin 6)]"
    by (simp add: window_query_def a demo_rows Let_def) (simp add: demo_ledger_def store_open_def group_ids_def group_sum_def plain_sum_def)
  then have w: "window_query plain_sum (c_copy HASH_STR_MAX (bk_hash b)) (bk_window b) (dbase demo_staged) = [(2, Fin 6, Fin 6)]"
    using window_query_shares [OF sh] assms by (simp add: c_copy_def HASH_STR_MAX_def)
  have "prop_share 600 (Fin 6) (Fin 6) = Ok 600"
    using d_of_int_exact [of 600] d_of_int_exact [of 1] by (simp add: prop_share_def d_of_int_def chk64_def i64_ok_def rat_trunc_def)
  then show ?thesis using p w by (simp add: block_credits_def row_credits_def share_amount_def d_gt_def)
qed

text \<open>The same ledger in a mode that keeps balances, and in the mode that pays from the coinbase.\<close>

theorem reconcile_always_pays_witness:
  "(\<exists>r gs' s'. reconcile_blocks_pass (\<lambda>n. Done) plain_sum 7 \<lparr>get_block_hash = Some (\<lambda>i h. Answer ''h1''), rc_pplns = True, rc_fee_bps = 100\<rparr> 105 1 demo_staged = Ok (r, gs', s') \<and>
     worker_balance (dbase demo_staged) 2 = 0 \<and> worker_balance (dbase s') 2 = 600 \<and> staged_decided (dbase s') = {}) \<and>
   (\<exists>r gs' s'. reconcile_blocks_pass (\<lambda>n. Done) plain_sum 7 \<lparr>get_block_hash = Some (\<lambda>i h. Unavailable), rc_pplns = False, rc_fee_bps = 100\<rparr> 105 0 demo_staged = Ok (r, gs', s') \<and>
     worker_balance (dbase s') 2 = 0 \<and> staged_decided (dbase demo_staged) = {''h1''} \<and> staged_decided (dbase s') = {})"
proof
  let ?cfg = "\<lparr>get_block_hash = Some (\<lambda>i h. Answer ''h1''), rc_pplns = True, rc_fee_bps = 100\<rparr>"
  have staged: "card (pf_hash ` set (pending (dbase demo_staged))) \<le> 64"
    using card_image_le [of "set (pending (dbase demo_staged))" pf_hash] card_length [of "pending (dbase demo_staged)"] by (simp add: demo_defs)
  have nr: "no_auto_rollback (\<lambda>n. Done)" by (simp add: no_auto_rollback_def)
  have zero: "worker_balance (dbase demo_staged) 2 = 0" by (simp add: worker_balance_def demo_defs)
  obtain r0 g1 s1 where v: "review (\<lambda>n. Done) ?cfg 105 1 demo_staged = (r0, g1, s1)" by (metis surj_pair)
  have "candidates 105 (dbase demo_staged) = []" by (simp add: candidates_def unresolved_def BLOCK_FINAL_DEPTH_def demo_defs)
  moreover have "short_hashes (dbase demo_staged)" "serves ?cfg" using demo_staged_ready by (simp_all add: ready_def serves_def)
  ultimately have "reviews {} (dbase demo_staged) (dbase s1)" using review_effect [OF v nr] by auto
  then have "dbase s1 = dbase demo_staged" by (rule reviews_none)
  then have due: "due_blocks PPLNS_MATURITY_CONFS (dbase s1) = blocks (dbase demo_ledger)"
    by (simp add: due_blocks_def PPLNS_MATURITY_CONFS_def d_gt_def demo_defs)
  have "block_credits plain_sum 100 (dbase demo_staged) (hd (blocks (dbase demo_ledger))) 2 = 600"
    by (rule demo_credits) (simp_all add: block_gross_def demo_defs)
  then have "sum_list (map (\<lambda>b. block_credits plain_sum 100 (dbase demo_staged) b 2) (blocks (dbase demo_ledger))) = 600" by (simp add: demo_defs)
  then show "\<exists>r gs' s'. reconcile_blocks_pass (\<lambda>n. Done) plain_sum 7 ?cfg 105 1 demo_staged = Ok (r, gs', s') \<and>
     worker_balance (dbase demo_staged) 2 = 0 \<and> worker_balance (dbase s') 2 = 600 \<and> staged_decided (dbase s') = {}"
    using reconcile_always_pays [OF _ plain_sum_accurate demo_staged_ready _ staged, of "\<lambda>n. Done" 105 7 ?cfg 1] v due zero by auto
  show "\<exists>r gs' s'. reconcile_blocks_pass (\<lambda>n. Done) plain_sum 7 \<lparr>get_block_hash = Some (\<lambda>i h. Unavailable), rc_pplns = False, rc_fee_bps = 100\<rparr> 105 0 demo_staged = Ok (r, gs', s') \<and>
     worker_balance (dbase s') 2 = 0 \<and> staged_decided (dbase demo_staged) = {''h1''} \<and> staged_decided (dbase s') = {}"
    using reconcile_always_pays [OF _ plain_sum_accurate demo_staged_ready _ staged, of "\<lambda>n. Done" 105 7 "\<lparr>get_block_hash = Some (\<lambda>i h. Unavailable), rc_pplns = False, rc_fee_bps = 100\<rparr>" 0]
      zero demo_staged_decided by auto
qed

text \<open>The block of the ledger, orphaned by a reorganisation; the node answers with its hash again.\<close>

definition demo_orphan :: block_row where
  "demo_orphan = hd (blocks (dbase demo_ledger))\<lparr>bk_status := ''orphaned'', bk_confirmations := 0, bk_checked_via := Some ''node''\<rparr>"

definition demo_orphaned :: store where
  "demo_orphaned = demo_ledger\<lparr>dbase := (dbase demo_ledger)\<lparr>hash_unique := True, blocks := [demo_orphan]\<rparr>\<rparr>"

definition demo_node :: reconcile_cfg where
  "demo_node = \<lparr>get_block_hash = Some (\<lambda>i h. Answer ''h1''), rc_pplns = True, rc_fee_bps = 100\<rparr>"

lemma demo_orphaned_ready: "ready demo_orphaned"
  by (auto simp: ready_def small_ledger_def plain_difficulties_def short_hashes_def block_gross_def staged_ok_def store_ok_def db_ok_def ids_ok_def worker_ids_def
      demo_orphaned_def demo_orphan_def demo_defs)

theorem orphan_never_restored_witness:
  "\<exists>s'. reconcile_passes plain_sum [(\<lambda>n. Done, 7, demo_node, 105), (\<lambda>n. Done, 8, demo_node, 106)] 1 demo_orphaned = Ok (1, s') \<and>
     demo_orphan \<in> set (blocks (dbase s')) \<and> bk_hash demo_orphan = ''h1''"
proof -
  have o: "demo_orphan \<in> set (blocks (dbase demo_orphaned))" "bk_status demo_orphan = ''orphaned''" "bk_hash demo_orphan = ''h1''"
    by (simp_all add: demo_orphaned_def demo_orphan_def demo_defs)
  have "\<forall>(io, now, cfg, tip) \<in> set [(\<lambda>n. Done, 7 :: int, demo_node, 105 :: int), (\<lambda>n. Done, 8, demo_node, 106)]. no_auto_rollback io \<and> serves cfg"
    by (simp add: no_auto_rollback_def serves_def demo_node_def)
  from orphan_never_restored [OF this plain_sum_accurate demo_orphaned_ready o(1,2)] show ?thesis using o(3) by blast
qed

definition demo_fresh :: store where
  "demo_fresh = demo_staged\<lparr>dbase := (dbase demo_staged)\<lparr>blocks := map (\<lambda>b. b\<lparr>bk_confirmations := 0\<rparr>) (blocks (dbase demo_staged))\<rparr>\<rparr>"

lemma demo_fresh_ready: "ready demo_fresh"
proof -
  have "reviews UNIV (dbase demo_staged) (dbase demo_fresh)"
    unfolding reviews_def by (rule exI [of _ "\<lambda>b. b\<lparr>bk_confirmations := 0\<rparr>"]) (simp add: status_only_def demo_fresh_def)
  then show ?thesis by (rule reviews_ready [OF _ _ demo_staged_ready]) (simp add: demo_fresh_def)
qed

theorem node_decides_witness:
  "\<exists>s'. node_pass (\<lambda>n. Done) demo_node 6 0 demo_fresh = (1, True, 1, s') \<and> map bk_confirmations (blocks (dbase s')) = [2]"
proof -
  have c: "candidates 6 (dbase demo_fresh) = blocks (dbase demo_fresh)" "length (blocks (dbase demo_fresh)) = 1" "blocks (dbase demo_fresh) \<noteq> []"
    by (simp_all add: candidates_def unresolved_def RECONCILE_MAX_PER_TICK_def BLOCK_FINAL_DEPTH_def demo_fresh_def demo_defs)
  have n: "map (\<lambda>b. bk_confirmations (node_row 6 (\<lambda>h. ''h1'') b)) (blocks (dbase demo_fresh)) = [2]"
    by (simp add: node_row_def same_text_def demo_fresh_def demo_defs)
  have "\<exists>s'. node_pass (\<lambda>n. Done) demo_node 6 0 demo_fresh =
      (if candidates 6 (dbase demo_fresh) = [] then 0 else 1, candidates 6 (dbase demo_fresh) \<noteq> [] \<or> (0 :: int) < 0, length (candidates 6 (dbase demo_fresh)), s') \<and>
    dbase s' = (dbase demo_fresh)\<lparr>blocks := map (\<lambda>b. if b \<in> set (candidates 6 (dbase demo_fresh)) then node_row 6 (\<lambda>h. ''h1'') b else b) (blocks (dbase demo_fresh))\<rparr>"
    by (rule node_decides [where gbh = "\<lambda>i h. Answer ''h1''"]) (simp_all add: demo_fresh_ready demo_node_def)
  then obtain s' where s': "node_pass (\<lambda>n. Done) demo_node 6 0 demo_fresh =
      (if candidates 6 (dbase demo_fresh) = [] then 0 else 1, candidates 6 (dbase demo_fresh) \<noteq> [] \<or> (0 :: int) < 0, length (candidates 6 (dbase demo_fresh)), s')"
    "dbase s' = (dbase demo_fresh)\<lparr>blocks := map (\<lambda>b. if b \<in> set (candidates 6 (dbase demo_fresh)) then node_row 6 (\<lambda>h. ''h1'') b else b) (blocks (dbase demo_fresh))\<rparr>"
    by (elim exE conjE)
  have "node_pass (\<lambda>n. Done) demo_node 6 0 demo_fresh = (1, True, 1, s')" unfolding s'(1) c(1) using c(2,3) by simp
  moreover have "map bk_confirmations (blocks (dbase s')) = [2]" using n s'(2) c(1) by (simp add: comp_def cong: map_cong)
  ultimately show ?thesis by (intro exI conjI)
qed

text \<open>A pool that found seventeen blocks in a row.\<close>

definition crowd_row :: "int \<Rightarrow> block_row" where
  "crowd_row i = \<lparr>bk_id = i, bk_ts = 0, bk_height = i, bk_hash = replicate (nat i) CHR ''a'', bk_finder = None, bk_finder_address = None, bk_reward = Some 600, bk_fee = None,
     bk_status = ''confirmed'', bk_confirmations = 16, bk_window = Fin 5, bk_distributed = 0, bk_submit_error = None, bk_checked_via = Some ''node''\<rparr>"

definition crowd :: store where
  "crowd = store_open 10 0 4 (empty_db\<lparr>hash_unique := True, blocks := map crowd_row [1..17], block_seq := 17\<rparr>)"

lemma crowd_ready: "ready crowd"
proof -
  have d: "distinct (map (\<lambda>i. replicate (nat i) CHR ''a'') [1..17])"
    by (auto simp: distinct_map inj_on_def dest: arg_cong [of _ _ length])
  show ?thesis using d
    by (auto simp: ready_def small_ledger_def plain_difficulties_def short_hashes_def block_gross_def staged_ok_def store_ok_def db_ok_def ids_ok_def worker_ids_def crowd_row_def
        crowd_def comp_def store_open_def empty_db_def)
qed

lemma filter_unresolved: "length (filter P (unresolved tip depth d)) =
    length (filter P (filter (\<lambda>b. (bk_status b = ''pending'' \<or> bk_status b = ''confirmed'') \<and> bk_confirmations b < depth \<and> bk_height b \<le> tip) (blocks d)))"
  unfolding unresolved_def by (simp add: rev_filter [symmetric] filter_sort)

theorem crowded_block_starves_witness:
  "\<exists>r s'. reconcile_blocks_pass (\<lambda>n. Done) plain_sum 7 demo_node 1000 1 crowd = Ok (r, 1, s') \<and> crowd_row 1 \<in> set (blocks (dbase s'))"
proof -
  have u: "[1..17] = [1, 2, 3, 4, 5, 6, 7, 8, 9, 10, 11, 12, 13, 14, 15, 16, 17 :: int]" by (simp add: upto_rec1)
  have "RECONCILE_MAX_PER_TICK \<le> length (filter (\<lambda>c. bk_height (crowd_row 1) < bk_height c) (unresolved 1000 BLOCK_FINAL_DEPTH (dbase crowd)))"
    by (simp add: filter_unresolved RECONCILE_MAX_PER_TICK_def BLOCK_FINAL_DEPTH_def crowd_def store_open_def u crowd_row_def)
  moreover have "crowd_row 1 \<in> set (blocks (dbase crowd))" "bk_confirmations (crowd_row 1) < PPLNS_MATURITY_CONFS"
    by (simp_all add: crowd_def store_open_def u PPLNS_MATURITY_CONFS_def crowd_row_def)
  moreover have "no_auto_rollback (\<lambda>n. Done)" "serves demo_node" by (simp_all add: no_auto_rollback_def serves_def demo_node_def)
  ultimately show ?thesis using crowded_block_starves [OF _ plain_sum_accurate crowd_ready, of "\<lambda>n. Done" 1000 demo_node "crowd_row 1" 7] by simp
qed

end
