(* ===== verification/Records.thy ===== *)
theory Records
  imports Reconcile
begin

text \<open>
  The tables the pool publishes about itself (\<^verbatim>\<open>src/store.c\<close>): the tip of the node, the identity of
  the pool, the rate in force with its history, and the history of templates, which is also what the
  templates pass confirms blocks from. No NaN reaches these statements.
\<close>

definition text_of :: "string option \<Rightarrow> string" where
  "text_of t = (case t of None \<Rightarrow> [] | Some x \<Rightarrow> x)"

definition nonempty_or_null :: "string option \<Rightarrow> string option" where
  "nonempty_or_null t = (if c_nonempty t then t else None)"

definition store_record_node_tip :: "sqlite \<Rightarrow> int \<Rightarrow> string option \<Rightarrow> int \<Rightarrow> int \<Rightarrow> store \<Rightarrow> int \<times> store" where
  "store_record_node_tip io height hash seen_at updated s =
     (case hash of
        None \<Rightarrow> (-1, s)
      | Some h \<Rightarrow> let (ok, s) = sql_exec io (sql_upsert_node_tip height h seen_at updated) s in if ok then (0, s) else (-2, count_error s))"

definition write_once :: "sqlite \<Rightarrow> (db \<Rightarrow> db) \<Rightarrow> store \<Rightarrow> int \<times> store" where
  "write_once io f s = (let (p, ok, s) = prepared_exec io f s in if p \<and> ok then (0, s) else (-2, count_error s))"

section \<open>Identity and rate\<close>

definition sql_pool_identity :: "pool_identity \<Rightarrow> db \<Rightarrow> db" where
  "sql_pool_identity p d = d\<lparr>meta_identity := Some p\<rparr>"

definition store_record_pool_identity ::
  "sqlite \<Rightarrow> string option \<Rightarrow> string option \<Rightarrow> string option \<Rightarrow> string option \<Rightarrow> string option \<Rightarrow> string option \<Rightarrow> int \<Rightarrow> store \<Rightarrow> int \<times> store" where
  "store_record_pool_identity io network source tag operator pool_addr listeners flr =
     write_once io (sql_pool_identity \<lparr>pi_network = text_of network, pi_network_source = text_of source, pi_coinbase_tag = text_of tag,
       pi_operator_address = text_of operator, pi_pool_btc_address = nonempty_or_null pool_addr, pi_listeners = nonempty_or_null listeners,
       pi_payout_floor = (if flr \<ge> 0 then Some flr else None)\<rparr>)"

definition sql_pool_meta :: "pool_rate \<Rightarrow> db \<Rightarrow> db" where
  "sql_pool_meta r d =
     d\<lparr>meta_rate := Some (case meta_rate d of None \<Rightarrow> r | Some old \<Rightarrow> r\<lparr>pr_credited_from := pr_credited_from old\<rparr>)\<rparr>"

definition store_record_pool_meta ::
  "sqlite \<Rightarrow> string option \<Rightarrow> int \<Rightarrow> string option \<Rightarrow> double \<Rightarrow> double \<Rightarrow> double \<Rightarrow> double \<Rightarrow> int \<Rightarrow> int \<Rightarrow> store \<Rightarrow> int \<times> store" where
  "store_record_pool_meta io mode fee source rate gross eff net_diff value ts s =
     write_once io (sql_pool_meta \<lparr>pr_mode = text_of mode, pr_fee_bps = fee, pr_rate_source = text_of source, pr_rate = rate, pr_gross = gross,
       pr_effective_fee_bps = eff, pr_network_difficulty = net_diff, pr_block_value = value, pr_credited_from = ts, pr_updated_at = ts,
       pr_events_lost = sint (events_lost s)\<rparr>) s"

definition newest :: "'a list \<Rightarrow> 'a option" where
  "newest xs = (if xs = [] then None else Some (last xs))"

definition same_rate :: "string option \<Rightarrow> double \<Rightarrow> double \<Rightarrow> int \<Rightarrow> double \<Rightarrow> int \<Rightarrow> rate_row \<Rightarrow> bool" where
  "same_rate source rate gross fee net_diff value r \<longleftrightarrow>
     d_eq (rt_rate r) rate \<and> d_eq (rt_gross r) gross \<and> rt_fee_bps r = fee \<and> d_eq (rt_network_difficulty r) net_diff \<and>
     rt_block_value r = value \<and> source = Some (rt_source r)"

definition sql_insert_rate :: "int \<Rightarrow> double \<Rightarrow> double \<Rightarrow> int \<Rightarrow> double \<Rightarrow> int \<Rightarrow> string \<Rightarrow> db \<Rightarrow> db" where
  "sql_insert_rate ts rate gross fee net_diff value source d =
     d\<lparr>rates := rates d @ [\<lparr>rt_id = rate_seq d + 1, rt_ts = ts, rt_rate = rate, rt_gross = gross, rt_fee_bps = fee, rt_network_difficulty = net_diff,
         rt_block_value = value, rt_source = source\<rparr>], rate_seq := rate_seq d + 1\<rparr>"

text \<open>The newest row of a table; \<open>None\<close> also when SQLite does not answer.\<close>

definition query_newest :: "sqlite \<Rightarrow> (db \<Rightarrow> 'a list) \<Rightarrow> store \<Rightarrow> 'a option \<times> store" where
  "query_newest io table s =
     (let (p, s) = sql_prepare io s in
      if \<not> p then (None, s) else let (r, s) = sql_query io (\<lambda>d. newest (table d)) s in (case r of None \<Rightarrow> None | Some x \<Rightarrow> x, s))"

definition store_record_rate :: "sqlite \<Rightarrow> string option \<Rightarrow> double \<Rightarrow> double \<Rightarrow> int \<Rightarrow> double \<Rightarrow> int \<Rightarrow> int \<Rightarrow> store \<Rightarrow> int \<times> store" where
  "store_record_rate io source rate gross fee net_diff value ts s =
     (let (last_row, s) = query_newest io rates s in
      if (case last_row of None \<Rightarrow> False | Some r \<Rightarrow> same_rate source rate gross fee net_diff value r) then (0, s)
      else write_once io (sql_insert_rate ts rate gross fee net_diff value (text_of source)) s)"

section \<open>Templates\<close>

record store_template =
  st_ts :: int
  st_height :: int
  st_prev_hash :: "string option"
  st_bits :: "string option"
  st_network_difficulty :: double
  st_value :: int
  st_tx_count :: int
  st_tx_fees :: int
  st_source :: "string option"
  st_cb_spendable :: int
  st_cb_op_returns :: int
  st_longpoll :: bool
  st_rate :: double

definition same_work :: "store_template \<Rightarrow> template_row \<Rightarrow> bool" where
  "same_work t r \<longleftrightarrow> tp_height r = st_height t \<and> tp_prev_hash r = text_of (st_prev_hash t) \<and> tp_bits r = text_of (st_bits t) \<and>
     tp_source r = text_of (st_source t) \<and> tp_cb_spendable r = st_cb_spendable t \<and> tp_cb_op_returns r = st_cb_op_returns t \<and>
     tp_longpoll r = (if st_longpoll t then 1 else 0)"

definition sql_refresh_template :: "store_template \<Rightarrow> int \<Rightarrow> db \<Rightarrow> db" where
  "sql_refresh_template t i d =
     d\<lparr>templates := map (\<lambda>r. if tp_id r = i then r\<lparr>tp_last_seen := st_ts t, tp_polls := tp_polls r + 1, tp_network_difficulty := st_network_difficulty t,
         tp_coinbase_value := st_value t, tp_tx_count := st_tx_count t, tp_tx_fees := st_tx_fees t, tp_rate := st_rate t\<rparr> else r) (templates d)\<rparr>"

definition sql_insert_template :: "store_template \<Rightarrow> db \<Rightarrow> db" where
  "sql_insert_template t d =
     d\<lparr>templates := templates d @ [\<lparr>tp_id = template_seq d + 1, tp_ts = st_ts t, tp_height = st_height t, tp_prev_hash = text_of (st_prev_hash t),
         tp_bits = text_of (st_bits t), tp_network_difficulty = st_network_difficulty t, tp_coinbase_value = st_value t, tp_tx_count = st_tx_count t,
         tp_tx_fees = st_tx_fees t, tp_source = text_of (st_source t), tp_cb_spendable = st_cb_spendable t, tp_cb_op_returns = st_cb_op_returns t,
         tp_longpoll = (if st_longpoll t then 1 else 0), tp_rate = st_rate t, tp_last_seen = st_ts t, tp_polls = 1\<rparr>],
       template_seq := template_seq d + 1\<rparr>"

definition sql_trim_templates :: "int \<Rightarrow> db \<Rightarrow> db" where
  "sql_trim_templates cutoff d = d\<lparr>templates := filter (\<lambda>r. \<not> tp_ts r < cutoff) (templates d)\<rparr>"

definition store_record_template :: "sqlite \<Rightarrow> store_template \<Rightarrow> store \<Rightarrow> int \<times> store" where
  "store_record_template io t s =
     (let (last_row, s) = query_newest io templates s in
      case (case last_row of None \<Rightarrow> None | Some r \<Rightarrow> if same_work t r then Some (tp_id r) else None) of
        Some i \<Rightarrow> write_once io (sql_refresh_template t i) s
      | None \<Rightarrow>
          let (rc, s) = write_once io (sql_insert_template t) s in
          if rc \<noteq> 0 then (-2, s)
          else if templates_retention_days s > 0
          then let (p, ok, s) = prepared_exec io (sql_trim_templates (st_ts t - templates_retention_days s * 86400)) s in (0, s)
          else (0, s))"

section \<open>The newest poll is what the templates pass sees\<close>

lemma write_once_done: "\<forall>n. io n = Done \<Longrightarrow> write_once io f s = (0, s\<lparr>calls := Suc (Suc (calls s)), dbase := f (dbase s)\<rparr>)"
  by (simp add: write_once_def exec_done)

lemma query_newest_done: "\<forall>n. io n = Done \<Longrightarrow> query_newest io table s = (newest (table (dbase s)), s\<lparr>calls := Suc (Suc (calls s))\<rparr>)"
  by (simp add: query_newest_def sql_prepare_def query_done)

lemma observed_last:
  assumes "templates d \<noteq> []" and "tp_height (last (templates d)) = bk_height b + 1"
  shows "observed d b = Some (tp_prev_hash (last (templates d)))"
proof -
  define ts t where "ts = butlast (templates d)" and "t = last (templates d)"
  have "templates d = ts @ [t]" "tp_height t = bk_height b + 1" using assms by (simp_all add: ts_def t_def)
  then have "filter (\<lambda>t. tp_height t = bk_height b + 1) (templates d) = filter (\<lambda>t. tp_height t = bk_height b + 1) ts @ [t]" by simp
  then show ?thesis by (cases "filter (\<lambda>t. tp_height t = bk_height b + 1) ts") (simp_all add: observed_def t_def)
qed

text \<open>Recording a template leaves it as the newest row, with the poll's tip.\<close>

lemma record_template_newest:
  assumes "\<forall>n. io n = Done" and "db_ok (dbase s)" and "store_record_template io t s = (rc, s')"
  shows "rc = 0 \<and> templates (dbase s') \<noteq> [] \<and> tp_height (last (templates (dbase s'))) = st_height t \<and>
    tp_prev_hash (last (templates (dbase s'))) = text_of (st_prev_hash t) \<and> blocks (dbase s') = blocks (dbase s) \<and> hash_unique (dbase s') = hash_unique (dbase s) \<and>
    saved s' = saved s"
proof (cases "\<exists>r. newest (templates (dbase s)) = Some r \<and> same_work t r")
  case True
  then obtain r where r: "templates (dbase s) \<noteq> []" "r = last (templates (dbase s))" "same_work t r" by (auto simp: newest_def split: if_splits)
  have "s' = s\<lparr>calls := Suc (Suc (Suc (Suc (calls s)))), dbase := sql_refresh_template t (tp_id r) (dbase s)\<rparr>" "rc = 0"
    using assms(1,3) r by (simp_all add: store_record_template_def query_newest_done write_once_done newest_def)
  then show ?thesis using r by (auto simp: sql_refresh_template_def last_map same_work_def)
next
  case False
  let ?d = "sql_insert_template t (dbase s)"
  have ne: "(case newest (templates (dbase s)) of None \<Rightarrow> None | Some r \<Rightarrow> if same_work t r then Some (tp_id r) else None) = None"
    using False by (auto split: option.splits)
  have d: "dbase s' = ?d \<or> (\<exists>k > 0. dbase s' = sql_trim_templates (st_ts t - k * 86400) ?d)" and "rc = 0" "saved s' = saved s"
    using assms(3) ne by (auto simp: store_record_template_def query_newest_done [OF assms(1)] write_once_done [OF assms(1)] exec_done [OF assms(1)] Let_def split: if_splits)
  moreover have "last (templates (sql_trim_templates (st_ts t - k * 86400) ?d)) = last (templates ?d) \<and> templates (sql_trim_templates (st_ts t - k * 86400) ?d) \<noteq> []" if "0 < k" for k
    using that by (simp add: sql_trim_templates_def sql_insert_template_def)
  ultimately show ?thesis by (auto simp: sql_insert_template_def sql_trim_templates_def)
qed

lemma judged_below_tip:
  assumes "observed d b = Some h" and "0 < bk_height b" and "bk_height b \<le> tip" and "bk_status b \<noteq> ''rejected''"
  shows "chain_verdict tip (observed d b) b = (if h = bk_hash b then ''confirmed'' else ''orphaned'')"
  using assms by (simp add: chain_verdict_def)

text \<open>
  C26: a poll of the node decides the blocks below its template: once the template is recorded, the next pass
  confirms the pool's block at the height below it exactly when the template builds on that block and orphans
  it otherwise, whatever templates were recorded before and whether or not the poll opened a new row.
\<close>

theorem poll_decides:
  assumes "\<forall>n. io n = Done" and "store_ok s" and "st_height t = h + 1" and "0 < h" and "h \<le> tip"
    and "store_record_template io t s = (rc1, s1)" and "store_reconcile_blocks_from_templates io tip s1 = (rc2, c, orp, p, s2)"
  shows "rc1 = 0 \<and> rc2 = 0 \<and> map bk_hash (blocks (dbase s2)) = map bk_hash (blocks (dbase s)) \<and>
    (\<forall>b \<in> set (blocks (dbase s2)). bk_height b = h \<and> bk_status b \<noteq> ''rejected'' \<longrightarrow>
       bk_status b = (if text_of (st_prev_hash t) = bk_hash b then ''confirmed'' else ''orphaned''))"
proof -
  have "db_ok (dbase s)" using assms(2) by (simp add: store_ok_def)
  note r = record_template_newest [OF assms(1) this assms(6)]
  have e: "rc2 = 0" "blocks (dbase s2) = map (judge_row tip (dbase s1)) (blocks (dbase s1))"
    using templates_done [OF assms(1), of tip s1] assms(4,5,7) by auto
  have o: "observed (dbase s1) b = Some (text_of (st_prev_hash t))" if "bk_height b = h" for b
    using observed_last [of "dbase s1" b] r assms(3) that by simp
  have "bk_status (judge_row tip (dbase s1) b) = (if text_of (st_prev_hash t) = bk_hash b then ''confirmed'' else ''orphaned'')"
    if "bk_height b = h" "bk_status (judge_row tip (dbase s1) b) \<noteq> ''rejected''" for b
  proof -
    have "bk_status b \<noteq> ''rejected''" using that(2) by (auto simp: chain_verdict_def)
    then show ?thesis using judged_below_tip [OF o [OF that(1)]] that(1) assms(4,5) by simp
  qed
  then show ?thesis using e r by auto
qed

definition demo_poll :: store_template where
  "demo_poll = \<lparr>st_ts = 9, st_height = 6, st_prev_hash = Some ''h1'', st_bits = Some ''1d00ffff'', st_network_difficulty = Fin 1, st_value = 600, st_tx_count = 0,
     st_tx_fees = 0, st_source = Some ''gbt'', st_cb_spendable = 1, st_cb_op_returns = 0, st_longpoll = False, st_rate = Fin 0\<rparr>"

theorem poll_decides_witness:
  "\<exists>s1 c orp p s2. store_record_template (\<lambda>n. Done) demo_poll demo_reorged = (0, s1) \<and>
     store_reconcile_blocks_from_templates (\<lambda>n. Done) 6 s1 = (0, c, orp, p, s2) \<and> map bk_hash (blocks (dbase s2)) = [''h1'']"
proof -
  obtain rc1 s1 where s1: "store_record_template (\<lambda>n. Done) demo_poll demo_reorged = (rc1, s1)" by fastforce
  obtain rc2 c orp p s2 where s2: "store_reconcile_blocks_from_templates (\<lambda>n. Done) 6 s1 = (rc2, c, orp, p, s2)" by (metis surj_pair)
  have ok: "store_ok demo_reorged" by (simp add: demo_defs store_ok_def db_ok_def ids_ok_def worker_ids_def)
  have "map bk_hash (blocks (dbase demo_reorged)) = [''h1'']" "st_height demo_poll = 5 + 1" by (simp_all add: demo_defs demo_poll_def)
  then show ?thesis using poll_decides [OF _ ok _ _ _ s1 s2, of 5] s1 s2 by auto
qed

end
