(* ===== verification/Config.thy ===== *)
theory Config
  imports Coinbase Session
begin

text \<open>
  The configuration file (\<^verbatim>\<open>src/config.c\<close>): reading it line by line, the listener lines, and the checks
  a configuration has to pass before the pool starts. The text of the file is the argument; \<open>None\<close> stands
  for a file that cannot be opened. \<open>atoi\<close> of a number outside \<open>int\<close> is undefined.
\<close>

section \<open>The configuration\<close>

record proxy_config =
  pc_listen_addr :: string
  pc_listen_port :: int
  pc_max_conns :: int
  pc_listen_backlog :: int
  pc_initial_diff :: double
  pc_listeners :: "stratum_listener list"
  pc_max_submits_per_sec :: int
  pc_auth_max_failures :: int
  pc_auth_fail_lockout_sec :: int
  pc_vardiff_enabled :: int
  pc_vardiff_target_spm :: double
  pc_vardiff_min :: double
  pc_vardiff_max :: double
  pc_max_suggested_diff :: double
  pc_vardiff_window_sec :: int
  pc_vardiff_min_samples :: int
  pc_vardiff_max_window_mult :: int
  pc_vardiff_idle_step :: double
  pc_idle_timeout_sec :: int
  pc_idle_timeout_authorized_sec :: int
  pc_bitcoind_url :: string
  pc_bitcoind_user :: string
  pc_bitcoind_pass :: string
  pc_bitcoind_poll_interval_ms :: int
  pc_operator_address :: string
  pc_fee_bps :: int
  pc_coinbase_tag :: string
  pc_db_path :: string
  pc_commit_window_ms :: int
  pc_commit_max_shares :: int
  pc_templates_retention_days :: int
  pc_redis_url :: string
  pc_redis_publish_timeout_ms :: int
  pc_redis_reconnect_backoff_ms :: int
  pc_pool_mode :: string
  pc_pplns_window_diff_multiple :: double
  pc_coinbase_max_bytes :: int
  pc_pplns_payout_floor_sats :: int
  pc_pool_btc_address :: string
  pc_pps_sats_per_diff :: double
  pc_pps_min_network_difficulty :: double
  pc_block_interval_sec :: int
  pc_pps_refuse_shares_below_min :: int
  pc_log_level :: int

definition proxy_config_defaults :: proxy_config where
  "proxy_config_defaults =
     \<lparr>pc_listen_addr = ''0.0.0.0'', pc_listen_port = 3334, pc_max_conns = 500, pc_listen_backlog = 0, pc_initial_diff = Fin 1, pc_listeners = [],
      pc_max_submits_per_sec = 20000, pc_auth_max_failures = 3, pc_auth_fail_lockout_sec = 60,
      pc_vardiff_enabled = 1, pc_vardiff_target_spm = Fin 12, pc_vardiff_min = Fin 1, pc_vardiff_max = Fin (10 ^ 12), pc_max_suggested_diff = Fin 50000000,
      pc_vardiff_window_sec = 30, pc_vardiff_min_samples = 20, pc_vardiff_max_window_mult = 8, pc_vardiff_idle_step = Fin 2,
      pc_idle_timeout_sec = 600, pc_idle_timeout_authorized_sec = 7200,
      pc_bitcoind_url = ''http://127.0.0.1:18443'', pc_bitcoind_user = [], pc_bitcoind_pass = [], pc_bitcoind_poll_interval_ms = 30000,
      pc_operator_address = [], pc_fee_bps = 100, pc_coinbase_tag = ''/simplepool/'',
      pc_db_path = ''./data/shares.db'', pc_commit_window_ms = 100, pc_commit_max_shares = 100, pc_templates_retention_days = 30,
      pc_redis_url = [], pc_redis_publish_timeout_ms = 200, pc_redis_reconnect_backoff_ms = 2000,
      pc_pool_mode = ''solo'', pc_pplns_window_diff_multiple = Fin 2, pc_coinbase_max_bytes = 1000, pc_pplns_payout_floor_sats = COINBASE_DUST_SATS,
      pc_pool_btc_address = [], pc_pps_sats_per_diff = Fin 0, pc_pps_min_network_difficulty = Fin 0, pc_block_interval_sec = 600,
      pc_pps_refuse_shares_below_min = 1, pc_log_level = 1\<rparr>"

section \<open>Text\<close>

definition strtrim :: "string \<Rightarrow> string" where
  "strtrim s = rev (dropWhile is_space (rev (dropWhile is_space s)))"

text \<open>The scan for a comment, with the character before and whether a quote is open.\<close>

fun strip_from :: "char \<Rightarrow> bool \<Rightarrow> string \<Rightarrow> string" where
  "strip_from prev q [] = []"
| "strip_from prev q (c # cs) =
     (if c = CHR 0x22 then c # strip_from c (\<not> q) cs
      else if c = CHR ''#'' \<and> \<not> q \<and> (prev = CHR '' '' \<or> prev = CHR 0x09) then []
      else c # strip_from c q cs)"

definition strip_comment :: "string \<Rightarrow> string" where
  "strip_comment line = strip_from (CHR '' '') False line"

definition unquote :: "string \<Rightarrow> string" where
  "unquote s = (if 2 \<le> length s \<and> hd s = CHR 0x22 \<and> last s = CHR 0x22 then butlast (tl s) else s)"

text \<open>\<open>strtol\<close> and \<open>strtoll\<close> in base 10: the value before any conversion, and the characters read.\<close>

definition scan_dec :: "string \<Rightarrow> int \<times> nat" where
  "scan_dec s =
     (let w = length (takeWhile is_space s); r = drop w s;
          g = (if r \<noteq> [] \<and> hd r \<in> {CHR ''+'', CHR ''-''} then 1 else 0);
          ds = takeWhile is_dec (drop g r); v = digits_val 10 ds
      in if ds = [] then (0, 0) else (if g = 1 \<and> hd r = CHR ''-'' then - v else v, w + g + length ds))"

definition atoi :: "string \<Rightarrow> int res" where
  "atoi s = (let v = fst (scan_dec s) in if - (2 ^ 31) \<le> v \<and> v < 2 ^ 31 then Ok v else UB)"

definition strtoll :: "string \<Rightarrow> int" where
  "strtoll s = max (- (2 ^ 63)) (min (2 ^ 63 - 1) (fst (scan_dec s)))"

definition atof :: "string \<Rightarrow> double" where
  "atof s = fst (strtod s)"

definition parse_log_level :: "string \<Rightarrow> int" where
  "parse_log_level v =
     (let w = map lower v in
      if w = ''debug'' then 0 else if w = ''info'' then 1 else if w = ''warn'' \<or> w = ''warning'' then 2 else if w = ''error'' then 3
      else let (n, k) = scan_dec v in if drop k v = [] \<and> 0 \<le> n \<and> n \<le> 3 then n else -1)"

section \<open>Listeners\<close>

definition is_sep :: "char \<Rightarrow> bool" where
  "is_sep c \<longleftrightarrow> c = CHR '' '' \<or> c = CHR 0x09 \<or> c = CHR '',''"

text \<open>\<open>strtok_r\<close>: the maximal runs without a separator.\<close>

function tokens :: "string \<Rightarrow> string list" where
  "tokens s =
     (let r = dropWhile is_sep s in
      if r = [] then [] else takeWhile (\<lambda>c. \<not> is_sep c) r # tokens (dropWhile (\<lambda>c. \<not> is_sep c) r))"
  by pat_completeness auto
termination
proof (relation "measure length", simp)
  fix s x
  assume x: "x = dropWhile is_sep s" "x \<noteq> []"
  then obtain c cs where c: "x = c # cs" "\<not> is_sep c" by (metis hd_dropWhile list.collapse list.sel(1))
  then have "length (dropWhile (\<lambda>c. \<not> is_sep c) x) < length x" using length_dropWhile_le [of "\<lambda>c. \<not> is_sep c" cs] by simp
  then show "(dropWhile (\<lambda>c. \<not> is_sep c) x, s) \<in> measure length" using x(1) length_dropWhile_le [of is_sep s] by simp
qed

declare tokens.simps [simp del]

record listener_acc =
  la_listener :: stratum_listener
  la_min_diff :: double
  la_initial :: double

definition split_eq :: "string \<Rightarrow> (string \<times> string) option" where
  "split_eq t = (if CHR ''='' \<in> set t then Some (takeWhile (\<lambda>c. c \<noteq> CHR ''='') t, tl (dropWhile (\<lambda>c. c \<noteq> CHR ''='') t)) else None)"

definition listener_field :: "string \<Rightarrow> string \<Rightarrow> listener_acc \<Rightarrow> listener_acc res" where
  "listener_field fk fv a =
     (if fk = ''port'' then bindR (atoi fv) (\<lambda>i. Ok (a\<lparr>la_listener := (la_listener a)\<lparr>ls_port := i\<rparr>\<rparr>))
      else if fk = ''min_diff'' then Ok (a\<lparr>la_min_diff := atof fv\<rparr>)
      else if fk = ''initial_diff'' then Ok (a\<lparr>la_initial := atof fv\<rparr>)
      else if fk = ''max_diff'' then Ok (a\<lparr>la_listener := (la_listener a)\<lparr>ls_vardiff_max := atof fv\<rparr>\<rparr>)
      else if fk = ''max_coinbase_bytes'' then bindR (atoi fv) (\<lambda>i. Ok (a\<lparr>la_listener := (la_listener a)\<lparr>ls_max_coinbase_bytes := i\<rparr>\<rparr>))
      else if fk = ''label'' then Ok (a\<lparr>la_listener := (la_listener a)\<lparr>ls_label := c_copy 32 fv\<rparr>\<rparr>)
      else Err ''unknown listener field'')"

fun listener_fields :: "string list \<Rightarrow> listener_acc \<Rightarrow> listener_acc res" where
  "listener_fields [] a = Ok a"
| "listener_fields (t # ts) a =
     (case split_eq t of
        None \<Rightarrow> Err ''listener field is not key=value''
      | Some (fk, fv) \<Rightarrow> bindR (listener_field fk fv a) (listener_fields ts))"

definition is_alnum :: "char \<Rightarrow> bool" where
  "is_alnum c \<longleftrightarrow> is_alpha c \<or> is_dec c"

definition label_ok :: "string \<Rightarrow> bool" where
  "label_ok l \<longleftrightarrow> list_all (\<lambda>c. is_alnum c \<or> c = CHR ''-'' \<or> c = CHR ''_'') l"

definition zero_listener :: stratum_listener where
  "zero_listener = \<lparr>ls_port = 0, ls_initial_diff = Fin 0, ls_vardiff_min = Fin 0, ls_vardiff_max = Fin 0, ls_min_diff = Fin 0, ls_max_coinbase_bytes = 0, ls_label = []\<rparr>"

definition parse_listener :: "string \<Rightarrow> stratum_listener res" where
  "parse_listener v =
     bindR (listener_fields (tokens (c_copy 512 v)) \<lparr>la_listener = zero_listener, la_min_diff = Fin 0, la_initial = Fin 0\<rparr>) (\<lambda>a.
       let l = la_listener a in
       guardR (ls_max_coinbase_bytes l \<noteq> 0 \<and> ls_max_coinbase_bytes l < 200) ''listener max_coinbase_bytes is too small''
      (guardR (ls_port l \<le> 0 \<or> 65535 < ls_port l) ''listener needs a port between 1 and 65535''
      (guardR (\<not> label_ok (ls_label l)) ''label may only contain letters, digits, - and _''
      (let l = l\<lparr>ls_vardiff_min := la_min_diff a, ls_min_diff := la_min_diff a,
                 ls_initial_diff := (if d_gt (la_initial a) (Fin 0) then la_initial a else la_min_diff a)\<rparr>
       in guardR (d_gt (ls_vardiff_max l) (Fin 0) \<and> d_gt (ls_initial_diff l) (ls_vardiff_max l)) ''initial difficulty is above max_diff'' (Ok l)))))"

section \<open>Loading\<close>

definition STRATUM_MAX_EXTRA_LISTENERS :: nat where
  "STRATUM_MAX_EXTRA_LISTENERS = STRATUM_MAX_LISTENERS - 1"

type_synonym setter = "string \<Rightarrow> proxy_config \<Rightarrow> proxy_config res"

definition set_str :: "nat \<Rightarrow> ((string \<Rightarrow> string) \<Rightarrow> proxy_config \<Rightarrow> proxy_config) \<Rightarrow> setter" where
  "set_str cap upd v c = Ok (upd (\<lambda>_. c_copy cap v) c)"

definition set_int :: "((int \<Rightarrow> int) \<Rightarrow> proxy_config \<Rightarrow> proxy_config) \<Rightarrow> setter" where
  "set_int upd v c = bindR (atoi v) (\<lambda>i. Ok (upd (\<lambda>_. i) c))"

definition set_num :: "((double \<Rightarrow> double) \<Rightarrow> proxy_config \<Rightarrow> proxy_config) \<Rightarrow> setter" where
  "set_num upd v c = Ok (upd (\<lambda>_. atof v) c)"

definition set_level :: setter where
  "set_level v c = (let lv = parse_log_level v in Ok (if lv < 0 then c else c\<lparr>pc_log_level := lv\<rparr>))"

text \<open>The keys that set one field, in the order of the code.\<close>

definition settings :: "(string \<times> setter) list" where
  "settings =
     [(''listen_addr'', set_str 64 pc_listen_addr_update), (''listen_port'', set_int pc_listen_port_update), (''max_conns'', set_int pc_max_conns_update),
      (''listen_backlog'', set_int pc_listen_backlog_update), (''max_submits_per_sec'', set_int pc_max_submits_per_sec_update),
      (''auth_max_failures'', set_int pc_auth_max_failures_update), (''auth_fail_lockout_sec'', set_int pc_auth_fail_lockout_sec_update),
      (''initial_diff'', set_num pc_initial_diff_update),
      (''bitcoind_url'', set_str 512 pc_bitcoind_url_update), (''bitcoind_user'', set_str 128 pc_bitcoind_user_update),
      (''bitcoind_pass'', set_str 256 pc_bitcoind_pass_update), (''bitcoind_poll_interval_ms'', set_int pc_bitcoind_poll_interval_ms_update),
      (''operator_address'', set_str 128 pc_operator_address_update), (''fee_bps'', set_int pc_fee_bps_update),
      (''coinbase_tag'', set_str 64 pc_coinbase_tag_update), (''vardiff_enabled'', set_int pc_vardiff_enabled_update),
      (''vardiff_target_spm'', set_num pc_vardiff_target_spm_update), (''vardiff_min'', set_num pc_vardiff_min_update), (''vardiff_max'', set_num pc_vardiff_max_update),
      (''max_suggested_diff'', set_num pc_max_suggested_diff_update), (''vardiff_window_sec'', set_int pc_vardiff_window_sec_update),
      (''vardiff_min_samples'', set_int pc_vardiff_min_samples_update), (''vardiff_max_window_mult'', set_int pc_vardiff_max_window_mult_update),
      (''vardiff_idle_step'', set_num pc_vardiff_idle_step_update), (''idle_timeout_sec'', set_int pc_idle_timeout_sec_update),
      (''idle_timeout_authorized_sec'', set_int pc_idle_timeout_authorized_sec_update), (''db_path'', set_str 512 pc_db_path_update),
      (''commit_window_ms'', set_int pc_commit_window_ms_update), (''commit_max_shares'', set_int pc_commit_max_shares_update),
      (''templates_retention_days'', set_int pc_templates_retention_days_update), (''redis_url'', set_str 256 pc_redis_url_update),
      (''redis_publish_timeout_ms'', set_int pc_redis_publish_timeout_ms_update), (''redis_reconnect_backoff_ms'', set_int pc_redis_reconnect_backoff_ms_update),
      (''pool_mode'', set_str 24 pc_pool_mode_update), (''pool_btc_address'', set_str 128 pc_pool_btc_address_update),
      (''pplns_window_diff_multiple'', set_num pc_pplns_window_diff_multiple_update), (''coinbase_max_bytes'', set_int pc_coinbase_max_bytes_update),
      (''pplns_payout_floor_sats'', \<lambda>v c. Ok (c\<lparr>pc_pplns_payout_floor_sats := strtoll v\<rparr>)), (''pps_sats_per_diff'', set_num pc_pps_sats_per_diff_update),
      (''pps_min_network_difficulty'', set_num pc_pps_min_network_difficulty_update), (''block_interval_sec'', set_int pc_block_interval_sec_update),
      (''pps_refuse_shares_below_min'', set_int pc_pps_refuse_shares_below_min_update), (''log_level'', set_level)]"

text \<open>One setting: the configuration after it, or the return value that ends the load.\<close>

datatype loading = Loading proxy_config | Refused int proxy_config

definition apply_setting :: "string \<Rightarrow> string \<Rightarrow> proxy_config \<Rightarrow> loading res" where
  "apply_setting k v c =
     (if k = ''listener'' then
        if STRATUM_MAX_EXTRA_LISTENERS \<le> length (pc_listeners c) then Ok (Refused (-1) c)
        else (case parse_listener v of
                Ok l \<Rightarrow> Ok (Loading (c\<lparr>pc_listeners := pc_listeners c @ [l]\<rparr>))
              | Err _ \<Rightarrow> Ok (Refused (-1) c)
              | UB \<Rightarrow> UB)
      else if k = ''payout_address'' then Ok (Refused (-3) c)
      else case map_of settings k of
        Some f \<Rightarrow> bindR (f v c) (\<lambda>c'. Ok (Loading c'))
      | None \<Rightarrow> Ok (Loading c))"

text \<open>One line as \<open>fgets\<close> returned it, up to the first NUL.\<close>

definition config_line :: "string \<Rightarrow> proxy_config \<Rightarrow> loading res" where
  "config_line line c =
     (let trimmed = strtrim (strip_comment (takeWhile (\<lambda>ch. ch \<noteq> CHR 0x00) line)) in
      if trimmed = [] then Ok (Loading c)
      else case split_eq trimmed of
        None \<Rightarrow> Ok (Loading c)
      | Some (k, v) \<Rightarrow> apply_setting (strtrim k) (unquote (strtrim v)) c)"

fun config_lines :: "string list \<Rightarrow> proxy_config \<Rightarrow> loading res" where
  "config_lines [] c = Ok (Loading c)"
| "config_lines (l # ls) c =
     bindR (config_line l c) (\<lambda>r. case r of Refused rc c' \<Rightarrow> Ok (Refused rc c') | Loading c' \<Rightarrow> config_lines ls c')"

text \<open>\<open>fgets\<close> into 2048 bytes: up to and with the newline, at most 2047 characters.\<close>

definition chunk_len :: "string \<Rightarrow> nat" where
  "chunk_len s = min 2047 (length (takeWhile (\<lambda>c. c \<noteq> CHR 0x0A) s) + 1)"

function fgets_lines :: "string \<Rightarrow> string list" where
  "fgets_lines s = (if s = [] then [] else take (chunk_len s) s # fgets_lines (drop (chunk_len s) s))"
  by pat_completeness auto
termination
  by (relation "measure length") (auto simp: chunk_len_def)

declare fgets_lines.simps [simp del]

section \<open>Checking\<close>

definition mode_pplns :: "string \<Rightarrow> bool" where
  "mode_pplns m \<longleftrightarrow> m = ''pplns-thunder'' \<or> m = ''pplns-btc'' \<or> m = ''pplns-coinbase''"

definition check_mode :: "proxy_config \<Rightarrow> int" where
  "check_mode c =
     (let m = pc_pool_mode c; cb = (m = ''pplns-coinbase'') in
      if pc_operator_address c = [] then -2
      else if pc_fee_bps c < 0 \<or> 1000 < pc_fee_bps c then -4
      else if m = ''pps'' then -5
      else if m = ''pplns'' then -5
      else if m \<noteq> ''solo'' \<and> m \<noteq> ''pps-classic'' \<and> \<not> mode_pplns m then -5
      else if cb \<and> pc_pool_btc_address c \<noteq> [] then -9
      else if mode_pplns m \<and> \<not> cb \<and> pc_pool_btc_address c = [] then -9
      else if cb \<and> pc_coinbase_max_bytes c < 200 then -14
      else if cb \<and> pc_pplns_payout_floor_sats c < 0 then -15
      else if mode_pplns m \<and> \<not> d_gt (pc_pplns_window_diff_multiple c) (Fin 0) then -13
      else if m = ''pps-classic'' \<and> d_lt (pc_pps_sats_per_diff c) (Fin 0) then -8
      else if m = ''pps-classic'' \<and> pc_pool_btc_address c = [] then -9
      else if m = ''pps-classic'' \<and> d_lt (pc_pps_min_network_difficulty c) (Fin 0) then -10
      else 0)"

definition check_limits :: "proxy_config \<Rightarrow> int" where
  "check_limits c =
     (if pc_max_submits_per_sec c < 0 then -13
      else if pc_listen_backlog c < 0 then -13
      else if pc_auth_max_failures c < 0 then -13
      else if 0 < pc_auth_max_failures c \<and> pc_auth_fail_lockout_sec c \<le> 0 then -13
      else if pc_block_interval_sec c \<le> 0 then -11
      else 0)"

fun check_ports :: "int \<Rightarrow> int list \<Rightarrow> stratum_listener list \<Rightarrow> int" where
  "check_ports port seen [] = 0"
| "check_ports port seen (l # ls) =
     (if ls_port l = port then -12 else if ls_port l \<in> set seen then -12 else check_ports port (ls_port l # seen) ls)"

definition check_config :: "proxy_config \<Rightarrow> int" where
  "check_config c =
     (if check_mode c \<noteq> 0 then check_mode c else if check_limits c \<noteq> 0 then check_limits c else check_ports (pc_listen_port c) [] (pc_listeners c))"

definition proxy_config_load :: "string option \<Rightarrow> (int \<times> proxy_config) res" where
  "proxy_config_load file =
     (case file of
        None \<Rightarrow> Ok (-1, proxy_config_defaults)
      | Some content \<Rightarrow>
          bindR (config_lines (fgets_lines content) proxy_config_defaults) (\<lambda>r.
            case r of Refused rc c \<Rightarrow> Ok (rc, c) | Loading c \<Rightarrow> Ok (check_config c, c)))"

section \<open>What an accepted configuration satisfies\<close>

text \<open>Every string fits its array, every number its width, and there is room for every listener.\<close>

definition i32 :: "int \<Rightarrow> bool" where
  "i32 v \<longleftrightarrow> - (2 ^ 31) \<le> v \<and> v < 2 ^ 31"

definition listener_fits :: "stratum_listener \<Rightarrow> bool" where
  "listener_fits l \<longleftrightarrow> 0 < ls_port l \<and> ls_port l \<le> 65535 \<and> label_ok (ls_label l) \<and> length (ls_label l) < 32 \<and>
     (ls_max_coinbase_bytes l = 0 \<or> 200 \<le> ls_max_coinbase_bytes l) \<and> i32 (ls_max_coinbase_bytes l) \<and>
     \<not> (d_gt (ls_vardiff_max l) (Fin 0) \<and> d_gt (ls_initial_diff l) (ls_vardiff_max l))"

definition strings_fit :: "proxy_config \<Rightarrow> bool" where
  "strings_fit c \<longleftrightarrow> length (pc_listen_addr c) < 64 \<and> length (pc_bitcoind_url c) < 512 \<and> length (pc_bitcoind_user c) < 128 \<and> length (pc_bitcoind_pass c) < 256 \<and>
     length (pc_operator_address c) < 128 \<and> length (pc_coinbase_tag c) < 64 \<and> length (pc_db_path c) < 512 \<and> length (pc_redis_url c) < 256 \<and>
     length (pc_pool_mode c) < 24 \<and> length (pc_pool_btc_address c) < 128"

definition numbers_fit :: "proxy_config \<Rightarrow> bool" where
  "numbers_fit c \<longleftrightarrow> i32 (pc_listen_port c) \<and> i32 (pc_max_conns c) \<and> i32 (pc_listen_backlog c) \<and> i32 (pc_max_submits_per_sec c) \<and>
     i32 (pc_auth_max_failures c) \<and> i32 (pc_auth_fail_lockout_sec c) \<and> i32 (pc_fee_bps c) \<and> i32 (pc_coinbase_max_bytes c) \<and> i32 (pc_block_interval_sec c) \<and>
     - (2 ^ 63) \<le> pc_pplns_payout_floor_sats c \<and> pc_pplns_payout_floor_sats c < 2 ^ 63 \<and> 0 \<le> pc_log_level c \<and> pc_log_level c \<le> 3"

definition config_fits :: "proxy_config \<Rightarrow> bool" where
  "config_fits c \<longleftrightarrow> strings_fit c \<and> numbers_fit c \<and> length (pc_listeners c) \<le> STRATUM_MAX_EXTRA_LISTENERS \<and> list_all listener_fits (pc_listeners c)"

lemma c_copy_less: "0 < n \<Longrightarrow> length (c_copy n s) < n"
  by (simp add: c_copy_def)

lemma atoi_i32: "atoi s = Ok v \<Longrightarrow> i32 v"
  by (auto simp: atoi_def i32_def Let_def split: if_splits)

lemma strtoll_range: "- (2 ^ 63) \<le> strtoll s" "strtoll s < 2 ^ 63"
  by (simp_all add: strtoll_def)

lemma log_level_range: "parse_log_level v \<le> 3"
  by (simp add: parse_log_level_def Let_def split: prod.splits)

text \<open>A setter that keeps the shape of a configuration.\<close>

definition keeps :: "setter \<Rightarrow> bool" where
  "keeps f \<longleftrightarrow> (\<forall>v c c'. f v c = Ok c' \<longrightarrow> config_fits c \<longrightarrow> config_fits c')"

lemma keepsI: "(\<And>v c c'. f v c = Ok c' \<Longrightarrow> config_fits c \<Longrightarrow> config_fits c') \<Longrightarrow> keeps f"
  by (simp add: keeps_def)

lemma set_num_keeps: "(\<And>c x. config_fits c \<Longrightarrow> config_fits (upd (\<lambda>_. x) c)) \<Longrightarrow> keeps (set_num upd)"
  by (rule keepsI) (auto simp: set_num_def)

lemma set_int_keeps: "(\<And>c x. i32 x \<Longrightarrow> config_fits c \<Longrightarrow> config_fits (upd (\<lambda>_. x) c)) \<Longrightarrow> keeps (set_int upd)"
  by (rule keepsI) (auto simp: set_int_def bindR_Ok_iff dest: atoi_i32)

lemma set_str_keeps: "(\<And>c x. length x < n \<Longrightarrow> config_fits c \<Longrightarrow> config_fits (upd (\<lambda>_. x) c)) \<Longrightarrow> 0 < n \<Longrightarrow> keeps (set_str n upd)"
  by (rule keepsI) (auto simp: set_str_def c_copy_less)

lemma set_level_keeps: "keeps set_level"
proof (rule keepsI)
  fix v c c' assume "set_level v c = Ok c'" "config_fits c"
  then show "config_fits c'" using log_level_range [of v]
    by (auto simp: set_level_def Let_def config_fits_def strings_fit_def numbers_fit_def split: if_splits)
qed

lemma set_floor_keeps: "keeps (\<lambda>v c. Ok (c\<lparr>pc_pplns_payout_floor_sats := strtoll v\<rparr>))"
  by (rule keepsI) (use strtoll_range in \<open>auto simp: config_fits_def strings_fit_def numbers_fit_def\<close>)

lemma settings_keep: "list_all (\<lambda>(k, f). keeps f) settings"
  unfolding settings_def list.pred_inject prod.case
  by (intro conjI TrueI set_num_keeps set_int_keeps set_str_keeps set_level_keeps set_floor_keeps)
     (simp_all add: config_fits_def strings_fit_def numbers_fit_def)

lemma listener_field_fits:
  assumes "listener_field fk fv a = Ok a'" and "length (ls_label (la_listener a)) < 32" and "i32 (ls_max_coinbase_bytes (la_listener a))"
  shows "length (ls_label (la_listener a')) < 32 \<and> i32 (ls_max_coinbase_bytes (la_listener a'))"
  using assms by (auto simp: listener_field_def bindR_Ok_iff c_copy_less dest: atoi_i32 split: if_splits)

lemma listener_fields_fit:
  "listener_fields ts a = Ok a' \<Longrightarrow> length (ls_label (la_listener a)) < 32 \<Longrightarrow> i32 (ls_max_coinbase_bytes (la_listener a)) \<Longrightarrow>
    length (ls_label (la_listener a')) < 32 \<and> i32 (ls_max_coinbase_bytes (la_listener a'))"
  by (induction ts arbitrary: a) (auto simp: bindR_Ok_iff dest!: listener_field_fits split: option.splits)

lemma parse_listener_fits: "parse_listener v = Ok l \<Longrightarrow> listener_fits l"
proof -
  assume "parse_listener v = Ok l"
  then obtain a where a: "listener_fields (tokens (c_copy 512 v)) \<lparr>la_listener = zero_listener, la_min_diff = Fin 0, la_initial = Fin 0\<rparr> = Ok a"
    and l: "\<not> (ls_max_coinbase_bytes (la_listener a) \<noteq> 0 \<and> ls_max_coinbase_bytes (la_listener a) < 200)"
      "\<not> (ls_port (la_listener a) \<le> 0 \<or> 65535 < ls_port (la_listener a))" "label_ok (ls_label (la_listener a))"
      "l = (la_listener a)\<lparr>ls_vardiff_min := la_min_diff a, ls_min_diff := la_min_diff a, ls_initial_diff := (if d_gt (la_initial a) (Fin 0) then la_initial a else la_min_diff a)\<rparr>"
      "\<not> (d_gt (ls_vardiff_max l) (Fin 0) \<and> d_gt (ls_initial_diff l) (ls_vardiff_max l))"
    unfolding parse_listener_def by (auto simp: bindR_Ok_iff Let_def)
  have "length (ls_label (la_listener a)) < 32 \<and> i32 (ls_max_coinbase_bytes (la_listener a))"
    by (rule listener_fields_fit [OF a]) (simp_all add: zero_listener_def i32_def)
  then show ?thesis using l(1-3,5) unfolding listener_fits_def by (auto simp: l(4) not_less)
qed

lemma settings_lookup: "map_of settings k = Some f \<Longrightarrow> keeps f"
  using settings_keep map_of_SomeD [of settings k f] by (auto simp: list_all_iff)

lemma apply_setting_fits:
  assumes "apply_setting k v c = Ok r" and "config_fits c"
  shows "config_fits (case r of Loading c' \<Rightarrow> c' | Refused rc c' \<Rightarrow> c')"
proof (cases "k = ''listener''")
  case True
  then show ?thesis using assms
    by (auto simp: apply_setting_def config_fits_def strings_fit_def numbers_fit_def dest!: parse_listener_fits split: if_splits res.splits)
next
  case nl: False
  show ?thesis
  proof (cases "k = ''payout_address''")
    case True
    then show ?thesis using assms by (auto simp: apply_setting_def)
  next
    case False
    then show ?thesis
    proof (cases "map_of settings k")
      case None
      then show ?thesis using assms nl False by (auto simp: apply_setting_def)
    next
      case (Some f)
      then obtain c' where "f v c = Ok c'" "r = Loading c'" using assms(1) nl False by (auto simp: apply_setting_def bindR_Ok_iff)
      then show ?thesis using settings_lookup [OF Some] assms(2) by (auto simp: keeps_def)
    qed
  qed
qed

lemma config_line_fits: "config_line l c = Ok r \<Longrightarrow> config_fits c \<Longrightarrow> config_fits (case r of Loading c' \<Rightarrow> c' | Refused rc c' \<Rightarrow> c')"
  by (auto simp: config_line_def Let_def dest: apply_setting_fits split: if_splits option.splits)

lemma config_lines_fit: "config_lines ls c = Ok r \<Longrightarrow> config_fits c \<Longrightarrow> config_fits (case r of Loading c' \<Rightarrow> c' | Refused rc c' \<Rightarrow> c')"
proof (induction ls arbitrary: c)
  case (Cons l ls)
  obtain q where q: "config_line l c = Ok q" using Cons.prems(1) by (auto simp: bindR_Ok_iff)
  show ?case using Cons.prems config_line_fits [OF q Cons.prems(2)] Cons.IH by (cases q) (auto simp: q)
qed auto

lemma defaults_fit: "config_fits proxy_config_defaults"
  by (simp add: config_fits_def strings_fit_def numbers_fit_def proxy_config_defaults_def i32_def COINBASE_DUST_SATS_def)

lemma check_ports_spec: "check_ports port seen ls = 0 \<longleftrightarrow> port \<notin> ls_port ` set ls \<and> distinct (map ls_port ls) \<and> ls_port ` set ls \<inter> set seen = {}"
  by (induction ls arbitrary: seen) auto

text \<open>
  C27: a configuration the loader accepts is one the pool can run: every string fits its array and every
  number its type, the operator is named, the fee is between nothing and ten per cent, the mode is one of
  five, the reward goes to a pool address exactly in the modes that hold it, the window of a PPLNS mode is
  positive, an authorize budget has a lockout, and the ports are valid, distinct and not the main port.
\<close>

theorem config_well_formed:
  assumes "proxy_config_load (Some content) = Ok (0, c)"
  shows "config_fits c \<and> pc_operator_address c \<noteq> [] \<and> 0 \<le> pc_fee_bps c \<and> pc_fee_bps c \<le> 1000 \<and>
    pc_pool_mode c \<in> {''solo'', ''pps-classic'', ''pplns-thunder'', ''pplns-btc'', ''pplns-coinbase''} \<and>
    (pc_pool_mode c \<in> {''pps-classic'', ''pplns-thunder'', ''pplns-btc''} \<longrightarrow> pc_pool_btc_address c \<noteq> []) \<and>
    (pc_pool_mode c = ''pplns-coinbase'' \<longrightarrow> pc_pool_btc_address c = [] \<and> 200 \<le> pc_coinbase_max_bytes c \<and> 0 \<le> pc_pplns_payout_floor_sats c) \<and>
    (mode_pplns (pc_pool_mode c) \<longrightarrow> d_gt (pc_pplns_window_diff_multiple c) (Fin 0)) \<and>
    (0 < pc_auth_max_failures c \<longrightarrow> 0 < pc_auth_fail_lockout_sec c) \<and> 0 \<le> pc_max_submits_per_sec c \<and> 0 < pc_block_interval_sec c \<and>
    distinct (pc_listen_port c # map ls_port (pc_listeners c)) \<and> (\<forall>l \<in> set (pc_listeners c). 0 < ls_port l \<and> ls_port l \<le> 65535)"
proof -
  obtain r where r: "config_lines (fgets_lines content) proxy_config_defaults = Ok r" using assms by (auto simp: proxy_config_load_def bindR_Ok_iff)
  note f = config_lines_fit [OF r defaults_fit]
  have c: "r = Loading c \<and> check_config c = 0 \<or> r = Refused 0 c" using assms r by (auto simp: proxy_config_load_def split: loading.splits)
  moreover have "r \<noteq> Refused 0 c"
  proof -
    have "apply_setting k v d \<noteq> Ok (Refused 0 e)" for k v d e by (auto simp: apply_setting_def bindR_Ok_iff split: if_splits res.splits option.splits)
    then have l: "config_line x d \<noteq> Ok (Refused 0 e)" for x d e by (auto simp: config_line_def Let_def split: if_splits option.splits)
    have "config_lines ls d \<noteq> Ok (Refused 0 e)" for ls d e
      by (induction ls arbitrary: d) (auto simp: l bindR_Ok_iff split: loading.splits)
    then show ?thesis using r by auto
  qed
  ultimately have c: "r = Loading c" "check_config c = 0" by blast+
  then have m: "check_mode c = 0" "check_limits c = 0" "check_ports (pc_listen_port c) [] (pc_listeners c) = 0" by (auto simp: check_config_def split: if_splits)
  have "config_fits c" using f c(1) by simp
  then have "\<forall>l \<in> set (pc_listeners c). 0 < ls_port l \<and> ls_port l \<le> 65535" by (auto simp: config_fits_def list_all_iff listener_fits_def)
  moreover note \<open>config_fits c\<close>
  moreover have "distinct (pc_listen_port c # map ls_port (pc_listeners c))" using m(3) by (auto simp: check_ports_spec)
  moreover have "(0 < pc_auth_max_failures c \<longrightarrow> 0 < pc_auth_fail_lockout_sec c) \<and> 0 \<le> pc_max_submits_per_sec c \<and> 0 < pc_block_interval_sec c"
    using m(2) by (auto simp: check_limits_def split: if_splits)
  moreover have "pc_operator_address c \<noteq> [] \<and> 0 \<le> pc_fee_bps c \<and> pc_fee_bps c \<le> 1000 \<and>
    pc_pool_mode c \<in> {''solo'', ''pps-classic'', ''pplns-thunder'', ''pplns-btc'', ''pplns-coinbase''} \<and>
    (pc_pool_mode c \<in> {''pps-classic'', ''pplns-thunder'', ''pplns-btc''} \<longrightarrow> pc_pool_btc_address c \<noteq> []) \<and>
    (pc_pool_mode c = ''pplns-coinbase'' \<longrightarrow> pc_pool_btc_address c = [] \<and> 200 \<le> pc_coinbase_max_bytes c \<and> 0 \<le> pc_pplns_payout_floor_sats c) \<and>
    (mode_pplns (pc_pool_mode c) \<longrightarrow> d_gt (pc_pplns_window_diff_multiple c) (Fin 0))"
    using m(1) unfolding check_mode_def Let_def by (auto simp: mode_pplns_def split: if_splits)
  ultimately show ?thesis by blast
qed

definition demo_file :: string where
  "demo_file = ''operator_address=abc''"

lemma demo_file_lines: "fgets_lines demo_file = [''operator_address=abc'']"
  by (simp add: demo_file_def fgets_lines.simps chunk_len_def)

lemma demo_file_loads: "proxy_config_load (Some demo_file) = Ok (0, proxy_config_defaults\<lparr>pc_operator_address := ''abc''\<rparr>)"
proof -
  have "map_of settings ''operator_address'' = Some (set_str 128 pc_operator_address_update)" by (simp add: settings_def)
  then have "config_line ''operator_address=abc'' c = Ok (Loading (c\<lparr>pc_operator_address := ''abc''\<rparr>))" for c
    by (simp add: config_line_def strip_comment_def strtrim_def is_space_def split_eq_def unquote_def apply_setting_def set_str_def c_copy_def)
  moreover have "check_config (proxy_config_defaults\<lparr>pc_operator_address := ''abc''\<rparr>) = 0"
    by (simp add: check_config_def check_mode_def check_limits_def mode_pplns_def proxy_config_defaults_def)
  ultimately show ?thesis by (simp add: proxy_config_load_def demo_file_lines)
qed

theorem config_well_formed_witness:
  "\<exists>c. proxy_config_load (Some demo_file) = Ok (0, c) \<and> config_fits c \<and> pc_operator_address c = ''abc''"
proof -
  from config_well_formed [OF demo_file_loads] have "config_fits (proxy_config_defaults\<lparr>pc_operator_address := ''abc''\<rparr>)" by blast
  then show ?thesis using demo_file_loads by (intro exI [of _ "proxy_config_defaults\<lparr>pc_operator_address := ''abc''\<rparr>"]) simp
qed

section \<open>Writing and reading a configuration\<close>

text \<open>A file that quotes every value.\<close>

definition print_setting :: "string \<times> string \<Rightarrow> string" where
  "print_setting kv = fst kv @ '' = '' @ [CHR 0x22] @ snd kv @ [CHR 0x22, CHR 0x0A]"

definition plain_key :: "string \<Rightarrow> bool" where
  "plain_key k \<longleftrightarrow> k \<noteq> [] \<and> (\<forall>c \<in> set k. \<not> is_space c \<and> c \<notin> {CHR ''='', CHR ''#'', CHR 0x22, CHR 0x00})"

definition plain_value :: "string \<Rightarrow> bool" where
  "plain_value v \<longleftrightarrow> (\<forall>c \<in> set v. c \<notin> {CHR 0x22, CHR 0x00, CHR 0x0A})"

definition printable :: "string \<times> string \<Rightarrow> bool" where
  "printable kv \<longleftrightarrow> plain_key (fst kv) \<and> plain_value (snd kv) \<and> length (fst kv) + length (snd kv) \<le> 2041"

lemma strip_plain: "\<forall>c \<in> set xs. c \<noteq> CHR 0x22 \<and> c \<noteq> CHR ''#'' \<Longrightarrow> strip_from p q (xs @ ys) = xs @ strip_from (last (p # xs)) q ys"
  by (induction xs arbitrary: p) auto

lemma strip_quoted: "\<forall>c \<in> set v. c \<noteq> CHR 0x22 \<Longrightarrow> strip_from p True (v @ ys) = v @ strip_from (last (p # v)) True ys"
  by (induction v arbitrary: p) auto

lemma strip_printed: "plain_key k \<Longrightarrow> plain_value v \<Longrightarrow> strip_comment (print_setting (k, v)) = print_setting (k, v)"
proof -
  assume k: "plain_key k" and v: "plain_value v"
  have "\<forall>c \<in> set (k @ '' = ''). c \<noteq> CHR 0x22 \<and> c \<noteq> CHR ''#''" using k by (auto simp: plain_key_def)
  note s = strip_plain [OF this, of "CHR '' ''" False "[CHR 0x22] @ v @ [CHR 0x22, CHR 0x0A]"]
  have q: "\<forall>c \<in> set v. c \<noteq> CHR 0x22" using v by (auto simp: plain_value_def)
  show ?thesis using s strip_quoted [OF q, of "CHR 0x22" "[CHR 0x22, CHR 0x0A]"] by (simp add: strip_comment_def print_setting_def)
qed

lemma strtrim_between:
  assumes "xs \<noteq> []" and "\<not> is_space (hd xs)" and "\<not> is_space (last xs)" and "\<forall>c \<in> set a. is_space c" and "\<forall>c \<in> set b. is_space c"
  shows "strtrim (a @ xs @ b) = xs"
proof -
  have d: "dropWhile is_space (a @ ys) = ys" if "\<forall>c \<in> set a. is_space c" "ys \<noteq> []" "\<not> is_space (hd ys)" for a ys
    using that by (cases ys) (simp_all add: dropWhile_append2)
  have "dropWhile is_space (a @ xs @ b) = xs @ b" using d [OF assms(4), of "xs @ b"] assms(1,2) by simp
  moreover have "dropWhile is_space (rev b @ rev xs) = rev xs" using d [of "rev b" "rev xs"] assms(1,3,5) by (simp add: hd_rev)
  ultimately show ?thesis by (simp add: strtrim_def)
qed

lemma line_printed:
  assumes "plain_key k" and "plain_value v"
  shows "config_line (print_setting (k, v)) c = apply_setting k v c"
proof -
  have sp: "is_space (CHR '' '')" "is_space (CHR 0x0A)" "\<not> is_space (CHR 0x22)" by (simp_all add: is_space_def)
  have k: "k \<noteq> []" "\<not> is_space (hd k)" "\<not> is_space (last k)" "CHR ''='' \<notin> set k" using assms(1) by (auto simp: plain_key_def)
  have nul: "takeWhile (\<lambda>ch. ch \<noteq> CHR 0x00) (print_setting (k, v)) = print_setting (k, v)"
    using assms by (auto simp: print_setting_def plain_key_def plain_value_def)
  have t: "strtrim (print_setting (k, v)) = k @ '' = '' @ [CHR 0x22] @ v @ [CHR 0x22]"
    using strtrim_between [of "k @ '' = '' @ [CHR 0x22] @ v @ [CHR 0x22]" "[]" "[CHR 0x0A]"] k sp by (simp add: print_setting_def)
  have e: "split_eq (k @ '' = '' @ [CHR 0x22] @ v @ [CHR 0x22]) = Some (k @ '' '', '' '' @ [CHR 0x22] @ v @ [CHR 0x22])"
  proof -
    have "\<forall>c \<in> set (k @ '' ''). c \<noteq> CHR ''=''" using k(4) by auto
    then have "takeWhile (\<lambda>c. c \<noteq> CHR ''='') ((k @ '' '') @ CHR ''='' # ys) = k @ '' ''" "dropWhile (\<lambda>c. c \<noteq> CHR ''='') ((k @ '' '') @ CHR ''='' # ys) = CHR ''='' # ys" for ys
      by (simp_all only: takeWhile_append2 dropWhile_append2 Ball_def takeWhile.simps dropWhile.simps) simp_all
    from this [of "'' '' @ [CHR 0x22] @ v @ [CHR 0x22]"] show ?thesis by (simp add: split_eq_def)
  qed
  have "strtrim (k @ '' '') = k" using strtrim_between [of k "[]" "'' ''"] k sp by simp
  moreover have "strtrim ('' '' @ [CHR 0x22] @ v @ [CHR 0x22]) = [CHR 0x22] @ v @ [CHR 0x22]"
    using strtrim_between [of "[CHR 0x22] @ v @ [CHR 0x22]" "'' ''" "[]"] sp by simp
  moreover have "unquote ([CHR 0x22] @ v @ [CHR 0x22]) = v" by (simp add: unquote_def)
  ultimately show ?thesis unfolding config_line_def nul strip_printed [OF assms] t Let_def using k(1) e by simp
qed

lemma fgets_printed:
  assumes "printable kv"
  shows "fgets_lines (print_setting kv @ rest) = print_setting kv # fgets_lines rest"
proof -
  let ?l = "fst kv @ '' = '' @ [CHR 0x22] @ snd kv @ [CHR 0x22]"
  have p: "print_setting kv = ?l @ [CHR 0x0A]" by (simp add: print_setting_def)
  have n: "\<forall>c \<in> set ?l. c \<noteq> CHR 0x0A" using assms by (auto simp: printable_def plain_key_def plain_value_def is_space_def)
  have "takeWhile (\<lambda>c. c \<noteq> CHR 0x0A) (print_setting kv @ rest) = ?l" unfolding p using n by (simp add: takeWhile_append)
  moreover have "length ?l + 1 \<le> 2047" using assms by (simp add: printable_def)
  ultimately have "chunk_len (print_setting kv @ rest) = length (print_setting kv)" by (simp add: chunk_len_def p)
  moreover have "print_setting kv @ rest \<noteq> []" by (simp add: p)
  ultimately show ?thesis by (subst fgets_lines.simps) (simp del: append_assoc)
qed

definition print_config :: "(string \<times> string) list \<Rightarrow> string" where
  "print_config kvs = concat (map print_setting kvs)"

lemma fgets_config: "list_all printable kvs \<Longrightarrow> fgets_lines (print_config kvs) = map print_setting kvs"
  by (induction kvs) (simp_all add: print_config_def fgets_printed fgets_lines.simps [of "[]"])

fun apply_settings :: "(string \<times> string) list \<Rightarrow> proxy_config \<Rightarrow> loading res" where
  "apply_settings [] c = Ok (Loading c)"
| "apply_settings ((k, v) # kvs) c =
     bindR (apply_setting k v c) (\<lambda>r. case r of Refused rc c' \<Rightarrow> Ok (Refused rc c') | Loading c' \<Rightarrow> apply_settings kvs c')"

lemma lines_printed: "list_all printable kvs \<Longrightarrow> config_lines (map print_setting kvs) c = apply_settings kvs c"
proof (induction kvs arbitrary: c)
  case (Cons kv kvs)
  obtain k v where kv: "kv = (k, v)" by (cases kv)
  have "config_line (print_setting (k, v)) d = apply_setting k v d" for d by (rule line_printed) (use Cons.prems in \<open>simp_all add: kv printable_def\<close>)
  then have "config_lines (map print_setting (kv # kvs)) c = bindR (apply_setting k v c) (\<lambda>r. case r of Refused rc c' \<Rightarrow> Ok (Refused rc c') | Loading c' \<Rightarrow> config_lines (map print_setting kvs) c')"
    by (simp add: kv)
  also have "\<dots> = bindR (apply_setting k v c) (\<lambda>r. case r of Refused rc c' \<Rightarrow> Ok (Refused rc c') | Loading c' \<Rightarrow> apply_settings kvs c')"
  proof -
    have "(\<lambda>c. config_lines (map print_setting kvs) c) = apply_settings kvs" using Cons.IH Cons.prems by (intro ext) simp
    then show ?thesis by (rule arg_cong [of _ _ "\<lambda>g. bindR (apply_setting k v c) (\<lambda>r. case r of Refused rc c' \<Rightarrow> Ok (Refused rc c') | Loading c' \<Rightarrow> g c')"])
  qed
  finally show ?case by (simp add: kv)
qed simp

text \<open>
  C32: a configuration that is written with its values in quotes is read back value by value: whatever
  blanks, number signs and equal signs a value contains, the loader hands exactly that value to exactly
  that key, in the order of the file, and then checks the result.
\<close>

theorem config_print_load:
  assumes "list_all printable kvs"
  shows "proxy_config_load (Some (print_config kvs)) =
    bindR (apply_settings kvs proxy_config_defaults) (\<lambda>r. case r of Refused rc c \<Rightarrow> Ok (rc, c) | Loading c \<Rightarrow> Ok (check_config c, c))"
  by (simp add: proxy_config_load_def fgets_config [OF assms] lines_printed [OF assms])

theorem config_print_load_witness:
  "proxy_config_load (Some (print_config [(''operator_address'', ''abc''), (''bitcoind_pass'', ''p #ss = w'')])) =
     Ok (0, proxy_config_defaults\<lparr>pc_operator_address := ''abc'', pc_bitcoind_pass := ''p #ss = w''\<rparr>)"
proof -
  have p: "list_all printable [(''operator_address'', ''abc''), (''bitcoind_pass'', ''p #ss = w'')]"
    by (simp add: printable_def plain_key_def plain_value_def is_space_def)
  have m: "map_of settings ''operator_address'' = Some (set_str 128 pc_operator_address_update)" "map_of settings ''bitcoind_pass'' = Some (set_str 256 pc_bitcoind_pass_update)"
    by (simp_all add: settings_def)
  have "apply_settings [(''operator_address'', ''abc''), (''bitcoind_pass'', ''p #ss = w'')] c = Ok (Loading (c\<lparr>pc_operator_address := ''abc'', pc_bitcoind_pass := ''p #ss = w''\<rparr>))" for c
    by (simp add: apply_setting_def m set_str_def c_copy_def)
  moreover have "check_config (proxy_config_defaults\<lparr>pc_operator_address := ''abc'', pc_bitcoind_pass := ''p #ss = w''\<rparr>) = 0"
    by (simp add: check_config_def check_mode_def check_limits_def mode_pplns_def proxy_config_defaults_def)
  ultimately show ?thesis by (simp add: config_print_load [OF p])
qed

end
