(* ===== verification/Pool.thy ===== *)
theory Pool
  imports Records Config Template Pplns Runs
begin

text \<open>
  The composition of the pool (\<^verbatim>\<open>src/main.c\<close>): the job built from a template and the window attached to
  it, the rate shares are priced at, the callbacks through which the stratum server reports to the store,
  and the thread that watches the tip of the node. The answers of the node are arguments, the clocks too.
  Each step reads a clock once. The redis broadcast changes no state of the pool and is left out.
\<close>

section \<open>Templates of the node\<close>

record bitcoind_tx =
  bx_data_hex :: "string option"
  bx_txid_hex :: string
  bx_fee :: int

record bitcoind_template =
  bt_height :: int
  bt_prev_hash_hex :: string
  bt_value :: int
  bt_target_hex :: string
  bt_bits :: u32
  bt_curtime :: u32
  bt_version :: u32
  bt_witness_commitment :: "string option"
  bt_coinbasetxn_hex :: "string option"
  bt_longpollid :: "string option"
  bt_txs :: "bitcoind_tx list"

definition template_target :: "bitcoind_template \<Rightarrow> byte list res" where
  "template_target t =
     (if bt_target_hex t \<noteq> [] \<and> length (bt_target_hex t) = 64
      then (case hex_to_bytes_display (bt_target_hex t) 32 of Some b \<Rightarrow> Ok b | None \<Rightarrow> nbits_to_target (bt_bits t))
      else nbits_to_target (bt_bits t))"

text \<open>\<open>%llx\<close>\<close>

fun hex_text :: "nat \<Rightarrow> string" where
  "hex_text n = (if n < 16 then [hex_digit n] else hex_text (n div 16) @ [hex_digit (n mod 16)])"

declare hex_text.simps [simp del]

fun txids_of :: "bitcoind_tx list \<Rightarrow> byte list list option" where
  "txids_of [] = Some []"
| "txids_of (x # xs) =
     (case hex_to_bytes_display (bx_txid_hex x) 32 of
        None \<Rightarrow> None
      | Some be \<Rightarrow> map_option (\<lambda>ids. rev32 be # ids) (txids_of xs))"

definition segwit_coinbase :: "string option \<Rightarrow> bool" where
  "segwit_coinbase hex = (case hex of None \<Rightarrow> False | Some h \<Rightarrow> 12 \<le> length h \<and> take 4 (drop 8 h) = ''0001'')"

definition build_job_from_template :: "u64 \<Rightarrow> u64 \<Rightarrow> bitcoind_template \<Rightarrow> stratum_job res" where
  "build_job_from_template now up t =
     (case txids_of (bt_txs t) of
        None \<Rightarrow> Err ''bad txid hex''
      | Some ids \<Rightarrow>
          (case hex_to_bytes_display (bt_prev_hash_hex t) 32 of
             None \<Rightarrow> Err ''bad prev hash hex''
           | Some prev \<Rightarrow>
               bindR (template_target t) (\<lambda>target.
                 Ok (stratum_job_new (Some (hex_text (unat now))) (bt_version t) (Some (rev32 prev)) (bt_value t) (bt_witness_commitment t) 4 4
                   (if bt_txs t = [] then [] else compute_merkle_branches_for_idx0 ids) (bt_bits t) (bt_curtime t) (Some target) (word_of_int (bt_height t))
                   (map (\<lambda>x. Some (text_of (bx_data_hex x))) (bt_txs t)) (bt_coinbasetxn_hex t) (segwit_coinbase (bt_coinbasetxn_hex t)) up))))"

section \<open>The window of a job\<close>

definition listener_budget :: "nat \<Rightarrow> stratum_listener \<Rightarrow> nat" where
  "listener_budget b l = (if 0 < ls_max_coinbase_bytes l \<and> nat (ls_max_coinbase_bytes l) < b then nat (ls_max_coinbase_bytes l) else b)"

definition tightest_coinbase_budget :: "proxy_config \<Rightarrow> nat" where
  "tightest_coinbase_budget c =
     foldl listener_budget (if 0 < pc_coinbase_max_bytes c then nat (pc_coinbase_max_bytes c) else COINBASE_DEFAULT_MAX_BYTES) (pc_listeners c)"

definition entry_claim :: "window_entry \<Rightarrow> pplns_claim" where
  "entry_claim e = \<lparr>cl_address = Some (we_address e), cl_difficulty = we_difficulty e, cl_worker_id = we_worker e, cl_owed = we_owed e\<rparr>"

text \<open>What the split divides: the value of the template, or what its own coinbase pays; \<open>None\<close> when that cannot be told.\<close>

definition window_value :: "bitcoind_template \<Rightarrow> int option res" where
  "window_value t = (case bt_coinbasetxn_hex t of None \<Rightarrow> Ok (Some (bt_value t)) | Some h \<Rightarrow> coinbase_template_reward (Some h))"

text \<open>From the entries of a window to the job that pays it; \<open>None\<close> is the return of \<open>-1\<close>.\<close>

definition pay_window :: "proxy_config \<Rightarrow> bitcoind_template \<Rightarrow> window_entry list \<Rightarrow> double \<Rightarrow> stratum_job \<Rightarrow> stratum_job option res" where
  "pay_window c t es tot job =
     bindR (window_value t) (\<lambda>v.
       case v of
         None \<Rightarrow> Ok None
       | Some value \<Rightarrow>
           let claims = map entry_claim es in
           (case pplns_split_window value (pc_fee_bps c) (pc_operator_address c \<noteq> []) claims tot (pc_pplns_payout_floor_sats c) COINBASE_MAX_PAYOUT_OUTPUTS of
              UB \<Rightarrow> UB
            | Err _ \<Rightarrow> Ok None
            | Ok (by_claim, split) \<Rightarrow>
                if length es \<le> sp_below_floor split then Ok None
                else
                  let slots = coinbase_expected_payout_slots (tightest_coinbase_budget c) (bt_coinbasetxn_hex t) (map cl_address claims) in
                  (case pplns_order_claims claims slots (Some by_claim) (pc_pplns_payout_floor_sats c) of
                     None \<Rightarrow> Ok None
                   | Some order \<Rightarrow>
                       Ok (Some (stratum_job_set_window job (map (\<lambda>i. by_claim ! i) order) (Some (map (\<lambda>i. cl_worker_id (claims ! i)) order)))))))"

definition attach_pplns_window ::
  "sqlite \<Rightarrow> sql_sum \<Rightarrow> proxy_config \<Rightarrow> double \<Rightarrow> bitcoind_template \<Rightarrow> stratum_job \<Rightarrow> store \<Rightarrow> (stratum_job option \<times> store) res" where
  "attach_pplns_window io agg c net_diff t job s =
     (if pc_pool_mode c \<noteq> ''pplns-coinbase'' then Ok (Some job, s)
      else if \<not> d_gt net_diff (Fin 0) then Ok (None, s)
      else
        let (r, s) = store_pplns_window io agg (d_mul net_diff (pc_pplns_window_diff_multiple c)) COINBASE_MAX_PAYOUT_OUTPUTS s in
        case r of
          None \<Rightarrow> Ok (None, s)
        | Some (es, tot, truncated) \<Rightarrow>
            if es = [] \<or> \<not> d_gt tot (Fin 0) then Ok (Some job, s)
            else bindR (pay_window c t es tot job) (\<lambda>j. Ok (j, s)))"

section \<open>The rate\<close>

definition effective_pps_rate :: "proxy_config \<Rightarrow> int \<Rightarrow> double \<Rightarrow> double" where
  "effective_pps_rate c value net_diff =
     (if d_gt (pc_pps_sats_per_diff c) (Fin 0) then pc_pps_sats_per_diff c else pps_rate_from_template value net_diff (pc_fee_bps c))"

record server_ctx =
  sx_store :: store
  sx_pps_rate :: double
  sx_net_difficulty :: double
  sx_diff_accum :: double
  sx_diff_window_ms :: u64
  sx_diff_per_sec :: double
  sx_gated :: bool

definition HASHRATE_WINDOW_MS :: u64 where
  "HASHRATE_WINDOW_MS = 60000"

definition observed_diff_per_sec :: "u64 \<Rightarrow> server_ctx \<Rightarrow> double \<times> server_ctx" where
  "observed_diff_per_sec now x =
     (if sx_diff_window_ms x = 0 then (Fin 0, x\<lparr>sx_diff_window_ms := now\<rparr>)
      else if now - sx_diff_window_ms x \<ge> HASHRATE_WINDOW_MS
      then let secs = d_div (d_of_int (uint (now - sx_diff_window_ms x))) (Fin 1000);
               x' = x\<lparr>sx_diff_accum := Fin 0, sx_diff_window_ms := now,
                      sx_diff_per_sec := (if d_gt secs (Fin 0) then d_div (sx_diff_accum x) secs else sx_diff_per_sec x)\<rparr>
           in (sx_diff_per_sec x', x')
      else (sx_diff_per_sec x, x))"

fun positive_fees :: "bitcoind_tx list \<Rightarrow> int \<Rightarrow> int res" where
  "positive_fees [] acc = Ok acc"
| "positive_fees (x # xs) acc = (if 0 < bx_fee x then bindR (chk64 (acc + bx_fee x)) (positive_fees xs) else positive_fees xs acc)"

text \<open>The rate a template is priced at and whether the floor on the difficulty gates it.\<close>

definition priced :: "proxy_config \<Rightarrow> int \<Rightarrow> double \<Rightarrow> double \<Rightarrow> bool \<times> double" where
  "priced c value net_diff dps =
     (let accrues = (pc_pool_mode c = ''pps-classic''); rate = effective_pps_rate c value net_diff;
          gated = (accrues \<and> d_gt (pc_pps_min_network_difficulty c) (Fin 0) \<and> d_gt net_diff (Fin 0) \<and> d_lt net_diff (pc_pps_min_network_difficulty c));
          rate = (if gated then Fin 0 else rate)
      in (gated, if accrues \<and> \<not> gated then pps_rate_apply_issuance_ceiling rate value dps (pc_block_interval_sec c) else rate))"

definition refresh_pps_rate :: "sqlite \<Rightarrow> proxy_config \<Rightarrow> u64 \<Rightarrow> int \<Rightarrow> bitcoind_template \<Rightarrow> server_ctx \<Rightarrow> server_ctx res" where
  "refresh_pps_rate io c now now_s t x =
     bindR (template_target t) (\<lambda>target.
       let net_diff = target_to_diff target;
           x = (if d_gt net_diff (Fin 0) \<and> d_isfinite net_diff then x\<lparr>sx_net_difficulty := net_diff\<rparr> else x);
           value = bt_value t;
           source = Some (if d_gt (pc_pps_sats_per_diff c) (Fin 0) then ''override'' else ''derived'');
           gross = (if 0 < value \<and> d_isfinite net_diff \<and> d_gt net_diff (Fin 0) then d_div (d_of_int value) net_diff else Fin 0);
           eff = (if d_gt gross (Fin 0)
                  then d_mul (d_sub (Fin 1) (d_div (effective_pps_rate c value net_diff) gross)) (Fin 10000) else Fin 0);
           accrues = (pc_pool_mode c = ''pps-classic'');
           (dps, x) = observed_diff_per_sec now x;
           (gated, rate) = priced c value net_diff dps;
           x = x\<lparr>sx_gated := gated, sx_pps_rate := (if accrues then rate else Fin 0)\<rparr>;
           (rc, s) = store_record_pool_meta io (Some (pc_pool_mode c)) (pc_fee_bps c) source (if accrues then rate else Fin 0) gross (if accrues then eff else Fin 0)
              net_diff value now_s (sx_store x);
           (rc, s) = (if accrues then store_record_rate io source rate gross (pc_fee_bps c) net_diff value now_s s else (0, s))
       in bindR (case bt_coinbasetxn_hex t of None \<Rightarrow> Ok (Some (0, 0)) | Some h \<Rightarrow> coinbase_count_outputs (Some h)) (\<lambda>counts.
          bindR (positive_fees (bt_txs t) 0) (\<lambda>fees.
            let (sp, opr) = (case counts of None \<Rightarrow> (0, 0) | Some p \<Rightarrow> p);
                (rc, s) = store_record_template io \<lparr>st_ts = now_s, st_height = bt_height t, st_prev_hash = Some (bt_prev_hash_hex t), st_bits = Some (hex8 (bt_bits t)),
                   st_network_difficulty = net_diff, st_value = value, st_tx_count = int (length (bt_txs t)), st_tx_fees = fees,
                   st_source = Some (if bt_coinbasetxn_hex t \<noteq> None then ''enforcer'' else ''bitcoind''), st_cb_spendable = int sp, st_cb_op_returns = int opr,
                   st_longpoll = (bt_longpollid t \<noteq> None), st_rate = (if accrues then rate else Fin 0)\<rparr> s
            in Ok (x\<lparr>sx_store := s\<rparr>))))"

section \<open>What the stratum server reports\<close>

text \<open>The amount of a share and the rate that produced it.\<close>

definition share_credit :: "proxy_config \<Rightarrow> double \<Rightarrow> double \<Rightarrow> (int \<times> double) res" where
  "share_credit c rate diff =
     (if pc_pool_mode c = ''pps-classic'' \<and> d_gt rate (Fin 0) then
        let d = d_mul diff rate in
        if d_gt d (Fin 0) \<and> d_lt d (Fin (2 ^ 63)) then bindR (d_to_i64 d) (\<lambda>delta. Ok (delta, rate)) else Ok (0, Fin 0)
      else Ok (0, Fin 0))"

definition on_share_cb :: "proxy_config \<Rightarrow> string \<Rightarrow> string \<Rightarrow> u64 \<Rightarrow> double \<Rightarrow> bool \<Rightarrow> string \<Rightarrow> server_ctx \<Rightarrow> server_ctx res" where
  "on_share_cb c worker addr ts diff is_block hash x =
     (let x = x\<lparr>sx_diff_accum := d_add (sx_diff_accum x) diff\<rparr> in
      bindR (share_credit c (sx_pps_rate x) diff) (\<lambda>(delta, rate_used).
        let (ok, s) = store_record_share_addr (Some worker) (Some addr) ts diff (if is_block then 1 else 0) (Some hash) delta rate_used (sx_store x);
            (ok, s) = (if 0 < delta then store_record_credit (Some worker) (Some addr) ts delta s else (True, s))
        in Ok (x\<lparr>sx_store := s\<rparr>)))"

definition on_reject_cb :: "string \<Rightarrow> u64 \<Rightarrow> string \<Rightarrow> server_ctx \<Rightarrow> server_ctx" where
  "on_reject_cb worker ts reason x = (let (ok, s) = store_record_reject (Some worker) ts (Some reason) (sx_store x) in x\<lparr>sx_store := s\<rparr>)"

definition block_window :: "proxy_config \<Rightarrow> double \<Rightarrow> double" where
  "block_window c nd =
     (if d_gt (pc_pplns_window_diff_multiple c) (Fin 0) \<and> (pc_pool_mode c = ''pplns-thunder'' \<or> pc_pool_mode c = ''pplns-btc'') \<and> d_gt nd (Fin 0)
      then d_mul nd (pc_pplns_window_diff_multiple c) else Fin 0)"

definition on_block_found_cb :: "proxy_config \<Rightarrow> string \<Rightarrow> string \<Rightarrow> u64 \<Rightarrow> u32 \<Rightarrow> string \<Rightarrow> int \<Rightarrow> int \<Rightarrow> bool \<Rightarrow> string \<Rightarrow> server_ctx \<Rightarrow> server_ctx" where
  "on_block_found_cb c worker addr ts ht hash reward fee acc why x =
     (let (ok, s) = store_record_block ts (sint ht) (Some hash) (Some worker) (Some addr) reward fee
            (if acc then STORE_BLOCK_PENDING else STORE_BLOCK_REJECTED) (if acc then None else Some why) (block_window c (sx_net_difficulty x)) (sx_store x)
      in x\<lparr>sx_store := s\<rparr>)"

definition on_window_fractions_cb :: "sqlite \<Rightarrow> string \<Rightarrow> (int \<times> double) list \<Rightarrow> server_ctx \<Rightarrow> server_ctx" where
  "on_window_fractions_cb io hash deltas x =
     (if deltas = [] then x else let (rc, s) = store_stage_block_fractions io (Some hash) deltas (sx_store x) in x\<lparr>sx_store := s\<rparr>)"

text \<open>The callbacks \<open>main\<close> gives the server, one per event it reports.\<close>

fun report :: "sqlite \<Rightarrow> proxy_config \<Rightarrow> event \<Rightarrow> server_ctx \<Rightarrow> server_ctx res" where
  "report io c (EvShare worker addr ts diff is_block hash) x = on_share_cb c worker addr ts diff is_block hash x"
| "report io c (EvReject worker ts reason) x = Ok (on_reject_cb worker ts reason x)"
| "report io c (EvBlock hex) x = Ok x"
| "report io c (EvFractions hash deltas) x = Ok (on_window_fractions_cb io hash deltas x)"
| "report io c (EvBlockFound worker addr ts ht hash reward fee acc why) x =
     Ok (on_block_found_cb c worker addr ts ht hash reward fee acc why x)"

section \<open>The tip watcher\<close>

record watcher =
  wt_lpid :: string
  wt_errs :: nat
  wt_height :: int
  wt_prev :: string
  wt_built_ms :: u64
  wt_gbh :: int
  wt_ctx :: server_ctx
  wt_jobs :: "(stratum_job \<times> bool) list"

text \<open>How long the watcher sleeps before it asks again; \<open>None\<close> when the node parks the request.\<close>

definition watcher_delay :: "proxy_config \<Rightarrow> watcher \<Rightarrow> u64 option" where
  "watcher_delay c w =
     (if wt_lpid w \<noteq> [] then None
      else let delay = word_of_int (pc_bitcoind_poll_interval_ms c);
               backoff = (if wt_errs w > 0 then push_bit (if wt_errs w - 1 < 5 then wt_errs w - 1 else 5) 1000 else 0)
           in Some (if delay < backoff then backoff else delay))"

definition reconcile_cfg_of :: "proxy_config \<Rightarrow> block_hash_fn \<Rightarrow> reconcile_cfg" where
  "reconcile_cfg_of c gbh =
     \<lparr>get_block_hash = Some gbh, rc_pplns = (pc_pool_mode c = ''pplns-thunder'' \<or> pc_pool_mode c = ''pplns-btc''), rc_fee_bps = pc_fee_bps c\<rparr>"

definition reconcile_blocks :: "sqlite \<Rightarrow> sql_sum \<Rightarrow> proxy_config \<Rightarrow> block_hash_fn \<Rightarrow> int \<Rightarrow> int \<Rightarrow> watcher \<Rightarrow> watcher res" where
  "reconcile_blocks io agg c gbh now_s tip w =
     bindR (reconcile_blocks_pass io agg now_s (reconcile_cfg_of c gbh) tip (wt_gbh w) (sx_store (wt_ctx w))) (\<lambda>(r, gs, s).
       Ok (w\<lparr>wt_gbh := gs, wt_ctx := (wt_ctx w)\<lparr>sx_store := s\<rparr>\<rparr>))"

text \<open>Building and publishing a job; \<open>False\<close> when the template was skipped.\<close>

definition rebuild :: "sqlite \<Rightarrow> sql_sum \<Rightarrow> proxy_config \<Rightarrow> u64 \<Rightarrow> u64 \<Rightarrow> int \<Rightarrow> bitcoind_template \<Rightarrow> bool \<Rightarrow> watcher \<Rightarrow> (bool \<times> watcher) res" where
  "rebuild io agg c now up now_s t new_tip w =
     (case build_job_from_template now up t of
        UB \<Rightarrow> UB
      | Err _ \<Rightarrow> Ok (False, w)
      | Ok job \<Rightarrow>
          bindR (attach_pplns_window io agg c (sx_net_difficulty (wt_ctx w)) t job (sx_store (wt_ctx w))) (\<lambda>(j, s).
            let w = w\<lparr>wt_ctx := (wt_ctx w)\<lparr>sx_store := s\<rparr>\<rparr> in
            case j of
              None \<Rightarrow> Ok (False, w)
            | Some job \<Rightarrow>
                bindR (refresh_pps_rate io c now now_s t (wt_ctx w)) (\<lambda>x.
                  Ok (True, w\<lparr>wt_jobs := wt_jobs w @ [(job, new_tip)], wt_ctx := x, wt_height := bt_height t, wt_prev := c_copy 65 (bt_prev_hash_hex t), wt_built_ms := now\<rparr>))))"

definition watcher_step ::
  "sqlite \<Rightarrow> sql_sum \<Rightarrow> proxy_config \<Rightarrow> block_hash_fn \<Rightarrow> u64 \<Rightarrow> u64 \<Rightarrow> int \<Rightarrow> bitcoind_template option \<Rightarrow> watcher \<Rightarrow> watcher res" where
  "watcher_step io agg c gbh now up now_s answer w =
     (case answer of
        None \<Rightarrow> Ok (w\<lparr>wt_lpid := [], wt_errs := (if wt_errs w < 16 then wt_errs w + 1 else wt_errs w)\<rparr>)
      | Some t \<Rightarrow>
          let (rc, s) = store_record_node_tip io (bt_height t - 1) (Some (bt_prev_hash_hex t)) now_s now_s (sx_store (wt_ctx w));
              w = w\<lparr>wt_errs := 0, wt_ctx := (wt_ctx w)\<lparr>sx_store := s\<rparr>\<rparr>;
              new_tip = (bt_height t \<noteq> wt_height w \<or> bt_prev_hash_hex t \<noteq> wt_prev w);
              need = (new_tip \<or> 30000 < now - wt_built_ms w)
          in bindR (if new_tip then reconcile_blocks io agg c gbh now_s (bt_height t - 1) w else Ok w) (\<lambda>w.
             bindR (if need then rebuild io agg c now up now_s t new_tip w else Ok (True, w)) (\<lambda>(go_on, w).
               Ok (if go_on then w\<lparr>wt_lpid := (case bt_longpollid t of None \<Rightarrow> [] | Some l \<Rightarrow> c_copy 128 l)\<rparr> else w))))"

section \<open>The stratum configuration\<close>

definition stratum_cfg_of :: "proxy_config \<Rightarrow> bool \<Rightarrow> (string \<Rightarrow> int \<times> string) \<Rightarrow> stratum_cfg" where
  "stratum_cfg_of c gated submit =
     (let m = pc_pool_mode c; pps = (m = ''pps-classic''); th = (m = ''pplns-thunder''); btc = (m = ''pplns-btc''); cb = (m = ''pplns-coinbase'') in
      \<lparr>max_conns = pc_max_conns c, listeners = pc_listeners c, max_suggested_diff = pc_max_suggested_diff c, cfg_initial_diff = pc_initial_diff c,
       operator_address = pc_operator_address c, fee_bps = pc_fee_bps c, coinbase_tag = pc_coinbase_tag c, coinbase_pays_pool = (pps \<or> th \<or> btc),
       username_is_thunder = (pps \<or> th), coinbase_pays_window = cb, cfg_max_coinbase_bytes = nat (pc_coinbase_max_bytes c mod 2 ^ 64),
       payout_floor_sats = pc_pplns_payout_floor_sats c, pps_accrues = pps, pool_btc_address = pc_pool_btc_address c, pps_gate = Some (if gated then 1 else 0),
       pps_refuse_shares_below_min = (pc_pps_refuse_shares_below_min c \<noteq> 0), vardiff_enabled = (pc_vardiff_enabled c \<noteq> 0),
       vardiff_target_spm = pc_vardiff_target_spm c, cfg_vardiff_min = pc_vardiff_min c, cfg_vardiff_max = pc_vardiff_max c,
       vardiff_window_sec = pc_vardiff_window_sec c, vardiff_min_samples = pc_vardiff_min_samples c, vardiff_max_window_mult = pc_vardiff_max_window_mult c,
       vardiff_idle_step = pc_vardiff_idle_step c, idle_timeout_sec = pc_idle_timeout_sec c, idle_timeout_authorized_sec = pc_idle_timeout_authorized_sec c,
       max_submits_per_sec = pc_max_submits_per_sec c, auth_max_failures = pc_auth_max_failures c, auth_fail_lockout_sec = pc_auth_fail_lockout_sec c,
       bind_port = pc_listen_port c, on_share_set = True, on_reject_set = True, on_block = Some submit, on_block_found_set = True,
       on_window_fractions_set = cb\<rparr>)"

section \<open>A job pays its window\<close>

lemma window_entries:
  assumes "store_pplns_window io agg w cap s = (Some (es, tot, tr), s')"
  shows "\<forall>e \<in> set es. length (we_address e) \<le> 127"
  using assms
  by (auto simp: store_pplns_window_def Let_def c_copy_def split: if_splits option.splits prod.splits dest!: in_set_takeD)

lemma set_window_payees:
  assumes "ps \<noteq> []" and "\<forall>p \<in> set ps. \<exists>a. pe_address p = Some a \<and> length a \<le> 127" and "length ids = length ps"
  shows "payees (stratum_job_set_window j ps (Some ids)) = ps \<and> payee_worker_ids (stratum_job_set_window j ps (Some ids)) = ids"
proof -
  have "\<lparr>pe_address = Some (c_copy 128 (case pe_address p of None \<Rightarrow> [] | Some a \<Rightarrow> a)), pe_sats = pe_sats p\<rparr> = p" if "p \<in> set ps" for p
    using assms(2) that by (cases p) (fastforce simp: c_copy_def)
  then have "map (\<lambda>p. \<lparr>pe_address = Some (c_copy 128 (case pe_address p of None \<Rightarrow> [] | Some a \<Rightarrow> a)), pe_sats = pe_sats p\<rparr>) ps = ps"
    by (rule map_idI)
  then show ?thesis using assms(1,3) by (simp add: stratum_job_set_window_def)
qed

lemma reorder_zip: "set order \<subseteq> {..<length xs} \<Longrightarrow> length ys = length xs \<Longrightarrow> zip (reorder order xs) (reorder order ys) = reorder order (zip xs ys)"
  by (induction order) (auto simp: reorder_def)

text \<open>The job paid from a window is a permutation of its split.\<close>

lemma pay_window_split:
  assumes "pay_window c t es tot job = Ok (Some j)" and "\<forall>e \<in> set es. length (we_address e) \<le> 127"
  obtains vl ps r order slots where "window_value t = Ok (Some vl)"
    and "pplns_split_window vl (pc_fee_bps c) (pc_operator_address c \<noteq> []) (map entry_claim es) tot (pc_pplns_payout_floor_sats c) COINBASE_MAX_PAYOUT_OUTPUTS = Ok (ps, r)"
    and "sp_below_floor r < length es"
    and "pplns_order_claims (map entry_claim es) slots (Some ps) (pc_pplns_payout_floor_sats c) = Some order"
    and "distinct order" and "set order = {..<length ps}" and "length ps = length es"
    and "payees j = reorder order ps" and "payee_worker_ids j = reorder order (map we_worker es)"
    and "map pe_address ps = map (\<lambda>e. Some (we_address e)) es"
proof -
  obtain vl where v: "window_value t = Ok (Some vl)" using assms(1) by (auto simp: pay_window_def bindR_Ok_iff split: option.splits)
  obtain ps r where s: "pplns_split_window vl (pc_fee_bps c) (pc_operator_address c \<noteq> []) (map entry_claim es) tot (pc_pplns_payout_floor_sats c) COINBASE_MAX_PAYOUT_OUTPUTS = Ok (ps, r)"
    using assms(1) v by (auto simp: pay_window_def Let_def split: res.splits)
  define slots where "slots = coinbase_expected_payout_slots (tightest_coinbase_budget c) (bt_coinbasetxn_hex t) (map cl_address (map entry_claim es))"
  have b: "sp_below_floor r < length es" using assms(1) v s by (auto simp: pay_window_def Let_def not_le split: if_splits)
  obtain order where o: "pplns_order_claims (map entry_claim es) slots (Some ps) (pc_pplns_payout_floor_sats c) = Some order"
    and j: "j = stratum_job_set_window job (map (\<lambda>i. ps ! i) order) (Some (map (\<lambda>i. cl_worker_id (map entry_claim es ! i)) order))"
    using assms(1) v s b by (auto simp: pay_window_def Let_def slots_def split: if_splits option.splits)
  note sm = pplns_split_sum [OF s]
  have a: "map pe_address ps = map (\<lambda>e. Some (we_address e)) es" using sm by (simp add: entry_claim_def comp_def)
  then have len: "length ps = length es" by (metis length_map)
  have ne: "map entry_claim es \<noteq> []" using b by auto
  obtain reserved rest where "pplns_order_claims (map entry_claim es) slots (Some ps) (pc_pplns_payout_floor_sats c) = Some (reserved @ rest)"
    "distinct (reserved @ rest)" "set (reserved @ rest) = {..<length (map entry_claim es)}"
    using pplns_order_claims_cases [OF ne, of slots "Some ps" "pc_pplns_payout_floor_sats c"] by metis
  then have od: "distinct order" "set order = {..<length ps}" unfolding len using o by simp_all
  have "order \<noteq> []" using od(2) len b by (cases order) auto
  moreover have "\<exists>a. pe_address p = Some a \<and> length a \<le> 127" if p: "p \<in> set (reorder order ps)" for p
  proof -
    have "p \<in> set ps" using p od mset_reorder [OF od] by (metis set_mset_mset)
    then have "pe_address p \<in> set (map (\<lambda>e. Some (we_address e)) es)" using a by (metis image_eqI list.set_map)
    then show ?thesis using assms(2) by auto
  qed
  moreover have ids: "map (\<lambda>i. cl_worker_id (map entry_claim es ! i)) order = reorder order (map we_worker es)"
    using od(2) len by (auto simp: reorder_def entry_claim_def)
  have j': "j = stratum_job_set_window job (reorder order ps) (Some (reorder order (map we_worker es)))" by (simp only: j ids reorder_def)
  ultimately have "payees j = reorder order ps \<and> payee_worker_ids j = reorder order (map we_worker es)"
    unfolding j' by (intro set_window_payees) (auto simp: reorder_def)
  then show ?thesis using that [OF v s b o od len _ _ a] by blast
qed

lemma below_floor_some: "length (filter (\<lambda>p. pe_sats p < f) ps) < length ps \<Longrightarrow> \<exists>p \<in> set ps. f \<le> pe_sats p"
  by (metis filter_True linorder_not_less nat_less_le)

text \<open>The amounts of a split, entry by entry: the truncated shares, with the remainder on the first.\<close>

lemma split_amounts:
  assumes "pplns_split_window reward bps have_op claims tot flr cap = Ok (ps, r)"
  shows "\<exists>ks. map (\<lambda>c. prop_share (sp_payable r) (cl_difficulty c) tot) claims = map Ok ks \<and> sp_payable r = reward - sp_fee r \<and>
    map pe_sats ps = (hd ks + (sp_payable r - sum_list ks)) # tl ks"
  using assms
proof (rule pplns_split_Ok)
  fix out
  assume o: "length out = length claims" "claims \<noteq> []" "sp_payable r = reward - sp_fee r"
    "map (\<lambda>c. prop_share (sp_payable r) (cl_difficulty c) tot) claims = map (\<lambda>p. Ok (pe_sats p)) out"
    "ps = (hd out)\<lparr>pe_sats := pe_sats (hd out) + (sp_payable r - sum_list (map pe_sats out))\<rparr> # tl out"
  then show ?thesis by (intro exI [of _ "map pe_sats out"]) (cases out, auto)
qed

text \<open>A payment: who, to which address, how much.\<close>

definition payments :: "stratum_job \<Rightarrow> (int \<times> string option \<times> int) list" where
  "payments j = zip (payee_worker_ids j) (map (\<lambda>p. (pe_address p, pe_sats p)) (payees j))"

lemma reorder_payments:
  assumes "distinct order" and "set order = {..<length ps}" and "length ps = length es" and "map pe_address ps = map (\<lambda>e. Some (we_address e)) es"
    and "payees j = reorder order ps" and "payee_worker_ids j = reorder order (map we_worker es)"
  shows "mset (payments j) = mset (map2 (\<lambda>e a. (we_worker e, Some (we_address e), a)) es (map pe_sats ps))"
proof -
  let ?qs = "map (\<lambda>p. (pe_address p, pe_sats p)) ps"
  have "map (\<lambda>p. (pe_address p, pe_sats p)) (payees j) = reorder order ?qs" using assms(2,5) by (auto simp: reorder_def)
  then have "payments j = reorder order (zip (map we_worker es) ?qs)"
    using reorder_zip [of order "map we_worker es" ?qs] assms(2,3) by (simp add: payments_def assms(6))
  then have "mset (payments j) = mset (zip (map we_worker es) ?qs)"
    using mset_reorder [of order "zip (map we_worker es) ?qs"] assms(1-3) by simp
  moreover have "zip (map we_worker es) ?qs = map2 (\<lambda>e a. (we_worker e, Some (we_address e), a)) es (map pe_sats ps)"
    using assms(3,4) by (intro nth_equalityI) (auto simp: list_eq_iff_nth_eq)
  ultimately show ?thesis by simp
qed


section \<open>The price of a share\<close>

lemma d_bounded: "d_gt d (Fin 0) \<Longrightarrow> d_lt d (Fin (2 ^ 63)) \<Longrightarrow> \<exists>q. d = Fin q \<and> 0 < q \<and> q < 2 ^ 63"
  by (cases d) (auto simp: d_gt_def)

lemma rat_trunc_bounded: "0 < q \<Longrightarrow> q < 2 ^ 63 \<Longrightarrow> 0 \<le> rat_trunc q \<and> rat_trunc q < 2 ^ 63"
  by (simp add: rat_trunc_def floor_less_iff)

lemma share_credit_cases:
  obtains "share_credit c rate diff = Ok (0, Fin 0)"
  | delta where "share_credit c rate diff = Ok (delta, rate)" and "pc_pool_mode c = ''pps-classic''" and "d_gt rate (Fin 0)"
      and "d_to_i64 (d_mul diff rate) = Ok delta" and "0 \<le> delta" and "delta < 2 ^ 63"
proof (cases "pc_pool_mode c = ''pps-classic'' \<and> d_gt rate (Fin 0) \<and> d_gt (d_mul diff rate) (Fin 0) \<and> d_lt (d_mul diff rate) (Fin (2 ^ 63))")
  case True
  then obtain q where q: "d_mul diff rate = Fin q" "0 < q" "q < 2 ^ 63" using d_bounded by blast
  have t: "0 \<le> rat_trunc q" "rat_trunc q < 2 ^ 63" using rat_trunc_bounded [OF q(2,3)] by simp_all
  then have "d_to_i64 (d_mul diff rate) = Ok (rat_trunc q)" by (simp add: q(1) chk64_def i64_ok_def)
  then show ?thesis using that(2) True t by (simp add: share_credit_def)
next
  case False
  then show ?thesis using that(1) by (auto simp: share_credit_def Let_def)
qed

definition share_event :: "string \<Rightarrow> string \<Rightarrow> u64 \<Rightarrow> double \<Rightarrow> bool \<Rightarrow> string \<Rightarrow> int \<Rightarrow> double \<Rightarrow> store_event" where
  "share_event w a ts diff blk h delta rate =
     zero_event\<lparr>se_kind := EV_SHARE, se_ts_ms := ts, se_difficulty := diff, se_is_block := (if blk then 1 else 0), se_delta := delta, se_rate := rate,
       se_worker := c_copy WORKER_NAME_MAX w, se_address := c_copy ADDR_MAX a, se_hash := c_copy HASH_STR_MAX h\<rparr>"

definition credit_event :: "string \<Rightarrow> string \<Rightarrow> u64 \<Rightarrow> int \<Rightarrow> store_event" where
  "credit_event w a ts delta = zero_event\<lparr>se_kind := EV_CREDIT, se_ts_ms := ts, se_delta := delta, se_worker := c_copy WORKER_NAME_MAX w, se_address := c_copy ADDR_MAX a\<rparr>"

lemma count_dropped_ring [simp]: "ring_contents (count_dropped s) = ring_contents s" "ring_ok (count_dropped s) = ring_ok s" "ring_cap (count_dropped s) = ring_cap s" "ring_count (count_dropped s) = ring_count s"
  "dbase (count_dropped s) = dbase s" "saved (count_dropped s) = saved s"
  by (simp_all add: count_dropped_def ring_contents_def ring_ok_def ring_cap_def)

lemma queued_ring [simp]: "ring_contents (s\<lparr>shares_queued := n\<rparr>) = ring_contents s" "ring_ok (s\<lparr>shares_queued := n\<rparr>) = ring_ok s" "ring_cap (s\<lparr>shares_queued := n\<rparr>) = ring_cap s"
  "ring_count (s\<lparr>shares_queued := n\<rparr>) = ring_count s"
  by (simp_all add: ring_contents_def ring_ok_def ring_cap_def)

lemma push_event:
  assumes "enqueue e s = (ok, s')" and "ring_ok s"
  shows "ring_ok s'" and "ring_cap s' = ring_cap s" and "ring_contents s' = (if length (ring_contents s) < ring_cap s then ring_contents s @ [e] else ring_contents s)"
  using rq.push_law [OF assms(2,1)] by auto

lemma record_share_ring:
  assumes "store_record_share_addr (Some w) (Some a) ts diff (if blk then 1 else 0) (Some h) delta rate s = (ok, s')" and "ring_ok s"
  shows "ring_ok s' \<and> ring_cap s' = ring_cap s \<and> dbase s' = dbase s \<and> saved s' = saved s \<and>
    ring_contents s' = (if length (ring_contents s) < ring_cap s then ring_contents s @ [share_event w a ts diff blk h delta rate] else ring_contents s)"
proof -
  obtain k t where t: "enqueue (share_event w a ts diff blk h delta rate) s = (k, t)" by fastforce
  have "dbase t = dbase s" "saved t = saved s" using t by (auto simp: enqueue_def split: if_splits)
  then show ?thesis using assms(1) push_event [OF t assms(2)] t by (auto simp: store_record_share_addr_def share_event_def split: if_splits)
qed

lemma record_credit_ring:
  assumes "store_record_credit (Some w) (Some a) ts delta s = (ok, s')" and "ring_ok s" and "0 < delta"
  shows "ring_ok s' \<and> ring_cap s' = ring_cap s \<and> dbase s' = dbase s \<and> saved s' = saved s \<and>
    ring_contents s' = (if length (ring_contents s) < ring_cap s then ring_contents s @ [credit_event w a ts delta] else ring_contents s)"
proof -
  obtain k t where t: "enqueue (credit_event w a ts delta) s = (k, t)" by fastforce
  have "dbase t = dbase s" "saved t = saved s" using t by (auto simp: enqueue_def split: if_splits)
  then show ?thesis using assms(1,3) push_event [OF t assms(2)] t by (auto simp: store_record_credit_def credit_event_def split: if_splits)
qed

lemma priced_queue:
  assumes "ring_ok (sx_store x)"
  shows "\<exists>x' delta rate. on_share_cb c w a ts diff blk h x = Ok x' \<and> sx_pps_rate x' = sx_pps_rate x \<and> ring_ok (sx_store x') \<and> dbase (sx_store x') = dbase (sx_store x) \<and> saved (sx_store x') = saved (sx_store x) \<and> share_credit c (sx_pps_rate x) diff = Ok (delta, rate) \<and>
    0 \<le> delta \<and> delta < 2 ^ 63 \<and> (rate = Fin 0 \<longrightarrow> delta = 0) \<and>
    (rate \<noteq> Fin 0 \<longrightarrow> pc_pool_mode c = ''pps-classic'' \<and> rate = sx_pps_rate x \<and> d_to_i64 (d_mul diff rate) = Ok delta) \<and>
    (let q = ring_contents (sx_store x); free = ring_cap (sx_store x) - length q; q' = ring_contents (sx_store x') in
      (free = 0 \<longrightarrow> q' = q) \<and> (free = 1 \<longrightarrow> q' = q @ [share_event w a ts diff blk h delta rate]) \<and>
      (2 \<le> free \<longrightarrow> q' = q @ share_event w a ts diff blk h delta rate # (if 0 < delta then [credit_event w a ts delta] else [])))"
proof -
  have "\<exists>delta rate. share_credit c (sx_pps_rate x) diff = Ok (delta, rate) \<and> 0 \<le> delta \<and> delta < 2 ^ 63 \<and> (rate = Fin 0 \<longrightarrow> delta = 0) \<and>
    (rate \<noteq> Fin 0 \<longrightarrow> pc_pool_mode c = ''pps-classic'' \<and> rate = sx_pps_rate x \<and> d_to_i64 (d_mul diff rate) = Ok delta)"
    by (rule share_credit_cases [of c "sx_pps_rate x" diff]) (fastforce simp: d_gt_def)+
  then obtain delta rate where d: "share_credit c (sx_pps_rate x) diff = Ok (delta, rate)" "0 \<le> delta" "delta < 2 ^ 63" "rate = Fin 0 \<longrightarrow> delta = 0"
    "rate \<noteq> Fin 0 \<longrightarrow> pc_pool_mode c = ''pps-classic'' \<and> rate = sx_pps_rate x \<and> d_to_i64 (d_mul diff rate) = Ok delta" by blast
  obtain k1 s1 where s1: "store_record_share_addr (Some w) (Some a) ts diff (if blk then 1 else 0) (Some h) delta rate (sx_store x) = (k1, s1)" by fastforce
  note r1 = record_share_ring [OF s1 assms]
  obtain k2 s2 where s2: "(if 0 < delta then store_record_credit (Some w) (Some a) ts delta s1 else (True, s1)) = (k2, s2)" by fastforce
  have r2: "ring_contents s2 = (if 0 < delta \<and> length (ring_contents s1) < ring_cap s1 then ring_contents s1 @ [credit_event w a ts delta] else ring_contents s1)"
    using s2 record_credit_ring [of w a ts delta s1 k2 s2] r1 by (auto split: if_splits)
  define x' where "x' = (x\<lparr>sx_diff_accum := d_add (sx_diff_accum x) diff\<rparr>)\<lparr>sx_store := s2\<rparr>"
  have "on_share_cb c w a ts diff blk h x = Ok x'" using d(1) s1 s2 by (simp add: on_share_cb_def x'_def)
  moreover have "ring_ok s2 \<and> dbase s2 = dbase s1 \<and> saved s2 = saved s1"
    using s2 record_credit_ring [of w a ts delta s1 k2 s2] r1 by (auto split: if_splits)
  moreover have "let q = ring_contents (sx_store x); free = ring_cap (sx_store x) - length q; q' = ring_contents (sx_store x') in
      (free = 0 \<longrightarrow> q' = q) \<and> (free = 1 \<longrightarrow> q' = q @ [share_event w a ts diff blk h delta rate]) \<and>
      (2 \<le> free \<longrightarrow> q' = q @ share_event w a ts diff blk h delta rate # (if 0 < delta then [credit_event w a ts delta] else []))"
    using r1 r2 by (auto simp: Let_def x'_def)
  ultimately show ?thesis using d r1 by (intro exI [of _ x'] exI [of _ delta] exI [of _ rate]) (simp add: x'_def)
qed

text \<open>
  C13: a share is priced once, by arithmetic that an audit can repeat: no difficulty makes the conversion
  undefined; outside pps-classic nothing is credited; the amount on the share is the truncated product of
  its difficulty and the rate on the share, and a credit of exactly that amount is queued behind it. With
  room for one event only, the share is queued with its amount and the credit is lost.
\<close>

theorem share_priced:
  assumes "ring_ok (sx_store x)"
  shows "\<exists>x' delta rate. on_share_cb c w a ts diff blk h x = Ok x' \<and> share_credit c (sx_pps_rate x) diff = Ok (delta, rate) \<and>
    0 \<le> delta \<and> delta < 2 ^ 63 \<and> (rate = Fin 0 \<longrightarrow> delta = 0) \<and>
    (rate \<noteq> Fin 0 \<longrightarrow> pc_pool_mode c = ''pps-classic'' \<and> rate = sx_pps_rate x \<and> d_to_i64 (d_mul diff rate) = Ok delta) \<and>
    (let q = ring_contents (sx_store x); free = ring_cap (sx_store x) - length q; q' = ring_contents (sx_store x') in
      (free = 0 \<longrightarrow> q' = q) \<and> (free = 1 \<longrightarrow> q' = q @ [share_event w a ts diff blk h delta rate]) \<and>
      (2 \<le> free \<longrightarrow> q' = q @ share_event w a ts diff blk h delta rate # (if 0 < delta then [credit_event w a ts delta] else [])))"
  using priced_queue [OF assms] by blast

section \<open>Every rate is on record\<close>

datatype pool_step = Refresh bitcoind_template u64 int | Report event

fun pool_steps :: "sqlite \<Rightarrow> proxy_config \<Rightarrow> pool_step list \<Rightarrow> server_ctx \<Rightarrow> server_ctx res" where
  "pool_steps io c [] x = Ok x"
| "pool_steps io c (Refresh t now now_s # ps) x = bindR (refresh_pps_rate io c now now_s t x) (pool_steps io c ps)"
| "pool_steps io c (Report e # ps) x = bindR (report io c e x) (pool_steps io c ps)"

definition on_record :: "double \<Rightarrow> db \<Rightarrow> bool" where
  "on_record rate d \<longleftrightarrow> rate = Fin 0 \<or> (\<exists>r \<in> set (rates d). d_eq (rt_rate r) rate)"

text \<open>The queue is as it was and no price has left the record.\<close>

definition same_queue :: "store \<Rightarrow> store \<Rightarrow> bool" where
  "same_queue s s' \<longleftrightarrow> ring_contents s' = ring_contents s \<and> ring_ok s' = ring_ok s \<and> set (rates (dbase s)) \<subseteq> set (rates (dbase s')) \<and> saved s' = saved s"

definition rate_logged :: "server_ctx \<Rightarrow> bool" where
  "rate_logged x \<longleftrightarrow> on_record (sx_pps_rate x) (dbase (sx_store x)) \<and> sx_pps_rate x \<noteq> NaN \<and> saved (sx_store x) = None \<and> ring_ok (sx_store x) \<and>
     (\<forall>e \<in> set (ring_contents (sx_store x)). se_kind e = EV_SHARE \<longrightarrow> on_record (se_rate e) (dbase (sx_store x)))"

lemma ring_db [simp]:
  "ring_contents (s\<lparr>dbase := d\<rparr>) = ring_contents s" "ring_ok (s\<lparr>dbase := d\<rparr>) = ring_ok s"
  "ring_contents (s\<lparr>calls := n\<rparr>) = ring_contents s" "ring_ok (s\<lparr>calls := n\<rparr>) = ring_ok s"
  "ring_contents (s\<lparr>saved := v\<rparr>) = ring_contents s" "ring_ok (s\<lparr>saved := v\<rparr>) = ring_ok s"
  "ring_contents (s\<lparr>rejects_queued := q\<rparr>) = ring_contents s" "ring_ok (s\<lparr>rejects_queued := q\<rparr>) = ring_ok s"
  "ring_contents (s\<lparr>pg_errors := q\<rparr>) = ring_contents s" "ring_ok (s\<lparr>pg_errors := q\<rparr>) = ring_ok s"
  by (simp_all add: ring_contents_def ring_ok_def ring_cap_def)

lemma same_queue_refl [simp]: "same_queue s s"
  by (simp add: same_queue_def)

lemma same_queue_trans: "same_queue s t \<Longrightarrow> same_queue t u \<Longrightarrow> same_queue s u"
  by (auto simp: same_queue_def)

lemma on_record_mono: "on_record rate d \<Longrightarrow> set (rates d) \<subseteq> set (rates d') \<Longrightarrow> on_record rate d'"
  by (auto simp: on_record_def)

lemma rate_logged_same:
  "rate_logged x \<Longrightarrow> same_queue (sx_store x) (sx_store x') \<Longrightarrow> on_record (sx_pps_rate x') (dbase (sx_store x')) \<Longrightarrow> sx_pps_rate x' \<noteq> NaN \<Longrightarrow> rate_logged x'"
  by (auto simp: rate_logged_def same_queue_def intro: on_record_mono)

lemma d_eq_refl: "x \<noteq> NaN \<Longrightarrow> d_eq x x"
  by (cases x) (auto simp: d_eq_def)

text \<open>No price is NaN.\<close>

lemma rate_from_template_number: "pps_rate_from_template v nd f \<noteq> NaN"
  by (auto simp: pps_rate_from_template_def Let_def d_gt_def)

lemma effective_rate_number: "effective_pps_rate c v nd \<noteq> NaN"
  using rate_from_template_number by (auto simp: effective_pps_rate_def d_gt_def)

lemma priced_number: "priced c v nd dps = (g, rate) \<Longrightarrow> rate \<noteq> NaN"
  using effective_rate_number [of c v nd]
  by (auto simp: priced_def Let_def pps_rate_apply_issuance_ceiling_def split: if_splits)

lemma record_rate_done:
  assumes "\<forall>n. io n = Done" and "rate \<noteq> NaN" and "store_record_rate io source rate gross fee nd v ts s = (rc, s')"
  shows "(\<exists>r \<in> set (rates (dbase s')). d_eq (rt_rate r) rate) \<and> same_queue s s'"
proof (cases "\<exists>r. newest (rates (dbase s)) = Some r \<and> same_rate source rate gross fee nd v r")
  case True
  then obtain r where r: "newest (rates (dbase s)) = Some r" "same_rate source rate gross fee nd v r" by blast
  then have "r \<in> set (rates (dbase s))" by (auto simp: newest_def split: if_splits)
  moreover have "dbase s' = dbase s" "same_queue s s'" using assms(3) r by (auto simp: store_record_rate_def query_newest_done [OF assms(1)] same_queue_def)
  ultimately show ?thesis using r(2) by (auto simp: same_rate_def)
next
  case False
  then have "\<not> (case newest (rates (dbase s)) of None \<Rightarrow> False | Some r \<Rightarrow> same_rate source rate gross fee nd v r)" by (auto split: option.splits)
  then have "s' = s\<lparr>calls := Suc (Suc (Suc (Suc (calls s)))), dbase := sql_insert_rate ts rate gross fee nd v (text_of source) (dbase s)\<rparr>"
    using assms(3) by (simp add: store_record_rate_def query_newest_done [OF assms(1)] write_once_done [OF assms(1)])
  then show ?thesis using d_eq_refl [OF assms(2)] by (auto simp: sql_insert_rate_def same_queue_def)
qed

lemma record_meta_done:
  "\<forall>n. io n = Done \<Longrightarrow> store_record_pool_meta io m f so ra g e nd v ts s = (rc, s') \<Longrightarrow> same_queue s s'"
  by (auto simp: store_record_pool_meta_def write_once_done sql_pool_meta_def same_queue_def)

lemma record_template_rates:
  assumes "\<forall>n. io n = Done" and "store_record_template io t s = (rc, s')"
  shows "same_queue s s'"
  using assms(2)
  by (auto simp: store_record_template_def query_newest_done [OF assms(1)] write_once_done [OF assms(1)] exec_done [OF assms(1)] Let_def
      sql_refresh_template_def sql_insert_template_def sql_trim_templates_def same_queue_def split: option.splits if_splits)

lemma stage_rows_done:
  assumes "\<forall>n. io n = Done"
  shows "\<exists>s'. stage_rows io h ds s = (True, s') \<and> same_queue s s'"
proof (induction ds arbitrary: s)
  case (Cons p ds)
  obtain w v where p: "p = (w, v)" by (cases p)
  have "rates (sql_stage h w v d) = rates d" for d by (simp add: sql_stage_def)
  then show ?case using Cons.IH [of "s\<lparr>calls := Suc (calls s), dbase := sql_stage h w v (dbase s)\<rparr>"] assms
    by (auto simp: p sql_exec_def sql_step_def Let_def same_queue_def)
qed simp

lemma stage_done:
  assumes "\<forall>n. io n = Done" and "saved s = None" and "store_stage_block_fractions io h ds s = (rc, s')"
  shows "same_queue s s'"
proof -
  let ?s1 = "s\<lparr>saved := Some (dbase s), calls := Suc (Suc (calls s))\<rparr>"
  obtain t where t: "stage_rows io (the h) (writable ds) ?s1 = (True, t)" "same_queue ?s1 t"
    using stage_rows_done [OF assms(1), of "the h" "writable ds" ?s1] by auto
  show ?thesis using assms t
    by (auto simp: store_stage_block_fractions_def txn_begin_def txn_commit_def sql_begin_def sql_commit_def sql_prepare_def same_queue_def Let_def split: if_splits)
qed


text \<open>A refresh leaves the price it set on record.\<close>

lemma refresh_logs:
  assumes "\<forall>n. io n = Done" and "rate_logged x" and "refresh_pps_rate io c now now_s t x = Ok x'"
  shows "rate_logged x'"
proof -
  obtain target where tg: "template_target t = Ok target" using assms(3) by (auto simp: refresh_pps_rate_def bindR_Ok_iff)
  define nd where "nd = target_to_diff target"
  define x0 where "x0 = (if d_gt nd (Fin 0) \<and> d_isfinite nd then x\<lparr>sx_net_difficulty := nd\<rparr> else x)"
  obtain dps x1 where o: "observed_diff_per_sec now x0 = (dps, x1)" by fastforce
  have st: "sx_store x1 = sx_store x" using o by (auto simp: observed_diff_per_sec_def x0_def Let_def split: if_splits)
  obtain g rate where g: "priced c (bt_value t) nd dps = (g, rate)" by fastforce
  let ?acc = "pc_pool_mode c = ''pps-classic''"
  let ?source = "Some (if d_gt (pc_pps_sats_per_diff c) (Fin 0) then ''override'' else ''derived'')"
  let ?gross = "if 0 < bt_value t \<and> d_isfinite nd \<and> d_gt nd (Fin 0) then d_div (d_of_int (bt_value t)) nd else Fin 0"
  let ?eff = "if d_gt ?gross (Fin 0) then d_mul (d_sub (Fin 1) (d_div (effective_pps_rate c (bt_value t) nd) ?gross)) (Fin 10000) else Fin 0"
  obtain rc s1 where m: "store_record_pool_meta io (Some (pc_pool_mode c)) (pc_fee_bps c) ?source (if ?acc then rate else Fin 0) ?gross (if ?acc then ?eff else Fin 0)
      nd (bt_value t) now_s (sx_store (x1\<lparr>sx_gated := g, sx_pps_rate := (if ?acc then rate else Fin 0)\<rparr>)) = (rc, s1)" by fastforce
  obtain rc2 s2 where r: "(if ?acc then store_record_rate io ?source rate ?gross (pc_fee_bps c) nd (bt_value t) now_s s1 else (0, s1)) = (rc2, s2)" by fastforce
  obtain st' where x': "x' = x1\<lparr>sx_gated := g, sx_pps_rate := (if ?acc then rate else Fin 0), sx_store := snd (store_record_template io st' s2)\<rparr>"
    using assms(3) unfolding refresh_pps_rate_def tg bindR.simps Let_def nd_def [symmetric] unfolding x0_def [symmetric] o prod.case g m unfolding prod.case r
    by (auto simp: bindR_Ok_iff case_prod_beta)
  obtain rc3 s3 where tm: "store_record_template io st' s2 = (rc3, s3)" by fastforce
  have s1: "same_queue (sx_store x) s1" using record_meta_done [OF assms(1) m] st by simp
  have nn: "rate \<noteq> NaN" by (rule priced_number [OF g])
  have "on_record (if ?acc then rate else Fin 0) (dbase s2) \<and> same_queue s1 s2"
    using r record_rate_done [OF assms(1) nn] by (fastforce simp: on_record_def split: if_splits)
  moreover note record_template_rates [OF assms(1) tm]
  ultimately have "on_record (if ?acc then rate else Fin 0) (dbase s3)" "same_queue (sx_store x) s3"
    using s1 by (auto intro: on_record_mono same_queue_trans simp: same_queue_def)
  then show ?thesis using nn by (intro rate_logged_same [OF assms(2)]) (simp_all add: x' tm)
qed

text \<open>A report changes neither the price nor the record of prices, and prices a share at the price in force.\<close>

lemma enqueue_same: "enqueue e s = (ok, s') \<Longrightarrow> ring_ok s \<Longrightarrow> ring_ok s' \<and> dbase s' = dbase s \<and> saved s' = saved s \<and> set (ring_contents s') \<subseteq> insert e (set (ring_contents s))"
  using push_event [of e s ok s'] by (auto simp: enqueue_def split: if_splits)

lemma reject_same:
  "store_record_reject w ts rs s = (ok, s') \<Longrightarrow> ring_ok s \<Longrightarrow> dbase s' = dbase s \<and> saved s' = saved s \<and> ring_ok s' \<and>
     (\<forall>e \<in> set (ring_contents s'). e \<in> set (ring_contents s) \<or> se_kind e \<noteq> EV_SHARE)"
  by (auto simp: store_record_reject_def Let_def EV_SHARE_def EV_REJECT_def split: if_splits prod.splits option.splits dest!: enqueue_same)

lemma block_same:
  "store_record_block ts ht h w a rw fee stt why win s = (ok, s') \<Longrightarrow> ring_ok s \<Longrightarrow> dbase s' = dbase s \<and> saved s' = saved s \<and> ring_ok s' \<and>
     (\<forall>e \<in> set (ring_contents s'). e \<in> set (ring_contents s) \<or> se_kind e \<noteq> EV_SHARE)"
  by (auto simp: store_record_block_def count_error_def Let_def EV_SHARE_def EV_BLOCK_def split: if_splits prod.splits option.splits dest!: enqueue_same)

lemma share_same:
  assumes "on_share_cb c w a ts diff blk h x = Ok x'" and "ring_ok (sx_store x)"
  shows "sx_pps_rate x' = sx_pps_rate x \<and> dbase (sx_store x') = dbase (sx_store x) \<and> saved (sx_store x') = saved (sx_store x) \<and> ring_ok (sx_store x') \<and>
    (\<forall>e \<in> set (ring_contents (sx_store x')). e \<in> set (ring_contents (sx_store x)) \<or> se_kind e \<noteq> EV_SHARE \<or> se_rate e = Fin 0 \<or> se_rate e = sx_pps_rate x)"
proof -
  obtain delta rate where q: "sx_pps_rate x' = sx_pps_rate x \<and> ring_ok (sx_store x') \<and> dbase (sx_store x') = dbase (sx_store x) \<and> saved (sx_store x') = saved (sx_store x)"
    "rate \<noteq> Fin 0 \<longrightarrow> rate = sx_pps_rate x" "let q = ring_contents (sx_store x); free = ring_cap (sx_store x) - length q; q' = ring_contents (sx_store x') in
      (free = 0 \<longrightarrow> q' = q) \<and> (free = 1 \<longrightarrow> q' = q @ [share_event w a ts diff blk h delta rate]) \<and>
      (2 \<le> free \<longrightarrow> q' = q @ share_event w a ts diff blk h delta rate # (if 0 < delta then [credit_event w a ts delta] else []))"
    using priced_queue [OF assms(2), of c w a ts diff blk h] assms(1) by auto
  have "ring_contents (sx_store x') \<in> {ring_contents (sx_store x), ring_contents (sx_store x) @ [share_event w a ts diff blk h delta rate],
      ring_contents (sx_store x) @ share_event w a ts diff blk h delta rate # (if 0 < delta then [credit_event w a ts delta] else [])}"
    using q(3) unfolding Let_def by (cases "ring_cap (sx_store x) - length (ring_contents (sx_store x))" rule: nat.exhaust) (auto simp: Suc_le_eq)
  then show ?thesis using q(1,2) by (auto simp: share_event_def credit_event_def EV_SHARE_def EV_CREDIT_def)
qed

lemma report_keeps:
  assumes "\<forall>n. io n = Done" and "rate_logged x" and "report io c e x = Ok x'"
  shows "rate_logged x'"
proof (cases e)
  case (EvShare w a ts diff blk h)
  then have "on_share_cb c w a ts diff blk h x = Ok x'" using assms(3) by simp
  from share_same [OF this] assms(2) show ?thesis by (fastforce simp: rate_logged_def on_record_def)
next
  case (EvFractions h ds)
  obtain rc s' where s': "store_stage_block_fractions io (Some h) ds (sx_store x) = (rc, s')" by fastforce
  show ?thesis
  proof (cases "ds = []")
    case False
    have "same_queue (sx_store x) s'" using stage_done [OF assms(1) _ s'] assms(2) by (simp add: rate_logged_def)
    moreover have "x' = x\<lparr>sx_store := s'\<rparr>" using EvFractions False assms(3) s' by (simp add: on_window_fractions_cb_def)
    ultimately show ?thesis using assms(2) by (intro rate_logged_same [OF assms(2)]) (auto simp: rate_logged_def same_queue_def intro: on_record_mono)
  qed (use EvFractions assms in \<open>simp add: on_window_fractions_cb_def\<close>)
next
  case (EvReject w ts r)
  obtain ok s' where s': "store_record_reject (Some w) ts (Some r) (sx_store x) = (ok, s')" by fastforce
  then have "x' = x\<lparr>sx_store := s'\<rparr>" using EvReject assms(3) by (auto simp: on_reject_cb_def)
  then show ?thesis using assms(2) reject_same [OF s'] by (auto simp: rate_logged_def)
next
  case (EvBlockFound w a ts ht h rw fee acc why)
  obtain ok s' where s': "store_record_block ts (sint ht) (Some h) (Some w) (Some a) rw fee (if acc then STORE_BLOCK_PENDING else STORE_BLOCK_REJECTED)
      (if acc then None else Some why) (block_window c (sx_net_difficulty x)) (sx_store x) = (ok, s')" by fastforce
  then have "x' = x\<lparr>sx_store := s'\<rparr>" using EvBlockFound assms(3) by (auto simp: on_block_found_cb_def)
  then show ?thesis using assms(2) block_same [OF s'] by (auto simp: rate_logged_def)
qed (use assms in auto)


section \<open>A round of the watcher\<close>

definition new_tip_of :: "bitcoind_template \<Rightarrow> watcher \<Rightarrow> bool" where
  "new_tip_of t w \<longleftrightarrow> bt_height t \<noteq> wt_height w \<or> bt_prev_hash_hex t \<noteq> wt_prev w"

text \<open>What a round leaves of the watcher when it publishes nothing.\<close>

definition idle_round :: "watcher \<Rightarrow> watcher \<Rightarrow> bool" where
  "idle_round w w' \<longleftrightarrow> wt_jobs w' = wt_jobs w \<and> wt_height w' = wt_height w \<and> wt_prev w' = wt_prev w \<and> wt_built_ms w' = wt_built_ms w"

lemma reconcile_keeps: "reconcile_blocks io agg c gbh now_s tip w = Ok w' \<Longrightarrow> idle_round w w' \<and> wt_lpid w' = wt_lpid w \<and> wt_errs w' = wt_errs w \<and>
    sx_net_difficulty (wt_ctx w') = sx_net_difficulty (wt_ctx w)"
  by (auto simp: reconcile_blocks_def bindR_Ok_iff idle_round_def)

lemma rebuild_cases:
  assumes "rebuild io agg c now up now_s t new_tip w = Ok (go, w')"
  obtains "\<not> go" and "idle_round w w'" and "wt_lpid w' = wt_lpid w" and "wt_errs w' = wt_errs w"
  | job j s where "go" and "build_job_from_template now up t = Ok job"
      and "attach_pplns_window io agg c (sx_net_difficulty (wt_ctx w)) t job (sx_store (wt_ctx w)) = Ok (Some j, s)"
      and "wt_jobs w' = wt_jobs w @ [(j, new_tip)]" and "wt_height w' = bt_height t" and "wt_prev w' = c_copy 65 (bt_prev_hash_hex t)" and "wt_built_ms w' = now"
      and "wt_errs w' = wt_errs w"
proof (cases "build_job_from_template now up t")
  case (Ok job)
  then obtain j s where a: "attach_pplns_window io agg c (sx_net_difficulty (wt_ctx w)) t job (sx_store (wt_ctx w)) = Ok (j, s)"
    using assms by (auto simp: rebuild_def bindR_Ok_iff)
  show ?thesis
  proof (cases j)
    case None
    then show ?thesis using assms that(1) Ok a by (auto simp: rebuild_def idle_round_def)
  next
    case (Some j')
    then show ?thesis using assms that(2) [OF _ Ok] Ok a by (auto simp: rebuild_def bindR_Ok_iff)
  qed
qed (use assms that(1) in \<open>auto simp: rebuild_def idle_round_def\<close>)

text \<open>
  C31: an answer of the node publishes at most one job, the one built from that template, and only when the
  tip changed or the last job is older than thirty seconds; miners are told to drop their work exactly
  when the tip changed. When a job was due but could not be built or paid, nothing of the watcher moves:
  it keeps the long-poll id of the template it already holds and asks again at once, without the pause
  that failed requests get.
\<close>

theorem watcher_round:
  assumes "watcher_step io agg c gbh now up now_s (Some t) w = Ok w'"
  shows "wt_errs w' = 0 \<and>
    (idle_round w w' \<and> (new_tip_of t w \<or> 30000 < now - wt_built_ms w \<longrightarrow> wt_lpid w' = wt_lpid w \<and> (wt_lpid w \<noteq> [] \<longrightarrow> watcher_delay c w' = None)) \<or>
     (new_tip_of t w \<or> 30000 < now - wt_built_ms w) \<and>
     (\<exists>job j s s'. build_job_from_template now up t = Ok job \<and>
        attach_pplns_window io agg c (sx_net_difficulty (wt_ctx w)) t job s = Ok (Some j, s') \<and>
        wt_jobs w' = wt_jobs w @ [(j, new_tip_of t w)] \<and> wt_height w' = bt_height t \<and> wt_prev w' = c_copy 65 (bt_prev_hash_hex t) \<and> wt_built_ms w' = now \<and>
        wt_lpid w' = (case bt_longpollid t of None \<Rightarrow> [] | Some l \<Rightarrow> c_copy 128 l)))"
proof -
  define w1 where "w1 = w\<lparr>wt_errs := 0, wt_ctx := (wt_ctx w)\<lparr>sx_store := snd (store_record_node_tip io (bt_height t - 1) (Some (bt_prev_hash_hex t)) now_s now_s (sx_store (wt_ctx w)))\<rparr>\<rparr>"
  let ?new = "new_tip_of t w" and ?need = "new_tip_of t w \<or> 30000 < now - wt_built_ms w"
  let ?lp = "case bt_longpollid t of None \<Rightarrow> [] | Some l \<Rightarrow> c_copy 128 l"
  have n: "(bt_height t \<noteq> wt_height w1 \<or> bt_prev_hash_hex t \<noteq> wt_prev w1) = ?new" by (simp add: new_tip_of_def w1_def)
  have b: "wt_built_ms w1 = wt_built_ms w" by (simp add: w1_def)
  have "bindR (if ?new then reconcile_blocks io agg c gbh now_s (bt_height t - 1) w1 else Ok w1) (\<lambda>w.
    bindR (if ?need then rebuild io agg c now up now_s t ?new w else Ok (True, w)) (\<lambda>p. Ok (if fst p then (snd p)\<lparr>wt_lpid := ?lp\<rparr> else snd p))) = Ok w'"
    using assms unfolding watcher_step_def option.case Let_def case_prod_beta w1_def [symmetric] n b .
  then obtain w2 p where w: "(if ?new then reconcile_blocks io agg c gbh now_s (bt_height t - 1) w1 else Ok w1) = Ok w2"
    "(if ?need then rebuild io agg c now up now_s t ?new w2 else Ok (True, w2)) = Ok p" "Ok (if fst p then (snd p)\<lparr>wt_lpid := ?lp\<rparr> else snd p) = Ok w'"
    unfolding bindR_Ok_iff by blast
  obtain go w3 where p: "p = (go, w3)" by (cases p)
  have w': "w' = (if go then w3\<lparr>wt_lpid := ?lp\<rparr> else w3)" using w(3) p by (auto split: if_splits)
  have k: "idle_round w w2 \<and> wt_lpid w2 = wt_lpid w \<and> wt_errs w2 = 0 \<and> sx_net_difficulty (wt_ctx w2) = sx_net_difficulty (wt_ctx w)"
    using w(1) reconcile_keeps [of io agg c gbh now_s "bt_height t - 1" w1 w2] by (auto simp: w1_def idle_round_def split: if_splits)
  show ?thesis
  proof (cases ?need)
    case True
    then have r: "rebuild io agg c now up now_s t ?new w2 = Ok (go, w3)" using w(2) p by simp
    show ?thesis by (rule rebuild_cases [OF r]) (use k True w' in \<open>auto simp: idle_round_def watcher_delay_def\<close>)
  qed (use k w(2) w' p in \<open>auto simp: idle_round_def\<close>)
qed

definition demo_config :: proxy_config where
  "demo_config = proxy_config_defaults\<lparr>pc_pool_mode := ''pplns-coinbase'', pc_pplns_window_diff_multiple := Fin 5, pc_fee_bps := 0\<rparr>"

lemma demo_config_fields [simp]:
  "pc_pool_mode demo_config = ''pplns-coinbase''" "pc_pplns_window_diff_multiple demo_config = Fin 5" "pc_fee_bps demo_config = 0"
  "pc_operator_address demo_config = []" "pc_pplns_payout_floor_sats demo_config = COINBASE_DUST_SATS"
  by (simp_all add: demo_config_def proxy_config_defaults_def)

definition demo_block :: bitcoind_template where
  "demo_block = \<lparr>bt_height = 7, bt_prev_hash_hex = replicate 64 (CHR ''0''), bt_value = 1000000, bt_target_hex = replicate 64 (CHR ''0''), bt_bits = 0,
     bt_curtime = 0, bt_version = 0, bt_witness_commitment = None, bt_coinbasetxn_hex = None, bt_longpollid = Some ''lp2'', bt_txs = []\<rparr>"

definition bare_job :: stratum_job where
  "bare_job = stratum_job_new None 0 None 1000000 None 4 4 [] 0 0 None 7 [] None False 0"

lemma demo_pays:
  "\<exists>j. pay_window demo_config demo_block [\<lparr>we_worker = 2, we_address = ''b'', we_difficulty = Fin 6, we_owed = Fin 0\<rparr>] (Fin 6) bare_job = Ok (Some j) \<and>
     payees j \<noteq> [] \<and> payee_worker_ids j = [2]"
proof -
  let ?e = "\<lparr>we_worker = 2, we_address = ''b'', we_difficulty = Fin 6, we_owed = Fin 0\<rparr>"
  have sw: "sound_window [6] 6" by (simp add: sound_window_def)
  obtain ps r where s: "pplns_split_window 1000000 0 False [entry_claim ?e] (Fin 6) COINBASE_DUST_SATS COINBASE_MAX_PAYOUT_OUTPUTS = Ok (ps, r)"
    using pplns_split_succeeds [OF sw, of "[entry_claim ?e]" COINBASE_MAX_PAYOUT_OUTPUTS 1000000 0 False 0 COINBASE_DUST_SATS]
    by (auto simp: entry_claim_def COINBASE_MAX_PAYOUT_OUTPUTS_def split_fee_rule_def)
  note sm = pplns_split_sum [OF s]
  have fee: "sp_fee r = 0" and bf: "sp_below_floor r = length (filter (\<lambda>p. pe_sats p < payout_floor COINBASE_DUST_SATS) ps)"
    using s by (auto elim!: pplns_split_Ok simp: split_fee_rule_def)
  obtain p where p: "ps = [p]" "pe_sats p = 1000000" using sm fee by (cases ps) (auto simp: entry_claim_def)
  have b: "sp_below_floor r = 0" using bf p by (simp add: payout_floor_def COINBASE_DUST_SATS_def)
  let ?slots = "coinbase_expected_payout_slots (tightest_coinbase_budget demo_config) None (map cl_address [entry_claim ?e])"
  obtain order where o: "pplns_order_claims [entry_claim ?e] ?slots (Some ps) COINBASE_DUST_SATS = Some order" "distinct order" "set order = {..<length [entry_claim ?e]}"
    by (rule pplns_order_claims_cases [of "[entry_claim ?e]" ?slots "Some ps" COINBASE_DUST_SATS]) auto
  have "order = [0]" using o(2,3) by (cases order; cases "tl order") (auto simp: lessThan_Suc)
  then show ?thesis using s o(1) b
    by (simp add: pay_window_def window_value_def demo_block_def stratum_job_set_window_def entry_claim_def p)
qed


definition demo_ctx :: server_ctx where
  "demo_ctx = \<lparr>sx_store = demo_store, sx_pps_rate = Fin 0, sx_net_difficulty = Fin 0, sx_diff_accum = Fin 0, sx_diff_window_ms = 0, sx_diff_per_sec = Fin 0, sx_gated = False\<rparr>"

definition pps_config :: proxy_config where
  "pps_config = proxy_config_defaults\<lparr>pc_pool_mode := ''pps-classic'', pc_pps_sats_per_diff := Fin 2\<rparr>"

lemma demo_store_ring: "ring_ok demo_store" "ring_contents demo_store = []" "ring_cap demo_store = 4" "saved demo_store = None"
  by (simp_all add: ring_ok_def ring_contents_def ring_cap_def demo_store_def store_open_def)

lemma three_at_two: "share_credit pps_config (Fin 2) (Fin 3) = Ok (6, Fin 2)"
proof -
  have "d_mul (Fin 3) (Fin 2) = Fin 6" using d_of_int_exact [of 6] by (simp add: d_of_int_def)
  then show ?thesis by (simp add: share_credit_def pps_config_def proxy_config_defaults_def d_gt_def chk64_def i64_ok_def rat_trunc_def)
qed

theorem share_priced_witness:
  "\<exists>x'. on_share_cb pps_config ''w'' ''a'' 1 (Fin 3) False ''h'' (demo_ctx\<lparr>sx_pps_rate := Fin 2\<rparr>) = Ok x' \<and>
     ring_contents (sx_store x') = [share_event ''w'' ''a'' 1 (Fin 3) False ''h'' 6 (Fin 2), credit_event ''w'' ''a'' 1 6]"
proof -
  have "ring_ok (sx_store (demo_ctx\<lparr>sx_pps_rate := Fin 2\<rparr>))" by (simp add: demo_ctx_def demo_store_ring)
  from share_priced [OF this, of pps_config "''w''" "''a''" 1 "Fin 3" False "''h''"] show ?thesis
    by (auto simp: demo_ctx_def demo_store_ring three_at_two Let_def)
qed

lemma demo_refresh: "\<exists>x'. refresh_pps_rate (\<lambda>n. Done) pps_config 5 5 demo_block demo_ctx = Ok x' \<and> sx_pps_rate x' = Fin 2"
proof -
  have h: "hex_to_bytes_display (replicate 64 (CHR ''0'')) 32 = Some (replicate 32 0)" by code_simp
  have "d_gt PInf (Fin 0)" by (simp add: d_gt_def)
  have t: "template_target demo_block = Ok (replicate 32 0)" by (simp add: template_target_def demo_block_def h)
  have nd: "target_to_diff (replicate 32 0) = PInf" by code_simp
  have p: "priced pps_config 1000000 PInf (Fin 0) = (False, Fin 2)"
    by (simp add: priced_def effective_pps_rate_def pps_rate_apply_issuance_ceiling_def pps_config_def proxy_config_defaults_def d_gt_def)
  have v: "bt_value demo_block = 1000000" "bt_coinbasetxn_hex demo_block = None" "bt_txs demo_block = []" by (simp_all add: demo_block_def)
  have m: "pc_pool_mode pps_config = ''pps-classic''" by (simp add: pps_config_def)
  show ?thesis by (simp add: refresh_pps_rate_def t nd Let_def observed_diff_per_sec_def demo_ctx_def p v m case_prod_beta)
qed


definition demo_watcher :: watcher where
  "demo_watcher = \<lparr>wt_lpid = ''lp1'', wt_errs = 0, wt_height = 7, wt_prev = replicate 64 (CHR ''0''), wt_built_ms = 0, wt_gbh = 0, wt_ctx = demo_ctx, wt_jobs = []\<rparr>"

theorem watcher_round_witness:
  "\<exists>w'. watcher_step (\<lambda>n. Done) plain_sum demo_config (\<lambda>n h. Answer ''h1'') 60000 0 0 (Some demo_block) demo_watcher = Ok w' \<and>
     wt_jobs w' = [] \<and> wt_lpid w' = ''lp1'' \<and> watcher_delay demo_config w' = None"
proof -
  have h: "hex_to_bytes_display (replicate 64 (CHR ''0'')) 32 = Some (replicate 32 0)" by code_simp
  have t: "template_target demo_block = Ok (replicate 32 0)" by (simp add: template_target_def demo_block_def h)
  obtain job where "build_job_from_template 60000 0 demo_block = Ok job" using t by (simp add: build_job_from_template_def demo_block_def h)
  then have "\<exists>w'. watcher_step (\<lambda>n. Done) plain_sum demo_config (\<lambda>n h. Answer ''h1'') 60000 0 0 (Some demo_block) demo_watcher = Ok w' \<and> wt_jobs w' = []"
    by (simp add: watcher_step_def case_prod_beta Let_def rebuild_def attach_pplns_window_def demo_watcher_def demo_block_def demo_ctx_def d_gt_def)
  then obtain w' where w: "watcher_step (\<lambda>n. Done) plain_sum demo_config (\<lambda>n h. Answer ''h1'') 60000 0 0 (Some demo_block) demo_watcher = Ok w'" "wt_jobs w' = []" by blast
  have "30000 < 60000 - wt_built_ms demo_watcher" "wt_lpid demo_watcher = ''lp1''" "wt_jobs demo_watcher = []" by (simp_all add: demo_watcher_def)
  then have "wt_lpid w' = ''lp1''" "watcher_delay demo_config w' = None" using watcher_round [OF w(1)] w(2) by auto
  then show ?thesis using w by blast
qed

end
