(* ===== verification/Node.thy ===== *)
theory Node
  imports Pool
begin

text \<open>
  The client of the node (\<^verbatim>\<open>src/bitcoind.c\<close>): the buffer a response is collected in, the envelope of a
  JSON-RPC call, and what the pool reads out of the answers to getblocktemplate, submitblock,
  getblockhash and getblockchaininfo. The transfer itself and the JSON parser are arguments; strings end
  at their first NUL. The weight of a transaction, which nothing reads, is left out.
\<close>

section \<open>Collecting a response\<close>

definition RESP_INITIAL_CAP :: nat where
  "RESP_INITIAL_CAP = 65536"

definition RESP_MAX_CAP :: nat where
  "RESP_MAX_CAP = 33554432"

record resp_buf =
  rb_buf :: string
  rb_cap :: nat
  rb_oom :: bool

text \<open>The loop that doubles the capacity, which is never zero; \<open>None\<close> when the response is too large.\<close>

function resp_grow :: "nat \<Rightarrow> nat \<Rightarrow> nat option" where
  "resp_grow need newcap =
     (if need \<le> newcap then Some newcap
      else if RESP_MAX_CAP \<le> newcap then None
      else if newcap = 0 then None
      else resp_grow need (if RESP_MAX_CAP < newcap * 2 then RESP_MAX_CAP else newcap * 2))"
  by pat_completeness auto
termination
  by (relation "measure (\<lambda>(need, newcap). RESP_MAX_CAP - newcap)") (auto simp: RESP_MAX_CAP_def)

declare resp_grow.simps [simp del]

definition write_cb :: "string \<Rightarrow> resp_buf \<Rightarrow> nat \<times> resp_buf" where
  "write_cb chunk r =
     (if rb_oom r then (0, r)
      else
        let need = length (rb_buf r) + length chunk + 1;
            cap = (if need > rb_cap r then resp_grow need (if rb_cap r \<noteq> 0 then rb_cap r else RESP_INITIAL_CAP) else Some (rb_cap r))
        in (case cap of
              None \<Rightarrow> (0, r\<lparr>rb_oom := True\<rparr>)
            | Some c \<Rightarrow> (length chunk, r\<lparr>rb_buf := rb_buf r @ chunk, rb_cap := c\<rparr>)))"

text \<open>The transfer: libcurl hands over the pieces until one is not taken.\<close>

fun receive :: "string list \<Rightarrow> resp_buf \<Rightarrow> bool \<times> resp_buf" where
  "receive [] r = (True, r)"
| "receive (c # cs) r = (let (n, r') = write_cb c r in if n \<noteq> length c then (False, r') else receive cs r')"

section \<open>Calls\<close>

datatype reply = CurlFailed string | TooLarge | Http int string

datatype 'a rpc = Failed int string | Got 'a

definition rpc_result :: "nat \<Rightarrow> json \<Rightarrow> json rpc" where
  "rpc_result errlen body_json =
     (case obj_get (Some body_json) ''result'' of
        None \<Rightarrow> Failed (-15) (c_copy errlen ''missing result'')
      | Some r \<Rightarrow> Got r)"

definition rpc_call :: "(json \<Rightarrow> reply) \<Rightarrow> (string \<Rightarrow> json option) \<Rightarrow> nat \<Rightarrow> string \<Rightarrow> json option \<Rightarrow> json rpc" where
  "rpc_call net parse errlen meth params =
     (case net (JObj [(''jsonrpc'', JStr ''2.0''), (''id'', JStr ''proxy''), (''method'', JStr meth),
                      (''params'', case params of None \<Rightarrow> JArr [] | Some p \<Rightarrow> p)]) of
        CurlFailed m \<Rightarrow> Failed (-10) (c_copy errlen (''curl: '' @ m))
      | TooLarge \<Rightarrow> Failed (-11) (c_copy errlen ''response too large'')
      | Http code body \<Rightarrow>
          if code \<noteq> 200 \<and> code \<noteq> 500 then Failed (-12) (c_copy errlen (''http '' @ dec_int code @ '': '' @ take 200 body))
          else (case parse body of
                  None \<Rightarrow> Failed (-13) (c_copy errlen ''json parse failed'')
                | Some body_json \<Rightarrow>
                    (case obj_get (Some body_json) ''error'' of
                       None \<Rightarrow> rpc_result errlen body_json
                     | Some e \<Rightarrow>
                         if e = JNull then rpc_result errlen body_json
                         else Failed (-14) (c_copy errlen (''rpc error: '' @
                           (case valuestring (obj_get (Some e) ''message'') of None \<Rightarrow> ''unknown rpc error'' | Some m \<Rightarrow> m))))))"

definition gbt_params :: "string option \<Rightarrow> json" where
  "gbt_params lpid =
     JArr [JObj ([(''rules'', JArr [JStr ''segwit'']), (''capabilities'', JArr [JStr ''coinbasetxn'', JStr ''longpoll''])] @
       (if c_nonempty lpid then [(''longpollid'', JStr (the lpid))] else []))]"

section \<open>Templates\<close>

text \<open>\<open>strtoul\<close> in base 16: the value and the characters read.\<close>

definition strtoul16 :: "string \<Rightarrow> int \<times> nat" where
  "strtoul16 s =
     (let w = length (takeWhile is_space s); r = drop w s;
          g = (if r \<noteq> [] \<and> hd r \<in> {CHR ''+'', CHR ''-''} then 1 else 0); r1 = drop g r;
          p = (if has_word ''0x'' r1 \<and> drop 2 r1 \<noteq> [] \<and> is_hex (r1 ! 2) then 2 else 0);
          ds = takeWhile is_hex (drop p r1); v = digits_val 16 ds
      in if ds = [] then (0, 0)
         else (if 2 ^ 64 \<le> v then 2 ^ 64 - 1 else if g = 1 \<and> hd r = CHR ''-'' then (- v) mod 2 ^ 64 else v, w + g + p + length ds))"

definition hex_to_u32 :: "string \<Rightarrow> u32 option" where
  "hex_to_u32 hex = (let (v, n) = strtoul16 hex in if drop n hex = [] then Some (word_of_int v) else None)"

definition copy_hex64 :: "string \<Rightarrow> string" where
  "copy_hex64 src = take 64 src"

fun number :: "json option \<Rightarrow> double option" where
  "number (Some (JNum d)) = Some d"
| "number _ = None"

fun is_obj :: "json option \<Rightarrow> bool" where
  "is_obj (Some (JObj kvs)) = True"
| "is_obj _ = False"

text \<open>The conversions of a \<open>double\<close> to \<open>int\<close> and to \<open>uint32_t\<close>, undefined out of range.\<close>

definition d_to_range :: "int \<Rightarrow> int \<Rightarrow> double \<Rightarrow> int res" where
  "d_to_range lo hi d = (case d of Fin q \<Rightarrow> if lo \<le> rat_trunc q \<and> rat_trunc q \<le> hi then Ok (rat_trunc q) else UB | _ \<Rightarrow> UB)"

definition d_to_i32 :: "double \<Rightarrow> int res" where
  "d_to_i32 = d_to_range (- (2 ^ 31)) (2 ^ 31 - 1)"

definition d_to_u32 :: "double \<Rightarrow> int res" where
  "d_to_u32 = d_to_range 0 (2 ^ 32 - 1)"

definition num_or_zero :: "json option \<Rightarrow> int res" where
  "num_or_zero j = (case number j of None \<Rightarrow> Ok 0 | Some d \<Rightarrow> d_to_i64 d)"

fun parse_txs :: "nat \<Rightarrow> nat \<Rightarrow> json list \<Rightarrow> bitcoind_tx list rpc res" where
  "parse_txs errlen i [] = Ok (Got [])"
| "parse_txs errlen i (tx # txs) =
     (case valuestring (obj_get (Some tx) ''data'') of
        None \<Rightarrow> Ok (Failed (-23) (c_copy errlen (''tx['' @ dec i @ ''] missing data'')))
      | Some data \<Rightarrow>
          bindR (num_or_zero (obj_get (Some tx) ''fee'')) (\<lambda>fee.
          bindR (parse_txs errlen (i + 1) txs) (\<lambda>r.
            Ok (case r of
                  Failed rc e \<Rightarrow> Failed rc e
                | Got ts \<Rightarrow> Got (\<lparr>bx_data_hex = Some data,
                    bx_txid_hex = (case valuestring (obj_get (Some tx) ''txid'') of None \<Rightarrow> [] | Some x \<Rightarrow> copy_hex64 x), bx_fee = fee\<rparr> # ts)))))"

text \<open>The coinbase of the node and the value of the block, from whichever of the two it gave.\<close>

definition parse_reward :: "nat \<Rightarrow> json option \<Rightarrow> (string option \<times> int) rpc res" where
  "parse_reward errlen r =
     (case number (obj_get r ''coinbasevalue'') of
        Some d \<Rightarrow> bindR (d_to_i64 d) (\<lambda>v. Ok (Got (None, v)))
      | None \<Rightarrow>
          (case valuestring (obj_get (obj_get r ''coinbasetxn'') ''data'') of
             None \<Rightarrow> Ok (Failed (-11) (c_copy errlen ''coinbasetxn missing data''))
           | Some data \<Rightarrow>
               bindR (case number (obj_get (obj_get r ''coinbasetxn'') ''fee'') of None \<Rightarrow> Ok 0 | Some d \<Rightarrow> d_to_i64 (d_neg d)) (\<lambda>v.
                 Ok (Got (Some data, v)))))"

text \<open>The time of the block: not before the minimum the node gives.\<close>

definition parse_time :: "double \<Rightarrow> json option \<Rightarrow> u32 res" where
  "parse_time d jmt =
     bindR (d_to_u32 d) (\<lambda>ct. bindR (num_or_zero jmt) (\<lambda>mt.
       Ok (if mt > 0 \<and> ct < mt then word_of_int mt else word_of_int ct)))"

definition bitcoind_parse_template :: "nat \<Rightarrow> json option \<Rightarrow> bitcoind_template rpc res" where
  "bitcoind_parse_template errlen r =
     (let fail = (\<lambda>rc m. Ok (Failed rc (c_copy errlen m))) in
      if \<not> is_obj r then fail (-2) ''result is not an object''
      else case number (obj_get r ''height'') of None \<Rightarrow> fail (-3) ''missing height''
      | Some h \<Rightarrow> (case valuestring (obj_get r ''previousblockhash'') of None \<Rightarrow> fail (-4) ''missing previousblockhash''
      | Some prev \<Rightarrow>
        if number (obj_get r ''coinbasevalue'') = None \<and> \<not> is_obj (obj_get r ''coinbasetxn'') then fail (-5) ''missing coinbasevalue/coinbasetxn''
        else (case valuestring (obj_get r ''target'') of None \<Rightarrow> fail (-6) ''missing target''
      | Some target \<Rightarrow> (case valuestring (obj_get r ''bits'') of None \<Rightarrow> fail (-7) ''missing bits''
      | Some bits \<Rightarrow> (case number (obj_get r ''curtime'') of None \<Rightarrow> fail (-8) ''missing curtime''
      | Some ct \<Rightarrow> (case number (obj_get r ''version'') of None \<Rightarrow> fail (-9) ''missing version''
      | Some v \<Rightarrow>
        bindR (d_to_i32 h) (\<lambda>height.
        bindR (parse_reward errlen r) (\<lambda>rw.
          case rw of Failed rc e \<Rightarrow> Ok (Failed rc e)
          | Got (cbtxn, val) \<Rightarrow> (case hex_to_u32 bits of None \<Rightarrow> fail (-10) ''bad bits hex''
          | Some nb \<Rightarrow>
            bindR (d_to_i32 v) (\<lambda>version.
            bindR (parse_time ct (obj_get r ''mintime'')) (\<lambda>curtime.
            bindR (parse_txs errlen 0 (arr_items (obj_get r ''transactions''))) (\<lambda>txs.
              Ok (case txs of Failed rc e \<Rightarrow> Failed rc e
                  | Got ts \<Rightarrow> Got \<lparr>bt_height = height, bt_prev_hash_hex = copy_hex64 prev, bt_value = val, bt_target_hex = copy_hex64 target, bt_bits = nb,
                      bt_curtime = curtime, bt_version = word_of_int version, bt_witness_commitment = valuestring (obj_get r ''default_witness_commitment''),
                      bt_coinbasetxn_hex = cbtxn,
                      bt_longpollid = (let l = valuestring (obj_get r ''longpollid'') in if c_nonempty l then l else None), bt_txs = ts\<rparr>)))))))))))))"

definition bitcoind_get_block_template_lp :: "(json \<Rightarrow> reply) \<Rightarrow> (string \<Rightarrow> json option) \<Rightarrow> nat \<Rightarrow> string option \<Rightarrow> bitcoind_template rpc res" where
  "bitcoind_get_block_template_lp net parse errlen lpid =
     (case rpc_call net parse errlen ''getblocktemplate'' (Some (gbt_params lpid)) of
        Failed rc e \<Rightarrow> Ok (Failed rc e)
      | Got r \<Rightarrow> bitcoind_parse_template errlen (Some r))"

section \<open>Blocks\<close>

definition bitcoind_submit_block :: "(json \<Rightarrow> reply) \<Rightarrow> (string \<Rightarrow> json option) \<Rightarrow> nat \<Rightarrow> string \<Rightarrow> int \<times> string" where
  "bitcoind_submit_block net parse errlen hex =
     (case rpc_call net parse errlen ''submitblock'' (Some (JArr [JStr hex])) of
        Failed rc e \<Rightarrow> (rc, e)
      | Got r \<Rightarrow> if c_nonempty (valuestring (Some r)) then (-30, c_copy errlen (''rejected: '' @ the (valuestring (Some r)))) else (0, []))"

text \<open>\<open>strstr\<close>\<close>

definition contains :: "string \<Rightarrow> string \<Rightarrow> bool" where
  "contains w s \<longleftrightarrow> list_ex (\<lambda>i. take (length w) (drop i s) = w) [0..<Suc (length s)]"

definition BITCOIND_ERR_UNSUPPORTED :: int where
  "BITCOIND_ERR_UNSUPPORTED = -32"

definition bitcoind_get_block_hash :: "(json \<Rightarrow> reply) \<Rightarrow> (string \<Rightarrow> json option) \<Rightarrow> nat \<Rightarrow> nat \<Rightarrow> int \<Rightarrow> string rpc" where
  "bitcoind_get_block_hash net parse errlen cap ht =
     (if ht < 0 then Failed (-1) (c_copy errlen ''negative height'')
      else case rpc_call net parse errlen ''getblockhash'' (Some (JArr [JNum (d_of_int ht)])) of
        Failed rc e \<Rightarrow> Failed (if contains ''ethod not found'' e then BITCOIND_ERR_UNSUPPORTED else rc) e
      | Got r \<Rightarrow> if c_nonempty (valuestring (Some r)) then Got (c_copy cap (the (valuestring (Some r)))) else Failed (-30) (c_copy errlen ''getblockhash returned no hash''))"

definition bitcoind_get_chain :: "(json \<Rightarrow> reply) \<Rightarrow> (string \<Rightarrow> json option) \<Rightarrow> nat \<Rightarrow> nat \<Rightarrow> string rpc" where
  "bitcoind_get_chain net parse errlen cap =
     (case rpc_call net parse errlen ''getblockchaininfo'' None of
        Failed rc e \<Rightarrow> Failed rc e
      | Got r \<Rightarrow> let ch = valuestring (obj_get (Some r) ''chain'') in
          if c_nonempty ch then Got (c_copy cap (the ch)) else Failed (-30) (c_copy errlen ''getblockchaininfo has no `chain` field''))"

definition bitcoind_ping :: "(json \<Rightarrow> reply) \<Rightarrow> (string \<Rightarrow> json option) \<Rightarrow> nat \<Rightarrow> int" where
  "bitcoind_ping net parse errlen =
     (case rpc_call net parse errlen ''getblockchaininfo'' None of
        Got r \<Rightarrow> 0
      | Failed rc e \<Rightarrow> (case rpc_call net parse errlen ''getblocktemplate'' (Some (gbt_params None)) of Got r \<Rightarrow> 0 | Failed rc e \<Rightarrow> rc))"

text \<open>Which chain the pool is on and who says so.\<close>

definition resolve_network :: "(json \<Rightarrow> reply) \<Rightarrow> (string \<Rightarrow> json option) \<Rightarrow> proxy_config \<Rightarrow> string \<times> string" where
  "resolve_network net parse c =
     (case bitcoind_get_chain net parse 256 32 of
        Got chain \<Rightarrow> (chain, ''node'')
      | Failed rc e \<Rightarrow> (case coinbase_address_network (Some (pc_operator_address c)) of Some n \<Rightarrow> (n, ''inferred'') | None \<Rightarrow> (''unknown'', ''unknown'')))"

section \<open>A response is collected whole\<close>

lemma resp_grow_cases:
  assumes "0 < c" and "c \<le> RESP_MAX_CAP"
  shows "(case resp_grow need c of None \<Rightarrow> RESP_MAX_CAP < need | Some c' \<Rightarrow> need \<le> c' \<and> c' \<le> RESP_MAX_CAP)"
  using assms
proof (induction need c rule: resp_grow.induct)
  case (1 need c)
  show ?case
  proof (cases "need \<le> c \<or> RESP_MAX_CAP \<le> c")
    case False
    let ?c = "if RESP_MAX_CAP < c * 2 then RESP_MAX_CAP else c * 2"
    have "resp_grow need c = resp_grow need ?c" using False 1(2) by (subst resp_grow.simps) simp
    moreover have "0 < ?c" "?c \<le> RESP_MAX_CAP" using 1(2) by (auto simp: RESP_MAX_CAP_def)
    ultimately show ?thesis using 1(1) False 1(2) by simp
  qed (use 1(3) in \<open>auto simp: resp_grow.simps [of need c]\<close>)
qed

definition resp_ok :: "resp_buf \<Rightarrow> bool" where
  "resp_ok r \<longleftrightarrow> \<not> rb_oom r \<and> rb_cap r \<le> RESP_MAX_CAP \<and> (rb_cap r = 0 \<longrightarrow> rb_buf r = []) \<and> (rb_cap r \<noteq> 0 \<longrightarrow> length (rb_buf r) < rb_cap r)"

lemma write_cb_cases:
  assumes "resp_ok r"
  shows "(\<exists>c. write_cb chunk r = (length chunk, r\<lparr>rb_buf := rb_buf r @ chunk, rb_cap := c\<rparr>) \<and> length (rb_buf r @ chunk) < c \<and> c \<le> RESP_MAX_CAP) \<or>
    (write_cb chunk r = (0, r\<lparr>rb_oom := True\<rparr>) \<and> RESP_MAX_CAP \<le> length (rb_buf r @ chunk))"
proof (cases "length (rb_buf r) + length chunk + 1 > rb_cap r")
  case True
  let ?c = "if rb_cap r \<noteq> 0 then rb_cap r else RESP_INITIAL_CAP" and ?n = "length (rb_buf r) + length chunk + 1"
  have "0 < ?c" "?c \<le> RESP_MAX_CAP" using assms by (auto simp: resp_ok_def RESP_INITIAL_CAP_def RESP_MAX_CAP_def)
  note g = resp_grow_cases [OF this, of ?n]
  show ?thesis
  proof (cases "resp_grow ?n ?c")
    case None
    then show ?thesis using g True assms by (simp add: write_cb_def resp_ok_def)
  next
    case (Some c)
    then show ?thesis using g True assms by (intro disjI1 exI [of _ c]) (simp add: write_cb_def resp_ok_def)
  qed
next
  case False
  then show ?thesis using assms by (intro disjI1 exI [of _ "rb_cap r"]) (simp add: write_cb_def resp_ok_def)
qed

text \<open>
  A response is collected whole or not at all: as long as it fits 32 MiB with its terminator every piece is
  taken, the buffer holds exactly the pieces and never more than its capacity; a longer one ends the
  transfer.
\<close>

lemma response_bounded:
  assumes "resp_ok r"
  shows "(\<exists>c. receive cs r = (True, r\<lparr>rb_buf := rb_buf r @ concat cs, rb_cap := c\<rparr>) \<and> resp_ok (r\<lparr>rb_buf := rb_buf r @ concat cs, rb_cap := c\<rparr>)) \<or>
    (RESP_MAX_CAP \<le> length (rb_buf r @ concat cs) \<and> rb_oom (snd (receive cs r)) \<and> length (rb_buf (snd (receive cs r))) < RESP_MAX_CAP)"
  using assms
proof (induction cs arbitrary: r)
  case Nil
  then show ?case by (intro disjI1 exI [of _ "rb_cap r"]) simp
next
  case (Cons ch cs)
  consider c where "write_cb ch r = (length ch, r\<lparr>rb_buf := rb_buf r @ ch, rb_cap := c\<rparr>)" "length (rb_buf r @ ch) < c" "c \<le> RESP_MAX_CAP"
    | "write_cb ch r = (0, r\<lparr>rb_oom := True\<rparr>)" "RESP_MAX_CAP \<le> length (rb_buf r @ ch)"
    using write_cb_cases [OF Cons.prems, of ch] by blast
  then show ?case
  proof cases
    case 1
    let ?r = "r\<lparr>rb_buf := rb_buf r @ ch, rb_cap := c\<rparr>"
    have "resp_ok ?r" using Cons.prems 1 by (simp add: resp_ok_def)
    from Cons.IH [OF this] 1(1) show ?thesis by (auto simp: Let_def)
  next
    case 2
    have b: "length (rb_buf r) < RESP_MAX_CAP" using Cons.prems by (auto simp: resp_ok_def RESP_MAX_CAP_def)
    then have "ch \<noteq> []" using 2(2) by auto
    then show ?thesis using 2 b by simp
  qed
qed

section \<open>What is printed is parsed\<close>

lemma nibble32: "unat (x AND 0xf :: u32) = unat x mod 16"
proof -
  have t: "x AND 0xf = take_bit 4 x" by (simp add: take_bit_eq_mask mask_eq_exp_minus_1)
  show ?thesis unfolding t unsigned_take_bit_eq by (simp add: take_bit_eq_mod)
qed

lemma hex8_value: "digits_val 16 (hex8 v) = uint v"
proof -
  define f where "f k = unat v div 16 ^ k" for k
  have n: "unat (drop_bit (4 * k) v AND 0xf) = f k mod 16" for k
    unfolding nibble32 unat_drop_bit_eq unfolding drop_bit_eq_div f_def by (simp add: power_mult)
  have s: "f k = f (Suc k) * 16 + f k mod 16" for k
    by (simp add: f_def div_mult2_eq mult.commute [of 16])
  have "unat v < 2 ^ LENGTH(32)" by (rule unsigned_less)
  then have z: "f 8 = 0" by (simp add: f_def)
  have "hex8 v = map (\<lambda>k. hex_digit (f k mod 16)) [7, 6, 5, 4, 3, 2, 1, 0]" by (simp only: hex8_def n)
  moreover have "the (hex_nibble (hex_digit (f k mod 16))) = f k mod 16" for k by (simp add: hex_nibble_digit)
  ultimately have "digits_val 16 (hex8 v) = foldl (\<lambda>a k. a * 16 + int (f k mod 16)) 0 [7, 6, 5, 4, 3, 2, 1, 0]"
    by (simp add: digits_val_def)
  moreover have "int (f k) = int (f (Suc k)) * 16 + int (f k mod 16)" for k using s [of k] by (metis of_nat_add of_nat_mult of_nat_numeral)
  note this [of 7] this [of 6] this [of 5] this [of 4] this [of 3] this [of 2] this [of 1] this [of 0]
  ultimately have "digits_val 16 (hex8 v) = int (f 0)" using z by (simp flip: numeral_2_eq_2)
  then show ?thesis by (simp add: f_def)
qed

lemma hex_to_u32_hex8: "hex_to_u32 (hex8 v) = Some v"
proof -
  have h: "\<exists>n. c = hex_digit n \<and> n < 16" if "c \<in> set (hex8 v)" for c
  proof -
    have "unat (x AND 0xf :: u32) < 16" for x by (simp add: nibble32)
    then show ?thesis using that unfolding hex8_def by auto
  qed
  have "list_all (\<lambda>n. is_hex (hex_digit n) \<and> \<not> is_space (hex_digit n) \<and> hex_digit n \<notin> {CHR ''+'', CHR ''-''} \<and> lower (hex_digit n) \<noteq> CHR ''x'') [0..<16]"
    by code_simp
  then have d: "is_hex (hex_digit n) \<and> \<not> is_space (hex_digit n) \<and> hex_digit n \<notin> {CHR ''+'', CHR ''-''} \<and> lower (hex_digit n) \<noteq> CHR ''x''" if "n < 16" for n
    using that by (auto simp: list_all_iff)
  have all: "\<forall>c \<in> set (hex8 v). is_hex c \<and> \<not> is_space c \<and> c \<notin> {CHR ''+'', CHR ''-''} \<and> lower c \<noteq> CHR ''x''" using h d by metis
  have l: "length (hex8 v) = 8" by (simp add: hex8_def)
  then obtain a b r where e: "hex8 v = a # b # r" by (cases "hex8 v"; cases "tl (hex8 v)") auto
  have "takeWhile is_space (hex8 v) = []" "\<not> has_word ''0x'' (hex8 v)" "hd (hex8 v) \<notin> {CHR ''+'', CHR ''-''}" using all by (auto simp: e has_word_def)
  moreover have tw: "takeWhile is_hex (hex8 v) = hex8 v" using all by (simp add: takeWhile_eq_all_conv)
  moreover have "hex8 v \<noteq> []" by (simp add: e)
  moreover have "uint v < 2 ^ 64" using uint_lt2p [of v] by simp
  ultimately have "strtoul16 (hex8 v) = (uint v, 8)" using l by (simp add: strtoul16_def hex8_value Let_def tw)
  then show ?thesis using l by (simp add: hex_to_u32_def)
qed


text \<open>A template as the node spells it, with the minimum time it gives.\<close>

definition tx_json :: "bitcoind_tx \<Rightarrow> json" where
  "tx_json x = JObj [(''data'', JStr (text_of (bx_data_hex x))), (''txid'', JStr (bx_txid_hex x)), (''fee'', JNum (d_of_int (bx_fee x)))]"

definition template_json :: "int \<Rightarrow> bitcoind_template \<Rightarrow> json" where
  "template_json mintime t =
     JObj ([(''height'', JNum (d_of_int (bt_height t))), (''previousblockhash'', JStr (bt_prev_hash_hex t)), (''target'', JStr (bt_target_hex t)),
            (''bits'', JStr (hex8 (bt_bits t))), (''curtime'', JNum (d_of_int (uint (bt_curtime t)))), (''mintime'', JNum (d_of_int mintime)),
            (''version'', JNum (d_of_int (sint (bt_version t)))), (''transactions'', JArr (map tx_json (bt_txs t))),
            (case bt_coinbasetxn_hex t of
               None \<Rightarrow> (''coinbasevalue'', JNum (d_of_int (bt_value t)))
             | Some h \<Rightarrow> (''coinbasetxn'', JObj [(''data'', JStr h), (''fee'', JNum (d_neg (d_of_int (bt_value t))))]))] @
           (case bt_witness_commitment t of None \<Rightarrow> [] | Some w \<Rightarrow> [(''default_witness_commitment'', JStr w)]) @
           (case bt_longpollid t of None \<Rightarrow> [] | Some l \<Rightarrow> [(''longpollid'', JStr l)]))"

definition amount_ok :: "int \<Rightarrow> bool" where
  "amount_ok v \<longleftrightarrow> 0 \<le> v \<and> v < 2 ^ 53"

definition template_ok :: "bitcoind_template \<Rightarrow> bool" where
  "template_ok t \<longleftrightarrow> 0 \<le> bt_height t \<and> bt_height t < 2 ^ 31 \<and> length (bt_prev_hash_hex t) \<le> 64 \<and> length (bt_target_hex t) \<le> 64 \<and> amount_ok (bt_value t) \<and>
     0 \<le> sint (bt_version t) \<and> bt_longpollid t \<noteq> Some [] \<and>
     (\<forall>x \<in> set (bt_txs t). bx_data_hex x \<noteq> None \<and> length (bx_txid_hex x) \<le> 64 \<and> amount_ok (bx_fee x))"

lemma d_of_int_amount: "amount_ok v \<Longrightarrow> d_of_int v = Fin (of_int v)"
  by (simp add: amount_ok_def d_of_int_exact)

lemma rat_trunc_of_int: "rat_trunc (of_int v) = v"
  by (simp add: rat_trunc_def)

lemma d_to_i64_amount: "amount_ok v \<Longrightarrow> d_to_i64 (d_of_int v) = Ok v"
  by (simp add: d_of_int_amount rat_trunc_of_int chk64_def i64_ok_def amount_ok_def)

lemma d_neg_neg: "d_neg (d_neg d) = d"
  by (cases d) auto

lemma d_to_range_int: "amount_ok v \<Longrightarrow> lo \<le> v \<Longrightarrow> v \<le> hi \<Longrightarrow> d_to_range lo hi (d_of_int v) = Ok v"
  by (simp add: d_to_range_def d_of_int_amount rat_trunc_of_int)

lemma parse_txs_json:
  "\<forall>x \<in> set xs. bx_data_hex x \<noteq> None \<and> length (bx_txid_hex x) \<le> 64 \<and> amount_ok (bx_fee x) \<Longrightarrow> parse_txs errlen i (map tx_json xs) = Ok (Got xs)"
proof (induction xs arbitrary: i)
  case (Cons x xs)
  obtain data where d: "bx_data_hex x = Some data" using Cons.prems by auto
  have "num_or_zero (Some (JNum (d_of_int (bx_fee x)))) = Ok (bx_fee x)" using Cons.prems by (simp add: num_or_zero_def d_to_i64_amount)
  moreover have "parse_txs errlen (i + 1) (map tx_json xs) = Ok (Got xs)" using Cons by simp
  moreover have "tx_json x = JObj [(''data'', JStr data), (''txid'', JStr (bx_txid_hex x)), (''fee'', JNum (d_of_int (bx_fee x)))]" by (simp add: tx_json_def text_of_def d)
  ultimately show ?case using Cons.prems d by (cases x) (simp add: copy_hex64_def)
qed simp

lemma template_json_get:
  "obj_get (Some (template_json m t)) ''height'' = Some (JNum (d_of_int (bt_height t)))"
  "obj_get (Some (template_json m t)) ''previousblockhash'' = Some (JStr (bt_prev_hash_hex t))"
  "obj_get (Some (template_json m t)) ''target'' = Some (JStr (bt_target_hex t))"
  "obj_get (Some (template_json m t)) ''bits'' = Some (JStr (hex8 (bt_bits t)))"
  "obj_get (Some (template_json m t)) ''curtime'' = Some (JNum (d_of_int (uint (bt_curtime t))))"
  "obj_get (Some (template_json m t)) ''mintime'' = Some (JNum (d_of_int m))"
  "obj_get (Some (template_json m t)) ''version'' = Some (JNum (d_of_int (sint (bt_version t))))"
  "obj_get (Some (template_json m t)) ''transactions'' = Some (JArr (map tx_json (bt_txs t)))"
  "obj_get (Some (template_json m t)) ''coinbasevalue'' = (if bt_coinbasetxn_hex t = None then Some (JNum (d_of_int (bt_value t))) else None)"
  "obj_get (Some (template_json m t)) ''coinbasetxn'' =
     map_option (\<lambda>h. JObj [(''data'', JStr h), (''fee'', JNum (d_neg (d_of_int (bt_value t))))]) (bt_coinbasetxn_hex t)"
  "obj_get (Some (template_json m t)) ''default_witness_commitment'' = map_option JStr (bt_witness_commitment t)"
  "obj_get (Some (template_json m t)) ''longpollid'' = map_option JStr (bt_longpollid t)"
  "is_obj (Some (template_json m t))"
  by (simp_all add: template_json_def split: option.split)

lemma parse_reward_json:
  assumes "amount_ok (bt_value t)"
  shows "parse_reward errlen (Some (template_json m t)) = Ok (Got (bt_coinbasetxn_hex t, bt_value t))"
  using assms by (cases "bt_coinbasetxn_hex t") (simp_all add: parse_reward_def template_json_get d_to_i64_amount d_neg_neg)

lemma parse_time_json:
  assumes "0 \<le> m" and "m < 2 ^ 32"
  shows "parse_time (d_of_int (uint (v :: u32))) (Some (JNum (d_of_int m))) = Ok (word_of_int (max (uint v) m))"
proof -
  have v: "0 \<le> uint v" "uint v < 2 ^ 32" using uint_lt2p [of v] by simp_all
  have "d_to_u32 (d_of_int (uint v)) = Ok (uint v)" unfolding d_to_u32_def by (rule d_to_range_int) (use v in \<open>simp_all add: amount_ok_def\<close>)
  moreover have "num_or_zero (Some (JNum (d_of_int m))) = Ok m" using assms by (simp add: num_or_zero_def d_to_i64_amount amount_ok_def)
  moreover have "max (uint v) m = (if uint v < m then m else uint v)" by simp
  moreover have "(0 < m \<and> uint v < m) = (uint v < m)" using v(1) by linarith
  ultimately show ?thesis by (simp add: parse_time_def)
qed

text \<open>
  C40: the pool reads a template the way the node means it. Whatever the transfer and the JSON parser are, when
  the answer they deliver spells out a template within range, the template the pool works on is that one:
  each transaction in place, the coinbase of the node or else its value, bits and version to the bit, and
  the time raised to the minimum the node gave.
\<close>

theorem template_print_parse:
  assumes "\<forall>req. net req = Http 200 body" and "parse body = Some (JObj [(''result'', template_json m t), (''error'', JNull), (''id'', who)])"
    and "template_ok t" and "0 \<le> m" and "m < 2 ^ 32"
  shows "bitcoind_get_block_template_lp net parse errlen lpid = Ok (Got (t\<lparr>bt_curtime := word_of_int (max (uint (bt_curtime t)) m)\<rparr>))"
proof -
  have ok: "0 \<le> bt_height t" "bt_height t < 2 ^ 31" "length (bt_prev_hash_hex t) \<le> 64" "length (bt_target_hex t) \<le> 64" "amount_ok (bt_value t)"
    "0 \<le> sint (bt_version t)" "bt_longpollid t \<noteq> Some []" using assms(3) by (simp_all add: template_ok_def)
  have s: "sint (bt_version t) < 2 ^ 31" using sint_lt [of "bt_version t"] by simp
  have h: "d_to_i32 (d_of_int (bt_height t)) = Ok (bt_height t)" "d_to_i32 (d_of_int (sint (bt_version t))) = Ok (sint (bt_version t))"
    unfolding d_to_i32_def by (rule d_to_range_int, use ok s in \<open>simp_all add: amount_ok_def\<close>)+
  have x: "parse_txs errlen 0 (map tx_json (bt_txs t)) = Ok (Got (bt_txs t))" using assms(3) by (intro parse_txs_json) (simp add: template_ok_def)
  have l: "\<not> c_nonempty (bt_longpollid t) \<longrightarrow> bt_longpollid t = None" using ok(7) by (cases "bt_longpollid t") auto
  have vs: "valuestring (map_option JStr z) = z" for z by (cases z) auto
  have n: "\<not> (number (obj_get (Some (template_json m t)) ''coinbasevalue'') = None \<and> \<not> is_obj (obj_get (Some (template_json m t)) ''coinbasetxn''))"
    by (cases "bt_coinbasetxn_hex t") (simp_all add: template_json_get)
  have "bitcoind_parse_template errlen (Some (template_json m t)) = Ok (Got (t\<lparr>bt_curtime := word_of_int (max (uint (bt_curtime t)) m)\<rparr>))"
    unfolding bitcoind_parse_template_def Let_def using n ok(3,4)
    by (simp add: template_json_get h parse_reward_json [OF ok(5)] hex_to_u32_hex8 parse_time_json [OF assms(4,5)] x vs copy_hex64_def) (use l in \<open>cases t; auto\<close>)
  moreover have "rpc_call net parse errlen meth p = Got (template_json m t)" for meth p
    using assms(1,2) by (simp add: rpc_call_def rpc_result_def)
  ultimately show ?thesis by (simp add: bitcoind_get_block_template_lp_def)
qed

theorem template_print_parse_witness:
  "bitcoind_get_block_template_lp (\<lambda>req. Http 200 ''x'') (\<lambda>b. Some (JObj [(''result'', template_json 5 demo_block), (''error'', JNull), (''id'', JStr ''proxy'')])) 512 None =
     Ok (Got (demo_block\<lparr>bt_curtime := 5\<rparr>))"
proof -
  have "template_ok demo_block" by (simp add: template_ok_def demo_block_def amount_ok_def)
  from template_print_parse [OF _ _ this, of "\<lambda>req. Http 200 ''x''" "''x''" "\<lambda>b. Some (JObj [(''result'', template_json 5 demo_block), (''error'', JNull), (''id'', JStr ''proxy'')])" 5 "JStr ''proxy''" 512 None]
  show ?thesis by (simp add: demo_block_def)
qed

end
