(* ===== verification/Spec2Isabelle.thy ===== *)
theory Spec2Isabelle
  imports Prelude Bytes Sha256 Doubles Address Coinbase Pplns Share Template Dedupe Wire Stratum Handlers Submit Framing Session Runs Jobs Node
begin

text \<open>
  A verification development for simplepool, a Stratum mining pool server in C (the repository is under
  src/, its implementation under src/src/).

  \<^bold>\<open>The program.\<close> Miners connect over TCP and speak the Stratum protocol: they subscribe, negotiate version
  bits, authorize under a payout address and submit shares. The server hands out jobs, checks each share
  by rebuilding the block header it stands for and hashing it, and reports accepted shares, rejects and
  found blocks. A watcher thread follows the node: every template becomes a job, in one mode with a PPLNS
  window attached that the coinbase pays. Reports go through a bounded queue to a writer thread that
  stores them in SQLite in batches. A new tip starts a pass over the blocks the pool has found: they are
  confirmed or orphaned, confirmed ones settle the payout queue and, once mature, are distributed over
  the window of shares that produced them.

  \<^bold>\<open>The theories\<close>, in the order of dependence:

  \<^item> \<open>Prelude\<close>: C integers as words, the result type \<open>res\<close> (\<open>Ok\<close>, \<open>Err\<close> for a negative return code,
    \<open>UB\<close> for undefined behaviour), checked 64-bit arithmetic, shared lemmas.
  \<^item> \<open>Bytes\<close> (coinbase.c, stratum.c): the growing buffer, little-endian and varint codecs, hex.
  \<^item> \<open>Sha256\<close> (sha256.c): the streaming hash, equal to the definition of the standard.
  \<^item> \<open>Doubles\<close>: binary64 with round to nearest even over rationals, rounding error, truncated shares.
  \<^item> \<open>Address\<close> (coinbase.c, thunder.c): base58check, bech32 and Thunder addresses.
  \<^item> \<open>Coinbase\<close> (coinbase.c): the builders for one miner, for miner and operator, and for a window.
  \<^item> \<open>Pplns\<close> (pplns.c): the split of a reward and the order of payment.
  \<^item> \<open>Share\<close> (share.c, main.c): targets, difficulties, rates, merkle branches, headers.
  \<^item> \<open>Template\<close> (coinbase.c): parsing and rewriting the coinbase a node dictates; the locale
    \<open>cb_resolver\<close> is the contract between the rewriter and what it puts in place of the reward.
  \<^item> \<open>Wire\<close>, \<open>Dedupe\<close> (stratum.c): JSON values and numbers on the wire; the duplicate set, whose index
    is reached through the locale \<open>key_index\<close>.
  \<^item> \<open>Stratum\<close>, \<open>Handlers\<close>, \<open>Submit\<close>, \<open>Framing\<close> (stratum.c): the state of server and connection, the
    message handlers, the judgement of a share, block assembly, and the receive loop.
  \<^item> \<open>Session\<close>, \<open>Runs\<close> (stratum.c): the server as a step relation over its live connections, and what
    holds in every reachable state; the locale \<open>conn_invariant\<close> turns a property of one connection that
    every message keeps into an invariant of runs.
  \<^item> \<open>Jobs\<close> (stratum.c): reference counts of jobs under free interleaving, with the locale \<open>refcounts\<close>.
  \<^item> \<open>Tables\<close>, \<open>Store\<close>, \<open>Batches\<close> (store.c): the schema, the queue (locale \<open>bounded_queue\<close>), the worker
    cache (locale \<open>name_cache\<close>), the writer and its transactions.
  \<^item> \<open>Ledger\<close>, \<open>Windows\<close>, \<open>Distribution\<close>, \<open>Settlement\<close> (store.c): the status of blocks, the window of a
    template, the distribution of matured blocks and the payout queue.
  \<^item> \<open>Reconcile\<close> (reconcile.c): the confirmation pass over all of these.
  \<^item> \<open>Records\<close> (store.c): the tables the pool publishes about itself.
  \<^item> \<open>Config\<close> (config.c): the configuration file from its bytes to the checked record.
  \<^item> \<open>Pool\<close> (main.c): jobs from templates, the window of a job, prices, the callbacks of the server, the
    tip watcher.
  \<^item> \<open>Node\<close> (bitcoind.c, main.c): collecting a response, the envelope of a call, and what is read out of the
    answers of the node.

  \<^bold>\<open>What is shown.\<close> A submission credits nothing or one share, for the hash of the header it spells out,
  at an allowed difficulty and to an address that can be paid; no hash is credited twice within the
  capacity of the duplicate set; connections never share a search space; the way the network cuts the
  stream makes no difference. A coinbase pays out the whole reward, satoshi by satoshi, whether built or
  rewritten; the split of a window is exact and the job that carries it pays exactly the rows the store
  returned. Jobs are never used after they are freed. The queue is first in, first out; a batch lands
  whole or not at all and says what its events said. Each matured block is distributed at most once and
  for no more than it earned; staged queue rows are applied once or dropped; a pass always gets to the
  distribution. Shares are priced by arithmetic that the log of rates allows to repeat. An accepted
  configuration is well formed, printed settings are read back, and a template is read the way the node
  spells it. Some theorems show where the code
  does less than it says: batches that SQLite abandons on its own, a worker cache that outlives a
  rollback, orphans that are never restored, blocks starved by newer ones, a coinbase template that
  makes the parser read outside its buffer, and a watcher that asks again without a pause.

  \<^bold>\<open>Conventions.\<close> A section under a mutex is one step on the state it protects; where several sections
  interleave (\<open>Jobs\<close>, the queue, the runs of the server) the steps are separate. Clock readings, the JSON
  parser, the answers of the node and the outcome of each call into SQLite (\<open>io\<close>) are arguments; so is the
  sum SQLite computes over doubles (\<open>agg\<close>), about which theorems assume exactness on a binary grid or an
  accuracy of one part in \<open>2^50\<close>. Allocation succeeds. Lengths and ids are natural numbers or integers
  where they cannot reach their width, and words or checked integers where they can. Texts of log and
  error messages are abbreviated where nothing depends on them.

  \<^bold>\<open>Loops.\<close> Almost all are structural or have a measure. The probing loops of the duplicate set are
  partial functions whose \<open>None\<close> means that they run forever, and are shown to end. No definition has fuel.

  \<^bold>\<open>Not modelled\<close>: sockets, threads, signals and the order of start and stop in \<open>main\<close> (input and output
  around the modelled steps); the transfer of bitcoind.c (what libcurl delivers is an argument) and the redis
  publisher broadcast.c (it changes no state of the pool); logging and version strings; the vendored
  cJSON; the dashboard, the payout worker and the tests, which are other programs.
\<close>

section \<open>Properties\<close>

text \<open>C34. The streaming SHA-256 context equals the definition of the standard.\<close>

theorem sha256_meets_standard: "sha256 msg = sha256_spec msg"
  by (rule sha256_streams_spec)

end
